(* ===== verification/Ginkgo_Prelude.thy ===== *)
theory Ginkgo_Prelude
  imports "HOL-Library.Word" "HOL-Library.Multiset"
begin

text \<open>
  Shared vocabulary of the development: names for the machine types of the Rust code, the
  checked and saturating arithmetic of \<^verbatim>\<open>core\<close>, bit-flag sets as produced by the
  \<^verbatim>\<open>bitflags!\<close> macro, and the operations of \<^verbatim>\<open>Vec\<close> and \<^verbatim>\<open>slice\<close>
  that the components use (\<^verbatim>\<open>position\<close>, \<^verbatim>\<open>rposition\<close>,
  \<^verbatim>\<open>swap_remove\<close>, \<^verbatim>\<open>get\<close>), with the lemmas the component proofs share.
\<close>

unbundle bit_operations_syntax

named_theorems flag_simps \<open>facts about bit-flag containment\<close>
named_theorems vec_simps \<open>facts about the vector operations\<close>

type_synonym u8 = "8 word"
type_synonym u32 = "32 word"
type_synonym u64 = "64 word"

section \<open>Unsigned 64-bit quantities as natural numbers\<close>

text \<open>
  Times, counters and addresses of type \<^verbatim>\<open>u64\<close> are natural numbers; every operation
  that could leave the range is written with the bound.
\<close>

definition u64_max :: nat where
  "u64_max = 2 ^ 64 - 1"

definition saturating_add :: "nat \<Rightarrow> nat \<Rightarrow> nat" where
  "saturating_add a b = min (a + b) u64_max"

definition saturating_mul :: "nat \<Rightarrow> nat \<Rightarrow> nat" where
  "saturating_mul a b = min (a * b) u64_max"

definition checked_add :: "nat \<Rightarrow> nat \<Rightarrow> nat option" where
  "checked_add a b = (if a + b \<le> u64_max then Some (a + b) else None)"

definition checked_mul :: "nat \<Rightarrow> nat \<Rightarrow> nat option" where
  "checked_mul a b = (if a * b \<le> u64_max then Some (a * b) else None)"

lemma saturating_add_le: "saturating_add a b \<le> u64_max"
  by (simp add: saturating_add_def)

lemma saturating_add_exact: "a + b \<le> u64_max \<Longrightarrow> saturating_add a b = a + b"
  by (simp add: saturating_add_def)

lemma saturating_mul_exact: "a * b \<le> u64_max \<Longrightarrow> saturating_mul a b = a * b"
  by (simp add: saturating_mul_def)

lemma checked_add_eq_Some [simp]:
  "checked_add a b = Some c \<longleftrightarrow> a + b \<le> u64_max \<and> c = a + b"
  by (auto simp: checked_add_def)

lemma checked_add_eq_None [simp]: "checked_add a b = None \<longleftrightarrow> u64_max < a + b"
  by (auto simp: checked_add_def)

lemma checked_mul_eq_Some [simp]:
  "checked_mul a b = Some c \<longleftrightarrow> a * b \<le> u64_max \<and> c = a * b"
  by (auto simp: checked_mul_def)

section \<open>Bit-flag sets\<close>

definition contains :: "'a::len word \<Rightarrow> 'a word \<Rightarrow> bool" where
  "contains r s \<longleftrightarrow> r AND s = s"

definition intersects :: "'a::len word \<Rightarrow> 'a word \<Rightarrow> bool" where
  "intersects r s \<longleftrightarrow> r AND s \<noteq> 0"

lemma contains_bit: "contains r s \<longleftrightarrow> (\<forall>n. bit s n \<longrightarrow> bit r n)"
proof
  assume c: "contains r s"
  show "\<forall>n. bit s n \<longrightarrow> bit r n"
  proof (intro allI impI)
    fix n assume "bit s n"
    then have "bit (r AND s) n" using c by (simp add: contains_def)
    then show "bit r n" by (simp add: bit_simps)
  qed
next
  assume "\<forall>n. bit s n \<longrightarrow> bit r n"
  then show "contains r s"
    unfolding contains_def by (auto intro: bit_word_eqI simp: bit_simps)
qed

lemma contains_refl [flag_simps, simp]: "contains r r"
  by (simp add: contains_def)

lemma contains_zero [flag_simps, simp]: "contains r 0"
  by (simp add: contains_def)

lemma contains_trans: "contains a b \<Longrightarrow> contains b c \<Longrightarrow> contains a c"
  by (auto simp: contains_bit)

lemma contains_antisym: "contains a b \<Longrightarrow> contains b a \<Longrightarrow> a = b"
  by (metis and.commute contains_def)

lemma contains_or [flag_simps]: "contains r (s OR t) \<longleftrightarrow> contains r s \<and> contains r t"
  by (auto simp: contains_bit bit_simps)

lemma intersects_bit: "intersects r s \<longleftrightarrow> (\<exists>n. bit r n \<and> bit s n)"
proof -
  have "r AND s = 0 \<longleftrightarrow> (\<forall>n. \<not> bit (r AND s) n)"
    by (metis bit_0_eq bit_eq_iff bot_apply bot_bool_def)
  then show ?thesis by (auto simp: intersects_def bit_simps)
qed

lemma intersects_zero [flag_simps, simp]: "\<not> intersects 0 s" "\<not> intersects r 0"
  by (simp_all add: intersects_def)

lemma intersects_or [flag_simps]:
  "intersects (r OR s) t \<longleftrightarrow> intersects r t \<or> intersects s t"
  by (auto simp: intersects_bit bit_simps)

section \<open>Vectors\<close>

text \<open>\<^verbatim>\<open>Vec::get\<close> and \<^verbatim>\<open>slice::get\<close>.\<close>

definition vec_get :: "'a list \<Rightarrow> nat \<Rightarrow> 'a option" where
  "vec_get xs i = (if i < length xs then Some (xs ! i) else None)"

lemma vec_get_Some [vec_simps, simp]: "vec_get xs i = Some x \<longleftrightarrow> i < length xs \<and> x = xs ! i"
  by (auto simp: vec_get_def)

lemma vec_get_None [vec_simps, simp]: "vec_get xs i = None \<longleftrightarrow> length xs \<le> i"
  by (auto simp: vec_get_def)

text \<open>\<^verbatim>\<open>Iterator::position\<close> and \<^verbatim>\<open>rposition\<close>.\<close>

fun position :: "('a \<Rightarrow> bool) \<Rightarrow> 'a list \<Rightarrow> nat option" where
  "position P [] = None"
| "position P (x # xs) = (if P x then Some 0 else map_option Suc (position P xs))"

definition rposition :: "('a \<Rightarrow> bool) \<Rightarrow> 'a list \<Rightarrow> nat option" where
  "rposition P xs = map_option (\<lambda>i. length xs - Suc i) (position P (rev xs))"

lemma position_Some:
  "position P xs = Some i \<longleftrightarrow> i < length xs \<and> P (xs ! i) \<and> (\<forall>j < i. \<not> P (xs ! j))"
proof (induction xs arbitrary: i)
  case (Cons x xs)
  show ?case
    by (cases i) (auto simp: Cons.IH less_Suc_eq_0_disj)
qed simp

lemma position_SomeD:
  "position P xs = Some i \<Longrightarrow> i < length xs \<and> P (xs ! i)"
  by (simp add: position_Some)

lemma position_None [vec_simps]: "position P xs = None \<longleftrightarrow> (\<forall>x \<in> set xs. \<not> P x)"
  by (induction xs) auto

lemma position_cong: "(\<And>x. x \<in> set xs \<Longrightarrow> P x = Q x) \<Longrightarrow> position P xs = position Q xs"
  by (induction xs) auto

lemma rposition_SomeD:
  assumes "rposition P xs = Some i"
  shows "i < length xs" "P (xs ! i)"
proof -
  from assms obtain j where j: "position P (rev xs) = Some j" and i: "i = length xs - Suc j"
    by (auto simp: rposition_def)
  from position_SomeD [OF j] i show "i < length xs" "P (xs ! i)"
    by (auto simp: rev_nth)
qed

lemma rposition_None [vec_simps]: "rposition P xs = None \<longleftrightarrow> (\<forall>x \<in> set xs. \<not> P x)"
  by (simp add: rposition_def position_None)

text \<open>\<^verbatim>\<open>Vec::swap_remove\<close>: the last element takes the place of the removed one.\<close>

definition swap_remove :: "nat \<Rightarrow> 'a list \<Rightarrow> 'a list" where
  "swap_remove i xs =
     (if Suc i = length xs then butlast xs else (butlast xs)[i := last xs])"

lemma length_swap_remove [vec_simps, simp]: "length (swap_remove i xs) = length xs - 1"
  by (simp add: swap_remove_def)

lemma mset_swap_remove:
  assumes "i < length xs"
  shows "add_mset (xs ! i) (mset (swap_remove i xs)) = mset xs"
proof (cases "Suc i = length xs")
  case True
  then have ne: "xs \<noteq> []" by auto
  then have l: "last xs = xs ! i"
    using True by (metis diff_Suc_1 last_conv_nth)
  have "mset xs = mset (butlast xs @ [last xs])"
    using ne by simp
  also have "\<dots> = add_mset (last xs) (mset (butlast xs))"
    by simp
  finally show ?thesis
    using True l by (simp add: swap_remove_def)
next
  case False
  with assms have i: "i < length (butlast xs)" and ne: "xs \<noteq> []"
    by auto
  have "mset xs = mset (butlast xs @ [last xs])"
    using ne by simp
  also have "\<dots> = add_mset (last xs) (mset (butlast xs))"
    by simp
  finally have m: "mset xs = add_mset (last xs) (mset (butlast xs))" .
  have "mset ((butlast xs)[i := last xs]) = add_mset (last xs) (mset (butlast xs) - {#butlast xs ! i#})"
    using i by (rule mset_update)
  moreover have "butlast xs ! i = xs ! i"
    using i by (simp add: nth_butlast)
  moreover have "butlast xs ! i \<in># mset (butlast xs)"
    using i by simp
  ultimately show ?thesis
    using False m by (simp add: swap_remove_def add_mset_commute)
qed

lemma swap_remove_mset:
  "i < length xs \<Longrightarrow> mset (swap_remove i xs) = mset xs - {#xs ! i#}"
  using mset_swap_remove [of i xs] by (metis add_mset_remove_trivial)

lemma set_swap_remove_subset: "i < length xs \<Longrightarrow> set (swap_remove i xs) \<subseteq> set xs"
  using mset_swap_remove [of i xs] by (metis set_mset_add_mset_insert set_mset_mset subset_insertI)

lemma set_swap_remove_distinct:
  assumes "distinct xs" "i < length xs"
  shows "set (swap_remove i xs) = set xs - {xs ! i}"
proof -
  have "mset (swap_remove i xs) = mset xs - {#xs ! i#}"
    using assms(2) by (rule swap_remove_mset)
  then have "set_mset (mset (swap_remove i xs)) = set_mset (mset xs - {#xs ! i#})"
    by simp
  then show ?thesis
    using assms by (auto simp: in_diff_count distinct_count_atmost_1 count_eq_zero_iff split: if_splits)
qed

lemma distinct_swap_remove:
  assumes "distinct xs" "i < length xs"
  shows "distinct (swap_remove i xs)"
proof -
  have "add_mset (xs ! i) (mset (swap_remove i xs)) = mset xs"
    using assms(2) by (rule mset_swap_remove)
  then have "mset (xs ! i # swap_remove i xs) = mset xs"
    by simp
  then have "distinct (xs ! i # swap_remove i xs)"
    using assms(1) by (metis distinct_count_atmost_1 set_mset_mset)
  then show ?thesis by simp
qed

lemma filter_swap_remove_length:
  assumes "i < length xs" "P (xs ! i)"
  shows "Suc (length (filter P (swap_remove i xs))) = length (filter P xs)"
proof -
  have "size (filter_mset P (add_mset (xs ! i) (mset (swap_remove i xs)))) = size (filter_mset P (mset xs))"
    using mset_swap_remove [OF assms(1)] by simp
  then show ?thesis
    using assms(2) by (simp flip: mset_filter)
qed

section \<open>Lists updated at an index\<close>

lemma sum_list_update_add:
  fixes f :: "'a \<Rightarrow> 'b :: cancel_comm_monoid_add"
  assumes "i < length xs"
  shows "sum_list (map f (xs[i := v])) + f (xs ! i) = sum_list (map f xs) + f v"
  using assms
proof (induction xs arbitrary: i)
  case (Cons x xs)
  then show ?case by (cases i) (auto simp: ac_simps)
qed simp

lemma snd_update_same: "snd (xs[k := (n, snd (xs ! k))] ! j) = snd (xs ! j)"
proof (cases "j = k \<and> k < length xs")
  case False
  then show ?thesis by (metis list_update_beyond not_less nth_list_update_neq)
qed simp

lemma fst_update_same: "fst (xs[k := (fst (xs ! k), y)] ! j) = fst (xs ! j)"
proof (cases "j = k \<and> k < length xs")
  case False
  then show ?thesis by (metis list_update_beyond not_less nth_list_update_neq)
qed simp

lemma nth_update_cases:
  "i < length xs \<Longrightarrow> xs[j := v] ! i = (if i = j then v else xs ! i)"
  by (simp add: nth_list_update)

lemma map_upds_nth:
  assumes "distinct ks" "length ks = length vs" "i < length ks"
  shows "(m(ks [\<mapsto>] vs)) (ks ! i) = Some (vs ! i)"
  using assms(2,1,3)
proof (induction ks vs arbitrary: m i rule: list_induct2)
  case (Cons k ks v vs)
  then show ?case
    by (cases i) (auto simp: map_upds_apply_nontin)
qed simp

section \<open>Results\<close>

text \<open>The question mark operator: an error ends the function.\<close>

fun rbind :: "'e + 'a \<Rightarrow> ('a \<Rightarrow> 'e + 'b) \<Rightarrow> 'e + 'b" where
  "rbind (Inl e) f = Inl e"
| "rbind (Inr x) f = f x"

lemma rbind_Inr [simp]: "rbind m f = Inr y \<longleftrightarrow> (\<exists>x. m = Inr x \<and> f x = Inr y)"
  by (cases m) auto

lemma rbind_cong [fundef_cong]: "m = n \<Longrightarrow> (\<And>x. n = Inr x \<Longrightarrow> f x = g x) \<Longrightarrow> rbind m f = rbind n g"
  by (cases n) auto

lemma guard_Inr: "(if c then Inl e else m) = Inr y \<longleftrightarrow> \<not> c \<and> m = Inr y"
  by simp

definition ok_or :: "'a option \<Rightarrow> 'e \<Rightarrow> 'e + 'a" where
  "ok_or x e = (case x of None \<Rightarrow> Inl e | Some y \<Rightarrow> Inr y)"

lemma ok_or_Inr [simp]: "ok_or x e = Inr y \<longleftrightarrow> x = Some y"
  by (auto simp: ok_or_def split: option.splits)

end
