(* ===== verification/Sysapi.thy ===== *)
theory Sysapi
  imports Ginkgo_Prelude
begin

text \<open>
  The kernel ABI types of \<^verbatim>\<open>crates/ginkgo-sysapi/src/lib.rs\<close> that the kernel
  objects use: raw handles, the \<^verbatim>\<open>Rights\<close> and \<^verbatim>\<open>Signals\<close> bit sets,
  status codes, and the enumerations stored in the public snapshots, with their raw encodings.
\<close>

section \<open>Handles, rights and signals\<close>

type_synonym handle = u32
type_synonym rights = u32
type_synonym signals = u32

definition CHANNEL_MAX_BYTES :: nat where "CHANNEL_MAX_BYTES = 16 * 1024"
definition CHANNEL_MAX_HANDLES :: nat where "CHANNEL_MAX_HANDLES = 16"

definition R_READ :: rights where "R_READ = 1"
definition R_WRITE :: rights where "R_WRITE = 2"
definition R_WAIT :: rights where "R_WAIT = 4"
definition R_SIGNAL :: rights where "R_SIGNAL = 8"
definition R_DUPLICATE :: rights where "R_DUPLICATE = 16"
definition R_TRANSFER :: rights where "R_TRANSFER = 32"
definition R_MAP :: rights where "R_MAP = 64"
definition R_MANAGE :: rights where "R_MANAGE = 128"
definition R_INSPECT :: rights where "R_INSPECT = 256"
definition R_TERMINATE :: rights where "R_TERMINATE = 512"
definition R_EXECUTE :: rights where "R_EXECUTE = 1024"
definition R_SCHEDULE :: rights where "R_SCHEDULE = 2048"

lemmas rights_defs = R_READ_def R_WRITE_def R_WAIT_def R_SIGNAL_def R_DUPLICATE_def R_TRANSFER_def
  R_MAP_def R_MANAGE_def R_INSPECT_def R_TERMINATE_def R_EXECUTE_def R_SCHEDULE_def

definition S_READABLE :: signals where "S_READABLE = 1"
definition S_WRITABLE :: signals where "S_WRITABLE = 2"
definition S_PEER_CLOSED :: signals where "S_PEER_CLOSED = 4"
definition S_SIGNALED :: signals where "S_SIGNALED = 8"
definition S_TERMINATED :: signals where "S_TERMINATED = 16"

lemmas signal_defs = S_READABLE_def S_WRITABLE_def S_PEER_CLOSED_def S_SIGNALED_def S_TERMINATED_def

section \<open>Status codes\<close>

datatype status =
    St_Ok | St_InvalidHandle | St_WrongObjectType | St_AccessDenied | St_InvalidRights
  | St_DuplicateHandle | St_MessageTooLarge | St_HandleTableFull | St_ShouldWait | St_PeerClosed
  | St_BufferTooSmall | St_InvalidMessage | St_CyclicTransfer | St_OutOfMemory | St_InvalidArgument
  | St_InvalidAddress | St_OutOfRange | St_AlreadyMapped | St_UnknownSyscall | St_NotFound
  | St_EndOfDirectory | St_Io | St_TimedOut | St_ResourceLimit | St_NotDirectory | St_IsDirectory
  | St_DirectoryNotEmpty | St_AlreadyExists | St_CrossDevice | St_Canceled

fun status_raw :: "status \<Rightarrow> int" where
  "status_raw St_Ok = 0"
| "status_raw St_InvalidHandle = -1"
| "status_raw St_WrongObjectType = -2"
| "status_raw St_AccessDenied = -3"
| "status_raw St_InvalidRights = -4"
| "status_raw St_DuplicateHandle = -5"
| "status_raw St_MessageTooLarge = -6"
| "status_raw St_HandleTableFull = -7"
| "status_raw St_ShouldWait = -8"
| "status_raw St_PeerClosed = -9"
| "status_raw St_BufferTooSmall = -10"
| "status_raw St_InvalidMessage = -11"
| "status_raw St_CyclicTransfer = -12"
| "status_raw St_OutOfMemory = -13"
| "status_raw St_InvalidArgument = -14"
| "status_raw St_InvalidAddress = -15"
| "status_raw St_OutOfRange = -16"
| "status_raw St_AlreadyMapped = -17"
| "status_raw St_UnknownSyscall = -18"
| "status_raw St_NotFound = -19"
| "status_raw St_EndOfDirectory = -20"
| "status_raw St_Io = -21"
| "status_raw St_TimedOut = -22"
| "status_raw St_ResourceLimit = -23"
| "status_raw St_NotDirectory = -24"
| "status_raw St_IsDirectory = -25"
| "status_raw St_DirectoryNotEmpty = -26"
| "status_raw St_AlreadyExists = -27"
| "status_raw St_CrossDevice = -28"
| "status_raw St_Canceled = -29"

definition status_from_raw :: "int \<Rightarrow> status option" where
  "status_from_raw raw =
     (if raw = 0 then Some St_Ok
      else if raw = -1 then Some St_InvalidHandle
      else if raw = -2 then Some St_WrongObjectType
      else if raw = -3 then Some St_AccessDenied
      else if raw = -4 then Some St_InvalidRights
      else if raw = -5 then Some St_DuplicateHandle
      else if raw = -6 then Some St_MessageTooLarge
      else if raw = -7 then Some St_HandleTableFull
      else if raw = -8 then Some St_ShouldWait
      else if raw = -9 then Some St_PeerClosed
      else if raw = -10 then Some St_BufferTooSmall
      else if raw = -11 then Some St_InvalidMessage
      else if raw = -12 then Some St_CyclicTransfer
      else if raw = -13 then Some St_OutOfMemory
      else if raw = -14 then Some St_InvalidArgument
      else if raw = -15 then Some St_InvalidAddress
      else if raw = -16 then Some St_OutOfRange
      else if raw = -17 then Some St_AlreadyMapped
      else if raw = -18 then Some St_UnknownSyscall
      else if raw = -19 then Some St_NotFound
      else if raw = -20 then Some St_EndOfDirectory
      else if raw = -21 then Some St_Io
      else if raw = -22 then Some St_TimedOut
      else if raw = -23 then Some St_ResourceLimit
      else if raw = -24 then Some St_NotDirectory
      else if raw = -25 then Some St_IsDirectory
      else if raw = -26 then Some St_DirectoryNotEmpty
      else if raw = -27 then Some St_AlreadyExists
      else if raw = -28 then Some St_CrossDevice
      else if raw = -29 then Some St_Canceled
      else None)"

lemma status_from_raw_raw: "status_from_raw (status_raw s) = Some s"
  by (cases s) (simp_all add: status_from_raw_def)

lemma status_raw_inj: "status_raw s = status_raw t \<Longrightarrow> s = t"
  by (metis option.inject status_from_raw_raw)

section \<open>Enumerations stored in public snapshots\<close>

datatype system_power_action = PowerOff | Reboot

fun system_power_action_raw :: "system_power_action \<Rightarrow> u32" where
  "system_power_action_raw PowerOff = 1"
| "system_power_action_raw Reboot = 2"

datatype system_power_state =
    Power_Idle | Power_Requested | Power_Quiescing | Power_Synchronizing | Power_Committing
  | Power_Canceled | Power_Failed

fun system_power_state_raw :: "system_power_state \<Rightarrow> u32" where
  "system_power_state_raw Power_Idle = 0"
| "system_power_state_raw Power_Requested = 1"
| "system_power_state_raw Power_Quiescing = 2"
| "system_power_state_raw Power_Synchronizing = 3"
| "system_power_state_raw Power_Committing = 4"
| "system_power_state_raw Power_Canceled = 5"
| "system_power_state_raw Power_Failed = 6"

definition system_power_state_from_raw :: "u32 \<Rightarrow> system_power_state option" where
  "system_power_state_from_raw raw =
     (if raw = 0 then Some Power_Idle
      else if raw = 1 then Some Power_Requested
      else if raw = 2 then Some Power_Quiescing
      else if raw = 3 then Some Power_Synchronizing
      else if raw = 4 then Some Power_Committing
      else if raw = 5 then Some Power_Canceled
      else if raw = 6 then Some Power_Failed
      else None)"

lemma system_power_state_from_raw_raw [simp]:
  "system_power_state_from_raw (system_power_state_raw s) = Some s"
  by (cases s) (simp_all add: system_power_state_from_raw_def)

text \<open>\<^verbatim>\<open>SystemPowerFlags::all()\<close> has the single flag \<^verbatim>\<open>FORCE\<close>.\<close>

definition SYSTEM_POWER_FLAGS_ALL :: u32 where "SYSTEM_POWER_FLAGS_ALL = 1"

datatype request_state =
    Req_Pending | Req_Active | Req_CancelPending | Req_Completing | Req_Completed | Req_TimedOut
  | Req_Canceled | Req_Failed | Req_OwnerTerminated

fun request_state_raw :: "request_state \<Rightarrow> u32" where
  "request_state_raw Req_Pending = 0"
| "request_state_raw Req_Active = 1"
| "request_state_raw Req_CancelPending = 2"
| "request_state_raw Req_Completing = 3"
| "request_state_raw Req_Completed = 4"
| "request_state_raw Req_TimedOut = 5"
| "request_state_raw Req_Canceled = 6"
| "request_state_raw Req_Failed = 7"
| "request_state_raw Req_OwnerTerminated = 8"

definition request_state_from_raw :: "u32 \<Rightarrow> request_state option" where
  "request_state_from_raw raw =
     (if raw = 0 then Some Req_Pending
      else if raw = 1 then Some Req_Active
      else if raw = 2 then Some Req_CancelPending
      else if raw = 3 then Some Req_Completing
      else if raw = 4 then Some Req_Completed
      else if raw = 5 then Some Req_TimedOut
      else if raw = 6 then Some Req_Canceled
      else if raw = 7 then Some Req_Failed
      else if raw = 8 then Some Req_OwnerTerminated
      else None)"

lemma request_state_from_raw_raw [simp]:
  "request_state_from_raw (request_state_raw s) = Some s"
  by (cases s) (simp_all add: request_state_from_raw_def)

datatype thread_scheduling_class = Class_Critical | Class_Audio | Class_Interactive | Class_Normal | Class_Background

text \<open>\<^verbatim>\<open>ProcessState\<close>, \<^verbatim>\<open>ProcessTerminationCause\<close> and
  \<^verbatim>\<open>ProcessFault\<close> are only ever stored as raw \<^verbatim>\<open>u32\<close> values.\<close>

datatype process_state = Proc_Running | Proc_Terminated

fun process_state_raw :: "process_state \<Rightarrow> u32" where
  "process_state_raw Proc_Running = 0"
| "process_state_raw Proc_Terminated = 1"

datatype process_termination_cause = Cause_None | Cause_Exited | Cause_Terminated | Cause_Faulted

fun process_termination_cause_raw :: "process_termination_cause \<Rightarrow> u32" where
  "process_termination_cause_raw Cause_None = 0"
| "process_termination_cause_raw Cause_Exited = 1"
| "process_termination_cause_raw Cause_Terminated = 2"
| "process_termination_cause_raw Cause_Faulted = 3"

datatype process_fault =
    Fault_None | Fault_PageFault | Fault_GeneralProtection | Fault_InvalidOpcode
  | Fault_InvalidUserContext | Fault_ResourceLimit | Fault_Other | Fault_OutOfMemory

fun process_fault_raw :: "process_fault \<Rightarrow> u32" where
  "process_fault_raw Fault_None = 0"
| "process_fault_raw Fault_PageFault = 1"
| "process_fault_raw Fault_GeneralProtection = 2"
| "process_fault_raw Fault_InvalidOpcode = 3"
| "process_fault_raw Fault_InvalidUserContext = 4"
| "process_fault_raw Fault_ResourceLimit = 5"
| "process_fault_raw Fault_Other = 6"
| "process_fault_raw Fault_OutOfMemory = 7"

datatype object_type =
    Type_Channel | Type_SharedMemory | Type_Window | Type_FilesystemRoot | Type_File
  | Type_RandomSource | Type_Process | Type_ApplicationData | Type_Directory | Type_SystemPower
  | Type_SchedulingAuthority | Type_Request

section \<open>Messages and wait items\<close>

record message_info =
  mi_byte_count :: nat
  mi_handle_count :: nat

text \<open>
  \<^verbatim>\<open>MessageInfo::new(byte_count as u32, handle_count as u16)\<close> truncates to 32 and 16 bits.
\<close>

definition MessageInfo_new :: "nat \<Rightarrow> nat \<Rightarrow> message_info" where
  "MessageInfo_new bytes handles =
     \<lparr>mi_byte_count = bytes mod 2 ^ 32, mi_handle_count = handles mod 2 ^ 16\<rparr>"

record wait_item =
  wi_handle :: handle
  wi_wait_for :: signals
  wi_pending :: signals

section \<open>Errors of kernel-object operations\<close>

datatype ipc_error =
    InvalidHandle | WrongObjectType | AccessDenied | InvalidRights | DuplicateHandle
  | CyclicTransfer | MessageTooLarge | HandleTableFull | WaiterLimit | InvalidMessage
  | AlreadyExists | OutOfMemory | ShouldWait | PeerClosed | BufferTooSmall message_info

fun ipc_error_status :: "ipc_error \<Rightarrow> status" where
  "ipc_error_status InvalidHandle = St_InvalidHandle"
| "ipc_error_status WrongObjectType = St_WrongObjectType"
| "ipc_error_status AccessDenied = St_AccessDenied"
| "ipc_error_status InvalidRights = St_InvalidRights"
| "ipc_error_status DuplicateHandle = St_DuplicateHandle"
| "ipc_error_status CyclicTransfer = St_CyclicTransfer"
| "ipc_error_status MessageTooLarge = St_MessageTooLarge"
| "ipc_error_status HandleTableFull = St_HandleTableFull"
| "ipc_error_status WaiterLimit = St_ResourceLimit"
| "ipc_error_status InvalidMessage = St_InvalidMessage"
| "ipc_error_status AlreadyExists = St_AlreadyExists"
| "ipc_error_status OutOfMemory = St_OutOfMemory"
| "ipc_error_status ShouldWait = St_ShouldWait"
| "ipc_error_status PeerClosed = St_PeerClosed"
| "ipc_error_status (BufferTooSmall _) = St_BufferTooSmall"

type_synonym 'a ipc = "ipc_error + 'a"

text \<open>
  The outcome of the fallible allocations of one call: \<open>al k\<close> tells whether the \<open>k\<close>-th
  allocation the call attempts (\<^verbatim>\<open>try_reserve\<close>, \<^verbatim>\<open>Arc::try_new\<close>)
  succeeds. Theorems quantify over it, so they hold for every pattern of allocation failures.
\<close>

type_synonym allocs = "nat \<Rightarrow> bool"

definition alloc_skip :: "nat \<Rightarrow> allocs \<Rightarrow> allocs" where
  "alloc_skip n al k = al (n + k)"

text \<open>\<^verbatim>\<open>try_vec_with_capacity\<close>: a request for no capacity does not allocate.\<close>

definition try_vec_with_capacity :: "allocs \<Rightarrow> nat \<Rightarrow> nat \<Rightarrow> bool" where
  "try_vec_with_capacity al k capacity \<longleftrightarrow> capacity = 0 \<or> al k"

end
