(* ===== verification/Signal_Waiters.thy ===== *)
theory Signal_Waiters
  imports Sysapi
begin

text \<open>
  Direct signal notification of \<^verbatim>\<open>crates/ginkgo-ipc/src/kernel.rs\<close>: the waiter lists of
  channel sides, window roles, processes and requests, registration under the current-level check,
  and the mark-then-drain notification loop. Observers are identified by numbers; a notification
  that reaches a live observer is an event \<open>(observer, token)\<close>. An observer callback only
  queues its token (see \<open>Wait_Runtime\<close>), so the loop is not re-entered by it.

  The locale \<open>waitable\<close> is the contract of an object facet with signals and waiters; its
  lemmas say that a facet is never left with a waiter whose condition already holds.
\<close>

section \<open>Waiters\<close>

definition WAITERS_PER_FACET_LIMIT :: nat where "WAITERS_PER_FACET_LIMIT = 256"

type_synonym wait_token = nat
type_synonym observer = nat
type_synonym notification = "observer \<times> wait_token"

record signal_waiter =
  sw_token :: wait_token
  sw_wait_for :: signals
  sw_observer :: observer
  sw_notifying :: bool

definition WaitToken_from_raw :: "nat \<Rightarrow> wait_token option" where
  "WaitToken_from_raw raw = (if raw = 0 then None else Some raw)"

definition register_signal_waiter ::
  "allocs \<Rightarrow> signal_waiter list \<Rightarrow> wait_token \<Rightarrow> signals \<Rightarrow> observer \<Rightarrow> unit ipc \<times> signal_waiter list" where
  "register_signal_waiter al waiters token wait_for obs =
     (if length waiters \<ge> WAITERS_PER_FACET_LIMIT then (Inl WaiterLimit, waiters)
      else if \<not> al 0 then (Inl OutOfMemory, waiters)
      else (Inr (), waiters @
        [\<lparr>sw_token = token, sw_wait_for = wait_for, sw_observer = obs, sw_notifying = False\<rparr>]))"

definition mark_matching_waiters :: "signal_waiter list \<Rightarrow> signals \<Rightarrow> signal_waiter list" where
  "mark_matching_waiters waiters current =
     map (\<lambda>w. w\<lparr>sw_notifying := sw_notifying w \<or> intersects current (sw_wait_for w)\<rparr>) waiters"

definition take_notifying_waiter :: "signal_waiter list \<Rightarrow> (signal_waiter \<times> signal_waiter list) option" where
  "take_notifying_waiter waiters =
     (case position sw_notifying waiters of
        None \<Rightarrow> None
      | Some index \<Rightarrow> Some (waiters ! index, swap_remove index waiters))"

definition notify_one_waiter :: "(observer \<Rightarrow> bool) \<Rightarrow> signal_waiter \<Rightarrow> notification list" where
  "notify_one_waiter alive w = (if alive (sw_observer w) then [(sw_observer w, sw_token w)] else [])"

lemma take_notifying_waiter_length:
  "take_notifying_waiter ws = Some (w, ws') \<Longrightarrow> length ws' < length ws"
  by (auto simp: take_notifying_waiter_def length_swap_remove dest: position_SomeD split: option.splits)

text \<open>The \<^verbatim>\<open>loop\<close> of the \<^verbatim>\<open>notify_*_waiters\<close> functions.\<close>

function drain_notifying :: "(observer \<Rightarrow> bool) \<Rightarrow> signal_waiter list \<Rightarrow> notification list \<times> signal_waiter list" where
  "drain_notifying alive waiters =
     (case take_notifying_waiter waiters of
        None \<Rightarrow> ([], waiters)
      | Some (w, rest) \<Rightarrow>
          (case drain_notifying alive rest of (evs, ws) \<Rightarrow> (notify_one_waiter alive w @ evs, ws)))"
  by pat_completeness auto
termination
  by (relation "measure (length \<circ> snd)") (auto dest: take_notifying_waiter_length)

declare drain_notifying.simps [simp del]

definition notify_waiters :: "(observer \<Rightarrow> bool) \<Rightarrow> signals \<Rightarrow> signal_waiter list \<Rightarrow> notification list \<times> signal_waiter list" where
  "notify_waiters alive current waiters = drain_notifying alive (mark_matching_waiters waiters current)"

text \<open>The four arms of \<^verbatim>\<open>WaitFacet::register\<close> and \<^verbatim>\<open>WaitFacet::unregister\<close> differ only in the state.\<close>

definition facet_register ::
  "allocs \<Rightarrow> signals \<Rightarrow> signal_waiter list \<Rightarrow> wait_token \<Rightarrow> signals \<Rightarrow> observer \<Rightarrow> bool ipc \<times> signal_waiter list" where
  "facet_register al current waiters token wait_for obs =
     (if intersects current wait_for then (Inr False, waiters)
      else
        (case register_signal_waiter al waiters token wait_for obs of
           (Inl e, ws) \<Rightarrow> (Inl e, ws)
         | (Inr _, ws) \<Rightarrow> (Inr True, ws)))"

definition facet_unregister :: "wait_token \<Rightarrow> signal_waiter list \<Rightarrow> signal_waiter list" where
  "facet_unregister token waiters = filter (\<lambda>w. sw_token w \<noteq> token) waiters"

section \<open>The notification loop\<close>

lemma drain_notifying_conj:
  "drain_notifying alive ws = (evs, ws') \<Longrightarrow>
     mset ws' = filter_mset (\<lambda>w. \<not> sw_notifying w) (mset ws) \<and>
     mset evs = image_mset (\<lambda>w. (sw_observer w, sw_token w))
       (filter_mset (\<lambda>w. sw_notifying w \<and> alive (sw_observer w)) (mset ws))"
proof (induction alive ws arbitrary: evs ws' rule: drain_notifying.induct)
  case (1 alive ws)
  show ?case
  proof (cases "take_notifying_waiter ws")
    case None
    then have "\<forall>w \<in> set ws. \<not> sw_notifying w"
      by (auto simp: take_notifying_waiter_def position_None split: option.splits)
    then have "filter_mset (\<lambda>w. \<not> sw_notifying w) (mset ws) = mset ws"
      "filter_mset (\<lambda>w. sw_notifying w \<and> alive (sw_observer w)) (mset ws) = {#}"
      by (simp_all flip: mset_filter add: filter_empty_conv)
    with None "1.prems" show ?thesis
      by (simp add: drain_notifying.simps [of alive ws])
  next
    case (Some p)
    obtain w rest where p: "p = (w, rest)" by fastforce
    with Some obtain i where i: "position sw_notifying ws = Some i" "w = ws ! i" "rest = swap_remove i ws"
      by (auto simp: take_notifying_waiter_def split: option.splits)
    then have n: "i < length ws" "sw_notifying w" by (auto dest: position_SomeD)
    have m: "mset ws = add_mset w (mset rest)"
      using n(1) by (simp add: i swap_remove_mset)
    obtain evs1 where r: "drain_notifying alive rest = (evs1, ws')" and e: "evs = notify_one_waiter alive w @ evs1"
      using "1.prems" Some p by (auto simp: drain_notifying.simps [of alive ws] split: prod.splits)
    note IH = "1.IH" [OF Some p [symmetric] r]
    show ?thesis
      using n(2) IH by (simp add: m e notify_one_waiter_def)
  qed
qed

lemmas drain_notifying_spec = drain_notifying_conj [THEN conjunct1] drain_notifying_conj [THEN conjunct2]

text \<open>A waiter list is quiet at a signal level when nobody in it waits for a signal that is up.\<close>

definition quiet :: "signals \<Rightarrow> signal_waiter list \<Rightarrow> bool" where
  "quiet current ws \<longleftrightarrow> (\<forall>w \<in> set ws. \<not> sw_notifying w \<and> \<not> intersects current (sw_wait_for w))"

lemma quiet_Nil [simp]: "quiet c []"
  by (simp add: quiet_def)

lemma quiet_mono: "quiet c ws \<Longrightarrow> contains c c' \<Longrightarrow> quiet c' ws"
  by (auto simp: quiet_def intersects_bit contains_bit)

lemma quiet_subset: "quiet c ws \<Longrightarrow> set ws' \<subseteq> set ws \<Longrightarrow> quiet c ws'"
  by (auto simp: quiet_def)

lemma quiet_unregister: "quiet c ws \<Longrightarrow> quiet c (facet_unregister token ws)"
  by (auto simp: quiet_def facet_unregister_def)

lemma facet_register_quiet:
  assumes "quiet c ws" "facet_register al c ws token wait_for obs = (r, ws')"
  shows "quiet c ws'"
  using assms by (auto simp: facet_register_def register_signal_waiter_def quiet_def split: if_splits)

lemma facet_register_limit:
  assumes "length ws \<le> WAITERS_PER_FACET_LIMIT" "facet_register al c ws token wait_for obs = (r, ws')"
  shows "length ws' \<le> WAITERS_PER_FACET_LIMIT"
  using assms by (auto simp: facet_register_def register_signal_waiter_def split: if_splits)

lemma mark_matching_waiters_quiet:
  "quiet c ws \<Longrightarrow> mark_matching_waiters ws c' =
     map (\<lambda>w. w\<lparr>sw_notifying := intersects c' (sw_wait_for w)\<rparr>) ws"
  by (simp add: mark_matching_waiters_def quiet_def)

lemma notify_waiters_quiet:
  assumes "notify_waiters alive c ws = (evs, ws')"
  shows "quiet c ws'"
proof -
  have "set ws' = {w \<in> set (mark_matching_waiters ws c). \<not> sw_notifying w}"
    using drain_notifying_spec(1) [OF assms [unfolded notify_waiters_def]]
    by (metis mset_filter set_filter set_mset_mset)
  then show ?thesis by (auto simp: quiet_def mark_matching_waiters_def)
qed

lemma notify_waiters_length:
  assumes "notify_waiters alive c ws = (evs, ws')"
  shows "length ws' \<le> length ws"
proof -
  have "size (mset ws') \<le> size (mset (mark_matching_waiters ws c))"
    using drain_notifying_spec(1) [OF assms [unfolded notify_waiters_def]]
    by (metis mset_filter length_filter_le size_mset)
  then show ?thesis by (simp add: mark_matching_waiters_def)
qed

lemma notify_waiters_Nil [simp]: "notify_waiters alive c [] = ([], [])"
  by (simp add: notify_waiters_def mark_matching_waiters_def drain_notifying.simps take_notifying_waiter_def)

text \<open>From a quiet list exactly the waiters whose condition now holds are notified and removed.\<close>

lemma notify_waiters_exact:
  assumes "notify_waiters alive c' ws = (evs, ws')" "\<forall>w \<in> set ws. \<not> sw_notifying w"
  shows "mset ws' = mset (filter (\<lambda>w. \<not> intersects c' (sw_wait_for w)) ws)"
    and "mset evs = mset (map (\<lambda>w. (sw_observer w, sw_token w))
           (filter (\<lambda>w. intersects c' (sw_wait_for w) \<and> alive (sw_observer w)) ws))"
proof -
  let ?m = "mark_matching_waiters ws c'"
  have m: "?m = map (\<lambda>w. w\<lparr>sw_notifying := intersects c' (sw_wait_for w)\<rparr>) ws"
    using assms(2) by (simp add: mark_matching_waiters_def)
  have "filter (\<lambda>w. \<not> sw_notifying w) ?m = filter (\<lambda>w. \<not> intersects c' (sw_wait_for w)) ws"
    using assms(2) unfolding m by (induction ws) auto
  with drain_notifying_spec(1) [OF assms(1) [unfolded notify_waiters_def]]
  show "mset ws' = mset (filter (\<lambda>w. \<not> intersects c' (sw_wait_for w)) ws)"
    by (metis mset_filter)
  have e: "map (\<lambda>w. (sw_observer w, sw_token w)) (filter (\<lambda>w. sw_notifying w \<and> alive (sw_observer w)) ?m)
      = map (\<lambda>w. (sw_observer w, sw_token w)) (filter (\<lambda>w. intersects c' (sw_wait_for w) \<and> alive (sw_observer w)) ws)"
    unfolding m by (induction ws) auto
  have "mset evs = mset (map (\<lambda>w. (sw_observer w, sw_token w))
      (filter (\<lambda>w. sw_notifying w \<and> alive (sw_observer w)) ?m))"
    using drain_notifying_spec(2) [OF assms(1) [unfolded notify_waiters_def]] by simp
  then show "mset evs = mset (map (\<lambda>w. (sw_observer w, sw_token w))
           (filter (\<lambda>w. intersects c' (sw_wait_for w) \<and> alive (sw_observer w)) ws))"
    unfolding e .
qed

section \<open>Interface: a waitable facet\<close>

locale waitable =
  fixes signals_of :: "'s \<Rightarrow> signals"
    and waiters_of :: "'s \<Rightarrow> signal_waiter list"
    and set_waiters :: "signal_waiter list \<Rightarrow> 's \<Rightarrow> 's"
    and notify :: "(observer \<Rightarrow> bool) \<Rightarrow> 's \<Rightarrow> notification list \<times> 's"
  assumes signals_set: "signals_of (set_waiters ws s) = signals_of s"
    and waiters_set: "waiters_of (set_waiters ws s) = ws"
    and notify_eq: "notify alive s =
          (case notify_waiters alive (signals_of s) (waiters_of s) of (evs, ws) \<Rightarrow> (evs, set_waiters ws s))"
begin

lemma notify_signals: "signals_of (snd (notify alive s)) = signals_of s"
  by (simp add: notify_eq signals_set split: prod.splits)

lemma notify_quiet: "quiet (signals_of (snd (notify alive s))) (waiters_of (snd (notify alive s)))"
  by (auto simp: notify_eq signals_set waiters_set notify_waiters_quiet split: prod.splits)

lemma notify_limit: "length (waiters_of (snd (notify alive s))) \<le> length (waiters_of s)"
  by (auto simp: notify_eq waiters_set notify_waiters_length split: prod.splits)

lemma notify_wakes:
  assumes "quiet c (waiters_of s)" "w \<in> set (waiters_of s)" "intersects (signals_of s) (sw_wait_for w)"
    "alive (sw_observer w)"
  shows "(sw_observer w, sw_token w) \<in> set (fst (notify alive s))"
proof -
  obtain evs ws where n: "notify_waiters alive (signals_of s) (waiters_of s) = (evs, ws)" by fastforce
  have "\<forall>w \<in> set (waiters_of s). \<not> sw_notifying w" using assms(1) by (simp add: quiet_def)
  from notify_waiters_exact(2) [OF n this] have "set evs = set (map (\<lambda>w. (sw_observer w, sw_token w))
      (filter (\<lambda>w. intersects (signals_of s) (sw_wait_for w) \<and> alive (sw_observer w)) (waiters_of s)))"
    by (metis set_mset_mset)
  with assms(2-) show ?thesis by (auto simp: notify_eq n)
qed

lemma notify_keeps:
  assumes "quiet c (waiters_of s)" "w \<in> set (waiters_of s)" "\<not> intersects (signals_of s) (sw_wait_for w)"
  shows "w \<in> set (waiters_of (snd (notify alive s)))"
proof -
  obtain evs ws where n: "notify_waiters alive (signals_of s) (waiters_of s) = (evs, ws)" by fastforce
  have "\<forall>w \<in> set (waiters_of s). \<not> sw_notifying w" using assms(1) by (simp add: quiet_def)
  from notify_waiters_exact(1) [OF n this]
  have "set ws = set (filter (\<lambda>w. \<not> intersects (signals_of s) (sw_wait_for w)) (waiters_of s))"
    by (metis set_mset_mset)
  with assms(2-) show ?thesis by (auto simp: notify_eq n waiters_set)
qed

end

end
