(* ===== verification/Handle_Table.thy ===== *)
theory Handle_Table
  imports Sysapi
begin

text \<open>
  The process-local capability table of \<^verbatim>\<open>crates/ginkgo-ipc/src/kernel.rs\<close>: slots with
  a 20-bit generation, raw handles that pack slot index and generation, reservation of vacant
  slots, insertion, closing, duplication and the atomic batch transfer between two tables.
  The table is polymorphic in the object reference \<open>'o\<close>; the theory \<open>Kernel_Heap\<close>
  instantiates it with references into the kernel-object store. A table is the list of its slots.

  The locale \<open>generation_slots\<close> states once why a stale generation-tagged identity never
  becomes valid again; it is interpreted here on the handle table.
\<close>

section \<open>Slots and raw handles\<close>

definition HANDLE_TABLE_CAPACITY :: nat where "HANDLE_TABLE_CAPACITY = 256"
definition HANDLE_INDEX_BITS :: nat where "HANDLE_INDEX_BITS = 12"
definition HANDLE_INDEX_MASK :: u32 where "HANDLE_INDEX_MASK = 4095"
definition HANDLE_GENERATION_MASK :: u32 where "HANDLE_GENERATION_MASK = 1048575"

record 'o handle_entry =
  he_object :: 'o
  he_rights :: rights

record 'o handle_slot =
  hs_generation :: u32
  hs_entry :: "'o handle_entry option"

type_synonym 'o handle_table = "'o handle_slot list"

definition handle_from_parts :: "nat \<Rightarrow> u32 \<Rightarrow> handle" where
  "handle_from_parts index generation = push_bit HANDLE_INDEX_BITS generation OR of_nat index"

definition handle_parts :: "handle \<Rightarrow> (nat \<times> u32) option" where
  "handle_parts raw =
     (let generation = drop_bit HANDLE_INDEX_BITS raw;
          index = unat (raw AND HANDLE_INDEX_MASK)
      in if raw \<noteq> 0 \<and> generation \<noteq> 0 then Some (index, generation) else None)"

definition vacant_slot :: "'o handle_slot" where
  "vacant_slot = \<lparr>hs_generation = 1, hs_entry = None\<rparr>"

definition advance_generation :: "'o handle_slot \<Rightarrow> 'o handle_slot" where
  "advance_generation s =
     (if hs_generation s = HANDLE_GENERATION_MASK then s\<lparr>hs_generation := 0\<rparr>
      else s\<lparr>hs_generation := hs_generation s + 1\<rparr>)"

definition table_len :: "'o handle_table \<Rightarrow> nat" where
  "table_len t = length (filter (\<lambda>s. hs_entry s \<noteq> None) t)"

section \<open>Lookup\<close>

definition validated_slot :: "'o handle_table \<Rightarrow> handle \<Rightarrow> (nat \<times> u32) ipc" where
  "validated_slot t h =
     (case handle_parts h of
        None \<Rightarrow> Inl InvalidHandle
      | Some (index, generation) \<Rightarrow>
          (case vec_get t index of
             None \<Rightarrow> Inl InvalidHandle
           | Some s \<Rightarrow>
               if hs_generation s \<noteq> generation \<or> hs_entry s = None then Inl InvalidHandle
               else Inr (index, generation)))"

definition table_entry :: "'o handle_table \<Rightarrow> handle \<Rightarrow> 'o handle_entry ipc" where
  "table_entry t h =
     (case validated_slot t h of
        Inl e \<Rightarrow> Inl e
      | Inr (index, _) \<Rightarrow>
          (case hs_entry (t ! index) of None \<Rightarrow> Inl InvalidHandle | Some en \<Rightarrow> Inr en))"

definition object_with_rights :: "'o handle_table \<Rightarrow> handle \<Rightarrow> rights \<Rightarrow> 'o ipc" where
  "object_with_rights t h required =
     (case table_entry t h of
        Inl e \<Rightarrow> Inl e
      | Inr en \<Rightarrow>
          if contains (he_rights en) required then Inr (he_object en) else Inl AccessDenied)"

definition handle_rights :: "'o handle_table \<Rightarrow> handle \<Rightarrow> rights ipc" where
  "handle_rights t h = map_sum id he_rights (table_entry t h)"

section \<open>Reservation, insertion, removal\<close>

definition slot_vacant :: "'o handle_slot \<Rightarrow> bool" where
  "slot_vacant s \<longleftrightarrow> hs_entry s = None \<and> hs_generation s \<noteq> 0"

definition vacant_indices :: "'o handle_table \<Rightarrow> nat list" where
  "vacant_indices t = filter (\<lambda>i. slot_vacant (t ! i)) [0..<length t]"

definition reserve_slots :: "allocs \<Rightarrow> nat \<Rightarrow> 'o handle_table \<Rightarrow> nat list ipc \<times> 'o handle_table" where
  "reserve_slots al n t =
     (if n = 0 then (Inr [], t)
      else
        let vacant = length (filter slot_vacant t);
            available = vacant + (HANDLE_TABLE_CAPACITY - length t)
        in if n > available then (Inl HandleTableFull, t)
           else if \<not> al 0 then (Inl OutOfMemory, t)
           else
             let reserved = take n (vacant_indices t)
             in if length reserved = n then (Inr reserved, t)
                else
                  let new_slot_count = n - length reserved
                  in if \<not> al 1 then (Inl OutOfMemory, t)
                     else (Inr (reserved @ [length t..<length t + new_slot_count]),
                           t @ replicate new_slot_count vacant_slot))"

definition insert_reserved :: "nat \<Rightarrow> 'o \<Rightarrow> rights \<Rightarrow> 'o handle_table \<Rightarrow> handle \<times> 'o handle_table" where
  "insert_reserved index obj rights t =
     (handle_from_parts index (hs_generation (t ! index)),
      t[index := (t ! index)\<lparr>hs_entry := Some \<lparr>he_object = obj, he_rights = rights\<rparr>\<rparr>])"

text \<open>\<^verbatim>\<open>entry.take()\<close> followed by \<^verbatim>\<open>advance_generation()\<close>.\<close>

definition take_entry :: "nat \<Rightarrow> 'o handle_table \<Rightarrow> 'o handle_table" where
  "take_entry index t = t[index := advance_generation ((t ! index)\<lparr>hs_entry := None\<rparr>)]"

text \<open>
  \<^verbatim>\<open>handle_close\<close> up to the final \<^verbatim>\<open>drop(entry)\<close>, which runs on the returned entry.
\<close>

definition table_close :: "handle \<Rightarrow> 'o handle_table \<Rightarrow> 'o handle_entry ipc \<times> 'o handle_table" where
  "table_close h t =
     (case validated_slot t h of
        Inl e \<Rightarrow> (Inl e, t)
      | Inr (index, _) \<Rightarrow>
          (case hs_entry (t ! index) of
             None \<Rightarrow> (Inl InvalidHandle, t)
           | Some en \<Rightarrow> (Inr en, take_entry index t)))"

definition table_duplicate ::
  "allocs \<Rightarrow> handle \<Rightarrow> rights \<Rightarrow> 'o handle_table \<Rightarrow> handle ipc \<times> 'o handle_table" where
  "table_duplicate al h rights t =
     (case table_entry t h of
        Inl e \<Rightarrow> (Inl e, t)
      | Inr en \<Rightarrow>
          if \<not> contains (he_rights en) R_DUPLICATE then (Inl AccessDenied, t)
          else if \<not> contains (he_rights en) rights then (Inl InvalidRights, t)
          else
            (case reserve_slots al 1 t of
               (Inl e, t') \<Rightarrow> (Inl e, t')
             | (Inr slots, t') \<Rightarrow>
                 (case insert_reserved (hd slots) (he_object en) rights t' of
                    (h', t'') \<Rightarrow> (Inr h', t''))))"

section \<open>Atomic transfer between two tables\<close>

datatype handle_operation = Move | Duplicate

record handle_operation_disposition =
  hod_handle :: handle
  hod_operation :: handle_operation
  hod_rights :: rights

datatype 'o prepared_handle = Prep_Move nat rights | Prep_Duplicate "'o handle_entry"

definition required_right :: "handle_operation \<Rightarrow> rights" where
  "required_right op = (case op of Move \<Rightarrow> R_TRANSFER | Duplicate \<Rightarrow> R_DUPLICATE)"

text \<open>One iteration of the validation loop; \<open>prior\<close> are the handles of the earlier dispositions.\<close>

definition prepare_handle ::
  "'o handle_table \<Rightarrow> handle list \<Rightarrow> handle_operation_disposition \<Rightarrow> 'o prepared_handle ipc" where
  "prepare_handle t prior d =
     (if hod_handle d \<in> set prior then Inl DuplicateHandle
      else
        (case validated_slot t (hod_handle d) of
           Inl e \<Rightarrow> Inl e
         | Inr (index, _) \<Rightarrow>
             (case hs_entry (t ! index) of
                None \<Rightarrow> Inl InvalidHandle
              | Some en \<Rightarrow>
                  if \<not> contains (he_rights en) (required_right (hod_operation d)) then Inl AccessDenied
                  else if \<not> contains (he_rights en) (hod_rights d) then Inl InvalidRights
                  else
                    (case hod_operation d of
                       Move \<Rightarrow> Inr (Prep_Move index (hod_rights d))
                     | Duplicate \<Rightarrow> Inr (Prep_Duplicate (en\<lparr>he_rights := hod_rights d\<rparr>))))))"

fun prepare_handles ::
  "'o handle_table \<Rightarrow> handle list \<Rightarrow> handle_operation_disposition list \<Rightarrow> 'o prepared_handle list ipc" where
  "prepare_handles t prior [] = Inr []"
| "prepare_handles t prior (d # ds) =
     (case prepare_handle t prior d of
        Inl e \<Rightarrow> Inl e
      | Inr p \<Rightarrow>
          (case prepare_handles t (prior @ [hod_handle d]) ds of
             Inl e \<Rightarrow> Inl e
           | Inr ps \<Rightarrow> Inr (p # ps)))"

text \<open>
  The commit of one prepared handle: a move takes the source entry (the code
  \<^verbatim>\<open>expect\<close>s it to be present) and rewrites its rights; a duplicate leaves the source alone.
\<close>

definition commit_handle :: "'o prepared_handle \<Rightarrow> 'o handle_table \<Rightarrow> 'o handle_entry \<times> 'o handle_table" where
  "commit_handle p t =
     (case p of
        Prep_Move index rights \<Rightarrow> ((the (hs_entry (t ! index)))\<lparr>he_rights := rights\<rparr>, take_entry index t)
      | Prep_Duplicate en \<Rightarrow> (en, t))"

fun commit_handles :: "'o prepared_handle list \<Rightarrow> 'o handle_table \<Rightarrow> 'o handle_entry list \<times> 'o handle_table" where
  "commit_handles [] t = ([], t)"
| "commit_handles (p # ps) t =
     (case commit_handle p t of
        (en, t1) \<Rightarrow> (case commit_handles ps t1 of (ens, t2) \<Rightarrow> (en # ens, t2)))"

text \<open>Writing entries into reserved destination slots, in order.\<close>

fun install_entries :: "('o handle_entry \<times> nat) list \<Rightarrow> 'o handle_table \<Rightarrow> handle list \<times> 'o handle_table" where
  "install_entries [] t = ([], t)"
| "install_entries ((en, index) # rest) t =
     (case insert_reserved index (he_object en) (he_rights en) t of
        (h, t1) \<Rightarrow> (case install_entries rest t1 of (hs, t2) \<Rightarrow> (h # hs, t2)))"

definition handle_transfer_batch_between ::
  "allocs \<Rightarrow> 'o handle_table \<Rightarrow> 'o handle_table \<Rightarrow> handle_operation_disposition list
     \<Rightarrow> handle list ipc \<times> 'o handle_table \<times> 'o handle_table" where
  "handle_transfer_batch_between al src dst ds =
     (if \<not> try_vec_with_capacity al 0 (length ds) then (Inl OutOfMemory, src, dst)
      else
        (case prepare_handles src [] ds of
           Inl e \<Rightarrow> (Inl e, src, dst)
         | Inr prepared \<Rightarrow>
             if \<not> try_vec_with_capacity al 1 (length ds) then (Inl OutOfMemory, src, dst)
             else
               (case reserve_slots (alloc_skip 2 al) (length ds) dst of
                  (Inl e, dst') \<Rightarrow> (Inl e, src, dst')
                | (Inr slots, dst') \<Rightarrow>
                    (case commit_handles prepared src of
                       (ens, src') \<Rightarrow>
                         (case install_entries (zip ens slots) dst' of
                            (hs, dst'') \<Rightarrow> (Inr hs, src', dst''))))))"

definition handle_move_between ::
  "allocs \<Rightarrow> 'o handle_table \<Rightarrow> 'o handle_table \<Rightarrow> handle \<Rightarrow> rights
     \<Rightarrow> handle ipc \<times> 'o handle_table \<times> 'o handle_table" where
  "handle_move_between al src dst h rights =
     (case handle_transfer_batch_between al src dst
             [\<lparr>hod_handle = h, hod_operation = Move, hod_rights = rights\<rparr>] of
        (Inl e, src', dst') \<Rightarrow> (Inl e, src', dst')
      | (Inr hs, src', dst') \<Rightarrow> (Inr (last hs), src', dst'))"

section \<open>Packing and unpacking raw handles\<close>

lemma mask_consts: "HANDLE_INDEX_MASK = mask 12" "HANDLE_GENERATION_MASK = mask 20"
  by (simp_all add: HANDLE_INDEX_MASK_def HANDLE_GENERATION_MASK_def mask_eq_exp_minus_1)

lemma le_gen_mask_iff: "(g::u32) \<le> HANDLE_GENERATION_MASK \<longleftrightarrow> unat g < 2 ^ 20"
  by (auto simp: HANDLE_GENERATION_MASK_def word_le_nat_alt)

lemma handle_from_parts_drop:
  assumes "i < 4096" "g \<le> HANDLE_GENERATION_MASK"
  shows "drop_bit 12 (handle_from_parts i g) = g"
proof (rule bit_word_eqI)
  fix n assume "n < LENGTH(32)"
  have i: "\<not> bit i k" if "12 \<le> k" for k :: nat
  proof -
    have "i < 2 ^ k" using assms(1) power_increasing[OF that, of "2::nat"] by simp
    then show ?thesis by (simp add: bit_iff_odd)
  qed
  have g: "\<not> bit g k" if "20 \<le> k" for k :: nat
  proof -
    have "unat g < 2 ^ k" using assms(2) power_increasing[OF that, of "2::nat"] by (simp add: le_gen_mask_iff)
    then have "\<not> bit (unat g) k" by (simp add: bit_iff_odd)
    then show ?thesis by (simp add: bit_unsigned_iff)
  qed
  show "bit (drop_bit 12 (handle_from_parts i g)) n = bit g n"
    using i[of "12 + n"] g[of n] \<open>n < LENGTH(32)\<close>
    by (cases "n < 20") (auto simp: handle_from_parts_def HANDLE_INDEX_BITS_def bit_simps)
qed

lemma handle_from_parts_index:
  assumes "i < 4096"
  shows "unat (handle_from_parts i g AND HANDLE_INDEX_MASK) = i"
proof -
  have "handle_from_parts i g AND HANDLE_INDEX_MASK = of_nat i"
  proof (rule bit_word_eqI)
    fix n assume n: "n < LENGTH(32)"
    have i: "\<not> bit i k" if "12 \<le> k" for k :: nat
    proof -
      have "i < 2 ^ k" using assms(1) power_increasing[OF that, of "2::nat"] by simp
      then show ?thesis by (simp add: bit_iff_odd)
    qed
    show "bit (handle_from_parts i g AND HANDLE_INDEX_MASK) n = bit (of_nat i :: u32) n"
      using i[of n] n
      by (cases "n < 12") (auto simp: handle_from_parts_def HANDLE_INDEX_BITS_def mask_consts bit_simps)
  qed
  moreover have "unat (of_nat i :: u32) = i"
    using assms by (simp add: unat_of_nat take_bit_nat_eq_self)
  ultimately show ?thesis by simp
qed

lemma handle_parts_from_parts:
  assumes "i < 4096" "g \<noteq> 0" "g \<le> HANDLE_GENERATION_MASK"
  shows "handle_parts (handle_from_parts i g) = Some (i, g)"
proof -
  have d: "drop_bit 12 (handle_from_parts i g) = g"
    using assms by (intro handle_from_parts_drop)
  then have "handle_from_parts i g \<noteq> 0" using assms(2) by auto
  then show ?thesis
    using d assms handle_from_parts_index[of i g]
    by (simp add: handle_parts_def HANDLE_INDEX_BITS_def Let_def)
qed

lemma handle_from_parts_parts:
  assumes "handle_parts h = Some (i, g)"
  shows "handle_from_parts i g = h" "i < 4096" "g \<noteq> 0" "g \<le> HANDLE_GENERATION_MASK"
proof -
  from assms have g: "g = drop_bit 12 h" "g \<noteq> 0" and i: "i = unat (h AND HANDLE_INDEX_MASK)"
    by (auto simp: handle_parts_def HANDLE_INDEX_BITS_def Let_def split: if_splits)
  show "handle_from_parts i g = h"
  proof (rule bit_word_eqI)
    fix n assume "n < LENGTH(32)"
    then show "bit (handle_from_parts i g) n = bit h n"
      by (auto simp: handle_from_parts_def HANDLE_INDEX_BITS_def mask_consts g i bit_simps)
  qed
  have "h AND mask 12 < 2 ^ 12" by (rule and_mask_less') simp
  then show "i < 4096" by (simp add: i mask_consts word_less_nat_alt)
  show "g \<noteq> 0" by (fact g)
  show "g \<le> HANDLE_GENERATION_MASK"
  proof -
    have "unat g = unat h div 2 ^ 12" unfolding g unat_drop_bit_eq by (simp add: drop_bit_eq_div)
    moreover have "unat h < 2 ^ LENGTH(32)" by (rule unsigned_less)
    ultimately show ?thesis by (simp add: le_gen_mask_iff less_mult_imp_div_less)
  qed
qed

section \<open>Well-formed tables and lookup\<close>

text \<open>The abstract view of a table: a partial map from raw handles to entries.\<close>

definition table_lookup :: "'o handle_table \<Rightarrow> handle \<Rightarrow> 'o handle_entry option" where
  "table_lookup t h = (case table_entry t h of Inl _ \<Rightarrow> None | Inr en \<Rightarrow> Some en)"

definition slot_wf :: "'o handle_slot \<Rightarrow> bool" where
  "slot_wf s \<longleftrightarrow> hs_generation s \<le> HANDLE_GENERATION_MASK \<and> (hs_entry s \<noteq> None \<longrightarrow> hs_generation s \<noteq> 0)"

definition table_wf :: "'o handle_table \<Rightarrow> bool" where
  "table_wf t \<longleftrightarrow> length t \<le> HANDLE_TABLE_CAPACITY \<and> (\<forall>s \<in> set t. slot_wf s)"

lemma table_wf_nth: "table_wf t \<Longrightarrow> i < length t \<Longrightarrow> slot_wf (t ! i)"
  by (simp add: table_wf_def)

lemma table_wf_index: "table_wf t \<Longrightarrow> i < length t \<Longrightarrow> i < 4096"
  by (simp add: table_wf_def HANDLE_TABLE_CAPACITY_def)

lemma table_wf_update: "table_wf t \<Longrightarrow> slot_wf s \<Longrightarrow> table_wf (t[i := s])"
  by (auto simp: table_wf_def dest: set_update_subset_insert [THEN subsetD])

lemma table_wf_Nil [simp]: "table_wf []"
  by (simp add: table_wf_def)

lemma validated_slot_Inr:
  "validated_slot t h = Inr (i, g) \<longleftrightarrow>
     handle_parts h = Some (i, g) \<and> i < length t \<and> hs_generation (t ! i) = g \<and> hs_entry (t ! i) \<noteq> None"
  by (auto simp: validated_slot_def split: option.splits)

lemma validated_slot_Inl: "validated_slot t h = Inl e \<Longrightarrow> e = InvalidHandle"
  by (auto simp: validated_slot_def split: option.splits if_splits)

lemma table_entry_Inr:
  "table_entry t h = Inr en \<longleftrightarrow>
     (\<exists>i. handle_parts h = Some (i, hs_generation (t ! i)) \<and> i < length t \<and> hs_entry (t ! i) = Some en)"
  by (auto simp: table_entry_def validated_slot_def split: sum.splits option.splits if_splits)

lemma table_entry_Inl: "table_entry t h = Inl e \<Longrightarrow> e = InvalidHandle"
  by (auto simp: table_entry_def split: sum.splits option.splits dest: validated_slot_Inl)

lemma table_lookup_entry: "table_lookup t h = Some en \<longleftrightarrow> table_entry t h = Inr en"
  by (auto simp: table_lookup_def split: sum.splits)

lemma table_lookup_Some:
  "table_lookup t h = Some en \<longleftrightarrow>
     (\<exists>i. handle_parts h = Some (i, hs_generation (t ! i)) \<and> i < length t \<and> hs_entry (t ! i) = Some en)"
  unfolding table_lookup_entry by (rule table_entry_Inr)

lemma table_lookup_None: "table_lookup t h = None \<longleftrightarrow> table_entry t h = Inl InvalidHandle"
  by (auto simp: table_lookup_def split: sum.splits dest: table_entry_Inl)

lemma table_lookup_parts:
  assumes "handle_parts h = Some (i, g)"
  shows "table_lookup t h = (if i < length t \<and> hs_generation (t ! i) = g then hs_entry (t ! i) else None)"
proof (cases "table_lookup t h")
  case None
  then show ?thesis
    using assms table_lookup_Some[of t h] by (cases "hs_entry (t ! i)") auto
next
  case (Some en)
  with assms show ?thesis by (auto simp: table_lookup_Some)
qed

lemma table_lookup_no_parts: "handle_parts h = None \<Longrightarrow> table_lookup t h = None"
  by (cases "table_lookup t h") (auto simp: table_lookup_Some)

lemma handle_eqI: "handle_parts h = Some p \<Longrightarrow> handle_parts h' = Some p \<Longrightarrow> h = h'"
  by (metis handle_from_parts_parts(1) prod.exhaust)

lemma object_with_rights_Inr:
  "object_with_rights t h r = Inr obj \<longleftrightarrow>
     (\<exists>en. table_lookup t h = Some en \<and> contains (he_rights en) r \<and> he_object en = obj)"
  by (auto simp: object_with_rights_def table_lookup_entry split: sum.splits)

section \<open>Reservation\<close>

lemma length_vacant_indices: "length (vacant_indices t) = length (filter slot_vacant t)"
proof -
  have "filter slot_vacant (map ((!) t) [0..<length t]) = map ((!) t) (vacant_indices t)"
    unfolding vacant_indices_def filter_map comp_def ..
  then show ?thesis by (metis length_map map_nth)
qed

lemma vacant_indices_set: "i \<in> set (vacant_indices t) \<longleftrightarrow> i < length t \<and> slot_vacant (t ! i)"
  by (auto simp: vacant_indices_def)

lemma slot_wf_vacant [simp]: "slot_wf vacant_slot"
  by (simp add: slot_wf_def vacant_slot_def HANDLE_GENERATION_MASK_def)

lemma slot_vacant_vacant [simp]: "slot_vacant vacant_slot"
  by (simp add: slot_vacant_def vacant_slot_def)

lemma reserve_slots_Inl: "reserve_slots al n t = (Inl e, t') \<Longrightarrow> t' = t"
  by (auto simp: reserve_slots_def Let_def split: if_splits)

lemma reserve_slots_Inr:
  assumes "reserve_slots al n t = (Inr js, t')" "table_wf t"
  shows "length js = n" "distinct js" "\<forall>i \<in> set js. i < length t' \<and> slot_vacant (t' ! i)"
    "\<exists>k. t' = t @ replicate k vacant_slot" "table_wf t'"
proof -
  let ?v = "length (filter slot_vacant t)"
  have v: "length (vacant_indices t) = ?v" by (rule length_vacant_indices)
  consider (zero) "n = 0" "js = []" "t' = t"
    | (old) "0 < n" "js = take n (vacant_indices t)" "length js = n" "t' = t"
    | (new) k where "0 < n" "js = vacant_indices t @ [length t..<length t + k]"
        "k = n - length (vacant_indices t)" "length (vacant_indices t) < n"
        "n \<le> length (vacant_indices t) + (HANDLE_TABLE_CAPACITY - length t)"
        "t' = t @ replicate k vacant_slot"
  proof (cases "n = 0")
    case True
    then show ?thesis using assms(1) zero by (simp add: reserve_slots_def)
  next
    case False
    then have n: "0 < n" by simp
    show ?thesis
    proof (cases "n \<le> ?v")
      case True
      then have "length (take n (vacant_indices t)) = n" using v by simp
      then show ?thesis
        using assms(1) n by (intro old) (auto simp: reserve_slots_def Let_def split: if_splits)
    next
      case F: False
      then have tk: "take n (vacant_indices t) = vacant_indices t" using v by simp
      show ?thesis
        using assms(1) n F unfolding reserve_slots_def Let_def tk v
        by (intro new [of "n - ?v"]) (auto simp: v split: if_splits)
    qed
  qed
  then have "length js = n \<and> distinct js \<and> (\<forall>i \<in> set js. i < length t' \<and> slot_vacant (t' ! i)) \<and>
      (\<exists>k. t' = t @ replicate k vacant_slot) \<and> table_wf t'"
  proof cases
    case zero
    then show ?thesis using assms(2) by simp
  next
    case old
    have "set js \<subseteq> set (vacant_indices t)"
      unfolding old(2) by (rule set_take_subset)
    then have "\<forall>i \<in> set js. i < length t \<and> slot_vacant (t ! i)"
      by (auto simp: vacant_indices_set)
    moreover have "distinct js"
      unfolding old(2) by (simp add: vacant_indices_def)
    ultimately show ?thesis using old assms(2) by simp
  next
    case new
    have "\<forall>i \<in> set js. i < length t' \<and> slot_vacant (t' ! i)"
      using new(2,6) by (auto simp: vacant_indices_set nth_append)
    moreover have "distinct js"
      using new(2) by (auto simp: vacant_indices_def)
    moreover have "table_wf t'"
      using new assms(2) by (auto simp: table_wf_def)
    ultimately show ?thesis using new by auto
  qed
  then show "length js = n" "distinct js" "\<forall>i \<in> set js. i < length t' \<and> slot_vacant (t' ! i)"
    "\<exists>k. t' = t @ replicate k vacant_slot" "table_wf t'"
    by auto
qed

lemma table_lookup_append_vacant: "table_lookup (t @ replicate k vacant_slot) h = table_lookup t h"
proof (cases "handle_parts h")
  case None
  then show ?thesis by (simp add: table_lookup_no_parts)
next
  case (Some p)
  obtain i g where "p = (i, g)" by fastforce
  then show ?thesis
    using Some by (auto simp: table_lookup_parts nth_append vacant_slot_def)
qed

lemma reserve_slots_lookup:
  assumes "reserve_slots al n t = (r, t')" "table_wf t"
  shows "table_wf t'" "table_lookup t' = table_lookup t"
proof -
  have "table_wf t' \<and> table_lookup t' = table_lookup t"
  proof (cases r)
    case (Inl e)
    with assms show ?thesis by (auto dest: reserve_slots_Inl)
  next
    case (Inr js)
    with assms(1) have r: "reserve_slots al n t = (Inr js, t')" by simp
    from reserve_slots_Inr(4,5) [OF r assms(2)] show ?thesis
      by (auto simp: table_lookup_append_vacant fun_eq_iff)
  qed
  then show "table_wf t'" "table_lookup t' = table_lookup t" by auto
qed

section \<open>Insertion and removal as map updates\<close>

lemma insert_reserved_wf:
  assumes "table_wf t" "i < length t" "slot_vacant (t ! i)"
  shows "table_wf (snd (insert_reserved i obj r t))"
  using assms table_wf_nth [OF assms(1,2)]
  by (auto simp: insert_reserved_def slot_wf_def slot_vacant_def intro!: table_wf_update)

lemma insert_reserved_lookup:
  assumes "table_wf t" "i < length t" "slot_vacant (t ! i)"
    and "insert_reserved i obj r t = (h, t')"
  shows "table_lookup t h = None"
    and "table_lookup t' = (table_lookup t)(h \<mapsto> \<lparr>he_object = obj, he_rights = r\<rparr>)"
proof -
  let ?g = "hs_generation (t ! i)"
  have g: "?g \<noteq> 0" "?g \<le> HANDLE_GENERATION_MASK" and e: "hs_entry (t ! i) = None"
    using assms(3) table_wf_nth [OF assms(1,2)] by (auto simp: slot_vacant_def slot_wf_def)
  have h: "h = handle_from_parts i ?g" and t': "t' = t[i := (t ! i)\<lparr>hs_entry := Some \<lparr>he_object = obj, he_rights = r\<rparr>\<rparr>]"
    using assms(4) by (auto simp: insert_reserved_def)
  have p: "handle_parts h = Some (i, ?g)"
    unfolding h using table_wf_index [OF assms(1,2)] g by (intro handle_parts_from_parts)
  show "table_lookup t h = None"
    using e by (simp add: table_lookup_parts [OF p])
  show "table_lookup t' = (table_lookup t)(h \<mapsto> \<lparr>he_object = obj, he_rights = r\<rparr>)"
  proof
    fix h'
    show "table_lookup t' h' = ((table_lookup t)(h \<mapsto> \<lparr>he_object = obj, he_rights = r\<rparr>)) h'"
    proof (cases "handle_parts h'")
      case None
      with p show ?thesis by (auto simp: table_lookup_no_parts)
    next
      case (Some q)
      obtain j g' where q: "q = (j, g')" by fastforce
      show ?thesis
      proof (cases "h' = h")
        case True
        then show ?thesis using assms(2) by (simp add: table_lookup_parts [OF p] t')
      next
        case False
        then have "(j, g') \<noteq> (i, ?g)" using p Some q handle_eqI by blast
        then show ?thesis
          using Some q False assms(2) e by (auto simp: table_lookup_parts t' nth_list_update)
      qed
    qed
  qed
qed

lemma slot_wf_advance: "slot_wf s \<Longrightarrow> slot_wf (advance_generation (s\<lparr>hs_entry := None\<rparr>))"
proof -
  assume s: "slot_wf s"
  have "hs_generation s + 1 \<le> HANDLE_GENERATION_MASK"
    if "hs_generation s \<noteq> HANDLE_GENERATION_MASK"
    using s that unfolding slot_wf_def by (metis inc_le order_le_imp_less_or_eq)
  then show ?thesis by (auto simp: slot_wf_def advance_generation_def)
qed

lemma take_entry_wf: "table_wf t \<Longrightarrow> i < length t \<Longrightarrow> table_wf (take_entry i t)"
  unfolding take_entry_def by (intro table_wf_update slot_wf_advance table_wf_nth)

lemma take_entry_lookup:
  assumes "validated_slot t h = Inr (i, g)"
  shows "table_lookup (take_entry i t) = (table_lookup t)(h := None)"
proof
  fix h'
  have p: "handle_parts h = Some (i, hs_generation (t ! i))" and i: "i < length t"
    using assms by (auto simp: validated_slot_Inr)
  show "table_lookup (take_entry i t) h' = ((table_lookup t)(h := None)) h'"
  proof (cases "handle_parts h'")
    case None
    then show ?thesis by (auto simp: table_lookup_no_parts)
  next
    case (Some q)
    obtain j g' where q: "q = (j, g')" by fastforce
    have "h' = h" if "(j, g') = (i, hs_generation (t ! i))"
      using p Some q that handle_eqI by blast
    then show ?thesis
      using Some q i p by (auto simp: table_lookup_parts take_entry_def advance_generation_def nth_list_update)
  qed
qed

section \<open>Interface: a store of entries behind fresh keys\<close>

text \<open>
  What the users of the table rely on when they install a batch of entries: writing an entry into
  a vacant slot returns a key that was not bound before, binds exactly that key, and leaves every
  other vacant slot vacant. Installing a list of entries then binds a list of fresh, distinct keys
  in order.
\<close>

locale slot_store =
  fixes wf :: "'t \<Rightarrow> bool"
    and lookup :: "'t \<Rightarrow> 'h \<Rightarrow> 'e option"
    and vacant :: "'t \<Rightarrow> nat \<Rightarrow> bool"
    and put :: "nat \<Rightarrow> 'e \<Rightarrow> 't \<Rightarrow> 'h \<times> 't"
    and install :: "('e \<times> nat) list \<Rightarrow> 't \<Rightarrow> 'h list \<times> 't"
  assumes put_wf: "wf t \<Longrightarrow> vacant t i \<Longrightarrow> put i e t = (h, t') \<Longrightarrow> wf t'"
    and put_fresh: "wf t \<Longrightarrow> vacant t i \<Longrightarrow> put i e t = (h, t') \<Longrightarrow> lookup t h = None"
    and put_lookup: "wf t \<Longrightarrow> vacant t i \<Longrightarrow> put i e t = (h, t') \<Longrightarrow> lookup t' = (lookup t)(h \<mapsto> e)"
    and put_vacant: "wf t \<Longrightarrow> vacant t i \<Longrightarrow> put i e t = (h, t') \<Longrightarrow> j \<noteq> i \<Longrightarrow> vacant t' j = vacant t j"
    and install_Nil: "install [] t = ([], t)"
    and install_Cons: "put i e t = (h, t1) \<Longrightarrow> install rest t1 = (hs, t2) \<Longrightarrow>
          install ((e, i) # rest) t = (h # hs, t2)"
begin

lemma install_spec:
  assumes "install (zip es js) t = (hs, t')" "wf t" "length es = length js" "distinct js"
    and "\<forall>j \<in> set js. vacant t j"
  shows "wf t' \<and> length hs = length es \<and> distinct hs \<and> (\<forall>h \<in> set hs. lookup t h = None) \<and>
    lookup t' = (lookup t)(hs [\<mapsto>] es)"
  using assms(3,1,2,4,5)
proof (induction es js arbitrary: t hs rule: list_induct2)
  case Nil
  then show ?case by (simp add: install_Nil)
next
  case (Cons e es j js)
  obtain h t1 where p: "put j e t = (h, t1)" by fastforce
  obtain hs2 t2 where i: "install (zip es js) t1 = (hs2, t2)" by fastforce
  have eq: "hs = h # hs2" "t' = t2"
    using Cons.prems(1) install_Cons [OF p i] by auto
  have v: "vacant t j" using Cons.prems by simp
  have t1: "wf t1" "lookup t1 = (lookup t)(h \<mapsto> e)" "lookup t h = None"
    using put_wf put_lookup put_fresh Cons.prems(2) v p by blast+
  have "\<forall>k \<in> set js. vacant t1 k"
    using Cons.prems put_vacant [OF Cons.prems(2) v p] by (metis distinct.simps(2) list.set_intros(2))
  then have IH: "wf t2 \<and> length hs2 = length es \<and> distinct hs2 \<and> (\<forall>h \<in> set hs2. lookup t1 h = None) \<and>
      lookup t2 = (lookup t1)(hs2 [\<mapsto>] es)"
    using Cons.IH [of t1 hs2] i t1(1) Cons.prems eq by auto
  then have "h \<notin> set hs2" using t1(2) by auto
  with IH t1 show ?case by (auto simp: eq split: if_splits)
qed

end

lemma handle_entry_eta: "\<lparr>he_object = he_object e, he_rights = he_rights e\<rparr> = (e :: 'o handle_entry)"
  by (cases e) simp

lemma insert_reserved_vacant:
  assumes "insert_reserved i obj r t = (h, t')" "j \<noteq> i"
  shows "(j < length t' \<and> slot_vacant (t' ! j)) = (j < length t \<and> slot_vacant (t ! j))"
  using assms by (auto simp: insert_reserved_def)

interpretation tab: slot_store table_wf table_lookup "\<lambda>t i. i < length t \<and> slot_vacant (t ! i)"
  "\<lambda>i en. insert_reserved i (he_object en) (he_rights (en :: 'o handle_entry))" install_entries
proof unfold_locales
  fix t t' :: "'o handle_table" and i j :: nat and e :: "'o handle_entry" and h :: handle
  assume wf: "table_wf t" and v: "i < length t \<and> slot_vacant (t ! i)"
    and p: "insert_reserved i (he_object e) (he_rights e) t = (h, t')"
  show "table_wf t'"
    using insert_reserved_wf [of t i "he_object e" "he_rights e"] wf v p by simp
  show "table_lookup t h = None"
    by (rule insert_reserved_lookup(1) [OF wf conjunct1 [OF v] conjunct2 [OF v] p])
  show "table_lookup t' = (table_lookup t)(h \<mapsto> e)"
    using insert_reserved_lookup(2) [OF wf conjunct1 [OF v] conjunct2 [OF v] p] by (simp add: handle_entry_eta)
  show "(j < length t' \<and> slot_vacant (t' ! j)) = (j < length t \<and> slot_vacant (t ! j))" if "j \<noteq> i"
    using insert_reserved_vacant [OF p that] .
qed simp_all

section \<open>Closing, duplicating and transferring as map updates\<close>

lemma table_close_spec:
  assumes "table_close h t = (r, t')" "table_wf t"
  shows "table_wf t'"
    and "table_lookup t' = (table_lookup t)(h := None)"
    and "r = (case table_lookup t h of None \<Rightarrow> Inl InvalidHandle | Some en \<Rightarrow> Inr en)"
proof -
  have "table_wf t' \<and> table_lookup t' = (table_lookup t)(h := None) \<and>
    r = (case table_lookup t h of None \<Rightarrow> Inl InvalidHandle | Some en \<Rightarrow> Inr en)"
  proof (cases "validated_slot t h")
    case (Inl e)
    then have "e = InvalidHandle" by (rule validated_slot_Inl)
    moreover have "table_lookup t h = None"
      using Inl by (simp add: table_lookup_def table_entry_def)
    ultimately show ?thesis
      using assms Inl by (auto simp: table_close_def fun_upd_idem)
  next
    case (Inr p)
    obtain i g where p: "p = (i, g)" by fastforce
    with Inr have v: "validated_slot t h = Inr (i, g)" by simp
    then obtain en where en: "hs_entry (t ! i) = Some en" and i: "i < length t"
      by (auto simp: validated_slot_Inr)
    have "table_lookup t h = Some en"
      using v en by (auto simp: table_lookup_def table_entry_def)
    then show ?thesis
      using assms v en take_entry_wf [OF assms(2) i] take_entry_lookup [OF v]
      by (auto simp: table_close_def)
  qed
  then show "table_wf t'" "table_lookup t' = (table_lookup t)(h := None)"
    "r = (case table_lookup t h of None \<Rightarrow> Inl InvalidHandle | Some en \<Rightarrow> Inr en)"
    by auto
qed

lemma table_duplicate_spec:
  assumes "table_duplicate al h r t = (res, t')" "table_wf t"
  shows "table_wf t'"
    and "\<And>e. res = Inl e \<Longrightarrow> table_lookup t' = table_lookup t"
    and "\<And>h'. res = Inr h' \<Longrightarrow>
      (\<exists>en. table_lookup t h = Some en \<and> contains (he_rights en) R_DUPLICATE \<and> contains (he_rights en) r \<and>
        table_lookup t h' = None \<and>
        table_lookup t' = (table_lookup t)(h' \<mapsto> \<lparr>he_object = he_object en, he_rights = r\<rparr>))"
proof -
  have "table_wf t' \<and> (\<forall>e. res = Inl e \<longrightarrow> table_lookup t' = table_lookup t) \<and>
    (\<forall>h'. res = Inr h' \<longrightarrow>
      (\<exists>en. table_lookup t h = Some en \<and> contains (he_rights en) R_DUPLICATE \<and> contains (he_rights en) r \<and>
        table_lookup t h' = None \<and>
        table_lookup t' = (table_lookup t)(h' \<mapsto> \<lparr>he_object = he_object en, he_rights = r\<rparr>)))"
  proof (cases "\<exists>en. table_entry t h = Inr en \<and> contains (he_rights en) R_DUPLICATE \<and> contains (he_rights en) r")
    case False
    then have "t' = t \<and> (\<exists>e. res = Inl e)"
      using assms(1) by (auto simp: table_duplicate_def split: sum.splits if_splits)
    then show ?thesis using assms(2) by auto
  next
    case True
    then obtain en where en: "table_entry t h = Inr en" "contains (he_rights en) R_DUPLICATE" "contains (he_rights en) r"
      by blast
    obtain rr t1 where rs: "reserve_slots al 1 t = (rr, t1)" by fastforce
    show ?thesis
    proof (cases rr)
      case (Inl e)
      then show ?thesis
        using assms rs en by (auto simp: table_duplicate_def dest: reserve_slots_Inl)
    next
      case (Inr js)
      with rs have rs': "reserve_slots al 1 t = (Inr js, t1)" by simp
      note R = reserve_slots_Inr [OF rs' assms(2)]
      then obtain j where j: "js = [j]" by (metis One_nat_def length_0_conv length_Suc_conv)
      obtain h1 t2 where ins: "insert_reserved j (he_object en) r t1 = (h1, t2)" by fastforce
      have v: "j < length t1" "slot_vacant (t1 ! j)" using R j by auto
      have eq: "res = Inr h1" "t' = t2"
        using assms(1) en rs' j ins by (auto simp: table_duplicate_def)
      show ?thesis
        using insert_reserved_lookup [OF R(5) v ins] insert_reserved_wf [OF R(5) v, of "he_object en" r]
          reserve_slots_lookup [OF rs' assms(2)] eq ins en table_lookup_entry[of t h]
        by auto
    qed
  qed
  then show "table_wf t'" "\<And>e. res = Inl e \<Longrightarrow> table_lookup t' = table_lookup t"
    "\<And>h'. res = Inr h' \<Longrightarrow>
      (\<exists>en. table_lookup t h = Some en \<and> contains (he_rights en) R_DUPLICATE \<and> contains (he_rights en) r \<and>
        table_lookup t h' = None \<and>
        table_lookup t' = (table_lookup t)(h' \<mapsto> \<lparr>he_object = he_object en, he_rights = r\<rparr>))"
    by auto
qed

subsection \<open>The batch transfer\<close>

text \<open>What a successful validation of one disposition says about the source table.\<close>

definition disposition_ok :: "'o handle_table \<Rightarrow> handle_operation_disposition \<Rightarrow> 'o handle_entry \<Rightarrow> bool" where
  "disposition_ok t d en \<longleftrightarrow>
     table_lookup t (hod_handle d) = Some en \<and>
     contains (he_rights en) (required_right (hod_operation d)) \<and>
     contains (he_rights en) (hod_rights d)"

text \<open>The entry a disposition produces at the receiver, and the handles a batch consumes.\<close>

definition transferred_entry :: "'o handle_table \<Rightarrow> handle_operation_disposition \<Rightarrow> 'o handle_entry" where
  "transferred_entry t d = (the (table_lookup t (hod_handle d)))\<lparr>he_rights := hod_rights d\<rparr>"

definition moved_handles :: "handle_operation_disposition list \<Rightarrow> handle set" where
  "moved_handles ds = {hod_handle d | d. d \<in> set ds \<and> hod_operation d = Move}"

lemma moved_handles_simps [simp]:
  "moved_handles [] = {}"
  "moved_handles (d # ds) =
     (if hod_operation d = Move then insert (hod_handle d) (moved_handles ds) else moved_handles ds)"
  by (auto simp: moved_handles_def)

lemma prepare_handle_Inr:
  assumes "prepare_handle t prior d = Inr p"
  obtains i g en where "hod_handle d \<notin> set prior" "validated_slot t (hod_handle d) = Inr (i, g)"
    "hs_entry (t ! i) = Some en" "disposition_ok t d en"
    "p = (case hod_operation d of Move \<Rightarrow> Prep_Move i (hod_rights d)
            | Duplicate \<Rightarrow> Prep_Duplicate (en\<lparr>he_rights := hod_rights d\<rparr>))"
proof -
  obtain i g en where *: "hod_handle d \<notin> set prior" "validated_slot t (hod_handle d) = Inr (i, g)"
    "hs_entry (t ! i) = Some en" "contains (he_rights en) (required_right (hod_operation d))"
    "contains (he_rights en) (hod_rights d)"
    "p = (case hod_operation d of Move \<Rightarrow> Prep_Move i (hod_rights d)
            | Duplicate \<Rightarrow> Prep_Duplicate (en\<lparr>he_rights := hod_rights d\<rparr>))"
    using assms
    by (cases "hod_operation d") (auto simp: prepare_handle_def split: if_splits sum.splits option.splits)
  from *(2-5) have "disposition_ok t d en"
    by (auto simp: disposition_ok_def table_lookup_def table_entry_def)
  with * show thesis by (intro that)
qed

lemma commit_handles_spec:
  assumes "prepare_handles src prior ds = Inr ps" "commit_handles ps t = (ens, t')"
    and "table_wf t" "length t = length src"
    and "\<And>h i g. h \<notin> set prior \<Longrightarrow> validated_slot src h = Inr (i, g) \<Longrightarrow> t ! i = src ! i"
  shows "table_wf t' \<and> ens = map (transferred_entry src) ds \<and>
    table_lookup t' = (\<lambda>h. if h \<in> moved_handles ds then None else table_lookup t h) \<and>
    distinct (map hod_handle ds) \<and> set (map hod_handle ds) \<inter> set prior = {} \<and>
    (\<forall>d \<in> set ds. \<exists>en. disposition_ok src d en)"
  using assms
proof (induction ds arbitrary: prior ps t ens t')
  case Nil
  then show ?case by auto
next
  case (Cons d ds)
  from Cons.prems(1) obtain p qs where p: "prepare_handle src prior d = Inr p"
    and qs: "prepare_handles src (prior @ [hod_handle d]) ds = Inr qs" and ps: "ps = p # qs"
    by (auto split: sum.splits)
  obtain i g en where P: "hod_handle d \<notin> set prior" "validated_slot src (hod_handle d) = Inr (i, g)"
    "hs_entry (src ! i) = Some en" "disposition_ok src d en"
    "p = (case hod_operation d of Move \<Rightarrow> Prep_Move i (hod_rights d)
            | Duplicate \<Rightarrow> Prep_Duplicate (en\<lparr>he_rights := hod_rights d\<rparr>))"
    using p by (rule prepare_handle_Inr)
  have ti: "t ! i = src ! i" using Cons.prems(5) P(1,2) by blast
  have i: "i < length t" using P(2) Cons.prems(4) by (simp add: validated_slot_Inr)
  have vt: "validated_slot t (hod_handle d) = Inr (i, g)"
    using P(2) ti i by (simp add: validated_slot_Inr)
  have te: "transferred_entry src d = en\<lparr>he_rights := hod_rights d\<rparr>"
    using P(4) by (simp add: transferred_entry_def disposition_ok_def)
  obtain e1 t1 where c1: "commit_handle p t = (e1, t1)" by fastforce
  obtain es t2 where c2: "commit_handles qs t1 = (es, t2)" by fastforce
  have eq: "ens = e1 # es" "t' = t2" using Cons.prems(2) ps c1 c2 by auto
  have e1: "e1 = transferred_entry src d"
    and t1: "t1 = (if hod_operation d = Move then take_entry i t else t)"
    using c1 P(3,5) te ti by (auto simp: commit_handle_def split: handle_operation.splits)
  have l1: "table_lookup t1 = (table_lookup t)(hod_handle d := (if hod_operation d = Move then None else table_lookup t (hod_handle d)))"
    using take_entry_lookup [OF vt] by (auto simp: t1)
  have w1: "table_wf t1" "length t1 = length src"
    using Cons.prems(3,4) take_entry_wf [OF Cons.prems(3) i] by (auto simp: t1 take_entry_def)
  have s1: "t1 ! j = src ! j" if "h \<notin> set (prior @ [hod_handle d])" "validated_slot src h = Inr (j, g')" for h j g'
  proof -
    have "j \<noteq> i"
      using that P(2) by (auto simp: validated_slot_Inr dest: handle_eqI)
    then show ?thesis
      using Cons.prems(5) [of h j g'] that by (auto simp: t1 take_entry_def)
  qed
  from Cons.IH [OF qs c2 w1 s1]
  have IH: "table_wf t2 \<and> es = map (transferred_entry src) ds \<and>
    table_lookup t2 = (\<lambda>h. if h \<in> moved_handles ds then None else table_lookup t1 h) \<and>
    distinct (map hod_handle ds) \<and> set (map hod_handle ds) \<inter> set (prior @ [hod_handle d]) = {} \<and>
    (\<forall>d \<in> set ds. \<exists>en. disposition_ok src d en)" .
  then show ?case
    using P(1,4) by (auto simp: eq e1 l1 fun_eq_iff)
qed

lemma install_entries_length: "install_entries xs t = (hs, t') \<Longrightarrow> length hs = length xs"
  by (induction xs t arbitrary: hs t' rule: install_entries.induct) (auto split: prod.splits)

lemma transfer_batch_error:
  assumes "handle_transfer_batch_between al src dst ds = (Inl e, src', dst')"
  shows "src' = src \<and> dst' = dst"
  using assms
  by (auto simp: handle_transfer_batch_between_def split: if_splits sum.splits prod.splits dest: reserve_slots_Inl)

lemma transfer_batch_success:
  assumes "handle_transfer_batch_between al src dst ds = (Inr hs, src', dst')"
    and "table_wf src" "table_wf dst"
  shows "table_wf src'" "table_wf dst'"
    and "length hs = length ds" "distinct hs" "\<forall>h \<in> set hs. table_lookup dst h = None"
    and "table_lookup dst' = (table_lookup dst)(hs [\<mapsto>] map (transferred_entry src) ds)"
    and "table_lookup src' = (\<lambda>h. if h \<in> moved_handles ds then None else table_lookup src h)"
    and "distinct (map hod_handle ds)" "\<forall>d \<in> set ds. \<exists>en. disposition_ok src d en"
proof -
  from assms(1) obtain ps js dst1 ens where
    p: "prepare_handles src [] ds = Inr ps"
    and r: "reserve_slots (alloc_skip 2 al) (length ds) dst = (Inr js, dst1)"
    and c: "commit_handles ps src = (ens, src')"
    and i: "install_entries (zip ens js) dst1 = (hs, dst')"
    by (auto simp: handle_transfer_batch_between_def split: if_splits sum.splits prod.splits)
  note R = reserve_slots_Inr [OF r assms(3)] reserve_slots_lookup [OF r assms(3)]
  have C: "table_wf src' \<and> ens = map (transferred_entry src) ds \<and>
    table_lookup src' = (\<lambda>h. if h \<in> moved_handles ds then None else table_lookup src h) \<and>
    distinct (map hod_handle ds) \<and> set (map hod_handle ds) \<inter> set [] = {} \<and>
    (\<forall>d \<in> set ds. \<exists>en. disposition_ok src d en)"
    by (rule commit_handles_spec [OF p c assms(2)]) simp_all
  have "table_wf dst' \<and> length hs = length ens \<and> distinct hs \<and> (\<forall>h \<in> set hs. table_lookup dst1 h = None) \<and>
    table_lookup dst' = (table_lookup dst1)(hs [\<mapsto>] ens)"
    by (rule tab.install_spec [OF i]) (use R C in auto)
  with R C show "table_wf src'" "table_wf dst'" "length hs = length ds" "distinct hs"
    "\<forall>h \<in> set hs. table_lookup dst h = None"
    "table_lookup dst' = (table_lookup dst)(hs [\<mapsto>] map (transferred_entry src) ds)"
    "table_lookup src' = (\<lambda>h. if h \<in> moved_handles ds then None else table_lookup src h)"
    "distinct (map hod_handle ds)" "\<forall>d \<in> set ds. \<exists>en. disposition_ok src d en"
    by auto
qed

section \<open>Interface: generation-tagged slots\<close>

text \<open>
  Slots are reused, their identities are not. A slot has an age that never decreases; a live
  identity is a slot index with the current age; releasing a slot pushes its age beyond the
  released identity. Then an identity that stopped being live stays dead for ever.
\<close>

locale generation_slots =
  fixes wf :: "'t \<Rightarrow> bool"
    and age :: "'t \<Rightarrow> nat \<Rightarrow> nat"
    and live :: "'t \<Rightarrow> nat \<Rightarrow> nat \<Rightarrow> bool"
    and step :: "'t \<Rightarrow> 't \<Rightarrow> bool"
  assumes step_wf: "wf t \<Longrightarrow> step t t' \<Longrightarrow> wf t'"
    and live_age: "live t i g \<Longrightarrow> age t i = g"
    and age_mono: "wf t \<Longrightarrow> step t t' \<Longrightarrow> age t i \<le> age t' i"
    and release: "wf t \<Longrightarrow> step t t' \<Longrightarrow> live t i g \<Longrightarrow> \<not> live t' i g \<Longrightarrow> g < age t' i"
begin

lemma steps_wf: "step\<^sup>*\<^sup>* t t' \<Longrightarrow> wf t \<Longrightarrow> wf t'"
  by (induction rule: rtranclp_induct) (auto intro: step_wf)

lemma steps_age_mono: "step\<^sup>*\<^sup>* t t' \<Longrightarrow> wf t \<Longrightarrow> age t i \<le> age t' i"
proof (induction rule: rtranclp_induct)
  case (step y z)
  then have "wf y" by (auto dest: steps_wf)
  with step show ?case using age_mono [of y z i] by simp
qed simp

lemma aged_out: "step\<^sup>*\<^sup>* t t' \<Longrightarrow> wf t \<Longrightarrow> g < age t i \<Longrightarrow> \<not> live t' i g"
  using steps_age_mono [of t t' i] live_age [of t' i g] by auto

lemma no_resurrection:
  assumes "wf t" "live t i g" "step t t'" "\<not> live t' i g" "step\<^sup>*\<^sup>* t' t''"
  shows "\<not> live t'' i g"
  using aged_out [OF assms(5)] step_wf [OF assms(1,3)] release [OF assms(1,3,2,4)] by blast

end

subsection \<open>The handle table\<close>

definition slot_age :: "'o handle_slot \<Rightarrow> nat" where
  "slot_age s = (if hs_generation s = 0 then 2 ^ 20 else unat (hs_generation s))"

definition table_age :: "'o handle_table \<Rightarrow> nat \<Rightarrow> nat" where
  "table_age t i = (if i < length t then slot_age (t ! i) else 0)"

definition table_live :: "'o handle_table \<Rightarrow> nat \<Rightarrow> nat \<Rightarrow> bool" where
  "table_live t i g \<longleftrightarrow>
     i < length t \<and> hs_entry (t ! i) \<noteq> None \<and> hs_generation (t ! i) \<noteq> 0 \<and> unat (hs_generation (t ! i)) = g"

text \<open>
  The three ways the code changes a table. Every operation of the table is a sequence of them.
\<close>

inductive table_step :: "'o handle_table \<Rightarrow> 'o handle_table \<Rightarrow> bool" where
  reserve: "reserve_slots al n t = (r, t') \<Longrightarrow> table_step t t'"
| insert: "i < length t \<Longrightarrow> slot_vacant (t ! i) \<Longrightarrow> insert_reserved i obj rights t = (h, t') \<Longrightarrow> table_step t t'"
| remove: "i < length t \<Longrightarrow> hs_entry (t ! i) = Some en \<Longrightarrow> t' = take_entry i t \<Longrightarrow> table_step t t'"

lemma table_step_wf: "table_step t t' \<Longrightarrow> table_wf t \<Longrightarrow> table_wf t'"
proof (induction rule: table_step.induct)
  case (reserve al n t r t')
  then show ?case by (rule reserve_slots_lookup(1))
next
  case (insert i t obj rights h t')
  then show ?case by (metis insert_reserved_wf snd_conv)
next
  case (remove i t en t')
  then show ?case by (simp add: take_entry_wf)
qed

lemma slot_age_advance:
  assumes "slot_wf s" "hs_generation s \<noteq> 0"
  shows "slot_age s < slot_age (advance_generation (s\<lparr>hs_entry := None\<rparr>))"
proof (cases "hs_generation s = HANDLE_GENERATION_MASK")
  case True
  then show ?thesis
    by (simp add: slot_age_def advance_generation_def HANDLE_GENERATION_MASK_def)
next
  case False
  have lt: "unat (hs_generation s) < 2 ^ 20"
    using assms(1) by (simp add: slot_wf_def le_gen_mask_iff)
  then have "unat (hs_generation s + 1) = unat (hs_generation s) + 1"
    by (simp add: unat_word_ariths(1))
  then show ?thesis
    using False assms(2) lt by (auto simp: slot_age_def advance_generation_def)
qed

lemma reserve_slots_grow:
  "reserve_slots al n t = (r, t') \<Longrightarrow> \<exists>k. t' = t @ replicate k vacant_slot"
  by (auto simp: reserve_slots_def Let_def split: if_splits intro: exI [of _ 0])

lemma table_step_slot:
  assumes "table_step t t'" "table_wf t" "i < length t"
  shows "i < length t' \<and> (slot_age (t' ! i) = slot_age (t ! i) \<and> hs_generation (t' ! i) = hs_generation (t ! i) \<and>
      (hs_entry (t ! i) \<noteq> None \<longrightarrow> hs_entry (t' ! i) = hs_entry (t ! i)) \<or>
    slot_age (t ! i) < slot_age (t' ! i))"
  using assms
proof (induction rule: table_step.induct)
  case (reserve al n t r t')
  then obtain k where "t' = t @ replicate k vacant_slot" using reserve_slots_grow by blast
  then show ?case using reserve by (simp add: nth_append)
next
  case (insert j t obj rights h t')
  then show ?case
    by (cases "i = j") (auto simp: insert_reserved_def slot_age_def slot_vacant_def)
next
  case (remove j t en t')
  have "slot_wf (t ! j)" using remove by (simp add: table_wf_nth)
  then have "slot_age (t ! j) < slot_age (advance_generation ((t ! j)\<lparr>hs_entry := None\<rparr>))"
    using remove(2) by (intro slot_age_advance) (auto simp: slot_wf_def)
  then show ?case
    using remove by (cases "i = j") (auto simp: take_entry_def)
qed

interpretation handle_gen: generation_slots table_wf table_age table_live table_step
proof unfold_locales
  fix t t' :: "'o handle_table" and i g :: nat
  show "table_wf t \<Longrightarrow> table_step t t' \<Longrightarrow> table_wf t'" by (rule table_step_wf)
  show "table_live t i g \<Longrightarrow> table_age t i = g"
    by (simp add: table_live_def table_age_def slot_age_def)
  assume wf: "table_wf t" and st: "table_step t t'"
  show "table_age t i \<le> table_age t' i"
    using table_step_slot [OF st wf, of i] by (auto simp: table_age_def)
  show "g < table_age t' i" if l: "table_live t i g" and n: "\<not> table_live t' i g"
    using table_step_slot [OF st wf, of i] l n
    by (auto simp: table_age_def table_live_def slot_age_def split: if_splits)
qed

lemma table_live_lookup:
  assumes "handle_parts h = Some (i, g)"
  shows "table_live t i (unat g) \<longleftrightarrow> table_lookup t h \<noteq> None"
proof -
  have "g \<noteq> 0" using handle_from_parts_parts(3) [OF assms] .
  then show ?thesis
    by (auto simp: table_lookup_parts [OF assms] table_live_def dest: word_unat_eq_iff [THEN iffD2])
qed

lemma table_close_step:
  assumes "table_close h t = (Inr en, t')"
  shows "table_step t t'"
  using assms
  by (auto simp: table_close_def validated_slot_Inr split: sum.splits option.splits intro: table_step.remove)

lemma table_duplicate_steps:
  assumes "table_duplicate al h r t = (res, t')" "table_wf t"
  shows "table_step\<^sup>*\<^sup>* t t'"
proof (cases res)
  case (Inl e)
  then show ?thesis
    using assms(1)
    by (auto simp: table_duplicate_def split: sum.splits if_splits prod.splits dest: reserve_slots_Inl)
next
  case (Inr h')
  then obtain obj js t1 where r: "reserve_slots al 1 t = (Inr js, t1)"
    and i: "insert_reserved (hd js) obj r t1 = (h', t')"
    using assms(1) by (fastforce simp: table_duplicate_def split: sum.splits if_splits prod.splits)
  note R = reserve_slots_Inr [OF r assms(2)]
  then have "hd js \<in> set js" by (cases js) auto
  with R(3) have "table_step t1 t'" by (intro table_step.insert [OF _ _ i]) auto
  with table_step.reserve [OF r] show ?thesis by (meson converse_rtranclp_into_rtranclp r_into_rtranclp)
qed

lemma commit_handles_steps:
  assumes "prepare_handles src prior ds = Inr ps" "commit_handles ps t = (ens, t')"
    and "length t = length src"
    and "\<And>h i g. h \<notin> set prior \<Longrightarrow> validated_slot src h = Inr (i, g) \<Longrightarrow> t ! i = src ! i"
  shows "table_step\<^sup>*\<^sup>* t t'"
  using assms
proof (induction ds arbitrary: prior ps t ens t')
  case Nil
  then show ?case by auto
next
  case (Cons d ds)
  from Cons.prems(1) obtain p qs where p: "prepare_handle src prior d = Inr p"
    and qs: "prepare_handles src (prior @ [hod_handle d]) ds = Inr qs" and ps: "ps = p # qs"
    by (auto split: sum.splits)
  obtain i g en where P: "hod_handle d \<notin> set prior" "validated_slot src (hod_handle d) = Inr (i, g)"
    "hs_entry (src ! i) = Some en"
    "p = (case hod_operation d of Move \<Rightarrow> Prep_Move i (hod_rights d)
            | Duplicate \<Rightarrow> Prep_Duplicate (en\<lparr>he_rights := hod_rights d\<rparr>))"
    using p by (rule prepare_handle_Inr)
  have ti: "t ! i = src ! i" "i < length t"
    using Cons.prems(3,4) P(1,2) by (auto simp: validated_slot_Inr)
  obtain e1 t1 where c1: "commit_handle p t = (e1, t1)" by fastforce
  obtain es where c2: "commit_handles qs t1 = (es, t')"
    using Cons.prems(2) ps c1 by (auto split: prod.splits)
  have t1: "t1 = (if hod_operation d = Move then take_entry i t else t)"
    using c1 P(4) by (auto simp: commit_handle_def split: handle_operation.splits)
  then have s: "table_step\<^sup>*\<^sup>* t t1"
    using ti P(3) by (auto intro!: r_into_rtranclp table_step.remove)
  have "t1 ! j = src ! j" if "h \<notin> set (prior @ [hod_handle d])" "validated_slot src h = Inr (j, g')" for h j g'
  proof -
    have "j \<noteq> i"
      using that P(2) by (auto simp: validated_slot_Inr dest: handle_eqI)
    then show ?thesis
      using Cons.prems(4) [of h j g'] that by (auto simp: t1 take_entry_def)
  qed
  then have "table_step\<^sup>*\<^sup>* t1 t'"
    using Cons.prems(3) by (intro Cons.IH [OF qs c2]) (auto simp: t1 take_entry_def)
  with s show ?case by simp
qed

lemma install_entries_steps:
  assumes "install_entries (zip ens js) t = (hs, t')" "distinct js" "length ens = length js"
    and "\<forall>j \<in> set js. j < length t \<and> slot_vacant (t ! j)"
  shows "table_step\<^sup>*\<^sup>* t t'"
  using assms(3,1,2,4)
proof (induction ens js arbitrary: t hs rule: list_induct2)
  case (Cons en ens j js)
  obtain h t1 where i: "insert_reserved j (he_object en) (he_rights en) t = (h, t1)" by fastforce
  then obtain hs1 where r: "install_entries (zip ens js) t1 = (hs1, t')"
    using Cons.prems(1) by (auto split: prod.splits)
  have "\<forall>k \<in> set js. k < length t1 \<and> slot_vacant (t1 ! k)"
    using insert_reserved_vacant [OF i] Cons.prems(2,3) by (metis distinct.simps(2) list.set_intros(2))
  then have "table_step\<^sup>*\<^sup>* t1 t'"
    using Cons.prems(2) by (intro Cons.IH [OF r]) auto
  moreover have "table_step t t1"
    using Cons.prems(3) by (intro table_step.insert [OF _ _ i]) auto
  ultimately show ?case by (rule converse_rtranclp_into_rtranclp [rotated])
qed auto

lemma transfer_batch_steps:
  assumes "handle_transfer_batch_between al src dst ds = (res, src', dst')" "table_wf src" "table_wf dst"
  shows "table_step\<^sup>*\<^sup>* src src'" "table_step\<^sup>*\<^sup>* dst dst'"
proof -
  have "table_step\<^sup>*\<^sup>* src src' \<and> table_step\<^sup>*\<^sup>* dst dst'"
  proof (cases res)
    case (Inl e)
    with assms(1) transfer_batch_error show ?thesis by blast
  next
    case (Inr hs)
    with assms(1) obtain ps js dst1 ens where
      p: "prepare_handles src [] ds = Inr ps"
      and r: "reserve_slots (alloc_skip 2 al) (length ds) dst = (Inr js, dst1)"
      and c: "commit_handles ps src = (ens, src')"
      and i: "install_entries (zip ens js) dst1 = (hs, dst')"
      by (auto simp: handle_transfer_batch_between_def split: if_splits sum.splits prod.splits)
    note R = reserve_slots_Inr [OF r assms(3)]
    have "length ens = length ds"
      using commit_handles_spec [OF p c assms(2)] by simp
    then have "table_step\<^sup>*\<^sup>* dst1 dst'"
      using R by (intro install_entries_steps [OF i]) auto
    then have "table_step\<^sup>*\<^sup>* dst dst'"
      using table_step.reserve [OF r] by (rule converse_rtranclp_into_rtranclp [rotated])
    moreover have "table_step\<^sup>*\<^sup>* src src'"
      by (rule commit_handles_steps [OF p c]) simp_all
    ultimately show ?thesis by simp
  qed
  then show "table_step\<^sup>*\<^sup>* src src'" "table_step\<^sup>*\<^sup>* dst dst'" by simp_all
qed

section \<open>Properties\<close>

text \<open>C1: a closed handle never resolves again. Whatever is later reserved, inserted, closed or
  transferred in the same table, looking the old raw value up fails with
  \<^verbatim>\<open>InvalidHandle\<close>, because its slot has a later generation or is retired.\<close>

theorem closed_handle_stays_invalid:
  assumes "table_wf t" "table_close h t = (Inr en, t1)" "table_step\<^sup>*\<^sup>* t1 t2"
  shows "table_entry t2 h = Inl InvalidHandle"
proof -
  note C = table_close_spec [OF assms(2,1)]
  from C(3) have l: "table_lookup t h \<noteq> None" by (auto split: option.splits)
  then obtain i g where p: "handle_parts h = Some (i, g)"
    by (cases "handle_parts h") (auto simp: table_lookup_no_parts)
  have "table_live t i (unat g)" "\<not> table_live t1 i (unat g)"
    using l C(2) by (auto simp: table_live_lookup [OF p])
  then have "\<not> table_live t2 i (unat g)"
    by (rule handle_gen.no_resurrection [OF assms(1) _ table_close_step [OF assms(2)] _ assms(3)])
  then show ?thesis
    by (simp add: table_live_lookup [OF p] table_lookup_None)
qed

text \<open>C2: the batch transfer is atomic and only attenuates. On an error neither table changes.
  On success every disposition named a distinct live source handle that carried the right its
  operation requires and all the rights it asks for; the receiver gains exactly one fresh handle
  per disposition, in order, bound to the same object with exactly the requested rights; the
  sender loses exactly the moved handles.\<close>

theorem transfer_batch_atomic_attenuating:
  assumes "handle_transfer_batch_between al src dst ds = (res, src', dst')" "table_wf src" "table_wf dst"
  shows "case res of
      Inl e \<Rightarrow> src' = src \<and> dst' = dst
    | Inr hs \<Rightarrow>
        length hs = length ds \<and> distinct hs \<and> distinct (map hod_handle ds) \<and>
        (\<forall>k < length ds. \<exists>en.
           table_lookup src (hod_handle (ds ! k)) = Some en \<and>
           contains (he_rights en) (required_right (hod_operation (ds ! k))) \<and>
           contains (he_rights en) (hod_rights (ds ! k)) \<and>
           table_lookup dst (hs ! k) = None \<and>
           table_lookup dst' (hs ! k) = Some \<lparr>he_object = he_object en, he_rights = hod_rights (ds ! k)\<rparr>) \<and>
        (\<forall>h. h \<notin> set hs \<longrightarrow> table_lookup dst' h = table_lookup dst h) \<and>
        (\<forall>h. table_lookup src' h = (if h \<in> moved_handles ds then None else table_lookup src h))"
proof (cases res)
  case (Inl e)
  then show ?thesis using transfer_batch_error [of al src dst ds e src' dst'] assms(1) by simp
next
  case (Inr hs)
  with assms(1) have b: "handle_transfer_batch_between al src dst ds = (Inr hs, src', dst')" by simp
  note T = transfer_batch_success [OF b assms(2,3)]
  have "\<exists>en. table_lookup src (hod_handle (ds ! k)) = Some en \<and>
      contains (he_rights en) (required_right (hod_operation (ds ! k))) \<and>
      contains (he_rights en) (hod_rights (ds ! k)) \<and> table_lookup dst (hs ! k) = None \<and>
      table_lookup dst' (hs ! k) = Some \<lparr>he_object = he_object en, he_rights = hod_rights (ds ! k)\<rparr>"
    if k: "k < length ds" for k
  proof -
    from T(9) k obtain en where en: "disposition_ok src (ds ! k) en" by fastforce
    have "table_lookup dst' (hs ! k) = Some (transferred_entry src (ds ! k))"
      using T(3,4,6) k by (simp add: map_upds_nth)
    moreover have "transferred_entry src (ds ! k) = \<lparr>he_object = he_object en, he_rights = hod_rights (ds ! k)\<rparr>"
      using en by (cases en) (simp add: transferred_entry_def disposition_ok_def)
    ultimately show ?thesis
      using en T(3,5) k by (auto simp: disposition_ok_def)
  qed
  then show ?thesis
    using T Inr by (auto simp: map_upds_apply_nontin)
qed

text \<open>Sample tables for the witnesses: slot 0 bound to object 7 with all transfer rights, slot 1 vacant.\<close>

definition sample_table :: "nat handle_table" where
  "sample_table =
     [\<lparr>hs_generation = 1, hs_entry = Some \<lparr>he_object = 7, he_rights = R_READ OR R_DUPLICATE OR R_TRANSFER\<rparr>\<rparr>,
      \<lparr>hs_generation = 5, hs_entry = None\<rparr>]"

lemma sample_table_wf: "table_wf sample_table"
  by code_simp

text \<open>Witness: closing handle 4096, after which its slot is bound again under generation 2.\<close>

theorem closed_handle_stays_invalid_witness:
  "table_close 4096 sample_table = (Inr \<lparr>he_object = 7, he_rights = R_READ OR R_DUPLICATE OR R_TRANSFER\<rparr>,
       take_entry 0 sample_table) \<and>
   snd (insert_reserved 0 9 R_READ (take_entry 0 sample_table)) ! 0
     = \<lparr>hs_generation = 2, hs_entry = Some \<lparr>he_object = 9, he_rights = R_READ\<rparr>\<rparr> \<and>
   table_entry (snd (insert_reserved 0 9 R_READ (take_entry 0 sample_table))) 4096 = Inl InvalidHandle"
proof -
  have c: "table_close 4096 sample_table = (Inr \<lparr>he_object = 7, he_rights = R_READ OR R_DUPLICATE OR R_TRANSFER\<rparr>,
      take_entry 0 sample_table)" by code_simp
  obtain h t2 where i: "insert_reserved 0 9 R_READ (take_entry 0 sample_table) = (h, t2)" by fastforce
  have "slot_vacant (take_entry 0 sample_table ! 0)" "0 < length (take_entry 0 sample_table)" by code_simp+
  then have "table_step\<^sup>*\<^sup>* (take_entry 0 sample_table) t2"
    using i by (intro r_into_rtranclp table_step.insert)
  from closed_handle_stays_invalid [OF sample_table_wf c this]
  have "table_entry t2 4096 = Inl InvalidHandle" .
  moreover have "snd (insert_reserved 0 9 R_READ (take_entry 0 sample_table)) ! 0
     = \<lparr>hs_generation = 2, hs_entry = Some \<lparr>he_object = 9, he_rights = R_READ\<rparr>\<rparr>" by code_simp
  ultimately show ?thesis using c i by simp
qed

text \<open>Witness: moving handle 4096 with the single right \<^verbatim>\<open>READ\<close> into an empty table.\<close>

theorem transfer_batch_atomic_attenuating_witness:
  "handle_transfer_batch_between (\<lambda>_. True) sample_table []
     [\<lparr>hod_handle = 4096, hod_operation = Move, hod_rights = R_READ\<rparr>] =
   (Inr [4096], take_entry 0 sample_table,
    [\<lparr>hs_generation = 1, hs_entry = Some \<lparr>he_object = 7, he_rights = R_READ\<rparr>\<rparr>]) \<and>
   table_lookup (take_entry 0 sample_table) 4096 = None"
proof -
  have b: "handle_transfer_batch_between (\<lambda>_. True) sample_table []
     [\<lparr>hod_handle = 4096, hod_operation = Move, hod_rights = R_READ\<rparr>] =
   (Inr [4096], take_entry 0 sample_table,
    [\<lparr>hs_generation = 1, hs_entry = Some \<lparr>he_object = 7, he_rights = R_READ\<rparr>\<rparr>])" by code_simp
  from transfer_batch_atomic_attenuating [OF b sample_table_wf table_wf_Nil]
  have "table_lookup (take_entry 0 sample_table) 4096 = None"
    by (simp add: moved_handles_def)
  with b show ?thesis by simp
qed

end
