(* ===== verification/Channel_State.thy ===== *)
theory Channel_State
  imports Signal_Waiters Handle_Table
begin

text \<open>
  The state shared by the two endpoints of a channel (\<^verbatim>\<open>ChannelState\<close> of
  \<^verbatim>\<open>crates/ginkgo-ipc/src/kernel.rs\<close>): open flags, one message queue and one pool of
  recycled messages per side, and the waiters of each side, with the signal levels, the
  notification of a side, and the parts of write, read and endpoint drop that run under the
  channel lock. The two-element arrays indexed by \<^verbatim>\<open>side\<close> are functions on the type
  \<open>side\<close>; \<^verbatim>\<open>1 - side\<close> is \<open>peer side\<close>. A queued handle is an entry whose object is
  a reference (a number) into the object store.
\<close>

section \<open>State and signals\<close>

definition CHANNEL_QUEUE_CAPACITY :: nat where "CHANNEL_QUEUE_CAPACITY = 64"

datatype side = Side0 | Side1

fun peer :: "side \<Rightarrow> side" where
  "peer Side0 = Side1"
| "peer Side1 = Side0"

type_synonym oid = nat

record kernel_message =
  km_bytes :: "u8 list"
  km_handles :: "oid handle_entry list"

record channel_state =
  ch_open :: "side \<Rightarrow> bool"
  ch_queues :: "side \<Rightarrow> kernel_message list"
  ch_free_messages :: "side \<Rightarrow> kernel_message list"
  ch_waiters :: "side \<Rightarrow> signal_waiter list"

definition channel_state_new :: channel_state where
  "channel_state_new =
     \<lparr>ch_open = (\<lambda>_. True), ch_queues = (\<lambda>_. []), ch_free_messages = (\<lambda>_. []), ch_waiters = (\<lambda>_. [])\<rparr>"

definition channel_signals :: "channel_state \<Rightarrow> side \<Rightarrow> signals" where
  "channel_signals s sd =
     (if ch_queues s sd \<noteq> [] then S_READABLE else 0) OR
     (if \<not> ch_open s (peer sd) then S_PEER_CLOSED
      else if length (ch_queues s (peer sd)) < CHANNEL_QUEUE_CAPACITY then S_WRITABLE else 0)"

definition set_channel_waiters :: "side \<Rightarrow> signal_waiter list \<Rightarrow> channel_state \<Rightarrow> channel_state" where
  "set_channel_waiters sd ws s = s\<lparr>ch_waiters := (ch_waiters s)(sd := ws)\<rparr>"

definition notify_channel_waiters ::
  "(observer \<Rightarrow> bool) \<Rightarrow> side \<Rightarrow> channel_state \<Rightarrow> notification list \<times> channel_state" where
  "notify_channel_waiters alive sd s =
     (case notify_waiters alive (channel_signals s sd) (ch_waiters s sd) of
        (evs, ws) \<Rightarrow> (evs, set_channel_waiters sd ws s))"

section \<open>Operations under the channel lock\<close>

text \<open>
  \<^verbatim>\<open>channel_write_bytes\<close> from the lock on. \<open>al 0\<close> decides whether the byte buffer of the
  message can be grown to the needed capacity; if not, the message popped from the pool is dropped.
\<close>

definition channel_push_bytes ::
  "allocs \<Rightarrow> (observer \<Rightarrow> bool) \<Rightarrow> side \<Rightarrow> u8 list \<Rightarrow> channel_state \<Rightarrow> unit ipc \<times> notification list \<times> channel_state" where
  "channel_push_bytes al alive sd bytes s =
     (let p = peer sd in
      if \<not> ch_open s p then (Inl PeerClosed, [], s)
      else if length (ch_queues s p) = CHANNEL_QUEUE_CAPACITY then (Inl ShouldWait, [], s)
      else
        let message = (if ch_free_messages s p = [] then \<lparr>km_bytes = [], km_handles = []\<rparr>
                       else last (ch_free_messages s p));
            s1 = s\<lparr>ch_free_messages := (ch_free_messages s)(p := butlast (ch_free_messages s p))\<rparr>
        in if bytes \<noteq> [] \<and> \<not> al 0 then (Inl OutOfMemory, [], s1)
           else
             let s2 = s1\<lparr>ch_queues := (ch_queues s1)(p := ch_queues s1 p @ [message\<lparr>km_bytes := bytes\<rparr>])\<rparr>
             in case notify_channel_waiters alive p s2 of (evs, s3) \<Rightarrow> (Inr (), evs, s3))"

text \<open>The commit of a write with handles: queue the message at the peer, then notify the peer.\<close>

definition channel_push_message ::
  "(observer \<Rightarrow> bool) \<Rightarrow> side \<Rightarrow> kernel_message \<Rightarrow> channel_state \<Rightarrow> notification list \<times> channel_state" where
  "channel_push_message alive sd message s =
     (let p = peer sd
      in notify_channel_waiters alive p
           (s\<lparr>ch_queues := (ch_queues s)(p := ch_queues s p @ [message])\<rparr>))"

text \<open>
  The commit of a read, with at least one message queued: pop the front message, recycle it if it
  carried no handles, then notify the peer. The popped message is returned for delivery.
\<close>

definition channel_pop_message ::
  "(observer \<Rightarrow> bool) \<Rightarrow> side \<Rightarrow> channel_state \<Rightarrow> kernel_message \<times> notification list \<times> channel_state" where
  "channel_pop_message alive sd s =
     (let message = hd (ch_queues s sd);
          s1 = s\<lparr>ch_queues := (ch_queues s)(sd := tl (ch_queues s sd))\<rparr>;
          s2 = (if km_handles message = []
                then s1\<lparr>ch_free_messages := (ch_free_messages s1)
                         (sd := ch_free_messages s1 sd @ [message\<lparr>km_bytes := []\<rparr>])\<rparr>
                else s1)
      in case notify_channel_waiters alive (peer sd) s2 of (evs, s3) \<Rightarrow> (message, evs, s3))"

text \<open>
  \<^verbatim>\<open>Drop for ChannelEndpoint\<close>: the side is closed and its queue taken before both sides are
  notified; the discarded messages are returned, for their handles to be dropped afterwards.
\<close>

definition channel_endpoint_drop ::
  "(observer \<Rightarrow> bool) \<Rightarrow> side \<Rightarrow> channel_state \<Rightarrow> kernel_message list \<times> notification list \<times> channel_state" where
  "channel_endpoint_drop alive sd s =
     (let discarded = ch_queues s sd;
          s1 = s\<lparr>ch_open := (ch_open s)(sd := False), ch_queues := (ch_queues s)(sd := [])\<rparr>
      in case notify_channel_waiters alive sd s1 of
           (evs1, s2) \<Rightarrow>
             (case notify_channel_waiters alive (peer sd) s2 of
                (evs2, s3) \<Rightarrow> (discarded, evs1 @ evs2, s3)))"

section \<open>Signals and notification\<close>

lemma peer_peer [simp]: "peer (peer sd) = sd"
  by (cases sd) simp_all

lemma peer_neq [simp]: "peer sd \<noteq> sd" "sd \<noteq> peer sd"
  by (cases sd; simp)+

lemma side_cases: "x = sd \<or> x = peer sd"
  by (cases x; cases sd) simp_all

lemma channel_signals_waiters [simp]:
  "channel_signals (s\<lparr>ch_waiters := f\<rparr>) sd = channel_signals s sd"
  by (simp add: channel_signals_def)

interpretation chw: waitable
  "\<lambda>s. channel_signals s sd" "\<lambda>s. ch_waiters s sd" "set_channel_waiters sd" "\<lambda>alive. notify_channel_waiters alive sd"
  for sd :: side
  by unfold_locales (auto simp: set_channel_waiters_def notify_channel_waiters_def split: prod.splits)

lemma notify_channel_frame [simp]:
  "notify_channel_waiters alive sd s = (evs, s') \<Longrightarrow> ch_open s' = ch_open s"
  "notify_channel_waiters alive sd s = (evs, s') \<Longrightarrow> ch_queues s' = ch_queues s"
  "notify_channel_waiters alive sd s = (evs, s') \<Longrightarrow> ch_free_messages s' = ch_free_messages s"
  "notify_channel_waiters alive sd s = (evs, s') \<Longrightarrow> ch_waiters s' (peer sd) = ch_waiters s (peer sd)"
  "notify_channel_waiters alive sd s = (evs, s') \<Longrightarrow> channel_signals s' x = channel_signals s x"
  by (auto simp: notify_channel_waiters_def set_channel_waiters_def split: prod.splits)

section \<open>Channel invariant\<close>

text \<open>
  Queues are bounded; the recycled messages together with the queued messages that will be
  recycled fit the pool (so recycling never allocates under the lock); recycled messages are
  empty; a closed side has no queue; waiter lists are bounded.
\<close>

definition plain_messages :: "kernel_message list \<Rightarrow> nat" where
  "plain_messages q = length (filter (\<lambda>m. km_handles m = []) q)"

definition message_wf :: "kernel_message \<Rightarrow> bool" where
  "message_wf m \<longleftrightarrow> length (km_bytes m) \<le> CHANNEL_MAX_BYTES \<and> length (km_handles m) \<le> CHANNEL_MAX_HANDLES"

definition channel_side_wf :: "channel_state \<Rightarrow> side \<Rightarrow> bool" where
  "channel_side_wf s sd \<longleftrightarrow>
     length (ch_queues s sd) \<le> CHANNEL_QUEUE_CAPACITY \<and>
     length (ch_free_messages s sd) + plain_messages (ch_queues s sd) \<le> CHANNEL_QUEUE_CAPACITY \<and>
     (\<forall>m \<in> set (ch_free_messages s sd). m = \<lparr>km_bytes = [], km_handles = []\<rparr>) \<and>
     (\<forall>m \<in> set (ch_queues s sd). message_wf m) \<and>
     (\<not> ch_open s sd \<longrightarrow> ch_queues s sd = []) \<and>
     length (ch_waiters s sd) \<le> WAITERS_PER_FACET_LIMIT"

definition channel_wf :: "channel_state \<Rightarrow> bool" where
  "channel_wf s \<longleftrightarrow> channel_side_wf s Side0 \<and> channel_side_wf s Side1"

text \<open>No waiter of either side waits for a signal that is up: no wakeup is lost.\<close>

definition channel_quiet :: "channel_state \<Rightarrow> bool" where
  "channel_quiet s \<longleftrightarrow>
     quiet (channel_signals s Side0) (ch_waiters s Side0) \<and> quiet (channel_signals s Side1) (ch_waiters s Side1)"

lemma channel_signals_free [simp]:
  "channel_signals (s\<lparr>ch_free_messages := f\<rparr>) sd = channel_signals s sd"
  by (simp add: channel_signals_def)

lemma channel_wf_side: "channel_wf s \<longleftrightarrow> channel_side_wf s sd \<and> channel_side_wf s (peer sd)"
  by (cases sd) (auto simp: channel_wf_def)

lemma channel_quiet_side:
  "channel_quiet s \<longleftrightarrow> quiet (channel_signals s sd) (ch_waiters s sd) \<and>
     quiet (channel_signals s (peer sd)) (ch_waiters s (peer sd))"
  by (cases sd) (auto simp: channel_quiet_def)

lemma plain_messages_simps [simp]:
  "plain_messages [] = 0"
  "plain_messages (m # q) = (if km_handles m = [] then Suc (plain_messages q) else plain_messages q)"
  "plain_messages (q @ q') = plain_messages q + plain_messages q'"
  by (simp_all add: plain_messages_def)

lemma plain_messages_le: "plain_messages q \<le> length q"
  by (simp add: plain_messages_def)

lemma channel_state_new_wf: "channel_wf channel_state_new" "channel_quiet channel_state_new"
  by (simp_all add: channel_wf_def channel_side_wf_def channel_quiet_def channel_state_new_def)

lemma notify_channel_wf:
  assumes "notify_channel_waiters alive sd s = (evs, s')" "channel_wf s"
  shows "channel_wf s'"
proof -
  have "length (ch_waiters s' sd) \<le> length (ch_waiters s sd)"
    using chw.notify_limit [where sd = sd and alive = alive and s = s] assms(1) by simp
  then show ?thesis
    using assms notify_channel_frame [OF assms(1)]
    by (auto simp: channel_wf_side [where sd = sd] channel_side_wf_def)
qed

lemma notify_channel_quiet:
  assumes "notify_channel_waiters alive sd s = (evs, s')"
    and "quiet (channel_signals s (peer sd)) (ch_waiters s (peer sd))"
  shows "channel_quiet s'"
  using chw.notify_quiet [where sd = sd and alive = alive and s = s] assms notify_channel_frame [OF assms(1)]
  by (simp add: channel_quiet_side [where sd = sd])

text \<open>What a longer queue, a shorter queue and a closed endpoint do to the levels of the two sides.\<close>

lemma channel_signals_writer_shrinks:
  assumes "ch_open s' = ch_open s" "ch_queues s' sd = ch_queues s sd"
    and "length (ch_queues s (peer sd)) \<le> length (ch_queues s' (peer sd))"
  shows "contains (channel_signals s sd) (channel_signals s' sd)"
  using assms by (auto simp: channel_signals_def contains_def signal_defs)

lemma channel_signals_reader_shrinks:
  assumes "ch_open s' = ch_open s" "ch_queues s' (peer sd) = ch_queues s (peer sd)"
    and "ch_queues s sd = [] \<Longrightarrow> ch_queues s' sd = []"
  shows "contains (channel_signals s sd) (channel_signals s' sd)"
  using assms by (auto simp: channel_signals_def contains_def signal_defs)

section \<open>Writing\<close>

lemma channel_push_message_frame:
  assumes "channel_push_message alive sd m s = (evs, s')"
  shows "ch_open s' = ch_open s" "ch_queues s' = (ch_queues s)(peer sd := ch_queues s (peer sd) @ [m])"
    "ch_free_messages s' = ch_free_messages s"
  using assms by (auto simp: channel_push_message_def Let_def dest: notify_channel_frame)

lemma channel_push_message_wf:
  assumes "channel_push_message alive sd m s = (evs, s')" "channel_wf s" "message_wf m" "km_handles m \<noteq> []"
    and "ch_open s (peer sd)" "length (ch_queues s (peer sd)) < CHANNEL_QUEUE_CAPACITY"
  shows "channel_wf s'"
proof (rule notify_channel_wf [OF assms(1) [unfolded channel_push_message_def Let_def]])
  show "channel_wf (s\<lparr>ch_queues := (ch_queues s)(peer sd := ch_queues s (peer sd) @ [m])\<rparr>)"
    using assms(2-) by (auto simp: channel_wf_side [where sd = sd] channel_side_wf_def)
qed

lemma channel_push_message_quiet:
  assumes "channel_push_message alive sd m s = (evs, s')" "channel_quiet s"
  shows "channel_quiet s'"
proof (rule notify_channel_quiet [OF assms(1) [unfolded channel_push_message_def Let_def]])
  let ?s = "s\<lparr>ch_queues := (ch_queues s)(peer sd := ch_queues s (peer sd) @ [m])\<rparr>"
  have "contains (channel_signals s sd) (channel_signals ?s sd)"
    by (rule channel_signals_writer_shrinks) simp_all
  then show "quiet (channel_signals ?s (peer (peer sd))) (ch_waiters ?s (peer (peer sd)))"
    using assms(2) by (auto simp: channel_quiet_side [where sd = sd] elim: quiet_mono)
qed

lemma channel_push_bytes_cases:
  assumes "channel_push_bytes al alive sd bytes s = (r, evs, s')"
  obtains (closed) "r = Inl PeerClosed" "\<not> ch_open s (peer sd)" "s' = s" "evs = []"
  | (full) "r = Inl ShouldWait" "ch_open s (peer sd)" "length (ch_queues s (peer sd)) = CHANNEL_QUEUE_CAPACITY"
      "s' = s" "evs = []"
  | (oom) "r = Inl OutOfMemory" "\<not> al 0" "ch_open s (peer sd)" "evs = []"
      "s' = s\<lparr>ch_free_messages := (ch_free_messages s)(peer sd := butlast (ch_free_messages s (peer sd)))\<rparr>"
  | (ok) m where "r = Inr ()" "ch_open s (peer sd)" "length (ch_queues s (peer sd)) \<noteq> CHANNEL_QUEUE_CAPACITY"
      "m = (if ch_free_messages s (peer sd) = [] then \<lparr>km_bytes = [], km_handles = []\<rparr>
            else last (ch_free_messages s (peer sd)))"
      "channel_push_message alive sd (m\<lparr>km_bytes := bytes\<rparr>)
         (s\<lparr>ch_free_messages := (ch_free_messages s)(peer sd := butlast (ch_free_messages s (peer sd)))\<rparr>) = (evs, s')"
  using assms
  by (auto simp: channel_push_bytes_def channel_push_message_def Let_def split: if_splits prod.splits)

lemma recycled_message:
  assumes "channel_wf s"
  shows "(if ch_free_messages s sd = [] then \<lparr>km_bytes = [], km_handles = []\<rparr> else last (ch_free_messages s sd))
    = \<lparr>km_bytes = [], km_handles = []\<rparr>"
  using assms by (auto simp: channel_wf_side [where sd = sd] channel_side_wf_def)

text \<open>A successful byte write appends exactly one message without handles at the peer.\<close>

lemma channel_push_bytes_spec:
  assumes "channel_push_bytes al alive sd bytes s = (r, evs, s')" "channel_wf s"
    and "length bytes \<le> CHANNEL_MAX_BYTES"
  shows "channel_wf s'" "ch_open s' = ch_open s"
    and "ch_queues s' = (case r of Inl _ \<Rightarrow> ch_queues s
      | Inr _ \<Rightarrow> (ch_queues s)(peer sd := ch_queues s (peer sd) @ [\<lparr>km_bytes = bytes, km_handles = []\<rparr>]))"
proof -
  let ?s1 = "s\<lparr>ch_free_messages := (ch_free_messages s)(peer sd := butlast (ch_free_messages s (peer sd)))\<rparr>"
  let ?m = "\<lparr>km_bytes = bytes, km_handles = []\<rparr>"
  have s1: "channel_wf ?s1"
    using assms(2) by (auto simp: channel_wf_side [where sd = sd] channel_side_wf_def dest: in_set_butlastD)
  from assms(1) have "channel_wf s' \<and> ch_open s' = ch_open s \<and> ch_queues s' = (case r of Inl _ \<Rightarrow> ch_queues s
      | Inr _ \<Rightarrow> (ch_queues s)(peer sd := ch_queues s (peer sd) @ [?m]))"
  proof (cases rule: channel_push_bytes_cases)
    case (ok m)
    then have c: "channel_push_message alive sd ?m ?s1 = (evs, s')"
      using recycled_message [OF assms(2), of "peer sd"] by simp
    have "channel_wf (?s1\<lparr>ch_queues := (ch_queues ?s1)(peer sd := ch_queues ?s1 (peer sd) @ [?m])\<rparr>)"
      using assms(2,3) ok(2,3) plain_messages_le [of "ch_queues s (peer sd)"]
      by (cases "ch_free_messages s (peer sd)" rule: rev_cases)
        (auto simp: channel_wf_side [where sd = sd] channel_side_wf_def message_wf_def)
    then have "channel_wf s'"
      by (rule notify_channel_wf [OF c [unfolded channel_push_message_def Let_def]])
    then show ?thesis
      using ok(1) channel_push_message_frame [OF c] by simp
  qed (use assms(2) s1 in simp_all)
  then show "channel_wf s'" "ch_open s' = ch_open s"
    and "ch_queues s' = (case r of Inl _ \<Rightarrow> ch_queues s
      | Inr _ \<Rightarrow> (ch_queues s)(peer sd := ch_queues s (peer sd) @ [?m]))"
    by simp_all
qed

lemma channel_push_bytes_quiet:
  assumes "channel_push_bytes al alive sd bytes s = (r, evs, s')" "channel_quiet s"
  shows "channel_quiet s'"
  using assms(1)
proof (cases rule: channel_push_bytes_cases)
  case (ok m)
  show ?thesis
    by (rule channel_push_message_quiet [OF ok(5)])
      (use assms(2) in \<open>simp add: channel_quiet_def\<close>)
qed (use assms(2) in \<open>simp_all add: channel_quiet_def\<close>)

section \<open>Reading\<close>

lemma channel_pop_message_spec:
  assumes "channel_pop_message alive sd s = (m, evs, s')"
  shows "m = hd (ch_queues s sd)" "ch_open s' = ch_open s"
    "ch_queues s' = (ch_queues s)(sd := tl (ch_queues s sd))"
  using assms by (auto simp: channel_pop_message_def Let_def split: prod.splits if_splits dest: notify_channel_frame)

lemma channel_pop_message_wf:
  assumes "channel_pop_message alive sd s = (m, evs, s')" "channel_wf s" "ch_queues s sd \<noteq> []"
  shows "channel_wf s'" "message_wf m"
proof -
  from assms(3) obtain m0 q where q: "ch_queues s sd = m0 # q" by (cases "ch_queues s sd") auto
  let ?s1 = "s\<lparr>ch_queues := (ch_queues s)(sd := q)\<rparr>"
  let ?s2 = "if km_handles m0 = [] then ?s1\<lparr>ch_free_messages := (ch_free_messages s)
      (sd := ch_free_messages s sd @ [m0\<lparr>km_bytes := []\<rparr>])\<rparr> else ?s1"
  have n: "notify_channel_waiters alive (peer sd) ?s2 = (evs, s')" and m: "m = m0"
    using assms(1) by (auto simp: channel_pop_message_def q Let_def split: prod.splits if_splits)
  have "channel_wf ?s2"
    using assms(2) q by (cases m0) (auto simp: channel_wf_side [where sd = sd] channel_side_wf_def)
  then show "channel_wf s'" by (rule notify_channel_wf [OF n])
  show "message_wf m"
    using assms(2) q m by (auto simp: channel_wf_side [where sd = sd] channel_side_wf_def)
qed

lemma channel_pop_message_quiet:
  assumes "channel_pop_message alive sd s = (m, evs, s')" "channel_quiet s"
  shows "channel_quiet s'"
proof -
  obtain s2 where s2: "notify_channel_waiters alive (peer sd) s2 = (evs, s')" "ch_open s2 = ch_open s"
    "ch_waiters s2 = ch_waiters s" "ch_queues s2 = (ch_queues s)(sd := tl (ch_queues s sd))"
    using assms(1) by (auto simp: channel_pop_message_def Let_def split: prod.splits if_splits)
  have "contains (channel_signals s sd) (channel_signals s2 sd)"
    by (rule channel_signals_reader_shrinks) (simp_all add: s2)
  then show ?thesis
    using assms(2) by (intro notify_channel_quiet [OF s2(1)])
      (auto simp: channel_quiet_side [where sd = sd] s2(3) elim: quiet_mono)
qed

section \<open>Closing an endpoint\<close>

lemma channel_endpoint_drop_spec:
  assumes "channel_endpoint_drop alive sd s = (ms, evs, s')"
  shows "ms = ch_queues s sd" "ch_open s' = (ch_open s)(sd := False)" "ch_queues s' = (ch_queues s)(sd := [])"
  using assms by (auto simp: channel_endpoint_drop_def Let_def split: prod.splits dest!: notify_channel_frame)

lemma channel_endpoint_drop_wf:
  assumes "channel_endpoint_drop alive sd s = (ms, evs, s')" "channel_wf s"
  shows "channel_wf s'"
proof -
  have "channel_wf (s\<lparr>ch_open := (ch_open s)(sd := False), ch_queues := (ch_queues s)(sd := [])\<rparr>)"
    using assms(2) by (auto simp: channel_wf_side [where sd = sd] channel_side_wf_def)
  then show ?thesis
    using assms(1) by (auto simp: channel_endpoint_drop_def Let_def split: prod.splits dest: notify_channel_wf)
qed

lemma channel_endpoint_drop_quiet:
  assumes "channel_endpoint_drop alive sd s = (ms, evs, s')"
  shows "channel_quiet s'"
proof -
  obtain s1 s2 e1 e2 where n: "notify_channel_waiters alive sd s1 = (e1, s2)"
    "notify_channel_waiters alive (peer sd) s2 = (e2, s')"
    using assms by (auto simp: channel_endpoint_drop_def Let_def split: prod.splits)
  show ?thesis
    using chw.notify_quiet [where sd = sd and alive = alive and s = s1] n(1)
    by (intro notify_channel_quiet [OF n(2)]) simp
qed

end
