(* ===== verification/Window_State.thy ===== *)
theory Window_State
  imports Signal_Waiters
begin

text \<open>
  The surface pool shared by the client and the manager endpoint of a window
  (\<^verbatim>\<open>WindowState\<close> of \<^verbatim>\<open>crates/ginkgo-ipc/src/kernel.rs\<close>): buffer ownership, the pending
  and the displayed presentation, the single unread release, retirement and the waiters of the two
  roles. Each operation is the part of the corresponding \<^verbatim>\<open>window_*\<close> method that runs under
  the window lock, followed by its notifications; \<open>Kernel_Calls\<close> adds the handle checks.
  Buffer indices (\<^verbatim>\<open>u32\<close>), generations and serials (\<^verbatim>\<open>u64\<close>) are natural numbers; the
  checked increment of the serial is kept.
\<close>

section \<open>State and signals\<close>

datatype window_role = Client | Manager

datatype window_buffer_state = ClientOwned | Pending | Displayed | Released

record window_presentation =
  wp_buffer_index :: nat
  wp_generation :: nat
  wp_presentation_serial :: nat

record window_release =
  wr_buffer_index :: nat
  wr_generation :: nat
  wr_presentation_serial :: nat

record window_state =
  wn_shared_memory :: nat
  wn_buffer_len :: nat
  wn_generation :: nat
  wn_buffers :: "window_buffer_state list"
  wn_pending :: "window_presentation option"
  wn_pending_read :: bool
  wn_displayed :: "window_presentation option"
  wn_release :: "window_release option"
  wn_next_serial :: nat
  wn_retired :: bool
  wn_client_open :: bool
  wn_manager_open :: bool
  wn_waiters :: "window_role \<Rightarrow> signal_waiter list"

definition window_state_new :: "nat \<Rightarrow> nat \<Rightarrow> nat \<Rightarrow> nat \<Rightarrow> window_state" where
  "window_state_new memory buffer_len generation buffer_count =
     \<lparr>wn_shared_memory = memory, wn_buffer_len = buffer_len, wn_generation = generation,
      wn_buffers = replicate buffer_count ClientOwned, wn_pending = None, wn_pending_read = False,
      wn_displayed = None, wn_release = None, wn_next_serial = 1, wn_retired = False,
      wn_client_open = True, wn_manager_open = True, wn_waiters = (\<lambda>_. [])\<rparr>"

definition window_signals :: "window_state \<Rightarrow> window_role \<Rightarrow> signals" where
  "window_signals s role =
     (case role of
        Client \<Rightarrow>
          (if wn_release s \<noteq> None then S_READABLE else 0) OR
          (if \<not> wn_manager_open s then S_PEER_CLOSED else 0) OR
          (if \<not> wn_retired s \<and> wn_manager_open s \<and> wn_release s = None \<and> wn_pending s = None \<and>
              list_ex (\<lambda>b. b = ClientOwned) (wn_buffers s)
           then S_WRITABLE else 0)
      | Manager \<Rightarrow>
          (if wn_pending s \<noteq> None then S_READABLE else 0) OR
          (if \<not> wn_client_open s then S_PEER_CLOSED else 0))"

definition set_window_waiters :: "window_role \<Rightarrow> signal_waiter list \<Rightarrow> window_state \<Rightarrow> window_state" where
  "set_window_waiters role ws s = s\<lparr>wn_waiters := (wn_waiters s)(role := ws)\<rparr>"

definition notify_window_waiters ::
  "(observer \<Rightarrow> bool) \<Rightarrow> window_role \<Rightarrow> window_state \<Rightarrow> notification list \<times> window_state" where
  "notify_window_waiters alive role s =
     (case notify_waiters alive (window_signals s role) (wn_waiters s role) of
        (evs, ws) \<Rightarrow> (evs, set_window_waiters role ws s))"

text \<open>The two notifications every changing operation ends with.\<close>

definition notify_window_both :: "(observer \<Rightarrow> bool) \<Rightarrow> window_state \<Rightarrow> notification list \<times> window_state" where
  "notify_window_both alive s =
     (case notify_window_waiters alive Client s of
        (evs1, s1) \<Rightarrow>
          (case notify_window_waiters alive Manager s1 of (evs2, s2) \<Rightarrow> (evs1 @ evs2, s2)))"

section \<open>Operations under the window lock\<close>

type_synonym 'a window_result = "'a ipc \<times> notification list \<times> window_state"

definition release_of :: "window_presentation \<Rightarrow> window_release" where
  "release_of p = \<lparr>wr_buffer_index = wp_buffer_index p, wr_generation = wp_generation p,
     wr_presentation_serial = wp_presentation_serial p\<rparr>"

definition win_present ::
  "(observer \<Rightarrow> bool) \<Rightarrow> nat \<Rightarrow> nat \<Rightarrow> window_state \<Rightarrow> window_presentation window_result" where
  "win_present alive index generation s =
     (if wn_release s \<noteq> None then (Inl ShouldWait, [], s)
      else if \<not> wn_manager_open s then (Inl PeerClosed, [], s)
      else if wn_retired s then (Inl InvalidMessage, [], s)
      else if wn_pending s \<noteq> None then (Inl ShouldWait, [], s)
      else if generation \<noteq> wn_generation s then (Inl InvalidMessage, [], s)
      else
        (case vec_get (wn_buffers s) index of
           None \<Rightarrow> (Inl InvalidMessage, [], s)
         | Some b \<Rightarrow>
             if b \<noteq> ClientOwned then (Inl InvalidMessage, [], s)
             else
               (case checked_add (wn_next_serial s) 1 of
                  None \<Rightarrow> (Inl InvalidMessage, [], s)
                | Some next_serial \<Rightarrow>
                    let presentation = \<lparr>wp_buffer_index = index, wp_generation = generation,
                                         wp_presentation_serial = wn_next_serial s\<rparr>;
                        s1 = s\<lparr>wn_next_serial := next_serial, wn_buffers := (wn_buffers s)[index := Pending],
                               wn_pending := Some presentation, wn_pending_read := False\<rparr>
                    in case notify_window_both alive s1 of (evs, s2) \<Rightarrow> (Inr presentation, evs, s2))))"

definition win_read_release :: "(observer \<Rightarrow> bool) \<Rightarrow> window_state \<Rightarrow> window_release window_result" where
  "win_read_release alive s =
     (case wn_release s of
        None \<Rightarrow> (if wn_manager_open s then (Inl ShouldWait, [], s) else (Inl PeerClosed, [], s))
      | Some release \<Rightarrow>
          if vec_get (wn_buffers s) (wr_buffer_index release) \<noteq> Some Released then (Inl InvalidMessage, [], s)
          else
            let s1 = s\<lparr>wn_release := None, wn_buffers := (wn_buffers s)[wr_buffer_index release := ClientOwned]\<rparr>
            in case notify_window_both alive s1 of (evs, s2) \<Rightarrow> (Inr release, evs, s2))"

definition win_manager_pending :: "window_state \<Rightarrow> window_presentation ipc" where
  "win_manager_pending s =
     (case wn_pending s of
        Some pending \<Rightarrow> Inr pending
      | None \<Rightarrow> if wn_client_open s then Inl ShouldWait else Inl PeerClosed)"

definition win_discard_pending ::
  "(observer \<Rightarrow> bool) \<Rightarrow> window_presentation \<Rightarrow> window_state \<Rightarrow> unit window_result" where
  "win_discard_pending alive presentation s =
     (if wn_pending s \<noteq> Some presentation then (Inl InvalidMessage, [], s)
      else if wn_pending_read s \<or> wn_release s \<noteq> None then (Inl ShouldWait, [], s)
      else if vec_get (wn_buffers s) (wp_buffer_index presentation) \<noteq> Some Pending then (Inl InvalidMessage, [], s)
      else
        let s1 = s\<lparr>wn_buffers := (wn_buffers s)[wp_buffer_index presentation := Released],
                   wn_pending := None, wn_release := Some (release_of presentation)\<rparr>
        in case notify_window_both alive s1 of (evs, s2) \<Rightarrow> (Inr (), evs, s2))"

definition win_coalesce_pending ::
  "(observer \<Rightarrow> bool) \<Rightarrow> window_presentation \<Rightarrow> nat \<Rightarrow> nat \<Rightarrow> window_state \<Rightarrow> window_presentation window_result" where
  "win_coalesce_pending alive pending replacement_index generation s =
     (if wn_pending s \<noteq> Some pending \<or> wn_pending_read s \<or> wn_release s \<noteq> None \<or> wn_retired s \<or>
         \<not> wn_client_open s \<or> generation \<noteq> wn_generation s
      then (Inl ShouldWait, [], s)
      else if vec_get (wn_buffers s) (wp_buffer_index pending) \<noteq> Some Pending \<or>
              vec_get (wn_buffers s) replacement_index \<noteq> Some ClientOwned
      then (Inl InvalidMessage, [], s)
      else
        (case checked_add (wn_next_serial s) 1 of
           None \<Rightarrow> (Inl InvalidMessage, [], s)
         | Some next_serial \<Rightarrow>
             let replacement = \<lparr>wp_buffer_index = replacement_index, wp_generation = generation,
                                 wp_presentation_serial = wn_next_serial s\<rparr>;
                 s1 = s\<lparr>wn_buffers := (wn_buffers s)[wp_buffer_index pending := Released, replacement_index := Pending],
                        wn_pending := Some replacement, wn_pending_read := False,
                        wn_release := Some (release_of pending), wn_next_serial := next_serial\<rparr>
             in case notify_window_both alive s1 of (evs, s2) \<Rightarrow> (Inr replacement, evs, s2)))"

definition win_complete ::
  "(observer \<Rightarrow> bool) \<Rightarrow> window_presentation \<Rightarrow> bool \<Rightarrow> window_state \<Rightarrow> unit window_result" where
  "win_complete alive presentation successful s =
     (if wn_pending s \<noteq> Some presentation then (Inl InvalidMessage, [], s)
      else if \<not> successful then (Inr (), [], s)
      else if vec_get (wn_buffers s) (wp_buffer_index presentation) \<noteq> Some Pending then (Inl InvalidMessage, [], s)
      else
        let release =
              (case wn_displayed s of
                 None \<Rightarrow> Inr None
               | Some previous \<Rightarrow>
                   if wn_release s \<noteq> None then Inl ShouldWait
                   else if vec_get (wn_buffers s) (wp_buffer_index previous) \<noteq> Some Displayed then Inl InvalidMessage
                   else Inr (Some previous))
        in case release of
             Inl e \<Rightarrow> (Inl e, [], s)
           | Inr rel \<Rightarrow>
               let s1 = (case rel of
                           None \<Rightarrow> s
                         | Some previous \<Rightarrow> s\<lparr>wn_buffers := (wn_buffers s)[wp_buffer_index previous := Released],
                                              wn_release := Some (release_of previous)\<rparr>);
                   s2 = s1\<lparr>wn_buffers := (wn_buffers s1)[wp_buffer_index presentation := Displayed],
                           wn_pending := None, wn_pending_read := False, wn_displayed := Some presentation\<rparr>
               in case notify_window_both alive s2 of (evs, s3) \<Rightarrow> (Inr (), evs, s3))"

definition win_retire :: "(observer \<Rightarrow> bool) \<Rightarrow> window_state \<Rightarrow> unit window_result" where
  "win_retire alive s =
     (if wn_retired s then (Inr (), [], s)
      else if wn_pending s \<noteq> None \<or> (wn_displayed s \<noteq> None \<and> wn_release s \<noteq> None) then (Inl ShouldWait, [], s)
      else
        let release =
              (case wn_displayed s of
                 None \<Rightarrow> Inr None
               | Some displayed \<Rightarrow>
                   if vec_get (wn_buffers s) (wp_buffer_index displayed) \<noteq> Some Displayed then Inl InvalidMessage
                   else Inr (Some displayed))
        in case release of
             Inl e \<Rightarrow> (Inl e, [], s)
           | Inr rel \<Rightarrow>
               let s1 = (case rel of
                           None \<Rightarrow> s
                         | Some displayed \<Rightarrow> s\<lparr>wn_buffers := (wn_buffers s)[wp_buffer_index displayed := Released],
                                               wn_release := Some (release_of displayed), wn_displayed := None\<rparr>)
               in case notify_window_both alive (s1\<lparr>wn_retired := True\<rparr>) of (evs, s2) \<Rightarrow> (Inr (), evs, s2))"

text \<open>\<^verbatim>\<open>Drop for WindowEndpoint\<close>.\<close>

definition window_endpoint_drop :: "(observer \<Rightarrow> bool) \<Rightarrow> window_role \<Rightarrow> window_state \<Rightarrow> notification list \<times> window_state" where
  "window_endpoint_drop alive role s =
     notify_window_both alive
       (case role of Client \<Rightarrow> s\<lparr>wn_client_open := False\<rparr> | Manager \<Rightarrow> s\<lparr>wn_manager_open := False\<rparr>)"

section \<open>Notification\<close>

lemma window_signals_waiters [simp]:
  "window_signals (s\<lparr>wn_waiters := f\<rparr>) role = window_signals s role"
  by (cases role) (simp_all add: window_signals_def split del: if_split)

interpretation winw: waitable
  "\<lambda>s. window_signals s role" "\<lambda>s. wn_waiters s role" "set_window_waiters role" "\<lambda>alive. notify_window_waiters alive role"
  for role :: window_role
  by unfold_locales (auto simp: set_window_waiters_def notify_window_waiters_def split: prod.splits)

definition window_quiet :: "window_state \<Rightarrow> bool" where
  "window_quiet s \<longleftrightarrow>
     quiet (window_signals s Client) (wn_waiters s Client) \<and> quiet (window_signals s Manager) (wn_waiters s Manager)"

text \<open>Notification touches nothing but the waiters, of which some go.\<close>

lemma notify_window_both_frame:
  assumes "notify_window_both alive s = (evs, s')"
  shows "\<exists>f. s' = s\<lparr>wn_waiters := f\<rparr> \<and> (\<forall>role. length (f role) \<le> length (wn_waiters s role))"
proof -
  obtain e1 w1 e2 w2 where n: "notify_waiters alive (window_signals s Client) (wn_waiters s Client) = (e1, w1)"
    "notify_waiters alive (window_signals s Manager) (wn_waiters s Manager) = (e2, w2)" by fastforce
  then have "s' = s\<lparr>wn_waiters := (wn_waiters s)(Client := w1, Manager := w2)\<rparr>"
    using assms by (auto simp: notify_window_both_def notify_window_waiters_def set_window_waiters_def split: prod.splits)
  moreover have "length w1 \<le> length (wn_waiters s Client)" "length w2 \<le> length (wn_waiters s Manager)"
    using n by (simp_all add: notify_waiters_length)
  ultimately show ?thesis
    by (intro exI [of _ "(wn_waiters s)(Client := w1, Manager := w2)"]) auto
qed

lemma notify_window_both_quiet:
  assumes "notify_window_both alive s = (evs, s')"
  shows "window_quiet s'"
proof -
  obtain e1 s1 e2 where n: "notify_window_waiters alive Client s = (e1, s1)"
    "notify_window_waiters alive Manager s1 = (e2, s')"
    using assms by (auto simp: notify_window_both_def split: prod.splits)
  have "quiet (window_signals s1 Client) (wn_waiters s1 Client)"
    using winw.notify_quiet [where role = Client and alive = alive and s = s] n(1) by simp
  moreover have "window_signals s' Client = window_signals s1 Client" "wn_waiters s' Client = wn_waiters s1 Client"
    using n(2) by (auto simp: notify_window_waiters_def set_window_waiters_def split: prod.splits)
  moreover have "quiet (window_signals s' Manager) (wn_waiters s' Manager)"
    using winw.notify_quiet [where role = Manager and alive = alive and s = s1] n(2) by simp
  ultimately show ?thesis by (simp add: window_quiet_def)
qed

section \<open>Buffer ownership invariant\<close>

text \<open>
  Exactly the buffer of the pending presentation is \<open>Pending\<close>, exactly the displayed one is
  \<open>Displayed\<close>, exactly the one of the unread release is \<open>Released\<close>; all others belong to the
  client. Serials are issued in order, and a retired pool shows nothing.
\<close>

definition buffer_status :: "nat option \<Rightarrow> nat option \<Rightarrow> nat option \<Rightarrow> nat \<Rightarrow> window_buffer_state" where
  "buffer_status p d r i =
     (if p = Some i then Pending else if d = Some i then Displayed else if r = Some i then Released else ClientOwned)"

definition owned :: "window_buffer_state list \<Rightarrow> nat option \<Rightarrow> nat option \<Rightarrow> nat option \<Rightarrow> bool" where
  "owned bs p d r \<longleftrightarrow>
     (\<forall>i < length bs. bs ! i = buffer_status p d r i) \<and>
     (\<forall>i. p = Some i \<longrightarrow> i < length bs \<and> d \<noteq> Some i \<and> r \<noteq> Some i) \<and>
     (\<forall>i. d = Some i \<longrightarrow> i < length bs \<and> r \<noteq> Some i) \<and>
     (\<forall>i. r = Some i \<longrightarrow> i < length bs)"

definition buffers_owned :: "window_state \<Rightarrow> bool" where
  "buffers_owned s \<longleftrightarrow>
     owned (wn_buffers s) (map_option wp_buffer_index (wn_pending s))
       (map_option wp_buffer_index (wn_displayed s)) (map_option wr_buffer_index (wn_release s))"

lemma owned_present:
  "owned bs None d r \<Longrightarrow> i < length bs \<Longrightarrow> bs ! i = ClientOwned \<Longrightarrow> owned (bs[i := Pending]) (Some i) d r"
  by (auto simp: owned_def buffer_status_def nth_list_update split: if_splits)

lemma owned_reclaim: "owned bs p d (Some i) \<Longrightarrow> owned (bs[i := ClientOwned]) p d None"
  by (auto simp: owned_def buffer_status_def nth_list_update split: if_splits)

lemma owned_discard: "owned bs (Some i) d None \<Longrightarrow> owned (bs[i := Released]) None d (Some i)"
  by (auto simp: owned_def buffer_status_def nth_list_update split: if_splits)

lemma owned_display: "owned bs (Some i) None r \<Longrightarrow> owned (bs[i := Displayed]) None (Some i) r"
  by (auto simp: owned_def buffer_status_def nth_list_update split: if_splits)

lemma owned_undisplay: "owned bs p (Some i) None \<Longrightarrow> owned (bs[i := Released]) p None (Some i)"
  by (auto simp: owned_def buffer_status_def nth_list_update split: if_splits)

lemma owned_nth:
  assumes "owned bs p d r"
  shows "p = Some i \<Longrightarrow> i < length bs \<and> bs ! i = Pending"
    "d = Some i \<Longrightarrow> i < length bs \<and> bs ! i = Displayed"
    "r = Some i \<Longrightarrow> i < length bs \<and> bs ! i = Released"
  using assms by (auto simp: owned_def buffer_status_def)

definition serials_ok :: "window_state \<Rightarrow> bool" where
  "serials_ok s \<longleftrightarrow>
     wn_next_serial s \<le> u64_max \<and>
     pred_option (\<lambda>p. wp_generation p = wn_generation s \<and> wp_presentation_serial p < wn_next_serial s \<and>
        pred_option (\<lambda>d. wp_presentation_serial d < wp_presentation_serial p) (wn_displayed s) \<and>
        pred_option (\<lambda>r. wr_presentation_serial r < wp_presentation_serial p) (wn_release s)) (wn_pending s) \<and>
     pred_option (\<lambda>d. wp_generation d = wn_generation s \<and> wp_presentation_serial d < wn_next_serial s) (wn_displayed s) \<and>
     pred_option (\<lambda>r. wr_generation r = wn_generation s \<and> wr_presentation_serial r < wn_next_serial s) (wn_release s)"

definition window_wf :: "window_state \<Rightarrow> bool" where
  "window_wf s \<longleftrightarrow> buffers_owned s \<and> serials_ok s \<and>
     (wn_retired s \<longrightarrow> wn_pending s = None \<and> wn_displayed s = None) \<and>
     (\<forall>role. length (wn_waiters s role) \<le> WAITERS_PER_FACET_LIMIT)"

lemma window_wf_notify:
  assumes "notify_window_both alive s = (evs, s')" "window_wf s"
  shows "window_wf s'"
proof -
  obtain f where f: "s' = s\<lparr>wn_waiters := f\<rparr>" "\<forall>role. length (f role) \<le> length (wn_waiters s role)"
    using notify_window_both_frame [OF assms(1)] by blast
  then have "\<forall>role. length (f role) \<le> WAITERS_PER_FACET_LIMIT"
    using assms(2) unfolding window_wf_def by (meson order_trans)
  then show ?thesis
    using assms(2) by (simp add: f(1) window_wf_def buffers_owned_def serials_ok_def)
qed

lemma window_state_new_wf: "window_wf (window_state_new m len gen n)" "window_quiet (window_state_new m len gen n)"
  by (auto simp: window_state_new_def window_wf_def buffers_owned_def owned_def buffer_status_def serials_ok_def window_quiet_def u64_max_def)

lemma win_present_wf:
  assumes "win_present alive i g s = (r, evs, s')" "window_wf s"
  shows "window_wf s'"
proof (cases r)
  case (Inr p)
  let ?s1 = "s\<lparr>wn_next_serial := wn_next_serial s + 1, wn_buffers := (wn_buffers s)[i := Pending],
     wn_pending := Some \<lparr>wp_buffer_index = i, wp_generation = g, wp_presentation_serial = wn_next_serial s\<rparr>,
     wn_pending_read := False\<rparr>"
  from assms(1) Inr have c: "wn_release s = None" "wn_pending s = None" "\<not> wn_retired s" "g = wn_generation s"
    "i < length (wn_buffers s)" "wn_buffers s ! i = ClientOwned" "wn_next_serial s + 1 \<le> u64_max"
    and n: "notify_window_both alive ?s1 = (evs, s')"
    by (auto simp: win_present_def Let_def split: if_splits option.splits prod.splits)
  have "window_wf ?s1"
    using assms(2) c by (auto simp: window_wf_def buffers_owned_def serials_ok_def owned_present option.pred_set)
  then show ?thesis by (rule window_wf_notify [OF n])
qed (use assms in \<open>auto simp: win_present_def Let_def split: if_splits option.splits prod.splits\<close>)

lemma win_read_release_wf:
  assumes "win_read_release alive s = (r, evs, s')" "window_wf s"
  shows "window_wf s'"
proof (cases r)
  case (Inr rel)
  let ?s1 = "s\<lparr>wn_release := None, wn_buffers := (wn_buffers s)[wr_buffer_index rel := ClientOwned]\<rparr>"
  from assms(1) Inr have c: "wn_release s = Some rel"
    and n: "notify_window_both alive ?s1 = (evs, s')"
    by (auto simp: win_read_release_def Let_def split: if_splits option.splits prod.splits)
  have "window_wf ?s1"
    using assms(2) c by (auto simp: window_wf_def buffers_owned_def serials_ok_def owned_reclaim option.pred_set)
  then show ?thesis by (rule window_wf_notify [OF n])
qed (use assms in \<open>auto simp: win_read_release_def Let_def split: if_splits option.splits prod.splits\<close>)

lemma win_discard_pending_wf:
  assumes "win_discard_pending alive p s = (r, evs, s')" "window_wf s"
  shows "window_wf s'"
proof (cases r)
  case (Inr u)
  let ?s1 = "s\<lparr>wn_buffers := (wn_buffers s)[wp_buffer_index p := Released], wn_pending := None,
     wn_release := Some (release_of p)\<rparr>"
  from assms(1) Inr have c: "wn_pending s = Some p" "wn_release s = None"
    and n: "notify_window_both alive ?s1 = (evs, s')"
    by (auto simp: win_discard_pending_def Let_def split: if_splits option.splits prod.splits)
  have "window_wf ?s1"
    using assms(2) c by (auto simp: window_wf_def buffers_owned_def serials_ok_def owned_discard option.pred_set release_of_def)
  then show ?thesis by (rule window_wf_notify [OF n])
qed (use assms in \<open>auto simp: win_discard_pending_def Let_def split: if_splits option.splits prod.splits\<close>)

lemma win_coalesce_pending_wf:
  assumes "win_coalesce_pending alive p i g s = (r, evs, s')" "window_wf s"
  shows "window_wf s'"
proof (cases r)
  case (Inr p')
  let ?b1 = "(wn_buffers s)[wp_buffer_index p := Released]"
  let ?s1 = "s\<lparr>wn_buffers := ?b1[i := Pending],
     wn_pending := Some \<lparr>wp_buffer_index = i, wp_generation = g, wp_presentation_serial = wn_next_serial s\<rparr>,
     wn_pending_read := False, wn_release := Some (release_of p), wn_next_serial := wn_next_serial s + 1\<rparr>"
  from assms(1) Inr have c: "wn_pending s = Some p" "wn_release s = None" "\<not> wn_retired s" "g = wn_generation s"
    "wn_buffers s ! wp_buffer_index p = Pending"
    "i < length (wn_buffers s)" "wn_buffers s ! i = ClientOwned" "wn_next_serial s + 1 \<le> u64_max"
    and n: "notify_window_both alive ?s1 = (evs, s')"
    by (auto simp: win_coalesce_pending_def Let_def split: if_splits option.splits prod.splits)
  have "wp_buffer_index p \<noteq> i" using c(5,7) by auto
  then have "?b1 ! i = ClientOwned" using c(7) by simp
  moreover have "owned ?b1 None (map_option wp_buffer_index (wn_displayed s)) (Some (wp_buffer_index p))"
    using assms(2) c(1,2) by (auto simp: window_wf_def buffers_owned_def owned_discard)
  ultimately have "buffers_owned ?s1"
    using c(6) by (simp add: buffers_owned_def release_of_def owned_present)
  then have "window_wf ?s1"
    using assms(2) c by (auto simp: window_wf_def serials_ok_def option.pred_set release_of_def)
  then show ?thesis by (rule window_wf_notify [OF n])
qed (use assms in \<open>auto simp: win_coalesce_pending_def Let_def split: if_splits option.splits prod.splits\<close>)

lemma win_complete_wf:
  assumes "win_complete alive p ok s = (r, evs, s')" "window_wf s"
  shows "window_wf s'"
proof (cases "ok \<and> r = Inr ()")
  case True
  define s1 where "s1 = (case wn_displayed s of None \<Rightarrow> s
      | Some d \<Rightarrow> s\<lparr>wn_buffers := (wn_buffers s)[wp_buffer_index d := Released], wn_release := Some (release_of d)\<rparr>)"
  let ?s2 = "s1\<lparr>wn_buffers := (wn_buffers s1)[wp_buffer_index p := Displayed], wn_pending := None,
     wn_pending_read := False, wn_displayed := Some p\<rparr>"
  from assms(1) True have c: "wn_pending s = Some p" "wn_displayed s \<noteq> None \<longrightarrow> wn_release s = None"
    and n: "notify_window_both alive ?s2 = (evs, s')"
    by (auto simp: win_complete_def s1_def Let_def split: if_splits option.splits prod.splits)
  have "owned (wn_buffers s1) (Some (wp_buffer_index p)) None (map_option wr_buffer_index (wn_release s1))"
    using assms(2) c
    by (cases "wn_displayed s") (auto simp: s1_def window_wf_def buffers_owned_def release_of_def owned_undisplay)
  then have "buffers_owned ?s2" by (simp add: buffers_owned_def owned_display)
  moreover have "serials_ok ?s2"
    using assms(2) c
    by (cases "wn_displayed s") (auto simp: s1_def window_wf_def serials_ok_def release_of_def option.pred_set)
  ultimately have "window_wf ?s2"
    using assms(2) c by (cases "wn_displayed s") (auto simp: s1_def window_wf_def)
  then show ?thesis by (rule window_wf_notify [OF n])
qed (use assms in \<open>auto simp: win_complete_def Let_def split: if_splits option.splits prod.splits sum.splits\<close>)

lemma win_retire_wf:
  assumes "win_retire alive s = (r, evs, s')" "window_wf s"
  shows "window_wf s'"
proof (cases "\<not> wn_retired s \<and> r = Inr ()")
  case True
  define s1 where "s1 = (case wn_displayed s of None \<Rightarrow> s
      | Some d \<Rightarrow> s\<lparr>wn_buffers := (wn_buffers s)[wp_buffer_index d := Released], wn_release := Some (release_of d),
                    wn_displayed := None\<rparr>)"
  let ?s2 = "s1\<lparr>wn_retired := True\<rparr>"
  from assms(1) True have c: "wn_pending s = None" "wn_displayed s \<noteq> None \<longrightarrow> wn_release s = None"
    and n: "notify_window_both alive ?s2 = (evs, s')"
    by (auto simp: win_retire_def s1_def Let_def split: if_splits option.splits prod.splits)
  have "buffers_owned ?s2"
    using assms(2) c
    by (cases "wn_displayed s") (auto simp: s1_def window_wf_def buffers_owned_def release_of_def owned_undisplay)
  moreover have "serials_ok ?s2"
    using assms(2) c
    by (cases "wn_displayed s") (auto simp: s1_def window_wf_def serials_ok_def release_of_def option.pred_set)
  ultimately have "window_wf ?s2"
    using assms(2) c by (cases "wn_displayed s") (auto simp: s1_def window_wf_def)
  then show ?thesis by (rule window_wf_notify [OF n])
qed (use assms in \<open>auto simp: win_retire_def Let_def split: if_splits option.splits prod.splits sum.splits\<close>)

lemma window_endpoint_drop_wf:
  assumes "window_endpoint_drop alive role s = (evs, s')" "window_wf s"
  shows "window_wf s'" "window_quiet s'"
proof -
  show "window_wf s'"
    by (rule window_wf_notify [OF assms(1) [unfolded window_endpoint_drop_def]])
      (use assms(2) in \<open>auto simp: window_wf_def buffers_owned_def serials_ok_def split: window_role.splits\<close>)
  show "window_quiet s'"
    by (rule notify_window_both_quiet [OF assms(1) [unfolded window_endpoint_drop_def]])
qed

section \<open>Reachable window states\<close>

text \<open>One step of a window: any operation by either endpoint, or a wait registered or cancelled.\<close>

inductive window_step :: "window_state \<Rightarrow> window_state \<Rightarrow> bool" where
  present: "win_present alive i g s = (r, evs, s') \<Longrightarrow> window_step s s'"
| read_release: "win_read_release alive s = (r', evs, s') \<Longrightarrow> window_step s s'"
| copy_pending: "wn_pending s = Some p \<Longrightarrow> s' = s\<lparr>wn_pending_read := True\<rparr> \<Longrightarrow> window_step s s'"
| discard: "win_discard_pending alive p s = (u, evs, s') \<Longrightarrow> window_step s s'"
| coalesce: "win_coalesce_pending alive p i g s = (r, evs, s') \<Longrightarrow> window_step s s'"
| complete: "win_complete alive p ok s = (u, evs, s') \<Longrightarrow> window_step s s'"
| retire: "win_retire alive s = (u, evs, s') \<Longrightarrow> window_step s s'"
| drop_endpoint: "window_endpoint_drop alive role s = (evs, s') \<Longrightarrow> window_step s s'"
| register: "facet_register al (window_signals s role) (wn_waiters s role) token wait_for obs = (b, ws) \<Longrightarrow>
    s' = set_window_waiters role ws s \<Longrightarrow> window_step s s'"
| unregister: "s' = set_window_waiters role (facet_unregister token (wn_waiters s role)) s \<Longrightarrow> window_step s s'"

lemma window_step_wf:
  assumes "window_step s s'" "window_wf s"
  shows "window_wf s'"
  using assms
proof (induction rule: window_step.induct)
  case (copy_pending s p s')
  then show ?case by (auto simp: window_wf_def buffers_owned_def serials_ok_def)
next
  case (register al s role token wait_for obs b ws s')
  then have "length ws \<le> WAITERS_PER_FACET_LIMIT"
    by (intro facet_register_limit [OF _ register(1)]) (simp add: window_wf_def)
  with register show ?case
    by (auto simp: window_wf_def buffers_owned_def serials_ok_def set_window_waiters_def)
next
  case (unregister s' role token s)
  have "length (facet_unregister token (wn_waiters s role)) \<le> length (wn_waiters s role)"
    by (simp add: facet_unregister_def)
  also have "\<dots> \<le> WAITERS_PER_FACET_LIMIT" using unregister by (simp add: window_wf_def)
  finally show ?case
    using unregister by (auto simp: window_wf_def buffers_owned_def serials_ok_def set_window_waiters_def)
qed (auto dest: win_present_wf win_read_release_wf win_discard_pending_wf win_coalesce_pending_wf
      win_complete_wf win_retire_wf window_endpoint_drop_wf)

lemma window_step_quiet:
  assumes "window_step s s'" "window_quiet s"
  shows "window_quiet s'"
  using assms
proof (induction rule: window_step.induct)
  case (copy_pending s p s')
  then have "window_signals s' role = window_signals s role" for role
    by (cases role) (simp_all add: window_signals_def split del: if_split)
  with copy_pending show ?case by (simp add: window_quiet_def)
next
  case (register al s role token wait_for obs b ws s')
  then have "quiet (window_signals s role) ws"
    by (intro facet_register_quiet [OF _ register(1)]) (cases role; simp add: window_quiet_def)
  with register show ?case
    by (cases role) (simp_all add: window_quiet_def set_window_waiters_def)
next
  case (unregister s' role token s)
  then show ?case
    by (cases role) (simp_all add: window_quiet_def set_window_waiters_def quiet_unregister)
qed (auto simp: win_present_def win_read_release_def win_discard_pending_def win_coalesce_pending_def
      win_complete_def win_retire_def window_endpoint_drop_def Let_def notify_window_both_quiet
      split: if_splits option.splits prod.splits sum.splits)

lemma window_steps_inv:
  assumes "window_step\<^sup>*\<^sup>* s s'" "window_wf s" "window_quiet s"
  shows "window_wf s'" "window_quiet s'"
  using assms by (induction rule: rtranclp_induct) (auto dest: window_step_wf window_step_quiet)

lemma notify_window_both_buffers:
  "notify_window_both alive s = (evs, s') \<Longrightarrow> length (wn_buffers s') = length (wn_buffers s)"
  by (auto dest!: notify_window_both_frame)

lemma window_step_length:
  assumes "window_step s s'"
  shows "length (wn_buffers s') = length (wn_buffers s)"
  using assms
  by (induction rule: window_step.induct)
    (auto simp: win_present_def win_read_release_def win_discard_pending_def win_coalesce_pending_def
      win_complete_def win_retire_def window_endpoint_drop_def set_window_waiters_def Let_def
      dest!: notify_window_both_buffers
      split: if_splits option.splits prod.splits sum.splits window_role.splits)

lemma window_steps_length:
  "window_step\<^sup>*\<^sup>* s s' \<Longrightarrow> length (wn_buffers s') = length (wn_buffers s)"
  by (induction rule: rtranclp_induct) (auto dest: window_step_length)

section \<open>Properties\<close>

text \<open>C33: buffer ownership of a window. In every state a window pool can reach through any
  interleaving of client and manager operations, endpoint closes and waits, exactly the pending
  buffer is marked pending, exactly the displayed one displayed, exactly the one of the unread
  release released and every other one client-owned; the three are different buffers; and a
  presentation is newer than what is displayed.\<close>

theorem window_buffer_ownership:
  assumes "window_step\<^sup>*\<^sup>* (window_state_new m len gen n) s"
  shows "let p = map_option wp_buffer_index (wn_pending s);
             d = map_option wp_buffer_index (wn_displayed s);
             r = map_option wr_buffer_index (wn_release s)
         in length (wn_buffers s) = n \<and>
            (\<forall>i < n. wn_buffers s ! i =
               (if p = Some i then Pending else if d = Some i then Displayed
                else if r = Some i then Released else ClientOwned)) \<and>
            (\<forall>i. p = Some i \<longrightarrow> i < n \<and> d \<noteq> Some i \<and> r \<noteq> Some i) \<and>
            (\<forall>i. d = Some i \<longrightarrow> i < n \<and> r \<noteq> Some i) \<and>
            (\<forall>i. r = Some i \<longrightarrow> i < n) \<and>
            (\<forall>p d. wn_pending s = Some p \<and> wn_displayed s = Some d \<longrightarrow>
               wp_presentation_serial d < wp_presentation_serial p)"
proof -
  have w: "window_wf s" by (rule window_steps_inv(1) [OF assms window_state_new_wf])
  have l: "length (wn_buffers s) = n"
    using window_steps_length [OF assms] by (simp add: window_state_new_def)
  have "owned (wn_buffers s) (map_option wp_buffer_index (wn_pending s))
     (map_option wp_buffer_index (wn_displayed s)) (map_option wr_buffer_index (wn_release s))"
    using w by (simp add: window_wf_def buffers_owned_def)
  moreover have "\<forall>p d. wn_pending s = Some p \<and> wn_displayed s = Some d \<longrightarrow>
           wp_presentation_serial d < wp_presentation_serial p"
    using w by (auto simp: window_wf_def serials_ok_def)
  ultimately show ?thesis
    unfolding owned_def buffer_status_def l Let_def by (elim conjE, intro conjI refl) assumption+
qed

text \<open>A two-buffer pool after the client presented buffer 1.\<close>

definition sample_window :: window_state where
  "sample_window = snd (snd (win_present (\<lambda>_. True) 1 1 (window_state_new 0 4096 1 2)))"

lemma sample_window_reachable: "window_step\<^sup>*\<^sup>* (window_state_new 0 4096 1 2) sample_window"
proof (rule r_into_rtranclp)
  show "window_step (window_state_new 0 4096 1 2) sample_window"
    unfolding sample_window_def
    by (cases "win_present (\<lambda>_. True) 1 1 (window_state_new 0 4096 1 2)") (auto intro: window_step.present)
qed

lemma sample_window_pending:
  "wn_pending sample_window = Some \<lparr>wp_buffer_index = 1, wp_generation = 1, wp_presentation_serial = 1\<rparr>"
  "wn_displayed sample_window = None"
  by (simp_all add: sample_window_def win_present_def window_state_new_def notify_window_both_def
      notify_window_waiters_def set_window_waiters_def checked_add_def u64_max_def vec_get_def Let_def)

theorem window_buffer_ownership_witness:
  "length (wn_buffers sample_window) = 2 \<and> wn_buffers sample_window ! 1 = Pending"
  using window_buffer_ownership [OF sample_window_reachable]
  by (simp add: sample_window_pending Let_def)

text \<open>C34: the manager can always finish the frame it was given. In every reachable state,
  completing the exact pending presentation succeeds and displays it, unless a buffer is displayed
  while the client has not read its last release; the buffer shown before is then the unread
  release, and the ownership checks of the code never fail.\<close>

theorem window_manager_progress:
  assumes "window_step\<^sup>*\<^sup>* (window_state_new m len gen n) s" "wn_pending s = Some p"
    and "win_complete alive p True s = (res, evs, s')"
  shows "if wn_displayed s \<noteq> None \<and> wn_release s \<noteq> None then res = Inl ShouldWait \<and> s' = s
    else res = Inr () \<and> wn_displayed s' = Some p \<and> wn_pending s' = None \<and>
         wn_release s' = (case wn_displayed s of None \<Rightarrow> wn_release s | Some d \<Rightarrow> Some (release_of d))"
proof -
  have "owned (wn_buffers s) (map_option wp_buffer_index (wn_pending s))
       (map_option wp_buffer_index (wn_displayed s)) (map_option wr_buffer_index (wn_release s))"
    using window_steps_inv(1) [OF assms(1) window_state_new_wf] by (simp add: window_wf_def buffers_owned_def)
  note O = owned_nth [OF this]
  show ?thesis
  proof (cases "wn_displayed s")
    case None
    then show ?thesis
      using assms(2,3) O(1) [of "wp_buffer_index p"]
      by (auto simp: win_complete_def Let_def split: prod.splits dest!: notify_window_both_frame)
  next
    case (Some d)
    then show ?thesis
      using assms(2,3) O(1) [of "wp_buffer_index p"] O(2) [of "wp_buffer_index d"]
      by (auto simp: win_complete_def Let_def split: prod.splits if_splits dest!: notify_window_both_frame)
  qed
qed

theorem window_manager_progress_witness:
  "wn_displayed (snd (snd (win_complete (\<lambda>_. True)
      \<lparr>wp_buffer_index = 1, wp_generation = 1, wp_presentation_serial = 1\<rparr> True sample_window)))
    = Some \<lparr>wp_buffer_index = 1, wp_generation = 1, wp_presentation_serial = 1\<rparr>"
proof -
  obtain res evs s' where c: "win_complete (\<lambda>_. True)
      \<lparr>wp_buffer_index = 1, wp_generation = 1, wp_presentation_serial = 1\<rparr> True sample_window = (res, evs, s')"
    by (rule prod_cases3)
  then show ?thesis
    using window_manager_progress [OF sample_window_reachable sample_window_pending(1) c]
    by (simp add: sample_window_pending)
qed

text \<open>No lost wakeup on a window. In every reachable state no registered waiter of either role
  waits for a signal that is already up; so a waiter is either notified or its condition is false.\<close>

lemma window_no_lost_wakeup:
  assumes "window_step\<^sup>*\<^sup>* (window_state_new m len gen n) s" "w \<in> set (wn_waiters s role)"
  shows "\<not> intersects (window_signals s role) (sw_wait_for w)"
  using window_steps_inv(2) [OF assms(1) window_state_new_wf] assms(2)
  by (cases role) (auto simp: window_quiet_def quiet_def)

end
