(* ===== verification/Control_Objects.thy ===== *)
theory Control_Objects
  imports Signal_Waiters
begin

text \<open>
  The control states behind process, request, system-power and scheduling-authority handles
  (\<^verbatim>\<open>ProcessControl\<close>, \<^verbatim>\<open>RequestControl\<close>, \<^verbatim>\<open>SystemPowerControl\<close>,
  \<^verbatim>\<open>SchedulingAuthorityControl\<close> of \<^verbatim>\<open>crates/ginkgo-ipc/src/kernel.rs\<close>). Each method
  is a function on the state behind the lock; the clones of a control share that state. Snapshots
  store enumerations as raw 32-bit values, as the ABI structs do; \<^verbatim>\<open>u64\<close> fields are natural
  numbers with the wrapping or saturating operation of the source written out.
\<close>

section \<open>Processes\<close>

record process_info =
  pi_state :: u32
  pi_cause :: u32
  pi_exit_code :: int
  pi_fault :: u32
  pi_fault_code :: nat
  pi_fault_address :: nat

record process_control_state =
  pc_info :: process_info
  pc_terminate_requested :: bool
  pc_termination_observer :: "(wait_token \<times> observer) option"
  pc_waiters :: "signal_waiter list"

definition ProcessControl_new :: process_control_state where
  "ProcessControl_new =
     \<lparr>pc_info = \<lparr>pi_state = process_state_raw Proc_Running, pi_cause = process_termination_cause_raw Cause_None,
                  pi_exit_code = 0, pi_fault = process_fault_raw Fault_None, pi_fault_code = 0, pi_fault_address = 0\<rparr>,
      pc_terminate_requested = False, pc_termination_observer = None, pc_waiters = []\<rparr>"

definition process_signals :: "process_control_state \<Rightarrow> signals" where
  "process_signals s = (if pi_state (pc_info s) = process_state_raw Proc_Terminated then S_TERMINATED else 0)"

definition notify_process_waiters ::
  "(observer \<Rightarrow> bool) \<Rightarrow> process_control_state \<Rightarrow> notification list \<times> process_control_state" where
  "notify_process_waiters alive s =
     (case notify_waiters alive (process_signals s) (pc_waiters s) of (evs, ws) \<Rightarrow> (evs, s\<lparr>pc_waiters := ws\<rparr>))"

definition register_termination_observer ::
  "wait_token \<Rightarrow> observer \<Rightarrow> process_control_state \<Rightarrow> unit ipc \<times> process_control_state" where
  "register_termination_observer token obs s =
     (if pc_termination_observer s \<noteq> None then (Inl AlreadyExists, s)
      else (Inr (), s\<lparr>pc_termination_observer := Some (token, obs)\<rparr>))"

definition mark_terminal ::
  "(observer \<Rightarrow> bool) \<Rightarrow> process_info \<Rightarrow> process_control_state \<Rightarrow> bool \<times> notification list \<times> process_control_state" where
  "mark_terminal alive info s =
     (if pi_state (pc_info s) = process_state_raw Proc_Terminated then (False, [], s)
      else case notify_process_waiters alive (s\<lparr>pc_info := info\<rparr>) of (evs, s') \<Rightarrow> (True, evs, s'))"

definition mark_exited where
  "mark_exited alive exit_code s =
     mark_terminal alive
       \<lparr>pi_state = process_state_raw Proc_Terminated, pi_cause = process_termination_cause_raw Cause_Exited,
        pi_exit_code = exit_code, pi_fault = process_fault_raw Fault_None, pi_fault_code = 0, pi_fault_address = 0\<rparr> s"

definition mark_faulted where
  "mark_faulted alive fault fault_code fault_address s =
     (if fault = Fault_None then (False, [], s)
      else
        mark_terminal alive
          \<lparr>pi_state = process_state_raw Proc_Terminated, pi_cause = process_termination_cause_raw Cause_Faulted,
           pi_exit_code = 0, pi_fault = process_fault_raw fault, pi_fault_code = fault_code,
           pi_fault_address = fault_address\<rparr> s)"

definition mark_terminated where
  "mark_terminated alive s =
     mark_terminal alive
       \<lparr>pi_state = process_state_raw Proc_Terminated, pi_cause = process_termination_cause_raw Cause_Terminated,
        pi_exit_code = 0, pi_fault = process_fault_raw Fault_None, pi_fault_code = 0, pi_fault_address = 0\<rparr> s"

definition request_terminate ::
  "(observer \<Rightarrow> bool) \<Rightarrow> process_control_state \<Rightarrow> bool \<times> notification list \<times> process_control_state" where
  "request_terminate alive s =
     (if pi_state (pc_info s) = process_state_raw Proc_Terminated \<or> pc_terminate_requested s then (False, [], s)
      else
        (True,
         (case pc_termination_observer s of
            Some (token, obs) \<Rightarrow> (if alive obs then [(obs, token)] else [])
          | None \<Rightarrow> []),
         s\<lparr>pc_terminate_requested := True\<rparr>))"

section \<open>Requests\<close>

record request_info =
  ri_version :: u32
  ri_size :: u32
  ri_state :: u32
  ri_operation :: u32
  ri_request_flags :: u32
  ri_result_flags :: u32
  ri_result :: int
  ri_reserved :: u32
  ri_bytes_transferred :: nat
  ri_deadline_ns :: int
  ri_submitted_ns :: nat
  ri_started_ns :: nat
  ri_completed_ns :: nat
  ri_user_data :: nat

record request_control_state =
  rc_request_id :: nat
  rc_info :: request_info
  rc_cancel_requested :: bool
  rc_waiters :: "signal_waiter list"

definition request_state_of :: "request_info \<Rightarrow> request_state option" where
  "request_state_of info = request_state_from_raw (ri_state info)"

definition request_state_is_nonterminal :: "request_state option \<Rightarrow> bool" where
  "request_state_is_nonterminal st \<longleftrightarrow>
     (case st of
        Some Req_Pending \<Rightarrow> True | Some Req_Active \<Rightarrow> True | Some Req_CancelPending \<Rightarrow> True
      | Some Req_Completing \<Rightarrow> True | _ \<Rightarrow> False)"

definition request_state_is_terminal :: "request_state option \<Rightarrow> bool" where
  "request_state_is_terminal st \<longleftrightarrow>
     (case st of
        Some Req_Completed \<Rightarrow> True | Some Req_TimedOut \<Rightarrow> True | Some Req_Canceled \<Rightarrow> True
      | Some Req_Failed \<Rightarrow> True | Some Req_OwnerTerminated \<Rightarrow> True | _ \<Rightarrow> False)"

definition request_signals :: "request_control_state \<Rightarrow> signals" where
  "request_signals s = (if request_state_is_terminal (request_state_of (rc_info s)) then S_SIGNALED else 0)"

definition notify_request_waiters ::
  "(observer \<Rightarrow> bool) \<Rightarrow> request_control_state \<Rightarrow> notification list \<times> request_control_state" where
  "notify_request_waiters alive s =
     (case notify_waiters alive (request_signals s) (rc_waiters s) of (evs, ws) \<Rightarrow> (evs, s\<lparr>rc_waiters := ws\<rparr>))"

definition RequestControl_new :: "allocs \<Rightarrow> nat \<Rightarrow> request_info \<Rightarrow> request_control_state ipc" where
  "RequestControl_new al request_id info =
     (if request_id = 0 \<or> \<not> request_state_is_nonterminal (request_state_of info) then Inl InvalidMessage
      else if \<not> al 0 then Inl OutOfMemory
      else Inr \<lparr>rc_request_id = request_id, rc_info = info, rc_cancel_requested = False, rc_waiters = []\<rparr>)"

definition request_cancellation :: "request_control_state \<Rightarrow> bool \<times> request_control_state" where
  "request_cancellation s =
     (if request_state_is_terminal (request_state_of (rc_info s)) then (False, s)
      else (True, s\<lparr>rc_cancel_requested := True\<rparr>))"

definition publish_terminal ::
  "(observer \<Rightarrow> bool) \<Rightarrow> request_info \<Rightarrow> request_control_state \<Rightarrow> bool \<times> notification list \<times> request_control_state" where
  "publish_terminal alive info s =
     (if \<not> request_state_is_terminal (request_state_of info) then (False, [], s)
      else if request_state_is_terminal (request_state_of (rc_info s)) then (False, [], s)
      else case notify_request_waiters alive (s\<lparr>rc_info := info\<rparr>) of (evs, s') \<Rightarrow> (True, evs, s'))"

section \<open>System power\<close>

record system_power_info =
  sp_state :: u32
  sp_action :: u32
  sp_flags :: u32
  sp_failure_status :: int
  sp_sequence :: nat
  sp_deadline_ns :: nat

definition SystemPowerInfo_default :: system_power_info where
  "SystemPowerInfo_default =
     \<lparr>sp_state = 0, sp_action = 0, sp_flags = 0, sp_failure_status = 0, sp_sequence = 0, sp_deadline_ns = 0\<rparr>"

definition power_state :: "system_power_info \<Rightarrow> system_power_state option" where
  "power_state info = system_power_state_from_raw (sp_state info)"

definition power_request ::
  "system_power_action \<Rightarrow> u32 \<Rightarrow> nat \<Rightarrow> system_power_info \<Rightarrow> unit ipc \<times> system_power_info" where
  "power_request action flags deadline_ns info =
     (if \<not> contains SYSTEM_POWER_FLAGS_ALL flags then (Inl InvalidMessage, info)
      else if power_state info \<in> {Some Power_Idle, Some Power_Canceled, Some Power_Failed} then
        (Inr (), info\<lparr>sp_state := system_power_state_raw Power_Requested,
                       sp_action := system_power_action_raw action, sp_flags := flags,
                       sp_failure_status := 0, sp_sequence := (sp_sequence info + 1) mod 2 ^ 64,
                       sp_deadline_ns := deadline_ns\<rparr>)
      else (Inl AlreadyExists, info))"

definition power_cancel :: "system_power_info \<Rightarrow> unit ipc \<times> system_power_info" where
  "power_cancel info =
     (if power_state info \<noteq> Some Power_Requested then (Inl AccessDenied, info)
      else (Inr (), info\<lparr>sp_state := system_power_state_raw Power_Canceled, sp_deadline_ns := 0\<rparr>))"

definition power_transition ::
  "system_power_state \<Rightarrow> system_power_state \<Rightarrow> nat \<Rightarrow> system_power_info \<Rightarrow> bool \<times> system_power_info" where
  "power_transition expected next_state deadline_ns info =
     (if power_state info \<noteq> Some expected then (False, info)
      else (True, info\<lparr>sp_state := system_power_state_raw next_state, sp_deadline_ns := deadline_ns\<rparr>))"

definition begin_quiescing where
  "begin_quiescing deadline_ns = power_transition Power_Requested Power_Quiescing deadline_ns"

definition begin_synchronizing where
  "begin_synchronizing = power_transition Power_Quiescing Power_Synchronizing 0"

definition begin_committing where
  "begin_committing deadline_ns = power_transition Power_Synchronizing Power_Committing deadline_ns"

definition power_fail :: "status \<Rightarrow> system_power_info \<Rightarrow> system_power_info" where
  "power_fail st info =
     info\<lparr>sp_state := system_power_state_raw Power_Failed, sp_failure_status := status_raw st, sp_deadline_ns := 0\<rparr>"

section \<open>Scheduling authority\<close>

record scheduling_authority_state =
  sa_maximum_class :: thread_scheduling_class
  sa_active :: bool
  sa_generation :: nat

definition SchedulingAuthority_new ::
  "allocs \<Rightarrow> thread_scheduling_class \<Rightarrow> bool \<Rightarrow> scheduling_authority_state ipc" where
  "SchedulingAuthority_new al maximum_class active =
     (if maximum_class \<notin> {Class_Audio, Class_Interactive} then Inl InvalidMessage
      else if \<not> al 0 then Inl OutOfMemory
      else Inr \<lparr>sa_maximum_class = maximum_class, sa_active = active, sa_generation = 1\<rparr>)"

definition authority_activate :: "scheduling_authority_state \<Rightarrow> scheduling_authority_state" where
  "authority_activate s =
     (if \<not> sa_active s then s\<lparr>sa_active := True, sa_generation := saturating_add (sa_generation s) 1\<rparr> else s)"

definition authority_revoke :: "scheduling_authority_state \<Rightarrow> scheduling_authority_state" where
  "authority_revoke s =
     (if sa_active s then s\<lparr>sa_active := False, sa_generation := saturating_add (sa_generation s) 1\<rparr> else s)"

definition authority_authorize :: "thread_scheduling_class \<Rightarrow> scheduling_authority_state \<Rightarrow> unit ipc" where
  "authority_authorize requested s =
     (if \<not> sa_active s then Inl AccessDenied
      else if (case sa_maximum_class s of
                 Class_Audio \<Rightarrow> requested \<in> {Class_Audio, Class_Interactive}
               | Class_Interactive \<Rightarrow> requested = Class_Interactive
               | Class_Critical \<Rightarrow> False
               | Class_Normal \<Rightarrow> False
               | Class_Background \<Rightarrow> False)
      then Inr () else Inl AccessDenied)"

text \<open>\<^verbatim>\<open>SchedulingAuthorityLease::authorizes\<close>; a lease is the control state's generation when it was taken.\<close>

definition lease_authorizes :: "nat \<Rightarrow> thread_scheduling_class \<Rightarrow> scheduling_authority_state \<Rightarrow> bool" where
  "lease_authorizes lease_generation requested s \<longleftrightarrow>
     sa_generation s = lease_generation \<and> authority_authorize requested s = Inr ()"

section \<open>Waitable facets\<close>

lemma process_signals_waiters [simp]: "process_signals (s\<lparr>pc_waiters := ws\<rparr>) = process_signals s"
  by (simp add: process_signals_def)

lemma request_signals_waiters [simp]: "request_signals (s\<lparr>rc_waiters := ws\<rparr>) = request_signals s"
  by (simp add: request_signals_def)

interpretation procw: waitable process_signals pc_waiters "\<lambda>ws s. s\<lparr>pc_waiters := ws\<rparr>" notify_process_waiters
  by unfold_locales (simp_all add: notify_process_waiters_def)

interpretation reqw: waitable request_signals rc_waiters "\<lambda>ws s. s\<lparr>rc_waiters := ws\<rparr>" notify_request_waiters
  by unfold_locales (simp_all add: notify_request_waiters_def)

section \<open>Interface: an object with one final outcome\<close>

text \<open>
  A final state stays final with the same outcome whatever step follows, and every step keeps the
  waiters quiet. Then the first outcome is the only one, and a waiter left on a final object does
  not wait for the signal that announced it.
\<close>

locale one_outcome =
  fixes final :: "'s \<Rightarrow> bool"
    and outcome :: "'s \<Rightarrow> 'i"
    and calm :: "'s \<Rightarrow> bool"
    and step :: "'s \<Rightarrow> 's \<Rightarrow> bool"
  assumes final_step: "final s \<Longrightarrow> step s s' \<Longrightarrow> final s' \<and> outcome s' = outcome s"
    and calm_step: "calm s \<Longrightarrow> step s s' \<Longrightarrow> calm s'"
begin

lemma outcome_stable: "step\<^sup>*\<^sup>* s s' \<Longrightarrow> final s \<Longrightarrow> final s' \<and> outcome s' = outcome s"
  by (induction rule: rtranclp_induct) (auto dest: final_step)

lemma calm_steps: "step\<^sup>*\<^sup>* s s' \<Longrightarrow> calm s \<Longrightarrow> calm s'"
  by (induction rule: rtranclp_induct) (auto dest: calm_step)

end

section \<open>Process outcomes\<close>

inductive process_step :: "process_control_state \<Rightarrow> process_control_state \<Rightarrow> bool" where
  exited: "mark_exited alive code s = (b, evs, s') \<Longrightarrow> process_step s s'"
| faulted: "mark_faulted alive fault code addr s = (b, evs, s') \<Longrightarrow> process_step s s'"
| terminated: "mark_terminated alive s = (b, evs, s') \<Longrightarrow> process_step s s'"
| request: "request_terminate alive s = (b, evs, s') \<Longrightarrow> process_step s s'"
| observe: "register_termination_observer token obs s = (r, s') \<Longrightarrow> process_step s s'"
| register: "facet_register al (process_signals s) (pc_waiters s) token wait_for obs = (r', ws) \<Longrightarrow>
    process_step s (s\<lparr>pc_waiters := ws\<rparr>)"
| unregister: "process_step s (s\<lparr>pc_waiters := facet_unregister token (pc_waiters s)\<rparr>)"

definition process_final :: "process_control_state \<Rightarrow> bool" where
  "process_final s \<longleftrightarrow> pi_state (pc_info s) = process_state_raw Proc_Terminated"

definition process_quiet :: "process_control_state \<Rightarrow> bool" where
  "process_quiet s \<longleftrightarrow> quiet (process_signals s) (pc_waiters s)"

lemma notify_process_info [simp]:
  "notify_process_waiters alive s = (evs, s') \<Longrightarrow> pc_info s' = pc_info s"
  by (auto simp: notify_process_waiters_def split: prod.splits)

lemma mark_terminal_spec:
  assumes "mark_terminal alive info s = (b, evs, s')"
  shows "b \<longleftrightarrow> \<not> process_final s" "pc_info s' = (if b then info else pc_info s)"
    "process_quiet s \<Longrightarrow> process_quiet s'"
  using assms procw.notify_quiet [of alive "s\<lparr>pc_info := info\<rparr>"]
  by (auto simp: mark_terminal_def process_final_def process_quiet_def split: if_splits prod.splits)

lemmas process_marks = mark_exited_def mark_faulted_def mark_terminated_def

lemma process_step_final:
  assumes "process_final s" "process_step s s'"
  shows "process_final s' \<and> pc_info s' = pc_info s"
  using assms(2,1)
  by (induction rule: process_step.induct)
    (auto simp: process_marks mark_terminal_def process_final_def request_terminate_def
      register_termination_observer_def split: if_splits)

lemma process_step_quiet:
  assumes "process_quiet s" "process_step s s'"
  shows "process_quiet s'"
  using assms(2,1)
proof (induction rule: process_step.induct)
  case (request alive s b evs s')
  then show ?case by (auto simp: request_terminate_def process_quiet_def process_signals_def split: if_splits)
next
  case (observe token obs s r s')
  then show ?case by (auto simp: register_termination_observer_def process_quiet_def process_signals_def split: if_splits)
next
  case (register al s token wait_for obs r' ws)
  then show ?case by (auto simp: process_quiet_def intro: facet_register_quiet)
next
  case (unregister s token)
  then show ?case by (auto simp: process_quiet_def intro: quiet_unregister)
qed (auto simp: process_marks split: if_splits dest: mark_terminal_spec(3))

interpretation proc: one_outcome process_final pc_info process_quiet process_step
  by unfold_locales (use process_step_final process_step_quiet in blast)+

section \<open>Request outcomes\<close>

inductive request_step :: "request_control_state \<Rightarrow> request_control_state \<Rightarrow> bool" where
  cancel: "request_cancellation s = (b, s') \<Longrightarrow> request_step s s'"
| publish: "publish_terminal alive info s = (b, evs, s') \<Longrightarrow> request_step s s'"
| register: "facet_register al (request_signals s) (rc_waiters s) token wait_for obs = (r', ws) \<Longrightarrow>
    request_step s (s\<lparr>rc_waiters := ws\<rparr>)"
| unregister: "request_step s (s\<lparr>rc_waiters := facet_unregister token (rc_waiters s)\<rparr>)"

definition request_final :: "request_control_state \<Rightarrow> bool" where
  "request_final s \<longleftrightarrow> request_state_is_terminal (request_state_of (rc_info s))"

definition request_quiet :: "request_control_state \<Rightarrow> bool" where
  "request_quiet s \<longleftrightarrow> quiet (request_signals s) (rc_waiters s)"

lemma publish_terminal_spec:
  assumes "publish_terminal alive info s = (b, evs, s')"
  shows "b \<longleftrightarrow> request_state_is_terminal (request_state_of info) \<and> \<not> request_final s"
    "rc_info s' = (if b then info else rc_info s)" "rc_request_id s' = rc_request_id s"
    "request_quiet s \<Longrightarrow> request_quiet s'"
  using assms reqw.notify_quiet [of alive "s\<lparr>rc_info := info\<rparr>"]
  by (auto simp: publish_terminal_def request_final_def request_quiet_def notify_request_waiters_def
      split: if_splits prod.splits)

lemma request_step_final:
  assumes "request_final s" "request_step s s'"
  shows "request_final s' \<and> rc_info s' = rc_info s"
  using assms(2,1)
  by (induction rule: request_step.induct)
    (auto simp: request_final_def request_cancellation_def publish_terminal_def split: if_splits)

lemma request_step_quiet:
  assumes "request_quiet s" "request_step s s'"
  shows "request_quiet s'"
  using assms(2,1)
proof (induction rule: request_step.induct)
  case (cancel s b s')
  then show ?case by (auto simp: request_cancellation_def request_quiet_def request_signals_def split: if_splits)
next
  case (publish alive info s b evs s')
  then show ?case by (blast dest: publish_terminal_spec(4))
next
  case (register al s token wait_for obs r' ws)
  then show ?case by (auto simp: request_quiet_def intro: facet_register_quiet)
next
  case (unregister s token)
  then show ?case by (auto simp: request_quiet_def intro: quiet_unregister)
qed

interpretation req: one_outcome request_final rc_info request_quiet request_step
  by unfold_locales (use request_step_final request_step_quiet in blast)+

section \<open>Power transitions\<close>

inductive power_step :: "system_power_info \<Rightarrow> system_power_info \<Rightarrow> bool" where
  request: "power_request action flags deadline i = (r, i') \<Longrightarrow> power_step i i'"
| cancel: "power_cancel i = (r, i') \<Longrightarrow> power_step i i'"
| quiesce: "begin_quiescing deadline i = (b, i') \<Longrightarrow> power_step i i'"
| synchronize: "begin_synchronizing i = (b, i') \<Longrightarrow> power_step i i'"
| commit: "begin_committing deadline i = (b, i') \<Longrightarrow> power_step i i'"
| fail: "power_step i (power_fail st i)"

definition power_edge :: "system_power_state \<Rightarrow> system_power_state \<Rightarrow> bool" where
  "power_edge a b \<longleftrightarrow> a = b \<or> b = Power_Failed \<or>
     (a \<in> {Power_Idle, Power_Canceled, Power_Failed} \<and> b = Power_Requested) \<or>
     (a = Power_Requested \<and> b \<in> {Power_Canceled, Power_Quiescing}) \<or>
     (a = Power_Quiescing \<and> b = Power_Synchronizing) \<or>
     (a = Power_Synchronizing \<and> b = Power_Committing)"

lemma power_step_edge:
  assumes "power_step i i'" "power_state i = Some a"
  shows "\<exists>b. power_state i' = Some b \<and> power_edge a b"
  using assms
  by (induction rule: power_step.induct)
    (auto simp: power_request_def power_cancel_def begin_quiescing_def begin_synchronizing_def begin_committing_def
      power_transition_def power_fail_def power_state_def power_edge_def
      simp del: system_power_state_raw.simps split: if_splits)

lemma power_state_default: "power_state SystemPowerInfo_default = Some Power_Idle"
  by (simp add: power_state_def SystemPowerInfo_default_def system_power_state_from_raw_def)

lemma power_steps_state:
  assumes "power_step\<^sup>*\<^sup>* SystemPowerInfo_default i"
  shows "\<exists>b. power_state i = Some b"
  using assms by (induction rule: rtranclp_induct) (use power_state_default power_step_edge in blast)+

section \<open>Scheduling leases\<close>

inductive authority_step :: "scheduling_authority_state \<Rightarrow> scheduling_authority_state \<Rightarrow> bool" where
  activate: "authority_step s (authority_activate s)"
| revoke: "authority_step s (authority_revoke s)"

lemma authority_steps_generation:
  "authority_step\<^sup>*\<^sup>* s s' \<Longrightarrow> sa_generation s \<le> u64_max \<Longrightarrow>
     sa_generation s \<le> sa_generation s' \<and> sa_generation s' \<le> u64_max"
proof (induction rule: rtranclp_induct)
  case (step s1 s2)
  then show ?case
    by (auto simp: authority_step.simps authority_activate_def authority_revoke_def saturating_add_def)
qed simp

section \<open>Properties\<close>

lemma marked_events:
  "\<forall>w \<in> set ws. \<not> sw_notifying w \<Longrightarrow>
   map (\<lambda>w. (sw_observer w, sw_token w)) (filter (\<lambda>w. sw_notifying w \<and> alive (sw_observer w)) (mark_matching_waiters ws c)) =
   map (\<lambda>w. (sw_observer w, sw_token w)) (filter (\<lambda>w. intersects c (sw_wait_for w) \<and> alive (sw_observer w)) ws)"
  by (induction ws) (auto simp: mark_matching_waiters_def)

text \<open>Whoever ends a process notifies its waiters: the events of the mark that succeeded.\<close>

lemma mark_terminal_events:
  assumes "mark_terminal alive info s = (True, evs, s')" "process_quiet s" "pi_state info = process_state_raw Proc_Terminated"
  shows "mset evs = image_mset (\<lambda>w. (sw_observer w, sw_token w))
    (filter_mset (\<lambda>w. intersects S_TERMINATED (sw_wait_for w) \<and> alive (sw_observer w)) (mset (pc_waiters s)))"
proof -
  have sig: "process_signals (s\<lparr>pc_info := info\<rparr>) = S_TERMINATED" using assms(3) by (simp add: process_signals_def)
  have "fst (drain_notifying alive (mark_matching_waiters (pc_waiters s) S_TERMINATED)) = evs"
    using assms(1) by (simp add: mark_terminal_def notify_process_waiters_def notify_waiters_def sig case_prod_unfold del: notify_process_info split: if_split_asm)
  then have "drain_notifying alive (mark_matching_waiters (pc_waiters s) S_TERMINATED) =
      (evs, snd (drain_notifying alive (mark_matching_waiters (pc_waiters s) S_TERMINATED)))" by (metis prod.collapse)
  from drain_notifying_spec(2) [OF this]
  have "mset evs = mset (map (\<lambda>w. (sw_observer w, sw_token w))
      (filter (\<lambda>w. sw_notifying w \<and> alive (sw_observer w)) (mark_matching_waiters (pc_waiters s) S_TERMINATED)))"
    by (simp only: mset_map mset_filter)
  also have "\<dots> = mset (map (\<lambda>w. (sw_observer w, sw_token w))
      (filter (\<lambda>w. intersects S_TERMINATED (sw_wait_for w) \<and> alive (sw_observer w)) (pc_waiters s)))"
    by (rule arg_cong [OF marked_events]) (use assms(2) in \<open>simp add: process_quiet_def quiet_def\<close>)
  finally show ?thesis by (simp only: mset_map mset_filter)
qed

text \<open>C35: a process has at most one outcome, and nobody misses it. The exit, fault or termination that ends the process notifies
  every waiter registered for the termination, once, if its observer is still alive. Whatever follows, the recorded outcome
  stays, every later exit, fault, termination or request reports that it lost the race and changes nothing, no waiter for the
  termination is left behind, and one that comes late is told at once instead of being registered.\<close>

theorem process_single_outcome:
  assumes "process_step\<^sup>*\<^sup>* ProcessControl_new s0"
    and "(True, evs, s) \<in> {mark_exited alive code s0, mark_faulted alive fault fc fa s0, mark_terminated alive s0}"
    and "process_step\<^sup>*\<^sup>* s s'"
  shows "mset evs = image_mset (\<lambda>w. (sw_observer w, sw_token w))
      (filter_mset (\<lambda>w. intersects S_TERMINATED (sw_wait_for w) \<and> alive (sw_observer w)) (mset (pc_waiters s0))) \<and>
    pc_info s' = pc_info s \<and> process_signals s' = S_TERMINATED \<and>
    mark_exited alive' code' s' = (False, [], s') \<and> mark_faulted alive' fault' fc' fa' s' = (False, [], s') \<and>
    mark_terminated alive' s' = (False, [], s') \<and> request_terminate alive' s' = (False, [], s') \<and>
    (\<forall>w \<in> set (pc_waiters s'). \<not> intersects S_TERMINATED (sw_wait_for w)) \<and>
    (\<forall>wait_for. intersects S_TERMINATED wait_for \<longrightarrow>
       facet_register al (process_signals s') (pc_waiters s') token wait_for obs = (Inr False, pc_waiters s'))"
proof -
  have q0: "process_quiet s0"
    using proc.calm_steps [OF assms(1)] by (simp add: process_quiet_def ProcessControl_new_def)
  obtain info where m: "mark_terminal alive info s0 = (True, evs, s)" "pi_state info = process_state_raw Proc_Terminated"
    using assms(2) by (auto simp: process_marks split: if_splits)
  have f: "process_final s" "process_quiet s" using mark_terminal_spec [OF m(1)] m(2) q0 by (auto simp: process_final_def)
  have o: "process_final s'" "pc_info s' = pc_info s" using proc.outcome_stable [OF assms(3) f(1)] by simp_all
  have "process_quiet s'" using proc.calm_steps [OF assms(3) f(2)] .
  with o mark_terminal_events [OF m(1) q0 m(2)] show ?thesis
    by (auto simp: process_final_def process_quiet_def quiet_def process_signals_def process_marks
        mark_terminal_def request_terminate_def facet_register_def)
qed

theorem process_single_outcome_witness:
  "let s0 = ProcessControl_new\<lparr>pc_waiters := [\<lparr>sw_token = 4, sw_wait_for = S_TERMINATED, sw_observer = 9, sw_notifying = False\<rparr>]\<rparr>;
       s = ProcessControl_new\<lparr>pc_info := \<lparr>pi_state = 1, pi_cause = 1, pi_exit_code = 7, pi_fault = 0, pi_fault_code = 0,
         pi_fault_address = 0\<rparr>\<rparr>
   in mark_exited (\<lambda>_. True) 7 s0 = (True, [(9, 4)], s) \<and> mark_faulted (\<lambda>_. True) Fault_PageFault 1 2 s = (False, [], s)"
proof -
  let ?w = "\<lparr>sw_token = 4, sw_wait_for = S_TERMINATED, sw_observer = 9, sw_notifying = False\<rparr>"
  let ?before = "ProcessControl_new\<lparr>pc_waiters := [?w]\<rparr>"
  let ?after = "ProcessControl_new\<lparr>pc_info := \<lparr>pi_state = 1, pi_cause = 1, pi_exit_code = 7, pi_fault = 0, pi_fault_code = 0,
         pi_fault_address = 0\<rparr>\<rparr>"
  have "facet_register (\<lambda>_. True) (process_signals ProcessControl_new) (pc_waiters ProcessControl_new) 4 S_TERMINATED 9 = (Inr True, [?w])"
    by (simp add: facet_register_def register_signal_waiter_def ProcessControl_new_def process_signals_def WAITERS_PER_FACET_LIMIT_def
        intersects_def)
  from process_step.register [OF this] have r0: "process_step ProcessControl_new ?before" .
  have m: "mark_exited (\<lambda>_. True) 7 ?before = (True, [(9, 4)], ?after)"
    by (simp add: mark_exited_def mark_terminal_def notify_process_waiters_def notify_waiters_def ProcessControl_new_def
        mark_matching_waiters_def process_signals_def drain_notifying.simps [of _ "[_]"] drain_notifying.simps [of _ "[]"]
        take_notifying_waiter_def swap_remove_def notify_one_waiter_def intersects_def S_TERMINATED_def)
  have "mark_faulted (\<lambda>_. True) Fault_PageFault 1 2 ?after = (False, [], ?after)"
    using process_single_outcome [OF r_into_rtranclp [of process_step, OF r0], of "[(9, 4)]" ?after "\<lambda>_. True" 7 Fault_Other 0 0 ?after] m by simp
  with m show ?thesis by simp
qed

text \<open>C36: a request publishes at most one terminal result. After a terminal result was published,
  whatever cancellations and publications follow, the snapshot stays the first one; a publication
  succeeds exactly when it is terminal and nothing terminal was published before.\<close>

theorem request_first_terminal_wins:
  assumes "RequestControl_new al rid info = Inr s0" "request_step\<^sup>*\<^sup>* s0 s"
    and "publish_terminal alive res s = (b, evs, s1)" "request_step\<^sup>*\<^sup>* s1 s2"
  shows "(b \<longleftrightarrow> request_state_is_terminal (request_state_of res) \<and> \<not> request_final s) \<and>
    (b \<longrightarrow> rc_info s2 = res \<and> request_signals s2 = S_SIGNALED \<and>
       (\<forall>w \<in> set (rc_waiters s2). \<not> intersects S_SIGNALED (sw_wait_for w)) \<and>
       fst (publish_terminal alive' res' s2) = False)"
proof -
  note P = publish_terminal_spec [OF assms(3)]
  have "request_quiet s0"
    using assms(1) by (auto simp: RequestControl_new_def request_quiet_def split: if_splits)
  then have "request_quiet s2"
    using req.calm_steps [OF assms(2)] P(4) req.calm_steps [OF assms(4)] by blast
  moreover have "request_final s2 \<and> rc_info s2 = res" if b
  proof -
    have "request_final s1" "rc_info s1 = res" using that P(1,2) by (auto simp: request_final_def)
    then show ?thesis using req.outcome_stable [OF assms(4)] by simp
  qed
  ultimately show ?thesis
    using P(1) by (auto simp: request_final_def request_quiet_def quiet_def request_signals_def publish_terminal_def)
qed

definition sample_request_info :: "request_state \<Rightarrow> request_info" where
  "sample_request_info st =
     \<lparr>ri_version = 1, ri_size = 0, ri_state = request_state_raw st, ri_operation = 0, ri_request_flags = 0,
      ri_result_flags = 0, ri_result = 0, ri_reserved = 0, ri_bytes_transferred = 0, ri_deadline_ns = 0,
      ri_submitted_ns = 0, ri_started_ns = 0, ri_completed_ns = 0, ri_user_data = 0\<rparr>"

theorem request_first_terminal_wins_witness:
  "let s0 = \<lparr>rc_request_id = 5, rc_info = sample_request_info Req_Pending, rc_cancel_requested = False, rc_waiters = []\<rparr>;
       s1 = snd (snd (publish_terminal (\<lambda>_. True) (sample_request_info Req_TimedOut) s0))
   in RequestControl_new (\<lambda>_. True) 5 (sample_request_info Req_Pending) = Inr s0 \<and>
      rc_info s1 = sample_request_info Req_TimedOut \<and>
      fst (publish_terminal (\<lambda>_. True) (sample_request_info Req_Completed) s1) = False"
proof -
  let ?s0 = "\<lparr>rc_request_id = 5, rc_info = sample_request_info Req_Pending, rc_cancel_requested = False, rc_waiters = []\<rparr>"
  have n: "RequestControl_new (\<lambda>_. True) 5 (sample_request_info Req_Pending) = Inr ?s0" by code_simp
  obtain b evs s1 where p: "publish_terminal (\<lambda>_. True) (sample_request_info Req_TimedOut) ?s0 = (b, evs, s1)"
    by (rule prod_cases3)
  have "request_state_is_terminal (request_state_of (sample_request_info Req_TimedOut)) \<and> \<not> request_final ?s0"
    by (simp add: sample_request_info_def request_state_of_def request_final_def request_state_is_terminal_def
        del: request_state_raw.simps)
  with request_first_terminal_wins [OF n rtranclp.rtrancl_refl p rtranclp.rtrancl_refl,
      of "\<lambda>_. True" "sample_request_info Req_Completed"]
  show ?thesis by (simp add: n p)
qed

text \<open>A history of the power control: the states after each call, from the initial one on.\<close>

definition power_history :: "system_power_info list \<Rightarrow> bool" where
  "power_history xs \<longleftrightarrow> xs \<noteq> [] \<and> hd xs = SystemPowerInfo_default \<and> successively power_step xs"

lemma power_history_snoc: "power_history (xs @ [i]) \<longleftrightarrow> (if xs = [] then i = SystemPowerInfo_default else power_history xs \<and> power_step (last xs) i)"
  by (cases "xs = []") (simp_all add: power_history_def successively_append_iff conj_ac)

lemma power_history_steps: "power_history xs \<Longrightarrow> power_step\<^sup>*\<^sup>* SystemPowerInfo_default (last xs)"
proof (induction xs rule: rev_induct)
  case (snoc i xs)
  show ?case
  proof (cases "xs = []")
    case True
    then show ?thesis using snoc.prems by (simp add: power_history_def)
  next
    case False
    then show ?thesis using snoc by (auto simp: power_history_snoc intro: rtranclp.rtrancl_into_rtrancl)
  qed
qed (simp add: power_history_def)

lemma power_phase_before:
  assumes "power_history xs" "power_state (last xs) = Some b"
    and "(a, b) \<in> {(Power_Requested, Power_Quiescing), (Power_Quiescing, Power_Synchronizing), (Power_Synchronizing, Power_Committing)}"
  shows "\<exists>ys zs. xs = ys @ zs \<and> zs \<noteq> [] \<and> (\<forall>i \<in> set zs. power_state i = Some b) \<and> power_history ys \<and> power_state (last ys) = Some a"
  using assms
proof (induction xs rule: rev_induct)
  case (snoc i xs)
  have ne: "xs \<noteq> []" using snoc.prems by (auto simp: power_history_snoc power_state_default)
  then have h: "power_history xs" "power_step (last xs) i" using snoc.prems(1) by (simp_all add: power_history_snoc)
  obtain a' where a': "power_state (last xs) = Some a'" using power_steps_state [OF power_history_steps [OF h(1)]] by blast
  then have "power_edge a' b" using power_step_edge [OF h(2)] snoc.prems(2) by auto
  then consider "a' = b" | "a' = a" using snoc.prems(3) by (auto simp: power_edge_def)
  then show ?case
  proof cases
    case 1
    then obtain ys zs where "xs = ys @ zs" "\<forall>i \<in> set zs. power_state i = Some b" "power_history ys" "power_state (last ys) = Some a"
      using snoc.IH [OF h(1)] a' snoc.prems(3) by blast
    then show ?thesis using snoc.prems(2) by (intro exI [of _ ys] exI [of _ "zs @ [i]"]) auto
  next
    case 2
    then show ?thesis using h(1) a' snoc.prems(2) by (intro exI [of _ xs] exI [of _ "[i]"]) auto
  qed
qed (simp add: power_history_def)



text \<open>C38: what revoking a scheduling authority does to its leases. A lease taken before the revocation can authorise something in
  some later state, after the authority is activated again, exactly when the generation had reached \<^verbatim>\<open>u64::MAX\<close>, where the
  saturating increments no longer tell the lease from the new generation; below that it authorises nothing in any later state.\<close>

theorem revoked_lease_stays_dead:
  assumes "authority_authorize cls s = Inr ()" "sa_generation s \<le> u64_max"
  shows "(\<exists>s' cls'. authority_step\<^sup>*\<^sup>* (authority_revoke s) s' \<and> lease_authorizes (sa_generation s) cls' s') \<longleftrightarrow>
    sa_generation s = u64_max"
proof
  assume "\<exists>s' cls'. authority_step\<^sup>*\<^sup>* (authority_revoke s) s' \<and> lease_authorizes (sa_generation s) cls' s'"
  then obtain s' cls' where s': "authority_step\<^sup>*\<^sup>* (authority_revoke s) s'" "lease_authorizes (sa_generation s) cls' s'" by blast
  show "sa_generation s = u64_max"
  proof (rule ccontr)
    assume "sa_generation s \<noteq> u64_max"
    then have "sa_generation (authority_revoke s) = sa_generation s + 1"
      using assms by (auto simp: authority_revoke_def authority_authorize_def saturating_add_def split: if_splits)
    with authority_steps_generation [OF s'(1)] assms(2) s'(2) \<open>sa_generation s \<noteq> u64_max\<close> show False
      by (auto simp: lease_authorizes_def)
  qed
next
  assume max: "sa_generation s = u64_max"
  have "authority_step\<^sup>*\<^sup>* (authority_revoke s) (authority_activate (authority_revoke s))" by (intro r_into_rtranclp authority_step.activate)
  moreover have "lease_authorizes (sa_generation s) cls (authority_activate (authority_revoke s))"
    using assms(1) max by (auto simp: lease_authorizes_def authority_authorize_def authority_revoke_def authority_activate_def
        saturating_add_def split: if_splits)
  ultimately show "\<exists>s' cls'. authority_step\<^sup>*\<^sup>* (authority_revoke s) s' \<and> lease_authorizes (sa_generation s) cls' s'" by blast
qed

theorem revoked_lease_stays_dead_witness:
  "let s = \<lparr>sa_maximum_class = Class_Audio, sa_active = True, sa_generation = 3\<rparr>
   in lease_authorizes 3 Class_Audio s \<and> \<not> (\<exists>s' cls'. authority_step\<^sup>*\<^sup>* (authority_revoke s) s' \<and> lease_authorizes 3 cls' s')"
proof -
  define s where "s = \<lparr>sa_maximum_class = Class_Audio, sa_active = True, sa_generation = 3\<rparr>"
  have a: "authority_authorize Class_Audio s = Inr ()" "sa_generation s = 3" "(3 :: nat) \<le> u64_max" "(3 :: nat) \<noteq> u64_max"
    by (simp_all add: s_def authority_authorize_def u64_max_def)
  from revoked_lease_stays_dead [OF a(1), unfolded a(2), OF a(3)]
  have "\<not> (\<exists>s' cls'. authority_step\<^sup>*\<^sup>* (authority_revoke s) s' \<and> lease_authorizes 3 cls' s')" using a(4) by simp
  moreover have "lease_authorizes 3 Class_Audio s" using a(1,2) by (simp add: lease_authorizes_def)
  ultimately show ?thesis unfolding Let_def s_def [symmetric] by blast
qed

end
