(* ===== verification/Shared_Memory.thy ===== *)
theory Shared_Memory
  imports Sysapi
begin

text \<open>
  Shared-memory objects of \<^verbatim>\<open>crates/ginkgo-ipc/src/kernel.rs\<close>: the storage interface
  \<^verbatim>\<open>SharedMemoryStorage\<close>, the validation a backing performs on a storage, and checked range
  access. A storage is the record of what the trait exposes: its byte contents (whose length is the
  logical length), its mapped length and its physical pages. \<open>Frame_Storage\<close> shows that the
  kernel's frame-backed storage behaves like this record.
\<close>

definition SHARED_MEMORY_PAGE_SIZE :: nat where "SHARED_MEMORY_PAGE_SIZE = 4096"

definition checked_range :: "nat \<Rightarrow> nat \<Rightarrow> nat \<Rightarrow> (nat \<times> nat) ipc" where
  "checked_range offset len allocation_len =
     (case checked_add offset len of
        None \<Rightarrow> Inl InvalidMessage
      | Some end_offset \<Rightarrow> if end_offset > allocation_len then Inl InvalidMessage else Inr (offset, end_offset))"

record storage =
  st_bytes :: "u8 list"
  st_mapped_len :: nat
  st_physical_page :: "nat \<Rightarrow> nat option"

definition storage_read :: "storage \<Rightarrow> nat \<Rightarrow> nat \<Rightarrow> u8 list ipc" where
  "storage_read st offset len =
     (case checked_range offset len (length (st_bytes st)) of
        Inl e \<Rightarrow> Inl e
      | Inr _ \<Rightarrow> Inr (take len (drop offset (st_bytes st))))"

definition storage_write :: "storage \<Rightarrow> nat \<Rightarrow> u8 list \<Rightarrow> unit ipc \<times> storage" where
  "storage_write st offset input =
     (case checked_range offset (length input) (length (st_bytes st)) of
        Inl e \<Rightarrow> (Inl e, st)
      | Inr _ \<Rightarrow> (Inr (), st\<lparr>st_bytes := take offset (st_bytes st) @ input @ drop (offset + length input) (st_bytes st)\<rparr>))"

section \<open>Backing\<close>

record shared_memory_backing =
  sb_identity :: nat
  sb_storage :: storage
  sb_logical_len :: nat
  sb_mapped_len :: nat
  sb_physical_pages :: "nat list"

text \<open>The page loop: every page present, aligned and not seen before.\<close>

fun collect_pages :: "(nat \<Rightarrow> nat option) \<Rightarrow> nat list \<Rightarrow> nat list \<Rightarrow> nat list ipc" where
  "collect_pages page pages [] = Inr pages"
| "collect_pages page pages (i # js) =
     (case page i of
        None \<Rightarrow> Inl InvalidMessage
      | Some physical \<Rightarrow>
          if physical mod SHARED_MEMORY_PAGE_SIZE \<noteq> 0 \<or> physical \<in> set pages then Inl InvalidMessage
          else collect_pages page (pages @ [physical]) js)"

text \<open>
  \<^verbatim>\<open>SharedMemoryBacking::new\<close>; \<open>next_id\<close> is the global identity counter, returned updated.
\<close>

definition SharedMemoryBacking_new :: "allocs \<Rightarrow> storage \<Rightarrow> nat \<Rightarrow> shared_memory_backing ipc \<times> nat" where
  "SharedMemoryBacking_new al st next_id =
     (let logical_len = length (st_bytes st) in
      if logical_len = 0 then (Inl InvalidMessage, next_id)
      else
        (case checked_add logical_len (SHARED_MEMORY_PAGE_SIZE - 1) of
           None \<Rightarrow> (Inl InvalidMessage, next_id)
         | Some rounded \<Rightarrow>
             let expected_mapped_len = rounded - rounded mod SHARED_MEMORY_PAGE_SIZE;
                 mapped_len = st_mapped_len st
             in if mapped_len \<noteq> expected_mapped_len then (Inl InvalidMessage, next_id)
                else
                  let page_count = mapped_len div SHARED_MEMORY_PAGE_SIZE
                  in if \<not> al 0 then (Inl OutOfMemory, next_id)
                     else
                       (case collect_pages (st_physical_page st) [] [0..<page_count] of
                          Inl e \<Rightarrow> (Inl e, next_id)
                        | Inr pages \<Rightarrow>
                            if st_physical_page st page_count \<noteq> None then (Inl InvalidMessage, next_id)
                            else
                              (case checked_add next_id 1 of
                                 None \<Rightarrow> (Inl OutOfMemory, next_id)
                               | Some next' \<Rightarrow>
                                   (Inr \<lparr>sb_identity = next_id, sb_storage = st, sb_logical_len = logical_len,
                                         sb_mapped_len = mapped_len, sb_physical_pages = pages\<rparr>, next')))))"

section \<open>Range access\<close>

lemma checked_range_Inr:
  "checked_range off len n = Inr p \<longleftrightarrow> off + len \<le> u64_max \<and> off + len \<le> n \<and> p = (off, off + len)"
  by (auto simp: checked_range_def split: option.splits)

lemma checked_range_Inl: "checked_range off len n = Inl e \<Longrightarrow> e = InvalidMessage"
  by (auto simp: checked_range_def split: option.splits if_splits)

lemma storage_write_read:
  assumes "storage_write st off input = (Inr (), st')"
  shows "storage_read st' off (length input) = Inr input" "length (st_bytes st') = length (st_bytes st)"
  using assms by (auto simp: storage_write_def storage_read_def checked_range_def split: sum.splits option.splits if_splits)

text \<open>A write leaves every byte outside its range alone.\<close>

lemma storage_write_frame:
  assumes "storage_write st off input = (r, st')" "i < off \<or> off + length input \<le> i" "i < length (st_bytes st)"
  shows "st_bytes st' ! i = st_bytes st ! i"
proof (cases r)
  case (Inl e)
  with assms(1) show ?thesis by (auto simp: storage_write_def split: sum.splits)
next
  case (Inr u)
  with assms(1) have st': "st_bytes st' = take off (st_bytes st) @ input @ drop (off + length input) (st_bytes st)"
    and le: "off + length input \<le> length (st_bytes st)"
    by (auto simp: storage_write_def checked_range_Inr split: sum.splits)
  show ?thesis
  proof (cases "i < off")
    case True
    then show ?thesis using le by (simp add: st' nth_append)
  next
    case False
    with assms(2) have "off + length input \<le> i" by simp
    moreover from this obtain k where "i = off + length input + k" using le_Suc_ex by blast
    ultimately show ?thesis using le assms(3) by (simp add: st' nth_append)
  qed
qed

lemma collect_pages_spec:
  assumes "collect_pages page ps js = Inr qs" "distinct ps" "\<forall>p \<in> set ps. p mod SHARED_MEMORY_PAGE_SIZE = 0"
  shows "distinct qs" "\<forall>p \<in> set qs. p mod SHARED_MEMORY_PAGE_SIZE = 0"
    "map Some qs = map Some ps @ map page js"
proof -
  have "distinct qs \<and> (\<forall>p \<in> set qs. p mod SHARED_MEMORY_PAGE_SIZE = 0) \<and> map Some qs = map Some ps @ map page js"
    using assms
    by (induction page ps js rule: collect_pages.induct) (auto split: option.splits if_splits)
  then show "distinct qs" "\<forall>p \<in> set qs. p mod SHARED_MEMORY_PAGE_SIZE = 0"
    "map Some qs = map Some ps @ map page js" by simp_all
qed

text \<open>An accepted backing covers its logical length with distinct aligned pages.\<close>

lemma SharedMemoryBacking_new_spec:
  assumes "SharedMemoryBacking_new al st n = (Inr b, n')"
  shows "sb_identity b = n" "n' = n + 1" "sb_logical_len b = length (st_bytes st)" "sb_storage b = st"
    "0 < sb_logical_len b" "sb_logical_len b \<le> sb_mapped_len b"
    "sb_mapped_len b < sb_logical_len b + SHARED_MEMORY_PAGE_SIZE"
    "length (sb_physical_pages b) * SHARED_MEMORY_PAGE_SIZE = sb_mapped_len b"
    "distinct (sb_physical_pages b)" "\<forall>p \<in> set (sb_physical_pages b). p mod SHARED_MEMORY_PAGE_SIZE = 0"
proof -
  let ?l = "length (st_bytes st)" and ?r = "length (st_bytes st) + (SHARED_MEMORY_PAGE_SIZE - 1)"
  from assms obtain pages where c: "collect_pages (st_physical_page st) [] [0..<st_mapped_len st div SHARED_MEMORY_PAGE_SIZE] = Inr pages"
    and m: "st_mapped_len st = ?r - ?r mod SHARED_MEMORY_PAGE_SIZE" and l: "?l \<noteq> 0"
    and b: "b = \<lparr>sb_identity = n, sb_storage = st, sb_logical_len = ?l,
      sb_mapped_len = st_mapped_len st, sb_physical_pages = pages\<rparr>" and n: "n' = n + 1"
    by (auto simp: SharedMemoryBacking_new_def Let_def split: if_splits option.splits sum.splits)
  note C = collect_pages_spec [OF c]
  have "length (map Some pages) = st_mapped_len st div SHARED_MEMORY_PAGE_SIZE"
    using C(3) by simp
  moreover have "st_mapped_len st div SHARED_MEMORY_PAGE_SIZE * SHARED_MEMORY_PAGE_SIZE = st_mapped_len st"
    unfolding m by (metis div_mult_mod_eq add_diff_cancel_right' nonzero_mult_div_cancel_right SHARED_MEMORY_PAGE_SIZE_def zero_neq_numeral)
  ultimately show "length (sb_physical_pages b) * SHARED_MEMORY_PAGE_SIZE = sb_mapped_len b" by (simp add: b)
  have "?r mod SHARED_MEMORY_PAGE_SIZE < SHARED_MEMORY_PAGE_SIZE" by (simp add: SHARED_MEMORY_PAGE_SIZE_def)
  then show "sb_logical_len b \<le> sb_mapped_len b" "sb_mapped_len b < sb_logical_len b + SHARED_MEMORY_PAGE_SIZE"
    by (simp_all add: b m SHARED_MEMORY_PAGE_SIZE_def)
  show "sb_identity b = n" "n' = n + 1" "sb_logical_len b = length (st_bytes st)" "sb_storage b = st"
    "0 < sb_logical_len b" "distinct (sb_physical_pages b)"
    "\<forall>p \<in> set (sb_physical_pages b). p mod SHARED_MEMORY_PAGE_SIZE = 0"
    using l n C by (simp_all add: b)
qed

end
