(* ===== verification/Kernel_Heap.thy ===== *)
theory Kernel_Heap
  imports Channel_State Window_State Control_Objects Shared_Memory
begin

text \<open>
  The store of kernel objects of \<^verbatim>\<open>crates/ginkgo-ipc/src/kernel.rs\<close>. A handle entry, a queued
  handle and a lease own an \<^verbatim>\<open>Arc<KernelObject>\<close>; here an object is a number indexing
  \<open>hp_objects\<close>, which holds its strong count and its value, and numbers are never reused. The
  states behind \<^verbatim>\<open>Arc<Spinlock<_>>\<close> are indexed likewise. Window states carry their own strong
  count (endpoints and wait facets), because the last reference to one releases its shared memory;
  the release of the other states has no further effect and is not modelled.

  Dropping a reference is \<open>drop_refs\<close>: the last reference to a channel endpoint closes its side
  and drops the handles queued for it, the last reference to a window endpoint closes its role. The
  work list follows the order in which Rust drops the values.

  \<open>heap_ok\<close> is the invariant: strong counts are exact, each endpoint has one object, a side is
  open exactly while its endpoint is alive. Signals delivered to observers are logged in
  \<open>hp_events\<close>; whether a weak observer reference can be upgraded is \<open>hp_alive\<close>.
\<close>

section \<open>Objects and the heap\<close>

record filesystem_handle =
  fh_filesystem_id :: nat
  fh_node_id :: u32
  fh_generation :: u32

datatype kernel_object =
    Channel nat side
  | SharedMemory nat
  | Window nat window_role
  | Process nat
  | Request nat
  | ApplicationData string
  | SystemPower nat
  | SchedulingAuthority nat
  | FilesystemRoot
  | Directory filesystem_handle
  | File filesystem_handle
  | RandomSource

record kernel_heap =
  hp_objects :: "(nat \<times> kernel_object) list"
  hp_channels :: "channel_state list"
  hp_windows :: "(nat \<times> window_state) list"
  hp_memories :: "shared_memory_backing list"
  hp_processes :: "process_control_state list"
  hp_requests :: "request_control_state list"
  hp_powers :: "system_power_info list"
  hp_authorities :: "scheduling_authority_state list"
  hp_next_identity :: nat
  hp_alive :: "observer \<Rightarrow> bool"
  hp_events :: "notification list"

definition heap_empty :: kernel_heap where
  "heap_empty =
     \<lparr>hp_objects = [], hp_channels = [], hp_windows = [], hp_memories = [], hp_processes = [],
      hp_requests = [], hp_powers = [], hp_authorities = [], hp_next_identity = 1,
      hp_alive = (\<lambda>_. True), hp_events = []\<rparr>"

definition strong :: "kernel_heap \<Rightarrow> oid \<Rightarrow> nat" where
  "strong h k = (if k < length (hp_objects h) then fst (hp_objects h ! k) else 0)"

definition object_at :: "kernel_heap \<Rightarrow> oid \<Rightarrow> kernel_object" where
  "object_at h k = snd (hp_objects h ! k)"

definition window_strong :: "kernel_heap \<Rightarrow> nat \<Rightarrow> nat" where
  "window_strong h w = (if w < length (hp_windows h) then fst (hp_windows h ! w) else 0)"

definition set_strong :: "oid \<Rightarrow> nat \<Rightarrow> kernel_heap \<Rightarrow> kernel_heap" where
  "set_strong k n h = h\<lparr>hp_objects := (hp_objects h)[k := (n, object_at h k)]\<rparr>"

definition set_channel :: "nat \<Rightarrow> channel_state \<Rightarrow> notification list \<Rightarrow> kernel_heap \<Rightarrow> kernel_heap" where
  "set_channel c s evs h = h\<lparr>hp_channels := (hp_channels h)[c := s], hp_events := hp_events h @ evs\<rparr>"

definition set_window :: "nat \<Rightarrow> window_state \<Rightarrow> notification list \<Rightarrow> kernel_heap \<Rightarrow> kernel_heap" where
  "set_window w s evs h =
     h\<lparr>hp_windows := (hp_windows h)[w := (fst (hp_windows h ! w), s)], hp_events := hp_events h @ evs\<rparr>"

definition set_window_strong :: "nat \<Rightarrow> nat \<Rightarrow> kernel_heap \<Rightarrow> kernel_heap" where
  "set_window_strong w n h = h\<lparr>hp_windows := (hp_windows h)[w := (n, snd (hp_windows h ! w))]\<rparr>"

text \<open>\<^verbatim>\<open>Arc::clone\<close> of an object, and of each object of a list.\<close>

definition add_ref :: "oid \<Rightarrow> kernel_heap \<Rightarrow> kernel_heap" where
  "add_ref k h = set_strong k (strong h k + 1) h"

definition add_refs :: "oid list \<Rightarrow> kernel_heap \<Rightarrow> kernel_heap" where
  "add_refs ks h = fold add_ref ks h"

text \<open>\<^verbatim>\<open>Arc::try_new(KernelObject::...)\<close>, once the allocation succeeded.\<close>

definition new_object :: "kernel_object \<Rightarrow> kernel_heap \<Rightarrow> oid \<times> kernel_heap" where
  "new_object obj h = (length (hp_objects h), h\<lparr>hp_objects := hp_objects h @ [(1, obj)]\<rparr>)"

section \<open>Dropping references\<close>

datatype drop_item = Drop_object oid | Drop_window nat

definition message_objects :: "kernel_message list \<Rightarrow> oid list" where
  "message_objects ms = concat (map (\<lambda>m. map he_object (km_handles m)) ms)"

text \<open>
  One drop: the follow-up drops come back in the order they run. A count of zero does not occur
  (it would be a use after free) and leaves the heap alone.
\<close>

definition drop_step :: "drop_item \<Rightarrow> kernel_heap \<Rightarrow> drop_item list \<times> kernel_heap" where
  "drop_step item h =
     (case item of
        Drop_object k \<Rightarrow>
          (case strong h k of
             0 \<Rightarrow> ([], h)
           | Suc n \<Rightarrow>
               let h1 = set_strong k n h
               in if n > 0 then ([], h1)
                  else
                    (case object_at h k of
                       Channel c sd \<Rightarrow>
                         (case channel_endpoint_drop (hp_alive h) sd (hp_channels h ! c) of
                            (discarded, evs, s) \<Rightarrow>
                              (map Drop_object (message_objects discarded), set_channel c s evs h1))
                     | Window w role \<Rightarrow>
                         (case window_endpoint_drop (hp_alive h) role (snd (hp_windows h ! w)) of
                            (evs, s) \<Rightarrow> ([Drop_window w], set_window w s evs h1))
                     | _ \<Rightarrow> ([], h1)))
      | Drop_window w \<Rightarrow>
          (case window_strong h w of
             0 \<Rightarrow> ([], h)
           | Suc n \<Rightarrow>
               let h1 = set_window_strong w n h
               in if n > 0 then ([], h1)
                  else ([Drop_object (wn_shared_memory (snd (hp_windows h ! w)))], h1)))"

definition heap_refs :: "kernel_heap \<Rightarrow> nat" where
  "heap_refs h = sum_list (map fst (hp_objects h)) + sum_list (map fst (hp_windows h))"

lemma sum_list_fst_update:
  "k < length xs \<Longrightarrow> sum_list (map fst (xs[k := (n, y)])) + fst (xs ! k) = sum_list (map fst xs) + (n :: nat)"
proof (induction xs arbitrary: k)
  case (Cons x xs)
  then show ?case by (cases k) auto
qed simp

lemma strong_pos: "strong h k \<noteq> 0 \<Longrightarrow> k < length (hp_objects h) \<and> strong h k = fst (hp_objects h ! k)"
  by (auto simp: strong_def split: if_splits)

lemma window_strong_pos: "window_strong h w \<noteq> 0 \<Longrightarrow> w < length (hp_windows h) \<and> window_strong h w = fst (hp_windows h ! w)"
  by (auto simp: window_strong_def split: if_splits)

lemma heap_refs_set_strong:
  assumes "strong h k = Suc n"
  shows "heap_refs (set_strong k n h) < heap_refs h"
  using sum_list_fst_update [of k "hp_objects h" n "object_at h k"] strong_pos [of h k] assms
  by (simp add: heap_refs_def set_strong_def)

lemma heap_refs_set_window_strong:
  assumes "window_strong h w = Suc n"
  shows "heap_refs (set_window_strong w n h) < heap_refs h"
  using sum_list_fst_update [of w "hp_windows h" n "snd (hp_windows h ! w)"] window_strong_pos [of h w] assms
  by (simp add: heap_refs_def set_window_strong_def)

lemma heap_refs_set_channel [simp]: "heap_refs (set_channel c s evs h) = heap_refs h"
  by (simp add: heap_refs_def set_channel_def)

lemma heap_refs_set_window [simp]: "heap_refs (set_window w s evs h) = heap_refs h"
proof -
  have "map fst ((hp_windows h)[w := (fst (hp_windows h ! w), s)]) = map fst (hp_windows h)"
    by (metis fst_conv list_update_beyond list_update_id map_update not_less)
  then show ?thesis by (simp add: heap_refs_def set_window_def)
qed

lemma drop_step_decreases:
  assumes "drop_step item h = (new, h')"
  shows "heap_refs h' < heap_refs h \<or> new = [] \<and> h' = h"
  using assms
  by (auto simp: drop_step_def Let_def heap_refs_set_strong heap_refs_set_window_strong
      split: drop_item.splits nat.splits if_splits kernel_object.splits prod.splits)

function drop_refs :: "drop_item list \<Rightarrow> kernel_heap \<Rightarrow> kernel_heap" where
  "drop_refs [] h = h"
| "drop_refs (item # rest) h = (case drop_step item h of (new, h') \<Rightarrow> drop_refs (new @ rest) h')"
  by pat_completeness auto
termination
proof (relation "inv_image (less_than <*lex*> less_than) (\<lambda>(items, h). (heap_refs h, length items))")
  fix item rest h new h'
  assume "(new, h') = drop_step item h"
  then show "((new @ rest, h'), item # rest, h)
      \<in> inv_image (less_than <*lex*> less_than) (\<lambda>(items, h). (heap_refs h, length items))"
    using drop_step_decreases [of item h new h'] by auto
qed auto

section \<open>References held by the heap itself\<close>

definition channel_refs :: "channel_state \<Rightarrow> oid multiset" where
  "channel_refs s = mset (message_objects (ch_queues s Side0)) + mset (message_objects (ch_queues s Side1))"

definition queue_refs :: "kernel_heap \<Rightarrow> oid multiset" where
  "queue_refs h = sum_list (map channel_refs (hp_channels h))"

definition window_ref :: "nat \<times> window_state \<Rightarrow> oid multiset" where
  "window_ref p = (if fst p > 0 then {#wn_shared_memory (snd p)#} else {#})"

definition window_refs :: "kernel_heap \<Rightarrow> oid multiset" where
  "window_refs h = sum_list (map window_ref (hp_windows h))"

lemma message_objects_simps [simp]:
  "message_objects [] = []"
  "message_objects (m # ms) = map he_object (km_handles m) @ message_objects ms"
  "message_objects (ms @ ms') = message_objects ms @ message_objects ms'"
  by (simp_all add: message_objects_def)

lemma channel_refs_side:
  "channel_refs s = mset (message_objects (ch_queues s sd)) + mset (message_objects (ch_queues s (peer sd)))"
  by (cases sd) (simp_all add: channel_refs_def)

lemma queue_refs_set_channel:
  assumes "c < length (hp_channels h)"
  shows "queue_refs (set_channel c s evs h) + channel_refs (hp_channels h ! c) = queue_refs h + channel_refs s"
  using sum_list_update_add [OF assms, of channel_refs s] by (simp add: queue_refs_def set_channel_def)

section \<open>Access after an update\<close>

lemma set_strong_simps [simp]:
  "strong (set_strong k n h) j = (if j = k \<and> k < length (hp_objects h) then n else strong h j)"
  "object_at (set_strong k n h) j = object_at h j"
  "hp_channels (set_strong k n h) = hp_channels h" "hp_windows (set_strong k n h) = hp_windows h"
  "hp_memories (set_strong k n h) = hp_memories h" "hp_processes (set_strong k n h) = hp_processes h"
  "hp_requests (set_strong k n h) = hp_requests h" "hp_powers (set_strong k n h) = hp_powers h"
  "hp_authorities (set_strong k n h) = hp_authorities h" "hp_alive (set_strong k n h) = hp_alive h"
  "length (hp_objects (set_strong k n h)) = length (hp_objects h)"
  "queue_refs (set_strong k n h) = queue_refs h" "window_refs (set_strong k n h) = window_refs h"
  "window_strong (set_strong k n h) w = window_strong h w"
  by (auto simp: set_strong_def strong_def object_at_def queue_refs_def window_refs_def window_strong_def
      nth_list_update snd_update_same)

lemma set_channel_simps [simp]:
  "strong (set_channel c s evs h) k = strong h k" "object_at (set_channel c s evs h) k = object_at h k"
  "hp_objects (set_channel c s evs h) = hp_objects h" "hp_windows (set_channel c s evs h) = hp_windows h"
  "hp_memories (set_channel c s evs h) = hp_memories h" "hp_processes (set_channel c s evs h) = hp_processes h"
  "hp_requests (set_channel c s evs h) = hp_requests h" "hp_powers (set_channel c s evs h) = hp_powers h"
  "hp_authorities (set_channel c s evs h) = hp_authorities h" "hp_alive (set_channel c s evs h) = hp_alive h"
  "hp_channels (set_channel c s evs h) = (hp_channels h)[c := s]"
  "window_refs (set_channel c s evs h) = window_refs h"
  "window_strong (set_channel c s evs h) w = window_strong h w"
  by (auto simp: set_channel_def strong_def object_at_def window_refs_def window_strong_def)

lemma set_window_simps [simp]:
  "strong (set_window w s evs h) k = strong h k" "object_at (set_window w s evs h) k = object_at h k"
  "hp_objects (set_window w s evs h) = hp_objects h" "hp_channels (set_window w s evs h) = hp_channels h"
  "hp_memories (set_window w s evs h) = hp_memories h" "hp_processes (set_window w s evs h) = hp_processes h"
  "hp_requests (set_window w s evs h) = hp_requests h" "hp_powers (set_window w s evs h) = hp_powers h"
  "hp_authorities (set_window w s evs h) = hp_authorities h" "hp_alive (set_window w s evs h) = hp_alive h"
  "length (hp_windows (set_window w s evs h)) = length (hp_windows h)"
  "queue_refs (set_window w s evs h) = queue_refs h"
  "window_strong (set_window w s evs h) v = window_strong h v"
  "v < length (hp_windows h) \<Longrightarrow> snd (hp_windows (set_window w s evs h) ! v) = (if v = w then s else snd (hp_windows h ! v))"
  by (auto simp: set_window_def strong_def object_at_def queue_refs_def window_strong_def
      nth_list_update fst_update_same)

lemma set_window_strong_simps [simp]:
  "strong (set_window_strong w n h) k = strong h k" "object_at (set_window_strong w n h) k = object_at h k"
  "hp_objects (set_window_strong w n h) = hp_objects h" "hp_channels (set_window_strong w n h) = hp_channels h"
  "hp_memories (set_window_strong w n h) = hp_memories h" "hp_processes (set_window_strong w n h) = hp_processes h"
  "hp_requests (set_window_strong w n h) = hp_requests h" "hp_powers (set_window_strong w n h) = hp_powers h"
  "hp_authorities (set_window_strong w n h) = hp_authorities h" "hp_alive (set_window_strong w n h) = hp_alive h"
  "length (hp_windows (set_window_strong w n h)) = length (hp_windows h)"
  "queue_refs (set_window_strong w n h) = queue_refs h"
  "window_strong (set_window_strong w n h) v = (if v = w \<and> w < length (hp_windows h) then n else window_strong h v)"
  "v < length (hp_windows h) \<Longrightarrow> snd (hp_windows (set_window_strong w n h) ! v) = snd (hp_windows h ! v)"
  by (auto simp: set_window_strong_def strong_def object_at_def queue_refs_def window_strong_def
      nth_list_update snd_update_same)

section \<open>The heap invariant\<close>

fun is_endpoint :: "kernel_object \<Rightarrow> bool" where
  "is_endpoint (Channel _ _) = True"
| "is_endpoint (Window _ _) = True"
| "is_endpoint _ = False"

fun object_in_range :: "kernel_heap \<Rightarrow> kernel_object \<Rightarrow> bool" where
  "object_in_range h (Channel c _) \<longleftrightarrow> c < length (hp_channels h)"
| "object_in_range h (SharedMemory m) \<longleftrightarrow> m < length (hp_memories h)"
| "object_in_range h (Window w _) \<longleftrightarrow> w < length (hp_windows h)"
| "object_in_range h (Process p) \<longleftrightarrow> p < length (hp_processes h)"
| "object_in_range h (Request r) \<longleftrightarrow> r < length (hp_requests h)"
| "object_in_range h (SystemPower p) \<longleftrightarrow> p < length (hp_powers h)"
| "object_in_range h (SchedulingAuthority a) \<longleftrightarrow> a < length (hp_authorities h)"
| "object_in_range h _ \<longleftrightarrow> True"

definition window_open :: "window_state \<Rightarrow> window_role \<Rightarrow> bool" where
  "window_open s role = (case role of Client \<Rightarrow> wn_client_open s | Manager \<Rightarrow> wn_manager_open s)"

definition live :: "kernel_heap \<Rightarrow> kernel_object \<Rightarrow> bool" where
  "live h ob \<longleftrightarrow> (\<exists>k. strong h k > 0 \<and> object_at h k = ob)"

text \<open>
  \<open>X\<close> are the object references held outside the heap (handle tables, leases), \<open>W\<close> the
  window-state references held by wait registrations.
\<close>

definition counts_ok :: "oid multiset \<Rightarrow> nat multiset \<Rightarrow> kernel_heap \<Rightarrow> bool" where
  "counts_ok X W h \<longleftrightarrow>
     (\<forall>k. strong h k = count (X + queue_refs h + window_refs h) k) \<and>
     (\<forall>w < length (hp_windows h).
        window_strong h w = count W w + of_bool (window_open (snd (hp_windows h ! w)) Client) +
          of_bool (window_open (snd (hp_windows h ! w)) Manager)) \<and>
     set_mset W \<subseteq> {..<length (hp_windows h)}"

definition endpoints_ok :: "kernel_heap \<Rightarrow> bool" where
  "endpoints_ok h \<longleftrightarrow>
     (\<forall>k < length (hp_objects h). object_in_range h (object_at h k)) \<and>
     (\<forall>k < length (hp_objects h). \<forall>j < length (hp_objects h).
        is_endpoint (object_at h k) \<longrightarrow> object_at h j = object_at h k \<longrightarrow> j = k) \<and>
     (\<forall>c < length (hp_channels h). \<forall>sd. ch_open (hp_channels h ! c) sd \<longleftrightarrow> live h (Channel c sd)) \<and>
     (\<forall>w < length (hp_windows h). \<forall>role. window_open (snd (hp_windows h ! w)) role \<longleftrightarrow> live h (Window w role))"

definition states_ok :: "kernel_heap \<Rightarrow> bool" where
  "states_ok h \<longleftrightarrow>
     (\<forall>s \<in> set (hp_channels h). channel_wf s \<and> channel_quiet s) \<and>
     (\<forall>p \<in> set (hp_windows h). window_wf (snd p) \<and> window_quiet (snd p)) \<and>
     (\<forall>s \<in> set (hp_processes h). process_quiet s) \<and>
     (\<forall>s \<in> set (hp_requests h). request_quiet s)"

definition heap_ok :: "oid multiset \<Rightarrow> nat multiset \<Rightarrow> kernel_heap \<Rightarrow> bool" where
  "heap_ok X W h \<longleftrightarrow> counts_ok X W h \<and> endpoints_ok h \<and> states_ok h"

section \<open>Dropping keeps the invariant\<close>

fun item_object :: "drop_item \<Rightarrow> oid multiset" where
  "item_object (Drop_object k) = {#k#}"
| "item_object (Drop_window w) = {#}"

fun item_window :: "drop_item \<Rightarrow> nat multiset" where
  "item_window (Drop_object k) = {#}"
| "item_window (Drop_window w) = {#w#}"

definition item_objects :: "drop_item list \<Rightarrow> oid multiset" where
  "item_objects items = sum_list (map item_object items)"

definition item_windows :: "drop_item list \<Rightarrow> nat multiset" where
  "item_windows items = sum_list (map item_window items)"

lemma item_objects_simps [simp]:
  "item_objects [] = {#}" "item_objects (i # is') = item_object i + item_objects is'"
  "item_objects (is1 @ is2) = item_objects is1 + item_objects is2"
  "item_objects (map Drop_object ks) = mset ks"
  by (simp_all add: item_objects_def) (induction ks; simp)

lemma item_windows_simps [simp]:
  "item_windows [] = {#}" "item_windows (i # is') = item_window i + item_windows is'"
  "item_windows (is1 @ is2) = item_windows is1 + item_windows is2"
  "item_windows (map Drop_object ks) = {#}"
  by (simp_all add: item_windows_def) (induction ks; simp)

lemma live_decrement:
  assumes "strong h k = Suc n" "n > 0"
  shows "live (set_strong k n h) ob \<longleftrightarrow> live h ob"
proof -
  have "strong (set_strong k n h) j > 0 \<longleftrightarrow> strong h j > 0" for j using assms by simp
  then show ?thesis by (simp add: live_def del: set_strong_simps(1))
qed

lemma live_last:
  assumes "strong h k = Suc 0" "endpoints_ok h" "is_endpoint ob"
  shows "live (set_strong k 0 h) ob \<longleftrightarrow> live h ob \<and> ob \<noteq> object_at h k"
proof -
  have k: "k < length (hp_objects h)" using strong_pos [of h k] assms(1) by simp
  have "j = k" if "strong h j > 0" "object_at h j = object_at h k" "is_endpoint (object_at h k)" for j
    using assms(2) that k strong_pos [of h j] by (auto simp: endpoints_ok_def)
  moreover have "strong (set_strong k 0 h) j > 0 \<longleftrightarrow> strong h j > 0 \<and> j \<noteq> k" for j using k by simp
  ultimately show ?thesis using assms(3) unfolding live_def set_strong_simps(2) by metis
qed

lemma live_set_state [simp]:
  "live (set_channel c s evs h) ob = live h ob" "live (set_window w s' evs h) ob = live h ob"
  "live (set_window_strong w n h) ob = live h ob"
  by (simp_all add: live_def)

lemma object_in_range_set [simp]:
  "object_in_range (set_strong k n h) ob = object_in_range h ob"
  "object_in_range (set_channel c s evs h) ob = object_in_range h ob"
  "object_in_range (set_window w s' evs h) ob = object_in_range h ob"
  "object_in_range (set_window_strong w n h) ob = object_in_range h ob"
  by (cases ob; simp)+

lemma counts_release:
  assumes "counts_ok (X + {#k#}) W h" "strong h k = Suc n"
  shows "counts_ok X W (set_strong k n h)"
  using assms strong_pos [of h k] by (auto simp: counts_ok_def)

lemma endpoints_release:
  assumes "endpoints_ok h" "strong h k = Suc n" "n > 0 \<or> \<not> is_endpoint (object_at h k)"
  shows "endpoints_ok (set_strong k n h)"
proof -
  have "live (set_strong k n h) ob \<longleftrightarrow> live h ob" if "is_endpoint ob" for ob
  proof (cases n)
    case 0
    then show ?thesis using live_last [of h k ob] assms that by auto
  qed (use assms live_decrement in simp)
  then show ?thesis using assms(1) by (simp add: endpoints_ok_def)
qed

lemma states_release: "states_ok h \<Longrightarrow> states_ok (set_strong k n h)"
  by (simp add: states_ok_def)

lemma states_set_channel: "states_ok h \<Longrightarrow> channel_wf s \<Longrightarrow> channel_quiet s \<Longrightarrow> states_ok (set_channel c s evs h)"
  by (auto simp: states_ok_def dest: set_update_subset_insert [THEN subsetD])

lemma states_set_window: "states_ok h \<Longrightarrow> window_wf s \<Longrightarrow> window_quiet s \<Longrightarrow> states_ok (set_window w s evs h)"
  by (auto simp: states_ok_def set_window_def dest: set_update_subset_insert [THEN subsetD])

lemma states_set_window_strong:
  "states_ok h \<Longrightarrow> w < length (hp_windows h) \<Longrightarrow> states_ok (set_window_strong w n h)"
  by (auto simp: states_ok_def set_window_strong_def dest!: set_update_subset_insert [THEN subsetD])

lemma drop_channel_ok:
  assumes ok: "heap_ok (X + {#k#}) W h" and k: "strong h k = Suc 0" "object_at h k = Channel c sd"
    and d: "channel_endpoint_drop (hp_alive h) sd (hp_channels h ! c) = (ms, evs, s)"
  shows "heap_ok (X + mset (message_objects ms)) W (set_channel c s evs (set_strong k 0 h))"
proof -
  from ok have C: "counts_ok X W (set_strong k 0 h)" and E: "endpoints_ok h" and S: "states_ok h"
    using counts_release k(1) by (auto simp: heap_ok_def)
  have c: "c < length (hp_channels h)"
    using E k strong_pos [of h k] by (fastforce simp: endpoints_ok_def)
  note D = channel_endpoint_drop_spec [OF d]
  let ?h1 = "set_strong k 0 h" and ?h2 = "set_channel c s evs (set_strong k 0 h)"
  have "queue_refs ?h2 + channel_refs (hp_channels h ! c) = queue_refs h + channel_refs s"
    using queue_refs_set_channel [of c ?h1 s evs] c by simp
  moreover have "channel_refs (hp_channels h ! c) = channel_refs s + mset (message_objects ms)"
    by (simp add: channel_refs_side [where sd = sd] D)
  ultimately have "queue_refs h = queue_refs ?h2 + mset (message_objects ms)" by simp
  then have "counts_ok (X + mset (message_objects ms)) W ?h2"
    using C by (simp add: counts_ok_def)
  moreover have "endpoints_ok ?h2"
  proof -
    have "live ?h2 ob \<longleftrightarrow> live h ob \<and> ob \<noteq> Channel c sd" if "is_endpoint ob" for ob
      using live_last [OF k(1) E that] k(2) by simp
    then show ?thesis using E D(2) c by (auto simp: endpoints_ok_def nth_list_update)
  qed
  moreover have "channel_wf s" "channel_quiet s"
    using channel_endpoint_drop_wf [OF d] channel_endpoint_drop_quiet [OF d] S c by (auto simp: states_ok_def)
  then have "states_ok ?h2" using S by (intro states_set_channel states_release)
  ultimately show ?thesis by (simp add: heap_ok_def)
qed

lemma window_endpoint_drop_spec:
  assumes "window_endpoint_drop alive role s = (evs, s')"
  shows "window_open s' r \<longleftrightarrow> window_open s r \<and> r \<noteq> role" "wn_shared_memory s' = wn_shared_memory s"
  using notify_window_both_frame [OF assms [unfolded window_endpoint_drop_def]]
  by (cases r; cases role; auto simp: window_open_def)+

lemma window_refs_set_window:
  assumes "w < length (hp_windows h)" "wn_shared_memory s = wn_shared_memory (snd (hp_windows h ! w))"
  shows "window_refs (set_window w s evs h) = window_refs h"
  using sum_list_update_add [OF assms(1), of window_ref "(fst (hp_windows h ! w), s)"] assms(2)
  by (simp add: window_refs_def set_window_def window_ref_def split: if_splits)

lemma drop_window_endpoint_ok:
  assumes ok: "heap_ok (X + {#k#}) W h" and k: "strong h k = Suc 0" "object_at h k = Window w role"
    and d: "window_endpoint_drop (hp_alive h) role (snd (hp_windows h ! w)) = (evs, s)"
  shows "heap_ok X (W + {#w#}) (set_window w s evs (set_strong k 0 h))"
proof -
  from ok have C: "counts_ok X W (set_strong k 0 h)" and E: "endpoints_ok h" and S: "states_ok h"
    using counts_release k(1) by (auto simp: heap_ok_def)
  have w: "w < length (hp_windows h)"
    using E k strong_pos [of h k] by (fastforce simp: endpoints_ok_def)
  note D = window_endpoint_drop_spec [OF d]
  let ?h1 = "set_strong k 0 h" and ?h2 = "set_window w s evs (set_strong k 0 h)"
  have "live h (Window w role)" using k by (auto simp: live_def intro!: exI [of _ k])
  then have o: "window_open (snd (hp_windows h ! w)) role" using E w by (simp add: endpoints_ok_def)
  have "window_refs ?h2 = window_refs h"
    using window_refs_set_window [of w ?h1 s evs] w D(2) by simp
  moreover have "window_strong h w = count W w + of_bool (window_open (snd (hp_windows h ! w)) Client) +
      of_bool (window_open (snd (hp_windows h ! w)) Manager)"
    using C w by (simp add: counts_ok_def)
  then have "window_strong h w = Suc (count W w + of_bool (window_open s Client) + of_bool (window_open s Manager))"
    using o by (cases role) (simp_all add: D(1))
  ultimately have "counts_ok X (W + {#w#}) ?h2"
    using C w by (auto simp: counts_ok_def)
  moreover have "endpoints_ok ?h2"
  proof -
    have "live ?h2 ob \<longleftrightarrow> live h ob \<and> ob \<noteq> Window w role" if "is_endpoint ob" for ob
      using live_last [OF k(1) E that] k(2) by simp
    then show ?thesis using E D(1) w by (auto simp: endpoints_ok_def)
  qed
  moreover have "window_wf s" "window_quiet s"
    using window_endpoint_drop_wf [OF d] S w by (auto simp: states_ok_def)
  then have "states_ok ?h2" using S by (intro states_set_window states_release)
  ultimately show ?thesis by (simp add: heap_ok_def)
qed

lemma window_refs_last:
  assumes "w < length (hp_windows h)" "window_strong h w = Suc 0"
  shows "window_refs h = window_refs (set_window_strong w 0 h) + {#wn_shared_memory (snd (hp_windows h ! w))#}"
proof -
  have "fst (hp_windows h ! w) > 0" using assms by (simp add: window_strong_def)
  then show ?thesis
    using sum_list_update_add [OF assms(1), of window_ref "(0, snd (hp_windows h ! w))"]
    by (simp add: window_refs_def set_window_strong_def window_ref_def)
qed

lemma window_refs_more:
  assumes "w < length (hp_windows h)" "window_strong h w > 0" "n > 0"
  shows "window_refs (set_window_strong w n h) = window_refs h"
proof -
  have "fst (hp_windows h ! w) > 0" using assms by (simp add: window_strong_def)
  then show ?thesis
    using sum_list_update_add [OF assms(1), of window_ref "(n, snd (hp_windows h ! w))"] assms(3)
    by (simp add: window_refs_def set_window_strong_def window_ref_def)
qed

lemma drop_window_state_ok:
  assumes ok: "heap_ok X (W + {#w#}) h" and n: "window_strong h w = Suc n"
  shows "if n > 0 then heap_ok X W (set_window_strong w n h)
    else heap_ok (X + {#wn_shared_memory (snd (hp_windows h ! w))#}) W (set_window_strong w n h)"
proof -
  have w: "w < length (hp_windows h)" using window_strong_pos [of h w] n by simp
  have E: "endpoints_ok (set_window_strong w n h)" and S: "states_ok (set_window_strong w n h)"
    using ok w states_set_window_strong [of h w n] by (auto simp: heap_ok_def endpoints_ok_def)
  from ok have C: "counts_ok X (W + {#w#}) h" by (simp add: heap_ok_def)
  show ?thesis
  proof (cases "n > 0")
    case True
    then show ?thesis
      using C E S n w window_refs_more [of w h n] by (auto simp: heap_ok_def counts_ok_def)
  next
    case False
    then show ?thesis
      using C E S n w window_refs_last [of w h] by (auto simp: heap_ok_def counts_ok_def)
  qed
qed

lemma drop_object_ok:
  assumes ok: "heap_ok (X + {#k#}) W h" and d: "drop_step (Drop_object k) h = (new, h')"
  shows "heap_ok (X + item_objects new) (W + item_windows new) h'"
proof -
  have "strong h k \<noteq> 0" using ok by (auto simp: heap_ok_def counts_ok_def)
  then obtain n where n: "strong h k = Suc n" by (cases "strong h k") auto
  show ?thesis
  proof (cases "n > 0 \<or> \<not> is_endpoint (object_at h k)")
    case True
    then have "new = []" "h' = set_strong k n h"
      using d n by (auto simp: drop_step_def Let_def split: if_splits kernel_object.splits)
    then show ?thesis
      using ok True n counts_release [of X k W h n] endpoints_release [of h k n] states_release [of h k n]
      by (auto simp: heap_ok_def)
  next
    case False
    then have k: "strong h k = Suc 0" "n = 0" using n by auto
    from False consider (ch) c sd where "object_at h k = Channel c sd" | (win) w role where "object_at h k = Window w role"
      by (cases "object_at h k") auto
    then show ?thesis
    proof cases
      case ch
      obtain ms evs s where e: "channel_endpoint_drop (hp_alive h) sd (hp_channels h ! c) = (ms, evs, s)"
        by (rule prod_cases3)
      then show ?thesis
        using d n k ch drop_channel_ok [OF ok k(1) ch e] by (auto simp: drop_step_def Let_def)
    next
      case win
      obtain evs s where e: "window_endpoint_drop (hp_alive h) role (snd (hp_windows h ! w)) = (evs, s)" by fastforce
      then show ?thesis
        using d n k win drop_window_endpoint_ok [OF ok k(1) win e] by (auto simp: drop_step_def Let_def)
    qed
  qed
qed

lemma drop_step_ok:
  assumes "heap_ok (X + item_object item) (W + item_window item) h" "drop_step item h = (new, h')"
  shows "heap_ok (X + item_objects new) (W + item_windows new) h'"
proof (cases item)
  case (Drop_object k)
  then show ?thesis using assms drop_object_ok by simp
next
  case (Drop_window w)
  with assms have ok: "heap_ok X (W + {#w#}) h" by simp
  then have "window_strong h w \<noteq> 0" by (auto simp: heap_ok_def counts_ok_def)
  then obtain n where n: "window_strong h w = Suc n" by (cases "window_strong h w") auto
  show ?thesis
    using drop_window_state_ok [OF ok n] assms(2) n Drop_window
    by (auto simp: drop_step_def Let_def split: if_splits)
qed

lemma drop_refs_ok:
  assumes "heap_ok (X + item_objects items) (W + item_windows items) h"
  shows "heap_ok X W (drop_refs items h)"
  using assms
proof (induction items h rule: drop_refs.induct)
  case (2 item rest h)
  obtain new h' where d: "drop_step item h = (new, h')" by fastforce
  have "heap_ok ((X + item_objects rest) + item_object item) ((W + item_windows rest) + item_window item) h"
    using "2.prems" by (simp add: ac_simps)
  from drop_step_ok [OF this d] have "heap_ok (X + item_objects (new @ rest)) (W + item_windows (new @ rest)) h'"
    by (simp add: ac_simps)
  then show ?case using "2.IH" d by auto
qed simp

section \<open>Creating objects and taking references\<close>

lemma strong_in_range: "heap_ok X W h \<Longrightarrow> k \<in># X \<Longrightarrow> strong h k > 0"
  by (auto simp: heap_ok_def counts_ok_def)

lemma add_ref_ok:
  assumes "heap_ok X W h" "strong h k > 0"
  shows "heap_ok (X + {#k#}) W (add_ref k h)"
proof -
  have k: "k < length (hp_objects h)" using strong_pos [of h k] assms(2) by simp
  have "live (add_ref k h) ob \<longleftrightarrow> live h ob" for ob
  proof -
    have "strong (add_ref k h) j > 0 \<longleftrightarrow> strong h j > 0" for j using assms(2) by (auto simp: add_ref_def)
    then show ?thesis by (simp add: live_def add_ref_def del: set_strong_simps(1))
  qed
  then show ?thesis
    using assms(1) k by (auto simp: heap_ok_def counts_ok_def endpoints_ok_def states_ok_def add_ref_def)
qed

lemma add_ref_simps [simp]:
  "object_at (add_ref k h) j = object_at h j" "hp_channels (add_ref k h) = hp_channels h"
  "hp_windows (add_ref k h) = hp_windows h" "hp_alive (add_ref k h) = hp_alive h"
  "strong h j > 0 \<Longrightarrow> strong (add_ref k h) j > 0"
  by (auto simp: add_ref_def)

lemma add_refs_ok:
  assumes "heap_ok X W h" "\<forall>k \<in> set ks. strong h k > 0"
  shows "heap_ok (X + mset ks) W (add_refs ks h)"
  using assms
proof (induction ks arbitrary: h X)
  case (Cons k ks)
  then have "heap_ok (X + {#k#} + mset ks) W (add_refs ks (add_ref k h))"
    by (intro Cons.IH add_ref_ok) auto
  then show ?case by (simp add: add_refs_def)
qed (simp add: add_refs_def)

lemma add_refs_simps [simp]:
  "object_at (add_refs ks h) j = object_at h j" "hp_channels (add_refs ks h) = hp_channels h"
  "hp_windows (add_refs ks h) = hp_windows h" "hp_alive (add_refs ks h) = hp_alive h"
  by (induction ks arbitrary: h) (simp_all add: add_refs_def)

text \<open>A new object that is not an endpoint, referenced once from outside.\<close>

lemma new_object_ok:
  assumes "heap_ok X W h" "new_object ob h = (k, h')" "\<not> is_endpoint ob" "object_in_range h ob"
  shows "heap_ok (X + {#k#}) W h'"
proof -
  have k: "k = length (hp_objects h)" "h' = h\<lparr>hp_objects := hp_objects h @ [(1, ob)]\<rparr>"
    using assms(2) by (simp_all add: new_object_def)
  have s: "strong h' j = (if j = k then 1 else strong h j)" for j
    by (auto simp: k strong_def nth_append)
  have o: "object_at h' j = (if j = k then ob else object_at h j)" if "j \<le> k" for j
    using that by (auto simp: k object_at_def nth_append)
  have z: "strong h k = 0" by (simp add: strong_def k)
  have l: "live h' e \<longleftrightarrow> live h e" if "is_endpoint e" for e
  proof -
    have j: "strong h j > 0 \<Longrightarrow> j < k" for j using strong_pos [of h j] by (simp add: k)
    have "strong h' j > 0 \<and> object_at h' j = e \<longleftrightarrow> strong h j > 0 \<and> object_at h j = e" for j
      using that assms(3) j [of j] o [of j] z by (cases "j = k") (auto simp: s)
    then show ?thesis by (simp add: live_def)
  qed
  have "counts_ok (X + {#k#}) W h'"
    using assms(1) s z by (auto simp: heap_ok_def counts_ok_def queue_refs_def window_refs_def window_strong_def k(2))
  moreover have "object_in_range h' e = object_in_range h e" for e by (cases e) (simp_all add: k(2))
  then have "endpoints_ok h'"
    using assms l o by (auto simp: heap_ok_def endpoints_ok_def k less_Suc_eq)
  moreover have "states_ok h'" using assms(1) by (simp add: heap_ok_def states_ok_def k(2))
  ultimately show ?thesis by (simp add: heap_ok_def)
qed

section \<open>Creating endpoint pairs\<close>

definition push_objects :: "kernel_object list \<Rightarrow> kernel_heap \<Rightarrow> kernel_heap" where
  "push_objects obs h = h\<lparr>hp_objects := hp_objects h @ map (Pair 1) obs\<rparr>"

text \<open>
  \<^verbatim>\<open>new_channel_objects\<close>: two queues, two pools, the state and the two endpoint objects are
  allocated in this order; any failure releases what was allocated before.
\<close>

definition new_channel_objects :: "allocs \<Rightarrow> kernel_heap \<Rightarrow> (oid \<times> oid) ipc \<times> kernel_heap" where
  "new_channel_objects al h =
     (if \<not> list_all al [0..<7] then (Inl OutOfMemory, h)
      else
        let c = length (hp_channels h); k = length (hp_objects h)
        in (Inr (k, k + 1),
            push_objects [Channel c Side0, Channel c Side1] (h\<lparr>hp_channels := hp_channels h @ [channel_state_new]\<rparr>)))"

text \<open>
  The state and the two endpoint objects of a new window, over a reference to its memory object
  that the caller already owns.
\<close>

definition new_window_objects :: "allocs \<Rightarrow> window_state \<Rightarrow> kernel_heap \<Rightarrow> (oid \<times> oid) ipc \<times> kernel_heap" where
  "new_window_objects al s h =
     (if \<not> list_all al [0..<3] then (Inl OutOfMemory, h)
      else
        let w = length (hp_windows h); k = length (hp_objects h)
        in (Inr (k, k + 1),
            push_objects [Window w Client, Window w Manager] (h\<lparr>hp_windows := hp_windows h @ [(2, s)]\<rparr>)))"

lemma push_objects_simps [simp]:
  "hp_channels (push_objects obs h) = hp_channels h" "hp_windows (push_objects obs h) = hp_windows h"
  "hp_memories (push_objects obs h) = hp_memories h" "hp_processes (push_objects obs h) = hp_processes h"
  "hp_requests (push_objects obs h) = hp_requests h" "hp_powers (push_objects obs h) = hp_powers h"
  "hp_authorities (push_objects obs h) = hp_authorities h" "hp_alive (push_objects obs h) = hp_alive h"
  "queue_refs (push_objects obs h) = queue_refs h" "window_refs (push_objects obs h) = window_refs h"
  "window_strong (push_objects obs h) w = window_strong h w"
  "length (hp_objects (push_objects obs h)) = length (hp_objects h) + length obs"
  by (simp_all add: push_objects_def queue_refs_def window_refs_def window_strong_def)

lemma push_objects_strong:
  "strong (push_objects obs h) j =
     strong h j + count (mset [length (hp_objects h)..<length (hp_objects h) + length obs]) j"
proof -
  have "count (mset [a..<b]) j = of_bool (a \<le> j \<and> j < b)" for a b
    using distinct_count_atmost_1 [THEN iffD1, OF distinct_upt, of a b] by simp
  then show ?thesis by (auto simp: strong_def push_objects_def nth_append)
qed

lemma push_objects_at:
  "j < length (hp_objects h) \<Longrightarrow> object_at (push_objects obs h) j = object_at h j"
  "i < length obs \<Longrightarrow> object_at (push_objects obs h) (length (hp_objects h) + i) = obs ! i"
  by (simp_all add: object_at_def push_objects_def nth_append)

lemma push_objects_live: "live (push_objects obs h) e \<longleftrightarrow> live h e \<or> e \<in> set obs"
proof -
  let ?n = "length (hp_objects h)" and ?h = "push_objects obs h"
  have old: "strong ?h j > 0 \<and> object_at ?h j = e \<longleftrightarrow> strong h j > 0 \<and> object_at h j = e" if "j < ?n" for j
    using that by (simp add: push_objects_strong push_objects_at)
  have new: "strong ?h (?n + i) > 0 \<longleftrightarrow> i < length obs" for i
    by (auto simp: strong_def push_objects_def nth_append)
  have out: "strong h j > 0 \<Longrightarrow> j < ?n" for j using strong_pos [of h j] by simp
  show ?thesis
  proof
    assume "live ?h e"
    then obtain j where j: "strong ?h j > 0" "object_at ?h j = e" by (auto simp: live_def)
    show "live h e \<or> e \<in> set obs"
    proof (cases "j < ?n")
      case True
      then show ?thesis using j old [of j] by (auto simp: live_def)
    next
      case False
      then obtain i where "j = ?n + i" using le_Suc_ex not_less by blast
      then show ?thesis using j new [of i] push_objects_at(2) [of i obs h] by auto
    qed
  next
    assume "live h e \<or> e \<in> set obs"
    then show "live ?h e"
    proof
      assume "live h e"
      then show ?thesis using old out unfolding live_def by blast
    next
      assume "e \<in> set obs"
      then obtain i where "i < length obs" "obs ! i = e" by (auto simp: in_set_conv_nth)
      then show ?thesis using new [of i] push_objects_at(2) [of i obs h] unfolding live_def by blast
    qed
  qed
qed

lemma push_objects_unique:
  assumes "\<forall>k < length (hp_objects h). \<forall>j < length (hp_objects h).
      is_endpoint (object_at h k) \<longrightarrow> object_at h j = object_at h k \<longrightarrow> j = k"
    and "distinct obs" "\<forall>k < length (hp_objects h). object_at h k \<notin> set obs"
    and "k < length (hp_objects h) + length obs" "j < length (hp_objects h) + length obs"
    and "is_endpoint (object_at (push_objects obs h) k)"
    and "object_at (push_objects obs h) j = object_at (push_objects obs h) k"
  shows "j = k"
proof -
  let ?n = "length (hp_objects h)"
  have at: "object_at (push_objects obs h) i = obs ! (i - ?n)" if "?n \<le> i" "i < ?n + length obs" for i
    using push_objects_at(2) [of "i - ?n" obs h] that by simp
  have mem: "obs ! (i - ?n) \<in> set obs" if "?n \<le> i" "i < ?n + length obs" for i
    using that by (intro nth_mem) linarith
  show ?thesis
  proof (cases "k < ?n"; cases "j < ?n")
    assume "k < ?n" "j < ?n"
    then show ?thesis using assms(1,6,7) by (simp add: push_objects_at)
  next
    assume "k < ?n" "\<not> j < ?n"
    then show ?thesis using assms(3,5,7) at [of j] mem [of j] by (auto simp: push_objects_at)
  next
    assume "\<not> k < ?n" "j < ?n"
    then show ?thesis using assms(3,4,7) at [of k] mem [of k] by (auto simp: push_objects_at)
  next
    assume n: "\<not> k < ?n" "\<not> j < ?n"
    then have "obs ! (j - ?n) = obs ! (k - ?n)" using assms(4,5,7) at by simp
    moreover have "j - ?n < length obs" "k - ?n < length obs" using n assms(4,5) by linarith+
    ultimately have "j - ?n = k - ?n" using assms(2) by (simp add: nth_eq_iff_index_eq)
    then show ?thesis using n by linarith
  qed
qed

lemma push_endpoints_ok:
  assumes range: "\<forall>k < length (hp_objects g). object_in_range g (object_at g k)"
    and unique: "\<forall>k < length (hp_objects g). \<forall>j < length (hp_objects g).
      is_endpoint (object_at g k) \<longrightarrow> object_at g j = object_at g k \<longrightarrow> j = k"
    and obs: "distinct obs" "\<forall>ob \<in> set obs. object_in_range g ob"
    and fresh: "\<forall>k < length (hp_objects g). object_at g k \<notin> set obs"
    and chans: "\<forall>c < length (hp_channels g). \<forall>sd.
      ch_open (hp_channels g ! c) sd \<longleftrightarrow> live g (Channel c sd) \<or> Channel c sd \<in> set obs"
    and wins: "\<forall>w < length (hp_windows g). \<forall>role.
      window_open (snd (hp_windows g ! w)) role \<longleftrightarrow> live g (Window w role) \<or> Window w role \<in> set obs"
  shows "endpoints_ok (push_objects obs g)"
proof -
  let ?h = "push_objects obs g" and ?n = "length (hp_objects g)"
  have in_range: "object_in_range ?h ob = object_in_range g ob" for ob by (cases ob) simp_all
  have "object_in_range ?h (object_at ?h k)" if "k < ?n + length obs" for k
  proof (cases "k < ?n")
    case True
    then show ?thesis using range by (simp add: in_range push_objects_at)
  next
    case False
    then obtain i where "k = ?n + i" using le_Suc_ex [of ?n k] by auto
    then show ?thesis using that obs(2) by (simp add: in_range push_objects_at)
  qed
  moreover have "j = k" if "k < ?n + length obs" "j < ?n + length obs" "is_endpoint (object_at ?h k)"
      "object_at ?h j = object_at ?h k" for j k
    by (rule push_objects_unique [OF unique obs(1) fresh that])
  ultimately show ?thesis
    using chans wins by (simp add: endpoints_ok_def push_objects_live)
qed

lemma endpoints_fresh:
  assumes "endpoints_ok h" "k < length (hp_objects h)"
  shows "object_at h k \<noteq> Channel (length (hp_channels h)) sd" "object_at h k \<noteq> Window (length (hp_windows h)) role"
  using assms by (auto simp: endpoints_ok_def)

lemma live_fresh:
  assumes "endpoints_ok h"
  shows "\<not> live h (Channel (length (hp_channels h)) sd)" "\<not> live h (Window (length (hp_windows h)) role)"
  unfolding live_def using endpoints_fresh [OF assms] strong_pos [of h] by (metis less_numeral_extra(3))+

lemma upt_pair: "[n..<n + length [x, y]] = [n, n + 1]"
  by (simp add: upt_rec)

lemma new_channel_objects_ok:
  assumes ok: "heap_ok X W h" and n: "new_channel_objects al h = (r, h')"
  shows "case r of Inl e \<Rightarrow> h' = h | Inr (l, r) \<Rightarrow> heap_ok (X + {#l, r#}) W h'"
proof (cases r)
  case (Inr p)
  let ?c = "length (hp_channels h)" and ?k = "length (hp_objects h)"
  let ?obs = "[Channel ?c Side0, Channel ?c Side1]"
  let ?g = "h\<lparr>hp_channels := hp_channels h @ [channel_state_new]\<rparr>"
  from n Inr have p: "p = (?k, ?k + 1)" and h': "h' = push_objects ?obs ?g"
    by (auto simp: new_channel_objects_def Let_def split: if_splits)
  from ok have C: "counts_ok X W h" and E: "endpoints_ok h" and S: "states_ok h" by (simp_all add: heap_ok_def)
  have g: "strong ?g j = strong h j" "object_at ?g j = object_at h j" "queue_refs ?g = queue_refs h"
    "window_refs ?g = window_refs h" "window_strong ?g w = window_strong h w" "live ?g e = live h e" for j w e
    by (simp_all add: strong_def object_at_def queue_refs_def window_refs_def window_strong_def live_def
        channel_refs_def channel_state_new_def)
  have "counts_ok (X + {#?k, ?k + 1#}) W h'"
    using C by (simp add: counts_ok_def h' push_objects_strong upt_pair g ac_simps)
  moreover have "endpoints_ok h'"
    unfolding h'
  proof (rule push_endpoints_ok)
    have "object_in_range ?g ob" if "object_in_range h ob" for ob using that by (cases ob) auto
    then show "\<forall>k < length (hp_objects ?g). object_in_range ?g (object_at ?g k)"
      using E by (simp add: endpoints_ok_def g)
    show "\<forall>c < length (hp_channels ?g). \<forall>sd. ch_open (hp_channels ?g ! c) sd \<longleftrightarrow> live ?g (Channel c sd) \<or> Channel c sd \<in> set ?obs"
    proof (intro allI impI)
      fix c sd assume c: "c < length (hp_channels ?g)"
      show "ch_open (hp_channels ?g ! c) sd \<longleftrightarrow> live ?g (Channel c sd) \<or> Channel c sd \<in> set ?obs"
      proof (cases "c = ?c")
        case True
        then show ?thesis by (cases sd) (simp_all add: channel_state_new_def)
      next
        case False
        then show ?thesis using c E by (simp add: g nth_append endpoints_ok_def)
      qed
    qed
  qed (use E endpoints_fresh [OF E] in \<open>simp_all add: endpoints_ok_def g\<close>)
  moreover have "states_ok h'"
    using S by (auto simp: states_ok_def h' channel_state_new_wf)
  ultimately show ?thesis by (simp add: Inr p heap_ok_def)
qed (use n in \<open>auto simp: new_channel_objects_def Let_def split: if_splits\<close>)

lemma new_window_objects_ok:
  assumes ok: "heap_ok (X + {#wn_shared_memory s#}) W h" and n: "new_window_objects al s h = (Inr (cl, mg), h')"
    and s: "window_wf s" "window_quiet s" "wn_client_open s" "wn_manager_open s"
  shows "heap_ok (X + {#cl, mg#}) W h'"
proof -
  let ?w = "length (hp_windows h)" and ?k = "length (hp_objects h)"
  let ?obs = "[Window ?w Client, Window ?w Manager]"
  let ?g = "h\<lparr>hp_windows := hp_windows h @ [(2, s)]\<rparr>"
  from n have p: "cl = ?k" "mg = ?k + 1" and h': "h' = push_objects ?obs ?g"
    by (auto simp: new_window_objects_def Let_def split: if_splits)
  from ok have C: "counts_ok (X + {#wn_shared_memory s#}) W h" and E: "endpoints_ok h" and S: "states_ok h"
    by (simp_all add: heap_ok_def)
  have g: "strong ?g j = strong h j" "object_at ?g j = object_at h j" "queue_refs ?g = queue_refs h"
    "window_refs ?g = window_refs h + {#wn_shared_memory s#}" "live ?g e = live h e" for j e
    by (simp_all add: strong_def object_at_def queue_refs_def window_refs_def live_def window_ref_def)
  have ws: "window_strong ?g w = (if w = ?w then 2 else window_strong h w)" for w
    by (auto simp: window_strong_def nth_append)
  have "count W ?w = 0" using C by (auto simp: counts_ok_def count_eq_zero_iff)
  then have "counts_ok (X + {#?k, ?k + 1#}) W h'"
    using C s(3,4) by (auto simp: counts_ok_def h' push_objects_strong upt_pair g ws nth_append window_open_def less_Suc_eq)
  moreover have "endpoints_ok h'"
    unfolding h'
  proof (rule push_endpoints_ok)
    have "object_in_range ?g ob" if "object_in_range h ob" for ob using that by (cases ob) auto
    then show "\<forall>k < length (hp_objects ?g). object_in_range ?g (object_at ?g k)"
      using E by (simp add: endpoints_ok_def g)
    show "\<forall>w < length (hp_windows ?g). \<forall>role. window_open (snd (hp_windows ?g ! w)) role \<longleftrightarrow>
        live ?g (Window w role) \<or> Window w role \<in> set ?obs"
    proof (intro allI impI)
      fix w role assume w: "w < length (hp_windows ?g)"
      show "window_open (snd (hp_windows ?g ! w)) role \<longleftrightarrow> live ?g (Window w role) \<or> Window w role \<in> set ?obs"
      proof (cases "w = ?w")
        case True
        then show ?thesis using s by (cases role) (simp_all add: window_open_def)
      next
        case False
        then show ?thesis using w E by (simp add: g nth_append endpoints_ok_def)
      qed
    qed
  qed (use E endpoints_fresh [OF E] in \<open>simp_all add: endpoints_ok_def g\<close>)
  moreover have "states_ok h'"
    using S s by (auto simp: states_ok_def h')
  ultimately show ?thesis by (simp add: p heap_ok_def)
qed

lemma new_window_objects_Inl: "new_window_objects al s h = (Inl e, h') \<Longrightarrow> h' = h"
  by (auto simp: new_window_objects_def Let_def split: if_splits)

section \<open>Changing the state behind an endpoint\<close>

text \<open>
  Replacing a channel state by one with the same open flags keeps the invariant when the references
  it gives up or takes are moved to or from outside.
\<close>

lemma set_channel_ok:
  assumes ok: "heap_ok (X + A) W h" and c: "c < length (hp_channels h)"
    and s: "channel_wf s" "channel_quiet s" "ch_open s = ch_open (hp_channels h ! c)"
    and refs: "channel_refs s + B = channel_refs (hp_channels h ! c) + A"
  shows "heap_ok (X + B) W (set_channel c s evs h)"
proof -
  let ?h = "set_channel c s evs h"
  have "queue_refs ?h + B + channel_refs (hp_channels h ! c) = queue_refs h + A + channel_refs (hp_channels h ! c)"
    using queue_refs_set_channel [OF c, of s evs] refs by (metis (no_types) add.commute add.left_commute)
  then have "queue_refs ?h + B = queue_refs h + A" by simp
  then have "count A k + count (queue_refs h) k = count B k + count (queue_refs ?h) k" for k
    by (metis add.commute count_union)
  then have "counts_ok (X + B) W ?h" using ok by (simp add: heap_ok_def counts_ok_def)
  moreover have "endpoints_ok ?h"
    using ok c s(3) by (auto simp: heap_ok_def endpoints_ok_def nth_list_update)
  moreover have "states_ok ?h" using ok s by (auto simp: heap_ok_def intro: states_set_channel)
  ultimately show ?thesis by (simp add: heap_ok_def)
qed

lemma set_window_ok:
  assumes ok: "heap_ok X W h" and w: "w < length (hp_windows h)"
    and s: "window_wf s" "window_quiet s" "\<forall>role. window_open s role = window_open (snd (hp_windows h ! w)) role"
      "wn_shared_memory s = wn_shared_memory (snd (hp_windows h ! w))"
  shows "heap_ok X W (set_window w s evs h)"
  using ok s w window_refs_set_window [OF w s(4), of evs] states_set_window [of h s w evs]
  by (auto simp: heap_ok_def counts_ok_def endpoints_ok_def)

section \<open>Peer closure\<close>

lemma side_open_iff:
  assumes "heap_ok X W h" "c < length (hp_channels h)"
  shows "ch_open (hp_channels h ! c) sd \<longleftrightarrow>
    (\<exists>k. object_at h k = Channel c sd \<and> k \<in># X + queue_refs h + window_refs h)"
proof -
  have "ch_open (hp_channels h ! c) sd \<longleftrightarrow> live h (Channel c sd)"
    using assms by (simp add: heap_ok_def endpoints_ok_def)
  moreover have "strong h k > 0 \<longleftrightarrow> k \<in># X + queue_refs h + window_refs h" for k
    using assms(1) unfolding heap_ok_def counts_ok_def count_greater_zero_iff [symmetric] by simp
  ultimately show ?thesis unfolding live_def by blast
qed

end
