(* ===== verification/Channel_Calls.thy ===== *)
theory Channel_Calls
  imports Kernel_Heap
begin

text \<open>
  The operations of \<^verbatim>\<open>HandleTable\<close> that move references
  (\<^verbatim>\<open>crates/ginkgo-ipc/src/kernel.rs\<close>): closing, duplicating and transferring handles,
  creating channels, writing messages with attached handles after the cycle check, and reading
  them. A call takes the table and the heap and returns its result with both updated. Temporary
  \<^verbatim>\<open>Arc\<close> clones that a call drops again before it returns are not counted.
\<close>

type_synonym htable = "oid handle_table"

section \<open>Close, duplicate, transfer\<close>

definition handle_close :: "handle \<Rightarrow> htable \<Rightarrow> kernel_heap \<Rightarrow> unit ipc \<times> htable \<times> kernel_heap" where
  "handle_close hn t h =
     (case table_close hn t of
        (Inl e, t') \<Rightarrow> (Inl e, t', h)
      | (Inr en, t') \<Rightarrow> (Inr (), t', drop_refs [Drop_object (he_object en)] h))"

definition handle_duplicate ::
  "allocs \<Rightarrow> handle \<Rightarrow> rights \<Rightarrow> htable \<Rightarrow> kernel_heap \<Rightarrow> handle ipc \<times> htable \<times> kernel_heap" where
  "handle_duplicate al hn rights t h =
     (case table_duplicate al hn rights t of
        (Inl e, t') \<Rightarrow> (Inl e, t', h)
      | (Inr new, t') \<Rightarrow>
          (case table_entry t hn of
             Inl e \<Rightarrow> (Inl e, t', h)
           | Inr en \<Rightarrow> (Inr new, t', add_ref (he_object en) h)))"

text \<open>The objects a batch clones: those of its duplicate dispositions, in order.\<close>

definition prepared_duplicates :: "oid prepared_handle list \<Rightarrow> oid list" where
  "prepared_duplicates ps = concat (map (\<lambda>p. case p of Prep_Move _ _ \<Rightarrow> [] | Prep_Duplicate en \<Rightarrow> [he_object en]) ps)"

definition transfer_between ::
  "allocs \<Rightarrow> handle_operation_disposition list \<Rightarrow> htable \<Rightarrow> htable \<Rightarrow> kernel_heap
     \<Rightarrow> handle list ipc \<times> htable \<times> htable \<times> kernel_heap" where
  "transfer_between al ds src dst h =
     (case handle_transfer_batch_between al src dst ds of
        (Inl e, src', dst') \<Rightarrow> (Inl e, src', dst', h)
      | (Inr hs, src', dst') \<Rightarrow>
          (Inr hs, src', dst',
           add_refs (case prepare_handles src [] ds of Inl _ \<Rightarrow> [] | Inr ps \<Rightarrow> prepared_duplicates ps) h))"

text \<open>Dropping a whole table drops the entries of its slots in order.\<close>

definition table_objects :: "htable \<Rightarrow> oid list" where
  "table_objects t = concat (map (\<lambda>s. case hs_entry s of None \<Rightarrow> [] | Some en \<Rightarrow> [he_object en]) t)"

definition table_drop :: "htable \<Rightarrow> kernel_heap \<Rightarrow> kernel_heap" where
  "table_drop t h = drop_refs (map Drop_object (table_objects t)) h"

section \<open>Channel creation\<close>

definition CHANNEL_DEFAULT_RIGHTS :: rights where
  "CHANNEL_DEFAULT_RIGHTS = R_READ OR R_WRITE OR R_DUPLICATE OR R_TRANSFER OR R_WAIT"

definition channel_create :: "allocs \<Rightarrow> htable \<Rightarrow> kernel_heap \<Rightarrow> (handle \<times> handle) ipc \<times> htable \<times> kernel_heap" where
  "channel_create al t h =
     (case reserve_slots al 2 t of
        (Inl e, t1) \<Rightarrow> (Inl e, t1, h)
      | (Inr slots, t1) \<Rightarrow>
          (case new_channel_objects (alloc_skip 2 al) h of
             (Inl e, h1) \<Rightarrow> (Inl e, t1, h1)
           | (Inr (l, r), h1) \<Rightarrow>
               (case insert_reserved (slots ! 0) l CHANNEL_DEFAULT_RIGHTS t1 of
                  (left, t2) \<Rightarrow>
                    (case insert_reserved (slots ! 1) r CHANNEL_DEFAULT_RIGHTS t2 of
                       (right, t3) \<Rightarrow> (Inr (left, right), t3, h1)))))"

definition channel_create_between ::
  "allocs \<Rightarrow> htable \<Rightarrow> htable \<Rightarrow> kernel_heap \<Rightarrow> (handle \<times> handle) ipc \<times> htable \<times> htable \<times> kernel_heap" where
  "channel_create_between al lt rt h =
     (case reserve_slots al 1 lt of
        (Inl e, lt1) \<Rightarrow> (Inl e, lt1, rt, h)
      | (Inr ls, lt1) \<Rightarrow>
          (case reserve_slots (alloc_skip 2 al) 1 rt of
             (Inl e, rt1) \<Rightarrow> (Inl e, lt1, rt1, h)
           | (Inr rs, rt1) \<Rightarrow>
               (case new_channel_objects (alloc_skip 4 al) h of
                  (Inl e, h1) \<Rightarrow> (Inl e, lt1, rt1, h1)
                | (Inr (l, r), h1) \<Rightarrow>
                    (case insert_reserved (ls ! 0) l CHANNEL_DEFAULT_RIGHTS lt1 of
                       (left, lt2) \<Rightarrow>
                         (case insert_reserved (rs ! 0) r CHANNEL_DEFAULT_RIGHTS rt1 of
                            (right, rt2) \<Rightarrow> (Inr (left, right), lt2, rt2, h1))))))"

definition channel_endpoint :: "kernel_heap \<Rightarrow> oid \<Rightarrow> (nat \<times> side) ipc" where
  "channel_endpoint h k = (case object_at h k of Channel c sd \<Rightarrow> Inr (c, sd) | _ \<Rightarrow> Inl WrongObjectType)"

section \<open>Cycle detection\<close>

text \<open>The channels whose endpoints are queued in a channel, in the order of the scan.\<close>

definition channel_targets :: "kernel_heap \<Rightarrow> oid list \<Rightarrow> nat list" where
  "channel_targets h ks = concat (map (\<lambda>k. case object_at h k of Channel c _ \<Rightarrow> [c] | _ \<Rightarrow> []) ks)"

definition outgoing :: "kernel_heap \<Rightarrow> nat \<Rightarrow> nat list" where
  "outgoing h c =
     (case vec_get (hp_channels h) c of
        None \<Rightarrow> []
      | Some s \<Rightarrow> channel_targets h (message_objects (ch_queues s Side0) @ message_objects (ch_queues s Side1)))"

text \<open>
  The \<^verbatim>\<open>while let\<close> loop of \<^verbatim>\<open>object_reaches_channel\<close>; \<open>pending\<close> is the stack with its top
  first. One allocation may grow \<open>visited\<close>, one each outgoing reference and one the stack; the
  allocations left are returned with the answer.
\<close>

function reach_loop ::
  "kernel_heap \<Rightarrow> nat \<Rightarrow> allocs \<Rightarrow> nat list \<Rightarrow> nat list \<Rightarrow> (bool \<times> nat list \<times> allocs) ipc" where
  "reach_loop h dest al [] visited = Inr (False, visited, al)"
| "reach_loop h dest al (candidate # pending) visited =
     (if candidate = dest then Inr (True, visited, al)
      else if candidate \<in> set visited then reach_loop h dest al pending visited
      else if \<not> al 0 then Inl OutOfMemory
      else
        let out = outgoing h candidate
        in if \<not> list_all al [1..<length out + 1] then Inl OutOfMemory
           else if out = [] then reach_loop h dest (alloc_skip 1 al) pending (visited @ [candidate])
           else if \<not> al (length out + 1) then Inl OutOfMemory
           else reach_loop h dest (alloc_skip (length out + 2) al) (rev out @ pending) (visited @ [candidate]))"
  by pat_completeness auto
termination
proof (relation "inv_image (less_than <*lex*> less_than)
    (\<lambda>(h, dest, al, pending, visited). (card ({..<length (hp_channels h)} - set visited), length pending))")
  fix h dest al candidate pending visited out
  assume v: "candidate \<notin> set visited" and o: "out = outgoing h candidate"
  have sub: "{..<length (hp_channels h)} - set (visited @ [candidate]) \<subseteq> {..<length (hp_channels h)} - set visited"
    by auto
  have strict: "card ({..<length (hp_channels h)} - set (visited @ [candidate])) < card ({..<length (hp_channels h)} - set visited)"
    if "candidate < length (hp_channels h)"
    by (rule psubset_card_mono) (use that v in auto)
  have le: "card ({..<length (hp_channels h)} - set (visited @ [candidate])) \<le> card ({..<length (hp_channels h)} - set visited)"
    by (rule card_mono [OF _ sub]) simp
  show "((h, dest, alloc_skip 1 al, pending, visited @ [candidate]), h, dest, al, candidate # pending, visited)
      \<in> inv_image (less_than <*lex*> less_than)
        (\<lambda>(h, dest, al, pending, visited). (card ({..<length (hp_channels h)} - set visited), length pending))"
    using le by (simp add: le_less)
  assume "out \<noteq> []"
  then have "candidate < length (hp_channels h)"
    by (auto simp: o outgoing_def split: option.splits)
  then show "((h, dest, alloc_skip (length out + 2) al, rev out @ pending, visited @ [candidate]), h, dest, al,
      candidate # pending, visited)
      \<in> inv_image (less_than <*lex*> less_than)
        (\<lambda>(h, dest, al, pending, visited). (card ({..<length (hp_channels h)} - set visited), length pending))"
    using strict by simp
qed auto

definition object_reaches_channel ::
  "kernel_heap \<Rightarrow> oid \<Rightarrow> nat \<Rightarrow> allocs \<Rightarrow> nat list \<Rightarrow> (bool \<times> nat list \<times> allocs) ipc" where
  "object_reaches_channel h k dest al visited =
     (case object_at h k of
        Channel c _ \<Rightarrow>
          if \<not> al 0 then Inl OutOfMemory else reach_loop h dest (alloc_skip 1 al) [c] visited
      | _ \<Rightarrow> Inr (False, visited, al))"

text \<open>The loop over the prepared handles; the visited set is shared between them.\<close>

fun any_reaches :: "kernel_heap \<Rightarrow> nat \<Rightarrow> allocs \<Rightarrow> nat list \<Rightarrow> oid list \<Rightarrow> bool ipc" where
  "any_reaches h dest al visited [] = Inr False"
| "any_reaches h dest al visited (k # ks) =
     (case object_reaches_channel h k dest al visited of
        Inl e \<Rightarrow> Inl e
      | Inr (True, _) \<Rightarrow> Inr True
      | Inr (False, visited', al') \<Rightarrow> any_reaches h dest al' visited' ks)"

section \<open>Writing\<close>

definition channel_write_bytes ::
  "allocs \<Rightarrow> handle \<Rightarrow> u8 list \<Rightarrow> htable \<Rightarrow> kernel_heap \<Rightarrow> unit ipc \<times> kernel_heap" where
  "channel_write_bytes al channel bytes t h =
     (if length bytes > CHANNEL_MAX_BYTES then (Inl MessageTooLarge, h)
      else
        (case object_with_rights t channel R_WRITE of
           Inl e \<Rightarrow> (Inl e, h)
         | Inr k \<Rightarrow>
             (case channel_endpoint h k of
                Inl e \<Rightarrow> (Inl e, h)
              | Inr (c, sd) \<Rightarrow>
                  (case channel_push_bytes al (hp_alive h) sd bytes (hp_channels h ! c) of
                     (r, evs, s) \<Rightarrow> (r, set_channel c s evs h)))))"

definition prepared_object :: "htable \<Rightarrow> oid prepared_handle \<Rightarrow> oid" where
  "prepared_object t p =
     (case p of
        Prep_Move index _ \<Rightarrow> he_object (the (hs_entry (t ! index)))
      | Prep_Duplicate en \<Rightarrow> he_object en)"

definition channel_write_with_handle_operations_impl ::
  "allocs \<Rightarrow> handle \<Rightarrow> u8 list \<Rightarrow> handle_operation_disposition list \<Rightarrow> htable \<Rightarrow> kernel_heap
     \<Rightarrow> unit ipc \<times> htable \<times> kernel_heap" where
  "channel_write_with_handle_operations_impl al channel bytes ds t h =
     (if length bytes > CHANNEL_MAX_BYTES \<or> length ds > CHANNEL_MAX_HANDLES then (Inl MessageTooLarge, t, h)
      else
        (case object_with_rights t channel R_WRITE of
           Inl e \<Rightarrow> (Inl e, t, h)
         | Inr k \<Rightarrow>
             (case channel_endpoint h k of
                Inl e \<Rightarrow> (Inl e, t, h)
              | Inr (c, sd) \<Rightarrow>
                  if \<not> try_vec_with_capacity al 0 (length ds) then (Inl OutOfMemory, t, h)
                  else
                    (case prepare_handles t [] ds of
                       Inl e \<Rightarrow> (Inl e, t, h)
                     | Inr prepared \<Rightarrow>
                         if \<not> try_vec_with_capacity al 1 (length bytes) then (Inl OutOfMemory, t, h)
                         else if \<not> try_vec_with_capacity al 2 (length ds) then (Inl OutOfMemory, t, h)
                         else
                           let s = hp_channels h ! c in
                           if \<not> ch_open s (peer sd) then (Inl PeerClosed, t, h)
                           else if length (ch_queues s (peer sd)) = CHANNEL_QUEUE_CAPACITY then (Inl ShouldWait, t, h)
                           else
                             (case any_reaches h c (alloc_skip 3 al) [] (map (prepared_object t) prepared) of
                                Inl e \<Rightarrow> (Inl e, t, h)
                              | Inr True \<Rightarrow> (Inl CyclicTransfer, t, h)
                              | Inr False \<Rightarrow>
                                  (case commit_handles prepared t of
                                     (entries, t') \<Rightarrow>
                                       (case channel_push_message (hp_alive h) sd
                                               \<lparr>km_bytes = bytes, km_handles = entries\<rparr> s of
                                          (evs, s') \<Rightarrow>
                                            (Inr (), t',
                                             set_channel c s' evs (add_refs (prepared_duplicates prepared) h)))))))))"

definition channel_write_with_handle_operations ::
  "allocs \<Rightarrow> handle \<Rightarrow> u8 list \<Rightarrow> handle_operation_disposition list \<Rightarrow> htable \<Rightarrow> kernel_heap
     \<Rightarrow> unit ipc \<times> htable \<times> kernel_heap" where
  "channel_write_with_handle_operations al channel bytes ds t h =
     (if ds = [] then (case channel_write_bytes al channel bytes t h of (r, h') \<Rightarrow> (r, t, h'))
      else channel_write_with_handle_operations_impl al channel bytes ds t h)"

definition move_handle :: "handle \<Rightarrow> rights \<Rightarrow> handle_operation_disposition" where
  "move_handle hn rights = \<lparr>hod_handle = hn, hod_operation = Move, hod_rights = rights\<rparr>"

definition channel_write_with_dispositions ::
  "allocs \<Rightarrow> handle \<Rightarrow> u8 list \<Rightarrow> (handle \<times> rights) list \<Rightarrow> htable \<Rightarrow> kernel_heap
     \<Rightarrow> unit ipc \<times> htable \<times> kernel_heap" where
  "channel_write_with_dispositions al channel bytes ds t h =
     (if length bytes > CHANNEL_MAX_BYTES \<or> length ds > CHANNEL_MAX_HANDLES then (Inl MessageTooLarge, t, h)
      else if ds = [] then (case channel_write_bytes al channel bytes t h of (r, h') \<Rightarrow> (r, t, h'))
      else if \<not> try_vec_with_capacity al 0 (length ds) then (Inl OutOfMemory, t, h)
      else channel_write_with_handle_operations (alloc_skip 1 al) channel bytes
             (map (\<lambda>(hn, rights). move_handle hn rights) ds) t h)"

text \<open>The dispositions of \<^verbatim>\<open>channel_write\<close>: each handle with its current rights.\<close>

fun current_dispositions :: "htable \<Rightarrow> handle list \<Rightarrow> (handle \<times> rights) list ipc" where
  "current_dispositions t [] = Inr []"
| "current_dispositions t (hn # hs) =
     (case handle_rights t hn of
        Inl e \<Rightarrow> Inl e
      | Inr r \<Rightarrow>
          (case current_dispositions t hs of
             Inl e \<Rightarrow> Inl e
           | Inr ds \<Rightarrow> Inr ((hn, r) # ds)))"

definition channel_write ::
  "allocs \<Rightarrow> handle \<Rightarrow> u8 list \<Rightarrow> handle list \<Rightarrow> htable \<Rightarrow> kernel_heap \<Rightarrow> unit ipc \<times> htable \<times> kernel_heap" where
  "channel_write al channel bytes handles t h =
     (if length bytes > CHANNEL_MAX_BYTES \<or> length handles > CHANNEL_MAX_HANDLES then (Inl MessageTooLarge, t, h)
      else if handles = [] then (case channel_write_bytes al channel bytes t h of (r, h') \<Rightarrow> (r, t, h'))
      else if \<not> try_vec_with_capacity al 0 (length handles) then (Inl OutOfMemory, t, h)
      else
        (case current_dispositions t handles of
           Inl e \<Rightarrow> (Inl e, t, h)
         | Inr ds \<Rightarrow> channel_write_with_dispositions (alloc_skip 1 al) channel bytes ds t h))"

section \<open>Reading\<close>

text \<open>The sizes of the caller's two output buffers stand for the buffers; what is written to them is returned.\<close>

definition channel_read ::
  "allocs \<Rightarrow> handle \<Rightarrow> nat \<Rightarrow> nat \<Rightarrow> htable \<Rightarrow> kernel_heap
     \<Rightarrow> (message_info \<times> u8 list \<times> handle list) ipc \<times> htable \<times> kernel_heap" where
  "channel_read al channel bytes_len handles_len t h =
     (case object_with_rights t channel R_READ of
        Inl e \<Rightarrow> (Inl e, t, h)
      | Inr k \<Rightarrow>
          (case channel_endpoint h k of
             Inl e \<Rightarrow> (Inl e, t, h)
           | Inr (c, sd) \<Rightarrow>
               let s = hp_channels h ! c in
               (case ch_queues s sd of
                  [] \<Rightarrow> (if ch_open s (peer sd) then (Inl ShouldWait, t, h) else (Inl PeerClosed, t, h))
                | message # _ \<Rightarrow>
                    let byte_count = length (km_bytes message);
                        handle_count = length (km_handles message);
                        info = MessageInfo_new byte_count handle_count
                    in if bytes_len < byte_count \<or> handles_len < handle_count then (Inl (BufferTooSmall info), t, h)
                       else
                         (case reserve_slots al handle_count t of
                            (Inl e, t1) \<Rightarrow> (Inl e, t1, h)
                          | (Inr slots, t1) \<Rightarrow>
                              (case channel_pop_message (hp_alive h) sd s of
                                 (popped, evs, s') \<Rightarrow>
                                   (case install_entries (zip (km_handles popped) slots) t1 of
                                      (handles, t2) \<Rightarrow>
                                        (Inr (info, km_bytes popped, handles), t2, set_channel c s' evs h)))))))"

section \<open>Correctness of the cycle check\<close>

text \<open>The graph: an edge from a channel to each channel with an endpoint queued in it.\<close>

definition channel_edges :: "kernel_heap \<Rightarrow> nat rel" where
  "channel_edges h = {(c, d). d \<in> set (outgoing h c)}"

lemma channel_edges_iff [simp]: "(c, d) \<in> channel_edges h \<longleftrightarrow> d \<in> set (outgoing h c)"
  by (simp add: channel_edges_def)

text \<open>
  A negative answer of the loop leaves a visited set that contains the stack, is closed under
  edges and misses the destination; a positive answer comes with a path.
\<close>

lemma reach_loop_False:
  "reach_loop h dest al pending visited = Inr (False, visited', al') \<Longrightarrow>
   dest \<notin> set visited \<Longrightarrow> (\<And>v. v \<in> set visited \<Longrightarrow> set (outgoing h v) \<subseteq> set visited \<union> set pending) \<Longrightarrow>
   dest \<notin> set visited' \<and> set visited \<subseteq> set visited' \<and> set pending \<subseteq> set visited' \<and>
   (\<forall>v \<in> set visited'. set (outgoing h v) \<subseteq> set visited')"
proof (induction h dest al pending visited arbitrary: visited' al' rule: reach_loop.induct)
  case (1 h dest al visited)
  then show ?case by auto
next
  case (2 h dest al candidate pending visited)
  let ?out = "outgoing h candidate"
  from "2.prems"(1) have ne: "candidate \<noteq> dest" by (auto split: if_splits)
  show ?case
  proof (cases "candidate \<in> set visited")
    case True
    then have r: "reach_loop h dest al pending visited = Inr (False, visited', al')"
      using "2.prems"(1) ne by simp
    have "set (outgoing h v) \<subseteq> set visited \<union> set pending" if "v \<in> set visited" for v
      using "2.prems"(3) [OF that] True by auto
    with "2.IH"(1) [OF ne True r "2.prems"(2)] True show ?thesis by auto
  next
    case False
    note prem = "2.prems"(1) [simplified, unfolded Let_def]
    from False ne prem have al: "al 0" "list_all al [1..<length ?out + 1]" by (auto split: if_splits)
    have closed: "set (outgoing h v) \<subseteq> set (visited @ [candidate]) \<union> set (rev ?out @ pending)"
      if "v \<in> set (visited @ [candidate])" for v
      using "2.prems"(3) [of v] that by auto
    have d: "dest \<notin> set (visited @ [candidate])" using "2.prems"(2) ne by simp
    show ?thesis
    proof (cases "?out = []")
      case True
      then have r: "reach_loop h dest (alloc_skip 1 al) pending (visited @ [candidate]) = Inr (False, visited', al')"
        using "2.prems"(1) False ne al by (simp add: Let_def)
      have "set (outgoing h v) \<subseteq> set (visited @ [candidate]) \<union> set pending" if "v \<in> set (visited @ [candidate])" for v
        using closed [OF that] True by simp
      from "2.IH"(2) [OF ne False _ refl _ True r d this] al show ?thesis by auto
    next
      case no: False
      then have r: "reach_loop h dest (alloc_skip (length ?out + 2) al) (rev ?out @ pending) (visited @ [candidate])
          = Inr (False, visited', al')" and a: "al (length ?out + 1)"
        using "2.prems"(1) False ne al by (auto simp: Let_def split: if_splits)
      from "2.IH"(3) [OF ne False _ refl _ no _ r d closed] al a show ?thesis by auto
    qed
  qed
qed

lemma reach_loop_True:
  "reach_loop h dest al pending visited = Inr (True, visited', al') \<Longrightarrow>
   \<exists>p \<in> set pending. (p, dest) \<in> (channel_edges h)\<^sup>*"
proof (induction h dest al pending visited arbitrary: visited' al' rule: reach_loop.induct)
  case (2 h dest al candidate pending visited)
  let ?out = "outgoing h candidate"
  show ?case
  proof (cases "candidate = dest")
    case ne: False
    show ?thesis
    proof (cases "candidate \<in> set visited")
      case True
      then show ?thesis using "2.IH"(1) [OF ne True] "2.prems" ne by auto
    next
      case False
      then have al: "al 0" "list_all al [1..<length ?out + 1]"
        using "2.prems" ne by (auto simp: Let_def split: if_splits)
      show ?thesis
      proof (cases "?out = []")
        case True
        then show ?thesis using "2.IH"(2) [OF ne False _ refl _ True] "2.prems" ne False al by (auto simp: Let_def)
      next
        case no: False
        then have r: "reach_loop h dest (alloc_skip (length ?out + 2) al) (rev ?out @ pending) (visited @ [candidate])
            = Inr (True, visited', al')" and a: "al (length ?out + 1)"
          using "2.prems" False ne al by (auto simp: Let_def split: if_splits)
        then obtain p where "p \<in> set ?out \<union> set pending" "(p, dest) \<in> (channel_edges h)\<^sup>*"
          using "2.IH"(3) [OF ne False _ refl _ no _ r] al by auto
        then show ?thesis
          by (auto intro: converse_rtrancl_into_rtrancl [of candidate p])
      qed
    qed
  qed auto
qed auto

text \<open>The visited set of an earlier negative search can be reused for the next handle.\<close>

definition searched :: "kernel_heap \<Rightarrow> nat \<Rightarrow> nat list \<Rightarrow> bool" where
  "searched h dest visited \<longleftrightarrow> dest \<notin> set visited \<and> (\<forall>v \<in> set visited. set (outgoing h v) \<subseteq> set visited)"

lemma searched_no_path:
  assumes "searched h dest visited" "c \<in> set visited"
  shows "(c, dest) \<notin> (channel_edges h)\<^sup>*"
proof
  assume "(c, dest) \<in> (channel_edges h)\<^sup>*"
  then have "dest \<in> set visited"
    using assms(2) by (induction rule: rtrancl_induct) (use assms(1) in \<open>auto simp: searched_def\<close>)
  with assms(1) show False by (simp add: searched_def)
qed

lemma object_reaches_channel_spec:
  assumes "object_reaches_channel h k dest al visited = Inr (b, visited', al')" "searched h dest visited"
  shows "b \<longleftrightarrow> (\<exists>c sd. object_at h k = Channel c sd \<and> (c, dest) \<in> (channel_edges h)\<^sup>*)"
    and "\<not> b \<Longrightarrow> searched h dest visited'"
proof -
  have "(b \<longleftrightarrow> (\<exists>c sd. object_at h k = Channel c sd \<and> (c, dest) \<in> (channel_edges h)\<^sup>*)) \<and> (\<not> b \<longrightarrow> searched h dest visited')"
  proof (cases "\<exists>c sd. object_at h k = Channel c sd")
    case True
    then obtain c sd where k: "object_at h k = Channel c sd" by blast
    with assms(1) have r: "reach_loop h dest (alloc_skip 1 al) [c] visited = Inr (b, visited', al')"
      by (auto simp: object_reaches_channel_def split: if_splits)
    show ?thesis
    proof (cases b)
      case True
      then show ?thesis using reach_loop_True [of h dest "alloc_skip 1 al" "[c]" visited visited' al'] r k by auto
    next
      case False
      from reach_loop_False [of h dest "alloc_skip 1 al" "[c]" visited visited' al'] r False assms(2)
      have "searched h dest visited'" "c \<in> set visited'" by (auto simp: searched_def)
      then show ?thesis using False k searched_no_path by auto
    qed
  next
    case False
    then show ?thesis using assms by (cases "object_at h k") (auto simp: object_reaches_channel_def)
  qed
  then show "b \<longleftrightarrow> (\<exists>c sd. object_at h k = Channel c sd \<and> (c, dest) \<in> (channel_edges h)\<^sup>*)"
    "\<not> b \<Longrightarrow> searched h dest visited'" by simp_all
qed

lemma any_reaches_spec:
  assumes "any_reaches h dest al visited ks = Inr b" "searched h dest visited"
  shows "b \<longleftrightarrow> (\<exists>k \<in> set ks. \<exists>c sd. object_at h k = Channel c sd \<and> (c, dest) \<in> (channel_edges h)\<^sup>*)"
  using assms
proof (induction h dest al visited ks rule: any_reaches.induct)
  case (2 h dest al visited k ks)
  from "2.prems"(1) obtain b1 v1 al1 where o: "object_reaches_channel h k dest al visited = Inr (b1, v1, al1)"
    by (auto split: sum.splits)
  note O = object_reaches_channel_spec [OF o "2.prems"(2)]
  show ?case
  proof (cases b1)
    case True
    then show ?thesis using O(1) o "2.prems"(1) by auto
  next
    case False
    then have "any_reaches h dest al1 v1 ks = Inr b" using o "2.prems"(1) by simp
    from "2.IH" [OF o refl _ refl this O(2) [OF False]] False
    have "b \<longleftrightarrow> (\<exists>k \<in> set ks. \<exists>c sd. object_at h k = Channel c sd \<and> (c, dest) \<in> (channel_edges h)\<^sup>*)"
      by simp
    moreover have "\<not> (\<exists>c sd. object_at h k = Channel c sd \<and> (c, dest) \<in> (channel_edges h)\<^sup>*)"
      using O(1) False by simp
    ultimately show ?thesis unfolding list.set by blast
  qed
qed simp

lemma any_reaches_fresh:
  assumes "any_reaches h dest al [] ks = Inr b"
  shows "b \<longleftrightarrow> (\<exists>k \<in> set ks. \<exists>c sd. object_at h k = Channel c sd \<and> (c, dest) \<in> (channel_edges h)\<^sup>*)"
  by (rule any_reaches_spec [OF assms]) (simp add: searched_def)

section \<open>Acyclic message graphs\<close>

lemma path_to_source:
  "(x, c) \<in> (r \<union> {c} \<times> D)\<^sup>* \<Longrightarrow> (x, c) \<in> r\<^sup>*"
  by (induction rule: converse_rtrancl_induct) (auto intro: converse_rtrancl_into_rtrancl)

lemma acyclic_add_source:
  assumes "acyclic r" "finite D" "\<forall>d \<in> D. (d, c) \<notin> r\<^sup>*"
  shows "acyclic (r \<union> {c} \<times> D)"
  using assms(2,3)
proof (induction D rule: finite_induct)
  case (insert d D)
  have "(d, c) \<notin> r\<^sup>*" using insert.prems by simp
  then have "(d, c) \<notin> (r \<union> {c} \<times> D)\<^sup>*" using path_to_source [of d c r D] by (rule contrapos_nn)
  moreover have "acyclic (r \<union> {c} \<times> D)" using insert.IH insert.prems by simp
  ultimately have "acyclic (insert (c, d) (r \<union> {c} \<times> D))" by (simp only: acyclic_insert simp_thms)
  then show ?case by (rule acyclic_subset) auto
qed (use assms(1) in simp)

lemma channel_targets_set: "set (channel_targets h ks) = {c. \<exists>k \<in> set ks. \<exists>sd. object_at h k = Channel c sd}"
proof (induction ks)
  case (Cons k ks)
  then show ?case by (cases "object_at h k") (auto simp: channel_targets_def)
qed (simp add: channel_targets_def)

lemma channel_targets_cong:
  "(\<And>k. k \<in> set ks \<Longrightarrow> object_at h k = object_at h' k) \<Longrightarrow> channel_targets h ks = channel_targets h' ks"
  by (simp add: channel_targets_def cong: map_cong)

lemma outgoing_set:
  "set (outgoing h c) = (if c < length (hp_channels h)
     then {d. \<exists>k \<in># channel_refs (hp_channels h ! c). \<exists>sd. object_at h k = Channel d sd} else {})"
  by (simp add: outgoing_def vec_get_def channel_targets_set channel_refs_def)

text \<open>Removing queued references removes edges; queueing references in one channel adds edges from it.\<close>

lemma acyclic_shrink:
  assumes "acyclic (channel_edges h)" "\<And>c. set (outgoing h' c) \<subseteq> set (outgoing h c)"
  shows "acyclic (channel_edges h')"
  using assms(1)
proof (rule acyclic_subset)
  show "channel_edges h' \<subseteq> channel_edges h" using assms(2) unfolding channel_edges_def by blast
qed

lemma acyclic_queue:
  assumes "acyclic (channel_edges h)" "c < length (hp_channels h)"
    and "hp_channels h' = (hp_channels h)[c := s]" "\<And>k. object_at h' k = object_at h k"
    and "channel_refs s = channel_refs (hp_channels h ! c) + mset ks"
    and "\<not> (\<exists>k \<in> set ks. \<exists>d sd. object_at h k = Channel d sd \<and> (d, c) \<in> (channel_edges h)\<^sup>*)"
  shows "acyclic (channel_edges h')"
proof -
  let ?D = "{d. \<exists>k \<in> set ks. \<exists>sd. object_at h k = Channel d sd}"
  have "finite ?D" by (metis List.finite_set channel_targets_set)
  moreover have "\<forall>d \<in> ?D. (d, c) \<notin> (channel_edges h)\<^sup>*" using assms(6) by blast
  ultimately have "acyclic (channel_edges h \<union> {c} \<times> ?D)" using assms(1) by (intro acyclic_add_source)
  moreover have "channel_edges h' \<subseteq> channel_edges h \<union> {c} \<times> ?D"
  proof (intro subrelI)
    fix a b assume "(a, b) \<in> channel_edges h'"
    then show "(a, b) \<in> channel_edges h \<union> {c} \<times> ?D"
      using assms(2-5) by (cases "a = c") (auto simp: outgoing_set split: if_splits)
  qed
  ultimately show ?thesis by (rule acyclic_subset)
qed

section \<open>References held by a table\<close>

definition slot_ref :: "oid handle_slot \<Rightarrow> oid multiset" where
  "slot_ref s = (case hs_entry s of None \<Rightarrow> {#} | Some en \<Rightarrow> {#he_object en#})"

definition table_refs :: "htable \<Rightarrow> oid multiset" where
  "table_refs t = sum_list (map slot_ref t)"

lemma table_refs_objects: "mset (table_objects t) = table_refs t"
  by (induction t) (auto simp: table_objects_def table_refs_def slot_ref_def split: option.splits)

lemma slot_ref_vacant [simp]: "slot_vacant s \<Longrightarrow> slot_ref s = {#}" "slot_ref vacant_slot = {#}"
  by (simp_all add: slot_vacant_def slot_ref_def vacant_slot_def)

lemma table_refs_take:
  assumes "i < length t" "hs_entry (t ! i) = Some en"
  shows "table_refs t = table_refs (take_entry i t) + {#he_object en#}"
proof -
  have "slot_ref (advance_generation ((t ! i)\<lparr>hs_entry := None\<rparr>)) = {#}"
    by (simp add: slot_ref_def advance_generation_def)
  then show ?thesis
    using sum_list_update_add [OF assms(1), of slot_ref "advance_generation ((t ! i)\<lparr>hs_entry := None\<rparr>)"] assms(2)
    by (simp add: table_refs_def take_entry_def slot_ref_def)
qed

lemma table_refs_insert:
  assumes "insert_reserved i ob r t = (hn, t')" "i < length t" "slot_vacant (t ! i)"
  shows "table_refs t' = table_refs t + {#ob#}"
  using sum_list_update_add [OF assms(2), of slot_ref "(t ! i)\<lparr>hs_entry := Some \<lparr>he_object = ob, he_rights = r\<rparr>\<rparr>"] assms
  by (auto simp: insert_reserved_def table_refs_def slot_ref_def slot_vacant_def)

lemma sum_list_replicate_empty [simp]: "sum_list (replicate n {#}) = {#}"
  by (induction n) simp_all

lemma table_refs_reserve:
  assumes "reserve_slots al n t = (r, t')"
  shows "table_refs t' = table_refs t"
  using assms by (auto simp: reserve_slots_def Let_def table_refs_def split: if_splits)

lemma table_refs_install:
  assumes "install_entries (zip ens js) t = (hs, t')" "distinct js" "length ens = length js"
    and "\<forall>j \<in> set js. j < length t \<and> slot_vacant (t ! j)"
  shows "table_refs t' = table_refs t + mset (map he_object ens)"
  using assms(3,1,2,4)
proof (induction ens js arbitrary: t hs rule: list_induct2)
  case (Cons en ens j js)
  obtain hn t1 where i: "insert_reserved j (he_object en) (he_rights en) t = (hn, t1)" by fastforce
  then obtain hs1 where r: "install_entries (zip ens js) t1 = (hs1, t')"
    using Cons.prems(1) by (auto split: prod.splits)
  have "\<forall>k \<in> set js. k < length t1 \<and> slot_vacant (t1 ! k)"
    using insert_reserved_vacant [OF i] Cons.prems(2,3) by (metis distinct.simps(2) list.set_intros(2))
  from Cons.IH [OF r _ this] Cons.prems(2) table_refs_insert [OF i] Cons.prems(3)
  show ?case by simp
qed simp

text \<open>A commit moves references out of the table and adds those of the duplicates.\<close>

lemma table_refs_commit:
  assumes "prepare_handles src prior ds = Inr ps" "commit_handles ps t = (ens, t')"
    and "length t = length src"
    and "\<And>hn i g. hn \<notin> set prior \<Longrightarrow> validated_slot src hn = Inr (i, g) \<Longrightarrow> t ! i = src ! i"
  shows "table_refs t' + mset (map he_object ens) = table_refs t + mset (prepared_duplicates ps)"
  using assms
proof (induction ds arbitrary: prior ps t ens t')
  case Nil
  then show ?case by (auto simp: prepared_duplicates_def)
next
  case (Cons d ds)
  from Cons.prems(1) obtain p qs where p: "prepare_handle src prior d = Inr p"
    and qs: "prepare_handles src (prior @ [hod_handle d]) ds = Inr qs" and ps: "ps = p # qs"
    by (auto split: sum.splits)
  obtain i g en where P: "hod_handle d \<notin> set prior" "validated_slot src (hod_handle d) = Inr (i, g)"
    "hs_entry (src ! i) = Some en"
    "p = (case hod_operation d of Move \<Rightarrow> Prep_Move i (hod_rights d)
            | Duplicate \<Rightarrow> Prep_Duplicate (en\<lparr>he_rights := hod_rights d\<rparr>))"
    using p by (rule prepare_handle_Inr)
  have ti: "t ! i = src ! i" "i < length t"
    using Cons.prems(3,4) P(1,2) by (auto simp: validated_slot_Inr)
  obtain e1 t1 where c1: "commit_handle p t = (e1, t1)" by fastforce
  obtain es where c2: "commit_handles qs t1 = (es, t')" and ens: "ens = e1 # es"
    using Cons.prems(2) ps c1 by (auto split: prod.splits)
  have t1: "t1 = (if hod_operation d = Move then take_entry i t else t)" and e1: "he_object e1 = he_object en"
    using c1 P(3,4) ti by (auto simp: commit_handle_def split: handle_operation.splits)
  have "t1 ! j = src ! j" if "hn \<notin> set (prior @ [hod_handle d])" "validated_slot src hn = Inr (j, g')" for hn j g'
  proof -
    have "j \<noteq> i" using that P(2) by (auto simp: validated_slot_Inr dest: handle_eqI)
    then show ?thesis using Cons.prems(4) [of hn j g'] that by (auto simp: t1 take_entry_def)
  qed
  then have "table_refs t' + mset (map he_object es) = table_refs t1 + mset (prepared_duplicates qs)"
    using Cons.prems(3) by (intro Cons.IH [OF qs c2]) (auto simp: t1 take_entry_def)
  then show ?case
    using P(4) table_refs_take [of i t en] ti P(3)
    by (auto simp: ens e1 t1 ps prepared_duplicates_def split: handle_operation.splits)
qed

lemma prepared_objects_entries:
  assumes "prepare_handles src prior ds = Inr ps" "commit_handles ps t = (ens, t')"
    and "length t = length src"
    and "\<And>hn i g. hn \<notin> set prior \<Longrightarrow> validated_slot src hn = Inr (i, g) \<Longrightarrow> t ! i = src ! i"
  shows "map he_object ens = map (prepared_object src) ps \<and> set (prepared_duplicates ps) \<subseteq> set_mset (table_refs src)"
  using assms
proof (induction ds arbitrary: prior ps t ens t')
  case Nil
  then show ?case by (auto simp: prepared_duplicates_def)
next
  case (Cons d ds)
  from Cons.prems(1) obtain p qs where p: "prepare_handle src prior d = Inr p"
    and qs: "prepare_handles src (prior @ [hod_handle d]) ds = Inr qs" and ps: "ps = p # qs"
    by (auto split: sum.splits)
  obtain i g en where P: "hod_handle d \<notin> set prior" "validated_slot src (hod_handle d) = Inr (i, g)"
    "hs_entry (src ! i) = Some en"
    "p = (case hod_operation d of Move \<Rightarrow> Prep_Move i (hod_rights d)
            | Duplicate \<Rightarrow> Prep_Duplicate (en\<lparr>he_rights := hod_rights d\<rparr>))"
    using p by (rule prepare_handle_Inr)
  have ti: "t ! i = src ! i" "i < length src"
    using Cons.prems(4) P(1,2) by (auto simp: validated_slot_Inr)
  obtain e1 t1 where c1: "commit_handle p t = (e1, t1)" by fastforce
  obtain es where c2: "commit_handles qs t1 = (es, t')" and ens: "ens = e1 # es"
    using Cons.prems(2) ps c1 by (auto split: prod.splits)
  have t1: "t1 = (if hod_operation d = Move then take_entry i t else t)" and e1: "he_object e1 = he_object en"
    using c1 P(3,4) ti by (auto simp: commit_handle_def split: handle_operation.splits)
  have "t1 ! j = src ! j" if "hn \<notin> set (prior @ [hod_handle d])" "validated_slot src hn = Inr (j, g')" for hn j g'
  proof -
    have "j \<noteq> i" using that P(2) by (auto simp: validated_slot_Inr dest: handle_eqI)
    then show ?thesis using Cons.prems(4) [of hn j g'] that by (auto simp: t1 take_entry_def)
  qed
  then have "map he_object es = map (prepared_object src) qs \<and> set (prepared_duplicates qs) \<subseteq> set_mset (table_refs src)"
    using Cons.prems(3) by (intro Cons.IH [OF qs c2]) (auto simp: t1 take_entry_def)
  moreover have "he_object en \<in># table_refs src"
    using table_refs_take [OF ti(2) P(3)] by simp
  ultimately show ?case
    using P(3,4) by (auto simp: ens e1 ps prepared_object_def prepared_duplicates_def split: handle_operation.splits)
qed

section \<open>The invariant of a table and the heap\<close>

text \<open>
  \<open>X\<close> are the references held elsewhere: by other tables and by leases. \<open>W\<close> are the window
  states pinned by wait registrations.
\<close>

definition ipc_ok :: "oid multiset \<Rightarrow> nat multiset \<Rightarrow> htable \<Rightarrow> kernel_heap \<Rightarrow> bool" where
  "ipc_ok X W t h \<longleftrightarrow> table_wf t \<and> heap_ok (X + table_refs t) W h \<and> acyclic (channel_edges h)"

lemma outgoing_set_channel:
  assumes "channel_refs s \<subseteq># channel_refs (hp_channels h ! c)"
    and "hp_channels h' = (hp_channels h)[c := s]" "\<And>k. object_at h' k = object_at h k"
  shows "set (outgoing h' d) \<subseteq> set (outgoing h d)"
  using assms mset_subset_eqD [OF assms(1)]
  by (cases "d = c") (auto simp: outgoing_set split: if_splits)

lemma outgoing_same:
  assumes "hp_channels h' = hp_channels h" "\<And>k. object_at h' k = object_at h k"
  shows "outgoing h' d = outgoing h d"
  by (simp add: outgoing_def assms channel_targets_def split: option.splits)

lemma drop_step_cases:
  assumes "drop_step item h = (new, h')"
  shows "hp_channels h' = hp_channels h \<and> (\<forall>k. object_at h' k = object_at h k) \<or>
    (\<exists>c sd ms evs s k. channel_endpoint_drop (hp_alive h) sd (hp_channels h ! c) = (ms, evs, s) \<and>
       h' = set_channel c s evs (set_strong k 0 h))"
proof (cases item)
  case (Drop_object k)
  show ?thesis
  proof (cases "strong h k")
    case (Suc n)
    show ?thesis
    proof (cases "n = 0 \<and> (\<exists>c sd. object_at h k = Channel c sd)")
      case True
      then obtain c sd where c: "object_at h k = Channel c sd" "n = 0" by blast
      obtain ms evs s where e: "channel_endpoint_drop (hp_alive h) sd (hp_channels h ! c) = (ms, evs, s)"
        by (rule prod_cases3)
      then have "h' = set_channel c s evs (set_strong k 0 h)"
        using assms Drop_object Suc c by (simp add: drop_step_def)
      then show ?thesis using e by blast
    next
      case False
      then show ?thesis
        using assms Drop_object Suc
        by (cases "n > 0"; cases "object_at h k") (auto simp: drop_step_def split: prod.splits)
    qed
  qed (use assms Drop_object in \<open>simp add: drop_step_def\<close>)
next
  case (Drop_window w)
  then show ?thesis using assms by (auto simp: drop_step_def Let_def split: nat.splits if_splits)
qed

lemma drop_step_outgoing:
  assumes "drop_step item h = (new, h')"
  shows "set (outgoing h' d) \<subseteq> set (outgoing h d)"
  using drop_step_cases [OF assms]
proof (elim disjE exE conjE)
  assume "hp_channels h' = hp_channels h" "\<forall>k. object_at h' k = object_at h k"
  then have "outgoing h' d = outgoing h d" by (intro outgoing_same) simp_all
  then show ?thesis by simp
next
  fix c sd ms evs s k
  assume e: "channel_endpoint_drop (hp_alive h) sd (hp_channels h ! c) = (ms, evs, s)"
    and h': "h' = set_channel c s evs (set_strong k 0 h)"
  show ?thesis
    by (rule outgoing_set_channel [where c = c and s = s])
      (simp_all add: h' channel_refs_side [where sd = sd] channel_endpoint_drop_spec [OF e])
qed

lemma drop_refs_outgoing: "set (outgoing (drop_refs items h) d) \<subseteq> set (outgoing h d)"
proof (induction items h rule: drop_refs.induct)
  case (2 item rest h)
  obtain new h' where s: "drop_step item h = (new, h')" by fastforce
  with "2.IH" drop_step_outgoing [OF s, of d] show ?case by auto
qed simp

lemma drop_refs_acyclic: "acyclic (channel_edges h) \<Longrightarrow> acyclic (channel_edges (drop_refs items h))"
  by (erule acyclic_shrink) (rule drop_refs_outgoing)

section \<open>Close, duplicate, transfer\<close>

lemma table_close_refs:
  assumes "table_close hn t = (Inr en, t')"
  shows "table_refs t = table_refs t' + {#he_object en#}"
  using assms table_refs_take
  by (fastforce simp: table_close_def validated_slot_Inr split: sum.splits prod.splits option.splits)

lemma table_close_Inl: "table_close hn t = (Inl e, t') \<Longrightarrow> t' = t"
  by (auto simp: table_close_def split: sum.splits option.splits)

lemma handle_close_ok:
  assumes "ipc_ok X W t h" "handle_close hn t h = (r, t', h')"
  shows "ipc_ok X W t' h'"
proof (cases "table_close hn t")
  case (Pair r0 t0)
  show ?thesis
  proof (cases r0)
    case (Inl e)
    then show ?thesis using assms Pair table_close_Inl by (auto simp: handle_close_def)
  next
    case (Inr en)
    then have c: "table_close hn t = (Inr en, t')" and h': "h' = drop_refs [Drop_object (he_object en)] h"
      using assms(2) Pair by (auto simp: handle_close_def)
    have "heap_ok (X + table_refs t' + item_objects [Drop_object (he_object en)]) (W + item_windows [Drop_object (he_object en)]) h"
      using assms(1) table_close_refs [OF c] by (simp add: ipc_ok_def ac_simps)
    from drop_refs_ok [OF this] show ?thesis
      using assms(1) table_close_spec(1) [OF c] by (simp add: ipc_ok_def h' drop_refs_acyclic del: drop_refs.simps)
  qed
qed

lemma table_drop_ok:
  assumes "ipc_ok X W t h"
  shows "heap_ok X W (table_drop t h)" "acyclic (channel_edges (table_drop t h))"
proof -
  have "heap_ok (X + item_objects (map Drop_object (table_objects t))) (W + item_windows (map Drop_object (table_objects t))) h"
    using assms by (simp add: ipc_ok_def table_refs_objects)
  from drop_refs_ok [OF this] show "heap_ok X W (table_drop t h)" by (simp add: table_drop_def)
  show "acyclic (channel_edges (table_drop t h))"
    using assms by (simp add: ipc_ok_def table_drop_def drop_refs_acyclic)
qed

lemma channel_edges_add_refs [simp]: "channel_edges (add_refs ks h) = channel_edges h"
  by (simp add: channel_edges_def outgoing_same [of "add_refs ks h" h])

lemma channel_edges_add_ref [simp]: "channel_edges (add_ref k h) = channel_edges h"
  by (simp add: channel_edges_def outgoing_same [of "add_ref k h" h])

lemma table_entry_ref: "table_entry t hn = Inr en \<Longrightarrow> he_object en \<in># table_refs t"
  using table_refs_take by (fastforce simp: table_entry_Inr)

lemma ipc_ok_strong: "ipc_ok X W t h \<Longrightarrow> k \<in># table_refs t \<Longrightarrow> strong h k > 0"
  by (auto simp: ipc_ok_def intro: strong_in_range)

lemma handle_duplicate_ok:
  assumes "ipc_ok X W t h" "handle_duplicate al hn r t h = (res, t', h')"
  shows "ipc_ok X W t' h'"
proof -
  have wf: "table_wf t" using assms(1) by (simp add: ipc_ok_def)
  obtain r0 t0 where d: "table_duplicate al hn r t = (r0, t0)" by fastforce
  show ?thesis
  proof (cases r0)
    case (Inl e)
    then have "t' = t0" "h' = h" using assms(2) d by (auto simp: handle_duplicate_def)
    moreover have "t0 = t"
      using d Inl by (auto simp: table_duplicate_def split: sum.splits if_splits prod.splits dest: reserve_slots_Inl)
    ultimately show ?thesis using assms(1) by (simp add: ipc_ok_def)
  next
    case (Inr hn')
    with d obtain en js t1 where e: "table_entry t hn = Inr en"
      and rs: "reserve_slots al 1 t = (Inr js, t1)"
      and i: "insert_reserved (hd js) (he_object en) r t1 = (hn', t0)"
      by (auto simp: table_duplicate_def split: sum.splits if_splits prod.splits)
    note R = reserve_slots_Inr [OF rs wf]
    have "hd js \<in> set js" using R(1) by (cases js) auto
    then have j: "hd js < length t1" "slot_vacant (t1 ! hd js)" using R(3) by auto
    have t': "t' = t0" "h' = add_ref (he_object en) h" using assms(2) d Inr e by (auto simp: handle_duplicate_def)
    have "table_refs t0 = table_refs t + {#he_object en#}"
      using table_refs_insert [OF i j] table_refs_reserve [OF rs] by simp
    moreover have "heap_ok (X + table_refs t + {#he_object en#}) W (add_ref (he_object en) h)"
      using assms(1) ipc_ok_strong [OF assms(1) table_entry_ref [OF e]] by (intro add_ref_ok) (simp_all add: ipc_ok_def)
    moreover have "table_wf t0" using table_duplicate_spec(1) d Inr wf by blast
    ultimately show ?thesis using assms(1) by (simp add: ipc_ok_def t' ac_simps)
  qed
qed

lemma transfer_between_ok:
  assumes "ipc_ok (X + table_refs dst) W src h" "table_wf dst"
    and "transfer_between al ds src dst h = (r, src', dst', h')"
  shows "ipc_ok (X + table_refs dst') W src' h' \<and> table_wf dst'"
proof -
  have wf: "table_wf src" and ok: "heap_ok (X + table_refs dst + table_refs src) W h" and ac: "acyclic (channel_edges h)"
    using assms(1) by (simp_all add: ipc_ok_def)
  obtain r0 s0 d0 where b: "handle_transfer_batch_between al src dst ds = (r0, s0, d0)" by (rule prod_cases3)
  show ?thesis
  proof (cases r0)
    case (Inl e)
    then have "s0 = src" "d0 = dst" using b transfer_batch_error [of al src dst ds e s0 d0] by simp_all
    then show ?thesis using assms b Inl by (auto simp: transfer_between_def)
  next
    case (Inr hs)
    with b obtain ps js dst1 ens where
      p: "prepare_handles src [] ds = Inr ps"
      and rs: "reserve_slots (alloc_skip 2 al) (length ds) dst = (Inr js, dst1)"
      and c: "commit_handles ps src = (ens, s0)"
      and i: "install_entries (zip ens js) dst1 = (hs, d0)"
      by (auto simp: handle_transfer_batch_between_def split: if_splits sum.splits prod.splits)
    note R = reserve_slots_Inr [OF rs assms(2)]
    note T = transfer_batch_success [OF b [unfolded Inr] wf assms(2)]
    have len: "length ens = length js"
      using commit_handles_spec [OF p c wf] R(1) by simp
    have out: "src' = s0" "dst' = d0" "h' = add_refs (prepared_duplicates ps) h"
      using assms(3) b Inr p by (auto simp: transfer_between_def)
    have "table_refs s0 + mset (map he_object ens) = table_refs src + mset (prepared_duplicates ps)"
      by (rule table_refs_commit [OF p c]) simp_all
    moreover have "table_refs d0 = table_refs dst + mset (map he_object ens)"
      using table_refs_install [OF i R(2) len R(3)] table_refs_reserve [OF rs] by simp
    ultimately have refs: "table_refs d0 + table_refs s0 = table_refs dst + table_refs src + mset (prepared_duplicates ps)"
      by (metis add.assoc add.commute)
    have "set (prepared_duplicates ps) \<subseteq> set_mset (table_refs src)"
      using prepared_objects_entries [OF p c] by simp
    then have "\<forall>k \<in> set (prepared_duplicates ps). strong h k > 0"
      using ipc_ok_strong [OF assms(1)] by blast
    then have "heap_ok (X + table_refs dst + table_refs src + mset (prepared_duplicates ps)) W (add_refs (prepared_duplicates ps) h)"
      by (rule add_refs_ok [OF ok])
    then have "heap_ok (X + table_refs d0 + table_refs s0) W (add_refs (prepared_duplicates ps) h)"
      using refs by (metis add.assoc)
    then show ?thesis using T(1,2) ac by (simp add: ipc_ok_def out)
  qed
qed

section \<open>Channel creation\<close>

lemma channel_refs_subset:
  assumes "c < length (hp_channels h)"
  shows "channel_refs (hp_channels h ! c) \<subseteq># queue_refs h"
proof -
  have "hp_channels h = take c (hp_channels h) @ hp_channels h ! c # drop (Suc c) (hp_channels h)"
    using assms by (rule id_take_nth_drop)
  then have "queue_refs h = sum_list (map channel_refs (take c (hp_channels h))) +
      (channel_refs (hp_channels h ! c) + sum_list (map channel_refs (drop (Suc c) (hp_channels h))))"
    unfolding queue_refs_def by (metis list.simps(9) map_append sum_list.Cons sum_list.append)
  then show ?thesis by simp
qed

lemma new_channel_objects_acyclic:
  assumes "heap_ok X W h" "new_channel_objects al h = (r, h')" "acyclic (channel_edges h)"
  shows "acyclic (channel_edges h')"
proof (cases r)
  case (Inr p)
  let ?c = "length (hp_channels h)"
  from assms(2) Inr have h': "hp_channels h' = hp_channels h @ [channel_state_new]"
    "\<And>k. k < length (hp_objects h) \<Longrightarrow> object_at h' k = object_at h k"
    by (auto simp: new_channel_objects_def Let_def push_objects_at split: if_splits)
      (simp add: object_at_def push_objects_def nth_append)
  have k: "k < length (hp_objects h)" if "k \<in># queue_refs h" for k
  proof -
    have "strong h k > 0" using assms(1) that unfolding heap_ok_def counts_ok_def by simp
    then show ?thesis using strong_pos [of h k] by simp
  qed
  have same: "object_at h' k = object_at h k" if "c < ?c" "k \<in># channel_refs (hp_channels h ! c)" for c k
    using that h'(2) k mset_subset_eqD [OF channel_refs_subset] by blast
  show ?thesis
  proof (rule acyclic_shrink [OF assms(3)])
    fix c
    show "set (outgoing h' c) \<subseteq> set (outgoing h c)"
    proof (cases "c < ?c")
      case True
      then show ?thesis using same [OF True] by (auto simp: outgoing_set h'(1) nth_append)
    next
      case False
      then show ?thesis by (auto simp: outgoing_set h'(1) nth_append channel_refs_def channel_state_new_def)
    qed
  qed
next
  case (Inl e)
  then have "h' = h" using assms(2) by (auto simp: new_channel_objects_def Let_def split: if_splits)
  then show ?thesis using assms(3) by simp
qed

text \<open>Binding an object whose reference the caller already owns to a reserved slot.\<close>

lemma insert_reserved_ok:
  assumes "insert_reserved j k r t = (hn, t')" "table_wf t" "j < length t" "slot_vacant (t ! j)"
    and "heap_ok (X + {#k#} + table_refs t) W h" "acyclic (channel_edges h)"
  shows "ipc_ok X W t' h"
proof -
  have "table_wf t'" using insert_reserved_wf [OF assms(2-4), of k r] assms(1) by simp
  then show ?thesis
    using table_refs_insert [OF assms(1,3,4)] assms(5,6) by (simp add: ipc_ok_def ac_simps)
qed

lemma reserve_slots_ok:
  assumes "reserve_slots al n t = (r, t')" "table_wf t"
  shows "table_wf t' \<and> table_refs t' = table_refs t"
  using assms reserve_slots_Inr(5) [of al n t _ t'] reserve_slots_Inl [of al n t _ t'] table_refs_reserve [of al n t r t']
  by (cases r) auto

lemma channel_create_ok:
  assumes "ipc_ok X W t h" "channel_create al t h = (r, t', h')"
  shows "ipc_ok X W t' h'"
proof -
  obtain r0 t1 where rs: "reserve_slots al 2 t = (r0, t1)" by fastforce
  have wf: "table_wf t" and ok: "heap_ok (X + table_refs t) W h" and ac: "acyclic (channel_edges h)"
    using assms(1) by (simp_all add: ipc_ok_def)
  note R = reserve_slots_ok [OF rs wf]
  show ?thesis
  proof (cases r0)
    case (Inl e)
    then show ?thesis using assms(2) rs R ok ac by (auto simp: channel_create_def ipc_ok_def)
  next
    case (Inr js)
    note S = reserve_slots_Inr [OF rs [unfolded Inr] wf]
    obtain r1 h1 where n: "new_channel_objects (alloc_skip 2 al) h = (r1, h1)" by fastforce
    note N = new_channel_objects_ok [OF ok n] new_channel_objects_acyclic [OF ok n ac]
    show ?thesis
    proof (cases r1)
      case (Inl e)
      then show ?thesis using assms(2) rs Inr n R N ok ac by (auto simp: channel_create_def ipc_ok_def)
    next
      case r1: (Inr p)
      obtain l r' where p: "p = (l, r')" by fastforce
      obtain hl t2 where i1: "insert_reserved (js ! 0) l CHANNEL_DEFAULT_RIGHTS t1 = (hl, t2)" by fastforce
      obtain hr t3 where i2: "insert_reserved (js ! 1) r' CHANNEL_DEFAULT_RIGHTS t2 = (hr, t3)" by fastforce
      have out: "t' = t3" "h' = h1" using assms(2) rs Inr n r1 p i1 i2 by (auto simp: channel_create_def)
      have js: "js ! 0 \<in> set js" "js ! 1 \<in> set js" "js ! 1 \<noteq> js ! 0"
        using S(1,2) by (auto simp: nth_eq_iff_index_eq)
      have "heap_ok (X + {#r'#} + {#l#} + table_refs t1) W h1" using N(1) r1 p R by (simp add: ac_simps add_mset_commute)
      from insert_reserved_ok [OF i1 _ _ _ this N(2)] S js
      have 2: "ipc_ok (X + {#r'#}) W t2 h1" by auto
      have "js ! 1 < length t2" "slot_vacant (t2 ! (js ! 1))"
        using insert_reserved_vacant [OF i1 js(3)] S(3) js(2) by auto
      then show ?thesis
        using insert_reserved_ok [OF i2, of X W h1] 2 by (simp add: out ipc_ok_def)
    qed
  qed
qed

section \<open>Writing\<close>

lemma object_with_rights_ref: "object_with_rights t hn r = Inr k \<Longrightarrow> k \<in># table_refs t"
  by (auto simp: object_with_rights_def split: sum.splits if_splits dest: table_entry_ref)

lemma channel_endpoint_ok:
  assumes "ipc_ok X W t h" "object_with_rights t hn r = Inr k" "channel_endpoint h k = Inr (c, sd)"
  shows "object_at h k = Channel c sd" "c < length (hp_channels h)" "channel_wf (hp_channels h ! c)"
    "channel_quiet (hp_channels h ! c)" "ch_open (hp_channels h ! c) sd"
proof -
  show k: "object_at h k = Channel c sd"
    using assms(3) by (auto simp: channel_endpoint_def split: kernel_object.splits)
  have s: "strong h k > 0" using ipc_ok_strong [OF assms(1) object_with_rights_ref [OF assms(2)]] .
  from assms(1) have E: "endpoints_ok h" and S: "states_ok h" by (simp_all add: ipc_ok_def heap_ok_def)
  have "object_in_range h (object_at h k)" using E strong_pos [of h k] s by (simp add: endpoints_ok_def)
  then show c: "c < length (hp_channels h)" by (simp add: k)
  then show "channel_wf (hp_channels h ! c)" "channel_quiet (hp_channels h ! c)"
    using S by (simp_all add: states_ok_def)
  have "live h (Channel c sd)" using k s by (auto simp: live_def)
  then show "ch_open (hp_channels h ! c) sd" using E c by (simp add: endpoints_ok_def)
qed

lemma channel_write_bytes_ok:
  assumes "ipc_ok X W t h" "channel_write_bytes al hn bytes t h = (r, h')"
  shows "ipc_ok X W t h'"
proof (cases "length bytes > CHANNEL_MAX_BYTES \<or> (\<exists>e. object_with_rights t hn R_WRITE = Inl e) \<or>
    (\<exists>k e. object_with_rights t hn R_WRITE = Inr k \<and> channel_endpoint h k = Inl e)")
  case True
  then show ?thesis using assms by (auto simp: channel_write_bytes_def split: if_splits)
next
  case False
  then obtain k c sd where k: "object_with_rights t hn R_WRITE = Inr k" "channel_endpoint h k = Inr (c, sd)"
    and len: "length bytes \<le> CHANNEL_MAX_BYTES"
    by (metis not_less old.sum.exhaust surj_pair)
  note E = channel_endpoint_ok [OF assms(1) k]
  let ?s = "hp_channels h ! c"
  obtain evs s where p: "channel_push_bytes al (hp_alive h) sd bytes ?s = (r, evs, s)" and h': "h' = set_channel c s evs h"
    using assms(2) k len by (auto simp: channel_write_bytes_def split: prod.splits)
  note P = channel_push_bytes_spec [OF p E(3) len]
  have refs: "channel_refs s = channel_refs ?s"
    using P(3) by (cases r) (simp_all add: channel_refs_side [where sd = sd])
  have "heap_ok (X + table_refs t + {#}) W (set_channel c s evs h)"
    by (rule set_channel_ok [where A = "{#}" and B = "{#}"])
      (use assms(1) E P(1,2) channel_push_bytes_quiet [OF p E(4)] refs in \<open>simp_all add: ipc_ok_def\<close>)
  moreover have "set (outgoing h' d) \<subseteq> set (outgoing h d)" for d
    by (rule outgoing_set_channel [where c = c and s = s]) (simp_all add: refs h')
  then have "acyclic (channel_edges h')"
    using assms(1) acyclic_shrink by (auto simp: ipc_ok_def)
  ultimately show ?thesis using assms(1) by (simp add: ipc_ok_def h')
qed

lemma channel_write_impl_cases:
  assumes "channel_write_with_handle_operations_impl al hn bytes ds t h = (r, t', h')"
  obtains (err) e where "r = Inl e" "t' = t" "h' = h"
  | (ok) k c sd ps ens evs s where "r = Inr ()" "length bytes \<le> CHANNEL_MAX_BYTES" "length ds \<le> CHANNEL_MAX_HANDLES"
      "object_with_rights t hn R_WRITE = Inr k" "channel_endpoint h k = Inr (c, sd)"
      "prepare_handles t [] ds = Inr ps" "ch_open (hp_channels h ! c) (peer sd)"
      "length (ch_queues (hp_channels h ! c) (peer sd)) \<noteq> CHANNEL_QUEUE_CAPACITY"
      "any_reaches h c (alloc_skip 3 al) [] (map (prepared_object t) ps) = Inr False"
      "commit_handles ps t = (ens, t')"
      "channel_push_message (hp_alive h) sd \<lparr>km_bytes = bytes, km_handles = ens\<rparr> (hp_channels h ! c) = (evs, s)"
      "h' = set_channel c s evs (add_refs (prepared_duplicates ps) h)"
proof -
  show ?thesis
  proof (cases r)
    case (Inl e)
    then have "t' = t \<and> h' = h"
      using assms unfolding channel_write_with_handle_operations_impl_def Let_def
      by (simp split: if_split_asm sum.split_asm prod.split_asm bool.split_asm)
    then show ?thesis using err Inl by blast
  next
    case (Inr u)
    then show ?thesis
      using assms unfolding channel_write_with_handle_operations_impl_def Let_def
      by (simp split: if_split_asm sum.split_asm prod.split_asm bool.split_asm) (rule ok; auto)
  qed
qed

text \<open>What a successful write with handles did.\<close>

lemma channel_write_impl_ok:
  assumes "ipc_ok X W t h" "channel_write_with_handle_operations_impl al hn bytes ds t h = (r, t', h')" "ds \<noteq> []"
  shows "ipc_ok X W t' h'"
  using assms(2)
proof (cases rule: channel_write_impl_cases)
  case (ok k c sd ps ens evs s)
  have wf: "table_wf t" and hok: "heap_ok (X + table_refs t) W h" and ac: "acyclic (channel_edges h)"
    using assms(1) by (simp_all add: ipc_ok_def)
  note E = channel_endpoint_ok [OF assms(1) ok(4,5)]
  let ?s = "hp_channels h ! c" and ?m = "\<lparr>km_bytes = bytes, km_handles = ens\<rparr>" and ?h1 = "add_refs (prepared_duplicates ps) h"
  have C: "table_wf t' \<and> ens = map (transferred_entry t) ds"
    using commit_handles_spec [OF ok(6,10) wf] by simp
  have refs: "table_refs t' + mset (map he_object ens) = table_refs t + mset (prepared_duplicates ps)"
    by (rule table_refs_commit [OF ok(6,10)]) simp_all
  have objs: "map he_object ens = map (prepared_object t) ps" "set (prepared_duplicates ps) \<subseteq> set_mset (table_refs t)"
    using prepared_objects_entries [OF ok(6,10)] by simp_all
  then have "\<forall>k \<in> set (prepared_duplicates ps). strong h k > 0" using ipc_ok_strong [OF assms(1)] by blast
  from add_refs_ok [OF hok this] have h1: "heap_ok (X + table_refs t' + mset (map he_object ens)) W ?h1"
    using refs by (metis (no_types) add.assoc)
  note P = channel_push_message_frame [OF ok(11)]
  have sr: "channel_refs s = channel_refs ?s + mset (map he_object ens)"
    by (simp add: channel_refs_side [where sd = sd] P)
  have "length (ch_queues ?s (peer sd)) < CHANNEL_QUEUE_CAPACITY"
    using ok(8) E(3) by (auto simp: channel_wf_side [where sd = sd] channel_side_wf_def)
  then have wfs: "channel_wf s" "channel_quiet s"
    using channel_push_message_wf [OF ok(11) E(3)] channel_push_message_quiet [OF ok(11) E(4)] ok(2,3,7) C assms(3)
    by (auto simp: message_wf_def)
  have "heap_ok (X + table_refs t' + {#}) W h'"
    unfolding ok(12) by (rule set_channel_ok [where A = "mset (map he_object ens)" and B = "{#}", OF h1])
      (use E(2) wfs P(1) sr in simp_all)
  moreover have "acyclic (channel_edges h')"
  proof (rule acyclic_queue [OF ac E(2)])
    show "hp_channels h' = (hp_channels h)[c := s]" "object_at h' k = object_at h k" for k
      by (simp_all add: ok(12))
    show "channel_refs s = channel_refs ?s + mset (map (prepared_object t) ps)" using sr objs(1) by simp
    show "\<not> (\<exists>k \<in> set (map (prepared_object t) ps). \<exists>d sd. object_at h k = Channel d sd \<and> (d, c) \<in> (channel_edges h)\<^sup>*)"
      using any_reaches_fresh [OF ok(9)] by simp
  qed
  ultimately show ?thesis using C by (simp add: ipc_ok_def)
qed (use assms(1) in simp)

lemma channel_write_with_handle_operations_ok:
  assumes "ipc_ok X W t h" "channel_write_with_handle_operations al hn bytes ds t h = (r, t', h')"
  shows "ipc_ok X W t' h'"
proof (cases "ds = []")
  case True
  then have "channel_write_bytes al hn bytes t h = (r, h')" "t' = t"
    using assms(2) by (auto simp: channel_write_with_handle_operations_def split: prod.splits)
  then show ?thesis using channel_write_bytes_ok [OF assms(1)] by simp
next
  case False
  then show ?thesis
    using assms(2) by (intro channel_write_impl_ok [OF assms(1)]) (simp_all add: channel_write_with_handle_operations_def)
qed

lemma channel_write_with_dispositions_ok:
  assumes "ipc_ok X W t h" "channel_write_with_dispositions al hn bytes ds t h = (r, t', h')"
  shows "ipc_ok X W t' h'"
proof (cases "length bytes > CHANNEL_MAX_BYTES \<or> length ds > CHANNEL_MAX_HANDLES \<or>
    ds \<noteq> [] \<and> \<not> try_vec_with_capacity al 0 (length ds)")
  case True
  then have "t' = t" "h' = h" using assms(2) by (auto simp: channel_write_with_dispositions_def split: if_splits)
  then show ?thesis using assms(1) by simp
next
  case sizes: False
  show ?thesis
  proof (cases "ds = []")
    case True
    then have "channel_write_bytes al hn bytes t h = (r, h')" "t' = t"
      using assms(2) sizes by (auto simp: channel_write_with_dispositions_def split: prod.splits)
    then show ?thesis using channel_write_bytes_ok [OF assms(1)] by simp
  next
    case False
    then have "channel_write_with_handle_operations (alloc_skip 1 al) hn bytes
        (map (\<lambda>(hn, rights). move_handle hn rights) ds) t h = (r, t', h')"
      using assms(2) sizes by (simp add: channel_write_with_dispositions_def)
    then show ?thesis by (rule channel_write_with_handle_operations_ok [OF assms(1)])
  qed
qed

lemma channel_write_ok:
  assumes "ipc_ok X W t h" "channel_write al hn bytes hs t h = (r, t', h')"
  shows "ipc_ok X W t' h'"
proof (cases "length bytes > CHANNEL_MAX_BYTES \<or> length hs > CHANNEL_MAX_HANDLES \<or>
    hs \<noteq> [] \<and> (\<not> try_vec_with_capacity al 0 (length hs) \<or> (\<exists>e. current_dispositions t hs = Inl e))")
  case True
  then have "t' = t" "h' = h" using assms(2) by (auto simp: channel_write_def split: if_splits)
  then show ?thesis using assms(1) by simp
next
  case sizes: False
  show ?thesis
  proof (cases "hs = []")
    case True
    then have "channel_write_bytes al hn bytes t h = (r, h')" "t' = t"
      using assms(2) sizes by (auto simp: channel_write_def split: prod.splits)
    then show ?thesis using channel_write_bytes_ok [OF assms(1)] by simp
  next
    case False
    then obtain ds where "current_dispositions t hs = Inr ds"
      using sizes by (cases "current_dispositions t hs") auto
    then have "channel_write_with_dispositions (alloc_skip 1 al) hn bytes ds t h = (r, t', h')"
      using assms(2) sizes False by (simp add: channel_write_def)
    then show ?thesis by (rule channel_write_with_dispositions_ok [OF assms(1)])
  qed
qed

section \<open>Reading\<close>

lemma channel_read_cases:
  assumes "channel_read al hn bl hl t h = (r, t', h')"
  obtains (err) e where "r = Inl e" "h' = h" "t' = t \<or> (\<exists>n. reserve_slots al n t = (Inl e, t'))"
  | (ok) k c sd m q slots t1 evs s handles where
      "object_with_rights t hn R_READ = Inr k" "channel_endpoint h k = Inr (c, sd)"
      "ch_queues (hp_channels h ! c) sd = m # q" "length (km_bytes m) \<le> bl" "length (km_handles m) \<le> hl"
      "reserve_slots al (length (km_handles m)) t = (Inr slots, t1)"
      "channel_pop_message (hp_alive h) sd (hp_channels h ! c) = (m, evs, s)"
      "install_entries (zip (km_handles m) slots) t1 = (handles, t')"
      "r = Inr (MessageInfo_new (length (km_bytes m)) (length (km_handles m)), km_bytes m, handles)"
      "h' = set_channel c s evs h"
proof (cases r)
  case (Inl e)
  then have "h' = h \<and> (t' = t \<or> (\<exists>n. reserve_slots al n t = (Inl e, t')))"
    using assms unfolding channel_read_def Let_def
    by (auto split: if_split_asm sum.split_asm prod.split_asm list.split_asm)
  then show ?thesis using err Inl by blast
next
  case (Inr u)
  then obtain k c sd m q slots t1 popped evs s handles where f:
      "object_with_rights t hn R_READ = Inr k" "channel_endpoint h k = Inr (c, sd)"
      "ch_queues (hp_channels h ! c) sd = m # q" "length (km_bytes m) \<le> bl" "length (km_handles m) \<le> hl"
      "reserve_slots al (length (km_handles m)) t = (Inr slots, t1)"
      "channel_pop_message (hp_alive h) sd (hp_channels h ! c) = (popped, evs, s)"
      "install_entries (zip (km_handles popped) slots) t1 = (handles, t')"
      "r = Inr (MessageInfo_new (length (km_bytes m)) (length (km_handles m)), km_bytes popped, handles)"
      "h' = set_channel c s evs h"
    using assms unfolding channel_read_def Let_def
    by (auto split: if_split_asm sum.split_asm prod.split_asm list.split_asm)
  have "popped = m" using channel_pop_message_spec(1) [OF f(7)] f(3) by simp
  with f show ?thesis using ok by blast
qed

lemma channel_read_ok:
  assumes "ipc_ok X W t h" "channel_read al hn bl hl t h = (r, t', h')"
  shows "ipc_ok X W t' h'"
  using assms(2)
proof (cases rule: channel_read_cases)
  case (err e)
  then have "t' = t" by (auto dest: reserve_slots_Inl)
  then show ?thesis using assms(1) err(2) by simp
next
  case (ok k c sd m q slots t1 evs s handles)
  have wf: "table_wf t" and hok: "heap_ok (X + table_refs t) W h" and ac: "acyclic (channel_edges h)"
    using assms(1) by (simp_all add: ipc_ok_def)
  note E = channel_endpoint_ok [OF assms(1) ok(1,2)]
  note R = reserve_slots_Inr [OF ok(6) wf]
  note P = channel_pop_message_spec [OF ok(7)]
  let ?s = "hp_channels h ! c"
  have sr: "channel_refs ?s = channel_refs s + mset (map he_object (km_handles m))"
    by (simp add: channel_refs_side [where sd = sd] P(3) ok(3))
  have "heap_ok (X + table_refs t + mset (map he_object (km_handles m))) W h'"
    unfolding ok(10)
    by (rule set_channel_ok [where A = "{#}" and B = "mset (map he_object (km_handles m))"])
      (use hok E P(2) sr channel_pop_message_wf [OF ok(7) E(3)] channel_pop_message_quiet [OF ok(7) E(4)] ok(3) in simp_all)
  moreover have "table_refs t' = table_refs t + mset (map he_object (km_handles m))"
    using table_refs_install [OF ok(8) R(2)] R(1,3) table_refs_reserve [OF ok(6)] by simp
  moreover have "table_wf t'"
    using tab.install_spec [OF ok(8)] R by simp
  moreover have "set (outgoing h' d) \<subseteq> set (outgoing h d)" for d
    by (rule outgoing_set_channel [where c = c and s = s]) (simp_all add: ok(10) sr)
  then have "acyclic (channel_edges h')" using ac acyclic_shrink by blast
  ultimately show ?thesis by (simp add: ipc_ok_def add.assoc)
qed

section \<open>The cycle check is exact\<close>

lemma alloc_skip_failed: "\<not> alloc_skip n al k \<Longrightarrow> \<exists>j. \<not> al j"
  by (auto simp: alloc_skip_def)

lemma reach_loop_error:
  "reach_loop h dest al pending visited = Inl e \<Longrightarrow> e = OutOfMemory \<and> (\<exists>k. \<not> al k)"
proof (induction h dest al pending visited rule: reach_loop.induct)
  case (2 h dest al candidate pending visited)
  let ?out = "outgoing h candidate"
  have ne: "candidate \<noteq> dest" using "2.prems" by (auto split: if_splits)
  show ?case
  proof (cases "candidate \<in> set visited")
    case True
    then show ?thesis using "2.IH"(1) [OF ne True] "2.prems" ne by simp
  next
    case False
    show ?thesis
    proof (cases "al 0 \<and> list_all al [1..<length ?out + 1] \<and> (?out = [] \<or> al (length ?out + 1))")
      case True
      show ?thesis
      proof (cases "?out = []")
        case em: True
        then show ?thesis
          using "2.IH"(2) [OF ne False _ refl _ em] "2.prems" ne False True alloc_skip_failed by (auto simp: Let_def)
      next
        case no: False
        then have "reach_loop h dest (alloc_skip (length ?out + 2) al) (rev ?out @ pending) (visited @ [candidate]) = Inl e"
          using "2.prems" ne False True by (simp add: Let_def)
        then show ?thesis using "2.IH"(3) [OF ne False _ refl _ no] True no by (auto dest!: alloc_skip_failed)
      qed
    next
      case al: False
      then have "e = OutOfMemory" using "2.prems" ne False by (auto simp: Let_def split: if_splits)
      then show ?thesis using al by (auto simp: list_all_iff)
    qed
  qed
qed simp

lemma reach_loop_allocs:
  "reach_loop h dest al pending visited = Inr (b, visited', al') \<Longrightarrow> \<exists>n. al' = alloc_skip n al"
proof (induction h dest al pending visited rule: reach_loop.induct)
  case (1 h dest al visited)
  then have "al' = alloc_skip 0 al" by (simp add: alloc_skip_def fun_eq_iff)
  then show ?case ..
next
  case (2 h dest al candidate pending visited)
  let ?out = "outgoing h candidate"
  have skip: "\<exists>n. alloc_skip k (alloc_skip j al) = alloc_skip n al" for k j
    by (rule exI [of _ "j + k"]) (simp add: alloc_skip_def fun_eq_iff add.assoc)
  show ?case
  proof (cases "candidate = dest")
    case True
    then have "al' = alloc_skip 0 al" using "2.prems" by (simp add: alloc_skip_def fun_eq_iff)
    then show ?thesis ..
  next
    case ne: False
    show ?thesis
    proof (cases "candidate \<in> set visited")
      case True
      then show ?thesis using "2.IH"(1) [OF ne True] "2.prems" ne by simp
    next
      case False
      then have al: "al 0" "list_all al [1..<length ?out + 1]"
        using "2.prems" ne by (auto simp: Let_def split: if_splits)
      show ?thesis
      proof (cases "?out = []")
        case True
        then show ?thesis using "2.IH"(2) [OF ne False _ refl _ True] "2.prems" ne False al skip by (auto simp: Let_def)
      next
        case no: False
        then have r: "reach_loop h dest (alloc_skip (length ?out + 2) al) (rev ?out @ pending) (visited @ [candidate])
            = Inr (b, visited', al')" and a: "al (length ?out + 1)"
          using "2.prems" False ne al by (auto simp: Let_def split: if_splits)
        then show ?thesis using "2.IH"(3) [OF ne False _ refl _ no _ r] al skip by auto
      qed
    qed
  qed
qed

lemma any_reaches_error:
  "any_reaches h dest al visited ks = Inl e \<Longrightarrow> e = OutOfMemory \<and> (\<exists>k. \<not> al k)"
proof (induction h dest al visited ks rule: any_reaches.induct)
  case (2 h dest al visited k ks)
  show ?case
  proof (cases "object_reaches_channel h k dest al visited")
    case (Inl e')
    then have "e' = OutOfMemory \<and> (\<exists>j. \<not> al j)"
      using reach_loop_error [of h dest "alloc_skip 1 al"]
      by (auto simp: object_reaches_channel_def simp del: reach_loop.simps
          split: kernel_object.splits if_splits dest!: alloc_skip_failed)
    then show ?thesis using Inl "2.prems" by simp
  next
    case (Inr res)
    then obtain v1 al1 where o: "object_reaches_channel h k dest al visited = Inr (False, v1, al1)"
      and r: "any_reaches h dest al1 v1 ks = Inl e"
      using "2.prems" by (auto split: prod.splits bool.splits)
    have "\<exists>n. al1 = alloc_skip n al"
    proof (cases "\<exists>c sd. object_at h k = Channel c sd")
      case True
      then obtain c where "reach_loop h dest (alloc_skip 1 al) [c] visited = Inr (False, v1, al1)"
        using o by (auto simp: object_reaches_channel_def split: if_splits)
      then obtain n where "al1 = alloc_skip n (alloc_skip 1 al)" using reach_loop_allocs by blast
      then have "al1 = alloc_skip (1 + n) al" by (simp add: alloc_skip_def fun_eq_iff)
      then show ?thesis ..
    next
      case False
      then have "al1 = alloc_skip 0 al"
        using o by (auto simp: object_reaches_channel_def alloc_skip_def fun_eq_iff split: kernel_object.splits)
      then show ?thesis ..
    qed
    then show ?thesis using "2.IH" [OF o refl _ refl r] by (auto simp: alloc_skip_def)
  qed
qed simp

text \<open>C32: The cycle check of a message write answers exactly: it errs only with out-of-memory and only
  when an allocation failed, and otherwise it says yes if and only if one of the objects is a
  channel endpoint from whose channel the destination channel can be reached through queued endpoints.\<close>

theorem cycle_check_exact:
  "case any_reaches h dest al [] ks of
     Inl e \<Rightarrow> e = OutOfMemory \<and> \<not> (\<forall>k. al k)
   | Inr b \<Rightarrow> b = (\<exists>k \<in> set ks. \<exists>c sd. object_at h k = Channel c sd \<and> (c, dest) \<in> (channel_edges h)\<^sup>*)"
  using any_reaches_fresh [of h dest al ks] any_reaches_error [of h dest al "[]" ks]
  by (cases "any_reaches h dest al [] ks") auto

section \<open>Queues as sequences\<close>

text \<open>The queue of messages waiting for side \<open>sd\<close> of channel \<open>c\<close>.\<close>

definition queued :: "kernel_heap \<Rightarrow> nat \<Rightarrow> side \<Rightarrow> kernel_message list" where
  "queued h c sd = ch_queues (hp_channels h ! c) sd"

lemma queued_set_channel:
  "c < length (hp_channels h) \<Longrightarrow> hp_channels h' = (hp_channels h)[c := s] \<Longrightarrow>
   queued h' d x = (if d = c then ch_queues s x else queued h d x)"
  by (simp add: queued_def)

lemma channel_write_bytes_queue:
  assumes "ipc_ok X W t h" "channel_write_bytes al hn bytes t h = (r, h')"
  shows "case r of
      Inl e \<Rightarrow> \<forall>d x. queued h' d x = queued h d x
    | Inr _ \<Rightarrow> \<exists>k c sd. object_with_rights t hn R_WRITE = Inr k \<and> object_at h k = Channel c sd \<and>
        (\<forall>d x. queued h' d x = queued h d x @
           (if d = c \<and> x = peer sd then [\<lparr>km_bytes = bytes, km_handles = []\<rparr>] else []))"
proof (cases "length bytes > CHANNEL_MAX_BYTES \<or> (\<exists>e. object_with_rights t hn R_WRITE = Inl e) \<or>
    (\<exists>k e. object_with_rights t hn R_WRITE = Inr k \<and> channel_endpoint h k = Inl e)")
  case True
  then show ?thesis using assms by (auto simp: channel_write_bytes_def split: if_splits)
next
  case False
  then obtain k c sd where k: "object_with_rights t hn R_WRITE = Inr k" "channel_endpoint h k = Inr (c, sd)"
    and len: "length bytes \<le> CHANNEL_MAX_BYTES"
    by (metis not_less old.sum.exhaust surj_pair)
  note E = channel_endpoint_ok [OF assms(1) k]
  obtain evs s where p: "channel_push_bytes al (hp_alive h) sd bytes (hp_channels h ! c) = (r, evs, s)"
    and h': "h' = set_channel c s evs h"
    using assms(2) k len by (auto simp: channel_write_bytes_def split: prod.splits)
  note P = channel_push_bytes_spec [OF p E(3) len]
  have q: "queued h' d x = (if d = c then ch_queues s x else queued h d x)" for d x
    by (rule queued_set_channel [OF E(2)]) (simp add: h')
  show ?thesis
  proof (cases r)
    case (Inl e)
    then show ?thesis using P(3) q by (simp add: queued_def)
  next
    case (Inr u)
    then have "\<forall>d x. queued h' d x = queued h d x @
        (if d = c \<and> x = peer sd then [\<lparr>km_bytes = bytes, km_handles = []\<rparr>] else [])"
      using P(3) q by (simp add: queued_def)
    then show ?thesis using Inr k(1) E(1) by auto
  qed
qed

lemma channel_write_operations_queue:
  assumes "ipc_ok X W t h" "channel_write_with_handle_operations al hn bytes ds t h = (r, t', h')"
  shows "case r of
      Inl e \<Rightarrow> t' = t \<and> (\<forall>d x. queued h' d x = queued h d x)
    | Inr _ \<Rightarrow>
        (\<exists>k c sd. object_with_rights t hn R_WRITE = Inr k \<and> object_at h k = Channel c sd \<and>
          (\<forall>d x. queued h' d x = queued h d x @
             (if d = c \<and> x = peer sd then [\<lparr>km_bytes = bytes, km_handles = map (transferred_entry t) ds\<rparr>] else []))) \<and>
        (\<forall>d \<in> set ds. \<exists>en. disposition_ok t d en) \<and>
        (\<forall>g. table_lookup t' g = (if g \<in> moved_handles ds then None else table_lookup t g))"
proof (cases "ds = []")
  case True
  then have b: "channel_write_bytes al hn bytes t h = (r, h')" "t' = t"
    using assms(2) by (auto simp: channel_write_with_handle_operations_def split: prod.splits)
  show ?thesis
    using channel_write_bytes_queue [OF assms(1) b(1)] b(2) True by (cases r) (simp_all split del: if_split cong: if_cong)
next
  case False
  then have "channel_write_with_handle_operations_impl al hn bytes ds t h = (r, t', h')"
    using assms(2) by (simp add: channel_write_with_handle_operations_def)
  then show ?thesis
  proof (cases rule: channel_write_impl_cases)
    case (ok k c sd ps ens evs s)
    note E = channel_endpoint_ok [OF assms(1) ok(4,5)]
    have wf: "table_wf t" using assms(1) by (simp add: ipc_ok_def)
    have C: "ens = map (transferred_entry t) ds \<and> (\<forall>d \<in> set ds. \<exists>en. disposition_ok t d en) \<and>
        table_lookup t' = (\<lambda>g. if g \<in> moved_handles ds then None else table_lookup t g)"
      using commit_handles_spec [OF ok(6,10) wf] by simp
    note P = channel_push_message_frame [OF ok(11)]
    have "queued h' d x = (if d = c then ch_queues s x else queued h d x)" for d x
      by (rule queued_set_channel [OF E(2)]) (simp add: ok(12))
    then have "\<forall>d x. queued h' d x = queued h d x @
        (if d = c \<and> x = peer sd then [\<lparr>km_bytes = bytes, km_handles = map (transferred_entry t) ds\<rparr>] else [])"
      using P(2) C by (simp add: queued_def)
    then show ?thesis using ok(1,4) E(1) C by auto
  qed simp
qed

lemma channel_read_queue:
  assumes "ipc_ok X W t h" "channel_read al hn bl hl t h = (r, t', h')"
  shows "case r of
      Inl e \<Rightarrow> t' = t \<and> h' = h
    | Inr (info, bytes, hs) \<Rightarrow>
        (\<exists>k c sd m. object_with_rights t hn R_READ = Inr k \<and> object_at h k = Channel c sd \<and>
          (\<forall>d x. queued h d x = (if d = c \<and> x = sd then [m] else []) @ queued h' d x) \<and>
          bytes = km_bytes m \<and> length bytes \<le> bl \<and> length hs = length (km_handles m) \<and> length hs \<le> hl \<and>
          info = MessageInfo_new (length bytes) (length hs) \<and> distinct hs \<and>
          (\<forall>g \<in> set hs. table_lookup t g = None) \<and> table_lookup t' = (table_lookup t)(hs [\<mapsto>] km_handles m))"
  using assms(2)
proof (cases rule: channel_read_cases)
  case (err e)
  then show ?thesis by (auto dest: reserve_slots_Inl)
next
  case (ok k c sd m q slots t1 evs s handles)
  have wf: "table_wf t" using assms(1) by (simp add: ipc_ok_def)
  note E = channel_endpoint_ok [OF assms(1) ok(1,2)]
  note R = reserve_slots_Inr [OF ok(6) wf]
  note P = channel_pop_message_spec [OF ok(7)]
  have lk: "table_lookup t1 = table_lookup t"
    using R(4) by (auto simp: table_lookup_append_vacant fun_eq_iff)
  have I: "length handles = length (km_handles m) \<and> distinct handles \<and> (\<forall>g \<in> set handles. table_lookup t1 g = None) \<and>
      table_lookup t' = (table_lookup t1)(handles [\<mapsto>] km_handles m)"
    using tab.install_spec [OF ok(8) R(5)] R(1-3) by simp
  have "queued h' d x = (if d = c then ch_queues s x else queued h d x)" for d x
    by (rule queued_set_channel [OF E(2)]) (simp add: ok(10))
  then have "\<forall>d x. queued h d x = (if d = c \<and> x = sd then [m] else []) @ queued h' d x"
    using P(3) ok(3) by (simp add: queued_def)
  then show ?thesis using I ok(1,4,5,9) E(1) lk by auto
qed

lemma reserve_slots_success:
  assumes "\<forall>k. al k" "n \<le> length (filter slot_vacant t) + (HANDLE_TABLE_CAPACITY - length t)"
  shows "\<exists>js t'. reserve_slots al n t = (Inr js, t')"
  using assms by (simp add: reserve_slots_def Let_def)

lemma channel_read_success:
  assumes "object_with_rights t hn R_READ = Inr k" "object_at h k = Channel c sd" "queued h c sd = m # q"
    and "length (km_bytes m) \<le> bl" "length (km_handles m) \<le> hl" "\<forall>k. al k"
    and "length (km_handles m) \<le> length (filter slot_vacant t) + (HANDLE_TABLE_CAPACITY - length t)"
  shows "\<exists>out t' h'. channel_read al hn bl hl t h = (Inr out, t', h')"
  using reserve_slots_success [OF assms(6,7)] assms(1-5)
  by (auto simp: channel_read_def Let_def channel_endpoint_def queued_def split: prod.splits)

text \<open>C21: A message write is all or nothing and appends: on an error the table and every queue are as
  before; on success the message, with one attenuated entry per disposition in order, is the new last
  message of the peer's queue, no other queue changes, and exactly the moved handles left the table.\<close>

theorem channel_write_appends:
  assumes "ipc_ok X W t h" "channel_write_with_handle_operations al hn bytes ds t h = (r, t', h')"
  shows "case r of
      Inl e \<Rightarrow> t' = t \<and> (\<forall>d x. queued h' d x = queued h d x)
    | Inr _ \<Rightarrow>
        (\<exists>k c sd. object_with_rights t hn R_WRITE = Inr k \<and> object_at h k = Channel c sd \<and>
          (\<forall>d x. queued h' d x = queued h d x @
             (if d = c \<and> x = peer sd then [\<lparr>km_bytes = bytes, km_handles = map (transferred_entry t) ds\<rparr>] else []))) \<and>
        (\<forall>d \<in> set ds. \<exists>en. disposition_ok t d en) \<and>
        (\<forall>g. table_lookup t' g = (if g \<in> moved_handles ds then None else table_lookup t g))"
  by (rule channel_write_operations_queue [OF assms])

text \<open>C31: A read delivers the oldest message: on an error nothing changes; on success the first
  message of the endpoint's queue is removed and no other queue changes, the bytes and sizes returned are
  that message's, and the table gains exactly one fresh handle per queued entry, with its object and rights.\<close>

theorem channel_read_delivers:
  assumes "ipc_ok X W t h" "channel_read al hn bl hl t h = (r, t', h')"
  shows "case r of
      Inl e \<Rightarrow> t' = t \<and> h' = h
    | Inr (info, bytes, hs) \<Rightarrow>
        (\<exists>k c sd m. object_with_rights t hn R_READ = Inr k \<and> object_at h k = Channel c sd \<and>
          (\<forall>d x. queued h d x = (if d = c \<and> x = sd then [m] else []) @ queued h' d x) \<and>
          bytes = km_bytes m \<and> length bytes \<le> bl \<and> length hs = length (km_handles m) \<and> length hs \<le> hl \<and>
          info = MessageInfo_new (length bytes) (length hs) \<and> distinct hs \<and>
          (\<forall>g \<in> set hs. table_lookup t g = None) \<and> table_lookup t' = (table_lookup t)(hs [\<mapsto>] km_handles m))"
  by (rule channel_read_queue [OF assms])

text \<open>C20: Round trip through a channel: after a successful write into an empty queue, a read at the
  other end, by whatever table holds it, with large enough buffers, room for the handles and no failing allocation, returns
  the bytes written, and its new handles carry, in order, the objects and requested rights of the dispositions.\<close>

theorem channel_roundtrip:
  assumes "ipc_ok X W t h" "channel_write_with_handle_operations al a bytes ds t h = (Inr (), t', h')"
    and "object_with_rights t a R_WRITE = Inr k" "object_at h k = Channel c sd" "queued h c (peer sd) = []"
    and "ipc_ok Y V u h'" "object_with_rights u b R_READ = Inr j" "object_at h' j = Channel c (peer sd)"
    and "length bytes \<le> bl" "length ds \<le> hl" "\<forall>k. al' k"
    and "length ds \<le> length (filter slot_vacant u) + (HANDLE_TABLE_CAPACITY - length u)"
  shows "\<exists>hs u' h''. channel_read al' b bl hl u h' = (Inr (MessageInfo_new (length bytes) (length ds), bytes, hs), u', h'') \<and>
    queued h'' c (peer sd) = [] \<and> map (table_lookup u') hs = map (\<lambda>d. Some (transferred_entry t d)) ds"
proof -
  let ?m = "\<lparr>km_bytes = bytes, km_handles = map (transferred_entry t) ds\<rparr>"
  have q: "queued h' c (peer sd) = [?m]"
    using channel_write_operations_queue [OF assms(1,2)] assms(3-5) by auto
  obtain info bs hs u' h'' where r: "channel_read al' b bl hl u h' = (Inr (info, bs, hs), u', h'')"
    using channel_read_success [OF assms(7,8) q, of bl hl al'] assms(9-12) by auto
  obtain m where m: "queued h' c (peer sd) = m # queued h'' c (peer sd)"
    "bs = km_bytes m" "length hs = length (km_handles m)" "info = MessageInfo_new (length bs) (length hs)" "distinct hs"
    "table_lookup u' = (table_lookup u)(hs [\<mapsto>] km_handles m)"
    using channel_read_queue [OF assms(6) r] assms(7,8) by force
  from m(1) q have mm: "m = ?m" "queued h'' c (peer sd) = []" by simp_all
  have "map (table_lookup u') hs = map (\<lambda>d. Some (transferred_entry t d)) ds"
    using m(3,5,6) mm(1) by (auto simp: list_eq_iff_nth_eq map_upds_nth)
  then show ?thesis using r m mm by auto
qed

text \<open>Two channels in one table: handles 4096 and 4097 are the ends of channel 0, 4098 and 4099 those of channel 1.\<close>

definition sample_ipc :: "htable \<times> kernel_heap" where
  "sample_ipc = (case channel_create (\<lambda>_. True) [] heap_empty of
     (_, t, h) \<Rightarrow> (case channel_create (\<lambda>_. True) t h of (_, t', h') \<Rightarrow> (t', h')))"

lemma heap_empty_ok: "ipc_ok {#} {#} [] heap_empty"
  by (simp add: ipc_ok_def heap_ok_def counts_ok_def endpoints_ok_def states_ok_def heap_empty_def table_refs_def
      live_def strong_def object_at_def window_strong_def vec_get_def queue_refs_def window_refs_def table_wf_Nil
      acyclic_def channel_edges_def outgoing_def)

lemma sample_ipc_ok: "ipc_ok {#} {#} (fst sample_ipc) (snd sample_ipc)"
proof -
  obtain r1 t1 h1 where c1: "channel_create (\<lambda>_. True) [] heap_empty = (r1, t1, h1)" by (metis prod_cases3)
  obtain r2 t2 h2 where c2: "channel_create (\<lambda>_. True) t1 h1 = (r2, t2, h2)" by (metis prod_cases3)
  have "ipc_ok {#} {#} t2 h2" using channel_create_ok [OF channel_create_ok [OF heap_empty_ok c1] c2] .
  then show ?thesis by (simp add: sample_ipc_def c1 c2)
qed

definition sample_write :: "unit ipc \<times> htable \<times> kernel_heap" where
  "sample_write = channel_write_with_handle_operations (\<lambda>_. True) 4096 [104, 105]
     [\<lparr>hod_handle = 4098, hod_operation = Move, hod_rights = R_READ\<rparr>] (fst sample_ipc) (snd sample_ipc)"

lemma sample_write_call:
  "channel_write_with_handle_operations (\<lambda>_. True) 4096 [104, 105]
     [\<lparr>hod_handle = 4098, hod_operation = Move, hod_rights = R_READ\<rparr>] (fst sample_ipc) (snd sample_ipc) =
   (Inr (), fst (snd sample_write), snd (snd sample_write))"
proof -
  have "fst sample_write = Inr ()" by code_simp
  then show ?thesis unfolding sample_write_def [symmetric] by (metis prod.collapse)
qed

lemma sample_write_ok: "ipc_ok {#} {#} (fst (snd sample_write)) (snd (snd sample_write))"
  by (rule channel_write_with_handle_operations_ok [OF sample_ipc_ok sample_write_call])

theorem channel_write_appends_witness:
  "fst sample_write = Inr () \<and> table_lookup (fst (snd sample_write)) 4098 = None"
  using channel_write_appends [OF sample_ipc_ok sample_write_call] sample_write_call [folded sample_write_def]
  by (simp add: moved_handles_def) (metis fst_conv)

theorem channel_read_delivers_witness:
  "table_lookup (fst (snd (channel_read (\<lambda>_. True) 4097 0 0 (fst sample_ipc) (snd sample_ipc)))) = table_lookup (fst sample_ipc)"
proof -
  obtain r t h where r: "channel_read (\<lambda>_. True) 4097 0 0 (fst sample_ipc) (snd sample_ipc) = (r, t, h)" by (metis prod_cases3)
  have "fst (channel_read (\<lambda>_. True) 4097 0 0 (fst sample_ipc) (snd sample_ipc)) = Inl ShouldWait" by code_simp
  then have "r = Inl ShouldWait" using r by simp
  then show ?thesis using channel_read_delivers [OF sample_ipc_ok r] r by simp
qed

theorem channel_roundtrip_witness:
  "\<exists>hs u' h''. channel_read (\<lambda>_. True) 4097 16 4 (fst (snd sample_write)) (snd (snd sample_write)) =
     (Inr (MessageInfo_new 2 1, [104, 105], hs), u', h'') \<and>
     map (table_lookup u') hs = [Some \<lparr>he_object = 2, he_rights = R_READ\<rparr>]"
proof -
  have e: "object_with_rights (fst sample_ipc) 4096 R_WRITE = Inr 0" "object_at (snd sample_ipc) 0 = Channel 0 Side0"
    "queued (snd sample_ipc) 0 (peer Side0) = []"
    "object_with_rights (fst (snd sample_write)) 4097 R_READ = Inr 1"
    "object_at (snd (snd sample_write)) 1 = Channel 0 (peer Side0)"
    "transferred_entry (fst sample_ipc) \<lparr>hod_handle = 4098, hod_operation = Move, hod_rights = R_READ\<rparr> =
       \<lparr>he_object = 2, he_rights = R_READ\<rparr>"
    "1 \<le> length (filter slot_vacant (fst (snd sample_write))) + (HANDLE_TABLE_CAPACITY - length (fst (snd sample_write)))"
    by code_simp+
  show ?thesis
    using channel_roundtrip [OF sample_ipc_ok sample_write_call e(1-3) sample_write_ok e(4,5), of 16 4 "\<lambda>_. True"] e(6,7)
    by (auto simp: numeral_2_eq_2)
qed

end
