(* ===== verification/Kernel_Calls.thy ===== *)
theory Kernel_Calls
  imports Channel_Calls
begin

text \<open>
  The other operations of \<^verbatim>\<open>HandleTable\<close> in \<^verbatim>\<open>crates/ginkgo-ipc/src/kernel.rs\<close>:
  installing capabilities for processes, requests, system power, scheduling authorities, random
  bytes, application data and the filesystem; shared memory and its leases; windows; object types
  and signals; polling and registering wait sets. Each call resolves its handle, checks rights and
  object type in the order of the code, and then runs the operation of the object's own theory on
  the state behind it. A call that fails after creating an object releases it again, so the object
  is only entered in the heap once a slot is reserved for it.
\<close>

section \<open>Default rights\<close>

definition SHARED_MEMORY_DEFAULT_RIGHTS :: rights where
  "SHARED_MEMORY_DEFAULT_RIGHTS = R_READ OR R_WRITE OR R_DUPLICATE OR R_TRANSFER OR R_MAP OR R_MANAGE"

definition WINDOW_CLIENT_RIGHTS :: rights where
  "WINDOW_CLIENT_RIGHTS = R_READ OR R_WRITE OR R_WAIT OR R_DUPLICATE OR R_TRANSFER"

definition WINDOW_MANAGER_RIGHTS :: rights where
  "WINDOW_MANAGER_RIGHTS = R_READ OR R_WAIT OR R_DUPLICATE OR R_TRANSFER OR R_MANAGE"

definition PROCESS_DEFAULT_RIGHTS :: rights where
  "PROCESS_DEFAULT_RIGHTS = R_WAIT OR R_INSPECT OR R_TERMINATE OR R_DUPLICATE OR R_TRANSFER"

definition REQUEST_DEFAULT_RIGHTS :: rights where
  "REQUEST_DEFAULT_RIGHTS = R_WAIT OR R_INSPECT OR R_MANAGE OR R_DUPLICATE OR R_TRANSFER"

section \<open>Installing objects\<close>

text \<open>\<^verbatim>\<open>Arc::try_new\<close>, \<^verbatim>\<open>reserve_slots(1)\<close>, \<^verbatim>\<open>insert_reserved\<close>.\<close>

definition install_object ::
  "allocs \<Rightarrow> kernel_object \<Rightarrow> rights \<Rightarrow> htable \<Rightarrow> kernel_heap \<Rightarrow> handle ipc \<times> htable \<times> kernel_heap" where
  "install_object al obj rights t h =
     (if \<not> al 0 then (Inl OutOfMemory, t, h)
      else
        (case reserve_slots (alloc_skip 1 al) 1 t of
           (Inl e, t1) \<Rightarrow> (Inl e, t1, h)
         | (Inr slots, t1) \<Rightarrow>
             (case new_object obj h of
                (k, h1) \<Rightarrow>
                  (case insert_reserved (slots ! 0) k rights t1 of
                     (hn, t2) \<Rightarrow> (Inr hn, t2, h1)))))"

section \<open>Processes\<close>

definition process_control :: "kernel_heap \<Rightarrow> oid \<Rightarrow> nat ipc" where
  "process_control h k = (case object_at h k of Process p \<Rightarrow> Inr p | _ \<Rightarrow> Inl WrongObjectType)"

definition set_process :: "nat \<Rightarrow> process_control_state \<Rightarrow> notification list \<Rightarrow> kernel_heap \<Rightarrow> kernel_heap" where
  "set_process p s evs h = h\<lparr>hp_processes := (hp_processes h)[p := s], hp_events := hp_events h @ evs\<rparr>"

definition process_install ::
  "allocs \<Rightarrow> nat \<Rightarrow> htable \<Rightarrow> kernel_heap \<Rightarrow> handle ipc \<times> htable \<times> kernel_heap" where
  "process_install al process t h = install_object al (Process process) PROCESS_DEFAULT_RIGHTS t h"

definition process_create ::
  "allocs \<Rightarrow> htable \<Rightarrow> kernel_heap \<Rightarrow> (handle \<times> nat) ipc \<times> htable \<times> kernel_heap" where
  "process_create al t h =
     (if \<not> al 0 then (Inl OutOfMemory, t, h)
      else
        let process = length (hp_processes h);
            h1 = h\<lparr>hp_processes := hp_processes h @ [ProcessControl_new]\<rparr>
        in case process_install (alloc_skip 1 al) process t h1 of
             (Inl e, t', _) \<Rightarrow> (Inl e, t', h)
           | (Inr hn, t', h') \<Rightarrow> (Inr (hn, process), t', h'))"

definition table_process_info :: "handle \<Rightarrow> htable \<Rightarrow> kernel_heap \<Rightarrow> process_info ipc" where
  "table_process_info hn t h =
     (case object_with_rights t hn R_INSPECT of
        Inl e \<Rightarrow> Inl e
      | Inr k \<Rightarrow> map_sum id (\<lambda>p. pc_info (hp_processes h ! p)) (process_control h k))"

definition process_terminate :: "handle \<Rightarrow> htable \<Rightarrow> kernel_heap \<Rightarrow> unit ipc \<times> kernel_heap" where
  "process_terminate hn t h =
     (case object_with_rights t hn R_TERMINATE of
        Inl e \<Rightarrow> (Inl e, h)
      | Inr k \<Rightarrow>
          (case process_control h k of
             Inl e \<Rightarrow> (Inl e, h)
           | Inr p \<Rightarrow>
               (case request_terminate (hp_alive h) (hp_processes h ! p) of
                  (_, evs, s) \<Rightarrow> (Inr (), set_process p s evs h))))"

section \<open>Requests\<close>

definition request_control :: "kernel_heap \<Rightarrow> oid \<Rightarrow> nat ipc" where
  "request_control h k = (case object_at h k of Request r \<Rightarrow> Inr r | _ \<Rightarrow> Inl WrongObjectType)"

definition set_request :: "nat \<Rightarrow> request_control_state \<Rightarrow> notification list \<Rightarrow> kernel_heap \<Rightarrow> kernel_heap" where
  "set_request r s evs h = h\<lparr>hp_requests := (hp_requests h)[r := s], hp_events := hp_events h @ evs\<rparr>"

definition request_install ::
  "allocs \<Rightarrow> nat \<Rightarrow> htable \<Rightarrow> kernel_heap \<Rightarrow> handle ipc \<times> htable \<times> kernel_heap" where
  "request_install al request t h = install_object al (Request request) REQUEST_DEFAULT_RIGHTS t h"

definition table_request_info :: "handle \<Rightarrow> htable \<Rightarrow> kernel_heap \<Rightarrow> request_info ipc" where
  "table_request_info hn t h =
     (case object_with_rights t hn R_INSPECT of
        Inl e \<Rightarrow> Inl e
      | Inr k \<Rightarrow> map_sum id (\<lambda>r. rc_info (hp_requests h ! r)) (request_control h k))"

text \<open>The control state's number stands for the cloned \<^verbatim>\<open>RequestControl\<close>.\<close>

definition request_cancellation_control :: "handle \<Rightarrow> htable \<Rightarrow> kernel_heap \<Rightarrow> (nat \<times> nat) ipc" where
  "request_cancellation_control hn t h =
     (case object_with_rights t hn R_MANAGE of
        Inl e \<Rightarrow> Inl e
      | Inr k \<Rightarrow> map_sum id (\<lambda>r. (r, rc_request_id (hp_requests h ! r))) (request_control h k))"

section \<open>System power\<close>

definition set_power :: "nat \<Rightarrow> system_power_info \<Rightarrow> kernel_heap \<Rightarrow> kernel_heap" where
  "set_power p s h = h\<lparr>hp_powers := (hp_powers h)[p := s]\<rparr>"

definition system_power_install ::
  "allocs \<Rightarrow> nat \<Rightarrow> htable \<Rightarrow> kernel_heap \<Rightarrow> handle ipc \<times> htable \<times> kernel_heap" where
  "system_power_install al control t h = install_object al (SystemPower control) (R_MANAGE OR R_INSPECT) t h"

definition system_power_request ::
  "handle \<Rightarrow> system_power_action \<Rightarrow> u32 \<Rightarrow> nat \<Rightarrow> htable \<Rightarrow> kernel_heap \<Rightarrow> unit ipc \<times> kernel_heap" where
  "system_power_request hn action flags deadline_ns t h =
     (case object_with_rights t hn R_MANAGE of
        Inl e \<Rightarrow> (Inl e, h)
      | Inr k \<Rightarrow>
          (case object_at h k of
             SystemPower p \<Rightarrow>
               (case power_request action flags deadline_ns (hp_powers h ! p) of
                  (r, s) \<Rightarrow> (r, set_power p s h))
           | _ \<Rightarrow> (Inl WrongObjectType, h)))"

definition system_power_cancel :: "handle \<Rightarrow> htable \<Rightarrow> kernel_heap \<Rightarrow> unit ipc \<times> kernel_heap" where
  "system_power_cancel hn t h =
     (case object_with_rights t hn R_MANAGE of
        Inl e \<Rightarrow> (Inl e, h)
      | Inr k \<Rightarrow>
          (case object_at h k of
             SystemPower p \<Rightarrow>
               (case power_cancel (hp_powers h ! p) of (r, s) \<Rightarrow> (r, set_power p s h))
           | _ \<Rightarrow> (Inl WrongObjectType, h)))"

definition table_system_power_info :: "handle \<Rightarrow> htable \<Rightarrow> kernel_heap \<Rightarrow> system_power_info ipc" where
  "table_system_power_info hn t h =
     (case object_with_rights t hn R_INSPECT of
        Inl e \<Rightarrow> Inl e
      | Inr k \<Rightarrow>
          (case object_at h k of SystemPower p \<Rightarrow> Inr (hp_powers h ! p) | _ \<Rightarrow> Inl WrongObjectType))"

section \<open>Scheduling authority\<close>

definition scheduling_authority_create ::
  "allocs \<Rightarrow> thread_scheduling_class \<Rightarrow> bool \<Rightarrow> htable \<Rightarrow> kernel_heap
     \<Rightarrow> (handle \<times> nat) ipc \<times> htable \<times> kernel_heap" where
  "scheduling_authority_create al maximum_class active t h =
     (case SchedulingAuthority_new al maximum_class active of
        Inl e \<Rightarrow> (Inl e, t, h)
      | Inr control \<Rightarrow>
          let authority = length (hp_authorities h);
              h1 = h\<lparr>hp_authorities := hp_authorities h @ [control]\<rparr>
          in case install_object (alloc_skip 1 al) (SchedulingAuthority authority) (R_SCHEDULE OR R_INSPECT) t h1 of
               (Inl e, t', _) \<Rightarrow> (Inl e, t', h)
             | (Inr hn, t', h') \<Rightarrow> (Inr (hn, authority), t', h'))"

text \<open>A lease is the authority with the generation it had when the lease was granted.\<close>

definition scheduling_authority_lease ::
  "handle \<Rightarrow> thread_scheduling_class \<Rightarrow> htable \<Rightarrow> kernel_heap \<Rightarrow> (nat \<times> nat) ipc" where
  "scheduling_authority_lease hn requested t h =
     (case object_with_rights t hn R_SCHEDULE of
        Inl e \<Rightarrow> Inl e
      | Inr k \<Rightarrow>
          (case object_at h k of
             SchedulingAuthority a \<Rightarrow>
               (case authority_authorize requested (hp_authorities h ! a) of
                  Inl e \<Rightarrow> Inl e
                | Inr _ \<Rightarrow> Inr (a, sa_generation (hp_authorities h ! a)))
           | _ \<Rightarrow> Inl WrongObjectType))"

section \<open>Random source and application data\<close>

definition random_source_create :: "allocs \<Rightarrow> htable \<Rightarrow> kernel_heap \<Rightarrow> handle ipc \<times> htable \<times> kernel_heap" where
  "random_source_create al t h = install_object al RandomSource (R_READ OR R_DUPLICATE) t h"

definition random_source :: "handle \<Rightarrow> htable \<Rightarrow> kernel_heap \<Rightarrow> unit ipc" where
  "random_source hn t h =
     (case object_with_rights t hn R_READ of
        Inl e \<Rightarrow> Inl e
      | Inr k \<Rightarrow> (case object_at h k of RandomSource \<Rightarrow> Inr () | _ \<Rightarrow> Inl WrongObjectType))"

definition APPLICATION_DATA_MAX_APP_ID_LEN :: nat where "APPLICATION_DATA_MAX_APP_ID_LEN = 127"

definition is_ascii_lowercase :: "char \<Rightarrow> bool" where
  "is_ascii_lowercase c \<longleftrightarrow> 97 \<le> (of_char c :: nat) \<and> (of_char c :: nat) \<le> 122"

definition is_ascii_digit :: "char \<Rightarrow> bool" where
  "is_ascii_digit c \<longleftrightarrow> 48 \<le> (of_char c :: nat) \<and> (of_char c :: nat) \<le> 57"

text \<open>\<^verbatim>\<open>str::split\<close> on one character: always at least one component.\<close>

fun split_on :: "char \<Rightarrow> string \<Rightarrow> string list" where
  "split_on sep [] = [[]]"
| "split_on sep (c # cs) =
     (if c = sep then [] # split_on sep cs
      else (case split_on sep cs of [] \<Rightarrow> [[c]] | w # ws \<Rightarrow> (c # w) # ws))"

definition valid_app_id_component :: "string \<Rightarrow> bool" where
  "valid_app_id_component component \<longleftrightarrow>
     component \<noteq> [] \<and> is_ascii_lowercase (component ! 0) \<and>
     list_all (\<lambda>b. is_ascii_lowercase b \<or> is_ascii_digit b \<or> b = CHR ''-'') component \<and>
     last component \<noteq> CHR ''-''"

definition valid_application_data_app_id :: "string \<Rightarrow> bool" where
  "valid_application_data_app_id app_id \<longleftrightarrow>
     app_id \<noteq> [] \<and> length app_id \<le> APPLICATION_DATA_MAX_APP_ID_LEN \<and>
     list_all valid_app_id_component (split_on (CHR ''.'') app_id)"

text \<open>The identifier's own storage and its shared pointer are allocated before the object.\<close>

definition application_data_create ::
  "allocs \<Rightarrow> string \<Rightarrow> htable \<Rightarrow> kernel_heap \<Rightarrow> handle ipc \<times> htable \<times> kernel_heap" where
  "application_data_create al app_id t h =
     (if \<not> valid_application_data_app_id app_id then (Inl InvalidMessage, t, h)
      else if \<not> al 0 \<or> \<not> al 1 then (Inl OutOfMemory, t, h)
      else install_object (alloc_skip 2 al) (ApplicationData app_id) (R_READ OR R_TRANSFER) t h)"

definition application_data_scope :: "handle \<Rightarrow> rights \<Rightarrow> htable \<Rightarrow> kernel_heap \<Rightarrow> string ipc" where
  "application_data_scope hn required_rights t h =
     (case object_with_rights t hn (required_rights OR R_READ) of
        Inl e \<Rightarrow> Inl e
      | Inr k \<Rightarrow> (case object_at h k of ApplicationData scope \<Rightarrow> Inr scope | _ \<Rightarrow> Inl WrongObjectType))"

section \<open>Filesystem capabilities\<close>

definition filesystem_root_create_with_rights ::
  "allocs \<Rightarrow> rights \<Rightarrow> htable \<Rightarrow> kernel_heap \<Rightarrow> handle ipc \<times> htable \<times> kernel_heap" where
  "filesystem_root_create_with_rights al rights t h =
     (let allowed = R_READ OR R_WRITE OR R_EXECUTE
      in if rights = 0 \<or> \<not> contains allowed rights then (Inl InvalidRights, t, h)
         else install_object al FilesystemRoot rights t h)"

definition filesystem_root_create :: "allocs \<Rightarrow> htable \<Rightarrow> kernel_heap \<Rightarrow> handle ipc \<times> htable \<times> kernel_heap" where
  "filesystem_root_create al t h = filesystem_root_create_with_rights al (R_READ OR R_WRITE) t h"

definition filesystem_directory_create ::
  "allocs \<Rightarrow> filesystem_handle \<Rightarrow> rights \<Rightarrow> htable \<Rightarrow> kernel_heap \<Rightarrow> handle ipc \<times> htable \<times> kernel_heap" where
  "filesystem_directory_create al directory rights t h =
     (let allowed = R_READ OR R_WRITE OR R_DUPLICATE OR R_TRANSFER
      in if rights = 0 \<or> \<not> contains allowed rights then (Inl InvalidRights, t, h)
         else install_object al (Directory directory) rights t h)"

definition filesystem_directory :: "handle \<Rightarrow> rights \<Rightarrow> htable \<Rightarrow> kernel_heap \<Rightarrow> filesystem_handle ipc" where
  "filesystem_directory hn required_rights t h =
     (case object_with_rights t hn required_rights of
        Inl e \<Rightarrow> Inl e
      | Inr k \<Rightarrow> (case object_at h k of Directory d \<Rightarrow> Inr d | _ \<Rightarrow> Inl WrongObjectType))"

definition filesystem_file_create ::
  "allocs \<Rightarrow> filesystem_handle \<Rightarrow> rights \<Rightarrow> htable \<Rightarrow> kernel_heap \<Rightarrow> handle ipc \<times> htable \<times> kernel_heap" where
  "filesystem_file_create al file rights t h =
     (let allowed = R_READ OR R_WRITE OR R_EXECUTE OR R_DUPLICATE OR R_TRANSFER;
          has_data_access = intersects rights (R_READ OR R_WRITE);
          invalid_execute = (contains rights R_EXECUTE \<and> (\<not> contains rights R_READ \<or> contains rights R_WRITE))
      in if rights = 0 \<or> \<not> contains allowed rights \<or> \<not> has_data_access \<or> invalid_execute then (Inl InvalidRights, t, h)
         else install_object al (File file) rights t h)"

definition filesystem_root :: "handle \<Rightarrow> rights \<Rightarrow> htable \<Rightarrow> kernel_heap \<Rightarrow> unit ipc" where
  "filesystem_root hn rights t h =
     (case object_with_rights t hn rights of
        Inl e \<Rightarrow> Inl e
      | Inr k \<Rightarrow> (case object_at h k of FilesystemRoot \<Rightarrow> Inr () | _ \<Rightarrow> Inl WrongObjectType))"

definition filesystem_file :: "handle \<Rightarrow> rights \<Rightarrow> htable \<Rightarrow> kernel_heap \<Rightarrow> filesystem_handle ipc" where
  "filesystem_file hn rights t h =
     (case object_with_rights t hn rights of
        Inl e \<Rightarrow> Inl e
      | Inr k \<Rightarrow> (case object_at h k of File f \<Rightarrow> Inr f | _ \<Rightarrow> Inl WrongObjectType))"

text \<open>A lease keeps a reference to its object; dropping it drops that reference.\<close>

record file_capability_lease =
  fl_object :: oid
  fl_file :: filesystem_handle
  fl_rights :: rights

definition filesystem_file_lease ::
  "handle \<Rightarrow> rights \<Rightarrow> htable \<Rightarrow> kernel_heap \<Rightarrow> file_capability_lease ipc \<times> kernel_heap" where
  "filesystem_file_lease hn required_rights t h =
     (case object_with_rights t hn required_rights of
        Inl e \<Rightarrow> (Inl e, h)
      | Inr k \<Rightarrow>
          (case object_at h k of
             File f \<Rightarrow> (Inr \<lparr>fl_object = k, fl_file = f, fl_rights = required_rights\<rparr>, add_ref k h)
           | _ \<Rightarrow> (Inl WrongObjectType, h)))"

section \<open>Shared memory\<close>

definition shared_memory_object :: "kernel_heap \<Rightarrow> oid \<Rightarrow> nat ipc" where
  "shared_memory_object h k = (case object_at h k of SharedMemory m \<Rightarrow> Inr m | _ \<Rightarrow> Inl WrongObjectType)"

definition memory_bytes :: "kernel_heap \<Rightarrow> nat \<Rightarrow> u8 list" where
  "memory_bytes h m = st_bytes (sb_storage (hp_memories h ! m))"

definition set_memory_storage :: "nat \<Rightarrow> storage \<Rightarrow> kernel_heap \<Rightarrow> kernel_heap" where
  "set_memory_storage m st h = h\<lparr>hp_memories := (hp_memories h)[m := (hp_memories h ! m)\<lparr>sb_storage := st\<rparr>]\<rparr>"

text \<open>An identity consumed by a creation that fails later stays consumed.\<close>

definition shared_memory_create_with_storage ::
  "allocs \<Rightarrow> storage \<Rightarrow> htable \<Rightarrow> kernel_heap \<Rightarrow> handle ipc \<times> htable \<times> kernel_heap" where
  "shared_memory_create_with_storage al st t h =
     (case SharedMemoryBacking_new al st (hp_next_identity h) of
        (Inl e, next') \<Rightarrow> (Inl e, t, h\<lparr>hp_next_identity := next'\<rparr>)
      | (Inr backing, next') \<Rightarrow>
          let h0 = h\<lparr>hp_next_identity := next'\<rparr>;
              m = length (hp_memories h);
              h1 = h0\<lparr>hp_memories := hp_memories h @ [backing]\<rparr>
          in case install_object (alloc_skip 1 al) (SharedMemory m) SHARED_MEMORY_DEFAULT_RIGHTS t h1 of
               (Inl e, t', _) \<Rightarrow> (Inl e, t', h0)
             | (Inr hn, t', h') \<Rightarrow> (Inr hn, t', h'))"

definition shared_memory_len :: "handle \<Rightarrow> htable \<Rightarrow> kernel_heap \<Rightarrow> nat ipc" where
  "shared_memory_len hn t h =
     (case object_with_rights t hn R_READ of
        Inl e \<Rightarrow> Inl e
      | Inr k \<Rightarrow> map_sum id (\<lambda>m. sb_logical_len (hp_memories h ! m)) (shared_memory_object h k))"

text \<open>The length of the output buffer stands for it; the bytes copied are returned.\<close>

definition shared_memory_read :: "handle \<Rightarrow> nat \<Rightarrow> nat \<Rightarrow> htable \<Rightarrow> kernel_heap \<Rightarrow> u8 list ipc" where
  "shared_memory_read hn offset len t h =
     (case object_with_rights t hn R_READ of
        Inl e \<Rightarrow> Inl e
      | Inr k \<Rightarrow>
          (case shared_memory_object h k of
             Inl e \<Rightarrow> Inl e
           | Inr m \<Rightarrow>
               (case checked_range offset len (sb_logical_len (hp_memories h ! m)) of
                  Inl e \<Rightarrow> Inl e
                | Inr _ \<Rightarrow> storage_read (sb_storage (hp_memories h ! m)) offset len)))"

definition shared_memory_write ::
  "handle \<Rightarrow> nat \<Rightarrow> u8 list \<Rightarrow> htable \<Rightarrow> kernel_heap \<Rightarrow> unit ipc \<times> kernel_heap" where
  "shared_memory_write hn offset input t h =
     (case object_with_rights t hn R_WRITE of
        Inl e \<Rightarrow> (Inl e, h)
      | Inr k \<Rightarrow>
          (case shared_memory_object h k of
             Inl e \<Rightarrow> (Inl e, h)
           | Inr m \<Rightarrow>
               (case checked_range offset (length input) (sb_logical_len (hp_memories h ! m)) of
                  Inl e \<Rightarrow> (Inl e, h)
                | Inr _ \<Rightarrow>
                    (case storage_write (sb_storage (hp_memories h ! m)) offset input of
                       (r, st) \<Rightarrow> (r, set_memory_storage m st h)))))"

datatype shared_memory_mapping_access = ReadOnly | ReadWrite

fun required_rights :: "shared_memory_mapping_access \<Rightarrow> rights" where
  "required_rights ReadOnly = R_MAP OR R_READ"
| "required_rights ReadWrite = R_MAP OR R_READ OR R_WRITE"

record shared_memory_mapping_info =
  mp_backing_identity :: nat
  mp_logical_len :: nat
  mp_mapped_len :: nat

record shared_memory_mapping_lease =
  ml_object :: oid
  ml_info :: shared_memory_mapping_info
  ml_effective_rights :: rights

definition shared_memory_mapping_lease ::
  "handle \<Rightarrow> shared_memory_mapping_access \<Rightarrow> htable \<Rightarrow> kernel_heap \<Rightarrow> shared_memory_mapping_lease ipc \<times> kernel_heap" where
  "shared_memory_mapping_lease hn acc t h =
     (let effective_rights = required_rights acc
      in case object_with_rights t hn effective_rights of
           Inl e \<Rightarrow> (Inl e, h)
         | Inr k \<Rightarrow>
             (case shared_memory_object h k of
                Inl e \<Rightarrow> (Inl e, h)
              | Inr m \<Rightarrow>
                  let backing = hp_memories h ! m;
                      info = \<lparr>mp_backing_identity = sb_identity backing, mp_logical_len = sb_logical_len backing,
                              mp_mapped_len = sb_mapped_len backing\<rparr>
                  in (Inr \<lparr>ml_object = k, ml_info = info, ml_effective_rights = effective_rights\<rparr>, add_ref k h)))"

definition mapping_lease_physical_page :: "shared_memory_mapping_lease \<Rightarrow> nat \<Rightarrow> kernel_heap \<Rightarrow> nat option" where
  "mapping_lease_physical_page lease page_index h =
     (case shared_memory_object h (ml_object lease) of
        Inl _ \<Rightarrow> None
      | Inr m \<Rightarrow> vec_get (sb_physical_pages (hp_memories h ! m)) page_index)"

record shared_memory_request_lease =
  rl_object :: oid
  rl_offset :: nat
  rl_len :: nat
  rl_rights :: rights

definition shared_memory_request_lease ::
  "handle \<Rightarrow> nat \<Rightarrow> nat \<Rightarrow> rights \<Rightarrow> htable \<Rightarrow> kernel_heap \<Rightarrow> shared_memory_request_lease ipc \<times> kernel_heap" where
  "shared_memory_request_lease hn offset len rights t h =
     (let allowed = R_READ OR R_WRITE
      in if rights = 0 \<or> \<not> contains allowed rights then (Inl InvalidRights, h)
         else
           (case object_with_rights t hn rights of
              Inl e \<Rightarrow> (Inl e, h)
            | Inr k \<Rightarrow>
                (case shared_memory_object h k of
                   Inl e \<Rightarrow> (Inl e, h)
                 | Inr m \<Rightarrow>
                     (case checked_range offset len (sb_logical_len (hp_memories h ! m)) of
                        Inl e \<Rightarrow> (Inl e, h)
                      | Inr _ \<Rightarrow>
                          (Inr \<lparr>rl_object = k, rl_offset = offset, rl_len = len, rl_rights = rights\<rparr>, add_ref k h)))))"

definition request_lease_read :: "shared_memory_request_lease \<Rightarrow> nat \<Rightarrow> nat \<Rightarrow> kernel_heap \<Rightarrow> u8 list ipc" where
  "request_lease_read lease offset len h =
     (if \<not> contains (rl_rights lease) R_READ then Inl AccessDenied
      else
        (case checked_range offset len (rl_len lease) of
           Inl e \<Rightarrow> Inl e
         | Inr (start, _) \<Rightarrow>
             (case checked_add (rl_offset lease) start of
                None \<Rightarrow> Inl InvalidMessage
              | Some absolute \<Rightarrow>
                  (case shared_memory_object h (rl_object lease) of
                     Inl e \<Rightarrow> Inl e
                   | Inr m \<Rightarrow> storage_read (sb_storage (hp_memories h ! m)) absolute len))))"

definition request_lease_write ::
  "shared_memory_request_lease \<Rightarrow> nat \<Rightarrow> u8 list \<Rightarrow> kernel_heap \<Rightarrow> unit ipc \<times> kernel_heap" where
  "request_lease_write lease offset input h =
     (if \<not> contains (rl_rights lease) R_WRITE then (Inl AccessDenied, h)
      else
        (case checked_range offset (length input) (rl_len lease) of
           Inl e \<Rightarrow> (Inl e, h)
         | Inr (start, _) \<Rightarrow>
             (case checked_add (rl_offset lease) start of
                None \<Rightarrow> (Inl InvalidMessage, h)
              | Some absolute \<Rightarrow>
                  (case shared_memory_object h (rl_object lease) of
                     Inl e \<Rightarrow> (Inl e, h)
                   | Inr m \<Rightarrow>
                       (case storage_write (sb_storage (hp_memories h ! m)) absolute input of
                          (r, st) \<Rightarrow> (r, set_memory_storage m st h))))))"

section \<open>Windows\<close>

definition WINDOW_BUFFER_COUNT :: nat where "WINDOW_BUFFER_COUNT = 2"

text \<open>The memory object is cloned into the window state, so creation takes one more reference to it.\<close>

definition window_create_with_generation_and_buffer_count ::
  "allocs \<Rightarrow> handle \<Rightarrow> nat \<Rightarrow> nat \<Rightarrow> htable \<Rightarrow> kernel_heap \<Rightarrow> (handle \<times> handle) ipc \<times> htable \<times> kernel_heap" where
  "window_create_with_generation_and_buffer_count al shared_memory generation buffer_count t h =
     (case object_with_rights t shared_memory R_MANAGE of
        Inl e \<Rightarrow> (Inl e, t, h)
      | Inr memory \<Rightarrow>
          if generation = 0 \<or> buffer_count < 2 then (Inl InvalidMessage, t, h)
          else
            (case shared_memory_object h memory of
               Inl e \<Rightarrow> (Inl e, t, h)
             | Inr m \<Rightarrow>
                 let memory_len = sb_logical_len (hp_memories h ! m)
                 in if memory_len < buffer_count \<or> memory_len mod buffer_count \<noteq> 0 then (Inl InvalidMessage, t, h)
                    else if \<not> try_vec_with_capacity al 0 buffer_count then (Inl OutOfMemory, t, h)
                    else
                      (case reserve_slots (alloc_skip 1 al) 2 t of
                         (Inl e, t1) \<Rightarrow> (Inl e, t1, h)
                       | (Inr slots, t1) \<Rightarrow>
                           (case new_window_objects (alloc_skip 3 al)
                                   (window_state_new memory (memory_len div buffer_count) generation buffer_count)
                                   (add_ref memory h) of
                              (Inl e, _) \<Rightarrow> (Inl e, t1, h)
                            | (Inr (client, manager), h1) \<Rightarrow>
                                (case insert_reserved (slots ! 0) client WINDOW_CLIENT_RIGHTS t1 of
                                   (client_handle, t2) \<Rightarrow>
                                     (case insert_reserved (slots ! 1) manager WINDOW_MANAGER_RIGHTS t2 of
                                        (manager_handle, t3) \<Rightarrow> (Inr (client_handle, manager_handle), t3, h1)))))))"

definition window_create ::
  "allocs \<Rightarrow> handle \<Rightarrow> htable \<Rightarrow> kernel_heap \<Rightarrow> (handle \<times> handle) ipc \<times> htable \<times> kernel_heap" where
  "window_create al shared_memory t h =
     window_create_with_generation_and_buffer_count al shared_memory 1 WINDOW_BUFFER_COUNT t h"

definition window_endpoint :: "kernel_heap \<Rightarrow> oid \<Rightarrow> (nat \<times> window_role) ipc" where
  "window_endpoint h k = (case object_at h k of Window w role \<Rightarrow> Inr (w, role) | _ \<Rightarrow> Inl WrongObjectType)"

definition window_endpoint_for_role :: "kernel_heap \<Rightarrow> oid \<Rightarrow> window_role \<Rightarrow> nat ipc" where
  "window_endpoint_for_role h k role =
     (case window_endpoint h k of
        Inl e \<Rightarrow> Inl e
      | Inr (w, r) \<Rightarrow> if r \<noteq> role then Inl AccessDenied else Inr w)"

text \<open>The window a handle names, after the checks common to the window calls.\<close>

definition window_of :: "htable \<Rightarrow> kernel_heap \<Rightarrow> handle \<Rightarrow> rights \<Rightarrow> window_role \<Rightarrow> nat ipc" where
  "window_of t h hn rights role =
     (case object_with_rights t hn rights of Inl e \<Rightarrow> Inl e | Inr k \<Rightarrow> window_endpoint_for_role h k role)"

definition window_at :: "kernel_heap \<Rightarrow> nat \<Rightarrow> window_state" where
  "window_at h w = snd (hp_windows h ! w)"

definition window_buffer_len :: "handle \<Rightarrow> htable \<Rightarrow> kernel_heap \<Rightarrow> nat ipc" where
  "window_buffer_len hn t h =
     (case object_with_rights t hn R_READ of
        Inl e \<Rightarrow> Inl e
      | Inr k \<Rightarrow> map_sum id (\<lambda>(w, _). wn_buffer_len (window_at h w)) (window_endpoint h k))"

definition window_buffer_count :: "handle \<Rightarrow> htable \<Rightarrow> kernel_heap \<Rightarrow> nat ipc" where
  "window_buffer_count hn t h =
     (case object_with_rights t hn R_READ of
        Inl e \<Rightarrow> Inl e
      | Inr k \<Rightarrow> map_sum id (\<lambda>(w, _). length (wn_buffers (window_at h w))) (window_endpoint h k))"

text \<open>A state operation of \<open>Window_State\<close> on the window a handle names.\<close>

definition window_call ::
  "handle \<Rightarrow> rights \<Rightarrow> window_role \<Rightarrow> (window_state \<Rightarrow> 'a window_result) \<Rightarrow> htable \<Rightarrow> kernel_heap \<Rightarrow> 'a ipc \<times> kernel_heap" where
  "window_call hn rights role f t h =
     (case window_of t h hn rights role of
        Inl e \<Rightarrow> (Inl e, h)
      | Inr w \<Rightarrow> (case f (window_at h w) of (r, evs, s) \<Rightarrow> (r, set_window w s evs h)))"

definition window_present :: "handle \<Rightarrow> nat \<Rightarrow> nat \<Rightarrow> htable \<Rightarrow> kernel_heap \<Rightarrow> window_presentation ipc \<times> kernel_heap" where
  "window_present client buffer_index generation t h =
     window_call client R_WRITE Client (win_present (hp_alive h) buffer_index generation) t h"

definition window_read_release :: "handle \<Rightarrow> htable \<Rightarrow> kernel_heap \<Rightarrow> window_release ipc \<times> kernel_heap" where
  "window_read_release client t h = window_call client R_READ Client (win_read_release (hp_alive h)) t h"

definition window_manager_pending :: "handle \<Rightarrow> htable \<Rightarrow> kernel_heap \<Rightarrow> window_presentation ipc" where
  "window_manager_pending manager t h =
     (case window_of t h manager R_MANAGE Manager of
        Inl e \<Rightarrow> Inl e
      | Inr w \<Rightarrow> win_manager_pending (window_at h w))"

definition window_manager_displayed :: "handle \<Rightarrow> htable \<Rightarrow> kernel_heap \<Rightarrow> window_presentation option ipc" where
  "window_manager_displayed manager t h =
     map_sum id (\<lambda>w. wn_displayed (window_at h w)) (window_of t h manager R_MANAGE Manager)"

text \<open>
  \<^verbatim>\<open>copy_window_buffer\<close>; \<open>None\<close> is the panic of its \<^verbatim>\<open>expect\<close>. The length of the
  output buffer stands for it.
\<close>

definition copy_window_buffer ::
  "window_state \<Rightarrow> window_presentation \<Rightarrow> nat \<Rightarrow> nat \<Rightarrow> kernel_heap \<Rightarrow> u8 list ipc option" where
  "copy_window_buffer s presentation offset len h =
     (if wp_generation presentation \<noteq> wn_generation s then Some (Inl InvalidMessage)
      else
        (case checked_range offset len (wn_buffer_len s) of
           Inl e \<Rightarrow> Some (Inl e)
         | Inr (start, stop) \<Rightarrow>
             if wp_buffer_index presentation \<ge> length (wn_buffers s) then Some (Inl InvalidMessage)
             else
               (case checked_mul (wp_buffer_index presentation) (wn_buffer_len s) of
                  None \<Rightarrow> Some (Inl InvalidMessage)
                | Some buffer_start \<Rightarrow>
                    (case (checked_add buffer_start start, checked_add buffer_start stop) of
                       (None, _) \<Rightarrow> Some (Inl InvalidMessage)
                     | (Some _, None) \<Rightarrow> Some (Inl InvalidMessage)
                     | (Some absolute, Some _) \<Rightarrow>
                         (case shared_memory_object h (wn_shared_memory s) of
                            Inl _ \<Rightarrow> None
                          | Inr m \<Rightarrow> Some (storage_read (sb_storage (hp_memories h ! m)) absolute len))))))"

definition window_manager_copy_pending ::
  "handle \<Rightarrow> window_presentation \<Rightarrow> nat \<Rightarrow> nat \<Rightarrow> htable \<Rightarrow> kernel_heap \<Rightarrow> (u8 list ipc \<times> kernel_heap) option" where
  "window_manager_copy_pending manager presentation offset len t h =
     (case window_of t h manager (R_READ OR R_MANAGE) Manager of
        Inl e \<Rightarrow> Some (Inl e, h)
      | Inr w \<Rightarrow>
          let s = window_at h w
          in if wn_pending s \<noteq> Some presentation then Some (Inl InvalidMessage, h)
             else
               (case copy_window_buffer s presentation offset len h of
                  None \<Rightarrow> None
                | Some (Inl e) \<Rightarrow> Some (Inl e, h)
                | Some (Inr bytes) \<Rightarrow> Some (Inr bytes, set_window w (s\<lparr>wn_pending_read := True\<rparr>) [] h)))"

definition window_manager_discard_pending ::
  "handle \<Rightarrow> window_presentation \<Rightarrow> htable \<Rightarrow> kernel_heap \<Rightarrow> unit ipc \<times> kernel_heap" where
  "window_manager_discard_pending manager presentation t h =
     window_call manager R_MANAGE Manager (win_discard_pending (hp_alive h) presentation) t h"

definition window_manager_coalesce_pending ::
  "handle \<Rightarrow> window_presentation \<Rightarrow> nat \<Rightarrow> nat \<Rightarrow> htable \<Rightarrow> kernel_heap \<Rightarrow> window_presentation ipc \<times> kernel_heap" where
  "window_manager_coalesce_pending manager pending replacement_index generation t h =
     window_call manager R_MANAGE Manager (win_coalesce_pending (hp_alive h) pending replacement_index generation) t h"

definition window_manager_copy_displayed ::
  "handle \<Rightarrow> window_presentation \<Rightarrow> nat \<Rightarrow> nat \<Rightarrow> htable \<Rightarrow> kernel_heap \<Rightarrow> u8 list ipc option" where
  "window_manager_copy_displayed manager presentation offset len t h =
     (case window_of t h manager (R_READ OR R_MANAGE) Manager of
        Inl e \<Rightarrow> Some (Inl e)
      | Inr w \<Rightarrow>
          let s = window_at h w
          in if wn_displayed s \<noteq> Some presentation then Some (Inl InvalidMessage)
             else copy_window_buffer s presentation offset len h)"

definition window_manager_complete ::
  "handle \<Rightarrow> window_presentation \<Rightarrow> bool \<Rightarrow> htable \<Rightarrow> kernel_heap \<Rightarrow> unit ipc \<times> kernel_heap" where
  "window_manager_complete manager presentation successful t h =
     window_call manager R_MANAGE Manager (win_complete (hp_alive h) presentation successful) t h"

definition window_manager_retire :: "handle \<Rightarrow> htable \<Rightarrow> kernel_heap \<Rightarrow> unit ipc \<times> kernel_heap" where
  "window_manager_retire manager t h = window_call manager R_MANAGE Manager (win_retire (hp_alive h)) t h"

section \<open>Object types and signals\<close>

definition table_object_type :: "handle \<Rightarrow> htable \<Rightarrow> kernel_heap \<Rightarrow> object_type ipc" where
  "table_object_type hn t h =
     (case table_entry t hn of
        Inl e \<Rightarrow> Inl e
      | Inr en \<Rightarrow>
          Inr (case object_at h (he_object en) of
                 Channel _ _ \<Rightarrow> Type_Channel
               | SharedMemory _ \<Rightarrow> Type_SharedMemory
               | RandomSource \<Rightarrow> Type_RandomSource
               | Window _ _ \<Rightarrow> Type_Window
               | Process _ \<Rightarrow> Type_Process
               | Request _ \<Rightarrow> Type_Request
               | ApplicationData _ \<Rightarrow> Type_ApplicationData
               | SystemPower _ \<Rightarrow> Type_SystemPower
               | SchedulingAuthority _ \<Rightarrow> Type_SchedulingAuthority
               | FilesystemRoot \<Rightarrow> Type_FilesystemRoot
               | Directory _ \<Rightarrow> Type_Directory
               | File _ \<Rightarrow> Type_File))"

definition signals_at :: "kernel_heap \<Rightarrow> kernel_object \<Rightarrow> signals" where
  "signals_at h obj =
     (case obj of
        Channel c sd \<Rightarrow> channel_signals (hp_channels h ! c) sd
      | Window w role \<Rightarrow> window_signals (window_at h w) role
      | Process p \<Rightarrow> process_signals (hp_processes h ! p)
      | Request r \<Rightarrow> request_signals (hp_requests h ! r)
      | _ \<Rightarrow> 0)"

definition object_signals :: "handle \<Rightarrow> htable \<Rightarrow> kernel_heap \<Rightarrow> signals ipc" where
  "object_signals hn t h =
     (case object_with_rights t hn R_WAIT of
        Inl e \<Rightarrow> Inl e
      | Inr k \<Rightarrow> Inr (signals_at h (object_at h k)))"

text \<open>
  The loop of \<^verbatim>\<open>poll_wait_many\<close>: it returns the first ready index, and the items with the
  pending signals it has filled in, also when a later item fails.
\<close>

fun poll_items ::
  "htable \<Rightarrow> kernel_heap \<Rightarrow> nat \<Rightarrow> nat option \<Rightarrow> wait_item list \<Rightarrow> nat option ipc \<times> wait_item list" where
  "poll_items t h index ready [] = (Inr ready, [])"
| "poll_items t h index ready (item # rest) =
     (case object_signals (wi_handle item) t h of
        Inl e \<Rightarrow> (Inl e, item # rest)
      | Inr pending \<Rightarrow>
          let ready' = (if ready = None \<and> intersects pending (wi_wait_for item) then Some index else ready)
          in case poll_items t h (index + 1) ready' rest of
               (r, rest') \<Rightarrow> (r, item\<lparr>wi_pending := pending\<rparr> # rest'))"

definition poll_wait_many :: "wait_item list \<Rightarrow> htable \<Rightarrow> kernel_heap \<Rightarrow> nat option ipc \<times> wait_item list" where
  "poll_wait_many items t h = poll_items t h 0 None items"

section \<open>Wait registrations\<close>

datatype wait_facet = Facet_Channel nat side | Facet_Window nat window_role | Facet_Process nat | Facet_Request nat

definition facet_of :: "kernel_object \<Rightarrow> wait_facet ipc" where
  "facet_of obj =
     (case obj of
        Channel c sd \<Rightarrow> Inr (Facet_Channel c sd)
      | Window w role \<Rightarrow> Inr (Facet_Window w role)
      | Process p \<Rightarrow> Inr (Facet_Process p)
      | Request r \<Rightarrow> Inr (Facet_Request r)
      | _ \<Rightarrow> Inl WrongObjectType)"

text \<open>
  \<^verbatim>\<open>WaitFacet::register\<close> on the state the facet holds. A facet kept by a registration pins its
  state; only the count of a window state matters, since it owns the memory object.
\<close>

fun wait_facet_register ::
  "allocs \<Rightarrow> wait_token \<Rightarrow> signals \<Rightarrow> observer \<Rightarrow> wait_facet \<Rightarrow> kernel_heap \<Rightarrow> bool ipc \<times> kernel_heap" where
  "wait_facet_register al token wait_for obs (Facet_Channel c sd) h =
     (let s = hp_channels h ! c
      in case facet_register al (channel_signals s sd) (ch_waiters s sd) token wait_for obs of
           (r, ws) \<Rightarrow> (r, set_channel c (set_channel_waiters sd ws s) [] h))"
| "wait_facet_register al token wait_for obs (Facet_Window w role) h =
     (let s = window_at h w
      in case facet_register al (window_signals s role) (wn_waiters s role) token wait_for obs of
           (r, ws) \<Rightarrow>
             let h1 = set_window w (set_window_waiters role ws s) [] h
             in (r, if r = Inr True then set_window_strong w (window_strong h1 w + 1) h1 else h1))"
| "wait_facet_register al token wait_for obs (Facet_Process p) h =
     (let s = hp_processes h ! p
      in case facet_register al (process_signals s) (pc_waiters s) token wait_for obs of
           (r, ws) \<Rightarrow> (r, set_process p (s\<lparr>pc_waiters := ws\<rparr>) [] h))"
| "wait_facet_register al token wait_for obs (Facet_Request q) h =
     (let s = hp_requests h ! q
      in case facet_register al (request_signals s) (rc_waiters s) token wait_for obs of
           (r, ws) \<Rightarrow> (r, set_request q (s\<lparr>rc_waiters := ws\<rparr>) [] h))"

fun wait_facet_unregister :: "wait_token \<Rightarrow> wait_facet \<Rightarrow> kernel_heap \<Rightarrow> kernel_heap" where
  "wait_facet_unregister token (Facet_Channel c sd) h =
     (let s = hp_channels h ! c
      in set_channel c (set_channel_waiters sd (facet_unregister token (ch_waiters s sd)) s) [] h)"
| "wait_facet_unregister token (Facet_Window w role) h =
     (let s = window_at h w
      in set_window w (set_window_waiters role (facet_unregister token (wn_waiters s role)) s) [] h)"
| "wait_facet_unregister token (Facet_Process p) h =
     (let s = hp_processes h ! p in set_process p (s\<lparr>pc_waiters := facet_unregister token (pc_waiters s)\<rparr>) [] h)"
| "wait_facet_unregister token (Facet_Request q) h =
     (let s = hp_requests h ! q in set_request q (s\<lparr>rc_waiters := facet_unregister token (rc_waiters s)\<rparr>) [] h)"

definition facet_windows :: "wait_facet list \<Rightarrow> nat list" where
  "facet_windows facets = concat (map (\<lambda>f. case f of Facet_Window w _ \<Rightarrow> [w] | _ \<Rightarrow> []) facets)"

record wait_set_registration =
  wr_token :: wait_token
  wr_facets :: "wait_facet list"

text \<open>\<^verbatim>\<open>Drop for WaitSetRegistration\<close>, then the drop of its facets.\<close>

definition registration_drop :: "wait_set_registration \<Rightarrow> kernel_heap \<Rightarrow> kernel_heap" where
  "registration_drop reg h =
     drop_refs (map Drop_window (facet_windows (wr_facets reg)))
       (fold (wait_facet_unregister (wr_token reg)) (wr_facets reg) h)"

text \<open>The loop of \<^verbatim>\<open>register_wait_many\<close>; it returns the facets retained so far also on an error.\<close>

fun register_items ::
  "allocs \<Rightarrow> wait_token \<Rightarrow> observer \<Rightarrow> htable \<Rightarrow> wait_item list \<Rightarrow> wait_facet list \<Rightarrow> bool \<Rightarrow> kernel_heap
     \<Rightarrow> bool ipc \<times> wait_facet list \<times> kernel_heap" where
  "register_items al token obs t [] facets ready h = (Inr ready, facets, h)"
| "register_items al token obs t (item # items) facets ready h =
     (case table_entry t (wi_handle item) of
        Inl e \<Rightarrow> (Inl e, facets, h)
      | Inr en \<Rightarrow>
          if \<not> contains (he_rights en) R_WAIT then (Inl AccessDenied, facets, h)
          else
            (case facet_of (object_at h (he_object en)) of
               Inl e \<Rightarrow> (Inl e, facets, h)
             | Inr facet \<Rightarrow>
                 (case wait_facet_register al token (wi_wait_for item) obs facet h of
                    (Inl e, h') \<Rightarrow> (Inl e, facets, h')
                  | (Inr True, h') \<Rightarrow> register_items (alloc_skip 1 al) token obs t items (facets @ [facet]) ready h'
                  | (Inr False, h') \<Rightarrow> register_items al token obs t items facets True h')))"

definition register_wait_many ::
  "allocs \<Rightarrow> wait_item list \<Rightarrow> wait_token \<Rightarrow> observer \<Rightarrow> htable \<Rightarrow> kernel_heap
     \<Rightarrow> wait_set_registration ipc \<times> kernel_heap" where
  "register_wait_many al items token obs t h =
     (if \<not> try_vec_with_capacity al 0 (length items) then (Inl OutOfMemory, h)
      else
        (case register_items (alloc_skip 1 al) token obs t items [] False h of
           (Inl e, facets, h') \<Rightarrow> (Inl e, registration_drop \<lparr>wr_token = token, wr_facets = facets\<rparr> h')
         | (Inr already_ready, facets, h') \<Rightarrow>
             (Inr \<lparr>wr_token = token, wr_facets = facets\<rparr>,
              if already_ready then h'\<lparr>hp_events := hp_events h' @ [(obs, token)]\<rparr> else h')))"

section \<open>The calls keep the invariant\<close>

text \<open>What a change of the control states, memories and counters must leave alone.\<close>

lemma ipc_frame:
  assumes "ipc_ok X W t h" "hp_objects h' = hp_objects h" "hp_channels h' = hp_channels h" "hp_windows h' = hp_windows h"
    and "length (hp_memories h) \<le> length (hp_memories h')" "length (hp_processes h) \<le> length (hp_processes h')"
      "length (hp_requests h) \<le> length (hp_requests h')" "length (hp_powers h) \<le> length (hp_powers h')"
      "length (hp_authorities h) \<le> length (hp_authorities h')"
    and "\<forall>s \<in> set (hp_processes h'). process_quiet s" "\<forall>s \<in> set (hp_requests h'). request_quiet s"
  shows "ipc_ok X W t h'"
proof -
  have same: "strong h' = strong h" "object_at h' = object_at h" "queue_refs h' = queue_refs h" "window_refs h' = window_refs h"
    "window_strong h' = window_strong h" "live h' = live h"
    using assms(2-4)
    by (simp_all add: fun_eq_iff strong_def object_at_def queue_refs_def window_refs_def window_strong_def live_def)
  have range: "object_in_range h ob \<Longrightarrow> object_in_range h' ob" for ob
    using assms(3-9) by (cases ob) auto
  have "outgoing h' d = outgoing h d" for d
    by (rule outgoing_same) (simp_all add: same assms(3))
  then have "channel_edges h' = channel_edges h" by (simp add: channel_edges_def)
  moreover have "heap_ok (X + table_refs t) W h'"
    using assms(1,10,11) range
    by (auto simp: ipc_ok_def heap_ok_def counts_ok_def endpoints_ok_def states_ok_def same assms(2-4))
  ultimately show ?thesis using assms(1) by (simp add: ipc_ok_def)
qed

lemma ipc_quiet:
  assumes "ipc_ok X W t h"
  shows "\<forall>s \<in> set (hp_processes h). process_quiet s" "\<forall>s \<in> set (hp_requests h). request_quiet s"
  using assms by (simp_all add: ipc_ok_def heap_ok_def states_ok_def)

lemma processes_update: "\<forall>s \<in> set ss. process_quiet s \<Longrightarrow> process_quiet s' \<Longrightarrow> \<forall>s \<in> set (ss[p := s']). process_quiet s"
  using set_update_subset_insert [of ss p s'] by blast

lemma requests_update: "\<forall>s \<in> set ss. request_quiet s \<Longrightarrow> request_quiet s' \<Longrightarrow> \<forall>s \<in> set (ss[p := s']). request_quiet s"
  using set_update_subset_insert [of ss p s'] by blast

lemma edges_more_objects:
  assumes "heap_ok X W h" "hp_channels h' = hp_channels h" "\<And>k. k < length (hp_objects h) \<Longrightarrow> object_at h' k = object_at h k"
  shows "channel_edges h' = channel_edges h"
proof -
  have "k < length (hp_objects h)" if "d < length (hp_channels h)" "k \<in># channel_refs (hp_channels h ! d)" for d k
  proof -
    have "k \<in># queue_refs h" using channel_refs_subset [OF that(1)] that(2) by (rule mset_subset_eqD)
    then have "strong h k > 0" using assms(1) by (simp add: heap_ok_def counts_ok_def)
    then show ?thesis using strong_pos [of h k] by simp
  qed
  then have "outgoing h' d = outgoing h d" for d
    by (auto simp: outgoing_def vec_get_def assms(2) channel_refs_def intro!: channel_targets_cong assms(3))
  then show ?thesis by (simp add: channel_edges_def)
qed

lemma install_object_ok:
  assumes "ipc_ok X W t h" "install_object al ob rights t h = (r, t', h')" "\<not> is_endpoint ob" "object_in_range h ob"
  shows "ipc_ok X W t' h'"
proof (cases "al 0")
  case True
  obtain r0 t1 where rs: "reserve_slots (alloc_skip 1 al) 1 t = (r0, t1)" by fastforce
  have wf: "table_wf t" and ok: "heap_ok (X + table_refs t) W h" and ac: "acyclic (channel_edges h)"
    using assms(1) by (simp_all add: ipc_ok_def)
  note R = reserve_slots_ok [OF rs wf]
  show ?thesis
  proof (cases r0)
    case (Inl e)
    then show ?thesis using assms(2) True rs R ok ac by (auto simp: install_object_def ipc_ok_def)
  next
    case (Inr js)
    note S = reserve_slots_Inr [OF rs [unfolded Inr] wf]
    obtain k h1 where n: "new_object ob h = (k, h1)" by fastforce
    obtain hn t2 where i: "insert_reserved (js ! 0) k rights t1 = (hn, t2)" by fastforce
    have out: "t' = t2" "h' = h1" using assms(2) True rs Inr n i by (auto simp: install_object_def)
    have "js ! 0 \<in> set js" using S(1) by simp
    then have j: "js ! 0 < length t1" "slot_vacant (t1 ! (js ! 0))" using S(3) by auto
    have h1: "h1 = h\<lparr>hp_objects := hp_objects h @ [(1, ob)]\<rparr>" and k: "k = length (hp_objects h)"
      using n by (simp_all add: new_object_def)
    have "channel_edges h1 = channel_edges h"
      by (rule edges_more_objects [OF ok]) (simp_all add: h1 object_at_def nth_append)
    moreover have "heap_ok (X + {#k#} + table_refs t1) W h1"
      using new_object_ok [OF ok n assms(3,4)] R by (simp add: ac_simps)
    ultimately show ?thesis
      using insert_reserved_ok [OF i _ j, of X W h1] S(5) ac by (simp add: out)
  qed
qed (use assms(1,2) in \<open>simp add: install_object_def\<close>)

lemma install_object_error:
  assumes "install_object al ob rights t h = (Inl e, t', h')"
  shows "t' = t" "h' = h"
  using assms
  by (auto simp: install_object_def split: if_splits sum.splits prod.splits dest: reserve_slots_Inl)

lemma ipc_in_range:
  assumes "ipc_ok X W t h" "k \<in># table_refs t"
  shows "object_in_range h (object_at h k)"
  using assms ipc_ok_strong [OF assms] strong_pos [of h k] by (simp add: ipc_ok_def heap_ok_def endpoints_ok_def)

text \<open>Capabilities over existing or freshly allocated control states.\<close>

lemma process_install_ok:
  assumes "ipc_ok X W t h" "process_install al p t h = (r, t', h')" "p < length (hp_processes h)"
  shows "ipc_ok X W t' h'"
  using install_object_ok [OF assms(1) assms(2) [unfolded process_install_def]] assms(3) by simp

lemma process_create_ok:
  assumes "ipc_ok X W t h" "process_create al t h = (r, t', h')"
  shows "ipc_ok X W t' h'"
proof -
  let ?h1 = "h\<lparr>hp_processes := hp_processes h @ [ProcessControl_new]\<rparr>" and ?p = "length (hp_processes h)"
  have h1: "ipc_ok X W t ?h1"
    by (rule ipc_frame [OF assms(1)])
      (use ipc_quiet [OF assms(1)] in \<open>auto simp: process_quiet_def ProcessControl_new_def\<close>)
  obtain r1 t1 h2 where i: "process_install (alloc_skip 1 al) ?p t ?h1 = (r1, t1, h2)" by (metis prod_cases3)
  have ok: "ipc_ok X W t1 h2" by (rule process_install_ok [OF h1 i]) simp
  show ?thesis
  proof (cases r1)
    case (Inl e)
    then have "ipc_ok X W t1 h" using install_object_error [OF i [unfolded process_install_def Inl]] assms(1) by simp
    then show ?thesis using assms i Inl by (auto simp: process_create_def Let_def split: if_splits)
  next
    case (Inr hn)
    then show ?thesis using assms i ok by (auto simp: process_create_def Let_def split: if_splits)
  qed
qed

lemma set_process_ok:
  assumes "ipc_ok X W t h" "process_quiet s"
  shows "ipc_ok X W t (set_process p s evs h)"
  by (rule ipc_frame [OF assms(1)])
    (use ipc_quiet [OF assms(1)] processes_update [OF ipc_quiet(1) [OF assms(1)] assms(2)] in \<open>simp_all add: set_process_def\<close>)

lemma set_request_ok:
  assumes "ipc_ok X W t h" "request_quiet s"
  shows "ipc_ok X W t (set_request q s evs h)"
  by (rule ipc_frame [OF assms(1)])
    (use ipc_quiet [OF assms(1)] requests_update [OF ipc_quiet(2) [OF assms(1)] assms(2)] in \<open>simp_all add: set_request_def\<close>)

lemma process_control_Inr: "process_control h k = Inr p \<longleftrightarrow> object_at h k = Process p"
  by (cases "object_at h k") (simp_all add: process_control_def)

lemma process_terminate_ok:
  assumes "ipc_ok X W t h" "process_terminate hn t h = (r, h')"
  shows "ipc_ok X W t h'"
proof (cases "\<exists>k p. object_with_rights t hn R_TERMINATE = Inr k \<and> process_control h k = Inr p")
  case True
  then obtain k p where k: "object_with_rights t hn R_TERMINATE = Inr k" "process_control h k = Inr p" by blast
  obtain b evs s where f: "request_terminate (hp_alive h) (hp_processes h ! p) = (b, evs, s)" by (metis prod_cases3)
  have h': "h' = set_process p s evs h" using assms(2) k f by (simp add: process_terminate_def)
  have "p < length (hp_processes h)"
    using ipc_in_range [OF assms(1) object_with_rights_ref [OF k(1)]] k(2) by (simp add: process_control_Inr)
  then have "process_quiet (hp_processes h ! p)" using ipc_quiet(1) [OF assms(1)] by simp
  then have "process_quiet s" by (rule process_step_quiet) (rule process_step.request [OF f])
  then show ?thesis unfolding h' by (rule set_process_ok [OF assms(1)])
next
  case False
  then have "h' = h" using assms(2) by (auto simp: process_terminate_def split: sum.splits)
  then show ?thesis using assms(1) by simp
qed

lemma request_install_ok:
  assumes "ipc_ok X W t h" "request_install al q t h = (r, t', h')" "q < length (hp_requests h)"
  shows "ipc_ok X W t' h'"
  using install_object_ok [OF assms(1) assms(2) [unfolded request_install_def]] assms(3) by simp

lemma system_power_install_ok:
  assumes "ipc_ok X W t h" "system_power_install al p t h = (r, t', h')" "p < length (hp_powers h)"
  shows "ipc_ok X W t' h'"
  using install_object_ok [OF assms(1) assms(2) [unfolded system_power_install_def]] assms(3) by simp

lemma set_power_ok:
  assumes "ipc_ok X W t h"
  shows "ipc_ok X W t (set_power p s h)"
  by (rule ipc_frame [OF assms(1)])
    (use ipc_quiet [OF assms(1)] in \<open>simp_all add: set_power_def\<close>)

lemma system_power_ok:
  assumes "ipc_ok X W t h"
  shows "system_power_request hn action flags dl t h = (r, h') \<Longrightarrow> ipc_ok X W t h'"
    and "system_power_cancel hn t h = (r, h') \<Longrightarrow> ipc_ok X W t h'"
  using assms
  by (auto simp: system_power_request_def system_power_cancel_def set_power_ok
      split: sum.splits prod.splits kernel_object.splits)

lemma scheduling_authority_create_ok:
  assumes "ipc_ok X W t h" "scheduling_authority_create al mx act t h = (r, t', h')"
  shows "ipc_ok X W t' h'"
proof (cases "SchedulingAuthority_new al mx act")
  case (Inr a)
  let ?h1 = "h\<lparr>hp_authorities := hp_authorities h @ [a]\<rparr>" and ?ob = "SchedulingAuthority (length (hp_authorities h))"
  have h1: "ipc_ok X W t ?h1" by (rule ipc_frame [OF assms(1)]) (use ipc_quiet [OF assms(1)] in auto)
  obtain r1 t1 h2 where i: "install_object (alloc_skip 1 al) ?ob (R_SCHEDULE OR R_INSPECT) t ?h1 = (r1, t1, h2)"
    by (metis prod_cases3)
  have ok: "ipc_ok X W t1 h2" by (rule install_object_ok [OF h1 i]) simp_all
  show ?thesis
  proof (cases r1)
    case (Inl e)
    then have "ipc_ok X W t1 h" using install_object_error [OF i [unfolded Inl]] assms(1) by simp
    then show ?thesis using assms i Inr Inl by (auto simp: scheduling_authority_create_def Let_def)
  next
    case r1: (Inr hn)
    then show ?thesis using assms i ok Inr by (auto simp: scheduling_authority_create_def Let_def)
  qed
qed (use assms in \<open>simp add: scheduling_authority_create_def\<close>)

lemma install_guarded_ok:
  assumes "ipc_ok X W t h" "(if c then (Inl e, t, h) else install_object al ob rights t h) = (r, t', h')"
    and "\<not> is_endpoint ob" "object_in_range h ob"
  shows "ipc_ok X W t' h'"
  using assms(1,2) install_object_ok [OF assms(1) _ assms(3,4), of al rights r t' h'] by (cases c) auto

lemma capability_create_ok:
  assumes "ipc_ok X W t h"
  shows "random_source_create al t h = (r, t', h') \<Longrightarrow> ipc_ok X W t' h'"
    and "application_data_create al app t h = (r, t', h') \<Longrightarrow> ipc_ok X W t' h'"
    and "filesystem_root_create_with_rights al rt t h = (r, t', h') \<Longrightarrow> ipc_ok X W t' h'"
    and "filesystem_directory_create al d rt t h = (r, t', h') \<Longrightarrow> ipc_ok X W t' h'"
    and "filesystem_file_create al f rt t h = (r, t', h') \<Longrightarrow> ipc_ok X W t' h'"
proof -
  show "random_source_create al t h = (r, t', h') \<Longrightarrow> ipc_ok X W t' h'"
    unfolding random_source_create_def by (rule install_object_ok [OF assms, of al RandomSource]) simp_all
  show "application_data_create al app t h = (r, t', h') \<Longrightarrow> ipc_ok X W t' h'"
    using assms install_guarded_ok [OF assms, of "\<not> al 0 \<or> \<not> al 1" _ _ "ApplicationData app"]
    by (simp add: application_data_create_def split: if_split_asm)
  show "filesystem_root_create_with_rights al rt t h = (r, t', h') \<Longrightarrow> ipc_ok X W t' h'"
    unfolding filesystem_root_create_with_rights_def Let_def by (rule install_guarded_ok [OF assms], assumption) simp_all
  show "filesystem_directory_create al d rt t h = (r, t', h') \<Longrightarrow> ipc_ok X W t' h'"
    unfolding filesystem_directory_create_def Let_def by (rule install_guarded_ok [OF assms], assumption) simp_all
  show "filesystem_file_create al f rt t h = (r, t', h') \<Longrightarrow> ipc_ok X W t' h'"
    unfolding filesystem_file_create_def Let_def by (rule install_guarded_ok [OF assms], assumption) simp_all
qed

text \<open>Leases take one reference to their object.\<close>

lemma lease_ref_ok:
  assumes "ipc_ok X W t h" "object_with_rights t hn rt = Inr k"
  shows "ipc_ok (X + {#k#}) W t (add_ref k h)"
proof -
  have "strong h k > 0" by (rule ipc_ok_strong [OF assms(1) object_with_rights_ref [OF assms(2)]])
  then show ?thesis
    using add_ref_ok [of "X + table_refs t" W h k] assms(1) by (simp add: ipc_ok_def ac_simps)
qed

definition lease_refs :: "('a \<Rightarrow> oid) \<Rightarrow> 'a ipc \<Rightarrow> oid multiset" where
  "lease_refs f r = (case r of Inl _ \<Rightarrow> {#} | Inr l \<Rightarrow> {#f l#})"

lemma filesystem_file_lease_ok:
  assumes "ipc_ok X W t h" "filesystem_file_lease hn rt t h = (r, h')"
  shows "ipc_ok (X + lease_refs fl_object r) W t h'"
proof (cases "object_with_rights t hn rt")
  case (Inr k)
  then show ?thesis
    using assms lease_ref_ok [OF assms(1) Inr]
    by (cases "object_at h k") (auto simp: filesystem_file_lease_def lease_refs_def)
qed (use assms in \<open>auto simp: filesystem_file_lease_def lease_refs_def\<close>)

lemma shared_memory_object_Inr: "shared_memory_object h k = Inr m \<longleftrightarrow> object_at h k = SharedMemory m"
  by (cases "object_at h k") (simp_all add: shared_memory_object_def)

lemma shared_memory_mapping_lease_ok:
  assumes "ipc_ok X W t h" "shared_memory_mapping_lease hn acc t h = (r, h')"
  shows "ipc_ok (X + lease_refs ml_object r) W t h'"
proof (cases "object_with_rights t hn (required_rights acc)")
  case (Inr k)
  then show ?thesis
    using assms lease_ref_ok [OF assms(1) Inr]
    by (cases "shared_memory_object h k") (auto simp: shared_memory_mapping_lease_def lease_refs_def Let_def)
qed (use assms in \<open>auto simp: shared_memory_mapping_lease_def lease_refs_def Let_def\<close>)

lemma shared_memory_request_lease_ok:
  assumes "ipc_ok X W t h" "shared_memory_request_lease hn off len rt t h = (r, h')"
  shows "ipc_ok (X + lease_refs rl_object r) W t h'"
proof (cases "object_with_rights t hn rt")
  case (Inr k)
  then show ?thesis
    using assms lease_ref_ok [OF assms(1) Inr]
    by (cases "shared_memory_object h k")
      (auto simp: shared_memory_request_lease_def lease_refs_def Let_def split: if_splits sum.splits)
qed (use assms in \<open>auto simp: shared_memory_request_lease_def lease_refs_def Let_def split: if_splits\<close>)

text \<open>Shared memory.\<close>

lemma set_memory_storage_ok:
  assumes "ipc_ok X W t h"
  shows "ipc_ok X W t (set_memory_storage m st h)"
  by (rule ipc_frame [OF assms(1)])
    (use ipc_quiet [OF assms(1)] in \<open>simp_all add: set_memory_storage_def\<close>)

lemma next_identity_ok:
  assumes "ipc_ok X W t h"
  shows "ipc_ok X W t (h\<lparr>hp_next_identity := n\<rparr>)"
  by (rule ipc_frame [OF assms(1)])
    (use ipc_quiet [OF assms(1)] in \<open>simp_all\<close>)

lemma shared_memory_create_ok:
  assumes "ipc_ok X W t h" "shared_memory_create_with_storage al st t h = (r, t', h')"
  shows "ipc_ok X W t' h'"
proof -
  obtain r0 n where b: "SharedMemoryBacking_new al st (hp_next_identity h) = (r0, n)" by fastforce
  let ?h0 = "h\<lparr>hp_next_identity := n\<rparr>" and ?m = "length (hp_memories h)"
  have h0: "ipc_ok X W t ?h0" by (rule next_identity_ok [OF assms(1)])
  show ?thesis
  proof (cases r0)
    case (Inl e)
    then show ?thesis using assms b h0 by (auto simp: shared_memory_create_with_storage_def)
  next
    case (Inr bk)
    let ?h1 = "?h0\<lparr>hp_memories := hp_memories h @ [bk]\<rparr>"
    have h1: "ipc_ok X W t ?h1" by (rule ipc_frame [OF h0]) (use ipc_quiet [OF assms(1)] in simp_all)
    obtain r1 t1 h2 where i: "install_object (alloc_skip 1 al) (SharedMemory ?m) SHARED_MEMORY_DEFAULT_RIGHTS t ?h1 = (r1, t1, h2)"
      by (metis prod_cases3)
    have ok: "ipc_ok X W t1 h2" by (rule install_object_ok [OF h1 i]) simp_all
    show ?thesis
    proof (cases r1)
      case (Inl e)
      then have "ipc_ok X W t1 ?h0" using install_object_error [OF i [unfolded Inl]] h0 by simp
      then show ?thesis using assms b i Inr Inl by (auto simp: shared_memory_create_with_storage_def Let_def)
    next
      case r1: (Inr hn)
      then show ?thesis using assms b i ok Inr by (auto simp: shared_memory_create_with_storage_def Let_def)
    qed
  qed
qed

lemma shared_memory_write_ok:
  assumes "ipc_ok X W t h" "shared_memory_write hn off input t h = (r, h')"
  shows "ipc_ok X W t h'"
proof -
  have "h' = h \<or> (\<exists>m st. h' = set_memory_storage m st h)"
    using assms(2) by (auto simp: shared_memory_write_def split: sum.splits prod.splits)
  then show ?thesis using assms(1) by (auto simp: set_memory_storage_ok)
qed

lemma request_lease_write_ok:
  assumes "ipc_ok X W t h" "request_lease_write l off input h = (r, h')"
  shows "ipc_ok X W t h'"
proof -
  have "h' = h \<or> (\<exists>m st. h' = set_memory_storage m st h)"
    using assms(2) by (auto simp: request_lease_write_def split: sum.splits prod.splits option.splits if_splits)
  then show ?thesis using assms(1) by (auto simp: set_memory_storage_ok)
qed

text \<open>Windows: every operation but the drop of an endpoint keeps the open flags and the memory.\<close>

definition window_kept :: "window_state \<Rightarrow> window_state \<Rightarrow> bool" where
  "window_kept s s' \<longleftrightarrow> wn_client_open s' = wn_client_open s \<and> wn_manager_open s' = wn_manager_open s \<and>
     wn_shared_memory s' = wn_shared_memory s"

lemma notify_window_both_kept: "notify_window_both alive s = (evs, s') \<Longrightarrow> window_kept s s'"
  by (auto simp: window_kept_def dest!: notify_window_both_frame)

lemma window_kept_trans: "window_kept s s1 \<Longrightarrow> window_kept s1 s2 \<Longrightarrow> window_kept s s2"
  by (simp add: window_kept_def)

lemma win_ops_kept:
  "win_present alive i g s = (r1, evs, s') \<Longrightarrow> window_kept s s'"
  "win_read_release alive s = (r2, evs, s') \<Longrightarrow> window_kept s s'"
  "win_discard_pending alive p s = (r3, evs, s') \<Longrightarrow> window_kept s s'"
  "win_coalesce_pending alive p i g s = (r1, evs, s') \<Longrightarrow> window_kept s s'"
  "win_complete alive p ok s = (r3, evs, s') \<Longrightarrow> window_kept s s'"
  "win_retire alive s = (r3, evs, s') \<Longrightarrow> window_kept s s'"
  by (auto simp: win_present_def win_read_release_def win_discard_pending_def win_coalesce_pending_def
      win_complete_def win_retire_def window_kept_def Let_def
      dest!: notify_window_both_kept split: if_splits option.splits prod.splits sum.splits)

lemma window_of_Inr:
  assumes "window_of t h hn rt role = Inr w"
  obtains k where "object_with_rights t hn rt = Inr k" "object_at h k = Window w role"
  using assms that
  by (auto simp: window_of_def window_endpoint_for_role_def window_endpoint_def
      split: sum.splits kernel_object.splits if_splits)

lemma set_window_step_ok:
  assumes "ipc_ok X W t h" "w < length (hp_windows h)" "window_step (window_at h w) s" "window_kept (window_at h w) s"
  shows "ipc_ok X W t (set_window w s evs h)"
proof -
  have "window_wf (window_at h w)" "window_quiet (window_at h w)"
    using assms(1,2) by (simp_all add: ipc_ok_def heap_ok_def states_ok_def window_at_def)
  then have "window_wf s" "window_quiet s" using window_step_wf [OF assms(3)] window_step_quiet [OF assms(3)] by simp_all
  moreover have "\<forall>role. window_open s role = window_open (snd (hp_windows h ! w)) role"
    "wn_shared_memory s = wn_shared_memory (snd (hp_windows h ! w))"
    using assms(4) by (auto simp: window_kept_def window_at_def window_open_def split: window_role.splits)
  ultimately have "heap_ok (X + table_refs t) W (set_window w s evs h)"
    using assms(1,2) by (intro set_window_ok) (simp_all add: ipc_ok_def)
  moreover have "outgoing (set_window w s evs h) d = outgoing h d" for d
    by (rule outgoing_same) simp_all
  ultimately show ?thesis using assms(1) by (simp add: ipc_ok_def channel_edges_def)
qed

lemma window_call_ok:
  assumes "ipc_ok X W t h" "window_call hn rt role f t h = (r, h')"
    and f: "\<And>s r evs s'. f s = (r, evs, s') \<Longrightarrow> window_step s s' \<and> window_kept s s'"
  shows "ipc_ok X W t h'"
proof (cases "window_of t h hn rt role")
  case (Inr w)
  then obtain k where k: "object_with_rights t hn rt = Inr k" "object_at h k = Window w role" by (rule window_of_Inr)
  have w: "w < length (hp_windows h)" using ipc_in_range [OF assms(1) object_with_rights_ref [OF k(1)]] k(2) by simp
  obtain r1 evs s where s: "f (window_at h w) = (r1, evs, s)" by (metis prod_cases3)
  then have "h' = set_window w s evs h" using assms(2) Inr by (simp add: window_call_def)
  then show ?thesis using set_window_step_ok [OF assms(1) w] f [OF s] by simp
qed (use assms(1,2) in \<open>simp add: window_call_def\<close>)

lemma window_ops_ok:
  assumes "ipc_ok X W t h"
  shows "window_present hn i g t h = (r1, h') \<Longrightarrow> ipc_ok X W t h'"
    and "window_read_release hn t h = (r2, h') \<Longrightarrow> ipc_ok X W t h'"
    and "window_manager_discard_pending hn p t h = (r3, h') \<Longrightarrow> ipc_ok X W t h'"
    and "window_manager_coalesce_pending hn p i g t h = (r1, h') \<Longrightarrow> ipc_ok X W t h'"
    and "window_manager_complete hn p ok t h = (r3, h') \<Longrightarrow> ipc_ok X W t h'"
    and "window_manager_retire hn t h = (r3, h') \<Longrightarrow> ipc_ok X W t h'"
  unfolding window_present_def window_read_release_def window_manager_discard_pending_def
    window_manager_coalesce_pending_def window_manager_complete_def window_manager_retire_def
  by (erule window_call_ok [OF assms], blast intro: window_step.intros win_ops_kept)+

lemma window_manager_copy_pending_ok:
  assumes "ipc_ok X W t h" "window_manager_copy_pending hn p off len t h = Some (r, h')"
  shows "ipc_ok X W t h'"
proof (cases "window_of t h hn (R_READ OR R_MANAGE) Manager")
  case (Inr w)
  then obtain k where k: "object_with_rights t hn (R_READ OR R_MANAGE) = Inr k" "object_at h k = Window w Manager"
    by (rule window_of_Inr)
  have w: "w < length (hp_windows h)" using ipc_in_range [OF assms(1) object_with_rights_ref [OF k(1)]] k(2) by simp
  let ?s = "window_at h w"
  have "h' = h \<or> wn_pending ?s = Some p \<and> h' = set_window w (?s\<lparr>wn_pending_read := True\<rparr>) [] h"
    using assms(2) Inr
    by (auto simp: window_manager_copy_pending_def Let_def split: if_splits option.splits sum.splits)
  then show ?thesis
  proof
    assume "wn_pending ?s = Some p \<and> h' = set_window w (?s\<lparr>wn_pending_read := True\<rparr>) [] h"
    then show ?thesis
      using set_window_step_ok [OF assms(1) w window_step.copy_pending [of ?s p]] by (simp add: window_kept_def)
  qed (use assms(1) in simp)
qed (use assms in \<open>simp add: window_manager_copy_pending_def\<close>)

lemma window_state_new_fields [simp]:
  "wn_shared_memory (window_state_new m len g n) = m"
  "wn_client_open (window_state_new m len g n)" "wn_manager_open (window_state_new m len g n)"
  by (simp_all add: window_state_new_def)

lemma window_create_ok:
  assumes "ipc_ok X W t h" "window_create_with_generation_and_buffer_count al hn g n t h = (r, t', h')"
  shows "ipc_ok X W t' h'"
proof (cases "t' = t \<and> h' = h")
  case False
  then obtain k m where k: "object_with_rights t hn R_MANAGE = Inr k" "shared_memory_object h k = Inr m"
    using assms(2) by (auto simp: window_create_with_generation_and_buffer_count_def Let_def split: sum.splits if_splits)
  let ?s = "window_state_new k (sb_logical_len (hp_memories h ! m) div n) g n"
  obtain r0 t1 where rs: "reserve_slots (alloc_skip 1 al) 2 t = (r0, t1)" by fastforce
  obtain r1 h1 where nw: "new_window_objects (alloc_skip 3 al) ?s (add_ref k h) = (r1, h1)" by fastforce
  have wf: "table_wf t" and ac: "acyclic (channel_edges h)" using assms(1) by (simp_all add: ipc_ok_def)
  note R = reserve_slots_ok [OF rs wf]
  have same: "ipc_ok X W t1 h" using R assms(1) by (simp add: ipc_ok_def)
  show ?thesis
  proof (cases "\<exists>js cl mg. r0 = Inr js \<and> r1 = Inr (cl, mg)")
    case True
    then obtain js cl mg where js: "r0 = Inr js" and ob: "r1 = Inr (cl, mg)" by blast
    obtain hc t2 where i1: "insert_reserved (js ! 0) cl WINDOW_CLIENT_RIGHTS t1 = (hc, t2)" by fastforce
    obtain hm t3 where i2: "insert_reserved (js ! 1) mg WINDOW_MANAGER_RIGHTS t2 = (hm, t3)" by fastforce
    have out: "t' = t3" "h' = h1"
      using assms(2) False k rs nw js ob i1 i2
      by (auto simp: window_create_with_generation_and_buffer_count_def Let_def split: if_splits)
    note S = reserve_slots_Inr [OF rs [unfolded js] wf]
    have jj: "js ! 0 \<in> set js" "js ! 1 \<in> set js" "js ! 1 \<noteq> js ! 0"
      using S(1,2) by (auto simp: nth_eq_iff_index_eq)
    have a: "heap_ok (X + table_refs t + {#k#}) W (add_ref k h)"
      using lease_ref_ok [OF assms(1) k(1)] by (simp add: ipc_ok_def ac_simps)
    have "heap_ok (X + table_refs t + {#cl, mg#}) W h1"
      by (rule new_window_objects_ok [OF _ nw [unfolded ob]])
        (use a in \<open>simp_all add: window_state_new_wf\<close>)
    then have h1: "heap_ok (X + {#mg#} + {#cl#} + table_refs t1) W h1" using R by (simp add: ac_simps add_mset_commute)
    have "channel_edges h1 = channel_edges (add_ref k h)"
      by (rule edges_more_objects [OF a])
        (use nw ob in \<open>auto simp: new_window_objects_def Let_def push_objects_def object_at_def nth_append split: if_splits\<close>)
    then have ac1: "acyclic (channel_edges h1)" using ac by simp
    from insert_reserved_ok [OF i1 _ _ _ h1 ac1] S jj have 2: "ipc_ok (X + {#mg#}) W t2 h1" by auto
    have "js ! 1 < length t2" "slot_vacant (t2 ! (js ! 1))"
      using insert_reserved_vacant [OF i1 jj(3)] S(3) jj(2) by auto
    then show ?thesis using insert_reserved_ok [OF i2, of X W h1] 2 by (simp add: out ipc_ok_def)
  next
    case err: False
    then have "t' = t1 \<and> h' = h"
      using assms(2) False k rs nw
      by (auto simp: window_create_with_generation_and_buffer_count_def Let_def split: if_splits sum.splits)
    then show ?thesis using same by simp
  qed
qed (use assms(1) in simp)

text \<open>Wait registrations.\<close>

lemma set_channel_waiters_ok:
  assumes "ipc_ok X W t h" "c < length (hp_channels h)"
    and "quiet (channel_signals (hp_channels h ! c) sd) ws" "length ws \<le> WAITERS_PER_FACET_LIMIT"
  shows "ipc_ok X W t (set_channel c (set_channel_waiters sd ws (hp_channels h ! c)) [] h)"
proof -
  let ?s = "hp_channels h ! c" and ?s' = "set_channel_waiters sd ws (hp_channels h ! c)"
  have "channel_wf ?s" "channel_quiet ?s" using assms(1,2) by (simp_all add: ipc_ok_def heap_ok_def states_ok_def)
  then have s': "channel_wf ?s'" "channel_quiet ?s'"
    using assms(3,4)
    by (auto simp: channel_wf_side [where sd = sd] channel_side_wf_def channel_quiet_side [where sd = sd] set_channel_waiters_def)
  have refs: "channel_refs ?s' = channel_refs ?s" by (simp add: channel_refs_def set_channel_waiters_def)
  have "heap_ok (X + table_refs t + {#}) W (set_channel c ?s' [] h)"
    by (rule set_channel_ok [where A = "{#}" and B = "{#}"])
      (use assms(1,2) s' refs in \<open>simp_all add: ipc_ok_def, simp add: set_channel_waiters_def\<close>)
  moreover have "set (outgoing (set_channel c ?s' [] h) d) \<subseteq> set (outgoing h d)" for d
    by (rule outgoing_set_channel [where c = c and s = ?s']) (simp_all add: refs)
  then have "acyclic (channel_edges (set_channel c ?s' [] h))"
    using assms(1) acyclic_shrink by (auto simp: ipc_ok_def)
  ultimately show ?thesis using assms(1) by (simp add: ipc_ok_def)
qed

fun facet_in_range :: "kernel_heap \<Rightarrow> wait_facet \<Rightarrow> bool" where
  "facet_in_range h (Facet_Channel c _) \<longleftrightarrow> c < length (hp_channels h)"
| "facet_in_range h (Facet_Window w _) \<longleftrightarrow> w < length (hp_windows h)"
| "facet_in_range h (Facet_Process p) \<longleftrightarrow> p < length (hp_processes h)"
| "facet_in_range h (Facet_Request q) \<longleftrightarrow> q < length (hp_requests h)"

lemma ipc_channel_limit:
  assumes "ipc_ok X W t h" "c < length (hp_channels h)"
  shows "quiet (channel_signals (hp_channels h ! c) sd) (ch_waiters (hp_channels h ! c) sd)"
    "length (ch_waiters (hp_channels h ! c) sd) \<le> WAITERS_PER_FACET_LIMIT"
  using assms
  by (simp_all add: ipc_ok_def heap_ok_def states_ok_def channel_quiet_side [where sd = sd]
      channel_wf_side [where sd = sd] channel_side_wf_def)

lemma facet_sizes:
  "length (hp_channels (set_process p s evs h)) = length (hp_channels h)"
  "length (hp_windows (set_process p s evs h)) = length (hp_windows h)"
  "length (hp_channels (set_request q s' evs h)) = length (hp_channels h)"
  "length (hp_windows (set_request q s' evs h)) = length (hp_windows h)"
  by (simp_all add: set_process_def set_request_def)

text \<open>Steps that keep the sizes of the stores keep facets and objects where they are.\<close>

definition same_shape :: "kernel_heap \<Rightarrow> kernel_heap \<Rightarrow> bool" where
  "same_shape h h' \<longleftrightarrow>
     (\<forall>k. object_at h' k = object_at h k) \<and> length (hp_channels h') = length (hp_channels h) \<and>
     length (hp_windows h') = length (hp_windows h) \<and> length (hp_processes h') = length (hp_processes h) \<and>
     length (hp_requests h') = length (hp_requests h)"

lemma same_shape_refl [simp]: "same_shape h h"
  by (simp add: same_shape_def)

lemma same_shape_trans [trans]: "same_shape h h1 \<Longrightarrow> same_shape h1 h2 \<Longrightarrow> same_shape h h2"
  by (simp add: same_shape_def)

lemma same_shape_facet: "same_shape h h' \<Longrightarrow> facet_in_range h' f = facet_in_range h f"
  by (cases f) (simp_all add: same_shape_def)

lemma same_shape_set [simp]:
  "same_shape h (set_channel c s evs h)" "same_shape h (set_window w s' evs h)"
  "same_shape h (set_process p s'' evs h)" "same_shape h (set_request q s''' evs h)"
  "same_shape h (set_window_strong w n h)"
  by (simp_all add: same_shape_def set_channel_def set_window_def set_process_def set_request_def
      set_window_strong_def object_at_def)

lemma pin_window_ok:
  assumes "ipc_ok X W t h" "window_strong h w > 0"
  shows "ipc_ok X (W + {#w#}) t (set_window_strong w (window_strong h w + 1) h)"
proof -
  let ?h = "set_window_strong w (window_strong h w + 1) h"
  have w: "w < length (hp_windows h)" using window_strong_pos [of h w] assms(2) by simp
  have "window_refs ?h = window_refs h" by (rule window_refs_more [OF w assms(2)]) simp
  then have "heap_ok (X + table_refs t) (W + {#w#}) ?h"
    using assms(1) w states_set_window_strong [of h w]
    by (auto simp: ipc_ok_def heap_ok_def counts_ok_def endpoints_ok_def)
  moreover have "outgoing ?h d = outgoing h d" for d
    by (rule outgoing_same) (simp_all add: set_window_strong_def object_at_def)
  ultimately show ?thesis using assms(1) by (simp add: ipc_ok_def channel_edges_def)
qed

lemma facet_windows_simps [simp]:
  "facet_windows [] = []" "facet_windows (fs @ gs) = facet_windows fs @ facet_windows gs"
  "facet_windows (Facet_Window w role # fs) = w # facet_windows fs"
  "facet_windows (Facet_Channel c sd # fs) = facet_windows fs"
  "facet_windows (Facet_Process p # fs) = facet_windows fs"
  "facet_windows (Facet_Request q # fs) = facet_windows fs"
  by (simp_all add: facet_windows_def)

lemma wait_facet_register_ok:
  assumes "ipc_ok X W t h" "k \<in># table_refs t" "facet_of (object_at h k) = Inr f"
    and "wait_facet_register al token wait_for obs f h = (r, h')"
  shows "ipc_ok X (W + (if r = Inr True then mset (facet_windows [f]) else {#})) t h' \<and> same_shape h h' \<and> facet_in_range h f"
proof -
  have range: "object_in_range h (object_at h k)" by (rule ipc_in_range [OF assms(1,2)])
  show ?thesis
  proof (cases "object_at h k")
    case (Channel c sd)
    then have f: "f = Facet_Channel c sd" and c: "c < length (hp_channels h)" using assms(3) range by (auto simp: facet_of_def)
    obtain ws where r: "facet_register al (channel_signals (hp_channels h ! c) sd) (ch_waiters (hp_channels h ! c) sd)
        token wait_for obs = (r, ws)" and h': "h' = set_channel c (set_channel_waiters sd ws (hp_channels h ! c)) [] h"
      using assms(4) by (auto simp: f Let_def split: prod.splits)
    note L = ipc_channel_limit [OF assms(1) c]
    show ?thesis
      using set_channel_waiters_ok [OF assms(1) c facet_register_quiet [OF L(1) r] facet_register_limit [OF L(2) r]] c
      by (simp add: h' f)
  next
    case (Window w role)
    then have f: "f = Facet_Window w role" and w: "w < length (hp_windows h)" using assms(3) range by (auto simp: facet_of_def)
    let ?s = "window_at h w"
    obtain ws where r: "facet_register al (window_signals ?s role) (wn_waiters ?s role) token wait_for obs = (r, ws)"
      using assms(4) by (auto simp: f Let_def split: prod.splits)
    let ?h1 = "set_window w (set_window_waiters role ws ?s) [] h"
    have h': "h' = (if r = Inr True then set_window_strong w (window_strong ?h1 w + 1) ?h1 else ?h1)"
      using assms(4) r by (auto simp: f Let_def)
    have h1: "ipc_ok X W t ?h1"
      by (rule set_window_step_ok [OF assms(1) w window_step.register [OF r refl]]) (simp add: window_kept_def set_window_waiters_def)
    have "live h (Window w role)"
      using ipc_ok_strong [OF assms(1,2)] Window by (auto simp: live_def)
    then have "window_open (snd (hp_windows h ! w)) role"
      using assms(1) w by (simp add: ipc_ok_def heap_ok_def endpoints_ok_def)
    then have "window_strong h w > 0"
      using assms(1) w by (cases role) (auto simp: ipc_ok_def heap_ok_def counts_ok_def)
    then have "window_strong ?h1 w > 0" by simp
    from pin_window_ok [OF h1 this] h1 show ?thesis
      using w same_shape_trans [OF same_shape_set(2) same_shape_set(5)] by (auto simp: h' f)
  next
    case (Process p)
    then have f: "f = Facet_Process p" and p: "p < length (hp_processes h)" using assms(3) range by (auto simp: facet_of_def)
    obtain ws where r: "facet_register al (process_signals (hp_processes h ! p)) (pc_waiters (hp_processes h ! p))
        token wait_for obs = (r, ws)" and h': "h' = set_process p ((hp_processes h ! p)\<lparr>pc_waiters := ws\<rparr>) [] h"
      using assms(4) by (auto simp: f Let_def split: prod.splits)
    have "process_quiet (hp_processes h ! p)" using ipc_quiet(1) [OF assms(1)] p by simp
    then have "process_quiet ((hp_processes h ! p)\<lparr>pc_waiters := ws\<rparr>)"
      by (rule process_step_quiet) (rule process_step.register [OF r])
    then show ?thesis using set_process_ok [OF assms(1)] p by (simp add: h' f)
  next
    case (Request q)
    then have f: "f = Facet_Request q" and q: "q < length (hp_requests h)" using assms(3) range by (auto simp: facet_of_def)
    obtain ws where r: "facet_register al (request_signals (hp_requests h ! q)) (rc_waiters (hp_requests h ! q))
        token wait_for obs = (r, ws)" and h': "h' = set_request q ((hp_requests h ! q)\<lparr>rc_waiters := ws\<rparr>) [] h"
      using assms(4) by (auto simp: f Let_def split: prod.splits)
    have "request_quiet (hp_requests h ! q)" using ipc_quiet(2) [OF assms(1)] q by simp
    then have "request_quiet ((hp_requests h ! q)\<lparr>rc_waiters := ws\<rparr>)"
      using facet_register_quiet [OF _ r] by (simp add: request_quiet_def)
    then show ?thesis using set_request_ok [OF assms(1)] q by (simp add: h' f)
  qed (use assms(3) in \<open>simp_all add: facet_of_def\<close>)
qed

lemma wait_facet_unregister_ok:
  assumes "ipc_ok X W t h" "facet_in_range h f"
  shows "ipc_ok X W t (wait_facet_unregister token f h) \<and> same_shape h (wait_facet_unregister token f h)"
proof (cases f)
  case (Facet_Channel c sd)
  let ?ws = "facet_unregister token (ch_waiters (hp_channels h ! c) sd)"
  have c: "c < length (hp_channels h)" using assms(2) Facet_Channel by simp
  note L = ipc_channel_limit [OF assms(1) c]
  have "length ?ws \<le> WAITERS_PER_FACET_LIMIT"
    using L(2) [of sd] by (simp add: facet_unregister_def) (meson length_filter_le le_trans)
  then show ?thesis
    using set_channel_waiters_ok [OF assms(1) c quiet_unregister [OF L(1)]] by (simp add: Facet_Channel Let_def)
next
  case (Facet_Window w role)
  then show ?thesis
    using set_window_step_ok [OF assms(1) _ window_step.unregister [OF refl]] assms(2)
    by (simp add: Let_def window_kept_def set_window_waiters_def)
next
  case (Facet_Process p)
  then have "process_quiet (hp_processes h ! p)" using ipc_quiet(1) [OF assms(1)] assms(2) by simp
  then have "process_quiet ((hp_processes h ! p)\<lparr>pc_waiters := facet_unregister token (pc_waiters (hp_processes h ! p))\<rparr>)"
    by (rule process_step_quiet) (rule process_step.unregister)
  then show ?thesis using set_process_ok [OF assms(1)] by (simp add: Facet_Process Let_def)
next
  case (Facet_Request q)
  then have "request_quiet (hp_requests h ! q)" using ipc_quiet(2) [OF assms(1)] assms(2) by simp
  then have "request_quiet ((hp_requests h ! q)\<lparr>rc_waiters := facet_unregister token (rc_waiters (hp_requests h ! q))\<rparr>)"
    by (simp add: request_quiet_def quiet_unregister)
  then show ?thesis using set_request_ok [OF assms(1)] by (simp add: Facet_Request Let_def)
qed

lemma unregister_all_ok:
  assumes "ipc_ok X W t h" "\<forall>f \<in> set fs. facet_in_range h f"
  shows "ipc_ok X W t (fold (wait_facet_unregister token) fs h) \<and> same_shape h (fold (wait_facet_unregister token) fs h)"
  using assms
proof (induction fs arbitrary: h)
  case (Cons f fs)
  let ?h1 = "wait_facet_unregister token f h"
  have h1: "ipc_ok X W t ?h1" "same_shape h ?h1"
    using wait_facet_unregister_ok [OF Cons.prems(1), of f] Cons.prems(2) by simp_all
  have "\<forall>g \<in> set fs. facet_in_range ?h1 g" using same_shape_facet [OF h1(2)] Cons.prems(2) by simp
  from Cons.IH [OF h1(1) this] show ?case using same_shape_trans [OF h1(2)] by simp
qed simp

lemma item_windows_map [simp]: "item_windows (map Drop_window ws) = mset ws" "item_objects (map Drop_window ws) = {#}"
  by (induction ws) (simp_all add: item_windows_def item_objects_def)

lemma registration_drop_ok:
  assumes "ipc_ok X (W + mset (facet_windows (wr_facets reg))) t h" "\<forall>f \<in> set (wr_facets reg). facet_in_range h f"
  shows "ipc_ok X W t (registration_drop reg h)"
proof -
  let ?h1 = "fold (wait_facet_unregister (wr_token reg)) (wr_facets reg) h"
  let ?items = "map Drop_window (facet_windows (wr_facets reg))"
  have "ipc_ok X (W + mset (facet_windows (wr_facets reg))) t ?h1"
    using unregister_all_ok [OF assms, of "wr_token reg"] by simp
  then have "heap_ok (X + table_refs t + item_objects ?items) (W + item_windows ?items) ?h1"
    and "acyclic (channel_edges ?h1)" "table_wf t" by (simp_all add: ipc_ok_def)
  then show ?thesis
    using drop_refs_ok [of "X + table_refs t" ?items W ?h1] drop_refs_acyclic [of ?h1 ?items]
    by (simp add: ipc_ok_def registration_drop_def)
qed

lemma register_items_ok:
  assumes "register_items al token obs t items fs ready h = (r, fs', h')"
    and "ipc_ok X (W + mset (facet_windows fs)) t h" "\<forall>f \<in> set fs. facet_in_range h f"
  shows "ipc_ok X (W + mset (facet_windows fs')) t h' \<and> same_shape h h' \<and> (\<forall>f \<in> set fs'. facet_in_range h' f)"
  using assms
proof (induction items arbitrary: al fs ready h)
  case (Cons item items)
  show ?case
  proof (cases "\<exists>en f. table_entry t (wi_handle item) = Inr en \<and> contains (he_rights en) R_WAIT \<and>
      facet_of (object_at h (he_object en)) = Inr f")
    case True
    then obtain en f where en: "table_entry t (wi_handle item) = Inr en" "contains (he_rights en) R_WAIT"
      "facet_of (object_at h (he_object en)) = Inr f" by blast
    obtain r1 h1 where w: "wait_facet_register al token (wi_wait_for item) obs f h = (r1, h1)" by fastforce
    note W = wait_facet_register_ok [OF Cons.prems(2) table_entry_ref [OF en(1)] en(3) w]
    have range: "\<forall>g \<in> set (f # fs). facet_in_range h1 g"
      using W same_shape_facet [of h h1] Cons.prems(3) by auto
    show ?thesis
    proof (cases r1)
      case (Inl e)
      then show ?thesis using Cons.prems W en w range by auto
    next
      case (Inr b)
      have h1: "ipc_ok X (W + mset (facet_windows (if b then fs @ [f] else fs))) t h1"
        using W Inr by (simp add: add.assoc split: if_splits)
      have "register_items (if b then alloc_skip 1 al else al) token obs t items (if b then fs @ [f] else fs)
          (if b then ready else True) h1 = (r, fs', h')"
        using Cons.prems(1) en w Inr by (simp split: if_splits bool.splits)
      from Cons.IH [OF this h1] range show ?thesis
        using W same_shape_trans by auto
    qed
  next
    case False
    then have "fs' = fs \<and> h' = h"
      using Cons.prems(1) by (auto split: sum.splits if_splits)
    then show ?thesis using Cons.prems by simp
  qed
qed simp

lemma register_wait_many_ok:
  assumes "ipc_ok X W t h" "register_wait_many al items token obs t h = (r, h')"
  shows "case r of Inl _ \<Rightarrow> ipc_ok X W t h'
    | Inr reg \<Rightarrow> ipc_ok X (W + mset (facet_windows (wr_facets reg))) t h' \<and> (\<forall>f \<in> set (wr_facets reg). facet_in_range h' f)"
proof (cases "try_vec_with_capacity al 0 (length items)")
  case True
  obtain r1 fs h1 where g: "register_items (alloc_skip 1 al) token obs t items [] False h = (r1, fs, h1)" by (metis prod_cases3)
  have G: "ipc_ok X (W + mset (facet_windows fs)) t h1" "\<forall>f \<in> set fs. facet_in_range h1 f"
    using register_items_ok [OF g, of X W] assms(1) by simp_all
  show ?thesis
  proof (cases r1)
    case (Inl e)
    then show ?thesis
      using assms(2) True g registration_drop_ok [of X W "\<lparr>wr_token = token, wr_facets = fs\<rparr>" t h1] G
      by (auto simp: register_wait_many_def)
  next
    case (Inr b)
    let ?h2 = "h1\<lparr>hp_events := hp_events h1 @ [(obs, token)]\<rparr>"
    have "ipc_ok X (W + mset (facet_windows fs)) t ?h2"
      by (rule ipc_frame [OF G(1)]) (use ipc_quiet [OF G(1)] in simp_all)
    moreover have "\<forall>f \<in> set fs. facet_in_range ?h2 f"
      using same_shape_facet [of h1 ?h2] G(2) by (simp add: same_shape_def object_at_def)
    ultimately show ?thesis using assms(2) True g Inr G by (auto simp: register_wait_many_def split: if_splits)
  qed
qed (use assms in \<open>auto simp: register_wait_many_def\<close>)

section \<open>The stores only grow\<close>

text \<open>
  Objects keep their number and contents for ever, states keep their index, and a window keeps the
  memory object it was created over.
\<close>

definition grows :: "kernel_heap \<Rightarrow> kernel_heap \<Rightarrow> bool" where
  "grows h h' \<longleftrightarrow>
     length (hp_objects h) \<le> length (hp_objects h') \<and>
     (\<forall>k < length (hp_objects h). object_at h' k = object_at h k) \<and>
     length (hp_channels h) \<le> length (hp_channels h') \<and> length (hp_windows h) \<le> length (hp_windows h') \<and>
     (\<forall>w < length (hp_windows h). wn_shared_memory (window_at h' w) = wn_shared_memory (window_at h w)) \<and>
     length (hp_memories h) \<le> length (hp_memories h') \<and> length (hp_processes h) \<le> length (hp_processes h') \<and>
     length (hp_requests h) \<le> length (hp_requests h')"

definition steady :: "kernel_heap \<Rightarrow> kernel_heap \<Rightarrow> bool" where
  "steady h h' \<longleftrightarrow> grows h h' \<and> length (hp_windows h') = length (hp_windows h)"

lemma steady_refl [simp]: "steady h h"
  by (simp add: steady_def grows_def)

lemma steady_trans [trans]: "steady h h1 \<Longrightarrow> steady h1 h2 \<Longrightarrow> steady h h2"
  by (auto simp: steady_def grows_def)

lemma steady_updates [simp]:
  "steady h (set_strong k n h)" "steady h (set_channel c s evs h)" "steady h (set_window_strong w n h)"
  "steady h (add_ref k h)" "steady h (set_process p ps evs h)" "steady h (set_request q rs evs h)"
  "steady h (set_power p pw h)" "steady h (set_memory_storage m st h)"
  "steady h (h\<lparr>hp_processes := hp_processes h @ pss\<rparr>)" "steady h (h\<lparr>hp_requests := hp_requests h @ rss\<rparr>)"
  "steady h (h\<lparr>hp_authorities := as\<rparr>)" "steady h (h\<lparr>hp_powers := pws\<rparr>)" "steady h (h\<lparr>hp_events := es\<rparr>)"
  "steady h (h\<lparr>hp_next_identity := i\<rparr>)" "steady h (h\<lparr>hp_memories := hp_memories h @ ms\<rparr>)"
  "steady h (h\<lparr>hp_channels := hp_channels h @ cs\<rparr>)"
  "steady h (push_objects obs h)"
  by (auto simp: steady_def grows_def set_strong_def set_channel_def set_window_strong_def add_ref_def set_process_def
      set_request_def set_power_def set_memory_storage_def push_objects_def object_at_def nth_append nth_list_update
      window_at_def vec_get_def snd_update_same strong_def split: if_splits)

lemma steady_set_window:
  "wn_shared_memory s = wn_shared_memory (window_at h w) \<Longrightarrow> steady h (set_window w s evs h)"
  by (auto simp: steady_def grows_def set_window_def window_at_def object_at_def nth_update_cases)

lemma steady_add_refs [simp]: "steady h (add_refs ks h)"
proof (induction ks arbitrary: h)
  case (Cons k ks)
  then show ?case using steady_trans [OF steady_updates(4) Cons.IH, of h k] by (simp add: add_refs_def)
qed (simp add: add_refs_def)

lemma steady_new_object: "new_object ob h = (k, h') \<Longrightarrow> steady h h'"
  using steady_updates(17) [of h "[ob]"] by (auto simp: new_object_def push_objects_def)

lemma steady_drop_step:
  assumes "drop_step item h = (new, h')"
  shows "steady h h'"
proof -
  have c: "steady h (set_channel c s evs (set_strong k n h))" for c s evs k n
    using steady_trans [OF steady_updates(1,2)] .
  have w: "steady h (set_window w s evs (set_strong k n h))"
    if "window_endpoint_drop alive role (snd (hp_windows h ! w)) = (evs, s)" for alive role w s evs k n
  proof (rule steady_trans [OF steady_updates(1) steady_set_window])
    show "wn_shared_memory s = wn_shared_memory (window_at (set_strong k n h) w)"
      using window_endpoint_drop_spec [OF that] by (simp add: window_at_def)
  qed
  show ?thesis
    using assms c w
    by (auto simp: drop_step_def Let_def split: drop_item.splits kernel_object.splits if_splits prod.splits nat.splits)
qed

lemma steady_drop_refs [simp]: "steady h (drop_refs items h)"
proof (induction items h rule: drop_refs.induct)
  case (2 item rest h)
  obtain new h' where d: "drop_step item h = (new, h')" by fastforce
  then show ?case using steady_trans [OF steady_drop_step [OF d] "2.IH" [OF d [symmetric]]] by (simp add: d)
qed simp

text \<open>Every call but window creation.\<close>

lemma steady_handle_calls:
  "handle_close hn t h = (r, t', h') \<Longrightarrow> steady h h'"
  "handle_duplicate al hn rt t h = (rd, t', h') \<Longrightarrow> steady h h'"
  "transfer_between al ds t u h = (rl, t', u', h') \<Longrightarrow> steady h h'"
  "steady h (table_drop t h)"
  by (auto simp: handle_close_def handle_duplicate_def transfer_between_def table_drop_def simp del: drop_refs.simps
      split: sum.splits prod.splits)

lemma steady_new_channel_objects: "new_channel_objects al h = (r, h') \<Longrightarrow> steady h h'"
  using steady_trans [OF steady_updates(16) steady_updates(17)]
  by (auto simp: new_channel_objects_def Let_def split: if_splits)

lemma steady_channel_create:
  "channel_create al t h = (r, t', h') \<Longrightarrow> steady h h'"
  "channel_create_between al t u h = (r, t', u', h') \<Longrightarrow> steady h h'"
  by (auto simp: channel_create_def channel_create_between_def split: sum.splits prod.splits dest: steady_new_channel_objects)

lemma steady_channel_write_bytes: "channel_write_bytes al hn bytes t h = (r, h') \<Longrightarrow> steady h h'"
  by (auto simp: channel_write_bytes_def split: sum.splits prod.splits if_splits)

lemma steady_channel_write_impl:
  assumes "channel_write_with_handle_operations_impl al hn bytes ds t h = (r, t', h')"
  shows "steady h h'"
  using assms
proof (cases rule: channel_write_impl_cases)
  case (ok k c sd ps ens evs s)
  show ?thesis unfolding ok(12) by (rule steady_trans [OF steady_add_refs steady_updates(2)])
qed simp

lemma steady_channel_write:
  "channel_write_with_handle_operations al hn bytes ds t h = (r, t', h') \<Longrightarrow> steady h h'"
  "channel_write_with_dispositions al hn bytes dr t h = (r, t', h') \<Longrightarrow> steady h h'"
  by (auto simp: channel_write_with_handle_operations_def channel_write_with_dispositions_def
      split: if_splits prod.splits dest: steady_channel_write_bytes steady_channel_write_impl)

lemma steady_channel_write_plain: "channel_write al hn bytes hs t h = (r, t', h') \<Longrightarrow> steady h h'"
  by (auto simp: channel_write_def split: if_splits prod.splits sum.splits
      dest: steady_channel_write_bytes steady_channel_write(2))

lemma steady_channel_read:
  assumes "channel_read al hn bl hl t h = (r, t', h')"
  shows "steady h h'"
  using assms by (cases rule: channel_read_cases) simp_all

lemma steady_install_object: "install_object al ob rt t h = (r, t', h') \<Longrightarrow> steady h h'"
  by (auto simp: install_object_def split: if_splits sum.splits prod.splits dest: steady_new_object)

lemma steady_install_after:
  "steady h h1 \<Longrightarrow> install_object al ob rt t h1 = (r, t', h') \<Longrightarrow> steady h h'"
  by (rule steady_trans [OF _ steady_install_object])

lemma steady_capability_calls:
  "process_install al p t h = (r, t', h') \<Longrightarrow> steady h h'"
  "request_install al p t h = (r, t', h') \<Longrightarrow> steady h h'"
  "system_power_install al p t h = (r, t', h') \<Longrightarrow> steady h h'"
  "random_source_create al t h = (r, t', h') \<Longrightarrow> steady h h'"
  "application_data_create al app t h = (r, t', h') \<Longrightarrow> steady h h'"
  "filesystem_root_create_with_rights al rt t h = (r, t', h') \<Longrightarrow> steady h h'"
  "filesystem_directory_create al d rt t h = (r, t', h') \<Longrightarrow> steady h h'"
  "filesystem_file_create al f rt t h = (r, t', h') \<Longrightarrow> steady h h'"
  by (auto simp: process_install_def request_install_def system_power_install_def random_source_create_def
      application_data_create_def filesystem_root_create_with_rights_def filesystem_directory_create_def
      filesystem_file_create_def Let_def split: if_splits dest: steady_install_object)

lemma steady_created_controls:
  "process_create al t h = (rp, t', h') \<Longrightarrow> steady h h'"
  "scheduling_authority_create al mx act t h = (rp, t', h') \<Longrightarrow> steady h h'"
  by (auto simp: process_create_def process_install_def scheduling_authority_create_def Let_def
      split: if_splits sum.splits prod.splits
      dest: steady_install_after [OF steady_updates(9)] steady_install_after [OF steady_updates(11)])

lemma steady_control_calls:
  "process_terminate hn t h = (r, h') \<Longrightarrow> steady h h'"
  "system_power_request hn act fl dl t h = (r, h') \<Longrightarrow> steady h h'"
  "system_power_cancel hn t h = (r, h') \<Longrightarrow> steady h h'"
  by (auto simp: process_terminate_def system_power_request_def system_power_cancel_def
      split: sum.splits prod.splits kernel_object.splits)

lemma steady_leases:
  "filesystem_file_lease hn rt t h = (rf, h') \<Longrightarrow> steady h h'"
  "shared_memory_mapping_lease hn acc t h = (rm, h') \<Longrightarrow> steady h h'"
  "shared_memory_request_lease hn off len rt t h = (rr, h') \<Longrightarrow> steady h h'"
  by (auto simp: filesystem_file_lease_def shared_memory_mapping_lease_def shared_memory_request_lease_def Let_def
      split: sum.splits prod.splits kernel_object.splits if_splits)

lemma steady_memory_calls:
  "shared_memory_write hn off input t h = (r, h') \<Longrightarrow> steady h h'"
  "request_lease_write l off input h = (r, h') \<Longrightarrow> steady h h'"
  by (auto simp: shared_memory_write_def request_lease_write_def split: sum.splits prod.splits option.splits if_splits)

lemma steady_shared_memory_create:
  assumes "shared_memory_create_with_storage al st t h = (r, t', h')"
  shows "steady h h'"
proof -
  have "steady h (h\<lparr>hp_next_identity := n, hp_memories := hp_memories h @ [b]\<rparr>)" for n b
    using steady_trans [OF steady_updates(14) steady_updates(15), of h n] by simp
  from steady_install_after [OF this] assms show ?thesis
    by (auto simp: shared_memory_create_with_storage_def Let_def split: sum.splits prod.splits)
qed

lemma steady_window_call:
  assumes "window_call hn rt role f t h = (r, h')" "\<And>s r evs s'. f s = (r, evs, s') \<Longrightarrow> window_kept s s'"
  shows "steady h h'"
  using assms
  by (auto simp: window_call_def window_kept_def split: sum.splits prod.splits intro!: steady_set_window)

lemma steady_window_ops:
  "window_present hn i g t h = (r1, h') \<Longrightarrow> steady h h'"
  "window_read_release hn t h = (r2, h') \<Longrightarrow> steady h h'"
  "window_manager_discard_pending hn p t h = (r3, h') \<Longrightarrow> steady h h'"
  "window_manager_coalesce_pending hn p i g t h = (r1, h') \<Longrightarrow> steady h h'"
  "window_manager_complete hn p ok t h = (r3, h') \<Longrightarrow> steady h h'"
  "window_manager_retire hn t h = (r3, h') \<Longrightarrow> steady h h'"
  unfolding window_present_def window_read_release_def window_manager_discard_pending_def
    window_manager_coalesce_pending_def window_manager_complete_def window_manager_retire_def
  by (erule steady_window_call, erule win_ops_kept)+

lemma steady_copy_pending: "window_manager_copy_pending hn p off len t h = Some (r, h') \<Longrightarrow> steady h h'"
  by (auto simp: window_manager_copy_pending_def Let_def split: sum.splits option.splits if_splits intro!: steady_set_window)

lemma steady_facet_register:
  "wait_facet_register al token wait_for obs f h = (r, h') \<Longrightarrow> steady h h'"
  by (cases f)
    (auto simp: Let_def set_window_waiters_def split: prod.splits if_splits
      intro!: steady_set_window steady_trans [OF steady_set_window steady_updates(3)])

lemma steady_facet_unregister [simp]: "steady h (wait_facet_unregister token f h)"
  by (cases f) (auto simp: Let_def set_window_waiters_def intro!: steady_set_window)

lemma steady_unregister_all [simp]: "steady h (fold (wait_facet_unregister token) fs h)"
proof (induction fs arbitrary: h)
  case (Cons f fs)
  show ?case using steady_trans [OF steady_facet_unregister Cons.IH] by simp
qed simp

lemma steady_registration_drop [simp]: "steady h (registration_drop reg h)"
  unfolding registration_drop_def by (rule steady_trans [OF steady_unregister_all steady_drop_refs])

lemma steady_register_items:
  "register_items al token obs t items fs ready h = (r, fs', h') \<Longrightarrow> steady h h'"
proof (induction items arbitrary: al fs ready h)
  case (Cons item items)
  then show ?case
    by (auto split: sum.splits if_splits prod.splits bool.splits
        dest!: steady_facet_register intro: steady_trans)
qed simp

lemma steady_register_wait_many:
  assumes "register_wait_many al items token obs t h = (r, h')"
  shows "steady h h'"
  using assms steady_trans [OF steady_register_items steady_registration_drop]
    steady_trans [OF steady_register_items steady_updates(13)]
  by (auto simp: register_wait_many_def split: if_splits sum.splits prod.splits dest: steady_register_items)

text \<open>Every window is backed by a memory object.\<close>

definition windows_backed :: "kernel_heap \<Rightarrow> bool" where
  "windows_backed h \<longleftrightarrow> (\<forall>w < length (hp_windows h). wn_shared_memory (window_at h w) < length (hp_objects h) \<and>
     (\<exists>m. object_at h (wn_shared_memory (window_at h w)) = SharedMemory m))"

lemma steady_backed: "steady h h' \<Longrightarrow> windows_backed h \<Longrightarrow> windows_backed h'"
  by (auto simp: steady_def grows_def windows_backed_def)

lemma window_create_backed:
  assumes "ipc_ok X W t h" "window_create_with_generation_and_buffer_count al hn g n t h = (r, t', h')"
  shows "grows h h' \<and> (windows_backed h \<longrightarrow> windows_backed h')"
proof (cases "h' = h")
  case False
  then obtain k m l cl mg where k: "object_with_rights t hn R_MANAGE = Inr k" "shared_memory_object h k = Inr m"
    "new_window_objects (alloc_skip 3 al) (window_state_new k l g n) (add_ref k h) = (Inr (cl, mg), h')"
    using assms(2)
    by (auto simp: window_create_with_generation_and_buffer_count_def Let_def split: sum.splits if_splits prod.splits)
  have h': "h' = push_objects [Window (length (hp_windows h)) Client, Window (length (hp_windows h)) Manager]
      ((add_ref k h)\<lparr>hp_windows := hp_windows h @ [(2, window_state_new k l g n)]\<rparr>)"
    using k(3) by (auto simp: new_window_objects_def Let_def split: if_splits)
  have "k < length (hp_objects h)"
    using ipc_ok_strong [OF assms(1) object_with_rights_ref [OF k(1)]] strong_pos [of h k] by simp
  then show ?thesis
    using k(2)
    by (auto simp: h' grows_def windows_backed_def push_objects_def object_at_def nth_append window_at_def add_ref_def
        set_strong_def nth_list_update shared_memory_object_Inr less_Suc_eq)
qed (simp add: grows_def)

end
