(* ===== verification/Kernel_System.thy ===== *)
theory Kernel_System
  imports Kernel_Calls
begin

text \<open>
  The object system as a whole: the handle tables of all processes, the leases held by kernel
  services, the wait registrations of blocked threads, and the object heap. A step is one kernel
  call on one table, a call on two tables, the end of a process, the drop of a lease or of a
  registration, or a transition of a control object made by the scheduler or a service. The
  theorems hold in every state reachable from an empty kernel by any sequence of steps, with any
  pattern of failing allocations: references are counted exactly, queued endpoints never form a
  cycle, peers are closed exactly when the last reference is gone, nothing leaks, and no waiter
  sleeps through a signal.
\<close>

section \<open>States and steps\<close>

record kernel_system =
  sy_tables :: "htable list"
  sy_leases :: "oid list"
  sy_registrations :: "wait_set_registration list"
  sy_heap :: kernel_heap

definition system_boot :: kernel_system where
  "system_boot = \<lparr>sy_tables = [], sy_leases = [], sy_registrations = [], sy_heap = heap_empty\<rparr>"

text \<open>
  One call on one handle table: the new references held by a lease it returns, and the wait
  registrations it returns.
\<close>

definition ok_list :: "('a \<Rightarrow> 'b) \<Rightarrow> 'a ipc \<Rightarrow> 'b list" where
  "ok_list f r = (case r of Inl _ \<Rightarrow> [] | Inr x \<Rightarrow> [f x])"

inductive kernel_call ::
  "htable \<Rightarrow> kernel_heap \<Rightarrow> oid list \<Rightarrow> wait_set_registration list \<Rightarrow> htable \<Rightarrow> kernel_heap \<Rightarrow> bool" where
  close: "handle_close hn t h = (u, t', h') \<Longrightarrow> kernel_call t h [] [] t' h'"
| duplicate: "handle_duplicate al hn rt t h = (rh, t', h') \<Longrightarrow> kernel_call t h [] [] t' h'"
| channel: "channel_create al t h = (rp, t', h') \<Longrightarrow> kernel_call t h [] [] t' h'"
| write_operations: "channel_write_with_handle_operations al hn bytes ds t h = (u, t', h') \<Longrightarrow> kernel_call t h [] [] t' h'"
| write_dispositions: "channel_write_with_dispositions al hn bytes dr t h = (u, t', h') \<Longrightarrow> kernel_call t h [] [] t' h'"
| write_plain: "channel_write al hn bytes hs t h = (u, t', h') \<Longrightarrow> kernel_call t h [] [] t' h'"
| read_message: "channel_read al hn bl hl t h = (rm, t', h') \<Longrightarrow> kernel_call t h [] [] t' h'"
| process_new: "process_create al t h = (rn, t', h') \<Longrightarrow> kernel_call t h [] [] t' h'"
| process_handle: "p < length (hp_processes h) \<Longrightarrow> process_install al p t h = (rh, t', h') \<Longrightarrow> kernel_call t h [] [] t' h'"
| terminate: "process_terminate hn t h = (u, h') \<Longrightarrow> kernel_call t h [] [] t h'"
| request_handle: "q < length (hp_requests h) \<Longrightarrow> request_install al q t h = (rh, t', h') \<Longrightarrow> kernel_call t h [] [] t' h'"
| power_handle: "p < length (hp_powers h) \<Longrightarrow> system_power_install al p t h = (rh, t', h') \<Longrightarrow> kernel_call t h [] [] t' h'"
| power_off: "system_power_request hn act fl dl t h = (u, h') \<Longrightarrow> kernel_call t h [] [] t h'"
| power_abort: "system_power_cancel hn t h = (u, h') \<Longrightarrow> kernel_call t h [] [] t h'"
| authority: "scheduling_authority_create al mx active t h = (rn, t', h') \<Longrightarrow> kernel_call t h [] [] t' h'"
| random: "random_source_create al t h = (rh, t', h') \<Longrightarrow> kernel_call t h [] [] t' h'"
| app_data: "application_data_create al app t h = (rh, t', h') \<Longrightarrow> kernel_call t h [] [] t' h'"
| fs_root: "filesystem_root_create_with_rights al rt t h = (rh, t', h') \<Longrightarrow> kernel_call t h [] [] t' h'"
| fs_directory: "filesystem_directory_create al d rt t h = (rh, t', h') \<Longrightarrow> kernel_call t h [] [] t' h'"
| fs_file: "filesystem_file_create al f rt t h = (rh, t', h') \<Longrightarrow> kernel_call t h [] [] t' h'"
| file_lease: "filesystem_file_lease hn rt t h = (rf, h') \<Longrightarrow> kernel_call t h (ok_list fl_object rf) [] t h'"
| memory: "shared_memory_create_with_storage al st t h = (rh, t', h') \<Longrightarrow> kernel_call t h [] [] t' h'"
| memory_write: "shared_memory_write hn off input t h = (u, h') \<Longrightarrow> kernel_call t h [] [] t h'"
| mapping_lease: "shared_memory_mapping_lease hn acc t h = (rl, h') \<Longrightarrow> kernel_call t h (ok_list ml_object rl) [] t h'"
| request_lease: "shared_memory_request_lease hn off len rt t h = (rq, h') \<Longrightarrow> kernel_call t h (ok_list rl_object rq) [] t h'"
| window: "window_create_with_generation_and_buffer_count al hn g n t h = (rp, t', h') \<Longrightarrow> kernel_call t h [] [] t' h'"
| present: "window_present hn i g t h = (rw, h') \<Longrightarrow> kernel_call t h [] [] t h'"
| read_release: "window_read_release hn t h = (rr, h') \<Longrightarrow> kernel_call t h [] [] t h'"
| copy_pending: "window_manager_copy_pending hn p off len t h = Some (rb, h') \<Longrightarrow> kernel_call t h [] [] t h'"
| discard: "window_manager_discard_pending hn p t h = (u, h') \<Longrightarrow> kernel_call t h [] [] t h'"
| coalesce: "window_manager_coalesce_pending hn p i g t h = (rw, h') \<Longrightarrow> kernel_call t h [] [] t h'"
| complete: "window_manager_complete hn p ok t h = (u, h') \<Longrightarrow> kernel_call t h [] [] t h'"
| retire: "window_manager_retire hn t h = (u, h') \<Longrightarrow> kernel_call t h [] [] t h'"
| wait: "register_wait_many al items token obs t h = (rg, h') \<Longrightarrow> kernel_call t h [] (ok_list id rg) t h'"

text \<open>Transitions the kernel itself makes on control objects and on memory it holds a lease for.\<close>

inductive kernel_action :: "kernel_heap \<Rightarrow> kernel_heap \<Rightarrow> bool" where
  exited: "mark_exited (hp_alive h) code (hp_processes h ! p) = (b, evs, s) \<Longrightarrow> p < length (hp_processes h) \<Longrightarrow>
    kernel_action h (set_process p s evs h)"
| faulted: "mark_faulted (hp_alive h) fault code addr (hp_processes h ! p) = (b, evs, s) \<Longrightarrow> p < length (hp_processes h) \<Longrightarrow>
    kernel_action h (set_process p s evs h)"
| terminated: "mark_terminated (hp_alive h) (hp_processes h ! p) = (b, evs, s) \<Longrightarrow> p < length (hp_processes h) \<Longrightarrow>
    kernel_action h (set_process p s evs h)"
| observe: "register_termination_observer token obs (hp_processes h ! p) = (u, s) \<Longrightarrow> p < length (hp_processes h) \<Longrightarrow>
    kernel_action h (set_process p s [] h)"
| submit: "RequestControl_new al request_id info = Inr s \<Longrightarrow> kernel_action h (h\<lparr>hp_requests := hp_requests h @ [s]\<rparr>)"
| cancel: "request_cancellation (hp_requests h ! q) = (b, s) \<Longrightarrow> q < length (hp_requests h) \<Longrightarrow>
    kernel_action h (set_request q s [] h)"
| publish: "publish_terminal (hp_alive h) info (hp_requests h ! q) = (b, evs, s) \<Longrightarrow> q < length (hp_requests h) \<Longrightarrow>
    kernel_action h (set_request q s evs h)"
| power_new: "kernel_action h (h\<lparr>hp_powers := hp_powers h @ [SystemPowerInfo_default]\<rparr>)"
| power: "power_step (hp_powers h ! p) s \<Longrightarrow> kernel_action h (set_power p s h)"
| authority: "authority_step (hp_authorities h ! a) s \<Longrightarrow> kernel_action h (h\<lparr>hp_authorities := (hp_authorities h)[a := s]\<rparr>)"
| lease_write: "request_lease_write l off input h = (u, h') \<Longrightarrow> kernel_action h h'"

inductive system_step :: "kernel_system \<Rightarrow> kernel_system \<Rightarrow> bool" where
  call: "i < length (sy_tables S) \<Longrightarrow> kernel_call (sy_tables S ! i) (sy_heap S) L R t' h' \<Longrightarrow>
    system_step S (S\<lparr>sy_tables := (sy_tables S)[i := t'], sy_leases := sy_leases S @ L,
      sy_registrations := sy_registrations S @ R, sy_heap := h'\<rparr>)"
| transfer: "i < length (sy_tables S) \<Longrightarrow> j < length (sy_tables S) \<Longrightarrow> i \<noteq> j \<Longrightarrow>
    transfer_between al ds (sy_tables S ! i) (sy_tables S ! j) (sy_heap S) = (rl, t', u', h') \<Longrightarrow>
    system_step S (S\<lparr>sy_tables := (sy_tables S)[i := t', j := u'], sy_heap := h'\<rparr>)"
| connect: "i < length (sy_tables S) \<Longrightarrow> j < length (sy_tables S) \<Longrightarrow> i \<noteq> j \<Longrightarrow>
    channel_create_between al (sy_tables S ! i) (sy_tables S ! j) (sy_heap S) = (rp, t', u', h') \<Longrightarrow>
    system_step S (S\<lparr>sy_tables := (sy_tables S)[i := t', j := u'], sy_heap := h'\<rparr>)"
| spawn: "system_step S (S\<lparr>sy_tables := sy_tables S @ [[]]\<rparr>)"
| end_process: "i < length (sy_tables S) \<Longrightarrow>
    system_step S (S\<lparr>sy_tables := (sy_tables S)[i := []], sy_heap := table_drop (sy_tables S ! i) (sy_heap S)\<rparr>)"
| drop_lease: "sy_leases S = xs @ k # ys \<Longrightarrow>
    system_step S (S\<lparr>sy_leases := xs @ ys, sy_heap := drop_refs [Drop_object k] (sy_heap S)\<rparr>)"
| drop_registration: "sy_registrations S = rs @ reg # rs' \<Longrightarrow>
    system_step S (S\<lparr>sy_registrations := rs @ rs', sy_heap := registration_drop reg (sy_heap S)\<rparr>)"
| act: "kernel_action (sy_heap S) h' \<Longrightarrow> system_step S (S\<lparr>sy_heap := h'\<rparr>)"

definition reachable :: "kernel_system \<Rightarrow> bool" where
  "reachable S \<longleftrightarrow> system_step\<^sup>*\<^sup>* system_boot S"

section \<open>The system invariant\<close>

definition tables_refs :: "htable list \<Rightarrow> oid multiset" where
  "tables_refs ts = sum_list (map table_refs ts)"

definition pinned :: "wait_set_registration list \<Rightarrow> nat multiset" where
  "pinned rs = mset (concat (map (facet_windows \<circ> wr_facets) rs))"

definition system_ok :: "kernel_system \<Rightarrow> bool" where
  "system_ok S \<longleftrightarrow>
     (\<forall>t \<in> set (sy_tables S). table_wf t) \<and>
     heap_ok (tables_refs (sy_tables S) + mset (sy_leases S)) (pinned (sy_registrations S)) (sy_heap S) \<and>
     acyclic (channel_edges (sy_heap S)) \<and> windows_backed (sy_heap S) \<and>
     (\<forall>reg \<in> set (sy_registrations S). \<forall>f \<in> set (wr_facets reg). facet_in_range (sy_heap S) f)"

lemma pinned_simps [simp]:
  "pinned [] = {#}" "pinned (rs @ rs') = pinned rs + pinned rs'" "pinned (reg # rs) = mset (facet_windows (wr_facets reg)) + pinned rs"
  by (simp_all add: pinned_def)

lemma steady_grows: "steady h h' \<Longrightarrow> grows h h'"
  by (simp add: steady_def)

lemma grows_facet: "grows h h' \<Longrightarrow> facet_in_range h f \<Longrightarrow> facet_in_range h' f"
  by (cases f) (auto simp: grows_def)

lemma tables_refs_update:
  assumes "i < length ts"
  shows "tables_refs (ts[i := t]) + table_refs (ts ! i) = tables_refs ts + table_refs t"
  using sum_list_update_add [OF assms, of table_refs t] by (simp add: tables_refs_def)

text \<open>The references held by everything but one table.\<close>

lemma tables_refs_split:
  assumes "i < length ts"
  obtains X where "tables_refs ts = X + table_refs (ts ! i)" "\<And>t. tables_refs (ts[i := t]) = X + table_refs t"
proof
  let ?e = "tables_refs (ts[i := []])"
  have e: "?e + table_refs (ts ! i) = tables_refs ts"
    using tables_refs_update [OF assms, of "[]"] by (simp add: table_refs_def)
  then show "tables_refs ts = ?e + table_refs (ts ! i)" by simp
  show "tables_refs (ts[i := t]) = ?e + table_refs t" for t
  proof -
    have "tables_refs (ts[i := t]) + table_refs (ts ! i) = (?e + table_refs t) + table_refs (ts ! i)"
      using tables_refs_update [OF assms, of t] e by (simp add: ac_simps)
    then show ?thesis by simp
  qed
qed

lemma kernel_call_ok:
  assumes "kernel_call t h L R t' h'" "ipc_ok X W t h"
  shows "ipc_ok (X + mset L) (W + pinned R) t' h' \<and> (\<forall>reg \<in> set R. \<forall>f \<in> set (wr_facets reg). facet_in_range h' f)"
  using assms
proof (induction rule: kernel_call.induct)
  case (file_lease hn rt t h rf h')
  then show ?case using filesystem_file_lease_ok by (cases rf) (force simp: ok_list_def lease_refs_def)+
next
  case (mapping_lease hn acc t h rl h')
  then show ?case using shared_memory_mapping_lease_ok by (cases rl) (force simp: ok_list_def lease_refs_def)+
next
  case (request_lease hn off len rt t h rq h')
  then show ?case using shared_memory_request_lease_ok by (cases rq) (force simp: ok_list_def lease_refs_def)+
next
  case (wait al items token obs t h rg h')
  then show ?case using register_wait_many_ok [OF wait(2,1)] by (cases rg) (simp_all add: ok_list_def)
qed ((simp only: mset.simps pinned_simps add_0_right list.set ball_simps simp_thms,
      rule handle_close_ok handle_duplicate_ok channel_create_ok channel_write_with_handle_operations_ok
        channel_write_with_dispositions_ok channel_write_ok channel_read_ok process_create_ok process_install_ok
        process_terminate_ok request_install_ok system_power_install_ok system_power_ok scheduling_authority_create_ok
        capability_create_ok shared_memory_create_ok shared_memory_write_ok window_create_ok window_ops_ok
        window_manager_copy_pending_ok, assumption+)+)

lemma kernel_call_grows:
  assumes "kernel_call t h L R t' h'" "ipc_ok X W t h"
  shows "grows h h' \<and> (windows_backed h \<longrightarrow> windows_backed h')"
proof -
  have "steady h h' \<or> grows h h' \<and> (windows_backed h \<longrightarrow> windows_backed h')"
    using assms
  proof (induction rule: kernel_call.induct)
    case (window al hn g n t h rp t' h')
    then show ?case using window_create_backed by blast
  qed ((rule disjI1, rule steady_handle_calls steady_channel_create steady_channel_write steady_channel_write_plain
        steady_channel_read steady_capability_calls steady_created_controls steady_control_calls steady_leases
        steady_memory_calls steady_shared_memory_create steady_window_ops steady_copy_pending
        steady_register_wait_many, assumption+)+)
  then show ?thesis using steady_grows steady_backed by blast
qed

lemma kernel_action_ok:
  assumes "kernel_action h h'" "ipc_ok X W t h"
  shows "ipc_ok X W t h' \<and> steady h h'"
  using assms
proof (induction rule: kernel_action.induct)
  case (exited h code p b evs s)
  then have "process_quiet s" using ipc_quiet(1) [OF exited(3)] process_step_quiet process_step.exited by (metis nth_mem)
  then show ?case using set_process_ok [OF exited(3)] by simp
next
  case (faulted h fault code addr p b evs s)
  then have "process_quiet s" using ipc_quiet(1) [OF faulted(3)] process_step_quiet process_step.faulted by (metis nth_mem)
  then show ?case using set_process_ok [OF faulted(3)] by simp
next
  case (terminated h p b evs s)
  then have "process_quiet s" using ipc_quiet(1) [OF terminated(3)] process_step_quiet process_step.terminated by (metis nth_mem)
  then show ?case using set_process_ok [OF terminated(3)] by simp
next
  case (observe token obs h p u s)
  then have "process_quiet s" using ipc_quiet(1) [OF observe(3)] process_step_quiet process_step.observe by (metis nth_mem)
  then show ?case using set_process_ok [OF observe(3)] by simp
next
  case (submit al request_id info s h)
  then have "request_quiet s" by (auto simp: RequestControl_new_def request_quiet_def split: if_splits)
  then show ?case
    using ipc_frame [OF submit(2), of "h\<lparr>hp_requests := hp_requests h @ [s]\<rparr>"] ipc_quiet [OF submit(2)] by simp
next
  case (cancel h q b s)
  then have "request_quiet s" using ipc_quiet(2) [OF cancel(3)]
    by (auto simp: request_cancellation_def request_quiet_def request_signals_def split: if_splits dest: nth_mem)
  then show ?case using set_request_ok [OF cancel(3)] by simp
next
  case (publish h info q b evs s)
  have "request_quiet (hp_requests h ! q)" using ipc_quiet(2) [OF publish(3)] publish(2) by simp
  then have "request_quiet s" by (rule publish_terminal_spec(4) [OF publish(1)])
  then show ?case using set_request_ok [OF publish(3)] by simp
next
  case (power_new h)
  then show ?case
    using ipc_frame [OF power_new, of "h\<lparr>hp_powers := hp_powers h @ [SystemPowerInfo_default]\<rparr>"] ipc_quiet [OF power_new] by simp
next
  case (power h p s)
  then show ?case using set_power_ok [OF power(2)] by simp
next
  case (authority h a s)
  then show ?case
    using ipc_frame [OF authority(2), of "h\<lparr>hp_authorities := (hp_authorities h)[a := s]\<rparr>"] ipc_quiet [OF authority(2)] by simp
next
  case (lease_write l off input h u h')
  then show ?case using request_lease_write_ok [OF lease_write(2,1)] steady_memory_calls(2) [OF lease_write(1)] by simp
qed

lemma channel_create_between_ok:
  assumes "ipc_ok (X + table_refs u) W t h" "table_wf u" "channel_create_between al t u h = (r, t', u', h')"
  shows "ipc_ok (X + table_refs u') W t' h' \<and> table_wf u'"
proof -
  have wf: "table_wf t" and ok: "heap_ok (X + table_refs u + table_refs t) W h" and ac: "acyclic (channel_edges h)"
    using assms(1) by (simp_all add: ipc_ok_def)
  obtain r0 t1 where rs: "reserve_slots al 1 t = (r0, t1)" by fastforce
  obtain r1 u1 where ru: "reserve_slots (alloc_skip 2 al) 1 u = (r1, u1)" by fastforce
  obtain r2 h1 where n: "new_channel_objects (alloc_skip 4 al) h = (r2, h1)" by fastforce
  note R = reserve_slots_ok [OF rs wf] reserve_slots_ok [OF ru assms(2)]
  note N = new_channel_objects_ok [OF ok n] new_channel_objects_acyclic [OF ok n ac]
  show ?thesis
  proof (cases "\<exists>js ks l r'. r0 = Inr js \<and> r1 = Inr ks \<and> r2 = Inr (l, r')")
    case True
    then obtain js ks l r' where e: "r0 = Inr js" "r1 = Inr ks" "r2 = Inr (l, r')" by blast
    obtain hl t2 where i1: "insert_reserved (js ! 0) l CHANNEL_DEFAULT_RIGHTS t1 = (hl, t2)" by fastforce
    obtain hr u2 where i2: "insert_reserved (ks ! 0) r' CHANNEL_DEFAULT_RIGHTS u1 = (hr, u2)" by fastforce
    have out: "t' = t2" "u' = u2" "h' = h1" using assms(3) rs ru n e i1 i2 by (auto simp: channel_create_between_def)
    note S = reserve_slots_Inr [OF rs [unfolded e] wf] and V = reserve_slots_Inr [OF ru [unfolded e] assms(2)]
    have j: "js ! 0 < length t1" "slot_vacant (t1 ! (js ! 0))" "ks ! 0 < length u1" "slot_vacant (u1 ! (ks ! 0))"
      using S(1,3) V(1,3) by (simp_all add: Ball_def in_set_conv_nth)
    have u2: "table_refs u2 = table_refs u + {#r'#}" "table_wf u2"
      using table_refs_insert [OF i2 j(3,4)] R(2) insert_reserved_wf [OF V(5) j(3,4), of r' CHANNEL_DEFAULT_RIGHTS] i2
      by simp_all
    have "heap_ok (X + table_refs u2 + {#l#} + table_refs t1) W h1"
      using N(1) e R(1) u2(1) by (simp add: ac_simps add_mset_commute)
    from insert_reserved_ok [OF i1 S(5) j(1,2) this N(2)] u2 show ?thesis by (simp add: out)
  next
    case False
    then have "(t' = t1 \<or> t' = t) \<and> (u' = u \<or> u' = u1) \<and> h' = h"
      using assms(3) rs ru n N(1) by (auto simp: channel_create_between_def split: sum.splits)
    then show ?thesis using assms(1,2) R by (auto simp: ipc_ok_def)
  qed
qed

lemma system_ok_empty: "system_ok system_boot"
  using heap_empty_ok
  by (simp add: system_ok_def system_boot_def ipc_ok_def tables_refs_def table_refs_def windows_backed_def heap_empty_def)

lemma tables_wf_update: "\<forall>t \<in> set ts. table_wf t \<Longrightarrow> table_wf t' \<Longrightarrow> \<forall>t \<in> set (ts[i := t']). table_wf t"
  using set_update_subset_insert [of ts i t'] by blast

lemma system_okD:
  assumes "system_ok S"
  shows "\<forall>t \<in> set (sy_tables S). table_wf t"
    "heap_ok (tables_refs (sy_tables S) + mset (sy_leases S)) (pinned (sy_registrations S)) (sy_heap S)"
    "acyclic (channel_edges (sy_heap S))" "windows_backed (sy_heap S)"
    "\<forall>reg \<in> set (sy_registrations S). \<forall>f \<in> set (wr_facets reg). facet_in_range (sy_heap S) f"
  using assms by (simp_all add: system_ok_def)

lemma system_facets_grow:
  "\<forall>reg \<in> set rs. \<forall>f \<in> set (wr_facets reg). facet_in_range h f \<Longrightarrow> grows h h' \<Longrightarrow>
   \<forall>reg \<in> set rs. \<forall>f \<in> set (wr_facets reg). facet_in_range h' f"
  using grows_facet by blast

lemma system_call_ok:
  assumes "system_ok S" "i < length (sy_tables S)" "kernel_call (sy_tables S ! i) (sy_heap S) L R t' h'"
  shows "system_ok (S\<lparr>sy_tables := (sy_tables S)[i := t'], sy_leases := sy_leases S @ L,
    sy_registrations := sy_registrations S @ R, sy_heap := h'\<rparr>)"
proof -
  obtain X where X: "tables_refs (sy_tables S) = X + table_refs (sy_tables S ! i)"
    "\<And>t. tables_refs ((sy_tables S)[i := t]) = X + table_refs t"
    using tables_refs_split [OF assms(2)] by blast
  have c: "ipc_ok (X + mset (sy_leases S)) (pinned (sy_registrations S)) (sy_tables S ! i) (sy_heap S)"
    using assms(1,2) X(1) by (simp add: system_ok_def ipc_ok_def ac_simps)
  note K = kernel_call_ok [OF assms(3) c] and G = kernel_call_grows [OF assms(3) c]
  have "\<forall>reg \<in> set (sy_registrations S). \<forall>f \<in> set (wr_facets reg). facet_in_range h' f"
    by (rule system_facets_grow [OF system_okD(5) [OF assms(1)]]) (use G in simp)
  moreover have "\<forall>t \<in> set ((sy_tables S)[i := t']). table_wf t"
    by (rule tables_wf_update [OF system_okD(1) [OF assms(1)]]) (use K in \<open>simp add: ipc_ok_def\<close>)
  ultimately show ?thesis
    using K G system_okD(4) [OF assms(1)] X(2) by (simp add: system_ok_def ipc_ok_def ac_simps ball_Un)
qed

lemma system_pair_ok:
  assumes "system_ok S" "i < length (sy_tables S)" "j < length (sy_tables S)" "i \<noteq> j"
    and "steady (sy_heap S) h'"
    and two: "\<And>X W. ipc_ok (X + table_refs (sy_tables S ! j)) W (sy_tables S ! i) (sy_heap S) \<Longrightarrow>
      table_wf (sy_tables S ! j) \<Longrightarrow> ipc_ok (X + table_refs u') W t' h' \<and> table_wf u'"
  shows "system_ok (S\<lparr>sy_tables := (sy_tables S)[i := t', j := u'], sy_heap := h'\<rparr>)"
proof -
  let ?ts = "sy_tables S"
  obtain X where X: "tables_refs ?ts = X + table_refs (?ts ! i)" "\<And>t. tables_refs (?ts[i := t]) = X + table_refs t"
    using tables_refs_split [OF assms(2)] by blast
  obtain Y where Y: "tables_refs (?ts[i := t']) = Y + table_refs (?ts ! j)"
    "tables_refs (?ts[i := t', j := u']) = Y + table_refs u'"
    using tables_refs_split [of j "?ts[i := t']"] assms(3,4) by auto
  have "table_refs (?ts ! j) \<subseteq># X"
  proof -
    have "tables_refs (?ts[i := []]) = X" using X(2) by (simp add: table_refs_def)
    moreover have "table_refs (?ts ! j) \<subseteq># tables_refs (?ts[i := []])"
      using tables_refs_split [of j "?ts[i := []]"] assms(3,4) by (metis length_list_update mset_subset_eq_add_right nth_list_update_neq)
    ultimately show ?thesis by simp
  qed
  then obtain Z where Z: "X = Z + table_refs (?ts ! j)" by (metis add.commute subset_mset.le_iff_add)
  have "ipc_ok (Z + mset (sy_leases S) + table_refs (?ts ! j)) (pinned (sy_registrations S)) (?ts ! i) (sy_heap S)"
    using assms(1,2) X(1) Z by (simp add: system_ok_def ipc_ok_def ac_simps)
  from two [OF this] have T: "ipc_ok (Z + mset (sy_leases S) + table_refs u') (pinned (sy_registrations S)) t' h' \<and> table_wf u'"
    using assms(1,3) by (simp add: system_ok_def)
  have "Y + table_refs (?ts ! j) = Z + table_refs t' + table_refs (?ts ! j)"
    using X(2) [of t'] Y(1) Z by (simp add: ac_simps)
  then have "Y = Z + table_refs t'" by simp
  then have refs: "tables_refs (?ts[i := t', j := u']) = Z + table_refs t' + table_refs u'" using Y(2) by simp
  have "\<forall>t \<in> set (?ts[i := t', j := u']). table_wf t"
    by (intro tables_wf_update system_okD(1) [OF assms(1)]) (use T in \<open>simp_all add: ipc_ok_def\<close>)
  then show ?thesis
    using T refs steady_backed [OF assms(5) system_okD(4) [OF assms(1)]]
      system_facets_grow [OF system_okD(5) [OF assms(1)] steady_grows [OF assms(5)]]
    by (simp add: system_ok_def ipc_ok_def ac_simps)
qed

lemma system_step_ok:
  assumes "system_step S S'" "system_ok S"
  shows "system_ok S'"
  using assms
proof (induction rule: system_step.induct)
  case (call i S L R t' h')
  then show ?case by (intro system_call_ok)
next
  case (transfer i S j al ds rl t' u' h')
  then show ?case
    using transfer_between_ok [OF _ _ transfer(4)] steady_handle_calls(3) [OF transfer(4)] by (intro system_pair_ok)
next
  case (connect i S j al rp t' u' h')
  then show ?case
    using channel_create_between_ok [OF _ _ connect(4)] steady_channel_create(2) [OF connect(4)] by (intro system_pair_ok)
next
  case (spawn S)
  then show ?case by (auto simp: system_ok_def tables_refs_def table_refs_def table_wf_Nil)
next
  case (end_process i S)
  obtain X where X: "tables_refs (sy_tables S) = X + table_refs (sy_tables S ! i)"
    "\<And>t. tables_refs ((sy_tables S)[i := t]) = X + table_refs t"
    using tables_refs_split [OF end_process(1)] by blast
  have "ipc_ok (X + mset (sy_leases S)) (pinned (sy_registrations S)) (sy_tables S ! i) (sy_heap S)"
    using end_process X(1) by (simp add: system_ok_def ipc_ok_def ac_simps)
  from table_drop_ok [OF this] show ?case
    using X(2) [of "[]"] tables_wf_update [OF system_okD(1) [OF end_process(2)] table_wf_Nil]
      steady_backed [OF steady_handle_calls(4) system_okD(4) [OF end_process(2)]]
      system_facets_grow [OF system_okD(5) [OF end_process(2)] steady_grows [OF steady_handle_calls(4)]]
    by (simp add: system_ok_def table_refs_def)
next
  case (drop_lease S xs k ys)
  have "heap_ok (tables_refs (sy_tables S) + mset (xs @ ys) + item_objects [Drop_object k])
      (pinned (sy_registrations S) + item_windows [Drop_object k]) (sy_heap S)"
    using drop_lease by (simp add: system_ok_def ac_simps)
  from drop_refs_ok [OF this] show ?case
    using system_okD(1) [OF drop_lease(2)] drop_refs_acyclic [OF system_okD(3) [OF drop_lease(2)]]
      steady_backed [OF steady_drop_refs system_okD(4) [OF drop_lease(2)]]
      system_facets_grow [OF system_okD(5) [OF drop_lease(2)] steady_grows [OF steady_drop_refs]]
    by (simp add: system_ok_def del: drop_refs.simps)
next
  case (drop_registration S rs reg rs')
  have "ipc_ok (tables_refs (sy_tables S) + mset (sy_leases S)) (pinned (rs @ rs') + mset (facet_windows (wr_facets reg))) [] (sy_heap S)"
    using drop_registration by (simp add: system_ok_def ipc_ok_def table_refs_def table_wf_Nil ac_simps)
  from registration_drop_ok [OF this] show ?case
    using system_okD(1,5) [OF drop_registration(2)] drop_registration(1)
      steady_backed [OF steady_registration_drop system_okD(4) [OF drop_registration(2)]]
      system_facets_grow [OF system_okD(5) [OF drop_registration(2)] steady_grows [OF steady_registration_drop]]
    by (simp add: system_ok_def ipc_ok_def table_refs_def ball_Un)
next
  case (act S h')
  have "ipc_ok (tables_refs (sy_tables S) + mset (sy_leases S)) (pinned (sy_registrations S)) [] (sy_heap S)"
    using act(2) by (simp add: system_ok_def ipc_ok_def table_refs_def table_wf_Nil)
  from kernel_action_ok [OF act(1) this] show ?case
    using system_okD(1) [OF act(2)] steady_backed [OF _ system_okD(4) [OF act(2)]]
      system_facets_grow [OF system_okD(5) [OF act(2)] steady_grows]
    by (simp add: system_ok_def ipc_ok_def table_refs_def)
qed

lemma reachable_ok: "reachable S \<Longrightarrow> system_ok S"
  unfolding reachable_def
  by (induction rule: rtranclp_induct) (simp_all add: system_ok_empty system_step_ok)

section \<open>Properties\<close>

lemma sum_list_member: "x \<in># sum_list ms \<longleftrightarrow> (\<exists>m \<in> set ms. x \<in># m)"
  by (induction ms) auto

lemma table_refs_entry:
  assumes "table_wf t"
  shows "k \<in># table_refs t \<longleftrightarrow> (\<exists>hn en. table_lookup t hn = Some en \<and> he_object en = k)"
proof
  assume "k \<in># table_refs t"
  then obtain i en where i: "i < length t" "hs_entry (t ! i) = Some en" "he_object en = k"
    by (auto simp: table_refs_def sum_list_member slot_ref_def in_set_conv_nth split: option.splits)
  have "slot_wf (t ! i)" "i < 4096" using assms i(1) by (simp_all add: table_wf_nth table_wf_index)
  then have "handle_parts (handle_from_parts i (hs_generation (t ! i))) = Some (i, hs_generation (t ! i))"
    using i(2) by (intro handle_parts_from_parts) (simp_all add: slot_wf_def)
  then have "table_lookup t (handle_from_parts i (hs_generation (t ! i))) = Some en"
    using i by (auto simp: table_lookup_entry table_entry_Inr)
  then show "\<exists>hn en. table_lookup t hn = Some en \<and> he_object en = k" using i(3) by blast
next
  assume "\<exists>hn en. table_lookup t hn = Some en \<and> he_object en = k"
  then obtain hn en where "table_entry t hn = Inr en" "he_object en = k"
    by (auto simp: table_lookup_entry)
  then show "k \<in># table_refs t" using table_entry_ref by blast
qed

lemma message_objects_set: "k \<in> set (message_objects ms) \<longleftrightarrow> (\<exists>m \<in> set ms. \<exists>en \<in> set (km_handles m). he_object en = k)"
  by (auto simp: message_objects_def)

lemma ex_side: "(\<exists>sd. P sd) \<longleftrightarrow> P Side0 \<or> P Side1"
  by (metis side.exhaust)

lemma queue_refs_member:
  "k \<in># queue_refs h \<longleftrightarrow> (\<exists>c < length (hp_channels h). \<exists>sd. k \<in> set (message_objects (queued h c sd)))"
proof -
  have "k \<in># channel_refs s \<longleftrightarrow> (\<exists>sd. k \<in> set (message_objects (ch_queues s sd)))" for s
    by (simp add: channel_refs_def ex_side)
  moreover have "k \<in># queue_refs h \<longleftrightarrow> (\<exists>c < length (hp_channels h). k \<in># channel_refs (hp_channels h ! c))"
    by (simp add: queue_refs_def sum_list_member) (metis in_set_conv_nth)
  ultimately show ?thesis by (simp add: queued_def)
qed

lemma window_refs_member:
  assumes "windows_backed h" "k \<in># window_refs h"
  shows "\<exists>m. object_at h k = SharedMemory m"
proof -
  obtain w where "w < length (hp_windows h)" "k = wn_shared_memory (window_at h w)"
    using assms(2) by (auto simp: window_refs_def sum_list_member window_ref_def window_at_def in_set_conv_nth split: if_splits)
  then show ?thesis using assms(1) by (auto simp: windows_backed_def)
qed

text \<open>The places that can hold a reference to an endpoint: a handle, a lease, a queued message.\<close>

definition held :: "kernel_system \<Rightarrow> kernel_object \<Rightarrow> bool" where
  "held S ob \<longleftrightarrow>
     (\<exists>t \<in> set (sy_tables S). \<exists>hn en. table_lookup t hn = Some en \<and> object_at (sy_heap S) (he_object en) = ob) \<or>
     (\<exists>k \<in> set (sy_leases S). object_at (sy_heap S) k = ob) \<or>
     (\<exists>c < length (hp_channels (sy_heap S)). \<exists>sd. \<exists>k \<in> set (message_objects (queued (sy_heap S) c sd)). object_at (sy_heap S) k = ob)"

lemma held_live:
  assumes "system_ok S" "is_endpoint ob"
  shows "live (sy_heap S) ob \<longleftrightarrow> held S ob"
proof -
  let ?h = "sy_heap S"
  have "strong ?h k > 0 \<longleftrightarrow> k \<in># tables_refs (sy_tables S) \<or> k \<in> set (sy_leases S) \<or> k \<in># queue_refs ?h \<or> k \<in># window_refs ?h" for k
    using system_okD(2) [OF assms(1)] unfolding heap_ok_def counts_ok_def
    by (metis count_greater_zero_iff set_mset_mset union_iff)
  moreover have "k \<notin># window_refs ?h" if "object_at ?h k = ob" for k
    using window_refs_member [OF system_okD(4) [OF assms(1)], of k] assms(2) that by auto
  moreover have "k \<in># tables_refs (sy_tables S) \<longleftrightarrow>
      (\<exists>t \<in> set (sy_tables S). \<exists>hn en. table_lookup t hn = Some en \<and> he_object en = k)" for k
    using system_okD(1) [OF assms(1)] table_refs_entry by (fastforce simp: tables_refs_def sum_list_member)
  ultimately have iff: "strong ?h k > 0 \<and> object_at ?h k = ob \<longleftrightarrow>
      ((\<exists>t \<in> set (sy_tables S). \<exists>hn en. table_lookup t hn = Some en \<and> he_object en = k) \<or>
       k \<in> set (sy_leases S) \<or> k \<in># queue_refs ?h) \<and> object_at ?h k = ob" for k
    by blast
  show ?thesis unfolding live_def held_def iff queue_refs_member by blast
qed

lemma open_held:
  assumes "system_ok S" "c < length (hp_channels (sy_heap S))"
  shows "ch_open (hp_channels (sy_heap S) ! c) sd \<longleftrightarrow> held S (Channel c sd)"
  using held_live [OF assms(1), of "Channel c sd"] system_okD(2) [OF assms(1)] assms(2)
  by (simp add: heap_ok_def endpoints_ok_def)

lemma peer_closed_signal: "contains (channel_signals s sd) S_PEER_CLOSED \<longleftrightarrow> \<not> ch_open s (peer sd)"
  by (auto simp: channel_signals_def contains_def signal_defs)

text \<open>C3: Exact reference counts. In every reachable kernel, whatever allocations failed on the way, the
  reference count of each object is the number of handles over all tables, leases, queued
  message handles and live windows that refer to it.\<close>

theorem reference_counts_exact:
  assumes "reachable S"
  shows "strong (sy_heap S) k = count (tables_refs (sy_tables S)) k + count_list (sy_leases S) k +
    count (queue_refs (sy_heap S)) k + count (window_refs (sy_heap S)) k"
  using system_okD(2) [OF reachable_ok [OF assms]] by (simp add: heap_ok_def counts_ok_def count_mset)

text \<open>C5: Peer closure is exact. In every reachable kernel a channel side shows
  \<^verbatim>\<open>PEER_CLOSED\<close> if and only if no handle in any table, no lease and no queued
  message refers to the peer endpoint.\<close>

theorem peer_closed_exact:
  assumes "reachable S" "c < length (hp_channels (sy_heap S))"
  shows "contains (channel_signals (hp_channels (sy_heap S) ! c) sd) S_PEER_CLOSED \<longleftrightarrow> \<not> held S (Channel c (peer sd))"
  using open_held [OF reachable_ok [OF assms(1)] assms(2), of "peer sd"] by (simp add: peer_closed_signal)

lemma heap_in_range: "heap_ok X W h \<Longrightarrow> strong h k > 0 \<Longrightarrow> object_in_range h (object_at h k)"
  using strong_pos [of h k] by (simp add: heap_ok_def endpoints_ok_def)

lemma queued_open:
  assumes "system_ok S" "c < length (hp_channels (sy_heap S))" "queued (sy_heap S) c sd \<noteq> []"
  shows "live (sy_heap S) (Channel c sd)"
proof -
  have "channel_wf (hp_channels (sy_heap S) ! c)"
    using system_okD(2) [OF assms(1)] assms(2) by (simp add: heap_ok_def states_ok_def)
  then have "ch_open (hp_channels (sy_heap S) ! c) sd"
    using assms(3) by (auto simp: channel_wf_side [where sd = sd] channel_side_wf_def queued_def)
  then show ?thesis using system_okD(2) [OF assms(1)] assms(2) by (simp add: heap_ok_def endpoints_ok_def)
qed

text \<open>With nothing held from outside, a live channel would need a queue that holds it, in a channel that is live again.\<close>

lemma no_live_channel:
  assumes ok: "system_ok S" and none: "tables_refs (sy_tables S) = {#}" "sy_leases S = []"
  shows "\<not> live (sy_heap S) (Channel c sd)"
proof
  let ?h = "sy_heap S"
  let ?L = "{c. \<exists>sd. live ?h (Channel c sd)}"
  assume "live ?h (Channel c sd)"
  then have c: "c \<in> ?L" by blast
  have ref: "k \<in># queue_refs ?h" if "strong ?h k > 0" "object_at ?h k = Channel d x" for k d x
  proof -
    have "k \<in># queue_refs ?h + window_refs ?h"
      using system_okD(2) [OF ok] that(1) none by (simp add: heap_ok_def counts_ok_def flip: count_greater_zero_iff)
    then show ?thesis using window_refs_member [OF system_okD(4) [OF ok], of k] that(2) by auto
  qed
  have pred: "\<exists>d \<in> ?L. (d, a) \<in> channel_edges ?h" if a: "a \<in> ?L" for a
  proof -
    obtain x k where k: "strong ?h k > 0" "object_at ?h k = Channel a x"
      using a unfolding live_def mem_Collect_eq by blast
    then obtain d y where d: "d < length (hp_channels ?h)" "k \<in> set (message_objects (queued ?h d y))"
      using ref queue_refs_member by blast
    then have "live ?h (Channel d y)" by (intro queued_open [OF ok]) auto
    moreover have "k \<in># channel_refs (hp_channels ?h ! d)"
      using d(2) by (simp add: channel_refs_side [where sd = y] queued_def)
    then have "(d, a) \<in> channel_edges ?h" using d(1) k(2) by (auto simp: outgoing_set)
    ultimately show ?thesis by blast
  qed
  have "?L \<subseteq> {..<length (hp_channels ?h)}"
  proof
    fix a assume "a \<in> ?L"
    then obtain k x where "strong ?h k > 0" "object_at ?h k = Channel a x" unfolding live_def mem_Collect_eq by blast
    moreover from this have "object_in_range ?h (object_at ?h k)" using heap_in_range [OF system_okD(2) [OF ok]] by blast
    ultimately show "a \<in> {..<length (hp_channels ?h)}" by simp
  qed
  then have "finite (channel_edges ?h \<inter> ?L \<times> ?L)" by (meson finite_Int finite_SigmaI finite_lessThan finite_subset)
  moreover have "acyclic (channel_edges ?h \<inter> ?L \<times> ?L)" by (rule acyclic_subset [OF system_okD(3) [OF ok]]) blast
  ultimately have "wf (channel_edges ?h \<inter> ?L \<times> ?L)" by (rule finite_acyclic_wf)
  then obtain z where "z \<in> ?L" "\<And>y. (y, z) \<in> channel_edges ?h \<inter> ?L \<times> ?L \<Longrightarrow> y \<notin> ?L"
    using c by (rule wfE_min) blast
  then show False using pred [of z] by blast
qed

lemma sum_list_all_empty: "\<forall>m \<in> set ms. m = {#} \<Longrightarrow> sum_list ms = {#}"
  by (induction ms) auto

lemma no_outside_no_refs:
  assumes ok: "system_ok S" and none: "tables_refs (sy_tables S) = {#}" "sy_leases S = []" "sy_registrations S = []"
  shows "strong (sy_heap S) k = 0"
proof -
  let ?h = "sy_heap S"
  have "queued ?h c sd = []" if "c < length (hp_channels ?h)" for c sd
    using queued_open [OF ok that] no_live_channel [OF ok none(1,2)] by blast
  then have q: "queue_refs ?h = {#}" using queue_refs_member by (metis empty_iff list.set(1) message_objects_simps(1) multiset_eq_iff count_eq_zero_iff multiset_nonemptyE)
  have "window_strong ?h w = 0" if w: "w < length (hp_windows ?h)" for w
  proof -
    have "\<not> window_open (snd (hp_windows ?h ! w)) role" for role
    proof
      assume "window_open (snd (hp_windows ?h ! w)) role"
      then have "live ?h (Window w role)" using system_okD(2) [OF ok] w by (simp add: heap_ok_def endpoints_ok_def)
      then obtain j where j: "strong ?h j > 0" "object_at ?h j = Window w role" by (auto simp: live_def)
      then have "j \<in># window_refs ?h"
        using system_okD(2) [OF ok] none q by (simp add: heap_ok_def counts_ok_def flip: count_greater_zero_iff)
      then show False using window_refs_member [OF system_okD(4) [OF ok]] j(2) by fastforce
    qed
    then show ?thesis using system_okD(2) [OF ok] w none(3) by (simp add: heap_ok_def counts_ok_def)
  qed
  then have "\<forall>m \<in> set (map window_ref (hp_windows ?h)). m = {#}"
    by (auto simp: window_ref_def window_strong_def vec_get_def in_set_conv_nth) (metis fst_conv less_irrefl)
  then have "window_refs ?h = {#}" unfolding window_refs_def by (rule sum_list_all_empty)
  then show ?thesis using system_okD(2) [OF ok] none q by (simp add: heap_ok_def counts_ok_def)
qed

text \<open>C4: Nothing leaks. In a reachable kernel whose handle tables are all empty and that holds no lease
  and no wait registration, every reference count is zero: message queues cannot keep
  each other's endpoints alive.\<close>

theorem no_leaks:
  assumes "reachable S" "\<forall>t \<in> set (sy_tables S). \<forall>hn. table_lookup t hn = None"
    and "sy_leases S = []" "sy_registrations S = []"
  shows "strong (sy_heap S) k = 0"
proof (rule no_outside_no_refs [OF reachable_ok [OF assms(1)] _ assms(3,4)])
  have "table_refs t = {#}" if "t \<in> set (sy_tables S)" for t
    using table_refs_entry [of t] system_okD(1) [OF reachable_ok [OF assms(1)]] assms(2) that
    by (metis multiset_nonemptyE option.distinct(1))
  then show "tables_refs (sy_tables S) = {#}"
    unfolding tables_refs_def by (intro sum_list_all_empty) auto
qed

text \<open>Every handle that resolves refers to a live object of the heap, whose state exists.\<close>

lemma handles_refer_to_live_objects:
  assumes "reachable S" "t \<in> set (sy_tables S)" "table_lookup t hn = Some en"
  shows "strong (sy_heap S) (he_object en) > 0 \<and> object_in_range (sy_heap S) (object_at (sy_heap S) (he_object en))"
proof -
  note ok = reachable_ok [OF assms(1)]
  have "he_object en \<in># table_refs t" using assms(3) by (simp add: table_lookup_entry table_entry_ref)
  then have "he_object en \<in># tables_refs (sy_tables S)" using assms(2) by (auto simp: tables_refs_def sum_list_member)
  then have "strong (sy_heap S) (he_object en) > 0"
    using system_okD(2) [OF ok] by (simp add: heap_ok_def counts_ok_def)
  then show ?thesis using heap_in_range [OF system_okD(2) [OF ok]] by simp
qed

fun facet_signals :: "kernel_heap \<Rightarrow> wait_facet \<Rightarrow> signals" where
  "facet_signals h (Facet_Channel c sd) = channel_signals (hp_channels h ! c) sd"
| "facet_signals h (Facet_Window w role) = window_signals (window_at h w) role"
| "facet_signals h (Facet_Process p) = process_signals (hp_processes h ! p)"
| "facet_signals h (Facet_Request q) = request_signals (hp_requests h ! q)"

fun facet_waiters :: "kernel_heap \<Rightarrow> wait_facet \<Rightarrow> signal_waiter list" where
  "facet_waiters h (Facet_Channel c sd) = ch_waiters (hp_channels h ! c) sd"
| "facet_waiters h (Facet_Window w role) = wn_waiters (window_at h w) role"
| "facet_waiters h (Facet_Process p) = pc_waiters (hp_processes h ! p)"
| "facet_waiters h (Facet_Request q) = rc_waiters (hp_requests h ! q)"

text \<open>C14: No lost wakeup. In every reachable kernel, no waiter registered on a channel side, a window
  role, a process or a request waits for a signal that is already up: whoever could run has been notified.\<close>

theorem no_lost_wakeup:
  assumes "reachable S" "facet_in_range (sy_heap S) f" "w \<in> set (facet_waiters (sy_heap S) f)"
  shows "\<not> intersects (facet_signals (sy_heap S) f) (sw_wait_for w)"
proof -
  have ok: "states_ok (sy_heap S)" using system_okD(2) [OF reachable_ok [OF assms(1)]] by (simp add: heap_ok_def)
  have "quiet (facet_signals (sy_heap S) f) (facet_waiters (sy_heap S) f)"
  proof (cases f)
    case (Facet_Channel c sd)
    then show ?thesis using ok assms(2) by (simp add: states_ok_def channel_quiet_side [where sd = sd])
  next
    case (Facet_Window v role)
    then have "window_quiet (window_at (sy_heap S) v)" using ok assms(2) by (simp add: states_ok_def window_at_def)
    then show ?thesis using Facet_Window by (cases role) (simp_all add: window_quiet_def)
  next
    case (Facet_Process p)
    then show ?thesis using ok assms(2) by (simp add: states_ok_def process_quiet_def)
  next
    case (Facet_Request q)
    then show ?thesis using ok assms(2) by (simp add: states_ok_def request_quiet_def)
  qed
  then show ?thesis using assms(3) by (simp add: quiet_def)
qed

text \<open>The compositor's copy calls never hit their internal assertion: in every reachable kernel the memory
  object of a window that a handle names is a shared-memory object.\<close>

lemma window_copy_never_panics:
  assumes "reachable S" "t \<in> set (sy_tables S)"
  shows "window_manager_copy_pending hn p off len t (sy_heap S) \<noteq> None \<and>
    window_manager_copy_displayed hn p off len t (sy_heap S) \<noteq> None"
proof (cases "window_of t (sy_heap S) hn (R_READ OR R_MANAGE) Manager")
  case (Inr w)
  then obtain k where k: "object_with_rights t hn (R_READ OR R_MANAGE) = Inr k" "object_at (sy_heap S) k = Window w Manager"
    by (rule window_of_Inr)
  note ok = reachable_ok [OF assms(1)]
  have "k \<in># tables_refs (sy_tables S)"
    using object_with_rights_ref [OF k(1)] assms(2) by (auto simp: tables_refs_def sum_list_member)
  then have "strong (sy_heap S) k > 0" using system_okD(2) [OF ok] by (simp add: heap_ok_def counts_ok_def)
  then have "w < length (hp_windows (sy_heap S))" using heap_in_range [OF system_okD(2) [OF ok], of k] k(2) by simp
  then obtain m where "shared_memory_object (sy_heap S) (wn_shared_memory (window_at (sy_heap S) w)) = Inr m"
    using system_okD(4) [OF ok] by (auto simp: windows_backed_def shared_memory_object_Inr)
  then have "copy_window_buffer (window_at (sy_heap S) w) p off len (sy_heap S) \<noteq> None"
    by (auto simp: copy_window_buffer_def split: sum.splits option.splits)
  then show ?thesis
    using Inr by (auto simp: window_manager_copy_pending_def window_manager_copy_displayed_def Let_def split: option.splits sum.splits)
qed (simp add: window_manager_copy_pending_def window_manager_copy_displayed_def)

section \<open>A concrete run\<close>

text \<open>One process with the two channels of \<open>sample_ipc\<close>, then waiting on one end, then ended.\<close>

definition sample_system :: kernel_system where
  "sample_system = system_boot\<lparr>sy_tables := [fst sample_ipc], sy_heap := snd sample_ipc\<rparr>"

lemma sample_reachable: "reachable sample_system"
proof -
  obtain r1 t1 h1 where c1: "channel_create (\<lambda>_. True) [] heap_empty = (r1, t1, h1)" by (metis prod_cases3)
  obtain r2 t2 h2 where c2: "channel_create (\<lambda>_. True) t1 h1 = (r2, t2, h2)" by (metis prod_cases3)
  let ?S1 = "system_boot\<lparr>sy_tables := [[]]\<rparr>" and ?S2 = "system_boot\<lparr>sy_tables := [t1], sy_heap := h1\<rparr>"
  have "system_step system_boot ?S1" using system_step.spawn [of system_boot] by (simp add: system_boot_def)
  moreover have "system_step ?S1 ?S2"
    using system_step.call [of 0 ?S1 "[]" "[]" t1 h1] kernel_call.channel [OF c1] by (simp add: system_boot_def)
  moreover have "system_step ?S2 sample_system"
    using system_step.call [of 0 ?S2 "[]" "[]" t2 h2] kernel_call.channel [OF c2]
    by (simp add: system_boot_def sample_system_def sample_ipc_def c1 c2)
  ultimately show ?thesis unfolding reachable_def by (meson rtranclp.rtrancl_into_rtrancl rtranclp.rtrancl_refl)
qed

definition sample_wait :: "wait_set_registration ipc \<times> kernel_heap" where
  "sample_wait = register_wait_many (\<lambda>_. True) [\<lparr>wi_handle = 4096, wi_wait_for = S_READABLE, wi_pending = 0\<rparr>] 5 9
     (fst sample_ipc) (snd sample_ipc)"

definition sample_waiting :: kernel_system where
  "sample_waiting = sample_system\<lparr>sy_registrations := ok_list id (fst sample_wait), sy_heap := snd sample_wait\<rparr>"

lemma sample_waiting_reachable: "reachable sample_waiting"
proof -
  have "system_step sample_system sample_waiting"
    using system_step.call [of 0 sample_system "[]" "ok_list id (fst sample_wait)" "fst sample_ipc" "snd sample_wait"]
      kernel_call.wait [of "\<lambda>_. True" "[\<lparr>wi_handle = 4096, wi_wait_for = S_READABLE, wi_pending = 0\<rparr>]" 5 9
        "fst sample_ipc" "snd sample_ipc" "fst sample_wait" "snd sample_wait"]
    by (simp add: sample_system_def sample_waiting_def system_boot_def flip: sample_wait_def)
  then show ?thesis using sample_reachable unfolding reachable_def by (rule rtranclp.rtrancl_into_rtrancl [rotated])
qed

definition sample_ended :: kernel_system where
  "sample_ended = sample_system\<lparr>sy_tables := [[]], sy_heap := table_drop (fst sample_ipc) (snd sample_ipc)\<rparr>"

lemma sample_ended_reachable: "reachable sample_ended"
proof -
  have "system_step sample_system sample_ended"
    using system_step.end_process [of 0 sample_system] by (simp add: sample_ended_def sample_system_def)
  then show ?thesis using sample_reachable unfolding reachable_def by (rule rtranclp.rtrancl_into_rtrancl [rotated])
qed

theorem reference_counts_exact_witness:
  "strong (snd sample_ipc) 0 = count (tables_refs [fst sample_ipc]) 0 + count (queue_refs (snd sample_ipc)) 0 + count (window_refs (snd sample_ipc)) 0"
  using reference_counts_exact [OF sample_reachable, of 0] by (simp add: sample_system_def system_boot_def)

theorem peer_closed_exact_witness: "held sample_system (Channel 0 Side1)"
proof -
  have "0 < length (hp_channels (snd sample_ipc))" "\<not> contains (channel_signals (hp_channels (snd sample_ipc) ! 0) Side0) S_PEER_CLOSED"
    by code_simp+
  then show ?thesis using peer_closed_exact [OF sample_reachable, of 0 Side0] by (simp add: sample_system_def)
qed

theorem no_leaks_witness: "strong (sy_heap sample_ended) 0 = 0"
  by (rule no_leaks [OF sample_ended_reachable])
    (simp_all add: sample_ended_def sample_system_def system_boot_def table_lookup_def table_entry_def validated_slot_def
      split: option.splits prod.splits)

theorem no_lost_wakeup_witness:
  "map sw_token (facet_waiters (sy_heap sample_waiting) (Facet_Channel 0 Side0)) = [5] \<and>
   \<not> intersects (facet_signals (sy_heap sample_waiting) (Facet_Channel 0 Side0)) S_READABLE"
proof -
  have w: "facet_waiters (sy_heap sample_waiting) (Facet_Channel 0 Side0) =
      [\<lparr>sw_token = 5, sw_wait_for = S_READABLE, sw_observer = 9, sw_notifying = False\<rparr>]"
    and "facet_in_range (sy_heap sample_waiting) (Facet_Channel 0 Side0)" by code_simp+
  then show ?thesis using no_lost_wakeup [OF sample_waiting_reachable, of "Facet_Channel 0 Side0"] by auto
qed

end
