(* ===== verification/Thread_Scheduler.thy ===== *)
theory Thread_Scheduler
  imports Ginkgo_Prelude "HOL-Library.Product_Lexorder"
begin

text \<open>
  The thread scheduling policy of \<^verbatim>\<open>crates/ginkgo-kernel/src/thread_scheduler.rs\<close>: five
  strictly ordered classes with per-thread budgets, FIFO queues per class, earliest-deadline-first
  selection, aging against starvation, and bounded priority donation along chains. Times are
  nanoseconds in \<^verbatim>\<open>u64\<close>, modelled as naturals with the saturating operations of the code;
  \<^verbatim>\<open>saturating_sub\<close> is subtraction on naturals. Keys are any linear order. The thread vector
  is kept sorted and searched as the standard library documents \<^verbatim>\<open>binary_search_by_key\<close>: the
  index of the key, or the place that keeps the order.
\<close>

section \<open>Keys and classes\<close>

definition DEFAULT_MAX_DONATION_DEPTH :: nat where "DEFAULT_MAX_DONATION_DEPTH = 8"
definition DEFAULT_MAX_DONATION_NS :: nat where "DEFAULT_MAX_DONATION_NS = 50000000"

datatype opaque_thread_key = OpaqueThreadKey (ok_slot: nat) (ok_generation: nat)

definition OpaqueThreadKey_new :: "nat \<Rightarrow> nat \<Rightarrow> opaque_thread_key option" where
  "OpaqueThreadKey_new slot generation = (if generation = 0 then None else Some (OpaqueThreadKey slot generation))"

text \<open>The derived order of the key compares slots, then generations.\<close>

instantiation opaque_thread_key :: linorder
begin

definition less_opaque_thread_key :: "opaque_thread_key \<Rightarrow> opaque_thread_key \<Rightarrow> bool" where
  "less_opaque_thread_key a b \<longleftrightarrow> (ok_slot a, ok_generation a) < (ok_slot b, ok_generation b)"

definition less_eq_opaque_thread_key :: "opaque_thread_key \<Rightarrow> opaque_thread_key \<Rightarrow> bool" where
  "less_eq_opaque_thread_key a b \<longleftrightarrow> (ok_slot a, ok_generation a) \<le> (ok_slot b, ok_generation b)"

instance
  by standard (auto simp: less_opaque_thread_key_def less_eq_opaque_thread_key_def opaque_thread_key.expand)

end

datatype scheduling_class = Critical | Audio | Interactive | Normal | Background

fun class_index :: "scheduling_class \<Rightarrow> nat" where
  "class_index Critical = 0"
| "class_index Audio = 1"
| "class_index Interactive = 2"
| "class_index Normal = 3"
| "class_index Background = 4"

lemma class_index_inj [simp]: "class_index a = class_index b \<longleftrightarrow> a = b"
  by (cases a; cases b) simp_all

instantiation scheduling_class :: linorder
begin

definition less_scheduling_class :: "scheduling_class \<Rightarrow> scheduling_class \<Rightarrow> bool" where
  "less_scheduling_class a b \<longleftrightarrow> class_index a < class_index b"

definition less_eq_scheduling_class :: "scheduling_class \<Rightarrow> scheduling_class \<Rightarrow> bool" where
  "less_eq_scheduling_class a b \<longleftrightarrow> class_index a \<le> class_index b"

instance
  by standard (auto simp: less_scheduling_class_def less_eq_scheduling_class_def)

end

definition ALL_CLASSES :: "scheduling_class list" where
  "ALL_CLASSES = [Critical, Audio, Interactive, Normal, Background]"

definition AGING_ORDER :: "scheduling_class list" where
  "AGING_ORDER = [Background, Normal, Interactive, Audio, Critical]"

definition higher :: "scheduling_class \<Rightarrow> scheduling_class \<Rightarrow> scheduling_class" where
  "higher a b = (if class_index a < class_index b then a else b)"

datatype authority = User | System | Kernel

fun allows :: "authority \<Rightarrow> scheduling_class \<Rightarrow> bool" where
  "allows User c \<longleftrightarrow> c = Normal \<or> c = Background"
| "allows System c \<longleftrightarrow> c \<noteq> Critical"
| "allows Kernel c \<longleftrightarrow> True"

section \<open>Policy and configuration\<close>

record class_policy =
  cp_quantum_ns :: nat
  cp_budget_ns :: nat
  cp_period_ns :: nat
  cp_starvation_ns :: nat
  cp_wake_latency_target_ns :: nat

definition policy_is_valid :: "class_policy \<Rightarrow> bool" where
  "policy_is_valid p \<longleftrightarrow>
     cp_quantum_ns p \<noteq> 0 \<and> cp_budget_ns p \<noteq> 0 \<and> cp_period_ns p \<noteq> 0 \<and> cp_starvation_ns p \<noteq> 0 \<and>
     cp_wake_latency_target_ns p \<noteq> 0 \<and> cp_quantum_ns p \<le> cp_budget_ns p \<and> cp_budget_ns p \<le> cp_period_ns p"

text \<open>The array indexed by \<^verbatim>\<open>class.index()\<close> is a function on classes.\<close>

record scheduler_config =
  sc_classes :: "scheduling_class \<Rightarrow> class_policy"
  sc_max_donation_depth :: nat
  sc_max_donation_ns :: nat

fun default_class_policy :: "scheduling_class \<Rightarrow> class_policy" where
  "default_class_policy Critical =
     \<lparr>cp_quantum_ns = 250000, cp_budget_ns = 1000000, cp_period_ns = 5000000, cp_starvation_ns = 1000000,
      cp_wake_latency_target_ns = 250000\<rparr>"
| "default_class_policy Audio =
     \<lparr>cp_quantum_ns = 1000000, cp_budget_ns = 3000000, cp_period_ns = 10000000, cp_starvation_ns = 4000000,
      cp_wake_latency_target_ns = 1000000\<rparr>"
| "default_class_policy Interactive =
     \<lparr>cp_quantum_ns = 2000000, cp_budget_ns = 16000000, cp_period_ns = 16000000, cp_starvation_ns = 8000000,
      cp_wake_latency_target_ns = 2000000\<rparr>"
| "default_class_policy Normal =
     \<lparr>cp_quantum_ns = 4000000, cp_budget_ns = 8000000, cp_period_ns = 20000000, cp_starvation_ns = 20000000,
      cp_wake_latency_target_ns = 5000000\<rparr>"
| "default_class_policy Background =
     \<lparr>cp_quantum_ns = 5000000, cp_budget_ns = 5000000, cp_period_ns = 25000000, cp_starvation_ns = 50000000,
      cp_wake_latency_target_ns = 20000000\<rparr>"

definition default_policy :: scheduler_config where
  "default_policy =
     \<lparr>sc_classes = default_class_policy, sc_max_donation_depth = DEFAULT_MAX_DONATION_DEPTH,
      sc_max_donation_ns = DEFAULT_MAX_DONATION_NS\<rparr>"

datatype config_error = InvalidClassPolicy | ZeroDonationDepth | DonationDepthTooLarge | ZeroDonationDuration

definition config_validate :: "scheduler_config \<Rightarrow> config_error + unit" where
  "config_validate c =
     (if list_ex (\<lambda>cl. \<not> policy_is_valid (sc_classes c cl)) ALL_CLASSES then Inl InvalidClassPolicy
      else if sc_max_donation_depth c = 0 then Inl ZeroDonationDepth
      else if sc_max_donation_depth c > DEFAULT_MAX_DONATION_DEPTH then Inl DonationDepthTooLarge
      else if sc_max_donation_ns c = 0 then Inl ZeroDonationDuration
      else Inr ())"

section \<open>Threads and the scheduler\<close>

datatype thread_state = Runnable | Running | Blocked | Throttled

record thread_metrics =
  tm_cpu_time_ns :: nat
  tm_runnable_wait_ns :: nat
  tm_wake_latency_ns :: nat
  tm_maximum_wake_latency_ns :: nat
  tm_wake_latency_samples :: nat
  tm_wake_latency_target_misses :: nat
  tm_context_switches :: nat
  tm_deadline_misses :: nat
  tm_throttling_events :: nat
  tm_throttled_time_ns :: nat

definition thread_metrics_default :: thread_metrics where
  "thread_metrics_default =
     \<lparr>tm_cpu_time_ns = 0, tm_runnable_wait_ns = 0, tm_wake_latency_ns = 0, tm_maximum_wake_latency_ns = 0,
      tm_wake_latency_samples = 0, tm_wake_latency_target_misses = 0, tm_context_switches = 0,
      tm_deadline_misses = 0, tm_throttling_events = 0, tm_throttled_time_ns = 0\<rparr>"

record thread =
  th_base_class :: scheduling_class
  th_effective_class :: scheduling_class
  th_authority :: authority
  th_state :: thread_state
  th_budget_remaining_ns :: nat
  th_period_started_ns :: nat
  th_runnable_since_ns :: "nat option"
  th_pending_wake_ns :: "nat option"
  th_throttled_since_ns :: "nat option"
  th_deadline_ns :: "nat option"
  th_deadline_miss_recorded :: bool
  th_metrics :: thread_metrics

record thread_snapshot =
  sn_base_class :: scheduling_class
  sn_effective_class :: scheduling_class
  sn_authority :: authority
  sn_state :: thread_state
  sn_budget_remaining_ns :: nat
  sn_next_replenishment_ns :: nat
  sn_deadline_ns :: "nat option"
  sn_metrics :: thread_metrics

record 'k dispatch =
  di_key :: 'k
  di_class :: scheduling_class
  di_quantum_ns :: nat

datatype run_disposition = Stay_Runnable | Become_Blocked

datatype scheduler_error = DuplicateKey | CapacityReached | UnknownKey | UnauthorizedClass scheduling_class | InvalidState

datatype donation_error =
    Donation_UnknownKey | EmptyChain | Donation_CapacityReached | DonorAlreadyDonating | ChainTooDeep | Cycle
  | Expired | DurationTooLong | TokenExhausted

text \<open>The fixed array with its count is the list of the recipients in use.\<close>

record 'k donation_chain =
  dc_token :: nat
  dc_root :: 'k
  dc_class :: scheduling_class
  dc_expires_at_ns :: nat
  dc_recipients :: "'k list"

record 'k thread_scheduler =
  ts_config :: scheduler_config
  ts_capacity :: nat
  ts_threads :: "('k \<times> thread) list"
  ts_queues :: "scheduling_class \<Rightarrow> 'k list"
  ts_donations :: "'k donation_chain list"
  ts_next_donation_token :: nat

datatype scheduler_init_error = InvalidConfig config_error | InvalidCapacity | Init_OutOfMemory

text \<open>\<open>al k\<close> tells whether the \<open>k\<close>-th reservation succeeds: threads, five queues, donations.\<close>

definition scheduler_try_new ::
  "(nat \<Rightarrow> bool) \<Rightarrow> scheduler_config \<Rightarrow> nat \<Rightarrow> scheduler_init_error + 'k thread_scheduler" where
  "scheduler_try_new al config capacity =
     (case config_validate config of
        Inl e \<Rightarrow> Inl (InvalidConfig e)
      | Inr _ \<Rightarrow>
          if capacity = 0 then Inl InvalidCapacity
          else if \<not> list_all al [0..<7] then Inl Init_OutOfMemory
          else Inr \<lparr>ts_config = config, ts_capacity = capacity, ts_threads = [], ts_queues = (\<lambda>_. []),
                     ts_donations = [], ts_next_donation_token = 1\<rparr>)"

definition thread_index :: "'k::linorder \<Rightarrow> 'k thread_scheduler \<Rightarrow> nat + nat" where
  "thread_index key s =
     (case position (\<lambda>(candidate, _). candidate = key) (ts_threads s) of
        Some index \<Rightarrow> Inr index
      | None \<Rightarrow> Inl (length (filter (\<lambda>(candidate, _). candidate < key) (ts_threads s))))"

definition ts_thread :: "'k::linorder thread_scheduler \<Rightarrow> 'k \<Rightarrow> thread option" where
  "ts_thread s key =
     (case thread_index key s of Inl _ \<Rightarrow> None | Inr index \<Rightarrow> Some (snd (ts_threads s ! index)))"

text \<open>An update through \<^verbatim>\<open>thread_mut\<close>.\<close>

definition thread_mut :: "'k::linorder \<Rightarrow> (thread \<Rightarrow> thread) \<Rightarrow> 'k thread_scheduler \<Rightarrow> 'k thread_scheduler" where
  "thread_mut key f s =
     (case thread_index key s of
        Inl _ \<Rightarrow> s
      | Inr index \<Rightarrow> s\<lparr>ts_threads := (ts_threads s)[index := map_prod id f (ts_threads s ! index)]\<rparr>)"

definition set_queue :: "scheduling_class \<Rightarrow> 'k list \<Rightarrow> 'k thread_scheduler \<Rightarrow> 'k thread_scheduler" where
  "set_queue c q s = s\<lparr>ts_queues := (ts_queues s)(c := q)\<rparr>"

definition policy :: "'k thread_scheduler \<Rightarrow> scheduling_class \<Rightarrow> class_policy" where
  "policy s c = sc_classes (ts_config s) c"

definition push_back :: "scheduling_class \<Rightarrow> 'k \<Rightarrow> 'k thread_scheduler \<Rightarrow> 'k thread_scheduler" where
  "push_back c key s = set_queue c (ts_queues s c @ [key]) s"

definition push_front :: "scheduling_class \<Rightarrow> 'k \<Rightarrow> 'k thread_scheduler \<Rightarrow> 'k thread_scheduler" where
  "push_front c key s = set_queue c (key # ts_queues s c) s"

definition remove_from_queue :: "scheduling_class \<Rightarrow> 'k \<Rightarrow> 'k thread_scheduler \<Rightarrow> 'k thread_scheduler" where
  "remove_from_queue c key s = set_queue c (filter (\<lambda>queued. queued \<noteq> key) (ts_queues s c)) s"

definition remove_from_all_queues :: "'k \<Rightarrow> 'k thread_scheduler \<Rightarrow> 'k thread_scheduler" where
  "remove_from_all_queues key s = s\<lparr>ts_queues := (\<lambda>c. filter (\<lambda>queued. queued \<noteq> key) (ts_queues s c))\<rparr>"

definition take_from_queue ::
  "scheduling_class \<Rightarrow> 'k \<Rightarrow> 'k thread_scheduler \<Rightarrow> ('k \<times> 'k thread_scheduler) option" where
  "take_from_queue c key s =
     (case position (\<lambda>queued. queued = key) (ts_queues s c) of
        None \<Rightarrow> None
      | Some index \<Rightarrow>
          Some (ts_queues s c ! index, set_queue c (take index (ts_queues s c) @ drop (Suc index) (ts_queues s c)) s))"

section \<open>Effective classes and maintenance\<close>

definition effective_class_for :: "'k thread_scheduler \<Rightarrow> 'k \<Rightarrow> scheduling_class \<Rightarrow> scheduling_class" where
  "effective_class_for s key base_class =
     foldl (\<lambda>c d. higher c (dc_class d)) base_class (filter (\<lambda>d. key \<in> set (dc_recipients d)) (ts_donations s))"

text \<open>The block of \<^verbatim>\<open>maintain_thread\<close> that borrows the thread.\<close>

definition replenish :: "class_policy \<Rightarrow> scheduling_class \<Rightarrow> nat \<Rightarrow> thread \<Rightarrow> thread" where
  "replenish p effective_class now_ns th =
     (let th1 = th\<lparr>th_effective_class := effective_class\<rparr>;
          period_end = saturating_add (th_period_started_ns th1) (cp_period_ns p)
      in if now_ns \<ge> period_end then
           let elapsed = now_ns - th_period_started_ns th1;
               periods = elapsed div cp_period_ns p;
               th2 = th1\<lparr>th_period_started_ns := saturating_add (th_period_started_ns th1) (saturating_mul periods (cp_period_ns p)),
                         th_budget_remaining_ns := cp_budget_ns p\<rparr>
           in if th_state th2 = Throttled then
                let th3 = (case th_throttled_since_ns th2 of
                             None \<Rightarrow> th2
                           | Some since \<Rightarrow>
                               th2\<lparr>th_throttled_since_ns := None,
                                   th_metrics := (th_metrics th2)\<lparr>tm_throttled_time_ns :=
                                     saturating_add (tm_throttled_time_ns (th_metrics th2)) (now_ns - since)\<rparr>\<rparr>)
                in th3\<lparr>th_state := Runnable,
                       th_runnable_since_ns := (case th_runnable_since_ns th3 of None \<Rightarrow> Some now_ns | Some x \<Rightarrow> Some x)\<rparr>
              else th2
         else th1\<lparr>th_budget_remaining_ns := min (th_budget_remaining_ns th1) (cp_budget_ns p)\<rparr>)"

definition maintain_thread ::
  "'k::linorder \<Rightarrow> nat \<Rightarrow> 'k thread_scheduler \<Rightarrow> (scheduler_error + unit) \<times> 'k thread_scheduler" where
  "maintain_thread key now_ns s =
     (case ts_thread s key of
        None \<Rightarrow> (Inl UnknownKey, s)
      | Some th \<Rightarrow>
          let effective_class = effective_class_for s key (th_base_class th);
              p = policy s effective_class;
              old_class = th_effective_class th;
              old_state = th_state th;
              th' = replenish p effective_class now_ns th;
              new_class = th_effective_class th';
              new_state = th_state th';
              s1 = thread_mut key (\<lambda>_. th') s
          in (Inr (),
              if old_state = Runnable \<and> old_class \<noteq> new_class then
                let s2 = remove_from_queue old_class key s1
                in if new_state = Runnable then push_back new_class key s2 else s2
              else if old_state = Throttled \<and> new_state = Runnable then push_back new_class key s1
              else s1))"

fun maintain_all :: "nat list \<Rightarrow> nat \<Rightarrow> 'k::linorder thread_scheduler \<Rightarrow> 'k thread_scheduler" where
  "maintain_all [] now_ns s = s"
| "maintain_all (index # js) now_ns s = maintain_all js now_ns (snd (maintain_thread (fst (ts_threads s ! index)) now_ns s))"

definition maintain :: "nat \<Rightarrow> 'k::linorder thread_scheduler \<Rightarrow> 'k thread_scheduler" where
  "maintain now_ns s =
     (let s1 = s\<lparr>ts_donations := filter (\<lambda>d. dc_expires_at_ns d > now_ns) (ts_donations s)\<rparr>
      in maintain_all [0..<length (ts_threads s1)] now_ns s1)"

definition move_queue_if_needed ::
  "'k \<Rightarrow> scheduling_class \<Rightarrow> scheduling_class \<Rightarrow> thread_state \<Rightarrow> 'k thread_scheduler \<Rightarrow> 'k thread_scheduler" where
  "move_queue_if_needed key old_class new_class st s =
     (if st = Runnable \<and> old_class \<noteq> new_class then push_back new_class key (remove_from_queue old_class key s) else s)"

text \<open>\<open>cap_budget_for_class\<close> is only called with a live key; for another one the code would panic.\<close>

definition cap_budget_for_class :: "'k::linorder \<Rightarrow> 'k thread_scheduler \<Rightarrow> 'k thread_scheduler" where
  "cap_budget_for_class key s =
     thread_mut key (\<lambda>th. th\<lparr>th_budget_remaining_ns :=
       min (th_budget_remaining_ns th) (cp_budget_ns (policy s (th_effective_class th)))\<rparr>) s"

definition recompute_effective_class :: "'k::linorder \<Rightarrow> nat \<Rightarrow> 'k thread_scheduler \<Rightarrow> 'k thread_scheduler" where
  "recompute_effective_class key now_ns s =
     (case ts_thread s key of
        None \<Rightarrow> s
      | Some th \<Rightarrow>
          let old_class = th_effective_class th;
              new_class = effective_class_for s key (th_base_class th);
              s1 = thread_mut key (\<lambda>t. t\<lparr>th_effective_class := new_class\<rparr>) s;
              s2 = move_queue_if_needed key old_class new_class (th_state th) s1;
              s3 = cap_budget_for_class key s2
          in snd (maintain_thread key now_ns s3))"

section \<open>Operations\<close>

definition insert_at :: "nat \<Rightarrow> 'a \<Rightarrow> 'a list \<Rightarrow> 'a list" where
  "insert_at index x xs = take index xs @ x # drop index xs"

definition remove_at :: "nat \<Rightarrow> 'a list \<Rightarrow> 'a list" where
  "remove_at index xs = take index xs @ drop (Suc index) xs"

definition add_thread ::
  "'k::linorder \<Rightarrow> scheduling_class \<Rightarrow> authority \<Rightarrow> nat \<Rightarrow> 'k thread_scheduler
     \<Rightarrow> (scheduler_error + unit) \<times> 'k thread_scheduler" where
  "add_thread key base_class auth now_ns s =
     (case thread_index key s of
        Inr _ \<Rightarrow> (Inl DuplicateKey, s)
      | Inl insertion \<Rightarrow>
          if length (ts_threads s) = ts_capacity s then (Inl CapacityReached, s)
          else if \<not> allows auth base_class then (Inl (UnauthorizedClass base_class), s)
          else
            let th = \<lparr>th_base_class = base_class, th_effective_class = base_class, th_authority = auth,
                      th_state = Runnable, th_budget_remaining_ns = cp_budget_ns (policy s base_class),
                      th_period_started_ns = now_ns, th_runnable_since_ns = Some now_ns, th_pending_wake_ns = None,
                      th_throttled_since_ns = None, th_deadline_ns = None, th_deadline_miss_recorded = False,
                      th_metrics = thread_metrics_default\<rparr>
            in (Inr (), push_back base_class key (s\<lparr>ts_threads := insert_at insertion (key, th) (ts_threads s)\<rparr>)))"

definition snapshot :: "'k::linorder \<Rightarrow> 'k thread_scheduler \<Rightarrow> thread_snapshot option" where
  "snapshot key s =
     (case ts_thread s key of
        None \<Rightarrow> None
      | Some th \<Rightarrow>
          Some \<lparr>sn_base_class = th_base_class th, sn_effective_class = th_effective_class th,
                sn_authority = th_authority th, sn_state = th_state th,
                sn_budget_remaining_ns = th_budget_remaining_ns th,
                sn_next_replenishment_ns =
                  saturating_add (th_period_started_ns th) (cp_period_ns (policy s (th_effective_class th))),
                sn_deadline_ns = th_deadline_ns th, sn_metrics = th_metrics th\<rparr>)"

definition set_base_class ::
  "'k::linorder \<Rightarrow> scheduling_class \<Rightarrow> nat \<Rightarrow> 'k thread_scheduler \<Rightarrow> (scheduler_error + unit) \<times> 'k thread_scheduler" where
  "set_base_class key c now_ns s =
     (case maintain_thread key now_ns s of
        (Inl e, s1) \<Rightarrow> (Inl e, s1)
      | (Inr _, s1) \<Rightarrow>
          let effective = effective_class_for s1 key c in
          case ts_thread s1 key of
            None \<Rightarrow> (Inl UnknownKey, s1)
          | Some th \<Rightarrow>
              if \<not> allows (th_authority th) c then (Inl (UnauthorizedClass c), s1)
              else
                let s2 = thread_mut key (\<lambda>t. t\<lparr>th_base_class := c, th_effective_class := effective\<rparr>) s1;
                    s3 = move_queue_if_needed key (th_effective_class th) effective (th_state th) s2
                in (Inr (), cap_budget_for_class key s3))"

definition set_base_class_with_authority ::
  "'k::linorder \<Rightarrow> scheduling_class \<Rightarrow> authority \<Rightarrow> nat \<Rightarrow> 'k thread_scheduler
     \<Rightarrow> (scheduler_error + unit) \<times> 'k thread_scheduler" where
  "set_base_class_with_authority key c auth now_ns s =
     (if \<not> allows auth c then (Inl (UnauthorizedClass c), s)
      else case ts_thread s key of
        None \<Rightarrow> (Inl UnknownKey, s)
      | Some _ \<Rightarrow> set_base_class key c now_ns (thread_mut key (\<lambda>t. t\<lparr>th_authority := auth\<rparr>) s))"

definition set_deadline ::
  "'k::linorder \<Rightarrow> nat \<Rightarrow> 'k thread_scheduler \<Rightarrow> (scheduler_error + unit) \<times> 'k thread_scheduler" where
  "set_deadline key deadline_ns s =
     (case ts_thread s key of
        None \<Rightarrow> (Inl UnknownKey, s)
      | Some _ \<Rightarrow>
          (Inr (), thread_mut key (\<lambda>t. t\<lparr>th_deadline_ns := Some deadline_ns, th_deadline_miss_recorded := False\<rparr>) s))"

definition clear_deadline :: "'k::linorder \<Rightarrow> 'k thread_scheduler \<Rightarrow> (scheduler_error + unit) \<times> 'k thread_scheduler" where
  "clear_deadline key s =
     (case ts_thread s key of
        None \<Rightarrow> (Inl UnknownKey, s)
      | Some _ \<Rightarrow> (Inr (), thread_mut key (\<lambda>t. t\<lparr>th_deadline_ns := None, th_deadline_miss_recorded := False\<rparr>) s))"

definition note_deadline_miss :: "thread \<Rightarrow> thread" where
  "note_deadline_miss t =
     t\<lparr>th_metrics := (th_metrics t)\<lparr>tm_deadline_misses := saturating_add (tm_deadline_misses (th_metrics t)) 1\<rparr>,
       th_deadline_miss_recorded := True\<rparr>"

definition record_deadline_miss ::
  "'k::linorder \<Rightarrow> 'k thread_scheduler \<Rightarrow> (scheduler_error + unit) \<times> 'k thread_scheduler" where
  "record_deadline_miss key s =
     (case ts_thread s key of
        None \<Rightarrow> (Inl UnknownKey, s)
      | Some th \<Rightarrow>
          (Inr (), if th_deadline_ns th \<noteq> None \<and> \<not> th_deadline_miss_recorded th
                   then thread_mut key note_deadline_miss s else s))"

definition block :: "'k::linorder \<Rightarrow> 'k thread_scheduler \<Rightarrow> (scheduler_error + unit) \<times> 'k thread_scheduler" where
  "block key s =
     (case ts_thread s key of
        None \<Rightarrow> (Inl UnknownKey, s)
      | Some th \<Rightarrow>
          if th_state th \<noteq> Runnable \<and> th_state th \<noteq> Running then (Inl InvalidState, s)
          else (Inr (), thread_mut key (\<lambda>t. t\<lparr>th_state := Blocked, th_runnable_since_ns := None\<rparr>)
                          (remove_from_all_queues key s)))"

definition woken :: "nat \<Rightarrow> thread \<Rightarrow> thread" where
  "woken now_ns th =
     (let t = th\<lparr>th_pending_wake_ns := Some now_ns, th_runnable_since_ns := Some now_ns\<rparr>
      in if th_budget_remaining_ns t = 0 then
           t\<lparr>th_state := Throttled,
             th_throttled_since_ns := (case th_throttled_since_ns t of None \<Rightarrow> Some now_ns | Some x \<Rightarrow> Some x)\<rparr>
         else t\<lparr>th_state := Runnable\<rparr>)"

definition wake :: "'k::linorder \<Rightarrow> nat \<Rightarrow> 'k thread_scheduler \<Rightarrow> (scheduler_error + unit) \<times> 'k thread_scheduler" where
  "wake key now_ns s =
     (case maintain_thread key now_ns s of
        (Inl e, s1) \<Rightarrow> (Inl e, s1)
      | (Inr _, s1) \<Rightarrow>
          case ts_thread s1 key of
            None \<Rightarrow> (Inl UnknownKey, s1)
          | Some th \<Rightarrow>
              if th_state th \<noteq> Blocked then (Inl InvalidState, s1)
              else
                let s2 = thread_mut key (woken now_ns) s1
                in (Inr (), if th_budget_remaining_ns th = 0 then s2 else push_front (th_effective_class th) key s2))"

text \<open>The loops over the queues; the outer \<^verbatim>\<open>None\<close> is the panic of \<^verbatim>\<open>expect\<close>.\<close>

definition queued_pairs :: "'k thread_scheduler \<Rightarrow> (scheduling_class \<times> 'k) list" where
  "queued_pairs s = concat (map (\<lambda>c. map (Pair c) (ts_queues s c)) ALL_CLASSES)"

fun select_deadline_scan ::
  "'k::linorder thread_scheduler \<Rightarrow> (scheduling_class \<times> 'k) list \<Rightarrow> (nat \<times> 'k \<times> scheduling_class) option
     \<Rightarrow> (nat \<times> 'k \<times> scheduling_class) option option" where
  "select_deadline_scan s [] selected = Some selected"
| "select_deadline_scan s ((c, key) # rest) selected =
     (case ts_thread s key of
        None \<Rightarrow> None
      | Some th \<Rightarrow>
          case th_deadline_ns th of
            None \<Rightarrow> select_deadline_scan s rest selected
          | Some deadline_ns \<Rightarrow>
              let candidate = (deadline_ns, key, c)
              in select_deadline_scan s rest
                   (case selected of
                      None \<Rightarrow> Some candidate
                    | Some current \<Rightarrow> if candidate < current then Some candidate else selected))"

definition select_deadline_thread :: "'k::linorder thread_scheduler \<Rightarrow> (scheduling_class \<times> 'k) option option" where
  "select_deadline_thread s =
     map_option (map_option (\<lambda>(_, key, c). (c, key))) (select_deadline_scan s (queued_pairs s) None)"

fun select_aged :: "'k::linorder thread_scheduler \<Rightarrow> nat \<Rightarrow> scheduling_class list \<Rightarrow> scheduling_class option option" where
  "select_aged s now_ns [] = Some None"
| "select_aged s now_ns (c # rest) =
     (case ts_queues s c of
        [] \<Rightarrow> select_aged s now_ns rest
      | key # _ \<Rightarrow>
          case ts_thread s key of
            None \<Rightarrow> None
          | Some th \<Rightarrow>
              let waited = now_ns - (case th_runnable_since_ns th of None \<Rightarrow> now_ns | Some since \<Rightarrow> since)
              in if waited \<ge> cp_starvation_ns (policy s c) then Some (Some c) else select_aged s now_ns rest)"

definition select_class :: "'k::linorder thread_scheduler \<Rightarrow> nat \<Rightarrow> scheduling_class option option" where
  "select_class s now_ns =
     (case select_aged s now_ns AGING_ORDER of
        None \<Rightarrow> None
      | Some (Some c) \<Rightarrow> Some (Some c)
      | Some None \<Rightarrow> Some (find (\<lambda>c. ts_queues s c \<noteq> []) ALL_CLASSES))"

text \<open>The accounting of \<^verbatim>\<open>next_dispatch\<close> on the selected thread.\<close>

definition account_wait :: "nat \<Rightarrow> thread \<Rightarrow> thread" where
  "account_wait now_ns th =
     (case th_runnable_since_ns th of
        None \<Rightarrow> th
      | Some since \<Rightarrow>
          th\<lparr>th_runnable_since_ns := None,
             th_metrics := (th_metrics th)\<lparr>tm_runnable_wait_ns :=
               saturating_add (tm_runnable_wait_ns (th_metrics th)) (now_ns - since)\<rparr>\<rparr>)"

definition account_wake :: "class_policy \<Rightarrow> nat \<Rightarrow> thread \<Rightarrow> thread" where
  "account_wake p now_ns th =
     (case th_pending_wake_ns th of
        None \<Rightarrow> th
      | Some woke_at \<Rightarrow>
          let latency = now_ns - woke_at;
              m = th_metrics th;
              m1 = m\<lparr>tm_wake_latency_ns := saturating_add (tm_wake_latency_ns m) latency,
                     tm_maximum_wake_latency_ns := max (tm_maximum_wake_latency_ns m) latency,
                     tm_wake_latency_samples := saturating_add (tm_wake_latency_samples m) 1\<rparr>;
              m2 = (if latency > cp_wake_latency_target_ns p then
                      m1\<lparr>tm_wake_latency_target_misses := saturating_add (tm_wake_latency_target_misses m1) 1\<rparr>
                    else m1)
          in th\<lparr>th_pending_wake_ns := None, th_metrics := m2\<rparr>)"

definition account_deadline :: "nat \<Rightarrow> thread \<Rightarrow> thread" where
  "account_deadline now_ns th =
     (if (case th_deadline_ns th of None \<Rightarrow> False | Some deadline \<Rightarrow> now_ns > deadline) \<and> \<not> th_deadline_miss_recorded th
      then note_deadline_miss th else th)"

definition start_running :: "class_policy \<Rightarrow> nat \<Rightarrow> thread \<Rightarrow> thread" where
  "start_running p now_ns th =
     (let t = account_deadline now_ns (account_wake p now_ns (account_wait now_ns th))
      in t\<lparr>th_state := Running,
           th_metrics := (th_metrics t)\<lparr>tm_context_switches := saturating_add (tm_context_switches (th_metrics t)) 1\<rparr>\<rparr>)"

text \<open>The selection of \<^verbatim>\<open>next_dispatch\<close>, which also takes the thread off its queue.\<close>

definition select_next ::
  "nat \<Rightarrow> 'k::linorder thread_scheduler \<Rightarrow> ((scheduling_class \<times> 'k) option \<times> 'k thread_scheduler) option" where
  "select_next now_ns s =
     (case select_deadline_thread s of
        None \<Rightarrow> None
      | Some (Some (c, key)) \<Rightarrow> map_option (\<lambda>(key', s'). (Some (c, key'), s')) (take_from_queue c key s)
      | Some None \<Rightarrow>
          case select_class s now_ns of
            None \<Rightarrow> None
          | Some None \<Rightarrow> Some (None, s)
          | Some (Some c) \<Rightarrow>
              case ts_queues s c of
                [] \<Rightarrow> Some (None, s)
              | key # rest \<Rightarrow> Some (Some (c, key), set_queue c rest s))"

text \<open>\<^verbatim>\<open>None\<close> also stands for a failed \<^verbatim>\<open>debug_assert_eq\<close>.\<close>

definition next_dispatch ::
  "nat \<Rightarrow> 'k::linorder thread_scheduler \<Rightarrow> ('k dispatch option \<times> 'k thread_scheduler) option" where
  "next_dispatch now_ns s =
     (case select_next now_ns (maintain now_ns s) of
        None \<Rightarrow> None
      | Some (None, s1) \<Rightarrow> Some (None, s1)
      | Some (Some (c, key), s1) \<Rightarrow>
          case ts_thread s1 key of
            None \<Rightarrow> None
          | Some th \<Rightarrow>
              if th_state th \<noteq> Runnable \<or> th_effective_class th \<noteq> c then None
              else
                Some (Some \<lparr>di_key = key, di_class = c,
                            di_quantum_ns = min (cp_quantum_ns (policy s1 c)) (th_budget_remaining_ns th)\<rparr>,
                      thread_mut key (start_running (policy s1 c) now_ns) s1))"

definition charge :: "nat \<Rightarrow> nat \<Rightarrow> run_disposition \<Rightarrow> thread \<Rightarrow> thread" where
  "charge elapsed_ns now_ns disposition th =
     (let t = th\<lparr>th_metrics := (th_metrics th)\<lparr>tm_cpu_time_ns :=
                   saturating_add (tm_cpu_time_ns (th_metrics th)) elapsed_ns\<rparr>,
                 th_budget_remaining_ns := th_budget_remaining_ns th - elapsed_ns\<rparr>
      in case disposition of
           Become_Blocked \<Rightarrow> t\<lparr>th_state := Blocked, th_runnable_since_ns := None\<rparr>
         | Stay_Runnable \<Rightarrow>
             if th_budget_remaining_ns t = 0 then
               t\<lparr>th_state := Throttled, th_runnable_since_ns := Some now_ns, th_throttled_since_ns := Some now_ns,
                 th_metrics := (th_metrics t)\<lparr>tm_throttling_events :=
                   saturating_add (tm_throttling_events (th_metrics t)) 1\<rparr>\<rparr>
             else t\<lparr>th_state := Runnable, th_runnable_since_ns := Some now_ns\<rparr>)"

definition finish_dispatch ::
  "'k::linorder \<Rightarrow> nat \<Rightarrow> nat \<Rightarrow> run_disposition \<Rightarrow> 'k thread_scheduler
     \<Rightarrow> (scheduler_error + unit) \<times> 'k thread_scheduler" where
  "finish_dispatch key elapsed_ns now_ns disposition s =
     (case ts_thread s key of
        None \<Rightarrow> (Inl UnknownKey, s)
      | Some th \<Rightarrow>
          if th_state th \<noteq> Running then (Inl InvalidState, s)
          else
            let t = charge elapsed_ns now_ns disposition th;
                s1 = thread_mut key (\<lambda>_. t) s
            in (Inr (), if th_state t = Runnable then push_back (th_effective_class t) key s1 else s1))"

section \<open>Donation\<close>

text \<open>The loop over the chain: \<open>seen\<close> is \<^verbatim>\<open>chain[..index]\<close>.\<close>

fun check_chain :: "'k::linorder thread_scheduler \<Rightarrow> 'k \<Rightarrow> 'k list \<Rightarrow> 'k list \<Rightarrow> donation_error + unit" where
  "check_chain s donor seen [] = Inr ()"
| "check_chain s donor seen (key # rest) =
     (if key = donor \<or> key \<in> set seen then Inl Cycle
      else if ts_thread s key = None then Inl Donation_UnknownKey
      else check_chain s donor (seen @ [key]) rest)"

fun recompute_all :: "'k::linorder list \<Rightarrow> nat \<Rightarrow> 'k thread_scheduler \<Rightarrow> 'k thread_scheduler" where
  "recompute_all [] now_ns s = s"
| "recompute_all (key # rest) now_ns s = recompute_all rest now_ns (recompute_effective_class key now_ns s)"

definition donate_chain ::
  "'k::linorder \<Rightarrow> 'k list \<Rightarrow> nat \<Rightarrow> nat \<Rightarrow> 'k thread_scheduler \<Rightarrow> (donation_error + nat) \<times> 'k thread_scheduler" where
  "donate_chain donor chain expires_at_ns now_ns s =
     (if chain = [] then (Inl EmptyChain, s)
      else if length chain > sc_max_donation_depth (ts_config s) then (Inl ChainTooDeep, s)
      else if expires_at_ns \<le> now_ns then (Inl Expired, s)
      else if expires_at_ns - now_ns > sc_max_donation_ns (ts_config s) then (Inl DurationTooLong, s)
      else if list_ex (\<lambda>d. dc_root d = donor) (ts_donations s) then (Inl DonorAlreadyDonating, s)
      else if length (ts_donations s) = ts_capacity s then (Inl Donation_CapacityReached, s)
      else case ts_thread s donor of
        None \<Rightarrow> (Inl Donation_UnknownKey, s)
      | Some th \<Rightarrow>
          case check_chain s donor [] chain of
            Inl e \<Rightarrow> (Inl e, s)
          | Inr _ \<Rightarrow>
              let token = ts_next_donation_token s in
              case checked_add token 1 of
                None \<Rightarrow> (Inl TokenExhausted, s)
              | Some next_token \<Rightarrow>
                  let d = \<lparr>dc_token = token, dc_root = donor, dc_class = th_effective_class th,
                           dc_expires_at_ns = expires_at_ns, dc_recipients = chain\<rparr>;
                      s1 = s\<lparr>ts_donations := ts_donations s @ [d], ts_next_donation_token := next_token\<rparr>
                  in (Inr token, recompute_all chain now_ns s1))"

definition cancel_donation :: "nat \<Rightarrow> nat \<Rightarrow> 'k::linorder thread_scheduler \<Rightarrow> bool \<times> 'k thread_scheduler" where
  "cancel_donation token now_ns s =
     (case position (\<lambda>d. dc_token d = token) (ts_donations s) of
        None \<Rightarrow> (False, s)
      | Some index \<Rightarrow>
          (True, recompute_all (dc_recipients (ts_donations s ! index)) now_ns
                   (s\<lparr>ts_donations := swap_remove index (ts_donations s)\<rparr>)))"

definition touches :: "'k \<Rightarrow> 'k donation_chain \<Rightarrow> bool" where
  "touches key d \<longleftrightarrow> dc_root d = key \<or> key \<in> set (dc_recipients d)"

section \<open>What the primitives keep\<close>

named_theorems sched_simps \<open>frame equations of the scheduler's primitives\<close>

lemma thread_mut_frame [sched_simps, simp]:
  "ts_config (thread_mut k f s) = ts_config s" "ts_capacity (thread_mut k f s) = ts_capacity s"
  "ts_queues (thread_mut k f s) = ts_queues s" "ts_donations (thread_mut k f s) = ts_donations s"
  "ts_next_donation_token (thread_mut k f s) = ts_next_donation_token s"
  by (simp_all add: thread_mut_def split: sum.split)

lemma queue_ops_frame [sched_simps, simp]:
  "ts_config (set_queue c q s) = ts_config s" "ts_config (remove_from_all_queues k s) = ts_config s"
  "ts_capacity (set_queue c q s) = ts_capacity s" "ts_capacity (remove_from_all_queues k s) = ts_capacity s"
  "ts_threads (set_queue c q s) = ts_threads s" "ts_threads (remove_from_all_queues k s) = ts_threads s"
  "ts_donations (set_queue c q s) = ts_donations s" "ts_donations (remove_from_all_queues k s) = ts_donations s"
  "ts_next_donation_token (set_queue c q s) = ts_next_donation_token s"
  "ts_next_donation_token (remove_from_all_queues k s) = ts_next_donation_token s"
  "ts_queues (set_queue c q s) = (ts_queues s)(c := q)"
  "ts_queues (remove_from_all_queues k s) = (\<lambda>c. filter (\<lambda>j. j \<noteq> k) (ts_queues s c))"
  by (simp_all add: set_queue_def remove_from_all_queues_def)

lemmas queue_op_defs = push_back_def push_front_def remove_from_queue_def

lemma maintain_thread_frame [sched_simps, simp]:
  "ts_config (snd (maintain_thread k now s)) = ts_config s" "ts_capacity (snd (maintain_thread k now s)) = ts_capacity s"
  "ts_donations (snd (maintain_thread k now s)) = ts_donations s"
  "ts_next_donation_token (snd (maintain_thread k now s)) = ts_next_donation_token s"
  by (auto simp: maintain_thread_def Let_def queue_op_defs split: option.split)

lemma recompute_frame [sched_simps, simp]:
  "ts_config (recompute_effective_class k now s) = ts_config s"
  "ts_capacity (recompute_effective_class k now s) = ts_capacity s"
  "ts_donations (recompute_effective_class k now s) = ts_donations s"
  "ts_next_donation_token (recompute_effective_class k now s) = ts_next_donation_token s"
  by (auto simp: recompute_effective_class_def Let_def cap_budget_for_class_def move_queue_if_needed_def queue_op_defs
      split: option.split)

lemma recompute_all_frame [sched_simps, simp]:
  "ts_config (recompute_all ks now s) = ts_config s" "ts_capacity (recompute_all ks now s) = ts_capacity s"
  "ts_donations (recompute_all ks now s) = ts_donations s"
  "ts_next_donation_token (recompute_all ks now s) = ts_next_donation_token s"
  by (induction ks arbitrary: s) simp_all

lemma cancel_donation_shrinks:
  assumes "d \<in> set (ts_donations s)"
  shows "length (ts_donations (snd (cancel_donation (dc_token d) now s))) < length (ts_donations s)"
proof -
  obtain i where i: "position (\<lambda>x. dc_token x = dc_token d) (ts_donations s) = Some i"
    using assms by (cases "position (\<lambda>x. dc_token x = dc_token d) (ts_donations s)") (auto simp: position_None)
  then show ?thesis using position_SomeD [OF i] by (auto simp: cancel_donation_def)
qed

text \<open>The loop of \<^verbatim>\<open>cancel_donations_touching\<close>: every round cancels a chain.\<close>

function cancel_touching_loop ::
  "'k::linorder \<Rightarrow> nat \<Rightarrow> nat \<Rightarrow> 'k thread_scheduler \<Rightarrow> nat \<times> 'k thread_scheduler" where
  "cancel_touching_loop key now_ns removed s =
     (case find (touches key) (ts_donations s) of
        None \<Rightarrow> (removed, s)
      | Some d \<Rightarrow>
          let r = cancel_donation (dc_token d) now_ns s
          in cancel_touching_loop key now_ns (saturating_add removed (if fst r then 1 else 0)) (snd r))"
  by pat_completeness auto

termination
  by (relation "measure (\<lambda>(_, _, _, s). length (ts_donations s))")
    (auto simp: find_Some_iff intro!: cancel_donation_shrinks)

declare cancel_touching_loop.simps [simp del]

definition cancel_donations_touching :: "'k::linorder \<Rightarrow> nat \<Rightarrow> 'k thread_scheduler \<Rightarrow> nat \<times> 'k thread_scheduler" where
  "cancel_donations_touching key now_ns s = cancel_touching_loop key now_ns 0 s"

definition cancel_donations_from :: "'k::linorder \<Rightarrow> nat \<Rightarrow> 'k thread_scheduler \<Rightarrow> nat \<times> 'k thread_scheduler" where
  "cancel_donations_from donor now_ns s =
     (case find (\<lambda>d. dc_root d = donor) (ts_donations s) of
        None \<Rightarrow> (0, s)
      | Some d \<Rightarrow> let r = cancel_donation (dc_token d) now_ns s in (if fst r then 1 else 0, snd r))"

text \<open>\<^verbatim>\<open>Vec::remove\<close> past the end would panic: \<open>remove_thread\<close> uses the index found before the unwinding.\<close>

definition remove_thread ::
  "'k::linorder \<Rightarrow> nat \<Rightarrow> 'k thread_scheduler \<Rightarrow> (scheduler_error + thread_metrics) \<times> 'k thread_scheduler" where
  "remove_thread key now_ns s =
     (case thread_index key s of
        Inl _ \<Rightarrow> (Inl UnknownKey, s)
      | Inr index \<Rightarrow>
          let s1 = snd (cancel_donations_touching key now_ns s);
              s2 = remove_from_all_queues key s1
          in (Inr (th_metrics (snd (ts_threads s2 ! index))), s2\<lparr>ts_threads := remove_at index (ts_threads s2)\<rparr>))"

section \<open>The thread table as a map\<close>

lemma ts_thread_map_of: "ts_thread s k = map_of (ts_threads s) k"
proof -
  have "(case position (\<lambda>(c, _). c = k) xs of None \<Rightarrow> None | Some i \<Rightarrow> Some (snd (xs ! i))) = map_of xs k" for xs :: "('a \<times> thread) list"
    by (induction xs) (auto split: option.splits)
  from this [of "ts_threads s"] show ?thesis
    by (simp add: ts_thread_def thread_index_def split: option.splits)
qed

lemma ts_thread_cong: "ts_threads s = ts_threads t \<Longrightarrow> ts_thread s = ts_thread t"
  by (rule ext) (simp add: ts_thread_map_of)

lemma ts_thread_frame [sched_simps, simp]:
  "ts_thread (set_queue c q s) = ts_thread s" "ts_thread (remove_from_all_queues k s) = ts_thread s"
  "ts_thread (s\<lparr>ts_donations := ds\<rparr>) = ts_thread s" "ts_thread (s\<lparr>ts_next_donation_token := n\<rparr>) = ts_thread s"
  by (rule ts_thread_cong; simp)+

lemma thread_index_Inr:
  "thread_index k s = Inr i \<longleftrightarrow> position (\<lambda>(c, _). c = k) (ts_threads s) = Some i"
  by (simp add: thread_index_def split: option.split)

lemma thread_index_SomeD:
  assumes "thread_index k s = Inr i"
  shows "i < length (ts_threads s)" "fst (ts_threads s ! i) = k"
  using assms position_SomeD [of "\<lambda>(c, _). c = k" "ts_threads s" i] by (auto simp: thread_index_Inr)

lemma thread_index_None: "thread_index k s = Inl i \<Longrightarrow> ts_thread s k = None"
  by (simp add: ts_thread_def)

lemma keys_thread_mut [sched_simps, simp]: "map fst (ts_threads (thread_mut k f s)) = map fst (ts_threads s)"
proof (cases "thread_index k s")
  case (Inr i)
  have "map fst ((ts_threads s)[i := map_prod id f (ts_threads s ! i)]) = map fst (ts_threads s)"
    using thread_index_SomeD(1) [OF Inr] by (simp add: map_update list_update_same_conv)
  then show ?thesis using Inr by (simp add: thread_mut_def)
qed (simp add: thread_mut_def)

lemma map_of_position_update:
  "position (\<lambda>(c, _). c = k) xs = Some i \<Longrightarrow>
   map_of (xs[i := map_prod id f (xs ! i)]) j = (if j = k then map_option f (map_of xs k) else map_of xs j)"
  by (induction xs arbitrary: i) (auto split: if_splits)

lemma ts_thread_mut [sched_simps, simp]:
  "ts_thread (thread_mut k f s) = (ts_thread s)(k := map_option f (ts_thread s k))"
proof (cases "thread_index k s")
  case (Inl i)
  then have "ts_thread s k = None" by (rule thread_index_None)
  with Inl show ?thesis by (auto simp: thread_mut_def fun_upd_idem)
next
  case (Inr i)
  then have p: "position (\<lambda>(c, _). c = k) (ts_threads s) = Some i"
    by (simp add: thread_index_Inr)
  show ?thesis
    using Inr by (intro ext) (simp add: thread_mut_def ts_thread_map_of map_of_position_update [OF p])
qed

lemma ts_thread_index:
  assumes "sorted_wrt (<) (map fst (ts_threads s))" "i < length (ts_threads s)"
  shows "ts_thread s (fst (ts_threads s ! i)) = Some (snd (ts_threads s ! i))"
  using assms by (auto simp: ts_thread_map_of strict_sorted_iff intro!: map_of_is_SomeI)

lemma length_threads_keys: "map fst (ts_threads s) = map fst (ts_threads t) \<Longrightarrow> length (ts_threads s) = length (ts_threads t)"
  by (metis length_map)

lemma live_keys: "ts_thread s k \<noteq> None \<longleftrightarrow> k \<in> set (map fst (ts_threads s))"
  by (simp add: ts_thread_map_of map_of_eq_None_iff)

section \<open>Insertion keeps the order\<close>

lemma set_insert_at [simp]: "set (insert_at i x xs) = insert x (set xs)"
  by (metis (no_types, lifting) Un_insert_right append_take_drop_id insert_at_def list.set(2) set_append)

lemma length_insert_at [simp]: "length (insert_at i x xs) = Suc (length xs)"
  by (simp add: insert_at_def)

lemma insert_at_Suc [simp]: "insert_at (Suc i) x (y # ys) = y # insert_at i x ys"
  by (simp add: insert_at_def)

lemma sorted_insert_at:
  fixes k :: "'k::linorder"
  assumes "sorted_wrt (<) (map fst xs)" "k \<notin> fst ` set xs"
  shows "sorted_wrt (<) (map fst (insert_at (length (filter (\<lambda>(c, _). c < k) xs)) (k, v) xs))"
  using assms
proof (induction xs)
  case (Cons x xs)
  show ?case
  proof (cases "fst x < k")
    case True
    then show ?thesis using Cons by (auto simp: case_prod_beta)
  next
    case False
    with Cons.prems have lt: "k < fst x" by auto
    have none: "filter (\<lambda>a. fst a < k) xs = []"
      using Cons.prems(1) lt by (force simp: filter_empty_conv)
    show ?thesis using Cons.prems(1) lt none by (auto simp: insert_at_def case_prod_beta)
  qed
qed (simp add: insert_at_def)

lemma map_of_insert_at:
  "k \<notin> fst ` set xs \<Longrightarrow> map_of (insert_at i (k, v) xs) = (map_of xs)(k \<mapsto> v)"
proof -
  assume k: "k \<notin> fst ` set xs"
  have "map_of (take i xs @ (k, v) # drop i xs) j = ((map_of (take i xs @ drop i xs))(k \<mapsto> v)) j" for j
  proof (cases "j = k")
    case True
    have "map_of (take i xs) k = None"
      using k by (auto simp: map_of_eq_None_iff dest: in_set_takeD)
    then show ?thesis using True by (simp add: map_add_def)
  next
    case False
    then show ?thesis
      by (cases "map_of (take i xs) j") (simp_all add: map_add_def del: append_take_drop_id)
  qed
  then show ?thesis by (auto simp: insert_at_def simp del: map_of_append)
qed

lemma remove_at_map_of:
  assumes "distinct (map fst xs)" "i < length xs"
  shows "map_of (remove_at i xs) = (map_of xs)(fst (xs ! i) := None)"
proof -
  have xs: "xs = take i xs @ xs ! i # drop (Suc i) xs"
    using assms(2) by (rule id_take_nth_drop)
  obtain k v where kv: "xs ! i = (k, v)" by (cases "xs ! i")
  have d: "distinct (map fst (take i xs @ (k, v) # drop (Suc i) xs))"
    using assms(1) xs kv by metis
  have "map_of (take i xs @ drop (Suc i) xs) j = ((map_of (take i xs @ (k, v) # drop (Suc i) xs))(k := None)) j" for j
  proof (cases "j = k")
    case True
    then have "map_of (take i xs) j = None" "map_of (drop (Suc i) xs) j = None"
      using d by (simp_all add: map_of_eq_None_iff)
    then show ?thesis using True by (simp add: map_add_def)
  next
    case False
    then have "((map_of (drop (Suc i) xs))(k \<mapsto> v)) j = map_of (drop (Suc i) xs) j" by simp
    then show ?thesis using False by (simp add: map_add_def split: option.split)
  qed
  then show ?thesis using xs kv by (metis (no_types, lifting) ext fst_conv remove_at_def)
qed

lemma sorted_remove_at:
  assumes "sorted_wrt P (map f xs)"
  shows "sorted_wrt P (map f (remove_at i xs))"
proof -
  have "sorted_wrt P (map f (take i xs @ drop i xs))" using assms by simp
  moreover have "drop (Suc i) xs = tl (drop i xs)" by (simp add: drop_Suc tl_drop)
  ultimately show ?thesis
    by (cases "drop i xs") (auto simp: remove_at_def sorted_wrt_append simp del: append_take_drop_id)
qed

section \<open>The invariant\<close>

text \<open>
  Each runnable thread stands exactly once in the queue of its effective class, and nothing else is queued.
\<close>

fun runs_in :: "scheduling_class \<Rightarrow> thread option \<Rightarrow> bool" where
  "runs_in c None \<longleftrightarrow> False"
| "runs_in c (Some th) \<longleftrightarrow> th_state th = Runnable \<and> th_effective_class th = c"

definition queues_ok :: "'k::linorder thread_scheduler \<Rightarrow> bool" where
  "queues_ok s \<longleftrightarrow> (\<forall>c k. count_list (ts_queues s c) k = of_bool (runs_in c (ts_thread s k)))"

definition thread_ok :: "scheduler_config \<Rightarrow> thread \<Rightarrow> bool" where
  "thread_ok cfg th \<longleftrightarrow>
     th_budget_remaining_ns th \<le> cp_budget_ns (sc_classes cfg (th_effective_class th)) \<and>
     (th_state th = Runnable \<or> th_state th = Running \<longrightarrow> 0 < th_budget_remaining_ns th) \<and>
     (th_state th = Runnable \<longrightarrow> th_runnable_since_ns th \<noteq> None) \<and>
     (th_state th = Throttled \<longleftrightarrow> th_throttled_since_ns th \<noteq> None)"

definition threads_ok :: "'k::linorder thread_scheduler \<Rightarrow> bool" where
  "threads_ok s \<longleftrightarrow> (\<forall>k th. ts_thread s k = Some th \<longrightarrow> thread_ok (ts_config s) th)"

text \<open>Outside \<open>D\<close>, the effective class is the base class raised by the donations to the thread.\<close>

definition classes_ok :: "'k set \<Rightarrow> 'k::linorder thread_scheduler \<Rightarrow> bool" where
  "classes_ok D s \<longleftrightarrow> (\<forall>k th. ts_thread s k = Some th \<longrightarrow> k \<notin> D \<longrightarrow>
     th_effective_class th = effective_class_for s k (th_base_class th))"

definition donation_ok :: "'k::linorder thread_scheduler \<Rightarrow> 'k donation_chain \<Rightarrow> bool" where
  "donation_ok s d \<longleftrightarrow>
     dc_recipients d \<noteq> [] \<and> length (dc_recipients d) \<le> sc_max_donation_depth (ts_config s) \<and>
     distinct (dc_root d # dc_recipients d) \<and>
     (\<forall>k \<in> set (dc_root d # dc_recipients d). ts_thread s k \<noteq> None) \<and>
     dc_token d < ts_next_donation_token s"

definition donations_ok :: "'k::linorder thread_scheduler \<Rightarrow> bool" where
  "donations_ok s \<longleftrightarrow>
     (\<forall>d \<in> set (ts_donations s). donation_ok s d) \<and> distinct (map dc_token (ts_donations s)) \<and>
     distinct (map dc_root (ts_donations s)) \<and> length (ts_donations s) \<le> ts_capacity s"

definition table_ok :: "'k::linorder thread_scheduler \<Rightarrow> bool" where
  "table_ok s \<longleftrightarrow>
     config_validate (ts_config s) = Inr () \<and> sorted_wrt (<) (map fst (ts_threads s)) \<and>
     length (ts_threads s) \<le> ts_capacity s"

definition sched_inv :: "'k set \<Rightarrow> 'k::linorder thread_scheduler \<Rightarrow> bool" where
  "sched_inv D s \<longleftrightarrow> table_ok s \<and> queues_ok s \<and> threads_ok s \<and> classes_ok D s \<and> donations_ok s"

lemma policy_valid:
  assumes "table_ok s"
  shows "policy_is_valid (policy s c)" "policy_is_valid (sc_classes (ts_config s) c)"
  using assms
  by (cases c; auto simp: table_ok_def config_validate_def ALL_CLASSES_def policy_def split: if_splits)+

lemma budget_positive:
  assumes "table_ok s"
  shows "0 < cp_budget_ns (policy s c)" "0 < cp_period_ns (policy s c)" "0 < cp_quantum_ns (policy s c)"
  using policy_valid(1) [OF assms, of c] by (auto simp: policy_is_valid_def)

lemma policy_frame [sched_simps]: "ts_config s = ts_config t \<Longrightarrow> policy s = policy t"
  by (rule ext) (simp add: policy_def)

lemma effective_class_for_cong: "ts_donations s = ts_donations t \<Longrightarrow> effective_class_for s = effective_class_for t"
  by (intro ext) (simp add: effective_class_for_def)

section \<open>Effective classes are the strongest donated class\<close>

lemma higher_min: "higher a b = min a b"
  by (cases a; cases b) (simp_all add: higher_def min_def less_eq_scheduling_class_def)

lemma foldl_higher: "foldl (\<lambda>c d. higher c (f d)) b ds = fold min (map f ds) b"
  by (induction ds arbitrary: b) (simp_all add: higher_min min.commute)

lemma fold_min_insert: "fold min (xs :: 'a::linorder list) b = Min (insert b (set xs))"
  by (metis Min.set_eq_fold list.set(2))

lemma effective_class_Min:
  "effective_class_for s k b = Min (insert b (dc_class ` {d \<in> set (ts_donations s). k \<in> set (dc_recipients d)}))"
  by (simp add: effective_class_for_def foldl_higher fold_min_insert)

section \<open>Queues under updates\<close>

lemma count_list_filter: "count_list (filter P xs) k = (if P k then count_list xs k else 0)"
  by (induction xs) auto

lemma count_list_remove_at:
  assumes "i < length xs"
  shows "count_list (take i xs @ drop (Suc i) xs) k = count_list xs k - of_bool (xs ! i = k)"
proof -
  have "count_list xs k = count_list (take i xs @ xs ! i # drop (Suc i) xs) k"
    using id_take_nth_drop [OF assms] by simp
  then show ?thesis by (simp del: append_take_drop_id)
qed

lemma queues_okD: "queues_ok s \<Longrightarrow> k \<in> set (ts_queues s c) \<longleftrightarrow> runs_in c (ts_thread s k)"
  unfolding queues_ok_def by (metis count_list_0_iff of_bool_eq_0_iff)

lemma queues_ok_distinct:
  assumes "queues_ok s"
  shows "distinct (ts_queues s c)"
proof -
  have "count_list (ts_queues s c) k \<le> 1" for k using assms by (simp add: queues_ok_def)
  moreover have "(\<And>k. count_list xs k \<le> 1) \<Longrightarrow> distinct xs" for xs :: "'b list"
  proof (induction xs)
    case (Cons x xs)
    have "count_list xs x = 0" using Cons.prems [of x] by simp
    moreover have "count_list xs k \<le> 1" for k
      using Cons.prems [of k] by (simp split: if_splits)
    ultimately show ?case using Cons.IH by (simp add: count_list_0_iff)
  qed simp
  ultimately show ?thesis by blast
qed

section \<open>One thread changes\<close>

text \<open>\<open>t\<close> differs from \<open>s\<close> in the thread \<open>k\<close>, now \<open>th\<close>, and in the places of \<open>k\<close> in the queues.\<close>

definition thread_changed :: "'k::linorder \<Rightarrow> thread \<Rightarrow> 'k thread_scheduler \<Rightarrow> 'k thread_scheduler \<Rightarrow> bool" where
  "thread_changed k th s t \<longleftrightarrow>
     ts_config t = ts_config s \<and> ts_capacity t = ts_capacity s \<and> ts_donations t = ts_donations s \<and>
     ts_next_donation_token t = ts_next_donation_token s \<and> map fst (ts_threads t) = map fst (ts_threads s) \<and>
     ts_thread t = (ts_thread s)(k \<mapsto> th) \<and> ts_thread s k \<noteq> None \<and>
     (\<forall>c j. j \<noteq> k \<longrightarrow> count_list (ts_queues t c) j = count_list (ts_queues s c) j)"

lemma sched_inv_changed:
  assumes inv: "sched_inv D s" and ch: "thread_changed k th s t"
    and th: "thread_ok (ts_config s) th"
    and eff: "k \<in> D' \<or> th_effective_class th = effective_class_for s k (th_base_class th)"
    and D: "D - {k} \<subseteq> D'"
    and q: "\<And>c. count_list (ts_queues t c) k = of_bool (runs_in c (Some th))"
  shows "sched_inv D' t"
proof -
  have view: "ts_thread t = (ts_thread s)(k \<mapsto> th)" and live: "ts_thread s k \<noteq> None"
    and frame: "ts_config t = ts_config s" "ts_capacity t = ts_capacity s" "ts_donations t = ts_donations s"
      "ts_next_donation_token t = ts_next_donation_token s" "map fst (ts_threads t) = map fst (ts_threads s)"
    using ch by (auto simp: thread_changed_def)
  have "length (ts_threads t) = length (ts_threads s)" by (rule length_threads_keys) (rule frame)
  then have "table_ok t" using inv frame by (simp add: sched_inv_def table_ok_def)
  moreover have "threads_ok t" using inv th view frame by (auto simp: sched_inv_def threads_ok_def)
  moreover have "classes_ok D' t"
    using inv eff D view effective_class_for_cong [OF frame(3)] by (auto simp: sched_inv_def classes_ok_def)
  moreover have "donation_ok t d" if "donation_ok s d" for d
    using that frame view live by (auto simp: donation_ok_def)
  then have "donations_ok t" using inv frame by (simp add: sched_inv_def donations_ok_def)
  moreover have "queues_ok t"
    using inv q ch view by (auto simp: sched_inv_def queues_ok_def thread_changed_def)
  ultimately show ?thesis by (simp add: sched_inv_def)
qed

lemma thread_changed_mut: "ts_thread s k = Some th \<Longrightarrow> thread_changed k (f th) s (thread_mut k f s)"
  by (simp add: thread_changed_def)

lemma thread_changed_queue:
  assumes "thread_changed k th s t" "\<And>j. j \<noteq> k \<Longrightarrow> count_list q j = count_list (ts_queues t c) j"
  shows "thread_changed k th s (set_queue c q t)"
  using assms by (simp add: thread_changed_def)

lemma thread_changed_push:
  assumes "thread_changed k th s t"
  shows "thread_changed k th s (push_back c k t)" "thread_changed k th s (push_front c k t)"
    "thread_changed k th s (remove_from_queue c k t)"
  using assms by (auto simp: queue_op_defs count_list_filter intro!: thread_changed_queue)

lemma thread_changed_all_queues:
  "thread_changed k th s t \<Longrightarrow> thread_changed k th s (remove_from_all_queues k t)"
  by (simp add: thread_changed_def count_list_filter)

lemma thread_changed_trans:
  assumes "thread_changed k th s t" "thread_changed k th' t u"
  shows "thread_changed k th' s u"
  using assms by (auto simp: thread_changed_def)

section \<open>Maintenance\<close>

lemma replenish_simps [simp]:
  "th_effective_class (replenish p e now th) = e" "th_base_class (replenish p e now th) = th_base_class th"
  "th_authority (replenish p e now th) = th_authority th" "th_deadline_ns (replenish p e now th) = th_deadline_ns th"
  by (simp_all add: replenish_def Let_def split: option.split)

lemma replenish_state:
  "th_state (replenish p e now th) =
     (if th_state th = Throttled \<and> saturating_add (th_period_started_ns th) (cp_period_ns p) \<le> now then Runnable
      else th_state th)"
  by (simp add: replenish_def Let_def split: option.split)

lemma replenish_ok:
  assumes "thread_ok cfg th" "policy_is_valid (sc_classes cfg e)"
  shows "thread_ok cfg (replenish (sc_classes cfg e) e now th)"
  using assms
  by (auto simp: thread_ok_def replenish_def policy_is_valid_def Let_def split: option.splits)

lemma maintain_thread_changed:
  assumes "ts_thread s k = Some th" "e = effective_class_for s k (th_base_class th)"
  shows "thread_changed k (replenish (policy s e) e now th) s (snd (maintain_thread k now s))"
  using assms thread_changed_mut [OF assms(1), of "\<lambda>_. replenish (policy s e) e now th"]
  by (auto simp: maintain_thread_def Let_def intro!: thread_changed_push)

lemma maintain_thread_view:
  assumes "ts_thread s k = Some th" "e = effective_class_for s k (th_base_class th)"
  shows "ts_thread (snd (maintain_thread k now s)) = (ts_thread s)(k \<mapsto> replenish (policy s e) e now th)"
  using maintain_thread_changed [OF assms] by (simp add: thread_changed_def)

lemma maintain_thread_Inr: "ts_thread s k = Some th \<Longrightarrow> fst (maintain_thread k now s) = Inr ()"
  by (simp add: maintain_thread_def Let_def)

lemma maintain_thread_unknown: "ts_thread s k = None \<Longrightarrow> maintain_thread k now s = (Inl UnknownKey, s)"
  by (simp add: maintain_thread_def)

lemma maintain_thread_queues:
  assumes "queues_ok s" "ts_thread s k = Some th" "e = effective_class_for s k (th_base_class th)"
  shows "count_list (ts_queues (snd (maintain_thread k now s)) c) k = of_bool (runs_in c (Some (replenish (policy s e) e now th)))"
proof -
  have "count_list (ts_queues s c) k = of_bool (runs_in c (Some th))" for c
    using assms by (simp add: queues_ok_def)
  then show ?thesis using assms(2,3)
    by (auto simp: maintain_thread_def Let_def queue_op_defs count_list_filter replenish_state)
qed

lemma classes_ok_dead: "classes_ok D s \<Longrightarrow> ts_thread s k = None \<Longrightarrow> classes_ok (D - {k}) s"
  by (auto simp: classes_ok_def)

lemma maintain_thread_inv:
  assumes "sched_inv D s"
  shows "sched_inv (D - {k}) (snd (maintain_thread k now s))"
proof (cases "ts_thread s k")
  case None
  then show ?thesis using assms by (simp add: sched_inv_def maintain_thread_unknown classes_ok_dead)
next
  case (Some th)
  let ?e = "effective_class_for s k (th_base_class th)"
  have ok: "thread_ok (ts_config s) (replenish (policy s ?e) ?e now th)"
    using assms Some policy_valid(2) [of s]
    by (auto simp: sched_inv_def threads_ok_def policy_def intro!: replenish_ok)
  show ?thesis
  proof (rule sched_inv_changed [OF assms maintain_thread_changed [OF Some refl] ok])
    show "count_list (ts_queues (snd (maintain_thread k now s)) c) k =
      of_bool (runs_in c (Some (replenish (policy s ?e) ?e now th)))" for c
      using assms Some by (intro maintain_thread_queues) (simp_all add: sched_inv_def)
  qed simp_all
qed

lemma maintain_thread_keys [simp]: "map fst (ts_threads (snd (maintain_thread k now s))) = map fst (ts_threads s)"
  by (auto simp: maintain_thread_def Let_def queue_op_defs split: option.split)

lemma maintain_all_keys [simp]: "map fst (ts_threads (maintain_all js now s)) = map fst (ts_threads s)"
  by (induction js now s rule: maintain_all.induct) simp_all

lemma maintain_all_frame [simp]:
  "ts_config (maintain_all js now s) = ts_config s" "ts_capacity (maintain_all js now s) = ts_capacity s"
  "ts_donations (maintain_all js now s) = ts_donations s"
  "ts_next_donation_token (maintain_all js now s) = ts_next_donation_token s"
  by (induction js now s rule: maintain_all.induct) simp_all

lemma maintain_all_inv:
  assumes "sched_inv D s" "\<forall>j \<in> set js. j < length (ts_threads s)"
  shows "sched_inv (D - (\<lambda>j. fst (ts_threads s ! j)) ` set js) (maintain_all js now s)"
  using assms
proof (induction js now s arbitrary: D rule: maintain_all.induct)
  case (2 j js now s)
  let ?k = "fst (ts_threads s ! j)"
  let ?t = "snd (maintain_thread ?k now s)"
  have len: "length (ts_threads ?t) = length (ts_threads s)" by (rule length_threads_keys) simp
  have same: "fst (ts_threads ?t ! i) = fst (ts_threads s ! i)" if "i < length (ts_threads s)" for i
    using that len by (metis maintain_thread_keys nth_map)
  have "sched_inv (D - {?k} - (\<lambda>i. fst (ts_threads ?t ! i)) ` set js) (maintain_all js now ?t)"
    using 2 len by (intro "2.IH") (simp_all add: maintain_thread_inv)
  moreover have "(\<lambda>i. fst (ts_threads ?t ! i)) ` set js = (\<lambda>i. fst (ts_threads s ! i)) ` set js"
    using 2 same by (intro image_cong) simp_all
  ultimately show ?case by (simp add: Diff_insert2 [symmetric] insert_Diff_if)
qed simp

lemma donations_ok_filter: "donations_ok s \<Longrightarrow> donations_ok (s\<lparr>ts_donations := filter P (ts_donations s)\<rparr>)"
  by (auto simp: donations_ok_def donation_ok_def distinct_map_filter intro: le_trans [OF length_filter_le])

lemma sched_inv_donations:
  assumes "sched_inv D s" "donations_ok (s\<lparr>ts_donations := ds\<rparr>)"
  shows "sched_inv UNIV (s\<lparr>ts_donations := ds\<rparr>)"
  using assms by (simp add: sched_inv_def table_ok_def queues_ok_def threads_ok_def classes_ok_def)

lemma maintain_inv:
  assumes "sched_inv D s"
  shows "sched_inv {} (maintain now s)"
proof -
  define s1 where "s1 = s\<lparr>ts_donations := filter (\<lambda>d. dc_expires_at_ns d > now) (ts_donations s)\<rparr>"
  have "sched_inv UNIV s1"
    unfolding s1_def using assms by (intro sched_inv_donations donations_ok_filter) (auto simp: sched_inv_def)
  then have inv: "sched_inv (UNIV - (\<lambda>j. fst (ts_threads s1 ! j)) ` set [0..<length (ts_threads s1)]) (maintain now s)"
    unfolding maintain_def Let_def s1_def [symmetric] by (intro maintain_all_inv) simp_all
  moreover have "k \<in> (\<lambda>j. fst (ts_threads s1 ! j)) ` set [0..<length (ts_threads s1)]" if "ts_thread (maintain now s) k \<noteq> None" for k
  proof -
    have "map fst (ts_threads (maintain now s)) = map fst (ts_threads s1)"
      by (simp add: maintain_def Let_def s1_def)
    then have "k \<in> set (map fst (ts_threads s1))" using that unfolding live_keys by metis
    then show ?thesis by (force simp: in_set_conv_nth image_iff)
  qed
  ultimately show ?thesis unfolding sched_inv_def classes_ok_def by blast
qed

section \<open>Changing a class\<close>

definition capped :: "scheduler_config \<Rightarrow> thread \<Rightarrow> thread" where
  "capped cfg th = th\<lparr>th_budget_remaining_ns := min (th_budget_remaining_ns th) (cp_budget_ns (sc_classes cfg (th_effective_class th)))\<rparr>"

lemma reclass_changed:
  assumes "ts_thread s k = Some th"
  shows "thread_changed k (capped (ts_config s) (g th)) s
    (cap_budget_for_class k (move_queue_if_needed k c c' st (thread_mut k g s)))"
proof -
  let ?t = "move_queue_if_needed k c c' st (thread_mut k g s)"
  have ch: "thread_changed k (g th) s ?t"
    unfolding move_queue_if_needed_def using thread_changed_mut [OF assms, of g] by (simp add: thread_changed_push)
  then have live: "ts_thread ?t k = Some (g th)" and cfg: "ts_config ?t = ts_config s"
    by (simp_all add: thread_changed_def)
  have "thread_changed k (capped (ts_config s) (g th)) ?t (cap_budget_for_class k ?t)"
    using thread_changed_mut [OF live] by (simp add: cap_budget_for_class_def capped_def policy_def cfg)
  with ch show ?thesis by (rule thread_changed_trans)
qed

lemma reclass_inv:
  assumes inv: "sched_inv D s" and th: "ts_thread s k = Some th"
    and g: "th_state (g th) = th_state th" "th_budget_remaining_ns (g th) = th_budget_remaining_ns th"
      "th_runnable_since_ns (g th) = th_runnable_since_ns th" "th_throttled_since_ns (g th) = th_throttled_since_ns th"
    and eff: "th_effective_class (g th) = effective_class_for s k (th_base_class (g th))"
  shows "sched_inv (D - {k}) (cap_budget_for_class k
    (move_queue_if_needed k (th_effective_class th) (th_effective_class (g th)) (th_state th) (thread_mut k g s)))"
proof (rule sched_inv_changed [OF inv reclass_changed [of s k th g], OF th])
  have "thread_ok (ts_config s) th" "table_ok s" using inv th by (auto simp: sched_inv_def threads_ok_def)
  then show "thread_ok (ts_config s) (capped (ts_config s) (g th))"
    using policy_valid(2) [of s "th_effective_class (g th)"] g
    by (auto simp: thread_ok_def capped_def policy_is_valid_def)
  have "count_list (ts_queues s c) k = of_bool (runs_in c (Some th))" for c
    using inv th by (simp add: sched_inv_def queues_ok_def)
  then show "count_list (ts_queues (cap_budget_for_class k (move_queue_if_needed k (th_effective_class th)
      (th_effective_class (g th)) (th_state th) (thread_mut k g s))) c) k
    = of_bool (runs_in c (Some (capped (ts_config s) (g th))))" for c
    using g by (auto simp: cap_budget_for_class_def move_queue_if_needed_def queue_op_defs count_list_filter capped_def)
qed (use eff in \<open>simp_all add: capped_def\<close>)

lemma recompute_inv:
  assumes "sched_inv D s"
  shows "sched_inv (D - {k}) (recompute_effective_class k now s)"
proof (cases "ts_thread s k")
  case None
  then show ?thesis using assms by (simp add: sched_inv_def recompute_effective_class_def classes_ok_dead)
next
  case (Some th)
  have "sched_inv (D - {k}) (cap_budget_for_class k (move_queue_if_needed k (th_effective_class th)
      (effective_class_for s k (th_base_class th)) (th_state th)
      (thread_mut k (\<lambda>t. t\<lparr>th_effective_class := effective_class_for s k (th_base_class th)\<rparr>) s)))"
    using reclass_inv [OF assms Some, of "\<lambda>t. t\<lparr>th_effective_class := effective_class_for s k (th_base_class th)\<rparr>"] by simp
  from maintain_thread_inv [OF this, of k now] show ?thesis
    using Some by (simp add: recompute_effective_class_def Let_def)
qed

lemma recompute_all_inv: "sched_inv D s \<Longrightarrow> sched_inv (D - set ks) (recompute_all ks now s)"
proof (induction ks arbitrary: D s)
  case (Cons k ks)
  have "sched_inv (D - {k} - set ks) (recompute_all ks now (recompute_effective_class k now s))"
    by (rule Cons.IH) (rule recompute_inv [OF Cons.prems])
  then show ?case unfolding list.set recompute_all.simps Diff_insert2 [of D k "set ks"] .
qed simp

section \<open>Donation keeps the invariant\<close>

lemma effective_class_for_frame:
  assumes "\<And>d. k \<in> set (dc_recipients d) \<Longrightarrow> d \<in> set (ts_donations s) \<longleftrightarrow> d \<in> set (ts_donations t)"
  shows "effective_class_for s k b = effective_class_for t k b"
  unfolding effective_class_Min using assms by (metis (mono_tags, lifting) Collect_cong)

lemma sched_inv_donations_frame:
  assumes inv: "sched_inv {} s" and don: "donations_ok (s\<lparr>ts_donations := ds, ts_next_donation_token := n\<rparr>)"
    and same: "\<And>k d. k \<notin> D \<Longrightarrow> k \<in> set (dc_recipients d) \<Longrightarrow> d \<in> set (ts_donations s) \<longleftrightarrow> d \<in> set ds"
  shows "sched_inv D (s\<lparr>ts_donations := ds, ts_next_donation_token := n\<rparr>)"
proof -
  let ?t = "s\<lparr>ts_donations := ds, ts_next_donation_token := n\<rparr>"
  have view: "ts_thread ?t = ts_thread s" by (rule ts_thread_cong) simp
  have "effective_class_for ?t k b = effective_class_for s k b" if "k \<notin> D" for k b
    by (rule effective_class_for_frame) (simp add: same [OF that])
  then have "classes_ok D ?t" using inv view by (simp add: sched_inv_def classes_ok_def)
  then show ?thesis using inv don view by (simp add: sched_inv_def table_ok_def queues_ok_def threads_ok_def)
qed

lemma check_chain_Inr:
  "check_chain s donor seen chain = Inr () \<Longrightarrow>
   donor \<notin> set chain \<and> distinct chain \<and> set chain \<inter> set seen = {} \<and> (\<forall>k \<in> set chain. ts_thread s k \<noteq> None)"
  by (induction s donor seen chain rule: check_chain.induct) (auto split: if_splits)

lemma donate_chain_Inr:
  assumes "donate_chain donor chain expires now s = (Inr token, t)"
  obtains th where "chain \<noteq> []" "length chain \<le> sc_max_donation_depth (ts_config s)" "now < expires"
    "expires - now \<le> sc_max_donation_ns (ts_config s)" "donor \<notin> dc_root ` set (ts_donations s)"
    "length (ts_donations s) \<noteq> ts_capacity s" "ts_thread s donor = Some th"
    "donor \<notin> set chain" "distinct chain" "\<forall>k \<in> set chain. ts_thread s k \<noteq> None"
    "token = ts_next_donation_token s"
    "t = recompute_all chain now (s\<lparr>ts_donations := ts_donations s @
       [\<lparr>dc_token = token, dc_root = donor, dc_class = th_effective_class th, dc_expires_at_ns = expires, dc_recipients = chain\<rparr>],
       ts_next_donation_token := Suc token\<rparr>)"
proof -
  have "\<exists>th. ts_thread s donor = Some th \<and> check_chain s donor [] chain = Inr ()"
    using assms by (auto simp: donate_chain_def split: if_splits option.splits sum.splits)
  then obtain th where "ts_thread s donor = Some th" "check_chain s donor [] chain = Inr ()" by blast
  with check_chain_Inr [OF this(2)] show ?thesis
    using assms that
    by (auto simp: donate_chain_def Let_def list_ex_iff checked_add_def not_less image_iff
        split: if_splits option.splits)
qed

lemma donate_chain_Inl: "donate_chain donor chain expires now s = (Inl e, t) \<Longrightarrow> t = s"
  by (auto simp: donate_chain_def Let_def split: if_splits option.splits sum.splits)

lemma donate_chain_inv:
  assumes "sched_inv {} s"
  shows "sched_inv {} (snd (donate_chain donor chain expires now s))"
proof (cases "donate_chain donor chain expires now s")
  case (Pair r t)
  show ?thesis
  proof (cases r)
    case (Inl e)
    then show ?thesis using donate_chain_Inl Pair assms by fastforce
  next
    case (Inr token)
    from Pair [unfolded Inr] show ?thesis
    proof (rule donate_chain_Inr)
      fix th :: thread
      let ?d = "\<lparr>dc_token = token, dc_root = donor, dc_class = th_effective_class th, dc_expires_at_ns = expires, dc_recipients = chain\<rparr>"
      let ?s = "s\<lparr>ts_donations := ts_donations s @ [?d], ts_next_donation_token := Suc token\<rparr>"
      assume h: "chain \<noteq> []" "length chain \<le> sc_max_donation_depth (ts_config s)" "donor \<notin> dc_root ` set (ts_donations s)"
        "length (ts_donations s) \<noteq> ts_capacity s" "ts_thread s donor = Some th" "donor \<notin> set chain" "distinct chain"
        "\<forall>k \<in> set chain. ts_thread s k \<noteq> None" "token = ts_next_donation_token s" "t = recompute_all chain now ?s"
      have old: "\<forall>d \<in> set (ts_donations s). donation_ok s d" "distinct (map dc_token (ts_donations s))"
        "distinct (map dc_root (ts_donations s))" "length (ts_donations s) \<le> ts_capacity s"
        using assms by (simp_all add: sched_inv_def donations_ok_def)
      have view: "ts_thread ?s = ts_thread s" by (rule ts_thread_cong) simp
      have "donation_ok ?s d" if "donation_ok s d" for d
        using that h(9) view by (auto simp: donation_ok_def)
      moreover have "donation_ok ?s ?d" using h view by (simp add: donation_ok_def)
      moreover have "token \<notin> dc_token ` set (ts_donations s)" using old(1) h(9) by (auto simp: donation_ok_def)
      ultimately have "donations_ok ?s" using old h(3,4) by (auto simp: donations_ok_def)
      then have "sched_inv (set chain) ?s"
        by (intro sched_inv_donations_frame [OF assms]) auto
      then have "sched_inv (set chain - set chain) t" unfolding h(10) by (rule recompute_all_inv)
      then show ?thesis using Pair by simp
    qed
  qed
qed

lemma swap_remove_set:
  assumes "i < length xs"
  shows "x \<in> set xs \<longleftrightarrow> x = xs ! i \<or> x \<in> set (swap_remove i xs)"
  using mset_swap_remove [OF assms] by (metis insert_iff set_mset_add_mset_insert set_mset_mset)

lemma swap_remove_distinct_map:
  assumes "i < length xs" "distinct (map f xs)"
  shows "distinct (map f (swap_remove i xs))"
proof -
  have "mset (map f (xs ! i # swap_remove i xs)) = mset (map f xs)"
    using mset_swap_remove [OF assms(1)] by (metis mset.simps(2) mset_map)
  then have "distinct (map f (xs ! i # swap_remove i xs))"
    using assms(2) by (metis mset_eq_imp_distinct_iff)
  then show ?thesis by simp
qed

lemma donations_ok_swap_remove:
  assumes "donations_ok s" "i < length (ts_donations s)"
  shows "donations_ok (s\<lparr>ts_donations := swap_remove i (ts_donations s)\<rparr>)"
  using assms swap_remove_distinct_map [OF assms(2), of dc_token] swap_remove_distinct_map [OF assms(2), of dc_root]
    swap_remove_set [OF assms(2)]
  by (auto simp: donations_ok_def donation_ok_def)

lemma cancel_donation_inv:
  assumes "sched_inv {} s"
  shows "sched_inv {} (snd (cancel_donation token now s))"
proof (cases "position (\<lambda>d. dc_token d = token) (ts_donations s)")
  case (Some i)
  let ?d = "ts_donations s ! i"
  let ?s = "s\<lparr>ts_donations := swap_remove i (ts_donations s)\<rparr>"
  have i: "i < length (ts_donations s)" using position_SomeD [OF Some] by simp
  have "donations_ok ?s" using assms i by (intro donations_ok_swap_remove) (simp_all add: sched_inv_def)
  then have "sched_inv (set (dc_recipients ?d)) ?s"
    using sched_inv_donations_frame [OF assms, where ds = "swap_remove i (ts_donations s)" and n = "ts_next_donation_token s"]
      swap_remove_set [OF i] by auto
  from recompute_all_inv [OF this, of "dc_recipients ?d" now] show ?thesis
    using Some by (simp add: cancel_donation_def)
qed (use assms in \<open>simp add: cancel_donation_def\<close>)

lemma cancel_donation_subset: "set (ts_donations (snd (cancel_donation token now s))) \<subseteq> set (ts_donations s)"
proof (cases "position (\<lambda>d. dc_token d = token) (ts_donations s)")
  case (Some i)
  with position_SomeD [OF Some] show ?thesis by (auto simp: cancel_donation_def swap_remove_set [of i])
qed (simp add: cancel_donation_def)

lemma recompute_keys [simp]: "map fst (ts_threads (recompute_effective_class k now s)) = map fst (ts_threads s)"
  by (auto simp: recompute_effective_class_def Let_def cap_budget_for_class_def move_queue_if_needed_def queue_op_defs
      split: option.split)

lemma recompute_all_keys [simp]: "map fst (ts_threads (recompute_all ks now s)) = map fst (ts_threads s)"
  by (induction ks arbitrary: s) simp_all

lemma cancel_donation_frame [simp]:
  "map fst (ts_threads (snd (cancel_donation token now s))) = map fst (ts_threads s)"
  "ts_config (snd (cancel_donation token now s)) = ts_config s"
  "ts_capacity (snd (cancel_donation token now s)) = ts_capacity s"
  by (simp_all add: cancel_donation_def split: option.split)

lemma cancel_touching_inv:
  "sched_inv {} s \<Longrightarrow> sched_inv {} (snd (cancel_touching_loop key now n s))"
proof (induction key now n s rule: cancel_touching_loop.induct)
  case (1 key now n s)
  then show ?case
    by (subst cancel_touching_loop.simps) (auto simp: Let_def cancel_donation_inv split: option.split)
qed

lemma cancel_touching_frame:
  "map fst (ts_threads (snd (cancel_touching_loop key now n s))) = map fst (ts_threads s) \<and>
   ts_config (snd (cancel_touching_loop key now n s)) = ts_config s \<and>
   ts_capacity (snd (cancel_touching_loop key now n s)) = ts_capacity s \<and>
   (\<forall>d \<in> set (ts_donations (snd (cancel_touching_loop key now n s))). \<not> touches key d \<and> d \<in> set (ts_donations s))"
proof (induction key now n s rule: cancel_touching_loop.induct)
  case (1 key now n s)
  show ?case
  proof (cases "find (touches key) (ts_donations s)")
    case None
    then have "cancel_touching_loop key now n s = (n, s)" by (subst cancel_touching_loop.simps) simp
    with None show ?thesis by (simp add: find_None_iff)
  next
    case (Some d)
    have step: "cancel_touching_loop key now n s = cancel_touching_loop key now
        (saturating_add n (if fst (cancel_donation (dc_token d) now s) then 1 else 0)) (snd (cancel_donation (dc_token d) now s))"
      using Some by (subst cancel_touching_loop.simps) (simp add: Let_def)
    show ?thesis
      using "1.IH" [OF Some refl] cancel_donation_subset [of "dc_token d" now s]
      unfolding step cancel_donation_frame by blast
  qed
qed

lemma thread_index_keys:
  assumes "map fst (ts_threads s) = map fst (ts_threads t)"
  shows "thread_index k s = thread_index k t"
proof -
  have p: "position (\<lambda>(c, _). c = k) xs = position (\<lambda>c. c = k) (map fst xs)" for xs :: "('a \<times> thread) list"
    by (induction xs) auto
  have f: "length (filter (\<lambda>(c, _). c < k) xs) = length (filter (\<lambda>c. c < k) (map fst xs))" for xs :: "('a \<times> thread) list"
    by (induction xs) auto
  show ?thesis unfolding thread_index_def p f assms ..
qed

lemma remove_thread_inv:
  assumes "sched_inv {} s"
  shows "sched_inv {} (snd (remove_thread key now s))"
proof (cases "thread_index key s")
  case (Inr i)
  define s1 where "s1 = snd (cancel_donations_touching key now s)"
  define t where "t = snd (remove_thread key now s)"
  have t: "t = (remove_from_all_queues key s1)\<lparr>ts_threads := remove_at i (ts_threads s1)\<rparr>"
    using Inr by (simp add: t_def remove_thread_def Let_def s1_def)
  have inv: "sched_inv {} s1" using assms by (simp add: s1_def cancel_donations_touching_def cancel_touching_inv)
  have keys: "map fst (ts_threads s1) = map fst (ts_threads s)"
    and free: "\<forall>d \<in> set (ts_donations s1). \<not> touches key d"
    using cancel_touching_frame [of key now 0 s] by (simp_all add: s1_def cancel_donations_touching_def)
  have "thread_index key s1 = Inr i" using Inr thread_index_keys [OF keys] by simp
  note i = thread_index_SomeD [OF this]
  have sorted: "sorted_wrt (<) (map fst (ts_threads s1))" using inv by (simp add: sched_inv_def table_ok_def)
  then have "distinct (map fst (ts_threads s1))" by (simp add: strict_sorted_iff)
  from remove_at_map_of [OF this i(1)] have view: "ts_thread t = (ts_thread s1)(key := None)"
    by (rule_tac ext) (simp add: ts_thread_map_of t i(2))
  have "length (ts_threads t) \<le> length (ts_threads s1)" by (simp add: t remove_at_def)
  then have "table_ok t"
    using inv sorted_remove_at [OF sorted, of i] by (auto simp: sched_inv_def table_ok_def t)
  moreover have "queues_ok t"
    using inv unfolding queues_ok_def view by (auto simp: t sched_inv_def queues_ok_def count_list_filter)
  moreover have "threads_ok t" using inv unfolding threads_ok_def view by (auto simp: t sched_inv_def threads_ok_def)
  moreover have "classes_ok {} t"
    using inv effective_class_for_cong [of t s1] unfolding classes_ok_def view by (auto simp: t sched_inv_def classes_ok_def)
  moreover have "donation_ok t d" if "donation_ok s1 d" "\<not> touches key d" for d
    using that unfolding donation_ok_def view by (auto simp: t touches_def)
  then have "donations_ok t" using inv free by (auto simp: t sched_inv_def donations_ok_def)
  ultimately show ?thesis by (simp add: sched_inv_def t_def)
qed (use assms in \<open>simp add: remove_thread_def\<close>)

lemma add_thread_inv:
  assumes "sched_inv {} s"
  shows "sched_inv {} (snd (add_thread key c auth now s))"
proof (cases "(\<exists>i. thread_index key s = Inl i) \<and> length (ts_threads s) \<noteq> ts_capacity s \<and> allows auth c")
  case True
  then obtain i where i: "thread_index key s = Inl i" by blast
  define th where "th = \<lparr>th_base_class = c, th_effective_class = c, th_authority = auth,
    th_state = Runnable, th_budget_remaining_ns = cp_budget_ns (policy s c),
    th_period_started_ns = now, th_runnable_since_ns = Some now, th_pending_wake_ns = None,
    th_throttled_since_ns = None, th_deadline_ns = None, th_deadline_miss_recorded = False,
    th_metrics = thread_metrics_default\<rparr>"
  define t where "t = snd (add_thread key c auth now s)"
  have t: "t = push_back c key (s\<lparr>ts_threads := insert_at i (key, th) (ts_threads s)\<rparr>)"
    using True i by (simp add: t_def add_thread_def th_def)
  have dead: "ts_thread s key = None" using i by (rule thread_index_None)
  then have new: "key \<notin> fst ` set (ts_threads s)" by (simp add: ts_thread_map_of map_of_eq_None_iff)
  have view: "ts_thread t = (ts_thread s)(key \<mapsto> th)"
    by (rule ext) (simp add: t push_back_def ts_thread_map_of map_of_insert_at [OF new])
  have tab: "table_ok s" using assms by (simp add: sched_inv_def)
  have i': "i = length (filter (\<lambda>(c, _). c < key) (ts_threads s))"
    using i by (simp add: thread_index_def split: option.splits)
  have "table_ok t" using tab True sorted_insert_at [OF _ new, of th]
    by (auto simp: table_ok_def t push_back_def i')
  moreover have "queues_ok t"
    using assms dead unfolding queues_ok_def view by (auto simp: t push_back_def th_def sched_inv_def queues_ok_def)
  moreover have "threads_ok t"
    using assms True budget_positive(1) [OF tab, of c] unfolding threads_ok_def view
    by (auto simp: t push_back_def sched_inv_def threads_ok_def thread_ok_def th_def policy_def)
  moreover have don: "donations_ok s" using assms by (simp add: sched_inv_def)
  have "filter (\<lambda>d. key \<in> set (dc_recipients d)) (ts_donations s) = []"
    using don dead by (force simp: donations_ok_def donation_ok_def filter_empty_conv)
  then have "effective_class_for t key c = c" by (simp add: effective_class_for_def t push_back_def)
  then have "classes_ok {} t"
    using assms effective_class_for_cong [of t s] unfolding classes_ok_def view
    by (auto simp: t push_back_def sched_inv_def classes_ok_def th_def)
  moreover have "donation_ok t d" if "donation_ok s d" for d
    using that unfolding donation_ok_def view by (auto simp: t push_back_def)
  then have "donations_ok t" using don by (simp add: donations_ok_def t push_back_def)
  ultimately show ?thesis by (simp add: sched_inv_def t_def)
next
  case False
  then show ?thesis using assms by (auto simp: add_thread_def split: sum.splits)
qed

section \<open>Base classes and authorities\<close>

definition admission :: "'k::linorder thread_scheduler \<Rightarrow> 'k \<Rightarrow> (authority \<times> scheduling_class) option" where
  "admission s k = map_option (\<lambda>th. (th_authority th, th_base_class th)) (ts_thread s k)"

definition authority_ok :: "'k::linorder thread_scheduler \<Rightarrow> bool" where
  "authority_ok s \<longleftrightarrow> (\<forall>k a c. admission s k = Some (a, c) \<longrightarrow> allows a c)"

lemma authority_ok_cong: "admission s = admission t \<Longrightarrow> authority_ok s \<longleftrightarrow> authority_ok t"
  by (simp add: authority_ok_def)

lemma admission_changed:
  assumes "thread_changed k th s t" "ts_thread s k = Some th0"
    "th_authority th = th_authority th0" "th_base_class th = th_base_class th0"
  shows "admission t = admission s"
  using assms by (auto simp: thread_changed_def admission_def)

lemma admission_maintain_thread [simp]: "admission (snd (maintain_thread k now s)) = admission s"
proof (cases "ts_thread s k")
  case (Some th)
  then show ?thesis by (rule admission_changed [OF maintain_thread_changed [OF Some refl]]) simp_all
qed (simp add: maintain_thread_unknown)

lemma admission_recompute [simp]: "admission (recompute_effective_class k now s) = admission s"
proof (cases "ts_thread s k")
  case (Some th)
  let ?g = "\<lambda>t. t\<lparr>th_effective_class := effective_class_for s k (th_base_class th)\<rparr>"
  have "admission (recompute_effective_class k now s)
    = admission (cap_budget_for_class k (move_queue_if_needed k (th_effective_class th)
        (effective_class_for s k (th_base_class th)) (th_state th) (thread_mut k ?g s)))"
    using Some by (simp add: recompute_effective_class_def Let_def)
  also have "\<dots> = admission s"
    by (rule admission_changed [OF reclass_changed [OF Some] Some]) (simp_all add: capped_def)
  finally show ?thesis .
qed (simp add: recompute_effective_class_def)

lemma admission_recompute_all [simp]: "admission (recompute_all ks now s) = admission s"
  by (induction ks arbitrary: s) simp_all

lemma admission_frame [simp]:
  "admission (s\<lparr>ts_donations := ds\<rparr>) = admission s" "admission (set_queue c q s) = admission s"
  "admission (remove_from_all_queues k s) = admission s"
  "admission (s\<lparr>ts_donations := ds, ts_next_donation_token := n\<rparr>) = admission s"
  by (rule ext, simp add: admission_def ts_thread_cong [of "s\<lparr>ts_donations := ds, ts_next_donation_token := n\<rparr>" s])+

lemma admission_maintain_all [simp]: "admission (maintain_all js now s) = admission s"
  by (induction js now s rule: maintain_all.induct) simp_all

lemma admission_maintain [simp]: "admission (maintain now s) = admission s"
  by (simp add: maintain_def Let_def)

lemma admission_cancel_donation [simp]: "admission (snd (cancel_donation token now s)) = admission s"
  by (simp add: cancel_donation_def split: option.split)

lemma admission_cancel_touching [simp]: "admission (snd (cancel_touching_loop key now n s)) = admission s"
proof (induction key now n s rule: cancel_touching_loop.induct)
  case (1 key now n s)
  then show ?case by (subst cancel_touching_loop.simps) (auto simp: Let_def split: option.split)
qed

lemma admission_donate_chain [simp]: "admission (snd (donate_chain donor chain expires now s)) = admission s"
  by (auto simp: donate_chain_def Let_def split: option.split sum.split)

section \<open>Every operation keeps the invariant\<close>

abbreviation sched_ok :: "'k::linorder thread_scheduler \<Rightarrow> bool" where
  "sched_ok s \<equiv> sched_inv {} s \<and> authority_ok s"

lemma set_base_class_effect:
  assumes "sched_inv {} s"
  shows "sched_inv {} (snd (set_base_class key c now s))"
    and "admission (snd (set_base_class key c now s)) =
      (case admission s key of None \<Rightarrow> admission s
       | Some (a, _) \<Rightarrow> if allows a c then (admission s)(key \<mapsto> (a, c)) else admission s)"
proof -
  define s1 where "s1 = snd (maintain_thread key now s)"
  let ?r = "snd (set_base_class key c now s)"
  let ?g = "\<lambda>t. t\<lparr>th_base_class := c, th_effective_class := effective_class_for s1 key c\<rparr>"
  have inv: "sched_inv {} s1" using maintain_thread_inv [OF assms, of key now] by (simp add: s1_def)
  have adm: "admission s1 = admission s" by (simp add: s1_def)
  obtain r where m: "maintain_thread key now s = (r, s1)" by (metis s1_def prod.collapse)
  show "sched_inv {} ?r" and "admission ?r = (case admission s key of None \<Rightarrow> admission s
       | Some (a, _) \<Rightarrow> if allows a c then (admission s)(key \<mapsto> (a, c)) else admission s)"
  proof (atomize (full), cases "ts_thread s1 key")
    case None
    then have "?r = s1" by (cases r) (simp_all add: set_base_class_def m)
    then show "sched_inv {} ?r \<and> admission ?r = (case admission s key of None \<Rightarrow> admission s
       | Some (a, _) \<Rightarrow> if allows a c then (admission s)(key \<mapsto> (a, c)) else admission s)"
      using inv adm None by (metis (no_types, lifting) admission_def option.simps(4,8))
  next
    case (Some th)
    then have a: "admission s key = Some (th_authority th, th_base_class th)" by (simp add: adm [symmetric] admission_def)
    then have "ts_thread s key \<noteq> None" by (auto simp: admission_def)
    then have r: "r = Inr ()" using m maintain_thread_Inr [of s key _ now] by fastforce
    show "sched_inv {} ?r \<and> admission ?r = (case admission s key of None \<Rightarrow> admission s
       | Some (a, _) \<Rightarrow> if allows a c then (admission s)(key \<mapsto> (a, c)) else admission s)"
    proof (cases "allows (th_authority th) c")
      case True
      then have eq: "?r = cap_budget_for_class key (move_queue_if_needed key (th_effective_class th)
          (effective_class_for s1 key c) (th_state th) (thread_mut key ?g s1))"
        using Some by (simp add: set_base_class_def m r Let_def)
      have "ts_thread ?r = (ts_thread s1)(key \<mapsto> capped (ts_config s1) (?g th))"
        unfolding eq using reclass_changed [OF Some, of ?g] by (simp add: thread_changed_def)
      then have "admission ?r = (admission s1)(key \<mapsto> (th_authority th, c))"
        by (auto simp: admission_def capped_def)
      moreover have "sched_inv {} ?r" unfolding eq using reclass_inv [OF inv Some, of ?g] by simp
      ultimately show ?thesis using True a adm by simp
    next
      case False
      then have "?r = s1" using Some by (simp add: set_base_class_def m r)
      then show ?thesis using False inv a adm by simp
    qed
  qed
qed

lemma set_base_class_ok: "sched_ok s \<Longrightarrow> sched_ok (snd (set_base_class key c now s))"
  using set_base_class_effect [of s key c now] by (auto simp: authority_ok_def split: if_splits option.splits)

lemma sched_inv_mut:
  assumes inv: "sched_inv D s" and th: "ts_thread s k = Some th"
    and f: "th_state (f th) = th_state th" "th_budget_remaining_ns (f th) = th_budget_remaining_ns th"
      "th_runnable_since_ns (f th) = th_runnable_since_ns th" "th_throttled_since_ns (f th) = th_throttled_since_ns th"
      "th_base_class (f th) = th_base_class th" "th_effective_class (f th) = th_effective_class th"
  shows "sched_inv D (thread_mut k f s)"
proof (rule sched_inv_changed [OF inv thread_changed_mut [OF th]])
  show "thread_ok (ts_config s) (f th)" using inv th f by (auto simp: sched_inv_def threads_ok_def thread_ok_def)
  show "k \<in> D \<or> th_effective_class (f th) = effective_class_for s k (th_base_class (f th))"
    using inv th f by (auto simp: sched_inv_def classes_ok_def)
  show "count_list (ts_queues (thread_mut k f s) c) k = of_bool (runs_in c (Some (f th)))" for c
    using inv th f by (simp add: sched_inv_def queues_ok_def)
qed auto

lemma set_base_class_with_authority_ok:
  assumes "sched_ok s"
  shows "sched_ok (snd (set_base_class_with_authority key c auth now s))"
proof (cases "allows auth c \<and> ts_thread s key \<noteq> None")
  case True
  then obtain th where th: "ts_thread s key = Some th" by auto
  let ?s = "thread_mut key (\<lambda>t. t\<lparr>th_authority := auth\<rparr>) s"
  have "sched_inv {} ?s" using assms by (intro sched_inv_mut [OF _ th]) simp_all
  note eff = set_base_class_effect [OF this, of key c now]
  have "admission ?s = (admission s)(key \<mapsto> (auth, th_base_class th))" using th by (auto simp: admission_def)
  then have "admission (snd (set_base_class key c now ?s)) = (admission s)(key \<mapsto> (auth, c))"
    using eff(2) True by simp
  then have "authority_ok (snd (set_base_class key c now ?s))"
    using assms True by (auto simp: authority_ok_def)
  then show ?thesis using eff(1) True th by (simp add: set_base_class_with_authority_def)
next
  case False
  then show ?thesis using assms by (auto simp: set_base_class_with_authority_def)
qed

lemma admission_mut:
  assumes "ts_thread s k = Some th" "th_authority (f th) = th_authority th" "th_base_class (f th) = th_base_class th"
  shows "admission (thread_mut k f s) = admission s"
  by (rule admission_changed [OF thread_changed_mut [OF assms(1), of f] assms])

lemma sched_ok_mut:
  assumes "sched_ok s" "ts_thread s k = Some th" "th_state (f th) = th_state th"
    "th_budget_remaining_ns (f th) = th_budget_remaining_ns th" "th_runnable_since_ns (f th) = th_runnable_since_ns th"
    "th_throttled_since_ns (f th) = th_throttled_since_ns th" "th_base_class (f th) = th_base_class th"
    "th_effective_class (f th) = th_effective_class th" "th_authority (f th) = th_authority th"
  shows "sched_ok (thread_mut k f s)"
  using assms sched_inv_mut [of "{}" s k th f] authority_ok_cong [OF admission_mut [of s k th f]] by simp

lemma set_deadline_ok:
  assumes "sched_ok s"
  shows "sched_ok (snd (set_deadline key d s))"
proof (cases "ts_thread s key")
  case (Some th)
  from sched_ok_mut [OF assms this, of "\<lambda>t. t\<lparr>th_deadline_ns := Some d, th_deadline_miss_recorded := False\<rparr>"]
  show ?thesis using Some by (simp add: set_deadline_def)
qed (use assms in \<open>simp add: set_deadline_def\<close>)

lemma clear_deadline_ok:
  assumes "sched_ok s"
  shows "sched_ok (snd (clear_deadline key s))"
proof (cases "ts_thread s key")
  case (Some th)
  from sched_ok_mut [OF assms this, of "\<lambda>t. t\<lparr>th_deadline_ns := None, th_deadline_miss_recorded := False\<rparr>"]
  show ?thesis using Some by (simp add: clear_deadline_def)
qed (use assms in \<open>simp add: clear_deadline_def\<close>)

lemma record_deadline_miss_ok:
  assumes "sched_ok s"
  shows "sched_ok (snd (record_deadline_miss key s))"
proof (cases "ts_thread s key")
  case (Some th)
  from sched_ok_mut [OF assms this, of note_deadline_miss]
  show ?thesis using assms Some by (simp add: record_deadline_miss_def note_deadline_miss_def)
qed (use assms in \<open>simp add: record_deadline_miss_def\<close>)

text \<open>A thread that changes its state, with the queue of its class adapted.\<close>

lemma sched_ok_requeue:
  assumes ok: "sched_ok s" and th: "ts_thread s k = Some th0" and ch: "thread_changed k th s t"
    and same: "th_authority th = th_authority th0" "th_base_class th = th_base_class th0"
      "th_effective_class th = th_effective_class th0"
    and thr: "thread_ok (ts_config s) th"
    and q: "\<And>c. count_list (ts_queues t c) k = of_bool (runs_in c (Some th))"
  shows "sched_ok t"
proof
  have "th_effective_class th = effective_class_for s k (th_base_class th)"
    using ok th same by (auto simp: sched_inv_def classes_ok_def)
  then show "sched_inv {} t" using sched_inv_changed [OF conjunct1 [OF ok] ch thr _ _ q] by simp
  show "authority_ok t" using ok authority_ok_cong [OF admission_changed [OF ch th same(1,2)]] by simp
qed

lemma queue_count:
  assumes "sched_inv D s" "ts_thread s k = Some th"
  shows "count_list (ts_queues s c) k = of_bool (runs_in c (Some th))"
  using assms by (simp add: sched_inv_def queues_ok_def)

lemma live_thread_ok: "sched_inv D s \<Longrightarrow> ts_thread s k = Some th \<Longrightarrow> thread_ok (ts_config s) th"
  by (simp add: sched_inv_def threads_ok_def)

lemma block_ok:
  assumes "sched_ok s"
  shows "sched_ok (snd (block key s))"
proof (cases "\<exists>th. ts_thread s key = Some th \<and> (th_state th = Runnable \<or> th_state th = Running)")
  case True
  then obtain th where th: "ts_thread s key = Some th" "th_state th = Runnable \<or> th_state th = Running" by blast
  let ?f = "\<lambda>t. t\<lparr>th_state := Blocked, th_runnable_since_ns := None\<rparr>"
  let ?t = "thread_mut key ?f (remove_from_all_queues key s)"
  have "thread_changed key (?f th) s ?t" using th by (simp add: thread_changed_def count_list_filter)
  moreover have "thread_ok (ts_config s) (?f th)"
    using live_thread_ok [OF conjunct1 [OF assms] th(1)] th(2) by (auto simp: thread_ok_def)
  ultimately have "sched_ok ?t"
    by (rule_tac sched_ok_requeue [OF assms th(1)]) (auto simp: count_list_filter)
  then show ?thesis using th by (auto simp: block_def)
next
  case False
  then show ?thesis using assms by (auto simp: block_def split: option.splits)
qed

lemma maintain_thread_ok: "sched_ok s \<Longrightarrow> sched_ok (snd (maintain_thread key now s))"
  using maintain_thread_inv [of "{}" s key now] authority_ok_cong [OF admission_maintain_thread [of key now s]] by simp

lemma wake_ok:
  assumes "sched_ok s"
  shows "sched_ok (snd (wake key now s))"
proof -
  define s1 where "s1 = snd (maintain_thread key now s)"
  obtain r where m: "maintain_thread key now s = (r, s1)" by (metis s1_def prod.collapse)
  have ok: "sched_ok s1" using maintain_thread_ok [OF assms] by (simp add: s1_def)
  show ?thesis
  proof (cases "\<exists>u th. r = Inr u \<and> ts_thread s1 key = Some th \<and> th_state th = Blocked")
    case True
    then obtain u th where th: "ts_thread s1 key = Some th" "th_state th = Blocked" and r: "r = Inr u" by blast
    let ?t = "if th_budget_remaining_ns th = 0 then thread_mut key (woken now) s1
      else push_front (th_effective_class th) key (thread_mut key (woken now) s1)"
    have "thread_changed key (woken now th) s1 ?t"
      using thread_changed_mut [OF th(1), of "woken now"] by (simp add: thread_changed_push)
    moreover have "thread_ok (ts_config s1) (woken now th)"
      using live_thread_ok [OF conjunct1 [OF ok] th(1)] th(2) by (auto simp: thread_ok_def woken_def Let_def split: option.splits)
    moreover have "count_list (ts_queues ?t c) key = of_bool (runs_in c (Some (woken now th)))" for c
      using queue_count [OF conjunct1 [OF ok] th(1), of c] th(2) by (auto simp: woken_def Let_def push_front_def)
    ultimately have "sched_ok ?t" by (rule_tac sched_ok_requeue [OF ok th(1)]) (simp_all add: woken_def Let_def)
    then show ?thesis using th r by (simp add: wake_def m Let_def)
  next
    case False
    then have "snd (wake key now s) = s1" by (auto simp: wake_def m split: sum.splits option.splits)
    then show ?thesis using ok by simp
  qed
qed

lemma finish_dispatch_ok:
  assumes "sched_ok s"
  shows "sched_ok (snd (finish_dispatch key elapsed now disposition s))"
proof (cases "\<exists>th. ts_thread s key = Some th \<and> th_state th = Running")
  case True
  then obtain th where th: "ts_thread s key = Some th" "th_state th = Running" by blast
  let ?th = "charge elapsed now disposition th"
  let ?t = "if th_state ?th = Runnable then push_back (th_effective_class ?th) key (thread_mut key (\<lambda>_. ?th) s)
    else thread_mut key (\<lambda>_. ?th) s"
  have same: "th_authority ?th = th_authority th" "th_base_class ?th = th_base_class th"
      "th_effective_class ?th = th_effective_class th"
    by (simp_all add: charge_def Let_def split: run_disposition.split)
  have "thread_changed key ?th s ?t"
    using thread_changed_mut [OF th(1), of "\<lambda>_. ?th"] by (simp add: thread_changed_push)
  moreover have "thread_ok (ts_config s) ?th"
    using live_thread_ok [OF conjunct1 [OF assms] th(1)] th(2)
    by (auto simp: thread_ok_def charge_def Let_def split: run_disposition.splits)
  moreover have "count_list (ts_queues ?t c) key = of_bool (runs_in c (Some ?th))" for c
    using queue_count [OF conjunct1 [OF assms] th(1), of c] th(2) by (auto simp: push_back_def)
  ultimately have "sched_ok ?t" by (rule_tac sched_ok_requeue [OF assms th(1) _ same])
  then show ?thesis using th by (simp add: finish_dispatch_def Let_def)
next
  case False
  then show ?thesis using assms by (auto simp: finish_dispatch_def split: option.splits)
qed

lemma remove_thread_ok:
  assumes "sched_ok s"
  shows "sched_ok (snd (remove_thread key now s))"
proof
  show "sched_inv {} (snd (remove_thread key now s))" using assms remove_thread_inv by blast
  have "admission (snd (remove_thread key now s)) k \<in> {None, admission s k}" for k
  proof (cases "thread_index key s")
    case (Inr i)
    define s1 where "s1 = snd (cancel_donations_touching key now s)"
    have inv: "sched_inv {} s1" using assms by (simp add: s1_def cancel_donations_touching_def cancel_touching_inv)
    have keys: "map fst (ts_threads s1) = map fst (ts_threads s)"
      using cancel_touching_frame [of key now 0 s] by (simp add: s1_def cancel_donations_touching_def)
    have i: "i < length (ts_threads s1)"
      using thread_index_SomeD(1) [OF Inr] length_threads_keys [OF keys] by simp
    have "distinct (map fst (ts_threads s1))"
      using inv by (simp add: sched_inv_def table_ok_def strict_sorted_iff)
    from remove_at_map_of [OF this i] have "map_of (remove_at i (ts_threads s1)) k \<in> {None, ts_thread s1 k}"
      by (simp add: ts_thread_map_of)
    moreover have "admission s1 = admission s" by (simp add: s1_def cancel_donations_touching_def)
    ultimately show ?thesis
      using Inr by (auto simp: remove_thread_def Let_def s1_def [symmetric] admission_def ts_thread_map_of fun_eq_iff)
  qed (simp add: remove_thread_def)
  then show "authority_ok (snd (remove_thread key now s))"
    using assms unfolding authority_ok_def by (metis empty_iff insert_iff option.distinct(1))
qed

lemma add_thread_view:
  assumes "thread_index key s = Inl i" "length (ts_threads s) \<noteq> ts_capacity s" "allows auth c"
  shows "ts_thread (snd (add_thread key c auth now s)) = (ts_thread s)(key \<mapsto>
    \<lparr>th_base_class = c, th_effective_class = c, th_authority = auth, th_state = Runnable,
     th_budget_remaining_ns = cp_budget_ns (policy s c), th_period_started_ns = now, th_runnable_since_ns = Some now,
     th_pending_wake_ns = None, th_throttled_since_ns = None, th_deadline_ns = None,
     th_deadline_miss_recorded = False, th_metrics = thread_metrics_default\<rparr>)"
proof -
  have "key \<notin> fst ` set (ts_threads s)"
    using thread_index_None [OF assms(1)] by (simp add: ts_thread_map_of map_of_eq_None_iff)
  from map_of_insert_at [OF this] show ?thesis
    using assms by (intro ext) (simp add: add_thread_def push_back_def ts_thread_map_of)
qed

lemma add_thread_ok:
  assumes "sched_ok s"
  shows "sched_ok (snd (add_thread key c auth now s))"
proof
  show "sched_inv {} (snd (add_thread key c auth now s))" using assms add_thread_inv by blast
  show "authority_ok (snd (add_thread key c auth now s))"
  proof (cases "(\<exists>i. thread_index key s = Inl i) \<and> length (ts_threads s) \<noteq> ts_capacity s \<and> allows auth c")
    case True
    then obtain i where "thread_index key s = Inl i" by blast
    then show ?thesis
      using assms True add_thread_view [of key s i auth c now] by (auto simp: authority_ok_def admission_def)
  next
    case False
    then show ?thesis using assms by (auto simp: add_thread_def split: sum.splits)
  qed
qed

lemma donate_chain_ok: "sched_ok s \<Longrightarrow> sched_ok (snd (donate_chain donor chain expires now s))"
  using donate_chain_inv authority_ok_cong [OF admission_donate_chain] by blast

lemma cancel_donation_ok: "sched_ok s \<Longrightarrow> sched_ok (snd (cancel_donation token now s))"
  using cancel_donation_inv authority_ok_cong [OF admission_cancel_donation] by blast

lemma cancel_donations_touching_ok: "sched_ok s \<Longrightarrow> sched_ok (snd (cancel_donations_touching key now s))"
  unfolding cancel_donations_touching_def
  using cancel_touching_inv authority_ok_cong [OF admission_cancel_touching] by blast

lemma cancel_donations_from_ok: "sched_ok s \<Longrightarrow> sched_ok (snd (cancel_donations_from donor now s))"
  by (auto simp: cancel_donations_from_def Let_def cancel_donation_ok split: option.split)

lemma maintain_ok: "sched_ok s \<Longrightarrow> sched_ok (maintain now s)"
  using maintain_inv authority_ok_cong [OF admission_maintain] by blast

section \<open>Selection\<close>

text \<open>The runnable threads with a deadline, as the selection compares them.\<close>

definition deadline_jobs :: "'k::linorder thread_scheduler \<Rightarrow> (nat \<times> 'k \<times> scheduling_class) set" where
  "deadline_jobs s = {(d, k, c). \<exists>th. ts_thread s k = Some th \<and> runs_in c (Some th) \<and> th_deadline_ns th = Some d}"

lemma keep_least:
  fixes x :: "'a::linorder"
  obtains m where "(case sel of None \<Rightarrow> Some x | Some cur \<Rightarrow> if x < cur then Some x else sel) = Some m"
    "m \<in> insert x (set_option sel)" "\<forall>y \<in> insert x (set_option sel). m \<le> y"
proof (cases sel)
  case (Some cur)
  show ?thesis by (rule that [of "min x cur"]) (auto simp: Some min_def)
qed (use that [of x] in simp)

lemma select_deadline_scan_spec:
  assumes "\<forall>(c, k) \<in> set ps. ts_thread s k \<noteq> None"
  shows "\<exists>r. select_deadline_scan s ps sel = Some r \<and>
    (let jobs = {(d, k, c). (c, k) \<in> set ps \<and> (\<exists>th. ts_thread s k = Some th \<and> th_deadline_ns th = Some d)} \<union> set_option sel
     in (r = None \<longleftrightarrow> jobs = {}) \<and> (\<forall>x. r = Some x \<longrightarrow> x \<in> jobs \<and> (\<forall>y \<in> jobs. x \<le> y)))"
  using assms
proof (induction s ps sel rule: select_deadline_scan.induct)
  case (2 s c k ps sel)
  from "2.prems" obtain th where th: "ts_thread s k = Some th" by auto
  let ?jobs = "{(d, k, c). (c, k) \<in> set ps \<and> (\<exists>th. ts_thread s k = Some th \<and> th_deadline_ns th = Some d)}"
  let ?all = "{(d, k', c'). (c', k') \<in> set ((c, k) # ps) \<and> (\<exists>th. ts_thread s k' = Some th \<and> th_deadline_ns th = Some d)}"
  show ?case
  proof (cases "th_deadline_ns th")
    case None
    then have "?all = ?jobs" using th by auto
    then show ?thesis using "2.IH"(1) [OF th None] "2.prems" th None by simp
  next
    case (Some d)
    define sel' where "sel' = (case sel of None \<Rightarrow> Some (d, k, c) | Some cur \<Rightarrow> if (d, k, c) < cur then Some (d, k, c) else sel)"
    have all: "?all = insert (d, k, c) ?jobs" using th Some by auto
    obtain m where m: "sel' = Some m" "m \<in> insert (d, k, c) (set_option sel)" "\<forall>y \<in> insert (d, k, c) (set_option sel). m \<le> y"
      unfolding sel'_def by (rule keep_least)
    have step: "select_deadline_scan s ((c, k) # ps) sel = select_deadline_scan s ps sel'"
      using th Some by (simp add: sel'_def Let_def)
    obtain r where r: "select_deadline_scan s ps sel' = Some r" "r = None \<longleftrightarrow> ?jobs \<union> set_option sel' = {}"
      "\<forall>x. r = Some x \<longrightarrow> x \<in> ?jobs \<union> set_option sel' \<and> (\<forall>y \<in> ?jobs \<union> set_option sel'. x \<le> y)"
      using "2.IH"(2) [OF th Some refl] "2.prems" by (fastforce simp: sel'_def Let_def)
    then obtain x where x: "r = Some x" using m(1) by (cases r) auto
    have "x \<in> ?jobs \<union> {m}" and low: "\<forall>y \<in> ?jobs \<union> {m}. x \<le> y" using r(3) x m(1) by auto
    then have "x \<in> insert (d, k, c) ?jobs \<union> set_option sel" using m(2) by blast
    moreover have "x \<le> y" if "y \<in> insert (d, k, c) ?jobs \<union> set_option sel" for y
      using that low m(3) order_trans by blast
    ultimately show ?thesis unfolding step all Let_def using r(1) x by blast
  qed
qed (auto simp: Let_def)

lemma queued_pairs_set: "(c, k) \<in> set (queued_pairs s) \<longleftrightarrow> k \<in> set (ts_queues s c)"
  by (cases c) (auto simp: queued_pairs_def ALL_CLASSES_def)

lemma runs_inD: "runs_in c r \<Longrightarrow> \<exists>th. r = Some th \<and> th_state th = Runnable \<and> th_effective_class th = c"
  by (cases r) simp_all

lemma select_deadline_thread_spec:
  assumes "queues_ok s"
  shows "(select_deadline_thread s = Some None \<and> deadline_jobs s = {}) \<or>
    (\<exists>d k c. select_deadline_thread s = Some (Some (c, k)) \<and> (d, k, c) \<in> deadline_jobs s \<and> (\<forall>y \<in> deadline_jobs s. (d, k, c) \<le> y))"
proof -
  have q: "(c, k) \<in> set (queued_pairs s) \<longleftrightarrow> runs_in c (ts_thread s k)" for c k
    using assms by (simp add: queued_pairs_set queues_okD)
  then have live: "\<forall>(c, k) \<in> set (queued_pairs s). ts_thread s k \<noteq> None" by (auto dest!: runs_inD)
  have jobs: "deadline_jobs s = {(d, k, c). (c, k) \<in> set (queued_pairs s) \<and>
      (\<exists>th. ts_thread s k = Some th \<and> th_deadline_ns th = Some d)} \<union> set_option None"
    by (auto simp: deadline_jobs_def q)
  obtain r where r: "select_deadline_scan s (queued_pairs s) None = Some r" "r = None \<longleftrightarrow> deadline_jobs s = {}"
    "\<forall>x. r = Some x \<longrightarrow> x \<in> deadline_jobs s \<and> (\<forall>y \<in> deadline_jobs s. x \<le> y)"
    using select_deadline_scan_spec [OF live, of None] unfolding Let_def jobs [symmetric] by blast
  show ?thesis
  proof (cases r)
    case (Some x)
    then show ?thesis using r by (cases x) (auto simp: select_deadline_thread_def)
  qed (use r in \<open>simp add: select_deadline_thread_def\<close>)
qed

text \<open>The head of the queue has waited for its class's starvation bound.\<close>

definition aged :: "'k::linorder thread_scheduler \<Rightarrow> nat \<Rightarrow> scheduling_class \<Rightarrow> bool" where
  "aged s now c \<longleftrightarrow> (\<exists>k q th since. ts_queues s c = k # q \<and> ts_thread s k = Some th \<and>
     th_runnable_since_ns th = Some since \<and> now - since \<ge> cp_starvation_ns (policy s c))"

lemma head_live:
  assumes "sched_inv D s" "ts_queues s c = k # q"
  obtains th since where "ts_thread s k = Some th" "th_state th = Runnable" "th_effective_class th = c"
    "th_runnable_since_ns th = Some since" "k \<notin> set q"
proof -
  have "queues_ok s" using assms by (simp add: sched_inv_def)
  then have "runs_in c (ts_thread s k)" "k \<notin> set q"
    using queues_okD [of s k c] queues_ok_distinct [of s c] assms(2) by auto
  moreover from this obtain th where "ts_thread s k = Some th" "th_state th = Runnable" "th_effective_class th = c"
    using runs_inD by blast
  moreover from this have "th_runnable_since_ns th \<noteq> None"
    using live_thread_ok [OF assms(1)] by (auto simp: thread_ok_def)
  ultimately show ?thesis using that by blast
qed

lemma select_aged_find:
  assumes "sched_inv D s"
  shows "select_aged s now cs = Some (find (aged s now) cs)"
proof (induction cs)
  case (Cons c cs)
  show ?case
  proof (cases "ts_queues s c")
    case Nil
    then have "\<not> aged s now c" by (simp add: aged_def)
    then show ?thesis using Cons Nil by simp
  next
    case (Cons k q)
    obtain th since where "ts_thread s k = Some th" "th_runnable_since_ns th = Some since"
      by (rule head_live [OF assms Cons])
    then show ?thesis using Cons.IH Cons by (simp add: aged_def)
  qed
qed simp

lemma class_less_simps [simp]:
  "(a :: scheduling_class) \<le> Background" "Critical \<le> a"
  by (cases a; simp add: less_eq_scheduling_class_def)+

lemma finite_classes [simp]: "finite (C :: scheduling_class set)"
proof (rule finite_subset)
  show "C \<subseteq> set ALL_CLASSES" using scheduling_class.exhaust by (auto simp: ALL_CLASSES_def)
qed simp

lemma find_aging_order:
  "find P AGING_ORDER = (if \<exists>c. P c then Some (Max {c. P c}) else None)"
proof (cases "find P AGING_ORDER")
  case None
  have "\<not> P c" for c using None by (cases c) (auto simp: AGING_ORDER_def split: if_splits)
  then show ?thesis using None by simp
next
  case (Some m)
  have "P m" using Some by (auto simp: find_Some_iff)
  moreover have "c \<le> m" if "P c" for c
    using that Some by (cases c) (auto simp: AGING_ORDER_def less_eq_scheduling_class_def split: if_splits)
  ultimately have "Max {c. P c} = m" by (intro Max_eqI) auto
  then show ?thesis using Some \<open>P m\<close> by auto
qed

lemma find_all_classes:
  "find P ALL_CLASSES = (if \<exists>c. P c then Some (Min {c. P c}) else None)"
proof (cases "find P ALL_CLASSES")
  case None
  have "\<not> P c" for c using None by (cases c) (auto simp: ALL_CLASSES_def split: if_splits)
  then show ?thesis using None by simp
next
  case (Some m)
  have "P m" using Some by (auto simp: find_Some_iff)
  moreover have "m \<le> c" if "P c" for c
    using that Some by (cases c) (auto simp: ALL_CLASSES_def less_eq_scheduling_class_def split: if_splits)
  ultimately have "Min {c. P c} = m" by (intro Min_eqI) auto
  then show ?thesis using Some \<open>P m\<close> by auto
qed

lemma select_class_spec:
  assumes "sched_inv D s"
  shows "select_class s now =
    Some (if \<exists>c. aged s now c then Some (Max {c. aged s now c})
          else if \<exists>c. ts_queues s c \<noteq> [] then Some (Min {c. ts_queues s c \<noteq> []}) else None)"
  by (auto simp: select_class_def select_aged_find [OF assms] find_aging_order find_all_classes)

text \<open>The contract of the selection: earliest deadline, else the weakest aged class, else the strongest class.\<close>

definition chosen :: "'k::linorder thread_scheduler \<Rightarrow> nat \<Rightarrow> scheduling_class \<Rightarrow> 'k \<Rightarrow> bool" where
  "chosen s now c k \<longleftrightarrow>
     (if deadline_jobs s \<noteq> {} then \<exists>d. (d, k, c) \<in> deadline_jobs s \<and> (\<forall>job \<in> deadline_jobs s. (d, k, c) \<le> job)
      else (\<exists>q. ts_queues s c = k # q) \<and>
           c = (if \<exists>c. aged s now c then Max {c. aged s now c} else Min {c. ts_queues s c \<noteq> []}))"

lemma take_from_queue_spec:
  assumes "k \<in> set (ts_queues s c)"
  shows "\<exists>q. take_from_queue c k s = Some (k, set_queue c q s) \<and>
    (\<forall>j. count_list q j = count_list (ts_queues s c) j - of_bool (j = k))"
proof -
  obtain i where i: "position (\<lambda>queued. queued = k) (ts_queues s c) = Some i"
    using assms by (cases "position (\<lambda>queued. queued = k) (ts_queues s c)") (auto simp: position_None)
  from position_SomeD [OF this] show ?thesis
    using i count_list_remove_at [of i "ts_queues s c"] by (auto simp: take_from_queue_def)
qed

lemma select_next_spec:
  assumes inv: "sched_inv D s"
  shows "(select_next now s = Some (None, s) \<and> (\<forall>k c. \<not> runs_in c (ts_thread s k))) \<or>
    (\<exists>c k q. select_next now s = Some (Some (c, k), set_queue c q s) \<and> runs_in c (ts_thread s k) \<and> chosen s now c k \<and>
       (\<forall>j. count_list q j = count_list (ts_queues s c) j - of_bool (j = k)))"
proof -
  have q: "queues_ok s" using inv by (simp add: sched_inv_def)
  from select_deadline_thread_spec [OF q] show ?thesis
  proof (elim disjE exE conjE)
    fix d k c
    assume sel: "select_deadline_thread s = Some (Some (c, k))" and job: "(d, k, c) \<in> deadline_jobs s"
      and least: "\<forall>y \<in> deadline_jobs s. (d, k, c) \<le> y"
    from job have run: "runs_in c (ts_thread s k)" by (auto simp: deadline_jobs_def)
    then have "k \<in> set (ts_queues s c)" using queues_okD [OF q] by blast
    from take_from_queue_spec [OF this] obtain r where "take_from_queue c k s = Some (k, set_queue c r s)"
      "\<forall>j. count_list r j = count_list (ts_queues s c) j - of_bool (j = k)" by blast
    moreover have "chosen s now c k" using job least by (auto simp: chosen_def)
    ultimately show ?thesis using sel run by (fastforce simp: select_next_def)
  next
    assume sel: "select_deadline_thread s = Some None" and none: "deadline_jobs s = {}"
    show ?thesis
    proof (cases "\<exists>c. ts_queues s c \<noteq> []")
      case False
      then have "\<not> aged s now c" for c by (simp add: aged_def)
      then have "select_next now s = Some (None, s)"
        using False sel select_class_spec [OF inv, of now] by (simp add: select_next_def)
      moreover have "\<not> runs_in c (ts_thread s k)" for k c using False queues_okD [OF q, of k c] by auto
      ultimately show ?thesis by blast
    next
      case True
      define c where "c = (if \<exists>c. aged s now c then Max {c. aged s now c} else Min {c. ts_queues s c \<noteq> []})"
      have "ts_queues s c \<noteq> []"
      proof (cases "\<exists>c. aged s now c")
        case aged: True
        then have "c \<in> {c. aged s now c}" unfolding c_def using Max_in [of "{c. aged s now c}"] by auto
        then show ?thesis by (auto simp: aged_def)
      next
        case False
        then show ?thesis unfolding c_def using Min_in [of "{c. ts_queues s c \<noteq> []}"] True by auto
      qed
      then obtain k r where kr: "ts_queues s c = k # r" by (cases "ts_queues s c") auto
      have "select_class s now = Some (Some c)" using True select_class_spec [OF inv, of now] by (auto simp: c_def)
      then have "select_next now s = Some (Some (c, k), set_queue c r s)" using sel kr by (simp add: select_next_def)
      moreover have "runs_in c (ts_thread s k)" using queues_okD [OF q, of k c] kr by simp
      moreover have "chosen s now c k" using none kr c_def by (simp add: chosen_def)
      moreover have "\<forall>j. count_list r j = count_list (ts_queues s c) j - of_bool (j = k)" using kr by simp
      ultimately show ?thesis by blast
    qed
  qed
qed

lemma start_running_simps [simp]:
  "th_authority (start_running p now th) = th_authority th" "th_base_class (start_running p now th) = th_base_class th"
  "th_effective_class (start_running p now th) = th_effective_class th" "th_state (start_running p now th) = Running"
  "th_budget_remaining_ns (start_running p now th) = th_budget_remaining_ns th"
  "th_throttled_since_ns (start_running p now th) = th_throttled_since_ns th"
  by (simp_all add: start_running_def account_deadline_def account_wake_def account_wait_def note_deadline_miss_def Let_def
      split: option.split)

lemma next_dispatch_cases:
  assumes "sched_ok s"
  obtains (idle) "next_dispatch now s = Some (None, maintain now s)" "\<forall>k c. \<not> runs_in c (ts_thread (maintain now s) k)"
  | (run) k c th t where
      "next_dispatch now s = Some (Some \<lparr>di_key = k, di_class = c,
         di_quantum_ns = min (cp_quantum_ns (policy s c)) (th_budget_remaining_ns th)\<rparr>, t)"
      "ts_thread (maintain now s) k = Some th" "th_state th = Runnable" "th_effective_class th = c"
      "chosen (maintain now s) now c k" "thread_changed k (start_running (policy s c) now th) (maintain now s) t"
      "\<And>c. count_list (ts_queues t c) k = 0"
proof -
  let ?s = "maintain now s"
  have inv: "sched_inv {} ?s" using maintain_ok [OF assms] by blast
  have pol: "policy ?s = policy s" by (rule policy_frame) (simp add: maintain_def Let_def)
  from select_next_spec [OF inv, of now] show ?thesis
  proof (elim disjE exE conjE)
    assume "select_next now ?s = Some (None, ?s)" "\<forall>k c. \<not> runs_in c (ts_thread ?s k)"
    then show ?thesis by (intro idle) (simp_all add: next_dispatch_def)
  next
    fix c k q
    assume sel: "select_next now ?s = Some (Some (c, k), set_queue c q ?s)" and runs: "runs_in c (ts_thread ?s k)"
      and ch: "chosen ?s now c k" and q: "\<forall>j. count_list q j = count_list (ts_queues ?s c) j - of_bool (j = k)"
    obtain th where th: "ts_thread ?s k = Some th" "th_state th = Runnable" "th_effective_class th = c"
      using runs_inD [OF runs] by blast
    let ?t = "thread_mut k (start_running (policy s c) now) (set_queue c q ?s)"
    have pol': "policy (set_queue c q ?s) = policy s" using pol policy_frame [of "set_queue c q ?s" ?s] by simp
    have nd: "next_dispatch now s = Some (Some \<lparr>di_key = k, di_class = c,
         di_quantum_ns = min (cp_quantum_ns (policy s c)) (th_budget_remaining_ns th)\<rparr>, ?t)"
      using sel th by (simp add: next_dispatch_def pol')
    have changed: "thread_changed k (start_running (policy s c) now th) ?s ?t"
      using th q by (auto simp: thread_changed_def)
    have "count_list (ts_queues ?t c') k = 0" for c'
      using queue_count [OF inv th(1)] th(2,3) q by auto
    then show ?thesis by (rule run [OF nd th ch changed])
  qed
qed

lemma next_dispatch_ok:
  assumes "sched_ok s" "next_dispatch now s = Some (r, t)"
  shows "sched_ok t"
  using assms(1)
proof (cases rule: next_dispatch_cases [of s now])
  case idle
  then show ?thesis using assms maintain_ok by auto
next
  case (run k c th u)
  have ok: "sched_ok (maintain now s)" using assms maintain_ok by blast
  have "thread_ok (ts_config (maintain now s)) (start_running (policy s c) now th)"
    using live_thread_ok [OF conjunct1 [OF ok] run(2)] run(3) by (auto simp: thread_ok_def)
  then have "sched_ok u"
    using sched_ok_requeue [OF ok run(2) run(6)] run(7) by simp
  then show ?thesis using run(1) assms(2) by simp
qed

section \<open>Maintenance is replenishment of every thread\<close>

definition unexpired :: "nat \<Rightarrow> 'k thread_scheduler \<Rightarrow> 'k thread_scheduler" where
  "unexpired now s = s\<lparr>ts_donations := filter (\<lambda>d. dc_expires_at_ns d > now) (ts_donations s)\<rparr>"

definition maintained :: "'k::linorder thread_scheduler \<Rightarrow> nat \<Rightarrow> 'k \<Rightarrow> thread \<Rightarrow> thread" where
  "maintained s now k th = (let e = effective_class_for s k (th_base_class th) in replenish (policy s e) e now th)"

lemma maintain_all_view:
  assumes "distinct (map (\<lambda>j. fst (ts_threads s ! j)) js)" "\<forall>j \<in> set js. j < length (ts_threads s)"
  shows "ts_thread (maintain_all js now s) k =
    (if k \<in> (\<lambda>j. fst (ts_threads s ! j)) ` set js then map_option (maintained s now k) (ts_thread s k) else ts_thread s k)"
  using assms
proof (induction js now s rule: maintain_all.induct)
  case (2 j js now s)
  let ?k = "fst (ts_threads s ! j)"
  let ?t = "snd (maintain_thread ?k now s)"
  have len: "length (ts_threads ?t) = length (ts_threads s)" by (rule length_threads_keys) simp
  have same: "fst (ts_threads ?t ! i) = fst (ts_threads s ! i)" if "i < length (ts_threads s)" for i
    using that len by (metis maintain_thread_keys nth_map)
  then have keys: "map (\<lambda>i. fst (ts_threads ?t ! i)) js = map (\<lambda>i. fst (ts_threads s ! i)) js"
    using "2.prems" by simp
  then have img: "(\<lambda>i. fst (ts_threads ?t ! i)) ` set js = (\<lambda>i. fst (ts_threads s ! i)) ` set js"
    by (metis (no_types, lifting) list.set_map)
  have m: "maintained ?t now k = maintained s now k" for k
    using effective_class_for_cong [of ?t s] policy_frame [of ?t s] by (auto simp: maintained_def)
  have view: "ts_thread ?t = (ts_thread s)(?k := map_option (maintained s now ?k) (ts_thread s ?k))"
  proof (cases "ts_thread s ?k")
    case None
    then show ?thesis by (simp add: maintain_thread_unknown fun_upd_idem)
  next
    case (Some th)
    then show ?thesis using maintain_thread_view [OF Some refl, of now] by (simp add: maintained_def Let_def)
  qed
  have ih: "ts_thread (maintain_all js now ?t) k =
     (if k \<in> (\<lambda>i. fst (ts_threads s ! i)) ` set js then map_option (maintained s now k) (ts_thread ?t k) else ts_thread ?t k)"
    unfolding img [symmetric] m [symmetric]
  proof (rule "2.IH")
    show "distinct (map (\<lambda>i. fst (ts_threads ?t ! i)) js)" unfolding keys using "2.prems" by simp
    show "\<forall>i \<in> set js. i < length (ts_threads ?t)" using "2.prems" len by simp
  qed
  show ?case using "2.prems"(1) unfolding maintain_all.simps ih by (auto simp: view)
qed simp

lemma maintain_view:
  assumes "sched_inv D s"
  shows "ts_thread (maintain now s) k = map_option (maintained (unexpired now s) now k) (ts_thread s k)"
proof -
  let ?s = "unexpired now s"
  have th: "ts_threads ?s = ts_threads s" by (simp add: unexpired_def)
  have "map (\<lambda>j. fst (ts_threads s ! j)) [0..<length (ts_threads s)] = map fst (map ((!) (ts_threads s)) [0..<length (ts_threads s)])"
    by simp
  then have idx: "map (\<lambda>j. fst (ts_threads s ! j)) [0..<length (ts_threads s)] = map fst (ts_threads s)"
    unfolding map_nth .
  have d: "distinct (map fst (ts_threads s))" using assms by (simp add: sched_inv_def table_ok_def strict_sorted_iff)
  have eq: "maintain now s = maintain_all [0..<length (ts_threads ?s)] now ?s"
    by (simp add: maintain_def unexpired_def)
  have "ts_thread (maintain now s) k =
    (if k \<in> (\<lambda>j. fst (ts_threads ?s ! j)) ` set [0..<length (ts_threads ?s)] then map_option (maintained ?s now k) (ts_thread ?s k)
     else ts_thread ?s k)"
    unfolding eq by (rule maintain_all_view) (simp_all add: th idx d)
  moreover have "(\<lambda>j. fst (ts_threads ?s ! j)) ` set [0..<length (ts_threads ?s)] = set (map fst (ts_threads s))"
    unfolding th idx [symmetric] by simp
  moreover have "ts_thread ?s = ts_thread s" by (rule ts_thread_cong) (rule th)
  ultimately show ?thesis using live_keys [of s k] by (cases "ts_thread s k") auto
qed

section \<open>Reachable schedulers\<close>

inductive sched_step :: "'k::linorder thread_scheduler \<Rightarrow> 'k thread_scheduler \<Rightarrow> bool" where
  step_add: "sched_step s (snd (add_thread key c auth now s))"
| step_remove: "sched_step s (snd (remove_thread key now s))"
| step_class: "sched_step s (snd (set_base_class key c now s))"
| step_class_authority: "sched_step s (snd (set_base_class_with_authority key c auth now s))"
| step_deadline: "sched_step s (snd (set_deadline key d s))"
| step_clear: "sched_step s (snd (clear_deadline key s))"
| step_miss: "sched_step s (snd (record_deadline_miss key s))"
| step_block: "sched_step s (snd (block key s))"
| step_wake: "sched_step s (snd (wake key now s))"
| step_dispatch: "next_dispatch now s = Some (r, t) \<Longrightarrow> sched_step s t"
| step_finish: "sched_step s (snd (finish_dispatch key elapsed now disposition s))"
| step_donate: "sched_step s (snd (donate_chain key chain expires now s))"
| step_cancel: "sched_step s (snd (cancel_donation token now s))"
| step_cancel_touching: "sched_step s (snd (cancel_donations_touching key now s))"
| step_cancel_from: "sched_step s (snd (cancel_donations_from key now s))"
| step_maintain: "sched_step s (maintain now s)"

inductive sched_reachable :: "'k::linorder thread_scheduler \<Rightarrow> bool" where
  reach_new: "scheduler_try_new al config capacity = Inr s \<Longrightarrow> sched_reachable s"
| reach_step: "sched_reachable s \<Longrightarrow> sched_step s t \<Longrightarrow> sched_reachable t"

lemma sched_step_ok: "sched_step s t \<Longrightarrow> sched_ok s \<Longrightarrow> sched_ok t"
  by (induction rule: sched_step.induct)
    (rule add_thread_ok remove_thread_ok set_base_class_ok set_base_class_with_authority_ok set_deadline_ok
      clear_deadline_ok record_deadline_miss_ok block_ok wake_ok finish_dispatch_ok donate_chain_ok cancel_donation_ok
      cancel_donations_touching_ok cancel_donations_from_ok maintain_ok | erule (1) next_dispatch_ok [rotated] | assumption)+

lemma try_new_ok: "scheduler_try_new al config capacity = Inr s \<Longrightarrow> sched_ok s"
  by (auto simp: scheduler_try_new_def sched_inv_def table_ok_def queues_ok_def threads_ok_def classes_ok_def donations_ok_def
      authority_ok_def admission_def ts_thread_map_of split: sum.splits if_splits)

lemma sched_reachable_ok: "sched_reachable s \<Longrightarrow> sched_ok s"
proof (induction rule: sched_reachable.induct)
  case (reach_new al config capacity s)
  then show ?case by (rule try_new_ok)
next
  case (reach_step s t)
  show ?case by (rule sched_step_ok [OF reach_step.hyps(2) reach_step.IH])
qed

lemmas reachable_inv = conjunct1 [OF sched_reachable_ok] and reachable_authority = conjunct2 [OF sched_reachable_ok]

lemma boosted_by:
  assumes "sched_inv {} s" "ts_thread s k = Some th" "th_effective_class th \<noteq> th_base_class th"
  shows "\<exists>d \<in> set (ts_donations s). k \<in> set (dc_recipients d) \<and> dc_class d = th_effective_class th \<and>
    th_effective_class th < th_base_class th"
proof -
  let ?C = "dc_class ` {d \<in> set (ts_donations s). k \<in> set (dc_recipients d)}"
  have eff: "th_effective_class th = Min (insert (th_base_class th) ?C)"
    using assms(1,2) by (simp add: sched_inv_def classes_ok_def effective_class_Min)
  have "Min (insert (th_base_class th) ?C) \<in> insert (th_base_class th) ?C" by (rule Min_in) simp_all
  then have "th_effective_class th \<in> ?C" using eff assms(3) by auto
  moreover have "th_effective_class th \<le> th_base_class th" unfolding eff by (rule Min_le) simp_all
  ultimately show ?thesis using assms(3) by auto
qed

lemma maintain_donations: "ts_donations (maintain now s) = filter (\<lambda>d. dc_expires_at_ns d > now) (ts_donations s)"
  by (simp add: maintain_def Let_def)

lemma donation_unwinds:
  assumes inv: "sched_inv {} s" and don: "donate_chain donor chain expires now s = (Inr token, t)"
  shows "fst (cancel_donation token later t)" "ts_donations (snd (cancel_donation token later t)) = ts_donations s"
    "sched_inv {} (snd (cancel_donation token later t))" "admission (snd (cancel_donation token later t)) = admission s"
proof -
  from don obtain d where d: "ts_donations t = ts_donations s @ [d]" "dc_token d = token" "token = ts_next_donation_token s"
    by (rule donate_chain_Inr) simp
  have "\<forall>x \<in> set (ts_donations s). dc_token x \<noteq> token"
    using inv d(3) by (auto simp: sched_inv_def donations_ok_def donation_ok_def)
  then have p: "position (\<lambda>x. dc_token x = token) (ts_donations t) = Some (length (ts_donations s))"
    unfolding d(1) using d(2) by (simp add: position_Some nth_append)
  show "fst (cancel_donation token later t)" "ts_donations (snd (cancel_donation token later t)) = ts_donations s"
    by (simp_all add: cancel_donation_def p) (simp add: d(1) swap_remove_def)
  have "sched_inv {} t" using donate_chain_inv [OF inv, of donor chain expires now] by (simp add: don)
  then show "sched_inv {} (snd (cancel_donation token later t))" by (rule cancel_donation_inv)
  show "admission (snd (cancel_donation token later t)) = admission s"
    using admission_donate_chain [of donor chain expires now s] by (simp add: don)
qed

lemma effective_same:
  assumes "sched_inv {} s" "sched_inv {} t" "admission t = admission s" "ts_donations t = ts_donations s" "ts_thread s k = Some th"
  shows "\<exists>th'. ts_thread t k = Some th' \<and> th_base_class th' = th_base_class th \<and> th_effective_class th' = th_effective_class th"
proof -
  have "admission t k = Some (th_authority th, th_base_class th)" using assms(3,5) by (simp add: admission_def)
  then obtain th' where th': "ts_thread t k = Some th'" "th_base_class th' = th_base_class th" by (auto simp: admission_def)
  then show ?thesis
    using assms(1,2,5) effective_class_for_cong [OF assms(4)] by (auto simp: sched_inv_def classes_ok_def)
qed

lemma cancel_donation_exact:
  assumes "donations_ok s" "d \<in> set (ts_donations s)"
  shows "fst (cancel_donation (dc_token d) now s)"
    "add_mset d (mset (ts_donations (snd (cancel_donation (dc_token d) now s)))) = mset (ts_donations s)"
proof -
  let ?p = "position (\<lambda>x. dc_token x = dc_token d) (ts_donations s)"
  obtain i where i: "?p = Some i" using assms(2) by (cases ?p) (auto simp: position_None)
  then have l: "i < length (ts_donations s)" "dc_token (ts_donations s ! i) = dc_token d" using position_SomeD [OF i] by auto
  then have "ts_donations s ! i = d"
    using assms by (metis donations_ok_def distinct_map inj_onD nth_mem)
  then show "fst (cancel_donation (dc_token d) now s)"
    "add_mset d (mset (ts_donations (snd (cancel_donation (dc_token d) now s)))) = mset (ts_donations s)"
    using i mset_swap_remove [OF l(1)] by (simp_all add: cancel_donation_def)
qed

lemma cancel_touching_exact:
  assumes "sched_inv {} s" "n + length (filter (touches key) (ts_donations s)) \<le> u64_max"
  shows "mset (ts_donations (snd (cancel_touching_loop key now n s))) = mset (filter (\<lambda>d. \<not> touches key d) (ts_donations s)) \<and>
    fst (cancel_touching_loop key now n s) = n + length (filter (touches key) (ts_donations s))"
  using assms
proof (induction key now n s rule: cancel_touching_loop.induct)
  case (1 key now n s)
  show ?case
  proof (cases "find (touches key) (ts_donations s)")
    case None
    then have "cancel_touching_loop key now n s = (n, s)" by (subst cancel_touching_loop.simps) simp
    with None show ?thesis by (simp add: find_None_iff filter_empty_conv filter_id_conv)
  next
    case (Some d)
    let ?t = "snd (cancel_donation (dc_token d) now s)"
    have d: "d \<in> set (ts_donations s)" "touches key d" using Some by (auto simp: find_Some_iff)
    have "donations_ok s" using "1.prems" by (simp add: sched_inv_def)
    note ex = cancel_donation_exact [OF this d(1), of now]
    have f: "mset (filter P (ts_donations s)) = filter_mset P (add_mset d (mset (ts_donations ?t)))" for P
      using ex(2) by simp
    have n: "length (filter (touches key) (ts_donations s)) = Suc (length (filter (touches key) (ts_donations ?t)))"
      using arg_cong [OF f [of "touches key"], of size] d(2) by (simp flip: mset_filter)
    have sat: "saturating_add n 1 = Suc n" using "1.prems"(2) n by (simp add: saturating_add_def)
    have step: "cancel_touching_loop key now n s = cancel_touching_loop key now (Suc n) ?t"
      using Some ex(1) by (subst cancel_touching_loop.simps) (simp add: Let_def sat del: One_nat_def)
    show ?thesis
      using "1.IH" [OF Some refl] "1.prems" ex(1) n f [of "\<lambda>d. \<not> touches key d"] d(2)
      unfolding step by (simp add: sat cancel_donation_inv del: One_nat_def)
  qed
qed

section \<open>Properties\<close>

definition sample_scheduler :: "nat thread_scheduler" where
  "sample_scheduler =
     \<lparr>ts_config = default_policy, ts_capacity = 4, ts_threads = [], ts_queues = (\<lambda>_. []), ts_donations = [],
      ts_next_donation_token = 1\<rparr>"

definition sample_threads :: "nat thread_scheduler" where
  "sample_threads = snd (add_thread 2 Interactive System 0 (snd (add_thread 1 Background User 0 sample_scheduler)))"

definition sample_donated :: "nat thread_scheduler" where
  "sample_donated = snd (donate_chain 2 [1] 1000 0 sample_threads)"

lemma sample_scheduler_new: "scheduler_try_new (\<lambda>_. True) default_policy 4 = Inr sample_scheduler"
  by (simp add: scheduler_try_new_def sample_scheduler_def config_validate_def default_policy_def ALL_CLASSES_def
      policy_is_valid_def DEFAULT_MAX_DONATION_DEPTH_def DEFAULT_MAX_DONATION_NS_def list_all_iff)

lemma sample_threads_reachable: "sched_reachable sample_threads"
  unfolding sample_threads_def by (intro reach_step [OF _ step_add] reach_new [OF sample_scheduler_new])

lemma sample_donated_reachable: "sched_reachable sample_donated"
  unfolding sample_donated_def by (intro reach_step [OF _ step_donate] sample_threads_reachable)

lemmas sample_eval = sample_scheduler_def sample_threads_def sample_donated_def add_thread_def thread_index_def insert_at_def
  push_back_def set_queue_def donate_chain_def ts_thread_def default_policy_def DEFAULT_MAX_DONATION_DEPTH_def
  DEFAULT_MAX_DONATION_NS_def checked_add_def u64_max_def recompute_effective_class_def policy_def

lemma sample_threads_view:
  "ts_threads sample_threads =
     [(1, \<lparr>th_base_class = Background, th_effective_class = Background, th_authority = User, th_state = Runnable,
           th_budget_remaining_ns = 5000000, th_period_started_ns = 0, th_runnable_since_ns = Some 0,
           th_pending_wake_ns = None, th_throttled_since_ns = None, th_deadline_ns = None,
           th_deadline_miss_recorded = False, th_metrics = thread_metrics_default\<rparr>),
      (2, \<lparr>th_base_class = Interactive, th_effective_class = Interactive, th_authority = System, th_state = Runnable,
           th_budget_remaining_ns = 16000000, th_period_started_ns = 0, th_runnable_since_ns = Some 0,
           th_pending_wake_ns = None, th_throttled_since_ns = None, th_deadline_ns = None,
           th_deadline_miss_recorded = False, th_metrics = thread_metrics_default\<rparr>)]"
  "ts_donations sample_threads = []" "ts_config sample_threads = default_policy"
  "ts_capacity sample_threads = 4" "ts_next_donation_token sample_threads = 1"
  by (simp_all add: sample_eval)

lemma sample_queues:
  "ts_queues sample_threads = (\<lambda>_. [])(Background := [1], Interactive := [2])"
  by (rule ext) (simp add: sample_eval)

lemma sample_explicit:
  "sample_threads = \<lparr>ts_config = default_policy, ts_capacity = 4, ts_threads = ts_threads sample_threads,
     ts_queues = (\<lambda>_. [])(Background := [1], Interactive := [2]), ts_donations = [], ts_next_donation_token = 1\<rparr>"
  by (simp add: sample_threads_view sample_queues)

lemma sample_maintain: "maintain 5 sample_threads = sample_threads"
  by (subst (1) sample_explicit, subst (2) sample_explicit)
    (simp add: maintain_def Let_def sample_threads_view maintain_thread_def ts_thread_def thread_index_def thread_mut_def
      effective_class_for_def policy_def default_policy_def replenish_def saturating_add_def u64_max_def upt_rec)

lemma sample_dispatch:
  "\<exists>t. next_dispatch 5 sample_threads = Some (Some \<lparr>di_key = 2, di_class = Interactive, di_quantum_ns = 2000000\<rparr>, t)"
  unfolding next_dispatch_def sample_maintain
  by (simp add: select_next_def select_deadline_thread_def queued_pairs_def ALL_CLASSES_def select_class_def AGING_ORDER_def
      sample_queues sample_threads_view ts_thread_map_of policy_def default_policy_def set_queue_def)

text \<open>C22: In every reachable scheduler the run queues hold exactly the runnable threads: a key stands in
  the queue of a class just when its thread is runnable with that effective class, no queue holds a key
  twice, and no key stands in two queues.\<close>
theorem queues_hold_runnable_threads:
  assumes "sched_reachable s"
  shows "(\<forall>c k. k \<in> set (ts_queues s c) \<longleftrightarrow>
           (\<exists>th. ts_thread s k = Some th \<and> th_state th = Runnable \<and> th_effective_class th = c)) \<and>
         (\<forall>c. distinct (ts_queues s c))"
proof -
  have q: "queues_ok s" using reachable_inv [OF assms] by (simp add: sched_inv_def)
  have "k \<in> set (ts_queues s c) \<longleftrightarrow>
      (\<exists>th. ts_thread s k = Some th \<and> th_state th = Runnable \<and> th_effective_class th = c)" for c k
    using queues_okD [OF q, of k c] by (cases "ts_thread s k") auto
  then show ?thesis using queues_ok_distinct [OF q] by blast
qed

theorem queues_hold_runnable_threads_witness:
  "sched_reachable sample_threads \<and> (1 \<in> set (ts_queues sample_threads Background) \<longleftrightarrow>
     (\<exists>th. ts_thread sample_threads 1 = Some th \<and> th_state th = Runnable \<and> th_effective_class th = Background)) \<and>
   distinct (ts_queues sample_threads Background)"
  using queues_hold_runnable_threads [OF sample_threads_reachable] sample_threads_reachable by blast

text \<open>C23: The scheduler never panics and never idles with work to do: \<open>next_dispatch\<close> always returns, and it
  returns nothing just when, after maintenance, no thread is runnable.\<close>
theorem dispatch_work_conserving:
  assumes "sched_reachable s"
  shows "\<exists>r t. next_dispatch now s = Some (r, t) \<and>
    (r = None \<longleftrightarrow> (\<forall>k th. ts_thread (maintain now s) k = Some th \<longrightarrow> th_state th \<noteq> Runnable))"
  using sched_reachable_ok [OF assms]
proof (cases rule: next_dispatch_cases [of s now])
  case idle
  have "th_state th \<noteq> Runnable" if "ts_thread (maintain now s) k = Some th" for k th
    using idle(2) that by (metis runs_in.simps(2))
  then show ?thesis using idle(1) by blast
next
  case (run k c th t)
  then show ?thesis by blast
qed

theorem dispatch_work_conserving_witness:
  "sched_reachable sample_threads \<and> (\<exists>r t. next_dispatch 5 sample_threads = Some (r, t) \<and>
    (r = None \<longleftrightarrow> (\<forall>k th. ts_thread (maintain 5 sample_threads) k = Some th \<longrightarrow> th_state th \<noteq> Runnable)))"
  using dispatch_work_conserving [OF sample_threads_reachable, of 5] sample_threads_reachable by blast

text \<open>C24: The selection rule. A dispatched thread was runnable in the class it is dispatched in. If some
  runnable thread has a deadline, the one dispatched has the least deadline, ties broken by key and then
  class. Otherwise it is the head of its queue (where \<^verbatim>\<open>wake\<close> puts a woken thread, and other threads arrive from the back),
  and its class is the weakest one whose head has waited for its starvation bound, or the strongest nonempty one when none has.\<close>
theorem dispatch_selects:
  assumes "sched_reachable s" "next_dispatch now s = Some (Some d, t)"
  shows "runs_in (di_class d) (ts_thread (maintain now s) (di_key d)) \<and>
    chosen (maintain now s) now (di_class d) (di_key d)"
  using sched_reachable_ok [OF assms(1)]
proof (cases rule: next_dispatch_cases [of s now])
  case (run k c th t)
  then show ?thesis using assms(2) by auto
qed (use assms(2) in simp)

text \<open>C25: Every grant is positive and bounded: the quantum is at most the class's quantum and at most the
  thread's remaining budget, which is within the budget of its effective class; the thread is then running
  and off every queue.\<close>
theorem dispatch_quantum_bounds:
  assumes "sched_reachable s" "next_dispatch now s = Some (Some d, t)"
  shows "0 < di_quantum_ns d \<and> di_quantum_ns d \<le> cp_quantum_ns (policy s (di_class d)) \<and>
    (\<exists>th. ts_thread t (di_key d) = Some th \<and> th_state th = Running \<and> di_quantum_ns d \<le> th_budget_remaining_ns th \<and>
       th_budget_remaining_ns th \<le> cp_budget_ns (policy s (di_class d))) \<and>
    (\<forall>c. di_key d \<notin> set (ts_queues t c))"
  using sched_reachable_ok [OF assms(1)]
proof (cases rule: next_dispatch_cases [of s now])
  case (run k c th u)
  have ok: "sched_ok (maintain now s)" using maintain_ok sched_reachable_ok [OF assms(1)] by blast
  have cfg: "ts_config (maintain now s) = ts_config s" by (simp add: maintain_def Let_def)
  have "thread_ok (ts_config s) th" using live_thread_ok [OF conjunct1 [OF ok] run(2)] cfg by simp
  then have "0 < th_budget_remaining_ns th" "th_budget_remaining_ns th \<le> cp_budget_ns (policy s c)"
    using run(3,4) by (auto simp: thread_ok_def policy_def)
  moreover have "0 < cp_quantum_ns (policy s c)"
    using budget_positive(3) reachable_inv [OF assms(1)] by (auto simp: sched_inv_def)
  moreover have "ts_thread u k = Some (start_running (policy s c) now th)"
    using run(6) by (simp add: thread_changed_def)
  moreover have "k \<notin> set (ts_queues u c')" for c' using run(7) [of c'] by (simp add: count_list_0_iff)
  ultimately show ?thesis using run(1) assms(2) by auto
qed (use assms(2) in simp)

theorem dispatch_selects_witness:
  "\<exists>d t. sched_reachable sample_threads \<and> next_dispatch 5 sample_threads = Some (Some d, t) \<and>
     chosen (maintain 5 sample_threads) 5 (di_class d) (di_key d)"
proof -
  obtain d t where d: "next_dispatch 5 sample_threads = Some (Some d, t)" using sample_dispatch by blast
  show ?thesis using dispatch_selects [OF sample_threads_reachable d] sample_threads_reachable d by blast
qed

theorem dispatch_quantum_bounds_witness:
  "\<exists>d t. sched_reachable sample_threads \<and> next_dispatch 5 sample_threads = Some (Some d, t) \<and> 0 < di_quantum_ns d"
proof -
  obtain d t where d: "next_dispatch 5 sample_threads = Some (Some d, t)" using sample_dispatch by blast
  show ?thesis using dispatch_quantum_bounds [OF sample_threads_reachable d] sample_threads_reachable d by blast
qed

lemma dispatch_donations:
  assumes "sched_ok s" "next_dispatch now s = Some (r, t)"
  shows "ts_donations t = filter (\<lambda>d. dc_expires_at_ns d > now) (ts_donations s)"
  using assms(1)
proof (cases rule: next_dispatch_cases [of s now])
  case (run k c th t)
  then show ?thesis using assms(2) by (simp add: thread_changed_def maintain_donations)
qed (use assms(2) in \<open>simp add: maintain_donations\<close>)

text \<open>C26: No thread escapes its authority. In every reachable scheduler, the base class of a thread is one its authority allows,
  and its effective class differs from it only upwards, by a recorded donation of that very class to the thread. A donation that has
  expired keeps its effect only until the next dispatch decision: after \<^verbatim>\<open>next_dispatch\<close> at time \<open>now\<close>, every boosted thread has
  a donation that is still valid at \<open>now\<close>.\<close>
theorem boosts_are_donated:
  assumes "sched_reachable s" "ts_thread s k = Some th"
  shows "allows (th_authority th) (th_base_class th) \<and>
    (th_effective_class th = th_base_class th \<or>
     (th_effective_class th < th_base_class th \<and>
      (\<exists>d \<in> set (ts_donations s). k \<in> set (dc_recipients d) \<and> dc_class d = th_effective_class th))) \<and>
    (\<forall>now r t th'. next_dispatch now s = Some (r, t) \<and> ts_thread t k = Some th' \<and> th_effective_class th' \<noteq> th_base_class th' \<longrightarrow>
       th_effective_class th' < th_base_class th' \<and>
       (\<exists>d \<in> set (ts_donations t). k \<in> set (dc_recipients d) \<and> dc_class d = th_effective_class th' \<and> now < dc_expires_at_ns d))"
proof (intro conjI allI impI)
  note ok = sched_reachable_ok [OF assms(1)]
  show "allows (th_authority th) (th_base_class th)" using ok assms(2) by (auto simp: authority_ok_def admission_def)
  show "th_effective_class th = th_base_class th \<or> (th_effective_class th < th_base_class th \<and>
      (\<exists>d \<in> set (ts_donations s). k \<in> set (dc_recipients d) \<and> dc_class d = th_effective_class th))"
    using boosted_by [OF conjunct1 [OF ok] assms(2)] by blast
next
  fix now r t th'
  assume d: "next_dispatch now s = Some (r, t) \<and> ts_thread t k = Some th' \<and> th_effective_class th' \<noteq> th_base_class th'"
  have ok: "sched_ok t" using next_dispatch_ok [OF sched_reachable_ok [OF assms(1)]] d by blast
  have "ts_donations t = filter (\<lambda>d. dc_expires_at_ns d > now) (ts_donations s)"
    using dispatch_donations [OF sched_reachable_ok [OF assms(1)]] d by blast
  then show "th_effective_class th' < th_base_class th'"
      "\<exists>d \<in> set (ts_donations t). k \<in> set (dc_recipients d) \<and> dc_class d = th_effective_class th' \<and> now < dc_expires_at_ns d"
    using boosted_by [OF conjunct1 [OF ok], of k th'] d by auto
qed

lemma sample_donation: "donate_chain 2 [1] 1000 0 sample_threads = (Inr 1, sample_donated)"
  by (simp add: sample_donated_def donate_chain_def sample_threads_view ts_thread_map_of default_policy_def
      DEFAULT_MAX_DONATION_DEPTH_def DEFAULT_MAX_DONATION_NS_def u64_max_def checked_add_def)

lemma dispatched_live:
  assumes "sched_ok s" "next_dispatch now s = Some (Some d, t)"
  shows "\<exists>th. ts_thread t (di_key d) = Some th"
  using assms(1)
proof (cases rule: next_dispatch_cases [of s now])
  case (run k c th t)
  then show ?thesis using assms(2) by (simp add: thread_changed_def)
qed (use assms(2) in simp)

lemma admission_live: "admission s = admission t \<Longrightarrow> ts_thread s k \<noteq> None \<longleftrightarrow> ts_thread t k \<noteq> None"
  by (metis admission_def option.map_disc_iff)

lemma sample_donated_view:
  "ts_donations sample_donated = [\<lparr>dc_token = 1, dc_root = 2, dc_class = Interactive, dc_expires_at_ns = 1000, dc_recipients = [1]\<rparr>]"
  "admission sample_donated = admission sample_threads"
  by (simp_all add: sample_donated_def donate_chain_def sample_threads_view ts_thread_map_of default_policy_def
      DEFAULT_MAX_DONATION_DEPTH_def DEFAULT_MAX_DONATION_NS_def u64_max_def checked_add_def)

lemma sample_boosted:
  "\<exists>th. ts_thread sample_donated 1 = Some th \<and> th_effective_class th = Interactive \<and> th_base_class th = Background"
proof -
  have "admission sample_donated 1 = admission sample_threads 1" by (simp add: sample_donated_view)
  then obtain th where th: "ts_thread sample_donated 1 = Some th" "th_base_class th = Background"
    by (auto simp: admission_def ts_thread_map_of sample_threads_view)
  moreover have "th_effective_class th = effective_class_for sample_donated 1 (th_base_class th)"
    using reachable_inv [OF sample_donated_reachable] th(1) by (auto simp: sched_inv_def classes_ok_def)
  ultimately show ?thesis by (simp add: effective_class_for_def sample_donated_view higher_def)
qed

theorem boosts_are_donated_witness:
  "\<exists>th. sched_reachable sample_donated \<and> ts_thread sample_donated 1 = Some th \<and> th_effective_class th \<noteq> th_base_class th \<and>
     (\<exists>d \<in> set (ts_donations sample_donated). 1 \<in> set (dc_recipients d) \<and> dc_class d = th_effective_class th)"
proof -
  obtain th where th: "ts_thread sample_donated 1 = Some th" "th_effective_class th = Interactive" "th_base_class th = Background"
    using sample_boosted by blast
  then show ?thesis using boosts_are_donated [OF sample_donated_reachable th(1)] sample_donated_reachable by auto
qed

text \<open>C28: A donation unwinds completely: cancelling the token that \<open>donate_chain\<close> returned, at any later time,
  succeeds, leaves the donations that were there before, and gives every thread back its effective class.\<close>
theorem donation_roundtrip:
  assumes "sched_reachable s" "donate_chain donor chain expires now s = (Inr token, t)"
    and "cancel_donation token later t = (b, u)" "ts_thread s k = Some th"
  shows "b \<and> ts_donations u = ts_donations s \<and>
    (\<exists>th'. ts_thread u k = Some th' \<and> th_base_class th' = th_base_class th \<and> th_effective_class th' = th_effective_class th)"
proof -
  note inv = reachable_inv [OF assms(1)]
  note un = donation_unwinds [OF inv assms(2), of later, unfolded assms(3) fst_conv snd_conv]
  show ?thesis using un effective_same [OF inv un(3,4,2) assms(4)] by blast
qed

theorem donation_roundtrip_witness:
  "\<exists>b u th. sched_reachable sample_threads \<and> donate_chain 2 [1] 1000 0 sample_threads = (Inr 1, sample_donated) \<and>
     cancel_donation 1 7 sample_donated = (b, u) \<and> ts_thread sample_threads 1 = Some th \<and> b"
proof -
  obtain b u where u: "cancel_donation 1 7 sample_donated = (b, u)" by (cases "cancel_donation 1 7 sample_donated")
  obtain th where th: "ts_thread sample_threads 1 = Some th" by (simp add: ts_thread_map_of sample_threads_view)
  show ?thesis using donation_roundtrip [OF sample_threads_reachable sample_donation u th] sample_threads_reachable sample_donation u th by blast
qed

text \<open>C30: \<open>donate_chain\<close> accepts only bounded, acyclic chains of live threads: a chain that is not empty, is within
  the configured depth, which is at most 8, holds neither the donor nor a thread twice, and lasts no longer than
  the configured time. Every refusal leaves the scheduler unchanged.\<close>
theorem donate_chain_checked:
  assumes "sched_reachable s" "donate_chain donor chain expires now s = (r, t)"
  shows "case r of
      Inl e \<Rightarrow> t = s
    | Inr token \<Rightarrow> chain \<noteq> [] \<and> length chain \<le> sc_max_donation_depth (ts_config s) \<and>
        sc_max_donation_depth (ts_config s) \<le> DEFAULT_MAX_DONATION_DEPTH \<and> distinct (donor # chain) \<and>
        (\<forall>k \<in> set (donor # chain). ts_thread s k \<noteq> None) \<and> now < expires \<and>
        expires \<le> now + sc_max_donation_ns (ts_config s) \<and> donor \<notin> dc_root ` set (ts_donations s)"
proof (cases r)
  case (Inl e)
  then show ?thesis using assms(2) donate_chain_Inl by fastforce
next
  case (Inr token)
  have "config_validate (ts_config s) = Inr ()" using reachable_inv [OF assms(1)] by (simp add: sched_inv_def table_ok_def)
  then have "sc_max_donation_depth (ts_config s) \<le> DEFAULT_MAX_DONATION_DEPTH"
    by (auto simp: config_validate_def split: if_splits)
  moreover from assms(2) [unfolded Inr] have "chain \<noteq> [] \<and> length chain \<le> sc_max_donation_depth (ts_config s) \<and>
      distinct (donor # chain) \<and> (\<forall>k \<in> set (donor # chain). ts_thread s k \<noteq> None) \<and> now < expires \<and>
      expires \<le> now + sc_max_donation_ns (ts_config s) \<and> donor \<notin> dc_root ` set (ts_donations s)"
    by (rule donate_chain_Inr) auto
  ultimately show ?thesis using Inr by simp
qed

theorem donate_chain_checked_witness:
  "sched_reachable sample_threads \<and> donate_chain 2 [1] 1000 0 sample_threads = (Inr 1, sample_donated) \<and>
   distinct [2 :: nat, 1]"
  using donate_chain_checked [OF sample_threads_reachable sample_donation] sample_threads_reachable sample_donation by simp

text \<open>C29: The unwinding loop of \<open>cancel_donations_touching\<close> terminates with the exact result: the chains rooted at
  the thread or passing through it are gone, all others remain, and the count is the number removed.\<close>
theorem cancel_touching_unwinds:
  assumes "sched_reachable s" "length (ts_donations s) \<le> u64_max"
  shows "mset (ts_donations (snd (cancel_donations_touching key now s)))
           = filter_mset (\<lambda>d. \<not> touches key d) (mset (ts_donations s)) \<and>
         fst (cancel_donations_touching key now s) = length (filter (touches key) (ts_donations s))"
proof -
  have "0 + length (filter (touches key) (ts_donations s)) \<le> u64_max"
    using assms(2) length_filter_le [of "touches key" "ts_donations s"] by linarith
  from cancel_touching_exact [OF reachable_inv [OF assms(1)] this] show ?thesis
    by (simp add: cancel_donations_touching_def)
qed

theorem cancel_touching_unwinds_witness:
  "sched_reachable sample_threads \<and> length (ts_donations sample_threads) \<le> u64_max \<and>
   fst (cancel_donations_touching 1 7 sample_threads) = 0"
  using cancel_touching_unwinds [OF sample_threads_reachable, of 1 7] sample_threads_reachable
  by (simp add: sample_threads_view)

text \<open>C27: Budgets are enforced: a throttled thread stays off the CPU until the end of its period under the class
  its unexpired donations give it, and then it is runnable again with that class's full budget.\<close>
theorem throttled_until_replenished:
  assumes "sched_reachable s" "ts_thread s k = Some th" "th_state th = Throttled"
    and "e = effective_class_for (unexpired now s) k (th_base_class th)"
  shows "if now < saturating_add (th_period_started_ns th) (cp_period_ns (policy s e))
    then \<forall>d t. next_dispatch now s = Some (Some d, t) \<longrightarrow> di_key d \<noteq> k
    else (\<exists>th'. ts_thread (maintain now s) k = Some th' \<and> th_state th' = Runnable \<and>
            th_budget_remaining_ns th' = cp_budget_ns (policy s e))"
proof -
  have pol: "policy (unexpired now s) = policy s" by (rule policy_frame) (simp add: unexpired_def)
  have view: "ts_thread (maintain now s) k = Some (replenish (policy s e) e now th)"
    using maintain_view [OF reachable_inv [OF assms(1)], of now k] assms(2,4) pol by (simp add: maintained_def Let_def)
  show ?thesis
  proof (cases "now < saturating_add (th_period_started_ns th) (cp_period_ns (policy s e))")
    case True
    then have "th_state (replenish (policy s e) e now th) \<noteq> Runnable" using assms(3) by (simp add: replenish_state)
    then have "\<not> runs_in c (ts_thread (maintain now s) k)" for c using view by simp
    moreover have "runs_in (di_class d) (ts_thread (maintain now s) (di_key d))" if "next_dispatch now s = Some (Some d, t)" for d t
      using sched_reachable_ok [OF assms(1)]
      by (cases rule: next_dispatch_cases [of s now]) (use that in auto)
    ultimately show ?thesis using True by (metis (full_types))
  next
    case False
    then have "th_state (replenish (policy s e) e now th) = Runnable"
      "th_budget_remaining_ns (replenish (policy s e) e now th) = cp_budget_ns (policy s e)"
      using assms(3) by (auto simp: replenish_state replenish_def Let_def split: option.split)
    then show ?thesis using False view by simp
  qed
qed

definition sample_throttled :: "nat thread_scheduler" where
  "sample_throttled = snd (finish_dispatch 2 16000000 20 Stay_Runnable (snd (the (next_dispatch 5 sample_threads))))"

lemma sample_throttled_view:
  "sched_reachable sample_throttled" "\<exists>th. ts_thread sample_throttled 2 = Some th \<and> th_state th = Throttled"
proof -
  obtain t where t: "next_dispatch 5 sample_threads = Some (Some \<lparr>di_key = 2, di_class = Interactive, di_quantum_ns = 2000000\<rparr>, t)"
    and th: "\<exists>th. ts_thread t 2 = Some th \<and> th_state th = Running \<and> th_budget_remaining_ns th = 16000000"
    unfolding next_dispatch_def sample_maintain
    by (simp add: select_next_def select_deadline_thread_def queued_pairs_def ALL_CLASSES_def select_class_def AGING_ORDER_def
        sample_queues sample_threads_view ts_thread_map_of policy_def default_policy_def set_queue_def thread_mut_def thread_index_def)
  show "sched_reachable sample_throttled"
    unfolding sample_throttled_def t option.sel snd_conv
    by (rule reach_step [OF reach_step [OF sample_threads_reachable step_dispatch [OF t]] step_finish])
  show "\<exists>th. ts_thread sample_throttled 2 = Some th \<and> th_state th = Throttled"
    using th by (auto simp: sample_throttled_def t finish_dispatch_def charge_def Let_def)
qed

theorem throttled_until_replenished_witness:
  "\<exists>th e. sched_reachable sample_throttled \<and> ts_thread sample_throttled 2 = Some th \<and> th_state th = Throttled \<and>
     e = effective_class_for (unexpired 30 sample_throttled) 2 (th_base_class th) \<and>
     (if 30 < saturating_add (th_period_started_ns th) (cp_period_ns (policy sample_throttled e))
      then \<forall>d t. next_dispatch 30 sample_throttled = Some (Some d, t) \<longrightarrow> di_key d \<noteq> 2
      else (\<exists>th'. ts_thread (maintain 30 sample_throttled) 2 = Some th' \<and> th_state th' = Runnable \<and>
            th_budget_remaining_ns th' = cp_budget_ns (policy sample_throttled e)))"
proof -
  obtain th where th: "ts_thread sample_throttled 2 = Some th" "th_state th = Throttled" using sample_throttled_view(2) by blast
  show ?thesis using throttled_until_replenished [OF sample_throttled_view(1) th refl, of 30] sample_throttled_view(1) th by blast
qed

text \<open>A removed thread leaves nothing behind: its key is unknown, stands in no queue, and no donation is
  rooted at it or passes through it.\<close>
lemma remove_thread_erases:
  assumes "sched_reachable s" "remove_thread key now s = (Inr m, t)"
  shows "ts_thread t key = None \<and> (\<forall>c. key \<notin> set (ts_queues t c)) \<and> (\<forall>d \<in> set (ts_donations t). \<not> touches key d)"
proof -
  obtain i where i: "thread_index key s = Inr i"
    using assms(2) by (cases "thread_index key s") (auto simp: remove_thread_def)
  define s1 where "s1 = snd (cancel_donations_touching key now s)"
  have t: "t = (remove_from_all_queues key s1)\<lparr>ts_threads := remove_at i (ts_threads s1)\<rparr>"
    using assms(2) i by (auto simp: remove_thread_def Let_def s1_def)
  have inv: "sched_inv {} s1"
    using reachable_inv [OF assms(1)] by (simp add: s1_def cancel_donations_touching_def cancel_touching_inv)
  have keys: "map fst (ts_threads s1) = map fst (ts_threads s)"
    and free: "\<forall>d \<in> set (ts_donations s1). \<not> touches key d"
    using cancel_touching_frame [of key now 0 s] by (simp_all add: s1_def cancel_donations_touching_def)
  have "thread_index key s1 = Inr i" using i thread_index_keys [OF keys] by simp
  note i' = thread_index_SomeD [OF this]
  have "distinct (map fst (ts_threads s1))" using inv by (simp add: sched_inv_def table_ok_def strict_sorted_iff)
  from remove_at_map_of [OF this i'(1)] show ?thesis using free by (simp add: t ts_thread_map_of i'(2))
qed

end
