(* ===== verification/Frame_Allocator.thy ===== *)
theory Frame_Allocator
  imports Ginkgo_Prelude
begin

text \<open>
  The physical frame allocator of \<^verbatim>\<open>crates/ginkgo-kernel/src/memory.rs\<close>: the ownership ledger, the
  validation of the boot memory map, and allocation, reservation and reclamation of frames. Addresses
  are \<^verbatim>\<open>u64\<close> values, modelled as naturals, and a \<^verbatim>\<open>PhysFrame\<close> is its start address. The two
  constructors of the \<^verbatim>\<open>x86_64\<close> crate that turn an address into a frame are a parameter
  (\<open>phys_api\<close>). An operation that may panic, by \<^verbatim>\<open>expect\<close>, \<^verbatim>\<open>unreachable!\<close> or
  \<^verbatim>\<open>debug_assert\<close>, returns \<^verbatim>\<open>None\<close> when it does. \<open>al k\<close> tells whether the \<open>k\<close>-th fallible vector
  reservation of an operation succeeds.
\<close>

section \<open>Addresses and errors\<close>

definition PAGE_SIZE :: nat where "PAGE_SIZE = 4096"
definition DMA_32BIT_ADDRESS_LIMIT :: nat where "DMA_32BIT_ADDRESS_LIMIT = 2 ^ 32"
definition MAX_PHYSICAL_ADDRESS_BITS :: nat where "MAX_PHYSICAL_ADDRESS_BITS = 52"

definition physical_address_space_size :: "nat \<Rightarrow> nat option" where
  "physical_address_space_size bits =
     (if bits < 12 \<or> bits > MAX_PHYSICAL_ADDRESS_BITS then None else Some (2 ^ bits))"

datatype memory_map_error = EntryCountTooLarge | NullEntries | MisalignedEntries | NullEntry nat | MisalignedEntry nat

record memory_map_entry =
  me_base :: nat
  me_length :: nat
  me_entry_type :: nat

definition MEMORY_MAP_USABLE :: nat where "MEMORY_MAP_USABLE = 0"

text \<open>What the boot loader's response yields: an error, or the entries with an error for each unreadable one.\<close>

type_synonym memory_map = "memory_map_error + (memory_map_error + memory_map_entry) list"

datatype frame_allocator_error =
    InvalidMemoryMap memory_map_error
  | InvalidPhysicalAddressBits nat
  | InvalidUsableRegion nat nat
  | UsableRegionOverflow nat nat
  | PhysicalAddressTooLarge nat nat
  | ReservedFrame nat
  | NeverAllocatedFrame nat
  | DuplicateFrameInBatch nat
  | DoubleFree nat
  | OwnershipTrackingAllocationFailed
  | UsableFrameCountOverflow
  | OverlappingMemoryMapRegions nat nat

type_synonym 'a fa = "frame_allocator_error + 'a"

text \<open>\<^verbatim>\<open>PhysAddr::try_new\<close> and \<^verbatim>\<open>PhysFrame::from_start_address\<close>: whether they accept an address.\<close>

record phys_api =
  pa_try_new :: "nat \<Rightarrow> bool"
  pa_from_start_address :: "nat \<Rightarrow> bool"

definition frame_from_address :: "phys_api \<Rightarrow> nat \<Rightarrow> nat fa" where
  "frame_from_address api address =
     (if \<not> pa_try_new api address then Inl (PhysicalAddressTooLarge address PAGE_SIZE)
      else if \<not> pa_from_start_address api address then Inl (InvalidUsableRegion address PAGE_SIZE)
      else Inr address)"

section \<open>The ownership ledger\<close>

datatype ownership_state = Allocated | Free | Reserved

record ownership_record =
  or_address :: nat
  or_state :: ownership_state
  or_dma_low :: bool

text \<open>\<open>ol_free_capacity\<close> is the capacity the free list is guaranteed to have.\<close>

record ownership_ledger =
  ol_records :: "ownership_record list"
  ol_free :: "nat list"
  ol_free_capacity :: nat
  ol_live_allocated :: nat
  ol_fresh_issued :: nat
  ol_dma_low_live :: nat
  ol_above_4g_live :: nat

definition ledger_new :: ownership_ledger where
  "ledger_new =
     \<lparr>ol_records = [], ol_free = [], ol_free_capacity = 0, ol_live_allocated = 0, ol_fresh_issued = 0,
      ol_dma_low_live = 0, ol_above_4g_live = 0\<rparr>"

definition reserved_count :: "ownership_ledger \<Rightarrow> nat" where
  "reserved_count l = length (filter (\<lambda>r. or_state r = Reserved) (ol_records l))"

definition ledger_find :: "ownership_ledger \<Rightarrow> nat \<Rightarrow> nat option" where
  "ledger_find l address = position (\<lambda>r. or_address r = address) (ol_records l)"

definition reserve_new_record :: "(nat \<Rightarrow> bool) \<Rightarrow> ownership_ledger \<Rightarrow> ownership_ledger fa" where
  "reserve_new_record al l =
     (if \<not> al 0 then Inl OwnershipTrackingAllocationFailed
      else case checked_add (length (ol_records l)) 1 of
        None \<Rightarrow> Inl OwnershipTrackingAllocationFailed
      | Some eventual_free_count \<Rightarrow>
          if ol_free_capacity l < eventual_free_count then
            if al 1 then Inr (l\<lparr>ol_free_capacity := eventual_free_count\<rparr>) else Inl OwnershipTrackingAllocationFailed
          else Inr l)"

definition claim_fresh :: "(nat \<Rightarrow> bool) \<Rightarrow> nat \<Rightarrow> ownership_ledger \<Rightarrow> bool fa \<times> ownership_ledger" where
  "claim_fresh al address l =
     (if ledger_find l address \<noteq> None then (Inr False, l)
      else case reserve_new_record al l of
        Inl e \<Rightarrow> (Inl e, l)
      | Inr l1 \<Rightarrow>
          (Inr True,
           l1\<lparr>ol_records := ol_records l1 @ [\<lparr>or_address = address, or_state = Allocated, or_dma_low = False\<rparr>],
              ol_live_allocated := saturating_add (ol_live_allocated l1) 1,
              ol_fresh_issued := saturating_add (ol_fresh_issued l1) 1,
              ol_above_4g_live := (if address \<ge> DMA_32BIT_ADDRESS_LIMIT then saturating_add (ol_above_4g_live l1) 1
                                   else ol_above_4g_live l1)\<rparr>))"

definition set_record :: "nat \<Rightarrow> ownership_state \<Rightarrow> bool \<Rightarrow> ownership_ledger \<Rightarrow> ownership_ledger" where
  "set_record index st low l =
     l\<lparr>ol_records := (ol_records l)[index := (ol_records l ! index)\<lparr>or_state := st, or_dma_low := low\<rparr>]\<rparr>"

definition mark_reclaimed_allocated :: "nat \<Rightarrow> ownership_ledger \<Rightarrow> ownership_ledger option" where
  "mark_reclaimed_allocated address l =
     (case ledger_find l address of
        None \<Rightarrow> None
      | Some index \<Rightarrow>
          if or_state (ol_records l ! index) \<noteq> Free then None
          else
            let l1 = set_record index Allocated False l
            in Some (l1\<lparr>ol_live_allocated := saturating_add (ol_live_allocated l1) 1,
                        ol_above_4g_live := (if address \<ge> DMA_32BIT_ADDRESS_LIMIT then saturating_add (ol_above_4g_live l1) 1
                                             else ol_above_4g_live l1)\<rparr>))"

definition claim_reclaimed_at :: "nat option \<Rightarrow> ownership_ledger \<Rightarrow> (nat option \<times> ownership_ledger) option" where
  "claim_reclaimed_at free_index l =
     (case free_index of
        None \<Rightarrow> Some (None, l)
      | Some i \<Rightarrow>
          let address = ol_free l ! i
          in map_option (\<lambda>l'. (Some address, l'))
               (mark_reclaimed_allocated address (l\<lparr>ol_free := swap_remove i (ol_free l)\<rparr>)))"

definition fits_below :: "nat \<Rightarrow> nat \<Rightarrow> nat \<Rightarrow> bool" where
  "fits_below start byte_len max_address_exclusive =
     (case checked_add start byte_len of None \<Rightarrow> False | Some e \<Rightarrow> e \<le> max_address_exclusive)"

definition claim_reclaimed_below :: "nat \<Rightarrow> ownership_ledger \<Rightarrow> (nat option \<times> ownership_ledger) option" where
  "claim_reclaimed_below max_address_exclusive l =
     claim_reclaimed_at (rposition (\<lambda>address. fits_below address PAGE_SIZE max_address_exclusive) (ol_free l)) l"

definition claim_reclaimed_at_or_above :: "nat \<Rightarrow> ownership_ledger \<Rightarrow> (nat option \<times> ownership_ledger) option" where
  "claim_reclaimed_at_or_above min_address l =
     claim_reclaimed_at (rposition (\<lambda>address. address \<ge> min_address) (ol_free l)) l"

definition page_run :: "nat \<Rightarrow> nat \<Rightarrow> nat list" where
  "page_run start pages = map (\<lambda>index. start + index * PAGE_SIZE) [0..<pages]"

fun claim_run :: "nat list \<Rightarrow> ownership_ledger \<Rightarrow> ownership_ledger option" where
  "claim_run [] l = Some l"
| "claim_run (address # rest) l =
     (case position (\<lambda>candidate. candidate = address) (ol_free l) of
        None \<Rightarrow> None
      | Some free_index \<Rightarrow>
          case mark_reclaimed_allocated address (l\<lparr>ol_free := swap_remove free_index (ol_free l)\<rparr>) of
            None \<Rightarrow> None
          | Some l' \<Rightarrow> claim_run rest l')"

definition claim_reclaimed_range_below :: "nat \<Rightarrow> nat \<Rightarrow> ownership_ledger \<Rightarrow> (nat option \<times> ownership_ledger) option" where
  "claim_reclaimed_range_below pages max_address_exclusive l =
     (case checked_mul pages PAGE_SIZE of
        None \<Rightarrow> Some (None, l)
      | Some byte_len \<Rightarrow>
          case find (\<lambda>start. fits_below start byte_len max_address_exclusive \<and>
                             list_all (\<lambda>address. address \<in> set (ol_free l)) (page_run start pages)) (ol_free l) of
            None \<Rightarrow> Some (None, l)
          | Some start \<Rightarrow> map_option (\<lambda>l'. (Some start, l')) (claim_run (page_run start pages) l))"

definition ledger_reserve :: "(nat \<Rightarrow> bool) \<Rightarrow> nat \<Rightarrow> ownership_ledger \<Rightarrow> (bool fa \<times> ownership_ledger) option" where
  "ledger_reserve al address l =
     (case ledger_find l address of
        Some index \<Rightarrow>
          (case or_state (ol_records l ! index) of
             Reserved \<Rightarrow> Some (Inr False, l)
           | Allocated \<Rightarrow>
               let l1 = l\<lparr>ol_live_allocated := ol_live_allocated l - 1,
                          ol_above_4g_live := (if address \<ge> DMA_32BIT_ADDRESS_LIMIT then ol_above_4g_live l - 1
                                               else ol_above_4g_live l),
                          ol_dma_low_live := (if or_dma_low (ol_records l ! index) then ol_dma_low_live l - 1
                                              else ol_dma_low_live l)\<rparr>
               in Some (Inr True, set_record index Reserved False l1)
           | Free \<Rightarrow>
               (case position (\<lambda>free_address. free_address = address) (ol_free l) of
                  None \<Rightarrow> None
                | Some free_index \<Rightarrow>
                    Some (Inr True, set_record index Reserved False (l\<lparr>ol_free := swap_remove free_index (ol_free l)\<rparr>))))
      | None \<Rightarrow>
          (case reserve_new_record al l of
             Inl e \<Rightarrow> Some (Inl e, l)
           | Inr l1 \<Rightarrow>
               Some (Inr True,
                     l1\<lparr>ol_records := ol_records l1 @ [\<lparr>or_address = address, or_state = Reserved, or_dma_low = False\<rparr>]\<rparr>)))"

fun check_duplicates :: "nat list \<Rightarrow> nat list \<Rightarrow> unit fa" where
  "check_duplicates prior [] = Inr ()"
| "check_duplicates prior (address # rest) =
     (if address \<in> set prior then Inl (DuplicateFrameInBatch address) else check_duplicates (prior @ [address]) rest)"

fun check_live :: "ownership_ledger \<Rightarrow> nat list \<Rightarrow> unit fa" where
  "check_live l [] = Inr ()"
| "check_live l (address # rest) =
     (case ledger_find l address of
        None \<Rightarrow> Inl (NeverAllocatedFrame address)
      | Some index \<Rightarrow>
          (case or_state (ol_records l ! index) of
             Allocated \<Rightarrow> check_live l rest
           | Free \<Rightarrow> Inl (DoubleFree address)
           | Reserved \<Rightarrow> Inl (ReservedFrame address)))"

text \<open>The third loop, with the two counts it keeps.\<close>

fun free_all :: "nat list \<Rightarrow> nat \<Rightarrow> nat \<Rightarrow> ownership_ledger \<Rightarrow> (nat \<times> nat \<times> ownership_ledger) option" where
  "free_all [] dma_low_reclaimed above_4g_reclaimed l = Some (dma_low_reclaimed, above_4g_reclaimed, l)"
| "free_all (address # rest) dma_low_reclaimed above_4g_reclaimed l =
     (case ledger_find l address of
        None \<Rightarrow> None
      | Some index \<Rightarrow>
          let l1 = set_record index Free False l
          in free_all rest
               (if or_dma_low (ol_records l ! index) then saturating_add dma_low_reclaimed 1 else dma_low_reclaimed)
               (if address \<ge> DMA_32BIT_ADDRESS_LIMIT then saturating_add above_4g_reclaimed 1 else above_4g_reclaimed)
               (l1\<lparr>ol_free := ol_free l1 @ [address]\<rparr>))"

definition reclaim_with :: "nat list \<Rightarrow> ownership_ledger \<Rightarrow> (unit fa \<times> ownership_ledger) option" where
  "reclaim_with addresses l =
     (case check_duplicates [] addresses of
        Inl e \<Rightarrow> Some (Inl e, l)
      | Inr _ \<Rightarrow>
          (case check_live l addresses of
             Inl e \<Rightarrow> Some (Inl e, l)
           | Inr _ \<Rightarrow>
               if ol_free_capacity l - length (ol_free l) < length addresses then None
               else map_option (\<lambda>(dma_low_reclaimed, above_4g_reclaimed, l1).
                      (Inr (), l1\<lparr>ol_live_allocated := ol_live_allocated l1 - length addresses,
                                  ol_dma_low_live := ol_dma_low_live l1 - dma_low_reclaimed,
                                  ol_above_4g_live := ol_above_4g_live l1 - above_4g_reclaimed\<rparr>))
                    (free_all addresses 0 0 l)))"

definition mark_dma_low :: "nat \<Rightarrow> ownership_ledger \<Rightarrow> ownership_ledger option" where
  "mark_dma_low address l =
     (case ledger_find l address of
        None \<Rightarrow> Some l
      | Some index \<Rightarrow>
          let r = ol_records l ! index
          in if or_state r \<noteq> Allocated then None
             else if or_dma_low r then Some l
             else Some ((set_record index (or_state r) True l)\<lparr>ol_dma_low_live := saturating_add (ol_dma_low_live l) 1\<rparr>))"

section \<open>Usable regions\<close>

record usable_region =
  ur_base :: nat
  ur_end :: nat
  ur_next :: nat
  ur_high_next :: nat
  ur_at_or_above_next :: nat

definition region_contains :: "usable_region \<Rightarrow> nat \<Rightarrow> bool" where
  "region_contains r address \<longleftrightarrow> address \<ge> ur_base r \<and> address < ur_end r"

definition frames_below_limit :: "nat \<Rightarrow> nat \<Rightarrow> nat \<Rightarrow> nat" where
  "frames_below_limit base e limit = (min e limit - base) div PAGE_SIZE"

record memory_map_range =
  mr_base :: nat
  mr_end :: nat
  mr_usable :: bool

text \<open>The first loop of \<^verbatim>\<open>validate_usable_regions\<close>; \<open>k\<close> counts the vector reservations.\<close>

fun collect_regions ::
  "(nat \<Rightarrow> bool) \<Rightarrow> nat \<Rightarrow> nat \<Rightarrow> (memory_map_error + memory_map_entry) list \<Rightarrow> memory_map_range list \<Rightarrow> usable_region list
     \<Rightarrow> (memory_map_range list \<times> usable_region list) fa" where
  "collect_regions al k space [] all_ranges regions = Inr (all_ranges, regions)"
| "collect_regions al k space (Inl e # es) all_ranges regions = Inl (InvalidMemoryMap e)"
| "collect_regions al k space (Inr entry # es) all_ranges regions =
     (if me_length entry = 0 then collect_regions al k space es all_ranges regions
      else case checked_add (me_base entry) (me_length entry) of
        None \<Rightarrow> Inl (UsableRegionOverflow (me_base entry) (me_length entry))
      | Some e \<Rightarrow>
          if \<not> al k then Inl OwnershipTrackingAllocationFailed
          else
            let all_ranges' = all_ranges @
                  [\<lparr>mr_base = me_base entry, mr_end = e, mr_usable = (me_entry_type entry = MEMORY_MAP_USABLE)\<rparr>]
            in if me_entry_type entry \<noteq> MEMORY_MAP_USABLE then collect_regions al (k + 1) space es all_ranges' regions
               else if me_base entry mod PAGE_SIZE \<noteq> 0 \<or> me_length entry mod PAGE_SIZE \<noteq> 0 then
                 Inl (InvalidUsableRegion (me_base entry) (me_length entry))
               else if e > space then Inl (PhysicalAddressTooLarge (me_base entry) (me_length entry))
               else if \<not> al (k + 1) then Inl OwnershipTrackingAllocationFailed
               else collect_regions al (k + 2) space es all_ranges'
                      (regions @ [\<lparr>ur_base = me_base entry, ur_end = e, ur_next = me_base entry,
                                   ur_high_next = max (me_base entry) DMA_32BIT_ADDRESS_LIMIT,
                                   ur_at_or_above_next = me_base entry\<rparr>]))"

fun overlap_with :: "memory_map_range \<Rightarrow> memory_map_range list \<Rightarrow> frame_allocator_error option" where
  "overlap_with first [] = None"
| "overlap_with first (second # rest) =
     (if mr_base second \<ge> mr_end first then None
      else if mr_usable first \<or> mr_usable second then
        let (usable, other) = (if mr_usable first then (first, second) else (second, first))
        in Some (OverlappingMemoryMapRegions (mr_base usable) (mr_base other))
      else overlap_with first rest)"

fun check_overlaps :: "memory_map_range list \<Rightarrow> unit fa" where
  "check_overlaps [] = Inr ()"
| "check_overlaps (first # rest) = (case overlap_with first rest of Some e \<Rightarrow> Inl e | None \<Rightarrow> check_overlaps rest)"

fun count_regions :: "usable_region list \<Rightarrow> nat \<Rightarrow> nat \<Rightarrow> nat \<Rightarrow> (nat \<times> nat \<times> nat) fa" where
  "count_regions [] frames below highest = Inr (frames, below, highest)"
| "count_regions (r # rs) frames below highest =
     (case checked_add frames ((ur_end r - ur_base r) div PAGE_SIZE) of
        None \<Rightarrow> Inl UsableFrameCountOverflow
      | Some frames' \<Rightarrow>
          case checked_add below (frames_below_limit (ur_base r) (ur_end r) DMA_32BIT_ADDRESS_LIMIT) of
            None \<Rightarrow> Inl UsableFrameCountOverflow
          | Some below' \<Rightarrow> count_regions rs frames' below' (max highest (ur_end r - PAGE_SIZE)))"

text \<open>
  Ranges of equal base may be sorted either way; they overlap, and the outcome is decided by the overlap
  check before the order can matter to the regions.
\<close>

definition validate_usable_regions ::
  "(nat \<Rightarrow> bool) \<Rightarrow> memory_map \<Rightarrow> nat \<Rightarrow> (usable_region list \<times> nat \<times> nat \<times> nat \<times> nat) fa" where
  "validate_usable_regions al memory_map space =
     (case memory_map of
        Inl e \<Rightarrow> Inl (InvalidMemoryMap e)
      | Inr entries \<Rightarrow>
          case collect_regions al 0 space entries [] [] of
            Inl e \<Rightarrow> Inl e
          | Inr (all_ranges, regions) \<Rightarrow>
              case check_overlaps (sort_key mr_base all_ranges) of
                Inl e \<Rightarrow> Inl e
              | Inr _ \<Rightarrow>
                  let sorted_regions = sort_key ur_base regions
                  in case count_regions sorted_regions 0 0 0 of
                       Inl e \<Rightarrow> Inl e
                     | Inr (frames, below, highest) \<Rightarrow> Inr (sorted_regions, frames, below, frames - below, highest))"

section \<open>The allocator\<close>

record frame_allocator =
  fa_physical_address_space_size :: nat
  fa_usable_regions :: "usable_region list"
  fa_total_eligible_frames :: nat
  fa_below_4g_frames :: nat
  fa_above_4g_frames :: nat
  fa_highest_usable_address :: nat
  fa_highest_issued_address :: nat
  fa_fresh_remaining_frames :: nat
  fa_reserved_eligible_frames :: nat
  fa_dma_low_allocations :: nat
  fa_dma_low_failures :: nat
  fa_allocation_failures :: nat
  fa_ownership :: ownership_ledger
  fa_error :: "frame_allocator_error option"

definition allocator_new :: "(nat \<Rightarrow> bool) \<Rightarrow> memory_map \<Rightarrow> nat \<Rightarrow> frame_allocator fa" where
  "allocator_new al memory_map bits =
     (case physical_address_space_size bits of
        None \<Rightarrow> Inl (InvalidPhysicalAddressBits bits)
      | Some space \<Rightarrow>
          case validate_usable_regions al memory_map space of
            Inl e \<Rightarrow> Inl e
          | Inr (usable_regions, frames, below_4g, above_4g, highest) \<Rightarrow>
              Inr \<lparr>fa_physical_address_space_size = space, fa_usable_regions = usable_regions,
                   fa_total_eligible_frames = frames, fa_below_4g_frames = below_4g, fa_above_4g_frames = above_4g,
                   fa_highest_usable_address = highest, fa_highest_issued_address = 0,
                   fa_fresh_remaining_frames = frames, fa_reserved_eligible_frames = 0, fa_dma_low_allocations = 0,
                   fa_dma_low_failures = 0, fa_allocation_failures = 0, fa_ownership = ledger_new, fa_error = None\<rparr>)"

record frame_allocator_stats =
  fs_total_eligible_frames :: nat
  fs_total_eligible_bytes :: nat
  fs_below_4g_frames :: nat
  fs_above_4g_frames :: nat
  fs_highest_usable_address :: nat
  fs_highest_issued_address :: nat
  fs_fresh_issued_frames :: nat
  fs_fresh_remaining_frames :: nat
  fs_available_frames :: nat
  fs_available_bytes :: nat
  fs_live_allocated_frames :: nat
  fs_above_4g_live_frames :: nat
  fs_reclaimed_free_frames :: nat
  fs_reserved_eligible_frames :: nat
  fs_dma_low_allocations :: nat
  fs_dma_low_live_frames :: nat
  fs_dma_low_failures :: nat
  fs_allocation_failures :: nat

definition allocator_stats :: "frame_allocator \<Rightarrow> frame_allocator_stats" where
  "allocator_stats a =
     (let o' = fa_ownership a;
          reclaimed_free_frames = length (ol_free o');
          available_frames = saturating_add (fa_fresh_remaining_frames a) reclaimed_free_frames
      in \<lparr>fs_total_eligible_frames = fa_total_eligible_frames a,
          fs_total_eligible_bytes = saturating_mul (fa_total_eligible_frames a) PAGE_SIZE,
          fs_below_4g_frames = fa_below_4g_frames a, fs_above_4g_frames = fa_above_4g_frames a,
          fs_highest_usable_address = fa_highest_usable_address a, fs_highest_issued_address = fa_highest_issued_address a,
          fs_fresh_issued_frames = ol_fresh_issued o', fs_fresh_remaining_frames = fa_fresh_remaining_frames a,
          fs_available_frames = available_frames, fs_available_bytes = saturating_mul available_frames PAGE_SIZE,
          fs_live_allocated_frames = ol_live_allocated o', fs_above_4g_live_frames = ol_above_4g_live o',
          fs_reclaimed_free_frames = reclaimed_free_frames,
          fs_reserved_eligible_frames = fa_reserved_eligible_frames a, fs_dma_low_allocations = fa_dma_low_allocations a,
          fs_dma_low_live_frames = ol_dma_low_live o', fs_dma_low_failures = fa_dma_low_failures a,
          fs_allocation_failures = fa_allocation_failures a\<rparr>)"

definition available_frames :: "frame_allocator \<Rightarrow> nat" where
  "available_frames a = saturating_add (fa_fresh_remaining_frames a) (length (ol_free (fa_ownership a)))"

definition eligible_region :: "frame_allocator \<Rightarrow> nat \<Rightarrow> usable_region option" where
  "eligible_region a address = find (\<lambda>r. region_contains r address) (fa_usable_regions a)"

definition reserve_frame :: "(nat \<Rightarrow> bool) \<Rightarrow> nat \<Rightarrow> frame_allocator \<Rightarrow> (bool fa \<times> frame_allocator) option" where
  "reserve_frame al address a =
     (let was_tracked = ledger_find (fa_ownership a) address \<noteq> None;
          was_fresh = (case eligible_region a address of None \<Rightarrow> False | Some r \<Rightarrow> address \<ge> ur_next r);
          eligible = eligible_region a address \<noteq> None
      in case ledger_reserve al address (fa_ownership a) of
           None \<Rightarrow> None
         | Some (Inl e, l) \<Rightarrow> Some (Inl e, a\<lparr>fa_ownership := l\<rparr>)
         | Some (Inr changed, l) \<Rightarrow>
             Some (Inr changed,
                   if changed \<and> eligible then
                     a\<lparr>fa_ownership := l,
                       fa_reserved_eligible_frames := saturating_add (fa_reserved_eligible_frames a) 1,
                       fa_fresh_remaining_frames :=
                         (if \<not> was_tracked \<and> was_fresh then fa_fresh_remaining_frames a - 1 else fa_fresh_remaining_frames a)\<rparr>
                   else a\<lparr>fa_ownership := l\<rparr>))"

definition deallocate_frames :: "nat list \<Rightarrow> frame_allocator \<Rightarrow> (unit fa \<times> frame_allocator) option" where
  "deallocate_frames frames a =
     map_option (\<lambda>(r, l). (r, a\<lparr>fa_ownership := l\<rparr>)) (reclaim_with frames (fa_ownership a))"

definition deallocate_frame :: "nat \<Rightarrow> frame_allocator \<Rightarrow> (unit fa \<times> frame_allocator) option" where
  "deallocate_frame frame a = deallocate_frames [frame] a"

definition fa_fail :: "frame_allocator_error \<Rightarrow> frame_allocator \<Rightarrow> 'a fa \<times> frame_allocator" where
  "fa_fail e a = (Inl e, a\<lparr>fa_error := Some e\<rparr>)"

text \<open>\<open>update_region P f\<close> updates the first region that satisfies \<open>P\<close>, as \<^verbatim>\<open>iter_mut().find\<close> gives it.\<close>

fun update_region :: "(usable_region \<Rightarrow> bool) \<Rightarrow> (usable_region \<Rightarrow> usable_region) \<Rightarrow> usable_region list \<Rightarrow> usable_region list option" where
  "update_region P f [] = None"
| "update_region P f (r # rs) = (if P r then Some (f r # rs) else map_option (\<lambda>rs'. r # rs') (update_region P f rs))"

definition advance_at_or_above_cursor :: "nat \<Rightarrow> frame_allocator \<Rightarrow> frame_allocator" where
  "advance_at_or_above_cursor address a =
     (case update_region (\<lambda>r. region_contains r address)
             (\<lambda>r. r\<lparr>ur_at_or_above_next := address + PAGE_SIZE,
                    ur_high_next := (if ur_high_next r = address then address + PAGE_SIZE else ur_high_next r)\<rparr>)
             (fa_usable_regions a) of
        None \<Rightarrow> a
      | Some rs \<Rightarrow> a\<lparr>fa_usable_regions := rs\<rparr>)"

function find_unowned :: "ownership_ledger \<Rightarrow> nat \<Rightarrow> nat \<Rightarrow> nat option" where
  "find_unowned l address e =
     (if address < e then
        if ledger_find l address = None then Some address
        else case checked_add address PAGE_SIZE of None \<Rightarrow> None | Some address' \<Rightarrow> find_unowned l address' e
      else None)"
  by pat_completeness auto

termination
  by (relation "measure (\<lambda>(_, address, e). e - address)") (auto simp: PAGE_SIZE_def)

declare find_unowned.simps [simp del]

definition region_candidate :: "ownership_ledger \<Rightarrow> nat \<Rightarrow> usable_region \<Rightarrow> nat option" where
  "region_candidate l min_address r =
     (let lower = max (ur_base r) min_address
      in if lower \<ge> ur_end r then None
         else
           let ordinary_hint = (if min_address = DMA_32BIT_ADDRESS_LIMIT then ur_high_next r else lower);
               hint = min (max (max (ur_at_or_above_next r) ordinary_hint) lower) (ur_end r)
           in case find_unowned l hint (ur_end r) of
                Some address \<Rightarrow> Some address
              | None \<Rightarrow> find_unowned l lower hint)"

fun find_map :: "('a \<Rightarrow> 'b option) \<Rightarrow> 'a list \<Rightarrow> 'b option" where
  "find_map f [] = None"
| "find_map f (x # xs) = (case f x of None \<Rightarrow> find_map f xs | Some y \<Rightarrow> Some y)"

definition allocate_frame_at_or_above_inner ::
  "phys_api \<Rightarrow> (nat \<Rightarrow> bool) \<Rightarrow> nat \<Rightarrow> bool \<Rightarrow> frame_allocator \<Rightarrow> (nat option fa \<times> frame_allocator) option" where
  "allocate_frame_at_or_above_inner api al min_address allow_reclaimed a =
     (case fa_error a of
        Some e \<Rightarrow> Some (Inl e, a)
      | None \<Rightarrow>
          case checked_add min_address (PAGE_SIZE - 1) of
            None \<Rightarrow> Some (Inr None, a)
          | Some bumped \<Rightarrow>
              let m = bumped div PAGE_SIZE * PAGE_SIZE
              in if m \<ge> fa_physical_address_space_size a then Some (Inr None, a)
                 else
                   case (if allow_reclaimed then claim_reclaimed_at_or_above m (fa_ownership a) else Some (None, fa_ownership a)) of
                     None \<Rightarrow> None
                   | Some (Some address, l) \<Rightarrow>
                       (case frame_from_address api address of
                          Inl e \<Rightarrow> Some (Inl e, a\<lparr>fa_ownership := l\<rparr>)
                        | Inr frame \<Rightarrow> Some (Inr (Some frame), advance_at_or_above_cursor address (a\<lparr>fa_ownership := l\<rparr>)))
                   | Some (None, _) \<Rightarrow>
                       (case find_map (region_candidate (fa_ownership a) m) (fa_usable_regions a) of
                          None \<Rightarrow> Some (Inr None, a)
                        | Some address \<Rightarrow>
                            (case frame_from_address api address of
                               Inl e \<Rightarrow> Some (Inl e, a)
                             | Inr frame \<Rightarrow>
                                 (case claim_fresh al address (fa_ownership a) of
                                    (Inl e, l) \<Rightarrow> Some (fa_fail e (a\<lparr>fa_ownership := l\<rparr>))
                                  | (Inr False, _) \<Rightarrow> None
                                  | (Inr True, l) \<Rightarrow>
                                      let a1 = advance_at_or_above_cursor address
                                                 (a\<lparr>fa_ownership := l, fa_fresh_remaining_frames := fa_fresh_remaining_frames a - 1\<rparr>)
                                      in Some (Inr (Some frame),
                                               a1\<lparr>fa_highest_issued_address := max (fa_highest_issued_address a1) address\<rparr>)))))"

definition note_failure :: "bool \<Rightarrow> frame_allocator \<Rightarrow> frame_allocator" where
  "note_failure failed a =
     (if failed then a\<lparr>fa_allocation_failures := saturating_add (fa_allocation_failures a) 1\<rparr> else a)"

definition no_frame :: "'a option fa \<Rightarrow> bool" where
  "no_frame r = (case r of Inr (Some _) \<Rightarrow> False | _ \<Rightarrow> True)"

definition allocate_frame_at_or_above ::
  "phys_api \<Rightarrow> (nat \<Rightarrow> bool) \<Rightarrow> nat \<Rightarrow> frame_allocator \<Rightarrow> (nat option fa \<times> frame_allocator) option" where
  "allocate_frame_at_or_above api al min_address a =
     map_option (\<lambda>(r, a'). (r, note_failure (no_frame r) a')) (allocate_frame_at_or_above_inner api al min_address True a)"

text \<open>The choice of the next fresh address in \<^verbatim>\<open>allocate_frame_below_inner\<close>.\<close>

definition fresh_candidate :: "nat \<Rightarrow> usable_region list \<Rightarrow> nat option" where
  "fresh_candidate max_address_exclusive rs =
     map_option ur_next (find (\<lambda>r. ur_next r < ur_end r \<and> fits_below (ur_next r) PAGE_SIZE max_address_exclusive) rs)"

definition advance_next :: "nat \<Rightarrow> usable_region list \<Rightarrow> usable_region list option" where
  "advance_next address rs =
     update_region (\<lambda>r. ur_next r = address \<and> region_contains r address) (\<lambda>r. r\<lparr>ur_next := ur_next r + PAGE_SIZE\<rparr>) rs"

definition unscanned :: "usable_region list \<Rightarrow> nat" where
  "unscanned rs = sum_list (map (\<lambda>r. ur_end r - ur_next r) rs)"

lemma advance_next_decreases: "advance_next address rs = Some rs' \<Longrightarrow> unscanned rs' < unscanned rs"
  unfolding advance_next_def unscanned_def
  by (induction rs arbitrary: rs') (auto simp: region_contains_def PAGE_SIZE_def split: if_splits)

function allocate_fresh_below ::
  "phys_api \<Rightarrow> (nat \<Rightarrow> bool) \<Rightarrow> nat \<Rightarrow> frame_allocator \<Rightarrow> (nat option fa \<times> frame_allocator) option" where
  "allocate_fresh_below api al max_address_exclusive a =
     (case fresh_candidate max_address_exclusive (fa_usable_regions a) of
        None \<Rightarrow> Some (Inr None, a)
      | Some address \<Rightarrow>
          let (r, l) = claim_fresh al address (fa_ownership a)
          in case r of
               Inl e \<Rightarrow> Some (fa_fail e (a\<lparr>fa_ownership := l\<rparr>))
             | Inr claimed \<Rightarrow>
                 let a1 = (if claimed then a\<lparr>fa_ownership := l, fa_fresh_remaining_frames := fa_fresh_remaining_frames a - 1\<rparr>
                           else a\<lparr>fa_ownership := l\<rparr>)
                 in case advance_next address (fa_usable_regions a) of
                      None \<Rightarrow> None
                    | Some rs \<Rightarrow>
                        let a2 = a1\<lparr>fa_usable_regions := rs\<rparr>
                        in if \<not> claimed then allocate_fresh_below api al max_address_exclusive a2
                           else
                             let a3 = a2\<lparr>fa_highest_issued_address := max (fa_highest_issued_address a2) address\<rparr>
                             in case frame_from_address api address of
                                  Inr frame \<Rightarrow> Some (Inr (Some frame), a3)
                                | Inl e \<Rightarrow> Some (fa_fail e a3))"
  by pat_completeness auto

termination
  by (relation "measure (\<lambda>(_, _, _, a). unscanned (fa_usable_regions a))") (auto dest: advance_next_decreases)

declare allocate_fresh_below.simps [simp del]

definition allocate_frame_below_inner ::
  "phys_api \<Rightarrow> (nat \<Rightarrow> bool) \<Rightarrow> nat \<Rightarrow> bool \<Rightarrow> frame_allocator \<Rightarrow> (nat option fa \<times> frame_allocator) option" where
  "allocate_frame_below_inner api al max_address_exclusive allow_reclaimed a =
     (case fa_error a of
        Some e \<Rightarrow> Some (Inl e, a)
      | None \<Rightarrow>
          if max_address_exclusive = 0 then Some (Inl (PhysicalAddressTooLarge max_address_exclusive 0), a)
          else
            let m = min max_address_exclusive (fa_physical_address_space_size a)
            in case (if allow_reclaimed then claim_reclaimed_below m (fa_ownership a) else Some (None, fa_ownership a)) of
                 None \<Rightarrow> None
               | Some (Some address, l) \<Rightarrow>
                   (case frame_from_address api address of
                      Inl e \<Rightarrow> Some (Inl e, a\<lparr>fa_ownership := l\<rparr>)
                    | Inr frame \<Rightarrow> Some (Inr (Some frame), a\<lparr>fa_ownership := l\<rparr>))
               | Some (None, _) \<Rightarrow> allocate_fresh_below api al m a)"

definition allocate_frame_below ::
  "phys_api \<Rightarrow> (nat \<Rightarrow> bool) \<Rightarrow> nat \<Rightarrow> frame_allocator \<Rightarrow> (nat option fa \<times> frame_allocator) option" where
  "allocate_frame_below api al max_address_exclusive a =
     (let dma_low = (max_address_exclusive \<le> DMA_32BIT_ADDRESS_LIMIT)
      in case allocate_frame_below_inner api al max_address_exclusive True a of
           None \<Rightarrow> None
         | Some (Inr (Some frame), a1) \<Rightarrow>
             if dma_low then
               map_option (\<lambda>l. (Inr (Some frame),
                                a1\<lparr>fa_ownership := l, fa_dma_low_allocations := saturating_add (fa_dma_low_allocations a1) 1\<rparr>))
                 (mark_dma_low frame (fa_ownership a1))
             else Some (Inr (Some frame), a1)
         | Some (r, a1) \<Rightarrow>
             Some (r, note_failure True
               (if dma_low then a1\<lparr>fa_dma_low_failures := saturating_add (fa_dma_low_failures a1) 1\<rparr> else a1)))"

definition allocate_frame ::
  "phys_api \<Rightarrow> (nat \<Rightarrow> bool) \<Rightarrow> frame_allocator \<Rightarrow> (nat option fa \<times> frame_allocator) option" where
  "allocate_frame api al a =
     map_option (\<lambda>(r, a'). (r, note_failure (no_frame r) a'))
       (if fa_above_4g_frames a \<noteq> 0 then
          case allocate_frame_at_or_above_inner api al DMA_32BIT_ADDRESS_LIMIT True a of
            Some (Inr None, a1) \<Rightarrow> allocate_frame_below_inner api al DMA_32BIT_ADDRESS_LIMIT True a1
          | other \<Rightarrow> other
        else allocate_frame_below_inner api al (fa_physical_address_space_size a) True a)"

text \<open>The \<^verbatim>\<open>FrameAllocator\<close> trait's view of the same call, which drops the error.\<close>

definition trait_allocate_frame ::
  "phys_api \<Rightarrow> (nat \<Rightarrow> bool) \<Rightarrow> frame_allocator \<Rightarrow> (nat option \<times> frame_allocator) option" where
  "trait_allocate_frame api al a =
     map_option (\<lambda>(r, a'). (case r of Inl _ \<Rightarrow> None | Inr frame \<Rightarrow> frame, a')) (allocate_frame api al a)"

section \<open>Contiguous allocation\<close>

fun mark_all_dma_low :: "nat list \<Rightarrow> ownership_ledger \<Rightarrow> ownership_ledger option" where
  "mark_all_dma_low [] l = Some l"
| "mark_all_dma_low (address # rest) l =
     (case mark_dma_low address l of None \<Rightarrow> None | Some l' \<Rightarrow> mark_all_dma_low rest l')"

text \<open>The loop over a reclaimed run: mark each page and turn it into a frame.\<close>

fun frames_of_run :: "phys_api \<Rightarrow> bool \<Rightarrow> nat list \<Rightarrow> nat list \<Rightarrow> ownership_ledger \<Rightarrow> (nat list fa \<times> ownership_ledger) option" where
  "frames_of_run api dma_low [] frames l = Some (Inr frames, l)"
| "frames_of_run api dma_low (address # rest) frames l =
     (case (if dma_low then mark_dma_low address l else Some l) of
        None \<Rightarrow> None
      | Some l' \<Rightarrow>
          case frame_from_address api address of
            Inl e \<Rightarrow> Some (Inl e, l')
          | Inr frame \<Rightarrow> frames_of_run api dma_low rest (frames @ [frame]) l')"

text \<open>Giving a partial run back, and the result the caller then returns.\<close>

definition give_back :: "nat list \<Rightarrow> 'a fa \<Rightarrow> frame_allocator \<Rightarrow> ('a fa \<times> frame_allocator) option" where
  "give_back frames r a =
     map_option (\<lambda>(d, a'). (case d of Inl e \<Rightarrow> Inl e | Inr _ \<Rightarrow> r, a')) (deallocate_frames frames a)"

fun allocate_run ::
  "phys_api \<Rightarrow> (nat \<Rightarrow> bool) \<Rightarrow> nat \<Rightarrow> nat \<Rightarrow> nat option \<Rightarrow> nat list \<Rightarrow> frame_allocator
     \<Rightarrow> (nat list option fa \<times> frame_allocator) option" where
  "allocate_run api al 0 max_address_exclusive expected frames a = Some (Inr (Some frames), a)"
| "allocate_run api al (Suc pages) max_address_exclusive expected frames a =
     (case allocate_frame_below_inner api al max_address_exclusive False a of
        None \<Rightarrow> None
      | Some (Inr None, a1) \<Rightarrow> give_back frames (Inr None) a1
      | Some (Inl e, a1) \<Rightarrow> if frames = [] then Some (Inl e, a1) else give_back frames (Inl e) a1
      | Some (Inr (Some frame), a1) \<Rightarrow>
          if (case expected of None \<Rightarrow> False | Some e \<Rightarrow> e \<noteq> frame) then give_back (frames @ [frame]) (Inr None) a1
          else case checked_add frame PAGE_SIZE of
            None \<Rightarrow> give_back (frames @ [frame]) (Inl (UsableRegionOverflow frame PAGE_SIZE)) a1
          | Some e \<Rightarrow> allocate_run api (\<lambda>n. al (n + 2)) pages max_address_exclusive (Some e) (frames @ [frame]) a1)"

definition allocate_contiguous_frames_below_inner ::
  "phys_api \<Rightarrow> (nat \<Rightarrow> bool) \<Rightarrow> nat \<Rightarrow> nat \<Rightarrow> bool \<Rightarrow> frame_allocator \<Rightarrow> (nat list option fa \<times> frame_allocator) option" where
  "allocate_contiguous_frames_below_inner api al pages max_address_exclusive dma_low a =
     (if pages = 0 then Some (Inr None, a)
      else if \<not> al 0 then Some (Inl OwnershipTrackingAllocationFailed, a)
      else case claim_reclaimed_range_below pages max_address_exclusive (fa_ownership a) of
        None \<Rightarrow> None
      | Some (Some start, l) \<Rightarrow>
          (case frames_of_run api dma_low (page_run start pages) [] l of
             None \<Rightarrow> None
           | Some (Inl e, l') \<Rightarrow> Some (Inl e, a\<lparr>fa_ownership := l'\<rparr>)
           | Some (Inr frames, l') \<Rightarrow>
               Some (Inr (Some frames),
                     a\<lparr>fa_ownership := l',
                       fa_dma_low_allocations := (if dma_low then saturating_add (fa_dma_low_allocations a) pages
                                                  else fa_dma_low_allocations a)\<rparr>))
      | Some (None, _) \<Rightarrow>
          (case allocate_run api (\<lambda>n. al (n + 1)) pages max_address_exclusive None [] a of
             Some (Inr (Some frames), a1) \<Rightarrow>
               if dma_low then
                 map_option (\<lambda>l. (Inr (Some frames),
                                  a1\<lparr>fa_ownership := l,
                                     fa_dma_low_allocations := saturating_add (fa_dma_low_allocations a1) (length frames)\<rparr>))
                   (mark_all_dma_low frames (fa_ownership a1))
               else Some (Inr (Some frames), a1)
           | other \<Rightarrow> other))"

definition allocate_contiguous_frames ::
  "phys_api \<Rightarrow> (nat \<Rightarrow> bool) \<Rightarrow> nat \<Rightarrow> frame_allocator \<Rightarrow> (nat list option fa \<times> frame_allocator) option" where
  "allocate_contiguous_frames api al pages a =
     map_option (\<lambda>(r, a'). (r, note_failure (no_frame r) a'))
       (allocate_contiguous_frames_below_inner api al pages (fa_physical_address_space_size a) False a)"

definition allocate_contiguous_frames_below ::
  "phys_api \<Rightarrow> (nat \<Rightarrow> bool) \<Rightarrow> nat \<Rightarrow> nat \<Rightarrow> frame_allocator \<Rightarrow> (nat list option fa \<times> frame_allocator) option" where
  "allocate_contiguous_frames_below api al pages max_address_exclusive a =
     (let dma_low = (max_address_exclusive \<le> DMA_32BIT_ADDRESS_LIMIT)
      in map_option (\<lambda>(r, a').
           (r, if no_frame r then
                 let a1 = note_failure True a'
                 in if dma_low then a1\<lparr>fa_dma_low_failures := saturating_add (fa_dma_low_failures a1) 1\<rparr> else a1
               else a'))
         (allocate_contiguous_frames_below_inner api al pages max_address_exclusive dma_low a))"

section \<open>The ledger as a map\<close>

definition ledger_view :: "ownership_ledger \<Rightarrow> nat \<rightharpoonup> ownership_state \<times> bool" where
  "ledger_view l = map_of (map (\<lambda>r. (or_address r, (or_state r, or_dma_low r))) (ol_records l))"

lemma finite_view [simp]: "finite (dom (ledger_view l))"
  by (simp add: ledger_view_def finite_dom_map_of)

lemma ledger_view_frame [simp]:
  "ledger_view (l\<lparr>ol_free := f\<rparr>) = ledger_view l" "ledger_view (l\<lparr>ol_free_capacity := n\<rparr>) = ledger_view l"
  "ledger_view (l\<lparr>ol_live_allocated := n\<rparr>) = ledger_view l" "ledger_view (l\<lparr>ol_fresh_issued := n\<rparr>) = ledger_view l"
  "ledger_view (l\<lparr>ol_dma_low_live := n\<rparr>) = ledger_view l" "ledger_view (l\<lparr>ol_above_4g_live := n\<rparr>) = ledger_view l"
  by (simp_all add: ledger_view_def)

lemma position_map_of:
  "position (\<lambda>r. f r = k) xs = Some i \<Longrightarrow> map_of (map (\<lambda>r. (f r, g r)) xs) k = Some (g (xs ! i))"
  by (induction xs arbitrary: i) (auto split: if_splits)

lemma position_map_of_update:
  "position (\<lambda>r. f r = k) xs = Some i \<Longrightarrow> f y = k \<Longrightarrow>
   map_of (map (\<lambda>r. (f r, g r)) (xs[i := y])) = (map_of (map (\<lambda>r. (f r, g r)) xs))(k \<mapsto> g y)"
  by (induction xs arbitrary: i) (auto split: if_splits)

lemma ledger_find_None: "ledger_find l a = None \<longleftrightarrow> ledger_view l a = None"
  by (force simp: ledger_find_def ledger_view_def position_None map_of_eq_None_iff image_iff)

lemma ledger_find_Some:
  assumes "ledger_find l a = Some i"
  shows "i < length (ol_records l)" "or_address (ol_records l ! i) = a"
    "ledger_view l a = Some (or_state (ol_records l ! i), or_dma_low (ol_records l ! i))"
  using assms position_SomeD [of "\<lambda>r. or_address r = a" "ol_records l" i]
    position_map_of [of or_address a "ol_records l" i "\<lambda>r. (or_state r, or_dma_low r)"]
  by (auto simp: ledger_find_def ledger_view_def)

lemma ledger_view_Some:
  assumes "ledger_view l a = Some (st, low)"
  obtains i where "ledger_find l a = Some i" "or_state (ol_records l ! i) = st" "or_dma_low (ol_records l ! i) = low"
proof -
  obtain i where i: "ledger_find l a = Some i"
    using assms ledger_find_None [of l a] by (cases "ledger_find l a") auto
  with ledger_find_Some(3) [OF i] assms that show ?thesis by auto
qed

lemma ledger_view_set_record:
  assumes "ledger_find l a = Some i"
  shows "ledger_view (set_record i st low l) = (ledger_view l)(a \<mapsto> (st, low))"
  using assms ledger_find_Some(2) [OF assms]
    position_map_of_update [of or_address a "ol_records l" i "(ol_records l ! i)\<lparr>or_state := st, or_dma_low := low\<rparr>"
      "\<lambda>r. (or_state r, or_dma_low r)"]
  by (simp add: ledger_find_def ledger_view_def set_record_def)

lemma ledger_view_append:
  assumes "ledger_view l a = None"
  shows "ledger_view (l\<lparr>ol_records := ol_records l @ [\<lparr>or_address = a, or_state = st, or_dma_low = low\<rparr>]\<rparr>)
    = (ledger_view l)(a \<mapsto> (st, low))"
  using assms by (auto simp: ledger_view_def map_add_def fun_eq_iff split: option.split)

section \<open>Counting in finite maps\<close>

definition cnt :: "('k \<Rightarrow> 'v \<Rightarrow> bool) \<Rightarrow> ('k \<rightharpoonup> 'v) \<Rightarrow> nat" where
  "cnt P m = card {k. \<exists>v. m k = Some v \<and> P k v}"

lemma finite_cnt: "finite (dom m) \<Longrightarrow> finite {k. \<exists>v. m k = Some v \<and> P k v}"
  by (rule finite_subset [of _ "dom m"]) auto

lemma cnt_upd_None:
  assumes "finite (dom m)" "m k = None"
  shows "cnt P (m(k \<mapsto> v)) = cnt P m + of_bool (P k v)"
proof -
  let ?A = "{k. \<exists>v. m k = Some v \<and> P k v}"
  have "{j. \<exists>w. (m(k \<mapsto> v)) j = Some w \<and> P j w} = (if P k v then insert k ?A else ?A)"
    using assms(2) by (auto split: if_splits)
  moreover have "k \<notin> ?A" "finite ?A" using assms by (simp_all add: finite_cnt)
  ultimately show ?thesis by (simp add: cnt_def)
qed

lemma cnt_upd_Some:
  assumes "finite (dom m)" "m k = Some u"
  shows "cnt P (m(k \<mapsto> v)) + of_bool (P k u) = cnt P m + of_bool (P k v)"
proof -
  let ?m = "m(k := None)"
  have "finite (dom ?m)" using assms(1) by simp
  note upd = cnt_upd_None [OF this, of k P]
  have "m = ?m(k \<mapsto> u)" "m(k \<mapsto> v) = ?m(k \<mapsto> v)" using assms(2) by auto
  then show ?thesis using upd [of u] upd [of v] by simp
qed

lemma cnt_pos: "finite (dom m) \<Longrightarrow> m k = Some v \<Longrightarrow> P k v \<Longrightarrow> 0 < cnt P m"
  unfolding cnt_def by (subst card_gt_0_iff) (auto intro: finite_cnt)

lemma cnt_le_dom: "finite (dom m) \<Longrightarrow> cnt P m \<le> card (dom m)"
  unfolding cnt_def by (rule card_mono) auto

section \<open>The ledger invariant\<close>

definition phys_frame :: "nat \<Rightarrow> bool" where
  "phys_frame a \<longleftrightarrow> a < 2 ^ 52 \<and> PAGE_SIZE dvd a"

abbreviation is_live :: "nat \<Rightarrow> ownership_state \<times> bool \<Rightarrow> bool" where
  "is_live a v \<equiv> fst v = Allocated"

abbreviation is_live_high :: "nat \<Rightarrow> ownership_state \<times> bool \<Rightarrow> bool" where
  "is_live_high a v \<equiv> fst v = Allocated \<and> a \<ge> DMA_32BIT_ADDRESS_LIMIT"

abbreviation is_dma :: "nat \<Rightarrow> ownership_state \<times> bool \<Rightarrow> bool" where
  "is_dma a v \<equiv> snd v"

definition in_state :: "ownership_state \<Rightarrow> ownership_ledger \<Rightarrow> nat set" where
  "in_state st l = {a. \<exists>low. ledger_view l a = Some (st, low)}"

definition ledger_ok :: "ownership_ledger \<Rightarrow> bool" where
  "ledger_ok l \<longleftrightarrow>
     distinct (map or_address (ol_records l)) \<and> length (ol_records l) \<le> ol_free_capacity l \<and>
     distinct (ol_free l) \<and> set (ol_free l) = in_state Free l \<and>
     ol_live_allocated l = cnt is_live (ledger_view l) \<and>
     ol_above_4g_live l = cnt is_live_high (ledger_view l) \<and>
     ol_dma_low_live l = cnt is_dma (ledger_view l) \<and>
     (\<forall>a st. ledger_view l a = Some (st, True) \<longrightarrow> st = Allocated) \<and>
     (\<forall>a \<in> dom (ledger_view l). phys_frame a)"

lemma card_phys_frames:
  assumes "\<forall>a \<in> A. phys_frame a"
  shows "finite A" "card A \<le> 2 ^ 40"
proof -
  have sub: "A \<subseteq> (\<lambda>i. i * PAGE_SIZE) ` {..< 2 ^ 40}"
  proof
    fix a assume "a \<in> A"
    then have a: "a < 2 ^ 52" "PAGE_SIZE dvd a" using assms by (auto simp: phys_frame_def)
    then obtain i where "a = i * PAGE_SIZE" by (metis dvd_def mult.commute)
    then show "a \<in> (\<lambda>i. i * PAGE_SIZE) ` {..< 2 ^ 40}" using a(1) by (auto simp: PAGE_SIZE_def)
  qed
  then show "finite A" by (rule finite_subset) simp
  have "card A \<le> card ((\<lambda>i. i * PAGE_SIZE) ` {..< 2 ^ 40 :: nat})" by (rule card_mono [OF _ sub]) simp
  also have "\<dots> \<le> 2 ^ 40" using card_image_le [of "{..< 2 ^ 40 :: nat}" "\<lambda>i. i * PAGE_SIZE"] by simp
  finally show "card A \<le> 2 ^ 40" .
qed

lemma cnt_small:
  assumes "\<forall>a \<in> dom m. phys_frame a"
  shows "Suc (cnt P m) \<le> u64_max"
proof -
  have "cnt P m \<le> 2 ^ 40" using cnt_le_dom [of m P] card_phys_frames [OF assms] by simp
  then show ?thesis by (simp add: u64_max_def)
qed

lemma ledger_new_ok: "ledger_ok ledger_new"
  by (simp add: ledger_ok_def ledger_new_def ledger_view_def in_state_def cnt_def)

lemma card_records:
  assumes "distinct (map or_address (ol_records l))"
  shows "card (dom (ledger_view l)) = length (ol_records l)"
proof -
  have "dom (ledger_view l) = set (map or_address (ol_records l))"
    by (simp add: ledger_view_def dom_map_of_conv_image_fst image_image)
  then show ?thesis using assms by (metis distinct_card length_map)
qed

section \<open>Transitions of one frame\<close>

definition was :: "('k \<Rightarrow> 'v \<Rightarrow> bool) \<Rightarrow> ('k \<rightharpoonup> 'v) \<Rightarrow> 'k \<Rightarrow> bool" where
  "was P m k \<longleftrightarrow> (\<exists>v. m k = Some v \<and> P k v)"

lemma was_simps [simp]: "m k = None \<Longrightarrow> \<not> was P m k" "m k = Some v \<Longrightarrow> was P m k \<longleftrightarrow> P k v"
  by (auto simp: was_def)

lemma cnt_upd:
  assumes "finite (dom m)"
  shows "cnt P (m(k \<mapsto> v)) + of_bool (was P m k) = cnt P m + of_bool (P k v)"
  using cnt_upd_None [OF assms] cnt_upd_Some [OF assms] by (cases "m k") auto

lemma ledger_ok_upd:
  assumes ok: "ledger_ok l" and view: "ledger_view l' = (ledger_view l)(a \<mapsto> (st, low))"
    and recs: "distinct (map or_address (ol_records l'))" "length (ol_records l') \<le> ol_free_capacity l'"
    and free: "distinct (ol_free l')"
      "set (ol_free l') = (if st = Free then insert a (set (ol_free l)) else set (ol_free l) - {a})"
    and live: "ol_live_allocated l' + of_bool (was is_live (ledger_view l) a) = ol_live_allocated l + of_bool (st = Allocated)"
    and high: "ol_above_4g_live l' + of_bool (was is_live_high (ledger_view l) a)
      = ol_above_4g_live l + of_bool (st = Allocated \<and> a \<ge> DMA_32BIT_ADDRESS_LIMIT)"
    and dma: "ol_dma_low_live l' + of_bool (was is_dma (ledger_view l) a) = ol_dma_low_live l + of_bool low"
    and a: "phys_frame a" "low \<Longrightarrow> st = Allocated"
  shows "ledger_ok l'"
proof -
  have "cnt is_live (ledger_view l') = ol_live_allocated l'"
    using live cnt_upd [of "ledger_view l" is_live a "(st, low)"] ok by (simp add: view ledger_ok_def)
  moreover have "cnt is_live_high (ledger_view l') = ol_above_4g_live l'"
    using high cnt_upd [of "ledger_view l" is_live_high a "(st, low)"] ok by (simp add: view ledger_ok_def)
  moreover have "cnt is_dma (ledger_view l') = ol_dma_low_live l'"
    using dma cnt_upd [of "ledger_view l" is_dma a "(st, low)"] ok by (simp add: view ledger_ok_def)
  moreover have "set (ol_free l') = in_state Free l'"
    using free(2) ok by (auto simp: view in_state_def ledger_ok_def split: if_splits)
  moreover have "\<forall>b s. ledger_view l' b = Some (s, True) \<longrightarrow> s = Allocated"
    using ok a(2) by (auto simp: view ledger_ok_def)
  moreover have "\<forall>b \<in> dom (ledger_view l'). phys_frame b"
    using ok a(1) by (auto simp: view ledger_ok_def)
  ultimately show ?thesis using recs free(1) by (simp add: ledger_ok_def)
qed

lemma ledger_ok_sat:
  assumes "ledger_ok l"
  shows "saturating_add (ol_live_allocated l) 1 = Suc (ol_live_allocated l)"
    "saturating_add (ol_above_4g_live l) 1 = Suc (ol_above_4g_live l)"
    "saturating_add (ol_dma_low_live l) 1 = Suc (ol_dma_low_live l)"
  using assms cnt_small [of "ledger_view l"] by (simp_all add: ledger_ok_def saturating_add_def)

lemma ledger_ok_recs:
  assumes "ledger_ok l"
  shows "distinct (map or_address (ol_records l))" "length (ol_records l) \<le> ol_free_capacity l" "distinct (ol_free l)"
    "a \<in> set (ol_free l) \<longleftrightarrow> ledger_view l a = Some (Free, False)"
proof -
  show "distinct (map or_address (ol_records l))" "length (ol_records l) \<le> ol_free_capacity l" "distinct (ol_free l)"
    using assms by (simp_all add: ledger_ok_def)
  have "ledger_view l a \<noteq> Some (Free, True)" using assms by (auto simp: ledger_ok_def)
  then show "a \<in> set (ol_free l) \<longleftrightarrow> ledger_view l a = Some (Free, False)"
    using assms by (auto simp: ledger_ok_def in_state_def)
qed

lemma set_record_addresses [simp]:
  "map or_address (ol_records (set_record i st low l)) = map or_address (ol_records l)"
proof -
  have "map or_address ((ol_records l)[i := (ol_records l ! i)\<lparr>or_state := st, or_dma_low := low\<rparr>])
    = (map or_address (ol_records l))[i := or_address (ol_records l ! i)]" by (simp add: map_update)
  also have "\<dots> = map or_address (ol_records l)"
    by (cases "i < length (ol_records l)") (simp_all add: list_update_same_conv list_update_beyond)
  finally show ?thesis by (simp add: set_record_def)
qed

lemma set_record_frame [simp]:
  "length (ol_records (set_record i st low l)) = length (ol_records l)"
  "ol_free (set_record i st low l) = ol_free l" "ol_free_capacity (set_record i st low l) = ol_free_capacity l"
  "ol_live_allocated (set_record i st low l) = ol_live_allocated l" "ol_dma_low_live (set_record i st low l) = ol_dma_low_live l"
  "ol_above_4g_live (set_record i st low l) = ol_above_4g_live l" "ol_fresh_issued (set_record i st low l) = ol_fresh_issued l"
  by (simp_all add: set_record_def)

lemma reserve_new_record_ok:
  assumes "ledger_ok l" "reserve_new_record al l = Inr l1"
  shows "\<exists>n. l1 = l\<lparr>ol_free_capacity := n\<rparr> \<and> Suc (length (ol_records l)) \<le> n"
proof -
  have "l\<lparr>ol_free_capacity := ol_free_capacity l\<rparr> = l" by simp
  then show ?thesis using assms
    by (auto simp: reserve_new_record_def ledger_ok_def checked_add_def not_less split: if_splits option.splits intro: exI [of _ "ol_free_capacity l"])
qed

lemma new_record_distinct:
  assumes "ledger_ok l" "ledger_view l a = None"
  shows "a \<notin> set (map or_address (ol_records l))"
  using assms by (auto simp: ledger_view_def map_of_eq_None_iff image_image)

lemma claim_fresh_ok:
  assumes ok: "ledger_ok l" and a: "phys_frame a" and c: "claim_fresh al a l = (Inr True, l')"
  shows "ledger_ok l' \<and> ledger_view l a = None \<and> ledger_view l' = (ledger_view l)(a \<mapsto> (Allocated, False))"
proof -
  have none: "ledger_view l a = None"
    using c by (auto simp: claim_fresh_def ledger_find_None [symmetric] split: if_splits)
  then obtain l1 where l1: "reserve_new_record al l = Inr l1"
    using c by (auto simp: claim_fresh_def ledger_find_None split: sum.splits if_splits)
  obtain n where n: "l1 = l\<lparr>ol_free_capacity := n\<rparr>" "Suc (length (ol_records l)) \<le> n"
    using reserve_new_record_ok [OF ok l1] by blast
  have l': "l' = l1\<lparr>ol_records := ol_records l1 @ [\<lparr>or_address = a, or_state = Allocated, or_dma_low = False\<rparr>],
              ol_live_allocated := saturating_add (ol_live_allocated l1) 1,
              ol_fresh_issued := saturating_add (ol_fresh_issued l1) 1,
              ol_above_4g_live := (if a \<ge> DMA_32BIT_ADDRESS_LIMIT then saturating_add (ol_above_4g_live l1) 1
                                   else ol_above_4g_live l1)\<rparr>"
    using c none l1 by (auto simp: claim_fresh_def ledger_find_None)
  have view: "ledger_view l' = (ledger_view l)(a \<mapsto> (Allocated, False))"
    using ledger_view_append [OF none] by (simp add: l' n(1) ledger_view_def)
  have "a \<notin> set (ol_free l)" using ledger_ok_recs(4) [OF ok] none by simp
  then have "ledger_ok l'"
    using ledger_ok_recs [OF ok] ledger_ok_sat [OF ok] new_record_distinct [OF ok none] none n
    by (intro ledger_ok_upd [OF ok view _ _ _ _ _ _ _ a]) (simp_all add: l')
  then show ?thesis using view none by blast
qed

lemma claim_fresh_unchanged: "claim_fresh al a l = (Inr False, l') \<Longrightarrow> l' = l \<and> ledger_view l a \<noteq> None"
  by (auto simp: claim_fresh_def ledger_find_None [symmetric] split: if_splits sum.splits)

lemma claim_fresh_error:
  assumes "ledger_ok l" "claim_fresh al a l = (Inl e, l')"
  shows "l' = l \<and> (\<not> al 0 \<or> \<not> al 1)"
proof -
  have "length (ol_records l) \<le> 2 ^ 40"
    using assms(1) card_records [of l] card_phys_frames(2) [of "dom (ledger_view l)"] by (simp add: ledger_ok_def)
  then have "Suc (length (ol_records l)) \<le> u64_max" by (simp add: u64_max_def)
  then show ?thesis using assms(2) by (auto simp: claim_fresh_def reserve_new_record_def split: if_splits sum.splits option.splits)
qed

lemma swap_remove_distinct_set:
  assumes "distinct xs" "i < length xs"
  shows "distinct (swap_remove i xs)" "set (swap_remove i xs) = set xs - {xs ! i}"
proof -
  have m: "mset (xs ! i # swap_remove i xs) = mset xs" using mset_swap_remove [OF assms(2)] by simp
  then have "distinct (xs ! i # swap_remove i xs)" using assms(1) by (metis mset_eq_imp_distinct_iff)
  moreover have "insert (xs ! i) (set (swap_remove i xs)) = set xs" using m by (metis list.set(2) mset_eq_setD)
  ultimately show "distinct (swap_remove i xs)" "set (swap_remove i xs) = set xs - {xs ! i}" by auto
qed

lemma mark_reclaimed_ok:
  assumes ok: "ledger_ok l" and i: "i < length (ol_free l)" "ol_free l ! i = a"
  shows "\<exists>l'. mark_reclaimed_allocated a (l\<lparr>ol_free := swap_remove i (ol_free l)\<rparr>) = Some l' \<and> ledger_ok l' \<and>
    ledger_view l' = (ledger_view l)(a \<mapsto> (Allocated, False)) \<and> ledger_view l a = Some (Free, False) \<and>
    set (ol_free l') = set (ol_free l) - {a}"
proof -
  let ?l = "l\<lparr>ol_free := swap_remove i (ol_free l)\<rparr>"
  have "a \<in> set (ol_free l)" using i by auto
  then have v: "ledger_view l a = Some (Free, False)" using ledger_ok_recs(4) [OF ok] by simp
  then obtain j where j: "ledger_find ?l a = Some j" "or_state (ol_records ?l ! j) = Free"
    using ledger_view_Some [of ?l a Free False] by auto
  define l' where "l' = (set_record j Allocated False ?l)\<lparr>ol_live_allocated := saturating_add (ol_live_allocated l) 1,
    ol_above_4g_live := (if a \<ge> DMA_32BIT_ADDRESS_LIMIT then saturating_add (ol_above_4g_live l) 1 else ol_above_4g_live l)\<rparr>"
  have eq: "mark_reclaimed_allocated a ?l = Some l'"
    using j by (simp add: mark_reclaimed_allocated_def Let_def l'_def)
  have view: "ledger_view l' = (ledger_view l)(a \<mapsto> (Allocated, False))"
    using ledger_view_set_record [OF j(1)] by (simp add: l'_def)
  note sw = swap_remove_distinct_set [OF ledger_ok_recs(3) [OF ok] i(1)]
  have a: "phys_frame a" using ok v by (auto simp: ledger_ok_def)
  have "ledger_ok l'"
    using ledger_ok_recs [OF ok] ledger_ok_sat [OF ok] v sw i(2)
    by (intro ledger_ok_upd [OF ok view _ _ _ _ _ _ _ a]) (simp_all add: l'_def)
  moreover have "set (ol_free l') = set (ol_free l) - {a}" using sw(2) i(2) by (simp add: l'_def)
  ultimately show ?thesis using eq view v by blast
qed

lemma claim_reclaimed_at_ok:
  assumes ok: "ledger_ok l" and fi: "free_index = Some i" "i < length (ol_free l)"
  shows "\<exists>l'. claim_reclaimed_at free_index l = Some (Some (ol_free l ! i), l') \<and> ledger_ok l' \<and>
    ledger_view l' = (ledger_view l)(ol_free l ! i \<mapsto> (Allocated, False)) \<and> ledger_view l (ol_free l ! i) = Some (Free, False)"
  using mark_reclaimed_ok [OF ok fi(2) refl] fi by (auto simp: claim_reclaimed_at_def Let_def)

lemma mark_dma_low_ok:
  assumes ok: "ledger_ok l" and v: "ledger_view l a = Some (Allocated, low)"
  shows "\<exists>l'. mark_dma_low a l = Some l' \<and> ledger_ok l' \<and> ledger_view l' = (ledger_view l)(a \<mapsto> (Allocated, True))"
proof -
  obtain i where i: "ledger_find l a = Some i" "or_state (ol_records l ! i) = Allocated" "or_dma_low (ol_records l ! i) = low"
    using ledger_view_Some [OF v] by blast
  show ?thesis
  proof (cases low)
    case True
    then have "ledger_view l = (ledger_view l)(a \<mapsto> (Allocated, True))" using v by auto
    then show ?thesis using i ok True by (simp add: mark_dma_low_def)
  next
    case False
    define l' where "l' = (set_record i Allocated True l)\<lparr>ol_dma_low_live := saturating_add (ol_dma_low_live l) 1\<rparr>"
    have eq: "mark_dma_low a l = Some l'" using i False by (simp add: mark_dma_low_def Let_def l'_def)
    have view: "ledger_view l' = (ledger_view l)(a \<mapsto> (Allocated, True))"
      using ledger_view_set_record [OF i(1)] by (simp add: l'_def)
    have a: "phys_frame a" using ok v by (auto simp: ledger_ok_def)
    have nf: "a \<notin> set (ol_free l)" using ledger_ok_recs(4) [OF ok] v by simp
    have "ledger_ok l'"
      using ledger_ok_recs [OF ok] ledger_ok_sat [OF ok] v False nf
      by (intro ledger_ok_upd [OF ok view _ _ _ _ _ _ _ a]) (simp_all add: l'_def)
    then show ?thesis using eq view by blast
  qed
qed

definition override :: "'k set \<Rightarrow> 'v \<Rightarrow> ('k \<rightharpoonup> 'v) \<Rightarrow> 'k \<rightharpoonup> 'v" where
  "override A v m = (\<lambda>k. if k \<in> A then Some v else m k)"

lemma override_simps [simp]:
  "override {} v m = m" "k \<in> A \<Longrightarrow> override A v m k = Some v" "k \<notin> A \<Longrightarrow> override A v m k = m k"
  by (auto simp: override_def)

lemma override_insert: "override A v (m(k \<mapsto> v)) = override (insert k A) v m"
  by (auto simp: override_def)

lemma ledger_reserve_ok:
  assumes ok: "ledger_ok l" and a: "phys_frame a"
  shows "\<exists>r l'. ledger_reserve al a l = Some (r, l') \<and> ledger_ok l' \<and>
    (case r of
       Inl e \<Rightarrow> l' = l \<and> ledger_view l a = None
     | Inr changed \<Rightarrow> ledger_view l' = (ledger_view l)(a \<mapsto> (Reserved, False)) \<and>
         (changed \<longleftrightarrow> ledger_view l a \<noteq> Some (Reserved, False)))"
proof (cases "ledger_view l a")
  case None
  then have f: "ledger_find l a = None" by (simp add: ledger_find_None)
  show ?thesis
  proof (cases "reserve_new_record al l")
    case (Inl e)
    then show ?thesis using f ok None by (simp add: ledger_reserve_def)
  next
    case (Inr l1)
    obtain n where n: "l1 = l\<lparr>ol_free_capacity := n\<rparr>" "Suc (length (ol_records l)) \<le> n"
      using reserve_new_record_ok [OF ok Inr] by blast
    define l' where "l' = l1\<lparr>ol_records := ol_records l1 @ [\<lparr>or_address = a, or_state = Reserved, or_dma_low = False\<rparr>]\<rparr>"
    have view: "ledger_view l' = (ledger_view l)(a \<mapsto> (Reserved, False))"
      using ledger_view_append [OF None] by (simp add: l'_def n(1) ledger_view_def)
    have nf: "a \<notin> set (ol_free l)" using ledger_ok_recs(4) [OF ok] None by simp
    have "ledger_ok l'"
      using ledger_ok_recs [OF ok] new_record_distinct [OF ok None] None n nf
      by (intro ledger_ok_upd [OF ok view _ _ _ _ _ _ _ a]) (simp_all add: l'_def)
    then show ?thesis using f Inr view None by (simp add: ledger_reserve_def l'_def)
  qed
next
  case (Some v)
  obtain st low where v: "v = (st, low)" by (cases v)
  with Some obtain i where i: "ledger_find l a = Some i" "or_state (ol_records l ! i) = st" "or_dma_low (ol_records l ! i) = low"
    using ledger_view_Some [of l a st low] by blast
  have low: "low \<Longrightarrow> st = Allocated" using ok Some v by (cases low) (auto simp: ledger_ok_def)
  show ?thesis
  proof (cases st)
    case Reserved
    then have "low = False" using low by auto
    then have "(ledger_view l)(a \<mapsto> (Reserved, False)) = ledger_view l" using Reserved Some v by auto
    then show ?thesis using i Reserved ok Some v \<open>low = False\<close> by (simp add: ledger_reserve_def)
  next
    case Allocated
    define l' where "l' = set_record i Reserved False (l\<lparr>ol_live_allocated := ol_live_allocated l - 1,
      ol_above_4g_live := (if a \<ge> DMA_32BIT_ADDRESS_LIMIT then ol_above_4g_live l - 1 else ol_above_4g_live l),
      ol_dma_low_live := (if or_dma_low (ol_records l ! i) then ol_dma_low_live l - 1 else ol_dma_low_live l)\<rparr>)"
    have f': "ledger_find (l\<lparr>ol_live_allocated := n1, ol_above_4g_live := n2, ol_dma_low_live := n3\<rparr>) a = Some i" for n1 n2 n3
      using i(1) by (simp add: ledger_find_def)
    have view: "ledger_view l' = (ledger_view l)(a \<mapsto> (Reserved, False))"
      using ledger_view_set_record [OF f'] by (simp add: l'_def)
    have nf: "a \<notin> set (ol_free l)" using ledger_ok_recs(4) [OF ok] Some v Allocated by simp
    have "0 < ol_live_allocated l" using ok cnt_pos [OF finite_view Some, of is_live] v Allocated by (simp add: ledger_ok_def)
    moreover have "0 < ol_above_4g_live l" if "a \<ge> DMA_32BIT_ADDRESS_LIMIT"
      using that ok cnt_pos [OF finite_view Some, of is_live_high] v Allocated by (simp add: ledger_ok_def)
    moreover have "0 < ol_dma_low_live l" if "low"
      using that ok cnt_pos [OF finite_view Some, of is_dma] v by (simp add: ledger_ok_def)
    ultimately have "ledger_ok l'"
      using ledger_ok_recs [OF ok] Some v Allocated nf i(3)
      by (intro ledger_ok_upd [OF ok view _ _ _ _ _ _ _ a]) (simp_all add: l'_def)
    moreover have "ledger_reserve al a l = Some (Inr True, l')" using i Allocated by (simp add: ledger_reserve_def Let_def l'_def)
    ultimately show ?thesis using view Some v Allocated by simp
  next
    case Free
    then have "low = False" using low by auto
    then have "a \<in> set (ol_free l)" using ledger_ok_recs(4) [OF ok] Some v Free by simp
    then obtain j where p: "position (\<lambda>x. x = a) (ol_free l) = Some j"
      by (cases "position (\<lambda>x. x = a) (ol_free l)") (auto simp: position_None)
    then have j: "j < length (ol_free l)" "ol_free l ! j = a" using position_SomeD [OF p] by auto
    define l' where "l' = set_record i Reserved False (l\<lparr>ol_free := swap_remove j (ol_free l)\<rparr>)"
    have "ledger_find (l\<lparr>ol_free := swap_remove j (ol_free l)\<rparr>) a = Some i" using i(1) by (simp add: ledger_find_def)
    from ledger_view_set_record [OF this] have view: "ledger_view l' = (ledger_view l)(a \<mapsto> (Reserved, False))"
      by (simp add: l'_def)
    have "ledger_ok l'"
      using ledger_ok_recs [OF ok] Some v Free \<open>low = False\<close> swap_remove_distinct_set [OF ledger_ok_recs(3) [OF ok] j(1)] j(2)
      by (intro ledger_ok_upd [OF ok view _ _ _ _ _ _ _ a]) (simp_all add: l'_def)
    moreover have "ledger_reserve al a l = Some (Inr True, l')" using i Free p by (simp add: ledger_reserve_def l'_def)
    ultimately show ?thesis using view Some v Free by simp
  qed
qed

section \<open>Reclaiming a batch\<close>

lemma check_duplicates_Inr: "check_duplicates prior xs = Inr () \<longleftrightarrow> distinct xs \<and> set prior \<inter> set xs = {}"
  by (induction prior xs rule: check_duplicates.induct) auto

lemma check_live_Inr: "check_live l xs = Inr () \<longleftrightarrow> set xs \<subseteq> in_state Allocated l"
proof (induction xs)
  case (Cons a xs)
  show ?case
  proof (cases "ledger_find l a")
    case None
    then show ?thesis using ledger_find_None [of l a] by (simp add: in_state_def)
  next
    case (Some i)
    then show ?thesis using Cons ledger_find_Some(3) [OF Some]
      by (cases "or_state (ol_records l ! i)") (auto simp: in_state_def)
  qed
qed simp

definition settle :: "nat \<Rightarrow> nat \<Rightarrow> nat \<Rightarrow> ownership_ledger \<Rightarrow> ownership_ledger" where
  "settle n d h l =
     l\<lparr>ol_live_allocated := ol_live_allocated l - n, ol_dma_low_live := ol_dma_low_live l - d,
       ol_above_4g_live := ol_above_4g_live l - h\<rparr>"

lemma free_all_ok:
  assumes "ledger_ok (settle n d h l)" "distinct xs" "set xs \<subseteq> in_state Allocated l"
    "ol_dma_low_live l \<le> u64_max" "ol_above_4g_live l \<le> u64_max"
  shows "\<exists>d' h' l'. free_all xs d h l = Some (d', h', l') \<and> ledger_ok (settle (n + length xs) d' h' l') \<and>
    ledger_view l' = override (set xs) (Free, False) (ledger_view l) \<and> ol_live_allocated l' = ol_live_allocated l"
  using assms
proof (induction xs arbitrary: n d h l)
  case (Cons a xs)
  obtain low where v: "ledger_view l a = Some (Allocated, low)" using Cons.prems(3) by (auto simp: in_state_def)
  obtain i where i: "ledger_find l a = Some i" "or_dma_low (ol_records l ! i) = low"
    using ledger_view_Some [OF v] by blast
  define d1 where "d1 = (if low then saturating_add d 1 else d)"
  define h1 where "h1 = (if a \<ge> DMA_32BIT_ADDRESS_LIMIT then saturating_add h 1 else h)"
  define l1 where "l1 = (set_record i Free False l)\<lparr>ol_free := ol_free l @ [a]\<rparr>"
  have step: "free_all (a # xs) d h l = free_all xs d1 h1 l1"
    using i by (simp add: Let_def d1_def h1_def l1_def)
  have view: "ledger_view l1 = (ledger_view l)(a \<mapsto> (Free, False))"
    using ledger_view_set_record [OF i(1)] by (simp add: l1_def)
  note ok = Cons.prems(1)
  have vs: "ledger_view (settle n d h l) a = Some (Allocated, low)" using v by (simp add: settle_def)
  have live: "0 < ol_live_allocated l - n"
    using ok cnt_pos [OF finite_view vs, of is_live] by (simp add: ledger_ok_def settle_def)
  have dma: "0 < ol_dma_low_live l - d" if low
    using that ok cnt_pos [OF finite_view vs, of is_dma] by (simp add: ledger_ok_def settle_def)
  have high: "0 < ol_above_4g_live l - h" if "a \<ge> DMA_32BIT_ADDRESS_LIMIT"
    using that ok cnt_pos [OF finite_view vs, of is_live_high] by (simp add: ledger_ok_def settle_def)
  have sd: "d1 = d + of_bool low" using dma Cons.prems(4) by (auto simp: d1_def saturating_add_def)
  have sh: "h1 = h + of_bool (a \<ge> DMA_32BIT_ADDRESS_LIMIT)" using high Cons.prems(5) by (auto simp: h1_def saturating_add_def)
  have a: "phys_frame a" using ok vs by (auto simp: ledger_ok_def)
  have nf: "a \<notin> set (ol_free l)" using ledger_ok_recs(4) [OF ok, of a] vs by (simp add: settle_def)
  have view': "ledger_view (settle (n + 1) d1 h1 l1) = (ledger_view (settle n d h l))(a \<mapsto> (Free, False))"
    using view by (simp add: settle_def)
  have "ledger_ok (settle (n + 1) d1 h1 l1)"
    using ledger_ok_recs [OF ok] vs nf live dma high sd sh
    by (intro ledger_ok_upd [OF ok view' _ _ _ _ _ _ _ a]) (auto simp: settle_def l1_def)
  moreover have "set xs \<subseteq> in_state Allocated l1"
    using Cons.prems(2,3) view by (auto simp: in_state_def)
  ultimately obtain d' h' l' where IH: "free_all xs d1 h1 l1 = Some (d', h', l')"
      "ledger_ok (settle (n + 1 + length xs) d' h' l')" "ledger_view l' = override (set xs) (Free, False) (ledger_view l1)"
      "ol_live_allocated l' = ol_live_allocated l1"
    using Cons.IH [of "n + 1" d1 h1 l1] Cons.prems by (auto simp: l1_def)
  moreover have "ol_live_allocated l1 = ol_live_allocated l" by (simp add: l1_def)
  ultimately show ?case unfolding step view override_insert by simp
qed simp

lemma reclaim_capacity:
  assumes ok: "ledger_ok l" and xs: "distinct xs" "set xs \<subseteq> in_state Allocated l"
  shows "length xs + length (ol_free l) \<le> ol_free_capacity l"
proof -
  have f: "set (ol_free l) = in_state Free l" and d: "distinct (ol_free l)" using ok by (simp_all add: ledger_ok_def)
  have "set xs \<inter> set (ol_free l) = {}" using xs(2) f by (auto simp: in_state_def)
  then have "length xs + length (ol_free l) = card (set xs \<union> set (ol_free l))"
    using xs(1) d by (simp add: card_Un_disjoint distinct_card)
  also have "\<dots> \<le> card (dom (ledger_view l))" using xs(2) f by (intro card_mono) (auto simp: in_state_def)
  also have "\<dots> = length (ol_records l)" by (rule card_records) (rule ledger_ok_recs [OF ok])
  also have "\<dots> \<le> ol_free_capacity l" by (rule ledger_ok_recs [OF ok])
  finally show ?thesis .
qed

lemma reclaim_with_ok:
  assumes ok: "ledger_ok l"
  shows "\<exists>r l'. reclaim_with xs l = Some (r, l') \<and> ledger_ok l' \<and>
    (if distinct xs \<and> set xs \<subseteq> in_state Allocated l
     then r = Inr () \<and> ledger_view l' = override (set xs) (Free, False) (ledger_view l)
     else (\<exists>e. r = Inl e) \<and> l' = l)"
proof (cases "distinct xs \<and> set xs \<subseteq> in_state Allocated l")
  case True
  have "ledger_ok (settle 0 0 0 l)" using ok by (simp add: settle_def)
  moreover have "ol_dma_low_live l \<le> u64_max" "ol_above_4g_live l \<le> u64_max"
    using ok cnt_small [of "ledger_view l" is_dma] cnt_small [of "ledger_view l" is_live_high] by (simp_all add: ledger_ok_def)
  ultimately obtain d h l' where f: "free_all xs 0 0 l = Some (d, h, l')" "ledger_ok (settle (0 + length xs) d h l')"
      "ledger_view l' = override (set xs) (Free, False) (ledger_view l)"
    using free_all_ok [of 0 0 0 l xs] True by blast
  have c: "\<not> ol_free_capacity l - length (ol_free l) < length xs"
    using reclaim_capacity [OF ok, of xs] True by auto
  have "check_duplicates [] xs = Inr ()" "check_live l xs = Inr ()" using True by (simp_all add: check_duplicates_Inr check_live_Inr)
  then have eq: "reclaim_with xs l = Some (Inr (), settle (length xs) d h l')"
    using c f(1) by (simp add: reclaim_with_def settle_def)
  have "ledger_view (settle (length xs) d h l') = ledger_view l'" by (simp add: settle_def)
  then show ?thesis using eq f True by simp
next
  case False
  have "\<exists>e. check_duplicates [] xs = Inl e \<or> check_duplicates [] xs = Inr () \<and> check_live l xs = Inl e"
    using False check_duplicates_Inr [of "[]" xs] check_live_Inr [of l xs]
    by (cases "check_duplicates [] xs"; cases "check_live l xs") auto
  then show ?thesis using ok False by (auto simp: reclaim_with_def)
qed

lemma claim_run_ok:
  assumes "ledger_ok l" "distinct xs" "set xs \<subseteq> set (ol_free l)"
  shows "\<exists>l'. claim_run xs l = Some l' \<and> ledger_ok l' \<and> ledger_view l' = override (set xs) (Allocated, False) (ledger_view l)"
  using assms
proof (induction xs arbitrary: l)
  case (Cons a xs)
  obtain i where p: "position (\<lambda>x. x = a) (ol_free l) = Some i"
    using Cons.prems(3) by (cases "position (\<lambda>x. x = a) (ol_free l)") (auto simp: position_None)
  then have i: "i < length (ol_free l)" "ol_free l ! i = a" using position_SomeD [OF p] by auto
  obtain l1 where l1: "mark_reclaimed_allocated a (l\<lparr>ol_free := swap_remove i (ol_free l)\<rparr>) = Some l1" "ledger_ok l1"
      "ledger_view l1 = (ledger_view l)(a \<mapsto> (Allocated, False))" "set (ol_free l1) = set (ol_free l) - {a}"
    using mark_reclaimed_ok [OF Cons.prems(1) i] by blast
  moreover have "set xs \<subseteq> set (ol_free l1)" using Cons.prems(2,3) l1(4) by auto
  ultimately obtain l' where "claim_run xs l1 = Some l'" "ledger_ok l'"
      "ledger_view l' = override (set xs) (Allocated, False) (ledger_view l1)"
    using Cons.IH [of l1] Cons.prems(2) by (metis distinct.simps(2))
  then show ?case using p l1 by (simp add: override_insert)
qed simp

lemma page_run_distinct [simp]: "distinct (page_run start pages)"
  by (auto simp: page_run_def distinct_map inj_on_def PAGE_SIZE_def)

lemma length_page_run [simp]: "length (page_run start pages) = pages"
  by (simp add: page_run_def)

lemma fits_below_iff: "fits_below s n m \<longleftrightarrow> s + n \<le> u64_max \<and> s + n \<le> m"
  by (simp add: fits_below_def checked_add_def)

lemma claim_reclaimed_range_ok:
  assumes ok: "ledger_ok l"
  shows "\<exists>r l'. claim_reclaimed_range_below pages limit l = Some (r, l') \<and> ledger_ok l' \<and>
    (case r of None \<Rightarrow> l' = l
     | Some start \<Rightarrow> start + pages * PAGE_SIZE \<le> limit \<and> set (page_run start pages) \<subseteq> in_state Free l \<and>
         ledger_view l' = override (set (page_run start pages)) (Allocated, False) (ledger_view l))"
proof (cases "checked_mul pages PAGE_SIZE")
  case None
  then show ?thesis using ok by (simp add: claim_reclaimed_range_below_def)
next
  case (Some n)
  then have n: "n = pages * PAGE_SIZE" by simp
  let ?P = "\<lambda>start. fits_below start n limit \<and> list_all (\<lambda>a. a \<in> set (ol_free l)) (page_run start pages)"
  show ?thesis
  proof (cases "find ?P (ol_free l)")
    case None
    then show ?thesis using ok Some by (simp add: claim_reclaimed_range_below_def del: checked_mul_eq_Some)
  next
    case (Some start)
    then have s: "?P start" by (auto simp: find_Some_iff)
    then have sub: "set (page_run start pages) \<subseteq> set (ol_free l)" by (auto simp: list_all_iff)
    obtain l' where l': "claim_run (page_run start pages) l = Some l'" "ledger_ok l'"
        "ledger_view l' = override (set (page_run start pages)) (Allocated, False) (ledger_view l)"
      using claim_run_ok [OF ok page_run_distinct sub] by blast
    then have "claim_reclaimed_range_below pages limit l = Some (Some start, l')"
      using Some \<open>checked_mul pages PAGE_SIZE = Some n\<close>
      by (simp add: claim_reclaimed_range_below_def del: checked_mul_eq_Some)
    then show ?thesis using l' s n sub ok by (auto simp: fits_below_iff ledger_ok_def)
  qed
qed

section \<open>Frames from addresses\<close>

definition phys_api_ok :: "phys_api \<Rightarrow> bool" where
  "phys_api_ok api \<longleftrightarrow> (\<forall>a < 2 ^ 52. pa_try_new api a) \<and> (\<forall>a. PAGE_SIZE dvd a \<longrightarrow> pa_from_start_address api a)"

lemma frame_from_address_ok: "phys_api_ok api \<Longrightarrow> phys_frame a \<Longrightarrow> frame_from_address api a = Inr a"
  by (simp add: phys_api_ok_def phys_frame_def frame_from_address_def)

lemma mark_all_dma_low_ok:
  assumes "ledger_ok l" "set xs \<subseteq> in_state Allocated l"
  shows "\<exists>l'. mark_all_dma_low xs l = Some l' \<and> ledger_ok l' \<and> ledger_view l' = override (set xs) (Allocated, True) (ledger_view l)"
  using assms
proof (induction xs arbitrary: l)
  case (Cons a xs)
  obtain low where v: "ledger_view l a = Some (Allocated, low)" using Cons.prems(2) by (auto simp: in_state_def)
  obtain l1 where l1: "mark_dma_low a l = Some l1" "ledger_ok l1" "ledger_view l1 = (ledger_view l)(a \<mapsto> (Allocated, True))"
    using mark_dma_low_ok [OF Cons.prems(1) v] by blast
  moreover have "set xs \<subseteq> in_state Allocated l1" using Cons.prems(2) l1(3) by (auto simp: in_state_def)
  ultimately obtain l' where "mark_all_dma_low xs l1 = Some l'" "ledger_ok l'"
      "ledger_view l' = override (set xs) (Allocated, True) (ledger_view l1)"
    using Cons.IH [of l1] by blast
  then show ?case using l1 by (simp add: override_insert)
qed simp

lemma frames_of_run_ok:
  assumes "phys_api_ok api" "ledger_ok l" "set xs \<subseteq> in_state Allocated l"
  shows "\<exists>l'. frames_of_run api dma_low xs frames l = Some (Inr (frames @ xs), l') \<and> ledger_ok l' \<and>
    ledger_view l' = (if dma_low then override (set xs) (Allocated, True) (ledger_view l) else ledger_view l)"
  using assms
proof (induction xs arbitrary: l frames)
  case (Cons a xs)
  obtain low where v: "ledger_view l a = Some (Allocated, low)" using Cons.prems(3) by (auto simp: in_state_def)
  then have "phys_frame a" using Cons.prems(2) by (auto simp: ledger_ok_def)
  then have f: "frame_from_address api a = Inr a" using frame_from_address_ok Cons.prems(1) by blast
  show ?case
  proof (cases dma_low)
    case True
    obtain l1 where l1: "mark_dma_low a l = Some l1" "ledger_ok l1" "ledger_view l1 = (ledger_view l)(a \<mapsto> (Allocated, True))"
      using mark_dma_low_ok [OF Cons.prems(2) v] by blast
    moreover have "set xs \<subseteq> in_state Allocated l1" using Cons.prems(3) l1(3) by (auto simp: in_state_def)
    ultimately show ?thesis using Cons.IH [of l1 "frames @ [a]"] Cons.prems(1) True f by (auto simp: override_insert)
  next
    case False
    then show ?thesis using Cons.IH [of l "frames @ [a]"] Cons.prems f by auto
  qed
qed simp

section \<open>The allocator invariant\<close>

definition eligible_frames :: "usable_region list \<Rightarrow> nat set" where
  "eligible_frames rs = {x. PAGE_SIZE dvd x \<and> (\<exists>r \<in> set rs. region_contains r x)}"

abbreviation eligible :: "frame_allocator \<Rightarrow> nat set" where
  "eligible a \<equiv> eligible_frames (fa_usable_regions a)"

abbreviation fa_view :: "frame_allocator \<Rightarrow> nat \<rightharpoonup> ownership_state \<times> bool" where
  "fa_view a \<equiv> ledger_view (fa_ownership a)"

text \<open>Every frame below a region's cursor \<^verbatim>\<open>next\<close> has an ownership record.\<close>

definition region_ok :: "(nat \<rightharpoonup> 'v) \<Rightarrow> nat \<Rightarrow> usable_region \<Rightarrow> bool" where
  "region_ok m space r \<longleftrightarrow>
     PAGE_SIZE dvd ur_base r \<and> PAGE_SIZE dvd ur_end r \<and> PAGE_SIZE dvd ur_next r \<and> PAGE_SIZE dvd ur_high_next r \<and>
     PAGE_SIZE dvd ur_at_or_above_next r \<and> ur_base r \<le> ur_next r \<and> ur_next r \<le> ur_end r \<and> ur_end r \<le> space \<and>
     (\<forall>x. PAGE_SIZE dvd x \<longrightarrow> ur_base r \<le> x \<longrightarrow> x < ur_next r \<longrightarrow> m x \<noteq> None)"

definition fa_ok :: "frame_allocator \<Rightarrow> bool" where
  "fa_ok a \<longleftrightarrow>
     ledger_ok (fa_ownership a) \<and> sorted_wrt (\<lambda>r s. ur_end r \<le> ur_base s) (fa_usable_regions a) \<and>
     (\<forall>r \<in> set (fa_usable_regions a). region_ok (fa_view a) (fa_physical_address_space_size a) r) \<and>
     0 < fa_physical_address_space_size a \<and> fa_physical_address_space_size a \<le> 2 ^ 52 \<and>
     in_state Allocated (fa_ownership a) \<union> in_state Free (fa_ownership a) \<subseteq> eligible a \<and>
     fa_total_eligible_frames a = card (eligible a) \<and>
     fa_fresh_remaining_frames a = card (eligible a - dom (fa_view a)) \<and>
     fa_reserved_eligible_frames a = card (in_state Reserved (fa_ownership a) \<inter> eligible a)"

lemma fa_ok_ledger: "fa_ok a \<Longrightarrow> ledger_ok (fa_ownership a)"
  by (simp add: fa_ok_def)

lemma dvd_step:
  assumes "PAGE_SIZE dvd x" "PAGE_SIZE dvd e" "x < e"
  shows "x + PAGE_SIZE \<le> e"
proof -
  have "PAGE_SIZE dvd e - x" using assms(1,2) by simp
  then have "PAGE_SIZE \<le> e - x" using assms(3) by (intro dvd_imp_le) simp_all
  then show ?thesis using assms(3) by simp
qed

lemma eligible_phys:
  assumes "fa_ok a" "x \<in> eligible a"
  shows "phys_frame x" "x + PAGE_SIZE \<le> fa_physical_address_space_size a"
proof -
  obtain r where r: "r \<in> set (fa_usable_regions a)" "region_contains r x" and x: "PAGE_SIZE dvd x"
    using assms(2) by (auto simp: eligible_frames_def)
  have ok: "region_ok (fa_view a) (fa_physical_address_space_size a) r" using assms(1) r by (auto simp: fa_ok_def)
  then have "PAGE_SIZE dvd ur_end r" "ur_end r \<le> fa_physical_address_space_size a" "x < ur_end r"
    using r(2) by (auto simp: region_ok_def region_contains_def)
  moreover from this x have "x + PAGE_SIZE \<le> ur_end r"
    using dvd_step by blast
  ultimately show "x + PAGE_SIZE \<le> fa_physical_address_space_size a" by simp
  then show "phys_frame x" using x assms(1) by (simp add: phys_frame_def fa_ok_def PAGE_SIZE_def)
qed

lemma finite_eligible: "fa_ok a \<Longrightarrow> finite (eligible a)"
  using card_phys_frames(1) [of "eligible a"] eligible_phys(1) by blast

lemma in_state_dom: "dom (ledger_view l) = in_state Allocated l \<union> in_state Free l \<union> in_state Reserved l"
proof -
  have "st = Allocated \<or> st = Free \<or> st = Reserved" for st by (cases st) auto
  then show ?thesis by (fastforce simp: in_state_def)
qed

lemma in_state_disjoint: "st \<noteq> st' \<Longrightarrow> in_state st l \<inter> in_state st' l = {}"
  by (auto simp: in_state_def)

lemma region_ok_mono: "region_ok m space r \<Longrightarrow> dom m \<subseteq> dom m' \<Longrightarrow> region_ok m' space r"
  unfolding region_ok_def domIff subset_iff by blast

text \<open>A ledger with the same tracked frames and the same reserved frames.\<close>

lemma fa_ok_own:
  assumes ok: "fa_ok a" and l: "ledger_ok l" and d: "dom (ledger_view l) = dom (fa_view a)"
    and res: "in_state Reserved l = in_state Reserved (fa_ownership a)"
  shows "fa_ok (a\<lparr>fa_ownership := l\<rparr>)"
proof -
  have "in_state Allocated l \<union> in_state Free l = dom (ledger_view l) - in_state Reserved l"
    using in_state_dom [of l] in_state_disjoint [of Allocated Reserved l] in_state_disjoint [of Free Reserved l] by auto
  also have "\<dots> = dom (fa_view a) - in_state Reserved (fa_ownership a)" using d res by simp
  also have "\<dots> \<subseteq> eligible a" using ok in_state_dom [of "fa_ownership a"] by (auto simp: fa_ok_def)
  finally have "in_state Allocated l \<union> in_state Free l \<subseteq> eligible a" .
  moreover have "region_ok (ledger_view l) (fa_physical_address_space_size a) r" if "r \<in> set (fa_usable_regions a)" for r
  proof (rule region_ok_mono)
    show "region_ok (fa_view a) (fa_physical_address_space_size a) r" using ok that by (simp add: fa_ok_def)
    show "dom (fa_view a) \<subseteq> dom (ledger_view l)" using d by simp
  qed
  ultimately show ?thesis using ok l d res by (simp add: fa_ok_def)
qed

text \<open>A fresh frame is issued.\<close>

lemma fa_ok_fresh:
  assumes ok: "fa_ok a" and l: "ledger_ok l" and x: "x \<in> eligible a" "fa_view a x = None"
    and v: "ledger_view l = (fa_view a)(x \<mapsto> (Allocated, False))"
  shows "fa_ok (a\<lparr>fa_ownership := l, fa_fresh_remaining_frames := fa_fresh_remaining_frames a - 1\<rparr>)"
proof -
  have "in_state Allocated l \<union> in_state Free l \<subseteq> insert x (in_state Allocated (fa_ownership a) \<union> in_state Free (fa_ownership a))"
    unfolding in_state_def v by (auto split: if_splits)
  then have st: "in_state Allocated l \<union> in_state Free l \<subseteq> eligible a" using ok x(1) by (auto simp: fa_ok_def)
  have "region_ok (ledger_view l) (fa_physical_address_space_size a) r" if "r \<in> set (fa_usable_regions a)" for r
  proof (rule region_ok_mono)
    show "region_ok (fa_view a) (fa_physical_address_space_size a) r" using ok that by (simp add: fa_ok_def)
    show "dom (fa_view a) \<subseteq> dom (ledger_view l)" using v by auto
  qed
  moreover have "eligible a - dom (ledger_view l) = (eligible a - dom (fa_view a)) - {x}" using v by auto
  then have "card (eligible a - dom (ledger_view l)) = card (eligible a - dom (fa_view a)) - 1"
    using x finite_eligible [OF ok] by (simp add: domIff)
  moreover have "in_state Reserved l = in_state Reserved (fa_ownership a)"
    using x(2) unfolding in_state_def v by auto
  ultimately show ?thesis using ok l st by (simp add: fa_ok_def)
qed

definition bounds :: "usable_region list \<Rightarrow> (nat \<times> nat) list" where
  "bounds rs = map (\<lambda>r. (ur_base r, ur_end r)) rs"

lemma eligible_bounds: "bounds rs = bounds rs' \<Longrightarrow> eligible_frames rs = eligible_frames rs'"
proof -
  have "eligible_frames rs = {x. PAGE_SIZE dvd x \<and> (\<exists>(b, e) \<in> set (bounds rs). b \<le> x \<and> x < e)}" for rs
    by (auto simp: eligible_frames_def bounds_def region_contains_def)
  then show "bounds rs = bounds rs' \<Longrightarrow> eligible_frames rs = eligible_frames rs'" by simp
qed

lemma sorted_bounds:
  assumes "bounds rs = bounds rs'"
  shows "sorted_wrt (\<lambda>r s. ur_end r \<le> ur_base s) rs \<longleftrightarrow> sorted_wrt (\<lambda>r s. ur_end r \<le> ur_base s) rs'"
proof -
  have "sorted_wrt (\<lambda>r s. ur_end r \<le> ur_base s) rs \<longleftrightarrow> sorted_wrt (\<lambda>p q. snd p \<le> fst q) (bounds rs)" for rs
    by (simp add: bounds_def sorted_wrt_map)
  then show ?thesis using assms by simp
qed

lemma fa_ok_regions:
  assumes ok: "fa_ok a" and b: "bounds rs = bounds (fa_usable_regions a)"
    and r: "\<And>r. r \<in> set rs \<Longrightarrow> region_ok (fa_view a) (fa_physical_address_space_size a) r"
  shows "fa_ok (a\<lparr>fa_usable_regions := rs\<rparr>)"
  using ok r eligible_bounds [OF b] sorted_bounds [OF b] by (simp add: fa_ok_def)

lemma update_region_Some:
  assumes "update_region P f rs = Some rs'"
  shows "\<exists>i < length rs. P (rs ! i) \<and> rs' = rs[i := f (rs ! i)]"
  using assms
proof (induction rs arbitrary: rs')
  case (Cons r rs)
  show ?case
  proof (cases "P r")
    case True
    then show ?thesis using Cons.prems by (intro exI [of _ 0]) simp
  next
    case False
    then obtain rs1 where rs1: "update_region P f rs = Some rs1" "rs' = r # rs1" using Cons.prems by auto
    then obtain i where "i < length rs" "P (rs ! i)" "rs1 = rs[i := f (rs ! i)]" using Cons.IH by blast
    then show ?thesis using rs1 by (intro exI [of _ "Suc i"]) simp
  qed
qed simp

lemma update_region_None: "update_region P f rs = None \<longleftrightarrow> (\<forall>r \<in> set rs. \<not> P r)"
  by (induction rs) auto

lemma update_region_bounds:
  assumes "update_region P f rs = Some rs'" "\<And>r. ur_base (f r) = ur_base r \<and> ur_end (f r) = ur_end r"
  shows "bounds rs' = bounds rs"
proof -
  obtain i where "i < length rs" "rs' = rs[i := f (rs ! i)]" using update_region_Some [OF assms(1)] by blast
  then show ?thesis using assms(2) by (simp add: bounds_def map_update list_update_same_conv)
qed

lemma update_region_ok:
  assumes "update_region P f rs = Some rs'" "\<forall>r \<in> set rs. Q r" "\<And>r. r \<in> set rs \<Longrightarrow> P r \<Longrightarrow> Q r \<Longrightarrow> Q (f r)"
  shows "\<forall>r \<in> set rs'. Q r"
proof -
  obtain i where i: "i < length rs" "P (rs ! i)" "rs' = rs[i := f (rs ! i)]" using update_region_Some [OF assms(1)] by blast
  from i(3) have "set rs' \<subseteq> insert (f (rs ! i)) (set rs)" by (simp add: set_update_subset_insert)
  moreover have "Q (f (rs ! i))" using assms(2,3) i by simp
  ultimately show ?thesis using assms(2) by auto
qed

lemma advance_cursor_ok:
  assumes ok: "fa_ok a" and x: "PAGE_SIZE dvd x"
  shows "fa_ok (advance_at_or_above_cursor x a)"
proof (cases "update_region (\<lambda>r. region_contains r x) (\<lambda>r. r\<lparr>ur_at_or_above_next := x + PAGE_SIZE,
    ur_high_next := (if ur_high_next r = x then x + PAGE_SIZE else ur_high_next r)\<rparr>) (fa_usable_regions a)")
  case (Some rs)
  have "\<forall>r \<in> set rs. region_ok (fa_view a) (fa_physical_address_space_size a) r"
    by (rule update_region_ok [OF Some]) (use ok x in \<open>auto simp: fa_ok_def region_ok_def\<close>)
  moreover have "bounds rs = bounds (fa_usable_regions a)" by (rule update_region_bounds [OF Some]) simp
  ultimately show ?thesis using Some fa_ok_regions [OF ok] by (simp add: advance_at_or_above_cursor_def)
qed (simp add: advance_at_or_above_cursor_def ok)

text \<open>What an operation leaves alone.\<close>

definition kept :: "frame_allocator \<Rightarrow> frame_allocator \<Rightarrow> bool" where
  "kept a b \<longleftrightarrow>
     bounds (fa_usable_regions b) = bounds (fa_usable_regions a) \<and>
     fa_physical_address_space_size b = fa_physical_address_space_size a \<and>
     fa_total_eligible_frames b = fa_total_eligible_frames a"

lemma kept_eligible: "kept a b \<Longrightarrow> eligible b = eligible a"
  by (rule eligible_bounds) (simp add: kept_def)

lemma kept_refl [simp]: "kept a a"
  by (simp add: kept_def)

lemma kept_trans: "kept a b \<Longrightarrow> kept b c \<Longrightarrow> kept a c"
  by (simp add: kept_def)

lemma advance_cursor_frame [simp]:
  "fa_ownership (advance_at_or_above_cursor x a) = fa_ownership a" "fa_error (advance_at_or_above_cursor x a) = fa_error a"
  by (simp_all add: advance_at_or_above_cursor_def split: option.split)

lemma advance_cursor_kept [simp]: "kept a (advance_at_or_above_cursor x a)"
proof (cases "update_region (\<lambda>r. region_contains r x) (\<lambda>r. r\<lparr>ur_at_or_above_next := x + PAGE_SIZE,
    ur_high_next := (if ur_high_next r = x then x + PAGE_SIZE else ur_high_next r)\<rparr>) (fa_usable_regions a)")
  case (Some rs)
  moreover have "bounds rs = bounds (fa_usable_regions a)" by (rule update_region_bounds [OF Some]) simp
  ultimately show ?thesis by (simp add: advance_at_or_above_cursor_def kept_def)
qed (simp add: advance_at_or_above_cursor_def)

section \<open>Finding a frame\<close>

lemma find_unowned_spec:
  assumes "PAGE_SIZE dvd x" "e \<le> 2 ^ 52"
  shows "case find_unowned l x e of
      Some y \<Rightarrow> PAGE_SIZE dvd y \<and> x \<le> y \<and> y < e \<and> ledger_view l y = None
    | None \<Rightarrow> \<forall>y. PAGE_SIZE dvd y \<longrightarrow> x \<le> y \<longrightarrow> y < e \<longrightarrow> ledger_view l y \<noteq> None"
  using assms
proof (induction l x e rule: find_unowned.induct)
  case (1 l x e)
  show ?case
  proof (cases "x < e \<and> ledger_view l x \<noteq> None")
    case True
    have add: "checked_add x PAGE_SIZE = Some (x + PAGE_SIZE)"
      using True "1.prems" by (simp add: checked_add_def u64_max_def PAGE_SIZE_def)
    then have step: "find_unowned l x e = find_unowned l (x + PAGE_SIZE) e"
      using True ledger_find_None [of l x] by (subst find_unowned.simps) (auto simp del: checked_add_eq_Some)
    have IH: "case find_unowned l (x + PAGE_SIZE) e of
        Some y \<Rightarrow> PAGE_SIZE dvd y \<and> x + PAGE_SIZE \<le> y \<and> y < e \<and> ledger_view l y = None
      | None \<Rightarrow> \<forall>y. PAGE_SIZE dvd y \<longrightarrow> x + PAGE_SIZE \<le> y \<longrightarrow> y < e \<longrightarrow> ledger_view l y \<noteq> None"
      using "1.IH" [OF _ _ add] True "1.prems" ledger_find_None [of l x] by simp
    have "x + PAGE_SIZE \<le> y" if "PAGE_SIZE dvd y" "x \<le> y" "x \<noteq> y" for y
      using dvd_step "1.prems"(1) that by auto
    then show ?thesis using IH True unfolding step by (fastforce split: option.splits)
  next
    case False
    then show ?thesis using "1.prems" by (subst find_unowned.simps) (auto simp: ledger_find_None)
  qed
qed

lemma region_candidate_spec:
  assumes r: "region_ok (ledger_view l) space r" "space \<le> 2 ^ 52" and m: "PAGE_SIZE dvd m"
  shows "case region_candidate l m r of
      Some y \<Rightarrow> PAGE_SIZE dvd y \<and> region_contains r y \<and> m \<le> y \<and> ledger_view l y = None
    | None \<Rightarrow> \<forall>y. PAGE_SIZE dvd y \<longrightarrow> region_contains r y \<longrightarrow> m \<le> y \<longrightarrow> ledger_view l y \<noteq> None"
proof (cases "max (ur_base r) m \<ge> ur_end r")
  case True
  then show ?thesis by (auto simp: region_candidate_def region_contains_def)
next
  case False
  define lower where "lower = max (ur_base r) m"
  define hint where "hint = min (max (max (ur_at_or_above_next r)
    (if m = DMA_32BIT_ADDRESS_LIMIT then ur_high_next r else lower)) lower) (ur_end r)"
  have eq: "region_candidate l m r = (case find_unowned l hint (ur_end r) of Some y \<Rightarrow> Some y | None \<Rightarrow> find_unowned l lower hint)"
    using False unfolding region_candidate_def Let_def lower_def [symmetric] hint_def [symmetric] by simp
  have d: "PAGE_SIZE dvd lower" "PAGE_SIZE dvd hint"
    using r m by (auto simp: lower_def hint_def region_ok_def max_def min_def)
  have b: "lower \<le> hint" "hint \<le> ur_end r" "ur_end r \<le> 2 ^ 52"
    using False r by (auto simp: lower_def hint_def region_ok_def)
  have h: "hint \<le> 2 ^ 52" using b by linarith
  note high = find_unowned_spec [OF d(2) b(3), of l] and low = find_unowned_spec [OF d(1) h, of l]
  show ?thesis
  proof (cases "find_unowned l hint (ur_end r)")
    case (Some y)
    then show ?thesis using high b by (auto simp: eq region_contains_def lower_def)
  next
    case None
    then have hi: "\<forall>y. PAGE_SIZE dvd y \<longrightarrow> hint \<le> y \<longrightarrow> y < ur_end r \<longrightarrow> ledger_view l y \<noteq> None" using high by simp
    show ?thesis
    proof (cases "find_unowned l lower hint")
      case (Some y)
      then show ?thesis using low b None by (auto simp: eq region_contains_def lower_def)
    next
      case None2: None
      then have "ledger_view l y \<noteq> None" if "PAGE_SIZE dvd y" "region_contains r y" "m \<le> y" for y
        using low hi that by (cases "y < hint") (auto simp: region_contains_def lower_def)
      then show ?thesis using None None2 by (simp add: eq)
    qed
  qed
qed

lemma find_map_cases: "case find_map f xs of None \<Rightarrow> \<forall>x \<in> set xs. f x = None | Some y \<Rightarrow> \<exists>x \<in> set xs. f x = Some y"
  by (induction xs) (auto split: option.splits)

text \<open>The allocator hands out \<open>f\<close>.\<close>

definition issued :: "frame_allocator \<Rightarrow> frame_allocator \<Rightarrow> nat \<Rightarrow> bool" where
  "issued a b f \<longleftrightarrow> f \<in> eligible a \<and> fa_view a f \<in> {None, Some (Free, False)} \<and> fa_view b = (fa_view a)(f \<mapsto> (Allocated, False))"

text \<open>The frames that may be handed out: untouched ones and reclaimed ones.\<close>

definition available :: "frame_allocator \<Rightarrow> nat set" where
  "available a = {f \<in> eligible a. fa_view a f = None \<or> fa_view a f = Some (Free, False)}"

definition untouched :: "frame_allocator \<Rightarrow> nat set" where
  "untouched a = eligible a - dom (fa_view a)"

lemma reclaimed_ok:
  assumes ok: "fa_ok a" and i: "free_index = Some i" "i < length (ol_free (fa_ownership a))"
  shows "\<exists>l. claim_reclaimed_at free_index (fa_ownership a) = Some (Some (ol_free (fa_ownership a) ! i), l) \<and>
    fa_ok (a\<lparr>fa_ownership := l\<rparr>) \<and> issued a (a\<lparr>fa_ownership := l\<rparr>) (ol_free (fa_ownership a) ! i)"
proof -
  let ?f = "ol_free (fa_ownership a) ! i"
  obtain l where l: "claim_reclaimed_at free_index (fa_ownership a) = Some (Some ?f, l)" "ledger_ok l"
      "ledger_view l = (fa_view a)(?f \<mapsto> (Allocated, False))" "fa_view a ?f = Some (Free, False)"
    using claim_reclaimed_at_ok [OF fa_ok_ledger [OF ok] i] by blast
  have "dom (ledger_view l) = dom (fa_view a)" using l(3,4) by auto
  moreover have "in_state Reserved l = in_state Reserved (fa_ownership a)" using l(4) unfolding in_state_def l(3) by auto
  ultimately have "fa_ok (a\<lparr>fa_ownership := l\<rparr>)" using fa_ok_own [OF ok l(2)] by blast
  moreover have "?f \<in> eligible a" using ok l(4) by (auto simp: fa_ok_def in_state_def)
  ultimately show ?thesis using l by (auto simp: issued_def)
qed

lemma free_available: "fa_ok a \<Longrightarrow> f \<in> set (ol_free (fa_ownership a)) \<longleftrightarrow> fa_view a f = Some (Free, False)"
  by (rule ledger_ok_recs(4)) (simp add: fa_ok_def)

lemma rposition_cases:
  obtains "rposition P xs = None" "\<forall>x \<in> set xs. \<not> P x"
  | i where "rposition P xs = Some i" "i < length xs" "P (xs ! i)"
  using rposition_None [of P xs] rposition_SomeD [of P xs] by (cases "rposition P xs") auto

lemma fresh_issue_ok:
  assumes ok: "fa_ok a" and f: "f \<in> eligible a" "fa_view a f = None" and c: "claim_fresh al f (fa_ownership a) = (Inr True, l)"
  shows "fa_ok (a\<lparr>fa_ownership := l, fa_fresh_remaining_frames := fa_fresh_remaining_frames a - 1\<rparr>)"
    "ledger_view l = (fa_view a)(f \<mapsto> (Allocated, False))"
proof -
  note cf = claim_fresh_ok [OF fa_ok_ledger [OF ok] eligible_phys(1) [OF ok f(1)] c]
  then show "ledger_view l = (fa_view a)(f \<mapsto> (Allocated, False))" by blast
  show "fa_ok (a\<lparr>fa_ownership := l, fa_fresh_remaining_frames := fa_fresh_remaining_frames a - 1\<rparr>)"
    using fa_ok_fresh [OF ok _ f] cf by blast
qed

lemma fa_ok_frame [simp]:
  "fa_ok (a\<lparr>fa_highest_issued_address := n\<rparr>) = fa_ok a" "fa_ok (a\<lparr>fa_error := e\<rparr>) = fa_ok a"
  "fa_ok (a\<lparr>fa_dma_low_allocations := n\<rparr>) = fa_ok a" "fa_ok (a\<lparr>fa_dma_low_failures := n\<rparr>) = fa_ok a"
  "fa_ok (a\<lparr>fa_allocation_failures := n\<rparr>) = fa_ok a"
  by (simp_all add: fa_ok_def)

lemma kept_frame [simp]:
  "kept a (b\<lparr>fa_highest_issued_address := n\<rparr>) = kept a b" "kept a (b\<lparr>fa_error := e\<rparr>) = kept a b"
  "kept a (b\<lparr>fa_dma_low_allocations := n\<rparr>) = kept a b" "kept a (b\<lparr>fa_dma_low_failures := n\<rparr>) = kept a b"
  "kept a (b\<lparr>fa_allocation_failures := n\<rparr>) = kept a b" "kept a (b\<lparr>fa_ownership := l\<rparr>) = kept a b"
  "kept a (b\<lparr>fa_fresh_remaining_frames := n\<rparr>) = kept a b"
  by (simp_all add: kept_def)

section \<open>Single-frame allocation\<close>

text \<open>
  The contract of an allocation that may hand out the frames satisfying \<open>P\<close>: it returns, keeps the invariant,
  issues one such frame, or reports that none is left, or reports an error and issues nothing.
\<close>

definition alloc_spec :: "(nat \<Rightarrow> bool) \<Rightarrow> bool \<Rightarrow> (nat \<Rightarrow> bool) \<Rightarrow> frame_allocator \<Rightarrow> (nat option fa \<times> frame_allocator) option \<Rightarrow> bool" where
  "alloc_spec al malformed P a res \<longleftrightarrow>
     (\<exists>r b. res = Some (r, b) \<and> fa_ok b \<and> kept a b \<and> fa_above_4g_frames b = fa_above_4g_frames a \<and>
       (case r of
          Inl e \<Rightarrow> fa_view b = fa_view a \<and> (fa_error a \<noteq> None \<or> \<not> al 0 \<or> \<not> al 1 \<or> malformed)
        | Inr None \<Rightarrow> fa_view b = fa_view a \<and> fa_error b = fa_error a \<and> (\<forall>f \<in> available a. \<not> P f)
        | Inr (Some f) \<Rightarrow> P f \<and> issued a b f))"

lemma alloc_spec_cong:
  assumes "alloc_spec al malformed P a res" "\<And>f. PAGE_SIZE dvd f \<Longrightarrow> P f = Q f"
  shows "alloc_spec al malformed Q a res"
proof -
  obtain r b where rb: "res = Some (r, b)" "fa_ok b" "kept a b" "fa_above_4g_frames b = fa_above_4g_frames a"
      "case r of Inl e \<Rightarrow> fa_view b = fa_view a \<and> (fa_error a \<noteq> None \<or> \<not> al 0 \<or> \<not> al 1 \<or> malformed)
        | Inr None \<Rightarrow> fa_view b = fa_view a \<and> fa_error b = fa_error a \<and> (\<forall>f \<in> available a. \<not> P f)
        | Inr (Some f) \<Rightarrow> P f \<and> issued a b f"
    using assms(1) unfolding alloc_spec_def by blast
  have "\<forall>f \<in> eligible a. P f = Q f" using assms(2) by (simp add: eligible_frames_def)
  then have "case r of Inl e \<Rightarrow> fa_view b = fa_view a \<and> (fa_error a \<noteq> None \<or> \<not> al 0 \<or> \<not> al 1 \<or> malformed)
        | Inr None \<Rightarrow> fa_view b = fa_view a \<and> fa_error b = fa_error a \<and> (\<forall>f \<in> available a. \<not> Q f)
        | Inr (Some f) \<Rightarrow> Q f \<and> issued a b f"
    using rb(5) assms(2) by (auto simp: available_def issued_def split: sum.splits option.splits)
  then show ?thesis using rb(1-4) unfolding alloc_spec_def by blast
qed

lemma advance_cursor_above [simp]: "fa_above_4g_frames (advance_at_or_above_cursor x a) = fa_above_4g_frames a"
  by (simp add: advance_at_or_above_cursor_def split: option.split)

lemma round_up:
  assumes "checked_add m (PAGE_SIZE - 1) = Some b" "PAGE_SIZE dvd f"
  shows "b div PAGE_SIZE * PAGE_SIZE \<le> f \<longleftrightarrow> m \<le> f"
proof -
  obtain i where i: "f = i * PAGE_SIZE" using assms(2) by (metis dvd_def mult.commute)
  have b: "b = m + (PAGE_SIZE - 1)" using assms(1) by simp
  have "b div PAGE_SIZE \<le> i \<longleftrightarrow> m \<le> i * PAGE_SIZE"
    using div_less_iff_less_mult [of PAGE_SIZE b "Suc i"] by (auto simp: b PAGE_SIZE_def less_Suc_eq_le)
  then show ?thesis by (simp add: i PAGE_SIZE_def)
qed

lemma at_or_above_available:
  assumes "fa_ok a" "f \<in> available a"
  shows "PAGE_SIZE dvd f" "f < fa_physical_address_space_size a" "f \<in> eligible a"
  using assms eligible_phys(2) [OF assms(1), of f] by (auto simp: available_def eligible_frames_def PAGE_SIZE_def)

lemma at_or_above_fresh_spec:
  assumes ok: "fa_ok a" and api: "phys_api_ok api" and m: "PAGE_SIZE dvd m"
    and none: "\<forall>f. fa_view a f = Some (Free, False) \<longrightarrow> \<not> m \<le> f"
  shows "alloc_spec al False (\<lambda>f. m \<le> f) a
    (case find_map (region_candidate (fa_ownership a) m) (fa_usable_regions a) of
       None \<Rightarrow> Some (Inr None, a)
     | Some address \<Rightarrow>
         (case frame_from_address api address of
            Inl e \<Rightarrow> Some (Inl e, a)
          | Inr frame \<Rightarrow>
              (case claim_fresh al address (fa_ownership a) of
                 (Inl e, l) \<Rightarrow> Some (fa_fail e (a\<lparr>fa_ownership := l\<rparr>))
               | (Inr False, _) \<Rightarrow> None
               | (Inr True, l) \<Rightarrow>
                   let a1 = advance_at_or_above_cursor address
                              (a\<lparr>fa_ownership := l, fa_fresh_remaining_frames := fa_fresh_remaining_frames a - 1\<rparr>)
                   in Some (Inr (Some frame), a1\<lparr>fa_highest_issued_address := max (fa_highest_issued_address a1) address\<rparr>))))"
proof -
  let ?c = "find_map (region_candidate (fa_ownership a) m) (fa_usable_regions a)"
  have cand: "case region_candidate (fa_ownership a) m r of
      Some y \<Rightarrow> PAGE_SIZE dvd y \<and> region_contains r y \<and> m \<le> y \<and> fa_view a y = None
    | None \<Rightarrow> \<forall>y. PAGE_SIZE dvd y \<longrightarrow> region_contains r y \<longrightarrow> m \<le> y \<longrightarrow> fa_view a y \<noteq> None"
    if "r \<in> set (fa_usable_regions a)" for r
    using ok that m by (intro region_candidate_spec [of _ "fa_physical_address_space_size a"]) (auto simp: fa_ok_def)
  show ?thesis
  proof (cases ?c)
    case None
    then have "\<forall>r \<in> set (fa_usable_regions a). region_candidate (fa_ownership a) m r = None"
      using find_map_cases [where f = "region_candidate (fa_ownership a) m" and xs = "fa_usable_regions a"] by simp
    then have "\<not> m \<le> f" if "f \<in> available a" for f
      using that cand none by (fastforce simp: available_def eligible_frames_def)
    then show ?thesis using ok None by (simp add: alloc_spec_def)
  next
    case (Some f)
    then obtain r where r: "r \<in> set (fa_usable_regions a)" "region_candidate (fa_ownership a) m r = Some f"
      using find_map_cases [where f = "region_candidate (fa_ownership a) m" and xs = "fa_usable_regions a"] by auto
    then have f: "f \<in> eligible a" "m \<le> f" "fa_view a f = None" "PAGE_SIZE dvd f"
      using cand [OF r(1)] by (auto simp: eligible_frames_def)
    have frame: "frame_from_address api f = Inr f" by (rule frame_from_address_ok [OF api eligible_phys(1) [OF ok f(1)]])
    obtain q l where c: "claim_fresh al f (fa_ownership a) = (q, l)" by (cases "claim_fresh al f (fa_ownership a)")
    show ?thesis
    proof (cases q)
      case (Inl e)
      then have "l = fa_ownership a" "\<not> al 0 \<or> \<not> al 1" using claim_fresh_error [OF fa_ok_ledger [OF ok], of al f e l] c by simp_all
      then show ?thesis using Some frame c Inl ok by (simp add: alloc_spec_def fa_fail_def)
    next
      case (Inr claimed)
      have "claimed" using claim_fresh_unchanged [of al f "fa_ownership a" l] c Inr f(3) by (cases claimed) auto
      then have c': "claim_fresh al f (fa_ownership a) = (Inr True, l)" using c Inr by simp
      let ?a = "a\<lparr>fa_ownership := l, fa_fresh_remaining_frames := fa_fresh_remaining_frames a - 1\<rparr>"
      note issue = fresh_issue_ok [OF ok f(1,3) c']
      have "fa_ok (advance_at_or_above_cursor f ?a)" by (rule advance_cursor_ok [OF issue(1) f(4)])
      moreover have "kept a (advance_at_or_above_cursor f ?a)" by (rule kept_trans [of _ ?a]) simp_all
      ultimately show ?thesis
        using Some frame c' f issue(2) by (simp add: alloc_spec_def issued_def Let_def)
    qed
  qed
qed

lemma at_or_above_inner_spec:
  assumes ok: "fa_ok a" and api: "phys_api_ok api" and space: "min_address + PAGE_SIZE \<le> u64_max"
  shows "alloc_spec al False (\<lambda>f. min_address \<le> f) a (allocate_frame_at_or_above_inner api al min_address True a)"
proof (cases "fa_error a")
  case (Some e)
  then show ?thesis using ok by (simp add: allocate_frame_at_or_above_inner_def alloc_spec_def)
next
  case None
  obtain b where b: "checked_add min_address (PAGE_SIZE - 1) = Some b" using space by (simp add: PAGE_SIZE_def)
  define m where "m = b div PAGE_SIZE * PAGE_SIZE"
  have m: "PAGE_SIZE dvd m" by (simp add: m_def)
  have le: "m \<le> f \<longleftrightarrow> min_address \<le> f" if "PAGE_SIZE dvd f" for f using round_up [OF b that] by (simp add: m_def)
  have spec: "alloc_spec al False (\<lambda>f. min_address \<le> f) a x" if "alloc_spec al False (\<lambda>f. m \<le> f) a x" for x
    using alloc_spec_cong [OF that] le by blast
  show ?thesis
  proof (cases "m \<ge> fa_physical_address_space_size a")
    case True
    then have "\<forall>f \<in> available a. \<not> m \<le> f" using at_or_above_available [OF ok] by fastforce
    then show ?thesis using None b True ok
      by (rule_tac spec) (simp add: allocate_frame_at_or_above_inner_def Let_def m_def alloc_spec_def del: checked_add_eq_Some)
  next
    case False
    show ?thesis
    proof (cases rule: rposition_cases [of "\<lambda>x. x \<ge> m" "ol_free (fa_ownership a)"])
      case 1
      then have "\<forall>f. fa_view a f = Some (Free, False) \<longrightarrow> \<not> m \<le> f" using free_available [OF ok] by blast
      from at_or_above_fresh_spec [OF ok api m this, of al] show ?thesis
        using None b False 1(1) by (rule_tac spec)
          (simp add: allocate_frame_at_or_above_inner_def claim_reclaimed_at_or_above_def claim_reclaimed_at_def m_def
            del: checked_add_eq_Some)
    next
      case (2 i)
      let ?f = "ol_free (fa_ownership a) ! i"
      obtain l where l: "claim_reclaimed_at (rposition (\<lambda>x. x \<ge> m) (ol_free (fa_ownership a))) (fa_ownership a) = Some (Some ?f, l)"
          "fa_ok (a\<lparr>fa_ownership := l\<rparr>)" "issued a (a\<lparr>fa_ownership := l\<rparr>) ?f"
        using reclaimed_ok [OF ok 2(1,2)] by blast
      have e: "?f \<in> eligible a" using l(3) by (simp add: issued_def)
      have frame: "frame_from_address api ?f = Inr ?f" by (rule frame_from_address_ok [OF api eligible_phys(1) [OF ok e]])
      have "fa_ok (advance_at_or_above_cursor ?f (a\<lparr>fa_ownership := l\<rparr>))"
        using advance_cursor_ok [OF l(2)] e by (simp add: eligible_frames_def)
      moreover have "kept a (advance_at_or_above_cursor ?f (a\<lparr>fa_ownership := l\<rparr>))"
        by (rule kept_trans [of _ "a\<lparr>fa_ownership := l\<rparr>"]) simp_all
      ultimately have "alloc_spec al False (\<lambda>f. m \<le> f) a (Some (Inr (Some ?f), advance_at_or_above_cursor ?f (a\<lparr>fa_ownership := l\<rparr>)))"
        using l(3) 2(3) by (simp add: alloc_spec_def issued_def)
      then show ?thesis using None b False l(1) frame by (rule_tac spec)
        (simp add: allocate_frame_at_or_above_inner_def claim_reclaimed_at_or_above_def m_def Let_def del: checked_add_eq_Some)
    qed
  qed
qed

lemma fresh_candidate_cases:
  assumes ok: "fa_ok a"
  obtains (none) "fresh_candidate m (fa_usable_regions a) = None" "\<forall>f \<in> untouched a. \<not> fits_below f PAGE_SIZE m"
  | (some) f rs where "fresh_candidate m (fa_usable_regions a) = Some f" "f \<in> eligible a" "fits_below f PAGE_SIZE m"
      "advance_next f (fa_usable_regions a) = Some rs" "bounds rs = bounds (fa_usable_regions a)"
      "\<And>v :: nat \<rightharpoonup> ownership_state \<times> bool. v f \<noteq> None \<Longrightarrow> dom (fa_view a) \<subseteq> dom v \<Longrightarrow>
         \<forall>r \<in> set rs. region_ok v (fa_physical_address_space_size a) r"
proof -
  let ?P = "\<lambda>r. ur_next r < ur_end r \<and> fits_below (ur_next r) PAGE_SIZE m"
  have reg: "region_ok (fa_view a) (fa_physical_address_space_size a) r" if "r \<in> set (fa_usable_regions a)" for r
    using ok that by (simp add: fa_ok_def)
  show thesis
  proof (cases "find ?P (fa_usable_regions a)")
    case None
    have "\<not> fits_below f PAGE_SIZE m" if f: "f \<in> untouched a" for f
    proof
      assume fit: "fits_below f PAGE_SIZE m"
      obtain r where r: "r \<in> set (fa_usable_regions a)" "region_contains r f" "PAGE_SIZE dvd f" "fa_view a f = None"
        using f by (auto simp: untouched_def eligible_frames_def)
      have "ur_next r \<le> f"
        using reg [OF r(1)] r(2-4) unfolding region_ok_def region_contains_def by (meson not_less)
      moreover have "f < ur_end r" using r(2) by (simp add: region_contains_def)
      ultimately have "?P r" using fit by (auto simp: fits_below_iff)
      then show False using None r(1) by (auto simp: find_None_iff)
    qed
    then show thesis using none None by (simp add: fresh_candidate_def)
  next
    case (Some r)
    then have r: "r \<in> set (fa_usable_regions a)" "?P r" by (auto simp: find_Some_iff)
    let ?f = "ur_next r"
    let ?Q = "\<lambda>s. ur_next s = ?f \<and> region_contains s ?f"
    let ?g = "\<lambda>s. s\<lparr>ur_next := ur_next s + PAGE_SIZE\<rparr>"
    have c: "region_contains r ?f" using reg [OF r(1)] r(2) by (auto simp: region_ok_def region_contains_def)
    obtain rs where rs: "advance_next ?f (fa_usable_regions a) = Some rs"
      using update_region_None [of ?Q ?g "fa_usable_regions a"] r(1) c
      by (cases "advance_next ?f (fa_usable_regions a)") (auto simp: advance_next_def)
    have b: "bounds rs = bounds (fa_usable_regions a)"
      by (rule update_region_bounds [OF rs [unfolded advance_next_def]]) simp
    have ok': "\<forall>s \<in> set rs. region_ok v (fa_physical_address_space_size a) s"
      if v: "v ?f \<noteq> None" "dom (fa_view a) \<subseteq> dom v" for v :: "nat \<rightharpoonup> ownership_state \<times> bool"
    proof (rule update_region_ok [OF rs [unfolded advance_next_def]])
      show "\<forall>s \<in> set (fa_usable_regions a). region_ok v (fa_physical_address_space_size a) s"
        using region_ok_mono [OF reg v(2)] by blast
      fix s assume "?Q s" "region_ok v (fa_physical_address_space_size a) s"
      then have s: "ur_next s = ?f" "?f < ur_end s" and rs: "region_ok v (fa_physical_address_space_size a) s"
        by (auto simp: region_contains_def)
      have d: "PAGE_SIZE dvd ?f" using rs s by (simp add: region_ok_def)
      have "?f + PAGE_SIZE \<le> ur_end s" using dvd_step [OF d _ s(2)] rs by (simp add: region_ok_def)
      moreover have "v x \<noteq> None" if "PAGE_SIZE dvd x" "ur_base s \<le> x" "x < ?f + PAGE_SIZE" for x
      proof (cases "x < ?f")
        case True
        then show ?thesis using rs s that by (simp add: region_ok_def)
      next
        case False
        then have "x = ?f" using dvd_step [OF d that(1)] that(3) by (cases "x = ?f") auto
        then show ?thesis using v(1) by simp
      qed
      ultimately show "region_ok v (fa_physical_address_space_size a) (?g s)"
        using rs s by (simp add: region_ok_def)
    qed
    show thesis
    proof (rule some)
      show "fresh_candidate m (fa_usable_regions a) = Some ?f" using Some by (simp add: fresh_candidate_def)
      show "?f \<in> eligible a" using r(1) c reg [OF r(1)] by (auto simp: eligible_frames_def region_ok_def)
      show "fits_below ?f PAGE_SIZE m" using r(2) by simp
    qed (fact rs, fact b, fact ok')
  qed
qed

definition fresh_spec :: "(nat \<Rightarrow> bool) \<Rightarrow> (nat \<Rightarrow> bool) \<Rightarrow> frame_allocator \<Rightarrow> (nat option fa \<times> frame_allocator) option \<Rightarrow> bool" where
  "fresh_spec al P a res \<longleftrightarrow>
     (\<exists>r b. res = Some (r, b) \<and> fa_ok b \<and> kept a b \<and> fa_above_4g_frames b = fa_above_4g_frames a \<and>
       (case r of
          Inl e \<Rightarrow> fa_view b = fa_view a \<and> (\<not> al 0 \<or> \<not> al 1)
        | Inr None \<Rightarrow> fa_view b = fa_view a \<and> fa_error b = fa_error a \<and> (\<forall>f \<in> untouched a. \<not> P f)
        | Inr (Some f) \<Rightarrow> P f \<and> f \<in> untouched a \<and> fa_view b = (fa_view a)(f \<mapsto> (Allocated, False))))"

lemma fresh_spec_trans:
  assumes "kept a b" "fa_view b = fa_view a" "fa_error b = fa_error a" "fa_above_4g_frames b = fa_above_4g_frames a" "fresh_spec al P b res"
  shows "fresh_spec al P a res"
proof -
  have "untouched b = untouched a" using assms(2) kept_eligible [OF assms(1)] by (simp add: untouched_def)
  moreover obtain r c where "res = Some (r, c)" "fa_ok c" "kept b c" "fa_above_4g_frames c = fa_above_4g_frames b"
      "case r of Inl e \<Rightarrow> fa_view c = fa_view b \<and> (\<not> al 0 \<or> \<not> al 1)
        | Inr None \<Rightarrow> fa_view c = fa_view b \<and> fa_error c = fa_error b \<and> (\<forall>f \<in> untouched b. \<not> P f)
        | Inr (Some f) \<Rightarrow> P f \<and> f \<in> untouched b \<and> fa_view c = (fa_view b)(f \<mapsto> (Allocated, False))"
    using assms(5) unfolding fresh_spec_def by blast
  ultimately show ?thesis using assms(2,3,4) kept_trans [OF assms(1)]
    by (cases r) (auto simp: fresh_spec_def split: option.splits)
qed

lemma allocate_fresh_below_spec:
  assumes "fa_ok a" "phys_api_ok api"
  shows "fresh_spec al (\<lambda>f. fits_below f PAGE_SIZE m) a (allocate_fresh_below api al m a)"
  using assms
proof (induction api al m a rule: allocate_fresh_below.induct)
  case (1 api al m a)
  note ok = "1.prems"(1) and api = "1.prems"(2)
  from ok show ?case
  proof (cases rule: fresh_candidate_cases [of a m])
    case none
    then show ?thesis using ok by (subst allocate_fresh_below.simps) (simp add: fresh_spec_def)
  next
    case (some f rs)
    obtain q l where c: "claim_fresh al f (fa_ownership a) = (q, l)" by (cases "claim_fresh al f (fa_ownership a)")
    show ?thesis
    proof (cases q)
      case (Inl e)
      then have "l = fa_ownership a" "\<not> al 0 \<or> \<not> al 1" using claim_fresh_error [OF fa_ok_ledger [OF ok], of al f e l] c by simp_all
      then show ?thesis using some(1) c Inl ok
        by (subst allocate_fresh_below.simps) (simp add: fresh_spec_def fa_fail_def)
    next
      case (Inr claimed)
      show ?thesis
      proof (cases claimed)
        case True
        let ?a = "a\<lparr>fa_ownership := l, fa_fresh_remaining_frames := fa_fresh_remaining_frames a - 1\<rparr>"
        have c': "claim_fresh al f (fa_ownership a) = (Inr True, l)" using c Inr True by simp
        have f: "fa_view a f = None"
          using claim_fresh_ok [OF fa_ok_ledger [OF ok] eligible_phys(1) [OF ok some(2)] c'] by blast
        note issue = fresh_issue_ok [OF ok some(2) f c']
        have "fa_ok (?a\<lparr>fa_usable_regions := rs\<rparr>)"
        proof (rule fa_ok_regions [OF issue(1)])
          fix r assume "r \<in> set rs"
          then show "region_ok (fa_view ?a) (fa_physical_address_space_size ?a) r"
            using some(6) [of "ledger_view l"] issue(2) by auto
        qed (simp add: some(5))
        moreover have "frame_from_address api f = Inr f" by (rule frame_from_address_ok [OF api eligible_phys(1) [OF ok some(2)]])
        ultimately show ?thesis
          using some c' f issue(2) by (subst allocate_fresh_below.simps)
            (simp add: fresh_spec_def kept_def untouched_def domIff Let_def)
      next
        case False
        then have l: "l = fa_ownership a" and v: "fa_view a f \<noteq> None" using claim_fresh_unchanged [of al f "fa_ownership a" l] c Inr by auto
        let ?a = "a\<lparr>fa_usable_regions := rs\<rparr>"
        have ok': "fa_ok ?a" using some(6) [of "fa_view a"] v some(5) by (intro fa_ok_regions [OF ok]) auto
        have step: "allocate_fresh_below api al m a = allocate_fresh_below api al m ?a"
          using some(1,4) c Inr False l by (subst allocate_fresh_below.simps) simp
        have "fresh_spec al (\<lambda>f. fits_below f PAGE_SIZE m) ?a (allocate_fresh_below api al m ?a)"
          using "1.IH" [OF some(1) c [symmetric] refl Inr refl some(4) refl] False l ok' api by simp
        then show ?thesis unfolding step by (rule fresh_spec_trans [rotated 4]) (simp_all add: kept_def some(5))
      qed
    qed
  qed
qed

lemma below_inner_spec:
  assumes ok: "fa_ok a" and api: "phys_api_ok api"
  shows "alloc_spec al (limit = 0) (\<lambda>f. f + PAGE_SIZE \<le> limit) a (allocate_frame_below_inner api al limit True a)"
proof (cases "fa_error a = None \<and> limit \<noteq> 0")
  case False
  then show ?thesis using ok by (auto simp: allocate_frame_below_inner_def alloc_spec_def PAGE_SIZE_def split: option.splits)
next
  case True
  define m where "m = min limit (fa_physical_address_space_size a)"
  have fit: "fits_below f PAGE_SIZE m \<longleftrightarrow> f + PAGE_SIZE \<le> limit" if "f \<in> eligible a" for f
    using eligible_phys [OF ok that] ok by (auto simp: fits_below_iff m_def fa_ok_def u64_max_def)
  show ?thesis
  proof (cases rule: rposition_cases [of "\<lambda>x. fits_below x PAGE_SIZE m" "ol_free (fa_ownership a)"])
    case 1
    have eq: "allocate_frame_below_inner api al limit True a = allocate_fresh_below api al m a"
      using True 1(1) by (simp add: allocate_frame_below_inner_def claim_reclaimed_below_def claim_reclaimed_at_def m_def)
    obtain r b where rb: "allocate_fresh_below api al m a = Some (r, b)" "fa_ok b" "kept a b" "fa_above_4g_frames b = fa_above_4g_frames a"
      "case r of Inl e \<Rightarrow> fa_view b = fa_view a \<and> (\<not> al 0 \<or> \<not> al 1)
        | Inr None \<Rightarrow> fa_view b = fa_view a \<and> fa_error b = fa_error a \<and> (\<forall>f \<in> untouched a. \<not> fits_below f PAGE_SIZE m)
        | Inr (Some f) \<Rightarrow> fits_below f PAGE_SIZE m \<and> f \<in> untouched a \<and> fa_view b = (fa_view a)(f \<mapsto> (Allocated, False))"
      using allocate_fresh_below_spec [OF ok api, of al m] unfolding fresh_spec_def by blast
    have "\<not> f + PAGE_SIZE \<le> limit" if "f \<in> available a" "\<forall>f \<in> untouched a. \<not> fits_below f PAGE_SIZE m" for f
      using that 1(2) fit free_available [OF ok, of f] by (auto simp: available_def untouched_def)
    moreover have "f \<in> eligible a \<and> fa_view a f = None" if "f \<in> untouched a" for f
      using that by (auto simp: untouched_def)
    ultimately show ?thesis
      using rb fit unfolding eq by (cases r) (auto simp: alloc_spec_def issued_def split: option.splits)
  next
    case (2 i)
    let ?f = "ol_free (fa_ownership a) ! i"
    obtain l where l: "claim_reclaimed_at (rposition (\<lambda>x. fits_below x PAGE_SIZE m) (ol_free (fa_ownership a))) (fa_ownership a) = Some (Some ?f, l)"
        "fa_ok (a\<lparr>fa_ownership := l\<rparr>)" "issued a (a\<lparr>fa_ownership := l\<rparr>) ?f"
      using reclaimed_ok [OF ok 2(1,2)] by blast
    have e: "?f \<in> eligible a" using l(3) by (simp add: issued_def)
    have "frame_from_address api ?f = Inr ?f" by (rule frame_from_address_ok [OF api eligible_phys(1) [OF ok e]])
    then have eq: "allocate_frame_below_inner api al limit True a = Some (Inr (Some ?f), a\<lparr>fa_ownership := l\<rparr>)"
      using True l(1) by (simp add: allocate_frame_below_inner_def claim_reclaimed_below_def m_def Let_def)
    show ?thesis using l(2,3) fit [OF e] 2(3) unfolding eq by (simp add: alloc_spec_def)
  qed
qed

lemma below_inner_fresh_spec:
  assumes ok: "fa_ok a" and api: "phys_api_ok api"
  shows "\<exists>r b. allocate_frame_below_inner api al limit False a = Some (r, b) \<and> fa_ok b \<and> kept a b \<and>
    (case r of
       Inr (Some f) \<Rightarrow> f + PAGE_SIZE \<le> limit \<and> f \<in> untouched a \<and> fa_view b = (fa_view a)(f \<mapsto> (Allocated, False))
     | _ \<Rightarrow> fa_view b = fa_view a)"
proof (cases "fa_error a = None \<and> limit \<noteq> 0")
  case False
  then show ?thesis using ok by (auto simp: allocate_frame_below_inner_def split: option.splits)
next
  case True
  define m where "m = min limit (fa_physical_address_space_size a)"
  have eq: "allocate_frame_below_inner api al limit False a = allocate_fresh_below api al m a"
    using True by (simp add: allocate_frame_below_inner_def m_def)
  obtain r b where rb: "allocate_fresh_below api al m a = Some (r, b)" "fa_ok b" "kept a b"
    "case r of Inl e \<Rightarrow> fa_view b = fa_view a \<and> (\<not> al 0 \<or> \<not> al 1)
      | Inr None \<Rightarrow> fa_view b = fa_view a \<and> fa_error b = fa_error a \<and> (\<forall>f \<in> untouched a. \<not> fits_below f PAGE_SIZE m)
      | Inr (Some f) \<Rightarrow> fits_below f PAGE_SIZE m \<and> f \<in> untouched a \<and> fa_view b = (fa_view a)(f \<mapsto> (Allocated, False))"
    using allocate_fresh_below_spec [OF ok api, of al m] unfolding fresh_spec_def by blast
  have "case r of Inr (Some f) \<Rightarrow> f + PAGE_SIZE \<le> limit \<and> f \<in> untouched a \<and> fa_view b = (fa_view a)(f \<mapsto> (Allocated, False))
     | _ \<Rightarrow> fa_view b = fa_view a"
    using rb(4) by (cases r) (auto simp: fits_below_iff m_def split: option.splits)
  then show ?thesis unfolding eq using rb(1-3) by blast
qed

definition live_frames :: "frame_allocator \<Rightarrow> nat set" where
  "live_frames a = in_state Allocated (fa_ownership a)"

definition reserved_frames :: "frame_allocator \<Rightarrow> nat set" where
  "reserved_frames a = in_state Reserved (fa_ownership a)"

lemma issued_sets:
  assumes "issued a b f"
  shows "f \<in> eligible a" "f \<notin> live_frames a" "f \<notin> reserved_frames a" "live_frames b = insert f (live_frames a)" "reserved_frames b = reserved_frames a"
proof -
  have v: "fa_view b = (fa_view a)(f \<mapsto> (Allocated, False))" and f: "fa_view a f \<in> {None, Some (Free, False)}"
    using assms by (simp_all add: issued_def)
  show "f \<in> eligible a" using assms by (simp add: issued_def)
  show "f \<notin> live_frames a" "f \<notin> reserved_frames a" using f by (auto simp: live_frames_def reserved_frames_def in_state_def)
  show "live_frames b = insert f (live_frames a)" "reserved_frames b = reserved_frames a"
    using f unfolding live_frames_def reserved_frames_def in_state_def v by auto
qed

lemma view_sets: "fa_view b = fa_view a \<Longrightarrow> live_frames b = live_frames a \<and> reserved_frames b = reserved_frames a"
  by (simp add: live_frames_def reserved_frames_def in_state_def)

text \<open>The contract on the level of the frames owned.\<close>

definition hands_out :: "(nat \<Rightarrow> bool) \<Rightarrow> bool \<Rightarrow> (nat \<Rightarrow> bool) \<Rightarrow> frame_allocator \<Rightarrow> nat option fa \<Rightarrow> frame_allocator \<Rightarrow> bool" where
  "hands_out al malformed P a r b \<longleftrightarrow>
     reserved_frames b = reserved_frames a \<and>
     (case r of
        Inl e \<Rightarrow> live_frames b = live_frames a \<and> (fa_error a \<noteq> None \<or> \<not> al 0 \<or> \<not> al 1 \<or> malformed)
      | Inr None \<Rightarrow> live_frames b = live_frames a \<and> (\<forall>f \<in> available a. \<not> P f)
      | Inr (Some f) \<Rightarrow> P f \<and> f \<in> eligible a \<and> f \<notin> live_frames a \<and> f \<notin> reserved_frames a \<and> live_frames b = insert f (live_frames a))"

lemma alloc_spec_hands_out:
  assumes "alloc_spec al malformed P a res"
  obtains r b where "res = Some (r, b)" "fa_ok b" "kept a b" "hands_out al malformed P a r b" "fa_above_4g_frames b = fa_above_4g_frames a"
    "\<And>f. r = Inr (Some f) \<Longrightarrow> issued a b f" 
    "\<And>e. r = Inl e \<Longrightarrow> fa_view b = fa_view a \<and> (fa_error a \<noteq> None \<or> \<not> al 0 \<or> \<not> al 1 \<or> malformed)"
    "r = Inr None \<Longrightarrow> fa_view b = fa_view a \<and> fa_error b = fa_error a"
proof -
  obtain r b where rb: "res = Some (r, b)" "fa_ok b" "kept a b" "fa_above_4g_frames b = fa_above_4g_frames a"
      "case r of Inl e \<Rightarrow> fa_view b = fa_view a \<and> (fa_error a \<noteq> None \<or> \<not> al 0 \<or> \<not> al 1 \<or> malformed)
        | Inr None \<Rightarrow> fa_view b = fa_view a \<and> fa_error b = fa_error a \<and> (\<forall>f \<in> available a. \<not> P f)
        | Inr (Some f) \<Rightarrow> P f \<and> issued a b f"
    using assms unfolding alloc_spec_def by blast
  have "hands_out al malformed P a r b"
    using rb(5) view_sets [of b a] issued_sets [of a b]
    by (cases r) (auto simp: hands_out_def available_def eligible_frames_def split: option.splits)
  moreover have "r = Inr (Some f) \<Longrightarrow> issued a b f" 
      "r = Inl e \<Longrightarrow> fa_view b = fa_view a \<and> (fa_error a \<noteq> None \<or> \<not> al 0 \<or> \<not> al 1 \<or> malformed)"
      "r = Inr None \<Longrightarrow> fa_view b = fa_view a \<and> fa_error b = fa_error a" for f e
    using rb(5) by simp_all
  ultimately show ?thesis using rb(1-4) that by blast
qed

lemma note_failure_frame [simp]:
  "fa_ok (note_failure x a) = fa_ok a" "kept b (note_failure x a) = kept b a" "fa_ownership (note_failure x a) = fa_ownership a"
  "live_frames (note_failure x a) = live_frames a" "reserved_frames (note_failure x a) = reserved_frames a" "fa_usable_regions (note_failure x a) = fa_usable_regions a"
  by (simp_all add: note_failure_def live_frames_def reserved_frames_def)

lemma hands_out_note [simp]: "hands_out al malformed P a r (note_failure x b) = hands_out al malformed P a r b"
  by (simp add: hands_out_def split: sum.split option.split)

lemma DMA_limit_pos: "DMA_32BIT_ADDRESS_LIMIT \<noteq> 0"
  by (simp add: DMA_32BIT_ADDRESS_LIMIT_def)

lemma allocate_frame_spec:
  assumes ok: "fa_ok a" and api: "phys_api_ok api"
  obtains r b where "allocate_frame api al a = Some (r, b)" "fa_ok b" "kept a b" "hands_out al False (\<lambda>_. True) a r b"
proof (cases "fa_above_4g_frames a \<noteq> 0")
  case False
  obtain r b where rb: "allocate_frame_below_inner api al (fa_physical_address_space_size a) True a = Some (r, b)" "fa_ok b" "kept a b"
      "hands_out al (fa_physical_address_space_size a = 0) (\<lambda>f. f + PAGE_SIZE \<le> fa_physical_address_space_size a) a r b"
    using alloc_spec_hands_out [OF below_inner_spec [OF ok api]] by metis
  have "hands_out al False (\<lambda>_. True) a r b"
    using rb(4) eligible_phys(2) [OF ok] ok by (auto simp: hands_out_def available_def fa_ok_def split: sum.splits option.splits)
  then show ?thesis using rb(1-3) False that by (simp add: allocate_frame_def)
next
  case True
  have lim: "DMA_32BIT_ADDRESS_LIMIT + PAGE_SIZE \<le> u64_max" by (simp add: DMA_32BIT_ADDRESS_LIMIT_def PAGE_SIZE_def u64_max_def)
  have aligned: "PAGE_SIZE dvd DMA_32BIT_ADDRESS_LIMIT" by (simp add: DMA_32BIT_ADDRESS_LIMIT_def PAGE_SIZE_def)
  obtain r b where rb: "allocate_frame_at_or_above_inner api al DMA_32BIT_ADDRESS_LIMIT True a = Some (r, b)" "fa_ok b" "kept a b"
      "hands_out al False (\<lambda>f. DMA_32BIT_ADDRESS_LIMIT \<le> f) a r b" "r = Inr None \<Longrightarrow> fa_view b = fa_view a \<and> fa_error b = fa_error a"
      "\<And>e. r = Inl e \<Longrightarrow> fa_error a \<noteq> None \<or> \<not> al 0 \<or> \<not> al 1 \<or> False"
    using alloc_spec_hands_out [OF at_or_above_inner_spec [OF ok api lim]] by metis
  show ?thesis
  proof (cases "r = Inr None")
    case None: True
    then have v: "fa_view b = fa_view a" "fa_error b = fa_error a" using rb(5) by blast+
    obtain q c where qc: "allocate_frame_below_inner api al DMA_32BIT_ADDRESS_LIMIT True b = Some (q, c)" "fa_ok c" "kept b c"
        "hands_out al (DMA_32BIT_ADDRESS_LIMIT = 0) (\<lambda>f. f + PAGE_SIZE \<le> DMA_32BIT_ADDRESS_LIMIT) b q c"
      using alloc_spec_hands_out [OF below_inner_spec [OF rb(2) api]] by metis
    have same: "available b = available a" "eligible b = eligible a" "live_frames b = live_frames a" "reserved_frames b = reserved_frames a"
      using v kept_eligible [OF rb(3)] by (simp_all add: available_def live_frames_def reserved_frames_def in_state_def)
    have "f + PAGE_SIZE \<le> DMA_32BIT_ADDRESS_LIMIT" if "f \<in> available a" "\<not> DMA_32BIT_ADDRESS_LIMIT \<le> f" for f
      using that at_or_above_available(1) [OF ok that(1)]
      by (intro dvd_step) (auto simp: PAGE_SIZE_def DMA_32BIT_ADDRESS_LIMIT_def)
    then have "hands_out al False (\<lambda>_. True) a q c"
      using qc(4) rb(4) None same v(2) by (auto simp: hands_out_def DMA_limit_pos split: sum.splits option.splits)
    then show ?thesis using True rb(1) None qc kept_trans [OF rb(3) qc(3)] that by (simp add: allocate_frame_def)
  next
    case False
    then have "hands_out al False (\<lambda>_. True) a r b" using rb(4) rb(6) aligned by (auto simp: hands_out_def split: sum.splits option.splits)
    moreover have "(case Some (r, b) of Some (Inr None, a1) \<Rightarrow> allocate_frame_below_inner api al DMA_32BIT_ADDRESS_LIMIT True a1
        | other \<Rightarrow> other) = Some (r, b)" using False by (auto split: sum.splits option.splits)
    ultimately show ?thesis using True rb(1-3) that by (simp add: allocate_frame_def)
  qed
qed

lemma allocate_frame_at_or_above_spec:
  assumes ok: "fa_ok a" and api: "phys_api_ok api"
  obtains r b where "allocate_frame_at_or_above api al m a = Some (r, b)" "fa_ok b" "kept a b" "hands_out al False (\<lambda>f. m \<le> f) a r b"
proof (cases "m + PAGE_SIZE \<le> u64_max")
  case True
  obtain r b where "allocate_frame_at_or_above_inner api al m True a = Some (r, b)" "fa_ok b" "kept a b" "hands_out al False (\<lambda>f. m \<le> f) a r b"
    using alloc_spec_hands_out [OF at_or_above_inner_spec [OF ok api True]] by metis
  then show ?thesis using that by (simp add: allocate_frame_at_or_above_def)
next
  case False
  have none: "\<not> m \<le> f" if "f \<in> available a" for f
    using that False at_or_above_available [OF ok that] eligible_phys(2) [OF ok, of f] ok
    by (auto simp: fa_ok_def u64_max_def)
  have sp: "fa_physical_address_space_size a \<le> 2 ^ 52" using ok by (simp add: fa_ok_def)
  have "b div PAGE_SIZE * PAGE_SIZE \<ge> fa_physical_address_space_size a" if "checked_add m (PAGE_SIZE - 1) = Some b" for b
  proof -
    have "b div 4096 * 4096 + b mod 4096 = b" "b mod 4096 < 4096" by simp_all
    moreover have "18446744073709551615 < b + 4096" using that False by (auto simp: u64_max_def PAGE_SIZE_def)
    moreover have "fa_physical_address_space_size a \<le> 4503599627370496" using sp by simp
    ultimately show ?thesis unfolding PAGE_SIZE_def by linarith
  qed
  then have "\<exists>r. allocate_frame_at_or_above_inner api al m True a = Some (r, a) \<and> (r = Inr None \<or> (\<exists>e. r = Inl e \<and> fa_error a \<noteq> None))"
    by (cases "fa_error a"; cases "checked_add m (PAGE_SIZE - 1)")
      (simp_all add: allocate_frame_at_or_above_inner_def del: checked_add_eq_Some checked_add_eq_None)
  then show ?thesis using that ok none by (auto simp: allocate_frame_at_or_above_def hands_out_def)
qed

lemma dom_override: "A \<subseteq> dom m \<Longrightarrow> dom (override A v m) = dom m"
  by (auto simp: override_def dom_def)

lemma live_dom: "live_frames a \<subseteq> dom (fa_view a)"
  by (auto simp: live_frames_def in_state_def)

lemma dma_low_ok:
  assumes ok: "fa_ok a" and fs: "set fs \<subseteq> live_frames a"
  shows "\<exists>l. mark_all_dma_low fs (fa_ownership a) = Some l \<and> fa_ok (a\<lparr>fa_ownership := l\<rparr>) \<and>
    live_frames (a\<lparr>fa_ownership := l\<rparr>) = live_frames a \<and> reserved_frames (a\<lparr>fa_ownership := l\<rparr>) = reserved_frames a"
proof -
  obtain l where l: "mark_all_dma_low fs (fa_ownership a) = Some l" "ledger_ok l"
      "ledger_view l = override (set fs) (Allocated, True) (fa_view a)"
    using mark_all_dma_low_ok [OF fa_ok_ledger [OF ok], of fs] fs by (auto simp: live_frames_def)
  have "dom (ledger_view l) = dom (fa_view a)" unfolding l(3) by (rule dom_override) (use fs live_dom in blast)
  moreover have sets: "in_state Reserved l = in_state Reserved (fa_ownership a)" "in_state Allocated l = in_state Allocated (fa_ownership a)"
    using fs unfolding in_state_def l(3) live_frames_def override_def by (auto split: if_splits)
  ultimately show ?thesis using fa_ok_own [OF ok l(2)] l(1) by (auto simp: live_frames_def reserved_frames_def)
qed

lemma mark_all_single: "mark_all_dma_low [f] l = mark_dma_low f l"
  by (simp split: option.split)

lemma live_frame [simp]:
  "live_frames (a\<lparr>fa_dma_low_allocations := n\<rparr>) = live_frames a" "live_frames (a\<lparr>fa_dma_low_failures := n\<rparr>) = live_frames a"
  "reserved_frames (a\<lparr>fa_dma_low_allocations := n\<rparr>) = reserved_frames a" "reserved_frames (a\<lparr>fa_dma_low_failures := n\<rparr>) = reserved_frames a"
  by (simp_all add: live_frames_def reserved_frames_def)

lemma allocate_frame_below_spec:
  assumes ok: "fa_ok a" and api: "phys_api_ok api"
  obtains r b where "allocate_frame_below api al limit a = Some (r, b)" "fa_ok b" "kept a b"
    "hands_out al (limit = 0) (\<lambda>f. f + PAGE_SIZE \<le> limit) a r b"
proof -
  obtain r b where rb: "allocate_frame_below_inner api al limit True a = Some (r, b)" "fa_ok b" "kept a b"
      "hands_out al (limit = 0) (\<lambda>f. f + PAGE_SIZE \<le> limit) a r b"
    using alloc_spec_hands_out [OF below_inner_spec [OF ok api]] by metis
  show ?thesis
  proof (cases "\<exists>f. r = Inr (Some f) \<and> limit \<le> DMA_32BIT_ADDRESS_LIMIT")
    case True
    then obtain f where f: "r = Inr (Some f)" "limit \<le> DMA_32BIT_ADDRESS_LIMIT" by blast
    then have "set [f] \<subseteq> live_frames b" using rb(4) by (simp add: hands_out_def)
    from dma_low_ok [OF rb(2) this] obtain l where l: "mark_dma_low f (fa_ownership b) = Some l"
        "fa_ok (b\<lparr>fa_ownership := l\<rparr>)" "live_frames (b\<lparr>fa_ownership := l\<rparr>) = live_frames b" "reserved_frames (b\<lparr>fa_ownership := l\<rparr>) = reserved_frames b"
      unfolding mark_all_single by blast
    show ?thesis
    proof (rule that)
      show "allocate_frame_below api al limit a = Some (r, b\<lparr>fa_ownership := l,
          fa_dma_low_allocations := saturating_add (fa_dma_low_allocations b) 1\<rparr>)"
        using rb(1) f l(1) by (simp add: allocate_frame_below_def)
    qed (use rb l f in \<open>simp_all add: hands_out_def\<close>)
  next
    case False
    define c where "c = (if no_frame r then note_failure True
        (if limit \<le> DMA_32BIT_ADDRESS_LIMIT then b\<lparr>fa_dma_low_failures := saturating_add (fa_dma_low_failures b) 1\<rparr> else b) else b)"
    have "allocate_frame_below api al limit a = Some (r, c)"
      using rb(1) False by (auto simp: allocate_frame_below_def c_def no_frame_def split: sum.splits option.splits)
    moreover have "fa_ok c" "kept a c" "live_frames c = live_frames b" "reserved_frames c = reserved_frames b" using rb by (simp_all add: c_def)
    moreover from this rb(4) have "hands_out al (limit = 0) (\<lambda>f. f + PAGE_SIZE \<le> limit) a r c"
      by (simp add: hands_out_def split: sum.splits option.splits)
    ultimately show ?thesis using that by blast
  qed
qed

section \<open>Reservation and reclamation\<close>

lemma eligible_region_Some: "eligible_region a x \<noteq> None \<longleftrightarrow> (\<exists>r \<in> set (fa_usable_regions a). region_contains r x)"
  by (auto simp: eligible_region_def find_None_iff)

lemma untracked_was_fresh:
  assumes ok: "fa_ok a" and x: "x \<in> eligible a" "fa_view a x = None"
  shows "\<exists>r. eligible_region a x = Some r \<and> x \<ge> ur_next r"
proof -
  obtain r where r: "eligible_region a x = Some r" using x(1) eligible_region_Some [of a x] by (auto simp: eligible_frames_def)
  then have r': "r \<in> set (fa_usable_regions a)" "region_contains r x" by (auto simp: eligible_region_def find_Some_iff)
  then have "region_ok (fa_view a) (fa_physical_address_space_size a) r" using ok by (simp add: fa_ok_def)
  moreover have "PAGE_SIZE dvd x" using x(1) by (simp add: eligible_frames_def)
  ultimately have "x \<ge> ur_next r" using x(2) r'(2) unfolding region_ok_def region_contains_def by (meson not_less)
  then show ?thesis using r by blast
qed

lemma reserve_frame_ok:
  assumes ok: "fa_ok a" and x: "phys_frame x"
  shows "\<exists>r b. reserve_frame al x a = Some (r, b) \<and> fa_ok b \<and> kept a b \<and>
    (case r of
       Inl e \<Rightarrow> live_frames b = live_frames a \<and> reserved_frames b = reserved_frames a
     | Inr changed \<Rightarrow> live_frames b = live_frames a - {x} \<and> reserved_frames b = insert x (reserved_frames a) \<and> (changed \<longleftrightarrow> x \<notin> reserved_frames a))"
proof -
  obtain r l where l: "ledger_reserve al x (fa_ownership a) = Some (r, l)" "ledger_ok l"
      "case r of Inl e \<Rightarrow> l = fa_ownership a \<and> fa_view a x = None
       | Inr changed \<Rightarrow> ledger_view l = (fa_view a)(x \<mapsto> (Reserved, False)) \<and> (changed \<longleftrightarrow> fa_view a x \<noteq> Some (Reserved, False))"
    using ledger_reserve_ok [OF fa_ok_ledger [OF ok] x] by blast
  show ?thesis
  proof (cases r)
    case (Inl e)
    then show ?thesis using l ok by (simp add: reserve_frame_def Let_def)
  next
    case (Inr changed)
    have v: "ledger_view l = (fa_view a)(x \<mapsto> (Reserved, False))" and ch: "changed \<longleftrightarrow> fa_view a x \<noteq> Some (Reserved, False)"
      using l(3) Inr by simp_all
    have low: "fa_view a x \<noteq> Some (Reserved, True)" using ok by (auto simp: fa_ok_def ledger_ok_def)
    then have res: "x \<in> reserved_frames a \<longleftrightarrow> fa_view a x = Some (Reserved, False)"
      by (auto simp: reserved_frames_def in_state_def)
    have st: "in_state Allocated l = live_frames a - {x}" "in_state Reserved l = insert x (reserved_frames a)"
      "in_state Free l = in_state Free (fa_ownership a) - {x}"
      unfolding in_state_def v live_frames_def reserved_frames_def by auto
    have el: "eligible_region a x \<noteq> None \<longleftrightarrow> x \<in> eligible a"
      using x unfolding eligible_region_Some by (simp add: eligible_frames_def phys_frame_def)
    define b where "b = (if changed \<and> x \<in> eligible a then
      a\<lparr>fa_ownership := l, fa_reserved_eligible_frames := saturating_add (fa_reserved_eligible_frames a) 1,
        fa_fresh_remaining_frames := (if fa_view a x = None then fa_fresh_remaining_frames a - 1 else fa_fresh_remaining_frames a)\<rparr>
      else a\<lparr>fa_ownership := l\<rparr>)"
    have eq: "reserve_frame al x a = Some (r, b)"
    proof (cases "eligible_region a x")
      case None
      then have "x \<notin> eligible a" using el by simp
      then show ?thesis using None l(1) Inr by (simp add: reserve_frame_def b_def)
    next
      case (Some s)
      then have e: "x \<in> eligible a" using el by simp
      have "x \<ge> ur_next s" if "fa_view a x = None" using untracked_was_fresh [OF ok e that] Some by simp
      then show ?thesis
        using Some e l(1) Inr ledger_find_None [of "fa_ownership a" x]
        by (cases "fa_view a x") (simp_all add: reserve_frame_def b_def)
    qed
    have fin: "finite (eligible a)" by (rule finite_eligible [OF ok])
    have cr: "card (insert x (reserved_frames a) \<inter> eligible a) = card (reserved_frames a \<inter> eligible a) + of_bool (changed \<and> x \<in> eligible a)"
      using ch res fin by (auto simp: insert_absorb Int_insert_left)
    have "card (reserved_frames a \<inter> eligible a) \<le> 2 ^ 40"
      using card_phys_frames(2) [of "reserved_frames a \<inter> eligible a"] eligible_phys(1) [OF ok] by blast
    then have sat: "saturating_add (fa_reserved_eligible_frames a) 1 = Suc (fa_reserved_eligible_frames a)"
      using ok by (simp add: fa_ok_def saturating_add_def u64_max_def reserved_frames_def)
    have "eligible a - dom (ledger_view l) = eligible a - dom (fa_view a) - {x}" using v by auto
    then have cf: "card (eligible a - dom (ledger_view l)) = card (eligible a - dom (fa_view a)) - of_bool (x \<in> eligible a \<and> fa_view a x = None)"
      using fin by (simp add: domIff)
    have "fa_ok b"
    proof -
      have "region_ok (ledger_view l) (fa_physical_address_space_size a) r" if "r \<in> set (fa_usable_regions a)" for r
      proof (rule region_ok_mono)
        show "region_ok (fa_view a) (fa_physical_address_space_size a) r" using ok that by (simp add: fa_ok_def)
        show "dom (fa_view a) \<subseteq> dom (ledger_view l)" using v by auto
      qed
      moreover have "in_state Allocated l \<union> in_state Free l \<subseteq> eligible a" using ok st by (auto simp: fa_ok_def live_frames_def)
      moreover have "fa_view a x = None \<Longrightarrow> changed" using ch by simp
      ultimately show ?thesis
        using ok l(2) cr cf sat st(2) by (auto simp: fa_ok_def b_def reserved_frames_def)
    qed
    moreover have "live_frames b = live_frames a - {x}" "reserved_frames b = insert x (reserved_frames a)"
      using st by (auto simp: b_def live_frames_def reserved_frames_def)
    moreover have "kept a b" by (simp add: b_def kept_def)
    ultimately show ?thesis using eq Inr ch res by simp
  qed
qed

lemma deallocate_frames_ok:
  assumes ok: "fa_ok a"
  shows "\<exists>r b. deallocate_frames xs a = Some (r, b) \<and> fa_ok b \<and> kept a b \<and> reserved_frames b = reserved_frames a \<and>
    (if distinct xs \<and> set xs \<subseteq> live_frames a then r = Inr () \<and> live_frames b = live_frames a - set xs \<and> fa_view b = override (set xs) (Free, False) (fa_view a)
     else (\<exists>e. r = Inl e) \<and> b = a)"
proof -
  obtain r l where l: "reclaim_with xs (fa_ownership a) = Some (r, l)" "ledger_ok l"
      "if distinct xs \<and> set xs \<subseteq> live_frames a then r = Inr () \<and> ledger_view l = override (set xs) (Free, False) (fa_view a)
       else (\<exists>e. r = Inl e) \<and> l = fa_ownership a"
    using reclaim_with_ok [OF fa_ok_ledger [OF ok], of xs] unfolding live_frames_def by blast
  let ?b = "a\<lparr>fa_ownership := l\<rparr>"
  have eq: "deallocate_frames xs a = Some (r, ?b)" using l(1) by (simp add: deallocate_frames_def)
  show ?thesis
  proof (cases "distinct xs \<and> set xs \<subseteq> live_frames a")
    case True
    then have v: "ledger_view l = override (set xs) (Free, False) (fa_view a)" and r: "r = Inr ()" using l(3) by auto
    have "dom (ledger_view l) = dom (fa_view a)" unfolding v by (rule dom_override) (use True live_dom in blast)
    moreover have res: "in_state Reserved l = in_state Reserved (fa_ownership a)" "in_state Allocated l = live_frames a - set xs"
      using True unfolding in_state_def v live_frames_def override_def by (auto split: if_splits)
    ultimately have "fa_ok ?b" using fa_ok_own [OF ok l(2)] by blast
    then show ?thesis using eq True r res v by (auto simp: live_frames_def reserved_frames_def)
  next
    case False
    then show ?thesis using eq l(3) ok by auto
  qed
qed

section \<open>Contiguous allocation is all or nothing\<close>

definition hands_out_run :: "nat \<Rightarrow> nat \<Rightarrow> frame_allocator \<Rightarrow> nat list option fa \<Rightarrow> frame_allocator \<Rightarrow> bool" where
  "hands_out_run pages limit a r b \<longleftrightarrow>
     reserved_frames b = reserved_frames a \<and>
     (case r of
        Inr (Some fs) \<Rightarrow> (\<exists>start. fs = page_run start pages) \<and> (\<forall>f \<in> set fs. f + PAGE_SIZE \<le> limit) \<and> set fs \<subseteq> eligible a \<and>
          set fs \<inter> live_frames a = {} \<and> set fs \<inter> reserved_frames a = {} \<and> live_frames b = live_frames a \<union> set fs
      | _ \<Rightarrow> live_frames b = live_frames a)"

lemma page_run_Suc: "page_run start n @ [start + n * PAGE_SIZE] = page_run start (Suc n)"
  by (simp add: page_run_def)

text \<open>\<open>a\<close> has issued the untouched frames \<open>fs\<close> of \<open>a0\<close>.\<close>

definition run_issued :: "frame_allocator \<Rightarrow> nat list \<Rightarrow> frame_allocator \<Rightarrow> bool" where
  "run_issued a0 fs a \<longleftrightarrow> fa_ok a \<and> kept a0 a \<and> distinct fs \<and> set fs \<subseteq> untouched a0 \<and>
     fa_view a = override (set fs) (Allocated, False) (fa_view a0)"

lemma run_issued_sets:
  assumes "run_issued a0 fs a"
  shows "live_frames a = live_frames a0 \<union> set fs" "reserved_frames a = reserved_frames a0" "set fs \<inter> live_frames a0 = {}" "set fs \<inter> reserved_frames a0 = {}"
    "set fs \<subseteq> eligible a0"
proof -
  have v: "fa_view a = override (set fs) (Allocated, False) (fa_view a0)" and u: "\<forall>f \<in> set fs. fa_view a0 f = None"
    using assms by (auto simp: run_issued_def untouched_def)
  show "live_frames a = live_frames a0 \<union> set fs" "reserved_frames a = reserved_frames a0"
    using u unfolding live_frames_def reserved_frames_def in_state_def v override_def by (auto split: if_splits)
  show "set fs \<inter> live_frames a0 = {}" "set fs \<inter> reserved_frames a0 = {}"
    using u by (auto simp: live_frames_def reserved_frames_def in_state_def)
  show "set fs \<subseteq> eligible a0" using assms by (auto simp: run_issued_def untouched_def)
qed

lemma give_back_spec:
  assumes run: "run_issued a0 fs a" and r: "\<And>x. r \<noteq> Inr (Some x)"
  shows "\<exists>b. give_back fs r a = Some (r, b) \<and> fa_ok b \<and> kept a0 b \<and> hands_out_run pages limit a0 r b"
proof -
  note s = run_issued_sets [OF run]
  have ok: "fa_ok a" and d: "distinct fs" and k: "kept a0 a" using run by (auto simp: run_issued_def)
  obtain q b where qb: "deallocate_frames fs a = Some (q, b)" "fa_ok b" "kept a b" "reserved_frames b = reserved_frames a"
      "if distinct fs \<and> set fs \<subseteq> live_frames a then q = Inr () \<and> live_frames b = live_frames a - set fs \<and> fa_view b = override (set fs) (Free, False) (fa_view a)
       else (\<exists>e. q = Inl e) \<and> b = a"
    using deallocate_frames_ok [OF ok, of fs] by blast
  then have "q = Inr ()" "live_frames b = live_frames a - set fs" using d s(1) by auto
  then have "give_back fs r a = Some (r, b)" "live_frames b = live_frames a0" using qb(1) s by (auto simp: give_back_def)
  moreover have "hands_out_run pages limit a0 r b"
    using calculation(2) qb(4) s(2) r by (auto simp: hands_out_run_def split: sum.splits option.splits)
  ultimately show ?thesis using qb(2) kept_trans [OF k qb(3)] by blast
qed

lemma run_issued_step:
  assumes run: "run_issued a0 fs a" and b: "fa_ok b" "kept a b" "f \<in> untouched a" "fa_view b = (fa_view a)(f \<mapsto> (Allocated, False))"
  shows "run_issued a0 (fs @ [f]) b"
proof -
  have v: "fa_view a = override (set fs) (Allocated, False) (fa_view a0)" and k: "kept a0 a" using run by (auto simp: run_issued_def)
  have f: "f \<in> eligible a" "fa_view a f = None" using b(3) by (auto simp: untouched_def)
  have nf: "f \<notin> set fs" using f(2) by (auto simp: v)
  then have "fa_view a0 f = None" using f(2) by (simp add: v)
  then have "f \<in> untouched a0" using f(1) kept_eligible [OF k] by (auto simp: untouched_def)
  moreover have "fa_view b = override (insert f (set fs)) (Allocated, False) (fa_view a0)"
    unfolding b(4) v by (auto simp: override_def)
  ultimately show ?thesis using run nf b(1) kept_trans [OF k b(2)] by (auto simp: run_issued_def)
qed

lemma allocate_run_spec:
  assumes "run_issued a0 fs a" "phys_api_ok api" "fs = page_run start (length fs)" "\<forall>f \<in> set fs. f + PAGE_SIZE \<le> limit"
    "expected = (if fs = [] then None else Some (start + length fs * PAGE_SIZE))"
  shows "\<exists>r b. allocate_run api al pages limit expected fs a = Some (r, b) \<and> fa_ok b \<and> kept a0 b \<and>
    hands_out_run (length fs + pages) limit a0 r b"
  using assms
proof (induction api al pages limit expected fs a arbitrary: start rule: allocate_run.induct)
  case (1 api al limit expected fs a)
  note s = run_issued_sets [OF "1.prems"(1)]
  have "\<exists>start. fs = page_run start (length fs)" using "1.prems"(3) by blast
  then show ?case using "1.prems" s by (auto simp: run_issued_def hands_out_run_def)
next
  case (2 api al pages limit expected fs a)
  note run = "2.prems"(1)
  have ok: "fa_ok a" using run by (simp add: run_issued_def)
  obtain q b where q: "allocate_frame_below_inner api al limit False a = Some (q, b)" and b: "fa_ok b" "kept a b"
      and c: "case q of Inr (Some f) \<Rightarrow> f + PAGE_SIZE \<le> limit \<and> f \<in> untouched a \<and> fa_view b = (fa_view a)(f \<mapsto> (Allocated, False))
       | _ \<Rightarrow> fa_view b = fa_view a"
    using below_inner_fresh_spec [OF ok "2.prems"(2), of al limit] by blast
  have run_b: "run_issued a0 fs b" if "fa_view b = fa_view a"
    using run b that kept_trans by (auto simp: run_issued_def)
  show ?case
  proof (cases q)
    case (Inl e)
    then have rb: "run_issued a0 fs b" using c run_b by simp
    show ?thesis
    proof (cases "fs = []")
      case True
      then have "hands_out_run n limit a0 (Inl e) b" for n
        using run_issued_sets [OF rb] by (simp add: hands_out_run_def)
      then show ?thesis using q Inl True rb by (simp add: run_issued_def)
    next
      case False
      then show ?thesis using give_back_spec [OF rb, of "Inl e"] q Inl by fastforce
    qed
  next
    case (Inr o')
    show ?thesis
    proof (cases o')
      case None
      then have rb: "run_issued a0 fs b" using c Inr run_b by simp
      show ?thesis using give_back_spec [OF rb, of "Inr None"] q Inr None by fastforce
    next
      case (Some f)
      then have f: "f + PAGE_SIZE \<le> limit" "f \<in> untouched a" "fa_view b = (fa_view a)(f \<mapsto> (Allocated, False))"
        using c Inr by simp_all
      have rb: "run_issued a0 (fs @ [f]) b" by (rule run_issued_step [OF run b f(2,3)])
      have "f + PAGE_SIZE \<le> 2 ^ 52" using eligible_phys(2) [OF ok, of f] f(2) ok by (auto simp: untouched_def fa_ok_def)
      then have add: "checked_add f PAGE_SIZE = Some (f + PAGE_SIZE)" by (simp add: u64_max_def)
      show ?thesis
      proof (cases "\<exists>e. expected = Some e \<and> e \<noteq> f")
        case True
        then show ?thesis using give_back_spec [OF rb, of "Inr None"] q Inr Some by fastforce
      next
        case False
        define start' where "start' = (if fs = [] then f else start)"
        have fs': "fs @ [f] = page_run start' (length (fs @ [f]))"
          using False "2.prems"(3,5) page_run_Suc [of start "length fs"]
          by (auto simp: start'_def page_run_def)
        have e': "Some (f + PAGE_SIZE) = (if fs @ [f] = [] then None else Some (start' + length (fs @ [f]) * PAGE_SIZE))"
          using False "2.prems"(5) by (auto simp: start'_def split: if_splits)
        have step: "allocate_run api al (Suc pages) limit expected fs a =
          allocate_run api (\<lambda>n. al (n + 2)) pages limit (Some (f + PAGE_SIZE)) (fs @ [f]) b"
          using q Inr Some False add by (auto simp del: checked_add_eq_Some split: option.splits)
        have no: "\<not> (case expected of None \<Rightarrow> False | Some e \<Rightarrow> e \<noteq> f)" using False by (auto split: option.splits)
        have "\<exists>r c. allocate_run api (\<lambda>n. al (n + 2)) pages limit (Some (f + PAGE_SIZE)) (fs @ [f]) b = Some (r, c) \<and> fa_ok c \<and> kept a0 c \<and>
            hands_out_run (length (fs @ [f]) + pages) limit a0 r c"
          using "2.IH" [OF q refl Inr Some no add rb "2.prems"(2) fs' _ e'] f(1) "2.prems"(4) by auto
        then show ?thesis unfolding step by simp
      qed
    qed
  qed
qed

lemma page_run_bound: "f \<in> set (page_run start pages) \<Longrightarrow> f + PAGE_SIZE \<le> start + pages * PAGE_SIZE"
  by (auto simp: page_run_def PAGE_SIZE_def)

lemma reclaimed_run_spec:
  assumes ok: "fa_ok a" and api: "phys_api_ok api"
    and c: "claim_reclaimed_range_below pages limit (fa_ownership a) = Some (Some start, l)"
  shows "\<exists>l'. frames_of_run api dma_low (page_run start pages) [] l = Some (Inr (page_run start pages), l') \<and>
    fa_ok (a\<lparr>fa_ownership := l'\<rparr>) \<and> hands_out_run pages limit a (Inr (Some (page_run start pages))) (a\<lparr>fa_ownership := l'\<rparr>)"
proof -
  let ?R = "set (page_run start pages)"
  have l: "ledger_ok l" "start + pages * PAGE_SIZE \<le> limit" "?R \<subseteq> in_state Free (fa_ownership a)"
      "ledger_view l = override ?R (Allocated, False) (fa_view a)"
    using claim_reclaimed_range_ok [OF fa_ok_ledger [OF ok], of pages limit] c by auto
  have "?R \<subseteq> in_state Allocated l" by (auto simp: in_state_def l(4))
  from frames_of_run_ok [OF api l(1) this, of dma_low "[]"] obtain l' where
    l': "frames_of_run api dma_low (page_run start pages) [] l = Some (Inr (page_run start pages), l')" "ledger_ok l'"
      "ledger_view l' = (if dma_low then override ?R (Allocated, True) (ledger_view l) else ledger_view l)" by auto
  have v: "ledger_view l' = override ?R (Allocated, dma_low) (fa_view a)"
    unfolding l'(3) l(4) by (auto simp: override_def)
  have sub: "?R \<subseteq> dom (fa_view a)" using l(3) by (auto simp: in_state_def)
  have sets: "in_state Reserved l' = reserved_frames a" "in_state Allocated l' = live_frames a \<union> ?R"
    using l(3) unfolding in_state_def v live_frames_def reserved_frames_def override_def by (auto split: if_splits)
  have "dom (ledger_view l') = dom (fa_view a)" unfolding v by (rule dom_override [OF sub])
  then have "fa_ok (a\<lparr>fa_ownership := l'\<rparr>)" using fa_ok_own [OF ok l'(2)] sets(1) by (simp add: reserved_frames_def)
  moreover have "?R \<subseteq> eligible a" "?R \<inter> live_frames a = {}" "?R \<inter> reserved_frames a = {}"
    using l(3) ok by (auto simp: fa_ok_def live_frames_def reserved_frames_def in_state_def)
  then have "hands_out_run pages limit a (Inr (Some (page_run start pages))) (a\<lparr>fa_ownership := l'\<rparr>)"
    using sets l(2) page_run_bound [of _ start pages]
    by (fastforce simp: hands_out_run_def live_frames_def reserved_frames_def)
  ultimately show ?thesis using l'(1) by blast
qed

lemma contiguous_inner_spec:
  assumes ok: "fa_ok a" and api: "phys_api_ok api"
  shows "\<exists>r b. allocate_contiguous_frames_below_inner api al pages limit dma_low a = Some (r, b) \<and> fa_ok b \<and> kept a b \<and>
    hands_out_run pages limit a r b"
proof (cases "pages = 0 \<or> \<not> al 0")
  case True
  then show ?thesis using ok by (auto simp: allocate_contiguous_frames_below_inner_def hands_out_run_def)
next
  case False
  obtain q l where c: "claim_reclaimed_range_below pages limit (fa_ownership a) = Some (q, l)"
    using claim_reclaimed_range_ok [OF fa_ok_ledger [OF ok], of pages limit] by blast
  show ?thesis
  proof (cases q)
    case (Some start)
    obtain l' where l': "frames_of_run api dma_low (page_run start pages) [] l = Some (Inr (page_run start pages), l')"
        "fa_ok (a\<lparr>fa_ownership := l'\<rparr>)" "hands_out_run pages limit a (Inr (Some (page_run start pages))) (a\<lparr>fa_ownership := l'\<rparr>)"
      using reclaimed_run_spec [OF ok api c [unfolded Some]] by blast
    define b where "b = a\<lparr>fa_ownership := l', fa_dma_low_allocations :=
      (if dma_low then saturating_add (fa_dma_low_allocations a) pages else fa_dma_low_allocations a)\<rparr>"
    have "fa_ok b" "kept a b" using l'(2) by (simp_all add: b_def kept_def fa_ok_def)
    moreover have "hands_out_run pages limit a (Inr (Some (page_run start pages))) b"
      using l'(3) by (simp add: b_def hands_out_run_def live_frames_def reserved_frames_def)
    moreover have "allocate_contiguous_frames_below_inner api al pages limit dma_low a = Some (Inr (Some (page_run start pages)), b)"
      using False c Some l'(1) by (simp add: allocate_contiguous_frames_below_inner_def b_def)
    ultimately show ?thesis by blast
  next
    case None
    have "run_issued a [] a" using ok by (simp add: run_issued_def)
    then obtain r b where rb: "allocate_run api (\<lambda>n. al (n + 1)) pages limit None [] a = Some (r, b)" "fa_ok b" "kept a b"
        "hands_out_run pages limit a r b"
      using allocate_run_spec [of a "[]" a api 0 limit None "\<lambda>n. al (n + 1)" pages] api by (auto simp: page_run_def)
    show ?thesis
    proof (cases "dma_low \<and> (\<exists>fs. r = Inr (Some fs))")
      case True
      then obtain fs where fs: "r = Inr (Some fs)" by blast
      then have "set fs \<subseteq> live_frames b" using rb(4) by (auto simp: hands_out_run_def)
      from dma_low_ok [OF rb(2) this] obtain l'' where l: "mark_all_dma_low fs (fa_ownership b) = Some l''"
          "fa_ok (b\<lparr>fa_ownership := l''\<rparr>)" "live_frames (b\<lparr>fa_ownership := l''\<rparr>) = live_frames b" "reserved_frames (b\<lparr>fa_ownership := l''\<rparr>) = reserved_frames b"
        by blast
      define d where "d = b\<lparr>fa_ownership := l'', fa_dma_low_allocations := saturating_add (fa_dma_low_allocations b) (length fs)\<rparr>"
      have "allocate_contiguous_frames_below_inner api al pages limit dma_low a = Some (r, d)"
        using False c None rb(1) fs True l(1) by (simp add: allocate_contiguous_frames_below_inner_def d_def)
      moreover have "fa_ok d" "kept a d" "live_frames d = live_frames b" "reserved_frames d = reserved_frames b"
        using l rb(3) by (simp_all add: d_def)
      moreover from this(3,4) rb(4) fs have "hands_out_run pages limit a r d" by (simp add: hands_out_run_def)
      ultimately show ?thesis by blast
    next
      case nd: False
      have "allocate_contiguous_frames_below_inner api al pages limit dma_low a = Some (r, b)"
        using False c None rb(1) nd by (auto simp: allocate_contiguous_frames_below_inner_def split: sum.splits option.splits)
      then show ?thesis using rb by blast
    qed
  qed
qed

lemma hands_out_run_note [simp]: "hands_out_run n m a r (note_failure x b) = hands_out_run n m a r b"
  by (simp add: hands_out_run_def split: sum.split option.split)

lemma contiguous_spec:
  assumes ok: "fa_ok a" and api: "phys_api_ok api"
  obtains r b where "allocate_contiguous_frames api al pages a = Some (r, b)" "fa_ok b" "kept a b"
    "hands_out_run pages (fa_physical_address_space_size a) a r b"
  using contiguous_inner_spec [OF ok api, of al pages "fa_physical_address_space_size a" False] that
  by (auto simp: allocate_contiguous_frames_def)

lemma contiguous_below_spec:
  assumes ok: "fa_ok a" and api: "phys_api_ok api"
  obtains r b where "allocate_contiguous_frames_below api al pages limit a = Some (r, b)" "fa_ok b" "kept a b"
    "hands_out_run pages limit a r b"
proof -
  let ?dma = "limit \<le> DMA_32BIT_ADDRESS_LIMIT"
  obtain r b where rb: "allocate_contiguous_frames_below_inner api al pages limit ?dma a = Some (r, b)" "fa_ok b" "kept a b"
      "hands_out_run pages limit a r b"
    using contiguous_inner_spec [OF ok api] by blast
  define c where "c = (if no_frame r then let a1 = note_failure True b
      in if ?dma then a1\<lparr>fa_dma_low_failures := saturating_add (fa_dma_low_failures a1) 1\<rparr> else a1 else b)"
  have "allocate_contiguous_frames_below api al pages limit a = Some (r, c)"
    using rb(1) by (simp add: allocate_contiguous_frames_below_def c_def)
  moreover have "fa_ok c" "kept a c" "live_frames c = live_frames b" "reserved_frames c = reserved_frames b" using rb by (simp_all add: c_def Let_def)
  moreover from this(3,4) rb(4) have "hands_out_run pages limit a r c"
    by (simp add: hands_out_run_def split: sum.splits option.splits)
  ultimately show ?thesis using that by blast
qed

section \<open>The boot memory map\<close>

definition entry_end :: "memory_map_entry \<Rightarrow> nat" where
  "entry_end e = me_base e + me_length e"

abbreviation entry_usable :: "memory_map_entry \<Rightarrow> bool" where
  "entry_usable e \<equiv> me_entry_type e = MEMORY_MAP_USABLE"

definition region_new :: "nat \<Rightarrow> usable_region \<Rightarrow> bool" where
  "region_new space r \<longleftrightarrow>
     PAGE_SIZE dvd ur_base r \<and> PAGE_SIZE dvd ur_end r \<and> ur_base r < ur_end r \<and> ur_end r \<le> space \<and> ur_next r = ur_base r \<and>
     ur_high_next r = max (ur_base r) DMA_32BIT_ADDRESS_LIMIT \<and> ur_at_or_above_next r = ur_base r"

definition nonempty_entries :: "(memory_map_error + memory_map_entry) list \<Rightarrow> memory_map_entry list" where
  "nonempty_entries es = filter (\<lambda>e. me_length e \<noteq> 0) (map projr es)"

lemma collect_regions_Inr:
  assumes "collect_regions al k space es ranges regions = Inr (ranges', regions')" "\<forall>r \<in> set regions. region_new space r"
    "bounds regions = map (\<lambda>m. (mr_base m, mr_end m)) (filter mr_usable ranges)" "\<forall>m \<in> set ranges. mr_base m < mr_end m"
  shows "(\<forall>r \<in> set regions'. region_new space r) \<and> (\<forall>m \<in> set ranges'. mr_base m < mr_end m) \<and>
    bounds regions' = map (\<lambda>m. (mr_base m, mr_end m)) (filter mr_usable ranges') \<and>
    ranges' = ranges @ map (\<lambda>e. \<lparr>mr_base = me_base e, mr_end = entry_end e, mr_usable = entry_usable e\<rparr>) (nonempty_entries es)"
  using assms
proof (induction al k space es ranges regions rule: collect_regions.induct)
  case (3 al k space entry es ranges regions)
  show ?case
  proof (cases "me_length entry = 0")
    case True
    then show ?thesis using 3 by (simp add: nonempty_entries_def)
  next
    case False
    let ?e = "me_base entry + me_length entry"
    let ?m = "\<lparr>mr_base = me_base entry, mr_end = ?e, mr_usable = entry_usable entry\<rparr>"
    have add: "checked_add (me_base entry) (me_length entry) = Some ?e" and al: "al k"
      using "3.prems"(1) False by (auto split: option.splits if_splits)
    show ?thesis
    proof (cases "entry_usable entry")
      case False2: False
      have "collect_regions al (k + 1) space es (ranges @ [?m]) regions = Inr (ranges', regions')"
        using "3.prems"(1) False False2 add al by (simp add: Let_def del: checked_add_eq_Some)
      from "3.IH"(2) [OF False add _ refl False2 this "3.prems"(2)] show ?thesis
        using "3.prems"(3,4) False False2 al by (simp add: nonempty_entries_def entry_end_def)
    next
      case True
      let ?r = "\<lparr>ur_base = me_base entry, ur_end = ?e, ur_next = me_base entry,
        ur_high_next = max (me_base entry) DMA_32BIT_ADDRESS_LIMIT, ur_at_or_above_next = me_base entry\<rparr>"
      have ok: "\<not> (me_base entry mod PAGE_SIZE \<noteq> 0 \<or> me_length entry mod PAGE_SIZE \<noteq> 0)" "\<not> ?e > space" "al (k + 1)"
        using "3.prems"(1) False True add al by (auto simp: Let_def simp del: checked_add_eq_Some split: if_splits)
      have step: "collect_regions al (k + 2) space es (ranges @ [?m]) (regions @ [?r]) = Inr (ranges', regions')"
        using "3.prems"(1) False True add al ok by (simp add: Let_def del: checked_add_eq_Some)
      have new: "region_new space ?r" using ok False by (auto simp: region_new_def mod_eq_0_iff_dvd)
      have ok3: "\<not> \<not> al (k + 1)" and al': "\<not> \<not> al k" and t': "\<not> me_entry_type entry \<noteq> MEMORY_MAP_USABLE" using ok(3) al True by simp_all
      have "(\<forall>r \<in> set (regions @ [?r]). region_new space r)" using "3.prems"(2) new by simp
      from "3.IH"(3) [OF False add al' refl t' ok(1,2) ok3 step this] show ?thesis
        using "3.prems"(3,4) False True by (simp add: bounds_def nonempty_entries_def entry_end_def)
    qed
  qed
qed (simp_all add: nonempty_entries_def)

lemma collect_regions_entries:
  assumes "collect_regions al k space es ranges regions = Inr x" "Inl e \<in> set es"
  shows False
  using assms
proof (induction al k space es ranges regions rule: collect_regions.induct)
  case (3 al k space entry es ranges regions)
  then show ?case by (auto simp: Let_def split: option.splits if_splits)
qed simp_all

lemma overlap_with_None:
  assumes "overlap_with first rest = None" "sorted (map mr_base rest)"
  shows "\<forall>s \<in> set rest. mr_usable first \<or> mr_usable s \<longrightarrow> mr_end first \<le> mr_base s"
  using assms by (induction first rest rule: overlap_with.induct) (auto split: if_splits)

lemma check_overlaps_Inr:
  assumes "check_overlaps rs = Inr ()" "sorted (map mr_base rs)"
  shows "sorted_wrt (\<lambda>r s. mr_usable r \<or> mr_usable s \<longrightarrow> mr_end r \<le> mr_base s) rs"
  using assms
proof (induction rs)
  case (Cons r rs)
  then have "overlap_with r rs = None" by (auto split: option.splits)
  then show ?case using Cons overlap_with_None by (simp split: option.splits)
qed simp

lemma map_sort_key: "map g (sort_key (\<lambda>x. f (g x)) xs) = sort_key f (map g xs)"
proof -
  have "map g (insort_key (\<lambda>x. f (g x)) x ys) = insort_key f (g x) (map g ys)" for x ys
    by (induction ys) simp_all
  then show ?thesis by (induction xs) simp_all
qed

lemma multiples_card:
  assumes "PAGE_SIZE dvd b" "PAGE_SIZE dvd e"
  shows "finite {x. PAGE_SIZE dvd x \<and> b \<le> x \<and> x < e}" "card {x. PAGE_SIZE dvd x \<and> b \<le> x \<and> x < e} = (e - b) div PAGE_SIZE"
proof -
  obtain i j where ij: "b = i * PAGE_SIZE" "e = j * PAGE_SIZE" using assms by (metis dvd_def mult.commute)
  have "{x. PAGE_SIZE dvd x \<and> b \<le> x \<and> x < e} = (\<lambda>n. n * PAGE_SIZE) ` {i..<j}"
    by (auto simp: ij PAGE_SIZE_def image_iff dvd_def)
  moreover have "inj_on (\<lambda>n. n * PAGE_SIZE) {i..<j}" by (simp add: inj_on_def PAGE_SIZE_def)
  moreover have "(e - b) div PAGE_SIZE = j - i" by (simp add: ij PAGE_SIZE_def flip: diff_mult_distrib)
  ultimately show "finite {x. PAGE_SIZE dvd x \<and> b \<le> x \<and> x < e}" "card {x. PAGE_SIZE dvd x \<and> b \<le> x \<and> x < e} = (e - b) div PAGE_SIZE"
    by (simp_all add: card_image)
qed

lemma card_eligible:
  assumes "sorted_wrt (\<lambda>r s. ur_end r \<le> ur_base s) rs" "\<forall>r \<in> set rs. PAGE_SIZE dvd ur_base r \<and> PAGE_SIZE dvd ur_end r"
  shows "finite (eligible_frames rs) \<and> card (eligible_frames rs) = sum_list (map (\<lambda>r. (ur_end r - ur_base r) div PAGE_SIZE) rs)"
  using assms
proof (induction rs)
  case (Cons r rs)
  let ?A = "{x. PAGE_SIZE dvd x \<and> ur_base r \<le> x \<and> x < ur_end r}"
  have "eligible_frames (r # rs) = ?A \<union> eligible_frames rs" by (auto simp: eligible_frames_def region_contains_def)
  moreover have "?A \<inter> eligible_frames rs = {}" using Cons.prems(1) by (force simp: eligible_frames_def region_contains_def)
  moreover have "finite ?A" "card ?A = (ur_end r - ur_base r) div PAGE_SIZE" using multiples_card Cons.prems(2) by simp_all
  ultimately show ?case using Cons by (simp add: card_Un_disjoint)
qed (simp add: eligible_frames_def)

lemma count_regions_Inr:
  "count_regions rs t b h = Inr (t', b', h') \<Longrightarrow> t' = t + sum_list (map (\<lambda>r. (ur_end r - ur_base r) div PAGE_SIZE) rs)"
  by (induction rs t b h rule: count_regions.induct) (auto split: option.splits)

lemma sorted_wrt_pair:
  assumes "sorted_wrt P xs" "x \<in> set xs" "y \<in> set xs" "x \<noteq> y"
  shows "P x y \<or> P y x"
  using assms by (induction xs) auto

lemma nonempty_entries_iff:
  assumes "\<And>e. Inl e \<notin> set es"
  shows "e \<in> set (nonempty_entries es) \<longleftrightarrow> Inr e \<in> set es \<and> me_length e \<noteq> 0"
proof -
  have "e \<in> projr ` set es \<longleftrightarrow> Inr e \<in> set es"
  proof
    assume "e \<in> projr ` set es"
    then obtain x where "x \<in> set es" "e = projr x" by blast
    then show "Inr e \<in> set es" using assms [of "projl x"] by (cases x rule: sum.exhaust) simp_all
  qed force
  then show ?thesis by (simp add: nonempty_entries_def)
qed

lemma validated_regions:
  assumes "collect_regions al 0 space es [] [] = Inr (ranges, regions)" "check_overlaps (sort_key mr_base ranges) = Inr ()"
    "rs = sort_key ur_base regions"
  shows "\<forall>r \<in> set rs. region_new space r" "sorted_wrt (\<lambda>r s. ur_end r \<le> ur_base s) rs"
    "eligible_frames rs = {x. PAGE_SIZE dvd x \<and> (\<exists>m \<in> set ranges. mr_usable m \<and> mr_base m \<le> x \<and> x < mr_end m)}"
    "m \<in> set ranges \<longleftrightarrow> (\<exists>e. Inr e \<in> set es \<and> me_length e \<noteq> 0 \<and> m = \<lparr>mr_base = me_base e, mr_end = entry_end e, mr_usable = entry_usable e\<rparr>)"
    "\<lbrakk>m \<in> set ranges; m' \<in> set ranges; mr_usable m; \<not> mr_usable m'\<rbrakk> \<Longrightarrow> mr_end m \<le> mr_base m' \<or> mr_end m' \<le> mr_base m"
    "\<lbrakk>m \<in> set ranges; mr_usable m\<rbrakk> \<Longrightarrow> PAGE_SIZE dvd mr_end m"
proof -
  have c: "\<forall>r \<in> set regions. region_new space r"
      "bounds regions = map (\<lambda>m. (mr_base m, mr_end m)) (filter mr_usable ranges)"
      "ranges = map (\<lambda>e. \<lparr>mr_base = me_base e, mr_end = entry_end e, mr_usable = entry_usable e\<rparr>) (nonempty_entries es)"
    using collect_regions_Inr [OF assms(1)] by (simp_all add: bounds_def)
  have sr: "sorted_wrt (\<lambda>r s. mr_usable r \<or> mr_usable s \<longrightarrow> mr_end r \<le> mr_base s) (sort_key mr_base ranges)"
    using check_overlaps_Inr [OF assms(2)] by simp
  have "bounds rs = sort_key fst (bounds regions)"
    using map_sort_key [of "\<lambda>r. (ur_base r, ur_end r)" fst regions] by (simp add: bounds_def assms(3))
  also have "\<dots> = map (\<lambda>m. (mr_base m, mr_end m)) (sort_key mr_base (filter mr_usable ranges))"
    using map_sort_key [of "\<lambda>m. (mr_base m, mr_end m)" fst "filter mr_usable ranges"] by (simp add: c(2))
  finally have b: "bounds rs = map (\<lambda>m. (mr_base m, mr_end m)) (filter mr_usable (sort_key mr_base ranges))"
    by (simp add: filter_sort)
  have "sorted_wrt (\<lambda>r s. mr_end r \<le> mr_base s) (filter mr_usable (sort_key mr_base ranges))"
    by (rule sorted_wrt_mono_rel [OF _ sorted_wrt_filter [OF sr]]) auto
  then have "sorted_wrt (\<lambda>p q. snd p \<le> fst q) (bounds rs)" unfolding b by (simp add: sorted_wrt_map)
  then show "sorted_wrt (\<lambda>r s. ur_end r \<le> ur_base s) rs" by (simp add: bounds_def sorted_wrt_map)
  show "\<forall>r \<in> set rs. region_new space r" using c(1) by (simp add: assms(3))
  have "eligible_frames rs = {x. PAGE_SIZE dvd x \<and> (\<exists>p \<in> set (bounds rs). fst p \<le> x \<and> x < snd p)}"
    by (auto simp: eligible_frames_def bounds_def region_contains_def)
  also have "set (bounds rs) = (\<lambda>m. (mr_base m, mr_end m)) ` {m \<in> set ranges. mr_usable m}" unfolding b by simp
  finally show "eligible_frames rs = {x. PAGE_SIZE dvd x \<and> (\<exists>m \<in> set ranges. mr_usable m \<and> mr_base m \<le> x \<and> x < mr_end m)}"
    by auto
  have "\<And>e. Inl e \<notin> set es" using collect_regions_entries [OF assms(1)] by blast
  from nonempty_entries_iff [OF this]
  show "m \<in> set ranges \<longleftrightarrow> (\<exists>e. Inr e \<in> set es \<and> me_length e \<noteq> 0 \<and> m = \<lparr>mr_base = me_base e, mr_end = entry_end e, mr_usable = entry_usable e\<rparr>)"
    by (auto simp: c(3))
  show "\<lbrakk>m \<in> set ranges; m' \<in> set ranges; mr_usable m; \<not> mr_usable m'\<rbrakk> \<Longrightarrow> mr_end m \<le> mr_base m' \<or> mr_end m' \<le> mr_base m"
    using sorted_wrt_pair [OF sr, of m m'] by auto
  assume "m \<in> set ranges" "mr_usable m"
  then have "(mr_base m, mr_end m) \<in> set (bounds regions)" unfolding c(2) by simp
  then show "PAGE_SIZE dvd mr_end m" using c(1) by (auto simp: bounds_def region_new_def)
qed

lemma allocator_new_cases:
  assumes "allocator_new al (Inr es) bits = Inr a"
  obtains space ranges regions t b h where "physical_address_space_size bits = Some space"
    "collect_regions al 0 space es [] [] = Inr (ranges, regions)" "check_overlaps (sort_key mr_base ranges) = Inr ()"
    "count_regions (sort_key ur_base regions) 0 0 0 = Inr (t, b, h)"
    "a = \<lparr>fa_physical_address_space_size = space, fa_usable_regions = sort_key ur_base regions,
      fa_total_eligible_frames = t, fa_below_4g_frames = b, fa_above_4g_frames = t - b,
      fa_highest_usable_address = h, fa_highest_issued_address = 0,
      fa_fresh_remaining_frames = t, fa_reserved_eligible_frames = 0, fa_dma_low_allocations = 0,
      fa_dma_low_failures = 0, fa_allocation_failures = 0, fa_ownership = ledger_new, fa_error = None\<rparr>"
  using assms by (auto simp: allocator_new_def validate_usable_regions_def Let_def split: option.splits sum.splits)

lemma allocator_new_spec:
  assumes "allocator_new al (Inr es) bits = Inr a"
  shows "fa_ok a" "live_frames a = {}" "reserved_frames a = {}"
    "eligible a = {x. PAGE_SIZE dvd x \<and> (\<exists>e. Inr e \<in> set es \<and> entry_usable e \<and> me_base e \<le> x \<and> x < entry_end e)}"
    "x \<in> eligible a \<Longrightarrow> \<exists>e. Inr e \<in> set es \<and> entry_usable e \<and> {x..<x + PAGE_SIZE} \<subseteq> {me_base e..<entry_end e}"
    "\<lbrakk>Inr e \<in> set es; \<not> entry_usable e; x \<in> eligible a\<rbrakk> \<Longrightarrow> {x..<x + PAGE_SIZE} \<inter> {me_base e..<entry_end e} = {}"
proof -
  from allocator_new_cases [OF assms] obtain space ranges regions t b h
    where space: "physical_address_space_size bits = Some space"
      and col: "collect_regions al 0 space es [] [] = Inr (ranges, regions)"
      and ov: "check_overlaps (sort_key mr_base ranges) = Inr ()"
      and cnt: "count_regions (sort_key ur_base regions) 0 0 0 = Inr (t, b, h)"
      and a: "a = \<lparr>fa_physical_address_space_size = space, fa_usable_regions = sort_key ur_base regions,
      fa_total_eligible_frames = t, fa_below_4g_frames = b, fa_above_4g_frames = t - b,
      fa_highest_usable_address = h, fa_highest_issued_address = 0,
      fa_fresh_remaining_frames = t, fa_reserved_eligible_frames = 0, fa_dma_low_allocations = 0,
      fa_dma_low_failures = 0, fa_allocation_failures = 0, fa_ownership = ledger_new, fa_error = None\<rparr>"
    by metis
  define rs where "rs = sort_key ur_base regions"
  note v = validated_regions [OF col ov rs_def]
  have sp: "0 < space" "space \<le> 2 ^ 52"
    using space power_increasing [of bits 52 "2::nat"]
    by (auto simp: physical_address_space_size_def MAX_PHYSICAL_ADDRESS_BITS_def split: if_splits)
  have reg: "region_ok m space r" if "r \<in> set rs" for r and m :: "nat \<rightharpoonup> ownership_state \<times> bool"
    using v(1) that by (auto simp: region_new_def region_ok_def max_def PAGE_SIZE_def DMA_32BIT_ADDRESS_LIMIT_def)
  have card: "t = card (eligible_frames rs)"
    using card_eligible [OF v(2)] v(1) count_regions_Inr [OF cnt] by (simp add: region_new_def rs_def)
  show "live_frames a = {}" "reserved_frames a = {}" by (simp_all add: a live_frames_def reserved_frames_def in_state_def ledger_new_def ledger_view_def)
  show "fa_ok a"
    unfolding a rs_def [symmetric]
    using v(2) reg sp card ledger_new_ok by (simp add: fa_ok_def in_state_def) (simp add: ledger_new_def ledger_view_def)
  show "eligible a = {x. PAGE_SIZE dvd x \<and> (\<exists>e. Inr e \<in> set es \<and> entry_usable e \<and> me_base e \<le> x \<and> x < entry_end e)}"
  proof -
    have "(\<exists>m \<in> set ranges. mr_usable m \<and> mr_base m \<le> x \<and> x < mr_end m) \<longleftrightarrow>
        (\<exists>e. Inr e \<in> set es \<and> entry_usable e \<and> me_base e \<le> x \<and> x < entry_end e)" for x
      unfolding Bex_def v(4) by (fastforce simp: entry_end_def)
    then show ?thesis by (simp add: a rs_def [symmetric] v(3))
  qed
  have page: "\<exists>m \<in> set ranges. mr_usable m \<and> mr_base m \<le> x \<and> x + PAGE_SIZE \<le> mr_end m" if x: "x \<in> eligible a"
  proof -
    obtain m where m: "m \<in> set ranges" "mr_usable m" "mr_base m \<le> x" "x < mr_end m" "PAGE_SIZE dvd x"
      using x by (auto simp: a rs_def [symmetric] v(3))
    then show ?thesis using dvd_step [OF m(5) v(6) [OF m(1,2)] m(4)] by blast
  qed
  show "\<exists>e. Inr e \<in> set es \<and> entry_usable e \<and> {x..<x + PAGE_SIZE} \<subseteq> {me_base e..<entry_end e}" if "x \<in> eligible a"
    using page [OF that] unfolding Bex_def v(4) by fastforce
  show "{x..<x + PAGE_SIZE} \<inter> {me_base e..<entry_end e} = {}" if e: "Inr e \<in> set es" "\<not> entry_usable e" "x \<in> eligible a"
  proof (cases "me_length e = 0")
    case False
    let ?m = "\<lparr>mr_base = me_base e, mr_end = entry_end e, mr_usable = entry_usable e\<rparr>"
    have "?m \<in> set ranges" using v(4) [of ?m] e(1) False by auto
    then show ?thesis using page [OF e(3)] v(5) [of _ ?m] e(2) by fastforce
  qed (simp add: entry_end_def)
qed

section \<open>Reachable allocators\<close>

text \<open>Any sequence of calls on an allocator built from a memory map. The frame of \<open>reserve_frame\<close> is a
  \<^verbatim>\<open>PhysFrame\<close>, so it is a page-aligned physical address.\<close>

inductive fa_step :: "phys_api \<Rightarrow> frame_allocator \<Rightarrow> frame_allocator \<Rightarrow> bool" for api where
  allocate: "allocate_frame api al a = Some (r, b) \<Longrightarrow> fa_step api a b"
| allocate_below: "allocate_frame_below api al limit a = Some (r, b) \<Longrightarrow> fa_step api a b"
| allocate_at_or_above: "allocate_frame_at_or_above api al m a = Some (r, b) \<Longrightarrow> fa_step api a b"
| contiguous: "allocate_contiguous_frames api al pages a = Some (rs, b) \<Longrightarrow> fa_step api a b"
| contiguous_below: "allocate_contiguous_frames_below api al pages limit a = Some (rs, b) \<Longrightarrow> fa_step api a b"
| reserve: "phys_frame x \<Longrightarrow> reserve_frame al x a = Some (changed, b) \<Longrightarrow> fa_step api a b"
| deallocate: "deallocate_frames xs a = Some (d, b) \<Longrightarrow> fa_step api a b"

inductive fa_steps :: "phys_api \<Rightarrow> frame_allocator \<Rightarrow> frame_allocator \<Rightarrow> bool" for api where
  none: "fa_steps api a a"
| more: "fa_steps api a b \<Longrightarrow> fa_step api b c \<Longrightarrow> fa_steps api a c"

definition fa_reachable :: "phys_api \<Rightarrow> (memory_map_error + memory_map_entry) list \<Rightarrow> frame_allocator \<Rightarrow> bool" where
  "fa_reachable api es a \<longleftrightarrow> (\<exists>al bits a0. allocator_new al (Inr es) bits = Inr a0 \<and> fa_steps api a0 a)"

lemma hands_out_reserved: "hands_out al malformed P a r b \<Longrightarrow> reserved_frames b = reserved_frames a"
  by (simp add: hands_out_def)

lemma hands_out_run_reserved: "hands_out_run n m a r b \<Longrightarrow> reserved_frames b = reserved_frames a"
  by (simp add: hands_out_run_def)

lemma fa_step_ok:
  assumes "fa_step api a b" "phys_api_ok api" "fa_ok a"
  shows "fa_ok b \<and> kept a b \<and> reserved_frames a \<subseteq> reserved_frames b"
  using assms
proof (induction rule: fa_step.induct)
  case (allocate al a r b)
  with allocate_frame_spec [of a api al] show ?case by (metis hands_out_reserved order_refl option.inject prod.inject)
next
  case (allocate_below al limit a r b)
  with allocate_frame_below_spec [of a api al limit] show ?case by (metis hands_out_reserved order_refl option.inject prod.inject)
next
  case (allocate_at_or_above al m a r b)
  with allocate_frame_at_or_above_spec [of a api al m] show ?case by (metis hands_out_reserved order_refl option.inject prod.inject)
next
  case (contiguous al pages a r b)
  with contiguous_spec [of a api al pages] show ?case by (metis hands_out_run_reserved order_refl option.inject prod.inject)
next
  case (contiguous_below al pages limit a r b)
  with contiguous_below_spec [of a api al pages limit] show ?case by (metis hands_out_run_reserved order_refl option.inject prod.inject)
next
  case (reserve x al a r b)
  with reserve_frame_ok [of a x al] show ?case by (auto split: sum.splits)
next
  case (deallocate xs a r b)
  with deallocate_frames_ok [of a xs] show ?case by auto
qed

lemma fa_steps_ok:
  assumes "fa_steps api a b" "phys_api_ok api" "fa_ok a"
  shows "fa_ok b \<and> kept a b \<and> reserved_frames a \<subseteq> reserved_frames b"
  using assms
proof (induction rule: fa_steps.induct)
  case (more a b c)
  then have b: "fa_ok b" "kept a b" "reserved_frames a \<subseteq> reserved_frames b" by simp_all
  from fa_step_ok [OF more.hyps(2) more.prems(1) b(1)] b kept_trans [OF b(2)] show ?case by blast
qed simp

lemma fa_reachable_ok:
  assumes "fa_reachable api es a" "phys_api_ok api"
  shows "fa_ok a" "\<exists>al bits a0. allocator_new al (Inr es) bits = Inr a0 \<and> eligible a = eligible a0"
proof -
  obtain al bits a0 where a0: "allocator_new al (Inr es) bits = Inr a0" "fa_steps api a0 a"
    using assms(1) by (auto simp: fa_reachable_def)
  note s = fa_steps_ok [OF a0(2) assms(2) allocator_new_spec(1) [OF a0(1)]]
  show "fa_ok a" using s by blast
  have "eligible a = eligible a0" by (rule kept_eligible) (use s in blast)
  then show "\<exists>al bits a0. allocator_new al (Inr es) bits = Inr a0 \<and> eligible a = eligible a0" using a0(1) by blast
qed

lemma fa_accounting:
  assumes "fa_ok a"
  shows "fa_total_eligible_frames a = fa_fresh_remaining_frames a + length (ol_free (fa_ownership a)) + card (live_frames a) + fa_reserved_eligible_frames a"
    "available_frames a = card (available a)" "ol_live_allocated (fa_ownership a) = card (live_frames a)"
proof -
  let ?l = "fa_ownership a"
  have fin: "finite (eligible a)" by (rule finite_eligible [OF assms])
  have sub: "live_frames a \<subseteq> eligible a" "in_state Free ?l \<subseteq> eligible a" using assms by (auto simp: fa_ok_def live_frames_def)
  have free: "length (ol_free ?l) = card (in_state Free ?l)"
    using assms by (metis distinct_card fa_ok_def ledger_ok_def)
  have dis: "live_frames a \<inter> in_state Free ?l = {}" "live_frames a \<inter> reserved_frames a = {}" "in_state Free ?l \<inter> reserved_frames a = {}"
    by (auto simp: live_frames_def reserved_frames_def in_state_def)
  have el: "eligible a = (eligible a - dom (fa_view a)) \<union> in_state Free ?l \<union> live_frames a \<union> (reserved_frames a \<inter> eligible a)"
    using sub in_state_dom [of ?l] by (auto simp: live_frames_def reserved_frames_def)
  have fs: "finite (live_frames a)" "finite (in_state Free ?l)" using sub fin finite_subset by blast+
  have dom: "live_frames a \<union> in_state Free ?l \<union> reserved_frames a \<subseteq> dom (fa_view a)" using in_state_dom [of ?l] by (auto simp: live_frames_def reserved_frames_def)
  have "card (eligible a) = card (eligible a - dom (fa_view a)) + card (in_state Free ?l) + card (live_frames a) + card (reserved_frames a \<inter> eligible a)"
    by (subst el, subst card_Un_disjoint, use fin fs dis dom in auto)
       (subst card_Un_disjoint, use fin fs dis dom in auto, subst card_Un_disjoint, use fin fs dom in auto)
  then show "fa_total_eligible_frames a = fa_fresh_remaining_frames a + length (ol_free ?l) + card (live_frames a) + fa_reserved_eligible_frames a"
    using assms free by (simp add: fa_ok_def reserved_frames_def)
  have low: "low = False" if "fa_view a f = Some (Free, low)" for f low
    using assms that by (cases low) (auto simp: fa_ok_def ledger_ok_def)
  have "in_state Free ?l = {f. fa_view a f = Some (Free, False)}"
    unfolding in_state_def using low by blast
  then have av: "available a = (eligible a - dom (fa_view a)) \<union> in_state Free ?l"
    using sub(2) by (auto simp: available_def)
  have "card (available a) = card (eligible a - dom (fa_view a)) + card (in_state Free ?l)"
    unfolding av by (rule card_Un_disjoint) (use fin fs dom in auto)
  then have "card (available a) = fa_fresh_remaining_frames a + length (ol_free ?l)"
    using assms free by (simp add: fa_ok_def)
  moreover have "card (available a) \<le> 2 ^ 40"
    using card_phys_frames(2) [of "available a"] eligible_phys(1) [OF assms] by (auto simp: available_def)
  ultimately show "available_frames a = card (available a)" by (simp add: available_frames_def saturating_add_def u64_max_def)
  show "ol_live_allocated ?l = card (live_frames a)"
    using assms by (simp add: fa_ok_def ledger_ok_def cnt_def live_frames_def in_state_def) 
qed

section \<open>Properties\<close>

text \<open>C16: whatever is called after boot, a live frame is page-aligned, all of its bytes lie in one usable entry of the boot memory
  map, and none of them in an entry of another type (firmware, kernel image, device memory).\<close>

theorem live_frames_are_usable:
  assumes "fa_reachable api es a" "phys_api_ok api" "f \<in> live_frames a"
  shows "PAGE_SIZE dvd f \<and> (\<exists>e. Inr e \<in> set es \<and> entry_usable e \<and> {f..<f + PAGE_SIZE} \<subseteq> {me_base e..<entry_end e}) \<and>
    (\<forall>e. Inr e \<in> set es \<and> \<not> entry_usable e \<longrightarrow> {f..<f + PAGE_SIZE} \<inter> {me_base e..<entry_end e} = {})"
proof -
  obtain al bits a0 where a0: "allocator_new al (Inr es) bits = Inr a0" "eligible a = eligible a0"
    using fa_reachable_ok(2) [OF assms(1,2)] by blast
  have f: "f \<in> eligible a0" using fa_reachable_ok(1) [OF assms(1,2)] assms(3) a0(2) by (auto simp: fa_ok_def live_frames_def)
  then have "PAGE_SIZE dvd f" unfolding allocator_new_spec(4) [OF a0(1)] by simp
  then show ?thesis using allocator_new_spec(5) [OF a0(1) f] allocator_new_spec(6) [OF a0(1) _ _ f] by blast
qed

definition sample_api :: phys_api where
  "sample_api = \<lparr>pa_try_new = (\<lambda>x. x < 2 ^ 52), pa_from_start_address = (\<lambda>x. x mod 4096 = 0)\<rparr>"

definition sample_map :: "(memory_map_error + memory_map_entry) list" where
  "sample_map = [Inr \<lparr>me_base = 8192, me_length = 8192, me_entry_type = MEMORY_MAP_USABLE\<rparr>,
                 Inr \<lparr>me_base = 0, me_length = 8192, me_entry_type = 1\<rparr>]"

definition sample_allocator :: frame_allocator where
  "sample_allocator = projr (allocator_new (\<lambda>_. True) (Inr sample_map) 36)"

lemma sample_api_ok: "phys_api_ok sample_api"
  by (simp add: phys_api_ok_def sample_api_def PAGE_SIZE_def mod_eq_0_iff_dvd)

lemmas sample_defs = allocator_new_def validate_usable_regions_def sample_map_def physical_address_space_size_def MAX_PHYSICAL_ADDRESS_BITS_def
  PAGE_SIZE_def MEMORY_MAP_USABLE_def DMA_32BIT_ADDRESS_LIMIT_def Let_def frames_below_limit_def

lemma sample_allocator_new: "allocator_new (\<lambda>_. True) (Inr sample_map) 36 = Inr sample_allocator"
  by (simp add: sample_allocator_def sample_defs u64_max_def checked_add_def checked_mul_def)

lemma sample_allocator_eq:
  "sample_allocator = \<lparr>fa_physical_address_space_size = 68719476736,
     fa_usable_regions = [\<lparr>ur_base = 8192, ur_end = 16384, ur_next = 8192, ur_high_next = 4294967296, ur_at_or_above_next = 8192\<rparr>],
     fa_total_eligible_frames = 2, fa_below_4g_frames = 2, fa_above_4g_frames = 0, fa_highest_usable_address = 12288,
     fa_highest_issued_address = 0, fa_fresh_remaining_frames = 2, fa_reserved_eligible_frames = 0, fa_dma_low_allocations = 0,
     fa_dma_low_failures = 0, fa_allocation_failures = 0, fa_ownership = ledger_new, fa_error = None\<rparr>"
  by (simp add: sample_allocator_def sample_defs u64_max_def checked_add_def checked_mul_def)

definition sample_used :: frame_allocator where
  "sample_used = snd (the (allocate_frame sample_api (\<lambda>_. True) sample_allocator))"

lemmas sample_alloc_defs = rposition_def allocate_frame_def allocate_frame_below_inner_def claim_reclaimed_below_def claim_reclaimed_at_def
  ledger_new_def fresh_candidate_def claim_fresh_def ledger_find_def reserve_new_record_def advance_next_def region_contains_def
  frame_from_address_def sample_api_def note_failure_def no_frame_def fits_below_def PAGE_SIZE_def DMA_32BIT_ADDRESS_LIMIT_def
  u64_max_def saturating_add_def checked_add_def Let_def

lemma sample_allocate:
  "allocate_frame sample_api (\<lambda>_. True) sample_allocator = Some (Inr (Some 8192), sample_used)"
  "fa_ownership sample_used = \<lparr>ol_records = [\<lparr>or_address = 8192, or_state = Allocated, or_dma_low = False\<rparr>], ol_free = [],
     ol_free_capacity = 1, ol_live_allocated = 1, ol_fresh_issued = 1, ol_dma_low_live = 0, ol_above_4g_live = 0\<rparr>"
  by (simp_all add: sample_used_def sample_allocator_eq sample_alloc_defs allocate_fresh_below.simps)

lemma sample_used_sets: "live_frames sample_used = {8192}" "reserved_frames sample_used = {}"
  by (auto simp: live_frames_def reserved_frames_def in_state_def ledger_view_def sample_allocate(2))

lemma sample_fa_reachable: "fa_reachable sample_api sample_map sample_allocator" "fa_reachable sample_api sample_map sample_used"
  using sample_allocator_new fa_steps.none fa_steps.more [OF fa_steps.none fa_step.allocate [OF sample_allocate(1)]]
  unfolding fa_reachable_def by blast+

theorem live_frames_are_usable_witness:
  "8192 \<in> live_frames sample_used \<and> PAGE_SIZE dvd (8192::nat) \<and> 
     (\<exists>e. Inr e \<in> set sample_map \<and> entry_usable e \<and> {8192..<8192 + PAGE_SIZE} \<subseteq> {me_base e..<entry_end e})"
  using live_frames_are_usable [OF sample_fa_reachable(2) sample_api_ok, of 8192] by (auto simp: sample_used_sets)

text \<open>C15: on every reachable allocator the three single-frame calls return, without a panic. A frame they hand out satisfies
  the address bound of the call, was neither live nor reserved, and becomes live; nothing else changes owner. They answer with
  no frame only when no available frame satisfies the bound. They answer with an error only when an earlier failure is recorded,
  when one of the two reservations for a new ownership record is refused, or when \<^verbatim>\<open>allocate_frame_below\<close> is called with limit 0.\<close>

theorem single_frame_allocation:
  assumes "fa_reachable api es a" "phys_api_ok api"
  shows "(\<exists>r b. allocate_frame api al a = Some (r, b) \<and> hands_out al False (\<lambda>_. True) a r b) \<and>
    (\<exists>r b. allocate_frame_below api al limit a = Some (r, b) \<and> hands_out al (limit = 0) (\<lambda>f. f + PAGE_SIZE \<le> limit) a r b) \<and>
    (\<exists>r b. allocate_frame_at_or_above api al m a = Some (r, b) \<and> hands_out al False (\<lambda>f. m \<le> f) a r b)"
  using allocate_frame_spec [OF fa_reachable_ok(1) [OF assms] assms(2), of al]
    allocate_frame_below_spec [OF fa_reachable_ok(1) [OF assms] assms(2), of al limit]
    allocate_frame_at_or_above_spec [OF fa_reachable_ok(1) [OF assms] assms(2), of al m]
  by (intro conjI) metis+

theorem single_frame_allocation_witness:
  "\<exists>r b. allocate_frame_below sample_api (\<lambda>_. True) 12288 sample_used = Some (r, b) \<and>
     hands_out (\<lambda>_. True) False (\<lambda>f. f + PAGE_SIZE \<le> 12288) sample_used r b"
  using single_frame_allocation [OF sample_fa_reachable(2) sample_api_ok, of "\<lambda>_. True" 12288] by simp

text \<open>C17: a contiguous allocation of \<open>pages\<close> pages is all or nothing: either it returns that many consecutive frames below
  the limit, none of them live or reserved before and all of them live after, or the set of live frames is unchanged, also
  when it fails half way through the run.\<close>

theorem contiguous_allocation:
  assumes "fa_reachable api es a" "phys_api_ok api"
  shows "(\<exists>r b. allocate_contiguous_frames_below api al pages limit a = Some (r, b) \<and> hands_out_run pages limit a r b) \<and>
    (\<exists>r b. allocate_contiguous_frames api al pages a = Some (r, b) \<and> hands_out_run pages (fa_physical_address_space_size a) a r b)"
  using contiguous_below_spec [OF fa_reachable_ok(1) [OF assms] assms(2), of al pages limit]
    contiguous_spec [OF fa_reachable_ok(1) [OF assms] assms(2), of al pages]
  by (intro conjI) metis+

theorem contiguous_allocation_witness:
  "\<exists>r b. allocate_contiguous_frames_below sample_api (\<lambda>_. True) 2 16384 sample_used = Some (r, b) \<and> hands_out_run 2 16384 sample_used r b"
  using contiguous_allocation [OF sample_fa_reachable(2) sample_api_ok] by blast

text \<open>C18: returning frames is atomic and never allocates or panics: a list of distinct live frames is released completely
  and becomes available again, and any other list (a repeated frame, a double free, a foreign or reserved frame) is refused
  with an error and leaves the allocator as it was.\<close>

theorem deallocation_is_atomic:
  assumes "fa_reachable api es a" "phys_api_ok api"
  shows "if distinct xs \<and> set xs \<subseteq> live_frames a
    then \<exists>b. deallocate_frames xs a = Some (Inr (), b) \<and> live_frames b = live_frames a - set xs \<and> available b = available a \<union> set xs \<and> reserved_frames b = reserved_frames a
    else \<exists>e. deallocate_frames xs a = Some (Inl e, a)"
proof -
  note ok = fa_reachable_ok(1) [OF assms]
  obtain r b where d: "deallocate_frames xs a = Some (r, b)" "kept a b" "reserved_frames b = reserved_frames a"
    "if distinct xs \<and> set xs \<subseteq> live_frames a then r = Inr () \<and> live_frames b = live_frames a - set xs \<and> fa_view b = override (set xs) (Free, False) (fa_view a)
     else (\<exists>e. r = Inl e) \<and> b = a"
    using deallocate_frames_ok [OF ok, of xs] by blast
  have "live_frames a \<subseteq> eligible a" using ok by (simp add: fa_ok_def live_frames_def)
  then have "available b = available a \<union> set xs" if "set xs \<subseteq> live_frames a" "fa_view b = override (set xs) (Free, False) (fa_view a)"
    using that kept_eligible [OF d(2)] by (auto simp: available_def override_def split: if_splits)
  then show ?thesis using d by (auto split: if_splits)
qed

theorem deallocation_is_atomic_witness:
  "(\<exists>b. deallocate_frames [8192] sample_used = Some (Inr (), b) \<and> live_frames b = {}) \<and>
   (\<exists>e. deallocate_frames [8192, 8192] sample_used = Some (Inl e, sample_used))"
  using deallocation_is_atomic [OF sample_fa_reachable(2) sample_api_ok, of "[8192]"]
    deallocation_is_atomic [OF sample_fa_reachable(2) sample_api_ok, of "[8192, 8192]"]
  by (auto simp: sample_used_sets)

text \<open>C19: the counters the allocator reports are the truth: the eligible frames are exactly the fresh, the reclaimed, the live
  and the reserved ones, \<^verbatim>\<open>available_frames\<close> is the number of frames that can be handed out, and the live count is the number of
  live frames.\<close>

theorem accounting_is_exact:
  assumes "fa_reachable api es a" "phys_api_ok api"
  shows "fs_total_eligible_frames (allocator_stats a) =
      fs_fresh_remaining_frames (allocator_stats a) + fs_reclaimed_free_frames (allocator_stats a) +
      fs_live_allocated_frames (allocator_stats a) + fs_reserved_eligible_frames (allocator_stats a) \<and>
    fs_available_frames (allocator_stats a) = card (available a) \<and> available_frames a = card (available a) \<and>
    fs_live_allocated_frames (allocator_stats a) = card (live_frames a) \<and> fs_total_eligible_frames (allocator_stats a) = card (eligible a)"
  using fa_accounting [OF fa_reachable_ok(1) [OF assms]] fa_reachable_ok(1) [OF assms]
  by (simp add: allocator_stats_def Let_def available_frames_def fa_ok_def)

theorem accounting_is_exact_witness:
  "fs_live_allocated_frames (allocator_stats sample_used) = 1"
  using accounting_is_exact [OF sample_fa_reachable(2) sample_api_ok] by (simp add: sample_used_sets)

text \<open>A reserved frame is reserved for good: after any further calls it is not live and cannot be handed out.\<close>

lemma reserved_frames_stay_reserved:
  assumes "fa_reachable api es a" "phys_api_ok api" "fa_steps api a b" "f \<in> reserved_frames a"
  shows "f \<in> reserved_frames b \<and> f \<notin> live_frames b \<and> f \<notin> available b"
proof (intro conjI)
  show r: "f \<in> reserved_frames b" using fa_steps_ok [OF assms(3,2) fa_reachable_ok(1) [OF assms(1,2)]] assms(4) by blast
  then show "f \<notin> live_frames b" "f \<notin> available b" by (auto simp: reserved_frames_def live_frames_def available_def in_state_def)
qed

lemma sample_reserve:
  "\<exists>b. reserve_frame (\<lambda>_. True) 12288 sample_used = Some (Inr True, b) \<and> 12288 \<in> reserved_frames b"
proof -
  have "fa_ok sample_used" by (rule fa_reachable_ok(1) [OF sample_fa_reachable(2) sample_api_ok])
  moreover have "phys_frame 12288" by (simp add: phys_frame_def PAGE_SIZE_def)
  ultimately obtain r b where rb: "reserve_frame (\<lambda>_. True) 12288 sample_used = Some (r, b)"
      "case r of Inl e \<Rightarrow> live_frames b = live_frames sample_used \<and> reserved_frames b = reserved_frames sample_used
       | Inr changed \<Rightarrow> live_frames b = live_frames sample_used - {12288} \<and> reserved_frames b = insert 12288 (reserved_frames sample_used) \<and> (changed \<longleftrightarrow> 12288 \<notin> reserved_frames sample_used)"
    using reserve_frame_ok by blast
  have "\<not> isl r"
    using rb(1) by (auto simp: reserve_frame_def ledger_reserve_def sample_allocate(2) ledger_find_def reserve_new_record_def
      checked_add_def u64_max_def Let_def split: option.splits if_splits)
  then show ?thesis using rb by (cases r) (simp_all add: sample_used_sets)
qed

end
