(* ===== verification/Binary_Heap.thy ===== *)
theory Binary_Heap
  imports Ginkgo_Prelude
begin

text \<open>
  Binary heaps stored in a vector, ordered by a key: the parent of position \<open>j\<close> is \<open>(j - 1) div 2\<close>. The lemmas
  describe one step of sifting up and of sifting down, and what appending an element or replacing one by the last does.
  \<open>Wait_Runtime\<close> uses them for its deadline heap.
\<close>

definition par :: "nat \<Rightarrow> nat" where
  "par j = (j - 1) div 2"

abbreviation exchange :: "nat \<Rightarrow> nat \<Rightarrow> 'a list \<Rightarrow> 'a list" where
  "exchange a b xs \<equiv> xs[a := xs ! b, b := xs ! a]"

definition heap :: "('a \<Rightarrow> 'b::linorder) \<Rightarrow> 'a list \<Rightarrow> bool" where
  "heap f xs \<longleftrightarrow> (\<forall>j. 0 < j \<and> j < length xs \<longrightarrow> f (xs ! par j) \<le> f (xs ! j))"

text \<open>The order may fail between \<open>i\<close> and its parent only, or between \<open>i\<close> and its children only.\<close>

definition heap_up :: "('a \<Rightarrow> 'b::linorder) \<Rightarrow> 'a list \<Rightarrow> nat \<Rightarrow> bool" where
  "heap_up f xs i \<longleftrightarrow>
     (\<forall>j. 0 < j \<and> j < length xs \<and> j \<noteq> i \<longrightarrow> f (xs ! par j) \<le> f (xs ! j)) \<and>
     (\<forall>j. 0 < i \<and> 0 < j \<and> j < length xs \<and> par j = i \<longrightarrow> f (xs ! par i) \<le> f (xs ! j))"

definition heap_down :: "('a \<Rightarrow> 'b::linorder) \<Rightarrow> 'a list \<Rightarrow> nat \<Rightarrow> bool" where
  "heap_down f xs i \<longleftrightarrow>
     (\<forall>j. 0 < j \<and> j < length xs \<and> par j \<noteq> i \<longrightarrow> f (xs ! par j) \<le> f (xs ! j)) \<and>
     (\<forall>j. 0 < i \<and> 0 < j \<and> j < length xs \<and> par j = i \<longrightarrow> f (xs ! par i) \<le> f (xs ! j))"

lemma par_less: "0 < j \<Longrightarrow> par j < j"
  by (auto simp: par_def)

lemma par_child: "0 < j \<Longrightarrow> par j = i \<longleftrightarrow> j = 2 * i + 1 \<or> j = 2 * i + 2"
  by (auto simp: par_def)

lemma heap_min:
  assumes "heap f xs" "j < length xs"
  shows "f (xs ! 0) \<le> f (xs ! j)"
  using assms(2)
proof (induction j rule: less_induct)
  case (less j)
  show ?case
  proof (cases "j = 0")
    case False
    then have "f (xs ! 0) \<le> f (xs ! par j)" using less.IH [of "par j"] less.prems par_less [of j] by simp
    also have "\<dots> \<le> f (xs ! j)" using assms(1) False less.prems by (simp add: heap_def)
    finally show ?thesis .
  qed simp
qed

lemma heap_up_done: "heap_up f xs i \<Longrightarrow> i = 0 \<or> f (xs ! par i) \<le> f (xs ! i) \<Longrightarrow> heap f xs"
  by (auto simp: heap_up_def heap_def)

lemma heap_down_done:
  "heap_down f xs i \<Longrightarrow> (\<And>j. 0 < j \<Longrightarrow> j < length xs \<Longrightarrow> par j = i \<Longrightarrow> f (xs ! i) \<le> f (xs ! j)) \<Longrightarrow> heap f xs"
  by (auto simp: heap_down_def heap_def)

lemma heap_up_step:
  assumes "heap_up f xs i" "0 < i" "i < length xs" "f (xs ! i) < f (xs ! par i)"
  shows "heap_up f (exchange (par i) i xs) (par i)"
proof -
  have p: "par i < i" "par i < length xs" using assms(2,3) par_less [of i] by auto
  let ?ys = "exchange (par i) i xs"
  have ys: "?ys ! j = (if j = i then xs ! par i else if j = par i then xs ! i else xs ! j)" if "j < length xs" for j
    using that p assms(3) by (auto simp: nth_list_update)
  have old: "f (xs ! par j) \<le> f (xs ! j)" if "0 < j" "j < length xs" "j \<noteq> i" for j
    using assms(1) that by (simp add: heap_up_def)
  have below: "f (xs ! par i) \<le> f (xs ! j)" if "0 < j" "j < length xs" "par j = i" for j
    using assms(1,2) that by (simp add: heap_up_def)
  have 1: "f (?ys ! par j) \<le> f (?ys ! j)" if j: "0 < j" "j < length xs" "j \<noteq> par i" for j
  proof -
    have pj: "par j < length xs" "par j < j" using j(1,2) par_less [of j] by auto
    consider "j = i" | "j \<noteq> i" "par j = i" | "j \<noteq> i" "par j = par i" | "j \<noteq> i" "par j \<noteq> i" "par j \<noteq> par i" by blast
    then show ?thesis
    proof cases
      case 1
      then show ?thesis using assms(4) ys [OF j(2)] ys [OF pj(1)] p by simp
    next
      case 2
      then show ?thesis using below [OF j(1,2)] ys [OF j(2)] ys [OF pj(1)] j(3) by simp
    next
      case 3
      then show ?thesis using old [OF j(1,2) 3(1)] ys [OF j(2)] ys [OF pj(1)] j(3) assms(4) p(1) by simp
    next
      case 4
      then show ?thesis using old [OF j(1,2) 4(1)] ys [OF j(2)] ys [OF pj(1)] j(3) by simp
    qed
  qed
  have 2: "f (?ys ! par (par i)) \<le> f (?ys ! j)" if j: "0 < par i" "0 < j" "j < length xs" "par j = par i" for j
  proof -
    have q: "par (par i) < par i" "par (par i) < length xs" using par_less [OF j(1)] p by auto
    have up: "f (xs ! par (par i)) \<le> f (xs ! par i)" using old [of "par i"] j(1) p by simp
    moreover have "f (xs ! par i) \<le> f (xs ! j)" if "j \<noteq> i" using old [OF j(2,3) that] j(4) by simp
    moreover have "j \<noteq> par i" using j(2,4) par_less [of j] by auto
    ultimately show ?thesis using ys [OF j(3)] ys [OF q(2)] q(1) p(1) by (cases "j = i") auto
  qed
  show ?thesis using 1 2 by (auto simp: heap_up_def)
qed

lemma heap_down_step:
  assumes "heap_down f xs i" "c < length xs" "0 < c" "par c = i" "f (xs ! c) < f (xs ! i)"
    "\<And>j. 0 < j \<Longrightarrow> j < length xs \<Longrightarrow> par j = i \<Longrightarrow> f (xs ! c) \<le> f (xs ! j)"
  shows "heap_down f (exchange i c xs) c"
proof -
  have p: "i < c" "i < length xs" using assms(2,3,4) par_less [of c] by auto
  let ?ys = "exchange i c xs"
  have ys: "?ys ! j = (if j = i then xs ! c else if j = c then xs ! i else xs ! j)" if "j < length xs" for j
    using that p assms(2) by (auto simp: nth_list_update)
  have old: "f (xs ! par j) \<le> f (xs ! j)" if "0 < j" "j < length xs" "par j \<noteq> i" for j
    using assms(1) that by (simp add: heap_down_def)
  have above: "f (xs ! par i) \<le> f (xs ! c)" if "0 < i"
    using assms(1-4) that by (simp add: heap_down_def)
  have 1: "f (?ys ! par j) \<le> f (?ys ! j)" if j: "0 < j" "j < length xs" "par j \<noteq> c" for j
  proof -
    have pj: "par j < length xs" "par j < j" using j(1,2) par_less [of j] by auto
    consider "par j = i" | "par j \<noteq> i" "j = i" | "par j \<noteq> i" "j \<noteq> i" by blast
    then show ?thesis
    proof cases
      case 1
      then show ?thesis using assms(5) assms(6) [OF j(1,2) 1] ys [OF j(2)] ys [OF pj(1)] pj(2) by auto
    next
      case 2
      then show ?thesis using above j ys [OF j(2)] ys [OF pj(1)] by simp
    next
      case 3
      then show ?thesis using old [OF j(1,2) 3(1)] ys [OF j(2)] ys [OF pj(1)] j(3) assms(4) by auto
    qed
  qed
  have 2: "f (?ys ! par c) \<le> f (?ys ! j)" if j: "0 < j" "j < length xs" "par j = c" for j
  proof -
    have "f (xs ! c) \<le> f (xs ! j)" using old [OF j(1,2)] j(3) p(1) by simp
    moreover have "j \<noteq> c" "j \<noteq> i" using j(1,3) par_less [of j] p(1) by auto
    ultimately show ?thesis using ys [OF j(2)] ys [OF p(2)] assms(4) by simp
  qed
  show ?thesis using 1 2 by (auto simp: heap_down_def)
qed

lemma heap_append:
  assumes "heap f xs"
  shows "heap_up f (xs @ [x]) (length xs)"
proof -
  have "f ((xs @ [x]) ! par j) \<le> f ((xs @ [x]) ! j)" if "0 < j" "j < length xs" for j
    using assms that par_less [OF that(1)] by (simp add: heap_def nth_append)
  moreover have "par j \<noteq> length xs" if "0 < j" "j < length (xs @ [x])" for j
    using par_less [OF that(1)] that(2) by simp
  ultimately show ?thesis by (auto simp: heap_up_def less_Suc_eq)
qed

lemma heap_replace:
  assumes "heap f xs" "i < length ys" "length ys \<le> length xs" "\<And>j. j < length ys \<Longrightarrow> j \<noteq> i \<Longrightarrow> ys ! j = xs ! j"
  shows "0 < i \<and> f (ys ! i) < f (ys ! par i) \<Longrightarrow> heap_up f ys i"
    "\<not> (0 < i \<and> f (ys ! i) < f (ys ! par i)) \<Longrightarrow> heap_down f ys i"
proof -
  have old: "f (xs ! par j) \<le> f (xs ! j)" if "0 < j" "j < length ys" for j
    using assms(1,3) that by (simp add: heap_def)
  have other: "f (ys ! par j) \<le> f (ys ! j)" if "0 < j" "j < length ys" "j \<noteq> i" "par j \<noteq> i" for j
  proof -
    have "par j < length ys" using that(1,2) par_less [of j] by auto
    then show ?thesis using old [OF that(1,2)] assms(4) that by simp
  qed
  have below: "f (ys ! par i) \<le> f (ys ! j)" if "0 < i" "0 < j" "j < length ys" "par j = i" for j
  proof -
    have q: "par i < length ys" "par i \<noteq> i" "j \<noteq> i" using that assms(2) par_less [of i] par_less [of j] by auto
    have "f (xs ! par i) \<le> f (xs ! i)" "f (xs ! i) \<le> f (xs ! j)" using old [of i] old [of j] that assms(2) by auto
    then show ?thesis using assms(4) [OF q(1,2)] assms(4) [OF that(3) q(3)] by simp
  qed
  show "heap_up f ys i" if h: "0 < i \<and> f (ys ! i) < f (ys ! par i)"
  proof -
    have "f (ys ! par j) \<le> f (ys ! j)" if "0 < j" "j < length ys" "j \<noteq> i" for j
      using other [OF that] below [of j] h that by (cases "par j = i") auto
    then show ?thesis using below by (auto simp: heap_up_def)
  qed
  show "heap_down f ys i" if h: "\<not> (0 < i \<and> f (ys ! i) < f (ys ! par i))"
  proof -
    have "f (ys ! par j) \<le> f (ys ! j)" if "0 < j" "j < length ys" "par j \<noteq> i" for j
      using other [OF that(1,2) _ that(3)] h that by (cases "j = i") auto
    then show ?thesis using below by (auto simp: heap_down_def)
  qed
qed

end
