(* ===== verification/Wait_Runtime.thy ===== *)
theory Wait_Runtime
  imports Signal_Waiters Binary_Heap "HOL-Library.Product_Lexorder"
begin

text \<open>
  The wait runtime of \<^verbatim>\<open>crates/ginkgo-kernel/src/wait_runtime.rs\<close>: generation-tagged tokens, the slot
  table of registrations, the observer side with its ready queue, and the indexed binary heap of deadlines.
  A panic (an index out of range, an \<^verbatim>\<open>expect\<close>, a \<^verbatim>\<open>debug_assert\<close>) is the result \<^verbatim>\<open>None\<close>. The observer
  lock is held for the whole of each step, so the observer state is a field of the runtime.
\<close>

section \<open>Tokens\<close>

definition TOKEN_INDEX_BITS :: nat where "TOKEN_INDEX_BITS = 32"
definition TOKEN_INDEX_MASK :: nat where "TOKEN_INDEX_MASK = 2 ^ 32 - 1"
definition u32_max :: nat where "u32_max = 2 ^ 32 - 1"

datatype wait_kind = WaitMany | Sleep | Join | WaitRequest | WaitProcessTermination

datatype wake_cause = CauseObject | CauseDependency | CauseDeadline

record 'k wait_wake =
  wk_token :: wait_token
  wk_key :: 'k
  wk_kind :: wait_kind
  wk_cause :: wake_cause
  wk_deadline_ns :: "nat option"

datatype wait_runtime_error = InvalidCapacity | CapacityTooLarge | CapacityReached | WaitOutOfMemory

record wait_runtime_diagnostics =
  wd_active :: nat
  wd_peak_active :: nat
  wd_object_notifications :: nat
  wd_dependency_notifications :: nat
  wd_coalesced_notifications :: nat
  wd_stale_notifications :: nat
  wd_deadline_wakes :: nat
  wd_cancellations :: nat
  wd_queue_peak :: nat

text \<open>A \<^verbatim>\<open>u64\<close> shifted right by 32 bits fits \<^verbatim>\<open>u32\<close>, so the cast to the generation is exact.\<close>

definition decode_token :: "wait_token \<Rightarrow> nat \<Rightarrow> (nat \<times> nat) option" where
  "decode_token raw capacity =
     (let encoded_index = raw AND TOKEN_INDEX_MASK;
          generation = drop_bit TOKEN_INDEX_BITS raw
      in if encoded_index = 0 \<or> generation = 0 then None
         else let index = encoded_index - 1
              in if index \<ge> capacity then None else Some (index, generation))"

text \<open>The \<^verbatim>\<open>expect\<close> on a non-zero value cannot fail (\<open>encode_token_nonzero\<close>).\<close>

definition encode_token :: "nat \<Rightarrow> nat \<Rightarrow> wait_token" where
  "encode_token index generation = push_bit TOKEN_INDEX_BITS generation OR (index + 1)"

definition advanced_generation :: "nat \<Rightarrow> nat \<times> bool" where
  "advanced_generation generation =
     (if generation + 1 \<le> u32_max then (generation + 1, False) else (generation, True))"

section \<open>Slots and the observer\<close>

record 'k wait_slot =
  ws_generation :: nat
  ws_retired :: bool
  ws_key :: "'k option"
  ws_kind :: wait_kind
  ws_deadline_ns :: "nat option"
  ws_heap_index :: "nat option"

definition wait_slot_vacant :: "'k wait_slot" where
  "wait_slot_vacant = \<lparr>ws_generation = 1, ws_retired = False, ws_key = None, ws_kind = WaitMany,
     ws_deadline_ns = None, ws_heap_index = None\<rparr>"

definition ws_is_active :: "'k wait_slot \<Rightarrow> bool" where
  "ws_is_active s = (ws_key s \<noteq> None)"

record observer_slot =
  os_generation :: nat
  os_retired :: bool
  os_active :: bool
  os_queued :: bool

definition observer_slot_vacant :: observer_slot where
  "observer_slot_vacant = \<lparr>os_generation = 1, os_retired = False, os_active = False, os_queued = False\<rparr>"

record ready_record =
  rr_token :: wait_token
  rr_cause :: wake_cause

record observer_state =
  ob_slots :: "observer_slot list"
  ob_ready :: "ready_record list"
  ob_diagnostics :: wait_runtime_diagnostics

abbreviation upd_diag :: "(wait_runtime_diagnostics \<Rightarrow> wait_runtime_diagnostics) \<Rightarrow> observer_state \<Rightarrow> observer_state" where
  "upd_diag f st \<equiv> st\<lparr>ob_diagnostics := f (ob_diagnostics st)\<rparr>"

definition note_stale :: "observer_state \<Rightarrow> observer_state" where
  "note_stale st = upd_diag (\<lambda>d. d\<lparr>wd_stale_notifications := saturating_add (wd_stale_notifications d) 1\<rparr>) st"

definition ob_notify :: "wait_token \<Rightarrow> wake_cause \<Rightarrow> observer_state \<Rightarrow> (bool \<times> observer_state) option" where
  "ob_notify token cause st =
     (case decode_token token (length (ob_slots st)) of
        None \<Rightarrow> Some (False, note_stale st)
      | Some (index, generation) \<Rightarrow>
          let slot = ob_slots st ! index
          in if \<not> os_active slot \<or> os_retired slot \<or> os_generation slot \<noteq> generation then Some (False, note_stale st)
             else
               case (case cause of
                       CauseObject \<Rightarrow> Some (upd_diag (\<lambda>d. d\<lparr>wd_object_notifications := saturating_add (wd_object_notifications d) 1\<rparr>) st)
                     | CauseDependency \<Rightarrow> Some (upd_diag (\<lambda>d. d\<lparr>wd_dependency_notifications := saturating_add (wd_dependency_notifications d) 1\<rparr>) st)
                     | CauseDeadline \<Rightarrow> None) of
                 None \<Rightarrow> None
               | Some st1 \<Rightarrow>
                   if os_queued slot then
                     Some (True, upd_diag (\<lambda>d. d\<lparr>wd_coalesced_notifications := saturating_add (wd_coalesced_notifications d) 1\<rparr>) st1)
                   else if \<not> length (ob_ready st1) < length (ob_slots st1) then None
                   else
                     let ready = ob_ready st1 @ [\<lparr>rr_token = token, rr_cause = cause\<rparr>]
                     in Some (True, upd_diag (\<lambda>d. d\<lparr>wd_queue_peak := max (wd_queue_peak d) (length ready)\<rparr>)
                          (st1\<lparr>ob_slots := (ob_slots st1)[index := slot\<lparr>os_queued := True\<rparr>], ob_ready := ready\<rparr>)))"

definition remove_ready :: "wait_token \<Rightarrow> nat \<Rightarrow> observer_state \<Rightarrow> observer_state option" where
  "remove_ready token index st =
     (case vec_get (ob_slots st) index of
        None \<Rightarrow> None
      | Some slot \<Rightarrow>
          if os_queued slot then
            Some (st\<lparr>ob_ready := (case position (\<lambda>r. rr_token r = token) (ob_ready st) of
                                   None \<Rightarrow> ob_ready st
                                 | Some p \<Rightarrow> take p (ob_ready st) @ drop (Suc p) (ob_ready st)),
                     ob_slots := (ob_slots st)[index := slot\<lparr>os_queued := False\<rparr>]\<rparr>)
          else Some st)"

definition activate :: "nat \<Rightarrow> nat \<Rightarrow> observer_state \<Rightarrow> observer_state option" where
  "activate index generation st =
     (case vec_get (ob_slots st) index of
        None \<Rightarrow> None
      | Some slot \<Rightarrow>
          if os_active slot \<or> os_retired slot \<or> os_generation slot \<noteq> generation \<or> os_queued slot then None
          else Some (upd_diag (\<lambda>d. d\<lparr>wd_active := wd_active d + 1, wd_peak_active := max (wd_peak_active d) (wd_active d + 1)\<rparr>)
                 (st\<lparr>ob_slots := (ob_slots st)[index := slot\<lparr>os_active := True\<rparr>]\<rparr>)))"

definition deactivate :: "nat \<Rightarrow> nat \<Rightarrow> bool \<Rightarrow> observer_state \<Rightarrow> observer_state option" where
  "deactivate index generation retired st =
     (case vec_get (ob_slots st) index of
        None \<Rightarrow> None
      | Some slot \<Rightarrow>
          if \<not> os_active slot \<or> wd_active (ob_diagnostics st) = 0 then None
          else Some (upd_diag (\<lambda>d. d\<lparr>wd_active := wd_active d - 1\<rparr>)
                 (st\<lparr>ob_slots := (ob_slots st)[index :=
                     slot\<lparr>os_active := False, os_queued := False, os_generation := generation, os_retired := retired\<rparr>]\<rparr>)))"

record deadline_entry =
  de_deadline_ns :: nat
  de_token :: wait_token

definition ordering_key :: "deadline_entry \<Rightarrow> nat \<times> nat" where
  "ordering_key e = (de_deadline_ns e, de_token e)"

record 'k wait_runtime =
  wr_capacity :: nat
  wr_slots :: "'k wait_slot list"
  wr_deadlines :: "deadline_entry list"
  wr_observer :: observer_state

definition wait_runtime_try_new :: "(nat \<Rightarrow> bool) \<Rightarrow> nat \<Rightarrow> wait_runtime_error + 'k wait_runtime" where
  "wait_runtime_try_new al capacity =
     (if capacity = 0 then Inl InvalidCapacity
      else if capacity > u32_max then Inl CapacityTooLarge
      else if \<not> al 0 \<or> \<not> al 1 \<or> \<not> al 2 \<or> \<not> al 3 \<or> \<not> al 4 then Inl WaitOutOfMemory
      else Inr \<lparr>wr_capacity = capacity, wr_slots = replicate capacity wait_slot_vacant, wr_deadlines = [],
                wr_observer = \<lparr>ob_slots = replicate capacity observer_slot_vacant, ob_ready = [],
                  ob_diagnostics = \<lparr>wd_active = 0, wd_peak_active = 0, wd_object_notifications = 0,
                    wd_dependency_notifications = 0, wd_coalesced_notifications = 0, wd_stale_notifications = 0,
                    wd_deadline_wakes = 0, wd_cancellations = 0, wd_queue_peak = 0\<rparr>\<rparr>\<rparr>)"

section \<open>The deadline heap\<close>

definition set_heap_index :: "nat \<Rightarrow> 'k wait_runtime \<Rightarrow> 'k wait_runtime option" where
  "set_heap_index heap_index rt =
     (case vec_get (wr_deadlines rt) heap_index of
        None \<Rightarrow> None
      | Some e \<Rightarrow>
          case decode_token (de_token e) (wr_capacity rt) of
            None \<Rightarrow> None
          | Some (i, _) \<Rightarrow>
              case vec_get (wr_slots rt) i of
                None \<Rightarrow> None
              | Some slot \<Rightarrow> Some (rt\<lparr>wr_slots := (wr_slots rt)[i := slot\<lparr>ws_heap_index := Some heap_index\<rparr>]\<rparr>))"

definition swap_deadlines :: "nat \<Rightarrow> nat \<Rightarrow> 'k wait_runtime \<Rightarrow> 'k wait_runtime option" where
  "swap_deadlines left right rt =
     (let ds = wr_deadlines rt
      in if left < length ds \<and> right < length ds then
           case set_heap_index left (rt\<lparr>wr_deadlines := ds[left := ds ! right, right := ds ! left]\<rparr>) of
             None \<Rightarrow> None
           | Some rt1 \<Rightarrow> set_heap_index right rt1
         else None)"

function sift_deadline_up :: "nat \<Rightarrow> 'k wait_runtime \<Rightarrow> 'k wait_runtime option" where
  "sift_deadline_up index rt =
     (if index > 0 then
        let parent = (index - 1) div 2
        in if index \<ge> length (wr_deadlines rt) then None
           else if ordering_key (wr_deadlines rt ! parent) \<le> ordering_key (wr_deadlines rt ! index) then Some rt
           else case swap_deadlines parent index rt of
             None \<Rightarrow> None
           | Some rt1 \<Rightarrow> sift_deadline_up parent rt1
      else Some rt)"
  by pat_completeness auto

termination
  by (relation "measure fst") auto

declare sift_deadline_up.simps [simp del]

text \<open>The child that \<^verbatim>\<open>sift_deadline_down\<close> compares with.\<close>

definition smallest_child :: "deadline_entry list \<Rightarrow> nat \<Rightarrow> nat" where
  "smallest_child ds left =
     (let right = left + 1
      in if right < length ds \<and> ordering_key (ds ! right) < ordering_key (ds ! left) then right else left)"

lemma set_heap_index_frame:
  "set_heap_index h rt = Some rt' \<Longrightarrow>
   wr_deadlines rt' = wr_deadlines rt \<and> wr_observer rt' = wr_observer rt \<and> wr_capacity rt' = wr_capacity rt"
  by (auto simp: set_heap_index_def split: option.splits)

lemma swap_deadlines_frame:
  "swap_deadlines l r rt = Some rt' \<Longrightarrow>
   wr_deadlines rt' = (wr_deadlines rt)[l := wr_deadlines rt ! r, r := wr_deadlines rt ! l] \<and>
   wr_observer rt' = wr_observer rt \<and> wr_capacity rt' = wr_capacity rt"
  by (auto simp: swap_deadlines_def Let_def dest!: set_heap_index_frame split: if_splits option.splits)

lemma swap_deadlines_length: "swap_deadlines l r rt = Some rt' \<Longrightarrow> length (wr_deadlines rt') = length (wr_deadlines rt)"
  by (simp add: swap_deadlines_frame)

function sift_deadline_down :: "nat \<Rightarrow> 'k wait_runtime \<Rightarrow> 'k wait_runtime option" where
  "sift_deadline_down index rt =
     (let left = index * 2 + 1
      in if left \<ge> length (wr_deadlines rt) then Some rt
         else
           let smallest = smallest_child (wr_deadlines rt) left
           in if ordering_key (wr_deadlines rt ! index) \<le> ordering_key (wr_deadlines rt ! smallest) then Some rt
              else case swap_deadlines index smallest rt of
                None \<Rightarrow> None
              | Some rt1 \<Rightarrow> sift_deadline_down smallest rt1)"
  by pat_completeness auto

termination
  by (relation "measure (\<lambda>(index, rt). length (wr_deadlines rt) - index)")
    (auto simp: swap_deadlines_length smallest_child_def Let_def)

declare sift_deadline_down.simps [simp del]

definition push_deadline :: "deadline_entry \<Rightarrow> 'k wait_runtime \<Rightarrow> 'k wait_runtime option" where
  "push_deadline entry rt =
     (if \<not> length (wr_deadlines rt) < wr_capacity rt then None
      else
        let index = length (wr_deadlines rt)
        in case set_heap_index index (rt\<lparr>wr_deadlines := wr_deadlines rt @ [entry]\<rparr>) of
             None \<Rightarrow> None
           | Some rt1 \<Rightarrow> sift_deadline_up index rt1)"

text \<open>The second half of \<^verbatim>\<open>remove_deadline_at\<close>, for the entry that took the removed one's place.\<close>

definition restore_heap :: "nat \<Rightarrow> 'k wait_runtime \<Rightarrow> 'k wait_runtime option" where
  "restore_heap index rt =
     (if index < length (wr_deadlines rt) then
        case set_heap_index index rt of
          None \<Rightarrow> None
        | Some rt1 \<Rightarrow>
            if index > 0 \<and> ordering_key (wr_deadlines rt1 ! index) < ordering_key (wr_deadlines rt1 ! ((index - 1) div 2))
            then sift_deadline_up index rt1
            else sift_deadline_down index rt1
      else Some rt)"

definition remove_deadline_at :: "nat \<Rightarrow> 'k wait_runtime \<Rightarrow> (deadline_entry \<times> 'k wait_runtime) option" where
  "remove_deadline_at index rt =
     (if index \<ge> length (wr_deadlines rt) then None
      else
        let removed = wr_deadlines rt ! index;
            rt1 = rt\<lparr>wr_deadlines := swap_remove index (wr_deadlines rt)\<rparr>
        in case (case decode_token (de_token removed) (wr_capacity rt1) of
                   None \<Rightarrow> Some rt1
                 | Some (i, generation) \<Rightarrow>
                     (case vec_get (wr_slots rt1) i of
                        None \<Rightarrow> None
                      | Some slot \<Rightarrow>
                          Some (if ws_generation slot = generation
                                then rt1\<lparr>wr_slots := (wr_slots rt1)[i := slot\<lparr>ws_heap_index := None\<rparr>]\<rparr> else rt1))) of
             None \<Rightarrow> None
           | Some rt2 \<Rightarrow> map_option (Pair removed) (restore_heap index rt2))"

definition remove_slot_deadline :: "nat \<Rightarrow> 'k wait_runtime \<Rightarrow> 'k wait_runtime option" where
  "remove_slot_deadline slot_index rt =
     (case vec_get (wr_slots rt) slot_index of
        None \<Rightarrow> None
      | Some slot \<Rightarrow>
          case ws_heap_index slot of
            None \<Rightarrow> Some rt
          | Some heap_index \<Rightarrow> map_option snd (remove_deadline_at heap_index rt))"

definition release_slot :: "nat \<Rightarrow> nat \<Rightarrow> bool \<Rightarrow> 'k wait_runtime \<Rightarrow> 'k wait_runtime option" where
  "release_slot index generation retired rt =
     (case vec_get (wr_slots rt) index of
        None \<Rightarrow> None
      | Some slot \<Rightarrow>
          Some (rt\<lparr>wr_slots := (wr_slots rt)[index :=
            slot\<lparr>ws_key := None, ws_deadline_ns := None, ws_heap_index := None, ws_generation := generation, ws_retired := retired\<rparr>]\<rparr>))"

section \<open>Operations\<close>

definition wr_register ::
  "'k \<Rightarrow> wait_kind \<Rightarrow> nat option \<Rightarrow> 'k wait_runtime \<Rightarrow> ((wait_runtime_error + wait_token) \<times> 'k wait_runtime) option" where
  "wr_register key kind deadline_ns rt =
     (case position (\<lambda>s. \<not> ws_is_active s \<and> \<not> ws_retired s) (wr_slots rt) of
        None \<Rightarrow> Some (Inl CapacityReached, rt)
      | Some index \<Rightarrow>
          let slot = wr_slots rt ! index;
              generation = ws_generation slot;
              token = encode_token index generation;
              rt1 = rt\<lparr>wr_slots := (wr_slots rt)[index :=
                slot\<lparr>ws_key := Some key, ws_kind := kind, ws_deadline_ns := deadline_ns, ws_heap_index := None\<rparr>]\<rparr>
          in case (case deadline_ns of
                     None \<Rightarrow> Some rt1
                   | Some d \<Rightarrow> push_deadline \<lparr>de_deadline_ns = d, de_token = token\<rparr> rt1) of
               None \<Rightarrow> None
             | Some rt2 \<Rightarrow>
                 map_option (\<lambda>st. (Inr token, rt2\<lparr>wr_observer := st\<rparr>)) (activate index generation (wr_observer rt2)))"

definition wr_signal :: "wait_token \<Rightarrow> 'k wait_runtime \<Rightarrow> 'k wait_runtime option" where
  "wr_signal token rt = map_option (\<lambda>(_, st). rt\<lparr>wr_observer := st\<rparr>) (ob_notify token CauseObject (wr_observer rt))"

definition notify_dependency :: "wait_token \<Rightarrow> 'k wait_runtime \<Rightarrow> (bool \<times> 'k wait_runtime) option" where
  "notify_dependency token rt =
     map_option (\<lambda>(r, st). (r, rt\<lparr>wr_observer := st\<rparr>)) (ob_notify token CauseDependency (wr_observer rt))"

definition token_for_key :: "'k \<Rightarrow> 'k wait_runtime \<Rightarrow> wait_token option" where
  "token_for_key key rt =
     map_option (\<lambda>i. encode_token i (ws_generation (wr_slots rt ! i))) (position (\<lambda>s. ws_key s = Some key) (wr_slots rt))"

definition wr_cancel :: "wait_token \<Rightarrow> 'k wait_runtime \<Rightarrow> (bool \<times> 'k wait_runtime) option" where
  "wr_cancel token rt =
     (case decode_token token (wr_capacity rt) of
        None \<Rightarrow> Some (False, rt)
      | Some (index, token_generation) \<Rightarrow>
          case vec_get (wr_slots rt) index of
            None \<Rightarrow> None
          | Some slot \<Rightarrow>
              if \<not> ws_is_active slot \<or> ws_generation slot \<noteq> token_generation then Some (False, rt)
              else
                let (next_generation, retired) = advanced_generation token_generation
                in case remove_ready token index (wr_observer rt) of
                     None \<Rightarrow> None
                   | Some st1 \<Rightarrow>
                       case deactivate index next_generation retired st1 of
                         None \<Rightarrow> None
                       | Some st2 \<Rightarrow>
                           let st3 = upd_diag (\<lambda>d. d\<lparr>wd_cancellations := saturating_add (wd_cancellations d) 1\<rparr>) st2
                           in case remove_slot_deadline index (rt\<lparr>wr_observer := st3\<rparr>) of
                                None \<Rightarrow> None
                              | Some rt1 \<Rightarrow> map_option (Pair True) (release_slot index next_generation retired rt1))"

definition cancel_key :: "'k \<Rightarrow> 'k wait_runtime \<Rightarrow> (bool \<times> 'k wait_runtime) option" where
  "cancel_key key rt = (case token_for_key key rt of None \<Rightarrow> Some (False, rt) | Some token \<Rightarrow> wr_cancel token rt)"

definition next_deadline_ns :: "'k wait_runtime \<Rightarrow> nat option" where
  "next_deadline_ns rt = (case wr_deadlines rt of [] \<Rightarrow> None | e # _ \<Rightarrow> Some (de_deadline_ns e))"

definition same_heap_shape :: "'k wait_runtime \<Rightarrow> 'k wait_runtime \<Rightarrow> bool" where
  "same_heap_shape rt rt' \<longleftrightarrow> length (wr_deadlines rt') = length (wr_deadlines rt) \<and> wr_observer rt' = wr_observer rt \<and> wr_capacity rt' = wr_capacity rt"

lemma same_heap_shape_trans: "same_heap_shape a b \<Longrightarrow> same_heap_shape b c \<Longrightarrow> same_heap_shape a c"
  by (simp add: same_heap_shape_def)

lemma set_heap_index_shape: "set_heap_index h rt = Some rt' \<Longrightarrow> same_heap_shape rt rt'"
  by (simp add: same_heap_shape_def set_heap_index_frame)

lemma swap_deadlines_shape: "swap_deadlines l r rt = Some rt' \<Longrightarrow> same_heap_shape rt rt'"
  by (simp add: same_heap_shape_def swap_deadlines_frame)

lemma sift_up_shape: "sift_deadline_up i rt = Some rt' \<Longrightarrow> same_heap_shape rt rt'"
proof (induction i rt arbitrary: rt' rule: sift_deadline_up.induct)
  case (1 i rt)
  show ?case
  proof (cases "rt' = rt")
    case False
    with "1.prems" obtain rt1 where s: "0 < i" "\<not> length (wr_deadlines rt) \<le> i"
        "\<not> ordering_key (wr_deadlines rt ! ((i - 1) div 2)) \<le> ordering_key (wr_deadlines rt ! i)"
        "swap_deadlines ((i - 1) div 2) i rt = Some rt1" "sift_deadline_up ((i - 1) div 2) rt1 = Some rt'"
      by (subst (asm) sift_deadline_up.simps) (auto simp: Let_def split: if_splits option.splits)
    show ?thesis by (rule same_heap_shape_trans [OF swap_deadlines_shape [OF s(4)] "1.IH" [OF s(1) refl s(2-5)]])
  qed (simp add: same_heap_shape_def)
qed

lemma sift_down_shape: "sift_deadline_down i rt = Some rt' \<Longrightarrow> same_heap_shape rt rt'"
proof (induction i rt arbitrary: rt' rule: sift_deadline_down.induct)
  case (1 i rt)
  show ?case
  proof (cases "rt' = rt")
    case False
    let ?c = "smallest_child (wr_deadlines rt) (i * 2 + 1)"
    from "1.prems" False obtain rt1 where s: "\<not> length (wr_deadlines rt) \<le> i * 2 + 1"
        "\<not> ordering_key (wr_deadlines rt ! i) \<le> ordering_key (wr_deadlines rt ! ?c)"
        "swap_deadlines i ?c rt = Some rt1" "sift_deadline_down ?c rt1 = Some rt'"
      by (subst (asm) sift_deadline_down.simps) (auto simp: Let_def split: if_splits option.splits)
    show ?thesis by (rule same_heap_shape_trans [OF swap_deadlines_shape [OF s(3)] "1.IH" [OF refl s(1) refl s(2-4)]])
  qed (simp add: same_heap_shape_def)
qed

lemma restore_heap_shape: "restore_heap i rt = Some rt' \<Longrightarrow> same_heap_shape rt rt'"
  by (auto simp: restore_heap_def intro: same_heap_shape_trans [OF set_heap_index_shape sift_up_shape]
      same_heap_shape_trans [OF set_heap_index_shape sift_down_shape] split: if_splits option.splits)
    (simp add: same_heap_shape_def)

lemma remove_deadline_at_shape:
  assumes "remove_deadline_at i rt = Some (e, rt')"
  shows "Suc (length (wr_deadlines rt')) = length (wr_deadlines rt) \<and> wr_observer rt' = wr_observer rt \<and> wr_capacity rt' = wr_capacity rt"
proof -
  obtain rt2 where rt2: "restore_heap i rt2 = Some rt'" "i < length (wr_deadlines rt)"
      "wr_deadlines rt2 = swap_remove i (wr_deadlines rt)" "wr_observer rt2 = wr_observer rt" "wr_capacity rt2 = wr_capacity rt"
    using assms by (auto simp: remove_deadline_at_def Let_def split: if_splits option.splits)
  with restore_heap_shape [OF rt2(1)] show ?thesis by (simp add: same_heap_shape_def)
qed

text \<open>Completing the wait of one slot: the common tail of the two arms of \<^verbatim>\<open>next_wake\<close>.\<close>

definition wake_of :: "wait_token \<Rightarrow> 'k \<Rightarrow> wake_cause \<Rightarrow> 'k wait_slot \<Rightarrow> 'k wait_wake" where
  "wake_of token key cause slot = \<lparr>wk_token = token, wk_key = key, wk_kind = ws_kind slot, wk_cause = cause,
     wk_deadline_ns = ws_deadline_ns slot\<rparr>"

definition clear_queued :: "nat \<Rightarrow> observer_state \<Rightarrow> observer_state" where
  "clear_queued index st = st\<lparr>ob_slots := (ob_slots st)[index := (ob_slots st ! index)\<lparr>os_queued := False\<rparr>]\<rparr>"

text \<open>
  The two nested loops of \<^verbatim>\<open>next_wake\<close>: each round either pops the front of the ready queue or, when it is
  empty, looks at the root of the heap.
\<close>

function next_wake :: "nat \<Rightarrow> 'k wait_runtime \<Rightarrow> ('k wait_wake option \<times> 'k wait_runtime) option" where
  "next_wake now_ns rt =
     (case ob_ready (wr_observer rt) of
        r # rest \<Rightarrow>
          let st = (wr_observer rt)\<lparr>ob_ready := rest\<rparr>;
              skip = rt\<lparr>wr_observer := st\<rparr>
          in (case decode_token (rr_token r) (wr_capacity rt) of
                None \<Rightarrow> next_wake now_ns skip
              | Some (index, generation) \<Rightarrow>
                  (case vec_get (ob_slots st) index of
                     None \<Rightarrow> None
                   | Some os \<Rightarrow>
                       if \<not> os_active os \<or> \<not> os_queued os \<or> os_generation os \<noteq> generation then next_wake now_ns skip
                       else
                         (case vec_get (wr_slots rt) index of
                            None \<Rightarrow> None
                          | Some slot \<Rightarrow>
                              (case ws_key slot of
                                 None \<Rightarrow> next_wake now_ns (rt\<lparr>wr_observer := clear_queued index st\<rparr>)
                               | Some key \<Rightarrow>
                                   if ws_generation slot \<noteq> generation then next_wake now_ns (rt\<lparr>wr_observer := clear_queued index st\<rparr>)
                                   else
                                     let (next_generation, retired) = advanced_generation generation
                                     in (case deactivate index next_generation retired st of
                                           None \<Rightarrow> None
                                         | Some st1 \<Rightarrow>
                                             (case remove_slot_deadline index (rt\<lparr>wr_observer := st1\<rparr>) of
                                                None \<Rightarrow> None
                                              | Some rt1 \<Rightarrow>
                                                  map_option (Pair (Some (wake_of (rr_token r) key (rr_cause r) slot)))
                                                    (release_slot index next_generation retired rt1)))))))
      | [] \<Rightarrow>
          (case wr_deadlines rt of
             [] \<Rightarrow> Some (None, rt)
           | entry # _ \<Rightarrow>
               if de_deadline_ns entry > now_ns then Some (None, rt)
               else
                 let drop_entry = remove_deadline_at 0 rt
                 in (case decode_token (de_token entry) (wr_capacity rt) of
                       None \<Rightarrow> (case drop_entry of None \<Rightarrow> None | Some (_, rt1) \<Rightarrow> next_wake now_ns rt1)
                     | Some (index, generation) \<Rightarrow>
                         (case vec_get (wr_slots rt) index of
                            None \<Rightarrow> None
                          | Some slot \<Rightarrow>
                              (case ws_key slot of
                                 None \<Rightarrow> (case drop_entry of None \<Rightarrow> None | Some (_, rt1) \<Rightarrow> next_wake now_ns rt1)
                               | Some key \<Rightarrow>
                                   if ws_generation slot \<noteq> generation then
                                     (case drop_entry of None \<Rightarrow> None | Some (_, rt1) \<Rightarrow> next_wake now_ns rt1)
                                   else
                                     let (next_generation, retired) = advanced_generation generation
                                     in (case deactivate index next_generation retired (wr_observer rt) of
                                           None \<Rightarrow> None
                                         | Some st1 \<Rightarrow>
                                             let st2 = upd_diag (\<lambda>d. d\<lparr>wd_deadline_wakes := saturating_add (wd_deadline_wakes d) 1\<rparr>) st1
                                             in (case remove_deadline_at 0 (rt\<lparr>wr_observer := st2\<rparr>) of
                                                   None \<Rightarrow> None
                                                 | Some (_, rt1) \<Rightarrow>
                                                     map_option (Pair (Some (wake_of (de_token entry) key CauseDeadline slot)))
                                                       (release_slot index next_generation retired rt1)))))))) "
  by pat_completeness auto

termination
  by (relation "measure (\<lambda>(_, rt). length (ob_ready (wr_observer rt)) + length (wr_deadlines rt))")
    (auto simp: clear_queued_def dest!: remove_deadline_at_shape [OF sym])

declare next_wake.simps [simp del]

section \<open>The indexed heap\<close>

text \<open>Every entry's token decodes to a slot, and the slots' \<^verbatim>\<open>heap_index\<close> fields are exactly the entries' positions.\<close>

abbreviation entry_slot :: "'k wait_runtime \<Rightarrow> deadline_entry \<Rightarrow> nat" where
  "entry_slot rt e \<equiv> fst (the (decode_token (de_token e) (wr_capacity rt)))"

definition indexed :: "'k wait_runtime \<Rightarrow> bool" where
  "indexed rt \<longleftrightarrow>
     (\<forall>e \<in> set (wr_deadlines rt). decode_token (de_token e) (wr_capacity rt) \<noteq> None \<and> entry_slot rt e < length (wr_slots rt)) \<and>
     (\<forall>i < length (wr_slots rt). \<forall>h. ws_heap_index (wr_slots rt ! i) = Some h \<longleftrightarrow>
        h < length (wr_deadlines rt) \<and> entry_slot rt (wr_deadlines rt ! h) = i)"

definition slot_core :: "'k wait_slot \<Rightarrow> 'k wait_slot" where
  "slot_core s = s\<lparr>ws_heap_index := None\<rparr>"

text \<open>Heap maintenance touches positions only.\<close>

definition heap_frame :: "'k wait_runtime \<Rightarrow> 'k wait_runtime \<Rightarrow> bool" where
  "heap_frame rt rt' \<longleftrightarrow>
     wr_capacity rt' = wr_capacity rt \<and> wr_observer rt' = wr_observer rt \<and>
     map slot_core (wr_slots rt') = map slot_core (wr_slots rt) \<and> mset (wr_deadlines rt') = mset (wr_deadlines rt)"

lemma heap_frame_refl [simp]: "heap_frame rt rt"
  by (simp add: heap_frame_def)

lemma heap_frame_trans: "heap_frame a b \<Longrightarrow> heap_frame b c \<Longrightarrow> heap_frame a c"
  by (simp add: heap_frame_def)

lemma slot_core_heap_index [simp]: "slot_core (s\<lparr>ws_heap_index := h\<rparr>) = slot_core s"
  by (simp add: slot_core_def)

lemma map_core_update [simp]:
  "i < length slots \<Longrightarrow> map slot_core (slots[i := (slots ! i)\<lparr>ws_heap_index := h\<rparr>]) = map slot_core slots"
  by (metis list_update_id map_update slot_core_heap_index)

lemma heap_frame_length:
  assumes "heap_frame rt rt'"
  shows "length (wr_slots rt') = length (wr_slots rt)" "length (wr_deadlines rt') = length (wr_deadlines rt)"
    "set (wr_deadlines rt') = set (wr_deadlines rt)"
  using assms map_eq_imp_length_eq mset_eq_length mset_eq_setD unfolding heap_frame_def by metis+

lemma set_heap_index_eq:
  assumes "h < length (wr_deadlines rt)" "decode_token (de_token (wr_deadlines rt ! h)) (wr_capacity rt) \<noteq> None"
    "entry_slot rt (wr_deadlines rt ! h) = i" "i < length (wr_slots rt)"
  shows "set_heap_index h rt = Some (rt\<lparr>wr_slots := (wr_slots rt)[i := (wr_slots rt ! i)\<lparr>ws_heap_index := Some h\<rparr>]\<rparr>)"
  using assms by (auto simp: set_heap_index_def vec_get_def)

lemma swap_ok:
  assumes ok: "indexed rt" and l: "l < length (wr_deadlines rt)" and r: "r < length (wr_deadlines rt)" and lr: "l \<noteq> r"
  obtains rt' where "swap_deadlines l r rt = Some rt'" "indexed rt'" "heap_frame rt rt'"
    "wr_deadlines rt' = exchange l r (wr_deadlines rt)"
proof -
  let ?d = "wr_deadlines rt" and ?s = "wr_slots rt"
  define il ir where "il = entry_slot rt (?d ! l)" and "ir = entry_slot rt (?d ! r)"
  have dec: "decode_token (de_token (?d ! l)) (wr_capacity rt) \<noteq> None" "decode_token (de_token (?d ! r)) (wr_capacity rt) \<noteq> None"
    and lt: "il < length ?s" "ir < length ?s" using ok l r by (auto simp: indexed_def il_def ir_def)
  have pos: "ws_heap_index (?s ! i) = Some h \<longleftrightarrow> h < length ?d \<and> entry_slot rt (?d ! h) = i" if "i < length ?s" for i h
    using ok that by (simp add: indexed_def)
  have "ws_heap_index (?s ! il) = Some l" "ws_heap_index (?s ! ir) = Some r"
    using pos [OF lt(1)] pos [OF lt(2)] l r by (simp_all add: il_def ir_def)
  then have ne: "il \<noteq> ir" using lr by auto
  let ?s1 = "?s[ir := (?s ! ir)\<lparr>ws_heap_index := Some l\<rparr>]"
  let ?s2 = "?s1[il := (?s1 ! il)\<lparr>ws_heap_index := Some r\<rparr>]"
  let ?d' = "exchange l r ?d"
  let ?rt = "rt\<lparr>wr_deadlines := ?d', wr_slots := ?s2\<rparr>"
  have "swap_deadlines l r rt = Some ?rt"
    using dec lt l r lr
    by (simp add: swap_deadlines_def Let_def set_heap_index_eq [of _ _ ir] set_heap_index_eq [of _ _ il] il_def [symmetric] ir_def [symmetric])
  moreover have "indexed ?rt"
  proof -
    have "?d' ! h = (if h = l then ?d ! r else if h = r then ?d ! l else ?d ! h)" if "h < length ?d" for h
      using that l r lr by (auto simp: nth_list_update)
    then have "ws_heap_index (?s2 ! i) = Some h \<longleftrightarrow> h < length ?d' \<and> entry_slot rt (?d' ! h) = i" if "i < length ?s" for i h
      using pos [OF that, of h] that lt ne l r lr pos [OF lt(1), of h] pos [OF lt(2), of h] \<open>ws_heap_index (?s ! il) = _\<close> \<open>ws_heap_index (?s ! ir) = _\<close>
      by (cases "h < length ?d") (auto simp: nth_list_update il_def [symmetric] ir_def [symmetric])
    moreover have "set ?d' = set ?d" using l r by (simp add: set_swap)
    ultimately show ?thesis using ok by (simp add: indexed_def)
  qed
  moreover have "heap_frame rt ?rt" using lt l r by (simp add: heap_frame_def mset_swap)
  ultimately show ?thesis using that by simp
qed

lemma sift_up_ok:
  assumes "indexed rt" "i < length (wr_deadlines rt)" "heap_up ordering_key (wr_deadlines rt) i"
  shows "\<exists>rt'. sift_deadline_up i rt = Some rt' \<and> indexed rt' \<and> heap_frame rt rt' \<and> heap ordering_key (wr_deadlines rt')"
  using assms
proof (induction i rt rule: sift_deadline_up.induct)
  case (1 i rt)
  let ?d = "wr_deadlines rt"
  show ?case
  proof (cases "i = 0 \<or> ordering_key (?d ! par i) \<le> ordering_key (?d ! i)")
    case True
    then have "sift_deadline_up i rt = Some rt" using "1.prems"(2) by (subst sift_deadline_up.simps) (auto simp: par_def Let_def)
    then show ?thesis using "1.prems" True heap_up_done by auto
  next
    case False
    have p: "par i < i" using False by (simp add: par_less)
    with "1.prems"(1,2) obtain rt1 where s: "swap_deadlines (par i) i rt = Some rt1" "indexed rt1" "heap_frame rt rt1"
        "wr_deadlines rt1 = exchange (par i) i ?d"
      using swap_ok [of rt "par i" i] by auto
    have "heap_up ordering_key (wr_deadlines rt1) (par i)"
      unfolding s(4) using "1.prems" False by (intro heap_up_step) auto
    then obtain rt' where "sift_deadline_up (par i) rt1 = Some rt'" "indexed rt'" "heap_frame rt1 rt'" "heap ordering_key (wr_deadlines rt')"
      using "1.IH" [of "par i" rt1] s p False "1.prems"(2) by (auto simp: par_def)
    then show ?thesis using s False "1.prems"(2) heap_frame_trans [OF s(3)]
      by (subst sift_deadline_up.simps) (auto simp: par_def Let_def)
  qed
qed

lemma smallest_child_ok:
  assumes "i * 2 + 1 < length ds" "c = smallest_child ds (i * 2 + 1)"
  shows "c < length ds" "0 < c" "par c = i" "0 < j \<Longrightarrow> j < length ds \<Longrightarrow> par j = i \<Longrightarrow> ordering_key (ds ! c) \<le> ordering_key (ds ! j)"
proof -
  show "c < length ds" "0 < c" "par c = i" using assms by (auto simp: smallest_child_def par_def)
  assume j: "0 < j" "j < length ds" "par j = i"
  then have "j = i * 2 + 1 \<or> j = i * 2 + 2" using par_child [of j i] by auto
  then show "ordering_key (ds ! c) \<le> ordering_key (ds ! j)" using j(2) assms(2) by (auto simp: smallest_child_def)
qed

lemma sift_down_ok:
  assumes "indexed rt" "heap_down ordering_key (wr_deadlines rt) i"
  shows "\<exists>rt'. sift_deadline_down i rt = Some rt' \<and> indexed rt' \<and> heap_frame rt rt' \<and> heap ordering_key (wr_deadlines rt')"
  using assms
proof (induction i rt rule: sift_deadline_down.induct)
  case (1 i rt)
  let ?d = "wr_deadlines rt"
  let ?c = "smallest_child ?d (i * 2 + 1)"
  show ?case
  proof (cases "i * 2 + 1 < length ?d \<and> \<not> ordering_key (?d ! i) \<le> ordering_key (?d ! ?c)")
    case False
    then have "sift_deadline_down i rt = Some rt" by (subst sift_deadline_down.simps) (auto simp: Let_def)
    moreover have "ordering_key (?d ! i) \<le> ordering_key (?d ! j)" if j: "0 < j" "j < length ?d" "par j = i" for j
    proof -
      have "i * 2 + 1 < length ?d" using par_child [OF j(1), of i] j by auto
      with smallest_child_ok(4) [OF this refl j] False show ?thesis by auto
    qed
    then have "heap ordering_key ?d" by (rule heap_down_done [OF "1.prems"(2)])
    ultimately show ?thesis using "1.prems"(1) by simp
  next
    case True
    note c = smallest_child_ok [OF conjunct1 [OF True] refl]
    have ne: "i \<noteq> ?c" "i < length ?d" using par_less [OF c(2)] c(1,3) by auto
    with "1.prems"(1) c(1) obtain rt1 where s: "swap_deadlines i ?c rt = Some rt1" "indexed rt1" "heap_frame rt rt1"
        "wr_deadlines rt1 = exchange i ?c ?d"
      using swap_ok [of rt i ?c] by auto
    have "heap_down ordering_key (wr_deadlines rt1) ?c"
      unfolding s(4) using True c by (intro heap_down_step [OF "1.prems"(2)]) auto
    then obtain rt' where "sift_deadline_down ?c rt1 = Some rt'" "indexed rt'" "heap_frame rt1 rt'" "heap ordering_key (wr_deadlines rt')"
      using "1.IH" [OF refl _ refl _ s(1)] s(2) True by auto
    then show ?thesis using s True heap_frame_trans [OF s(3)]
      by (subst sift_deadline_down.simps) (auto simp: Let_def)
  qed
qed

lemma swap_remove_nth:
  assumes "h < length xs" "j < length xs - 1"
  shows "swap_remove h xs ! j = (if j = h then last xs else xs ! j)"
  using assms by (auto simp: swap_remove_def nth_butlast nth_list_update)

lemma indexed_pos:
  assumes "indexed rt" "j < length (wr_slots rt)"
  shows "ws_heap_index (wr_slots rt ! j) = Some x \<longleftrightarrow> x < length (wr_deadlines rt) \<and> entry_slot rt (wr_deadlines rt ! x) = j"
  using assms by (simp add: indexed_def)

lemma indexed_slot:
  assumes "indexed rt" "x < length (wr_deadlines rt)"
  shows "entry_slot rt (wr_deadlines rt ! x) < length (wr_slots rt)"
    "ws_heap_index (wr_slots rt ! entry_slot rt (wr_deadlines rt ! x)) = Some x"
proof -
  show lt: "entry_slot rt (wr_deadlines rt ! x) < length (wr_slots rt)" using assms nth_mem by (fastforce simp: indexed_def)
  show "ws_heap_index (wr_slots rt ! entry_slot rt (wr_deadlines rt ! x)) = Some x"
    using indexed_pos [OF assms(1) lt, of x] assms(2) by simp
qed

lemma indexed_inj:
  assumes "indexed rt" "x < length (wr_deadlines rt)" "y < length (wr_deadlines rt)"
    "entry_slot rt (wr_deadlines rt ! x) = entry_slot rt (wr_deadlines rt ! y)"
  shows "x = y"
  using indexed_slot(2) [OF assms(1,2)] unfolding assms(4) indexed_slot(2) [OF assms(1,3)] by simp

lemma push_ok:
  assumes ok: "indexed rt" "heap ordering_key (wr_deadlines rt)" "length (wr_deadlines rt) < wr_capacity rt"
    and e: "decode_token (de_token e) (wr_capacity rt) = Some (i, g)" "i < length (wr_slots rt)" "ws_heap_index (wr_slots rt ! i) = None"
  obtains rt' where "push_deadline e rt = Some rt'" "indexed rt'" "heap ordering_key (wr_deadlines rt')"
    "wr_capacity rt' = wr_capacity rt" "wr_observer rt' = wr_observer rt" "map slot_core (wr_slots rt') = map slot_core (wr_slots rt)"
    "mset (wr_deadlines rt') = add_mset e (mset (wr_deadlines rt))"
proof -
  let ?d = "wr_deadlines rt" and ?s = "wr_slots rt"
  let ?rt = "rt\<lparr>wr_deadlines := ?d @ [e], wr_slots := ?s[i := (?s ! i)\<lparr>ws_heap_index := Some (length ?d)\<rparr>]\<rparr>"
  have set: "set_heap_index (length ?d) (rt\<lparr>wr_deadlines := ?d @ [e]\<rparr>) = Some ?rt"
    using e by (subst set_heap_index_eq [of _ _ i]) simp_all
  have "indexed ?rt"
  proof -
    have "ws_heap_index (wr_slots ?rt ! j) = Some h \<longleftrightarrow> h < length (?d @ [e]) \<and> entry_slot rt ((?d @ [e]) ! h) = j" if "j < length ?s" for j h
    proof (cases "h < length ?d")
      case True
      then show ?thesis using indexed_pos [OF ok(1) that, of h] indexed_pos [OF ok(1) e(2), of h] e(3) that
        by (cases "j = i") (simp_all add: nth_append)
    next
      case False
      then have "h < length (?d @ [e]) \<longleftrightarrow> h = length ?d" by auto
      then show ?thesis using indexed_pos [OF ok(1) that, of h] e(1) that False
        by (cases "j = i") (auto simp: nth_append)
    qed
    then show ?thesis using ok(1) e(1,2) by (simp add: indexed_def)
  qed
  moreover have "heap_up ordering_key (wr_deadlines ?rt) (length ?d)" using heap_append [OF ok(2)] by simp
  ultimately obtain rt' where r: "sift_deadline_up (length ?d) ?rt = Some rt'" "indexed rt'" "heap_frame ?rt rt'"
      "heap ordering_key (wr_deadlines rt')"
    using sift_up_ok [of ?rt "length ?d"] by auto
  have "push_deadline e rt = Some rt'" using ok(3) set r(1) by (simp add: push_deadline_def Let_def)
  then show ?thesis using that [of rt'] r(2-4) e(2) by (simp add: heap_frame_def)
qed

text \<open>After an entry and its slot's index are gone, only the position of the moved entry is out of date.\<close>

lemma removed_indexed:
  assumes ok: "indexed rt" and h: "h < length (wr_deadlines rt)" and i: "entry_slot rt (wr_deadlines rt ! h) = i"
    and s: "s = (wr_slots rt)[i := (wr_slots rt ! i)\<lparr>ws_heap_index := None\<rparr>]" and d: "d = swap_remove h (wr_deadlines rt)"
  shows "if h < length d
    then \<exists>k. k < length (wr_slots rt) \<and> k \<noteq> i \<and> entry_slot rt (d ! h) = k \<and>
      indexed (rt\<lparr>wr_deadlines := d, wr_slots := s[k := (s ! k)\<lparr>ws_heap_index := Some h\<rparr>]\<rparr>)
    else indexed (rt\<lparr>wr_deadlines := d, wr_slots := s\<rparr>)"
proof -
  let ?d = "wr_deadlines rt" and ?s = "wr_slots rt"
  have pos: "ws_heap_index (?s ! j) = Some x \<longleftrightarrow> x < length ?d \<and> entry_slot rt (?d ! x) = j" if "j < length ?s" for j x
    using indexed_pos [OF ok that] .
  have lt: "i < length ?s" using ok h i by (auto simp: indexed_def)
  have sub: "set d \<subseteq> set ?d" unfolding d by (rule set_swap_remove_subset [OF h])
  have len: "length d = length ?d - 1" by (simp add: d)
  have dec: "\<forall>e \<in> set d. decode_token (de_token e) (wr_capacity rt) \<noteq> None \<and> entry_slot rt e < length ?s"
    using ok sub by (fastforce simp: indexed_def)
  have inj: "x = y" if "x < length ?d" "y < length ?d" "entry_slot rt (?d ! x) = entry_slot rt (?d ! y)" for x y
    by (rule indexed_inj [OF ok that])
  show ?thesis
  proof (cases "h < length d")
    case True
    define n where "n = length ?d - 1"
    have n: "n < length ?d" "h < n" "h \<noteq> n" "?d \<noteq> []" using True len h by (auto simp: n_def)
    define k where "k = entry_slot rt (?d ! n)"
    have dn: "d ! x = (if x = h then ?d ! n else ?d ! x)" if "x < n" for x
      using swap_remove_nth [OF h, of x] that last_conv_nth [OF n(4)] by (simp add: d n_def)
    have k: "k < length ?s" using ok n(1) by (simp add: indexed_def k_def)
    have ki: "k \<noteq> i" using inj [OF n(1) h] n(3) i by (auto simp: k_def)
    have "ws_heap_index (s[k := (s ! k)\<lparr>ws_heap_index := Some h\<rparr>] ! j) = Some x \<longleftrightarrow> x < n \<and> entry_slot rt (d ! x) = j"
      if j: "j < length ?s" for j x
    proof -
      have a: "ws_heap_index (?s ! k) = Some n" "ws_heap_index (?s ! i) = Some h"
        using pos [OF k, of n] pos [OF lt, of h] n(1) h i by (simp_all add: k_def)
      consider "j = k" | "j = i" | "j \<noteq> k" "j \<noteq> i" by blast
      then show ?thesis
      proof cases
        case 1
        have "entry_slot rt (?d ! x) \<noteq> k" if "x < n" using inj [of x n] that n(1) by (auto simp: k_def)
        moreover have "ws_heap_index (s[k := (s ! k)\<lparr>ws_heap_index := Some h\<rparr>] ! j) = Some x \<longleftrightarrow> x = h" using 1 k s by auto
        ultimately show ?thesis using 1 n(2) dn [of x] by (cases "x = h") (simp_all add: k_def)
      next
        case 2
        have "entry_slot rt (?d ! x) \<noteq> i" if "x < n" "x \<noteq> h" using inj [of x h] that n(1) h i by auto
        moreover have "ws_heap_index (s[k := (s ! k)\<lparr>ws_heap_index := Some h\<rparr>] ! j) \<noteq> Some x" using 2 ki lt s by simp
        ultimately show ?thesis using 2 ki dn [of x] by (cases "x = h") (simp_all add: k_def)
      next
        case 3
        have "ws_heap_index (s[k := (s ! k)\<lparr>ws_heap_index := Some h\<rparr>] ! j) = ws_heap_index (?s ! j)" using 3 s by simp
        moreover have "entry_slot rt (?d ! h) \<noteq> j" "entry_slot rt (?d ! n) \<noteq> j" using 3 i by (simp_all add: k_def)
        moreover have "x < length ?d \<longleftrightarrow> x < n \<or> x = n" using n(1) by (auto simp: n_def)
        ultimately show ?thesis using pos [OF j, of x] dn [of x] n(2) by (cases "x = h"; cases "x < n") auto
      qed
    qed
    moreover have "entry_slot rt (d ! h) = k" using dn [OF n(2)] by (simp add: k_def)
    moreover have "length d = n" using len by (simp add: n_def)
    ultimately have "indexed (rt\<lparr>wr_deadlines := d, wr_slots := s[k := (s ! k)\<lparr>ws_heap_index := Some h\<rparr>]\<rparr>)"
      using dec by (simp add: indexed_def s)
    then show ?thesis using True k ki \<open>entry_slot rt (d ! h) = k\<close> by auto
  next
    case False
    then have hn: "Suc h = length ?d" using h len by simp
    have dn: "d ! x = ?d ! x" if "x < h" for x using swap_remove_nth [OF h, of x] that hn by (simp add: d)
    have "ws_heap_index (s ! j) = Some x \<longleftrightarrow> x < h \<and> entry_slot rt (d ! x) = j" if j: "j < length ?s" for j x
    proof (cases "j = i")
      case True
      have "entry_slot rt (?d ! x) \<noteq> i" if "x < h" using inj [of x h] that h i by auto
      then show ?thesis using True lt s dn [of x] by auto
    next
      case False
      have "entry_slot rt (?d ! h) \<noteq> j" using False i by simp
      moreover have "x < length ?d \<longleftrightarrow> x < h \<or> x = h" using hn by auto
      ultimately show ?thesis using False pos [OF j, of x] s dn [of x] by (cases "x = h"; cases "x < h") auto
    qed
    moreover have "length d = h" using len hn by simp
    ultimately show ?thesis using False dec by (simp add: indexed_def s)
  qed
qed


lemma remove_ok:
  assumes ok: "indexed rt" "heap ordering_key (wr_deadlines rt)" and h: "h < length (wr_deadlines rt)"
    and e: "decode_token (de_token (wr_deadlines rt ! h)) (wr_capacity rt) = Some (i, ws_generation (wr_slots rt ! i))"
  obtains rt' where "remove_deadline_at h rt = Some (wr_deadlines rt ! h, rt')" "indexed rt'" "heap ordering_key (wr_deadlines rt')"
    "wr_capacity rt' = wr_capacity rt" "wr_observer rt' = wr_observer rt" "map slot_core (wr_slots rt') = map slot_core (wr_slots rt)"
    "add_mset (wr_deadlines rt ! h) (mset (wr_deadlines rt')) = mset (wr_deadlines rt)"
proof -
  let ?d = "wr_deadlines rt"
  define s where "s = (wr_slots rt)[i := (wr_slots rt ! i)\<lparr>ws_heap_index := None\<rparr>]"
  define d where "d = swap_remove h ?d"
  let ?rt = "rt\<lparr>wr_deadlines := d, wr_slots := s\<rparr>"
  have slot: "entry_slot rt (?d ! h) = i" using e by simp
  have lt: "i < length (wr_slots rt)" using indexed_slot(1) [OF ok(1) h] slot by simp
  have rm: "remove_deadline_at h rt = map_option (Pair (?d ! h)) (restore_heap h ?rt)"
    using h e lt by (simp add: remove_deadline_at_def Let_def vec_get_def s_def d_def)
  have cores: "map slot_core s = map slot_core (wr_slots rt)" unfolding s_def using lt by simp
  have ms: "add_mset (?d ! h) (mset d) = mset ?d" unfolding d_def by (rule mset_swap_remove [OF h])
  have d: "d ! j = ?d ! j" if "j < length d" "j \<noteq> h" for j using swap_remove_nth [OF h, of j] that by (simp add: d_def)
  note ix = removed_indexed [OF ok(1) h slot s_def d_def]
  have "\<exists>rt'. restore_heap h ?rt = Some rt' \<and> indexed rt' \<and> heap ordering_key (wr_deadlines rt') \<and> heap_frame ?rt rt'"
  proof (cases "h < length d")
    case False
    have "ordering_key (d ! par j) \<le> ordering_key (d ! j)" if j: "0 < j" "j < length d" for j
    proof -
      have "ordering_key (?d ! par j) \<le> ordering_key (?d ! j)" using ok(2) j by (simp add: heap_def d_def)
      moreover have "par j < length d" "par j \<noteq> h" "j \<noteq> h" using par_less [OF j(1)] j(2) False by auto
      ultimately show ?thesis using d [of j] d [of "par j"] j(2) by simp
    qed
    then have "heap ordering_key d" by (simp add: heap_def)
    then show ?thesis using False ix by (simp add: restore_heap_def)
  next
    case True
    then obtain k where k: "k < length (wr_slots rt)" "entry_slot rt (d ! h) = k"
        "indexed (rt\<lparr>wr_deadlines := d, wr_slots := s[k := (s ! k)\<lparr>ws_heap_index := Some h\<rparr>]\<rparr>)"
      using ix by auto
    let ?rt1 = "rt\<lparr>wr_deadlines := d, wr_slots := s[k := (s ! k)\<lparr>ws_heap_index := Some h\<rparr>]\<rparr>"
    have "decode_token (de_token (d ! h)) (wr_capacity rt) \<noteq> None" using k(3) True by (simp add: indexed_def)
    then have set: "set_heap_index h ?rt = Some ?rt1"
      using True k(1,2) by (subst set_heap_index_eq [of _ _ k]) (simp_all add: s_def)
    have "length d \<le> length ?d" by (simp add: d_def)
    note rep = heap_replace [OF ok(2) True this d]
    have "\<exists>rt'. restore_heap h ?rt = Some rt' \<and> indexed rt' \<and> heap ordering_key (wr_deadlines rt') \<and> heap_frame ?rt1 rt'"
    proof (cases "0 < h \<and> ordering_key (d ! h) < ordering_key (d ! par h)")
      case up: True
      then show ?thesis using sift_up_ok [of ?rt1 h] k(3) rep(1) True set
        by (auto simp: restore_heap_def par_def)
    next
      case False
      then show ?thesis using sift_down_ok [of ?rt1 h] k(3) rep(2) True set
        by (auto simp: restore_heap_def par_def)
    qed
    moreover have "heap_frame ?rt ?rt1" using k(1) by (simp add: heap_frame_def s_def)
    ultimately show ?thesis using heap_frame_trans by blast
  qed
  then obtain rt' where r: "restore_heap h ?rt = Some rt'" "indexed rt'" "heap ordering_key (wr_deadlines rt')" "heap_frame ?rt rt'" by blast
  then show ?thesis using that [of rt'] rm cores ms by (simp add: heap_frame_def)
qed

section \<open>The token layout\<close>

lemma encode_token_eq:
  assumes "index < u32_max"
  shows "encode_token index generation = generation * 2 ^ 32 + (index + 1)"
proof -
  have low: "take_bit 32 (index + 1) = index + 1" using assms by (intro take_bit_nat_eq_self) (simp add: u32_max_def)
  have "push_bit 32 generation AND take_bit 32 (index + 1) = 0" by (rule bit_eqI) (auto simp: bit_simps)
  then show ?thesis
    unfolding low by (simp add: encode_token_def TOKEN_INDEX_BITS_def push_bit_eq_mult disjunctive_add_eq_or [symmetric])
qed

lemma encode_token_nonzero: "encode_token index generation \<noteq> 0"
  by (simp add: encode_token_def or_eq_0_iff)

lemma decode_token_eq:
  "decode_token raw capacity =
     (let encoded_index = raw mod 2 ^ 32; generation = raw div 2 ^ 32
      in if encoded_index = 0 \<or> generation = 0 \<or> encoded_index - 1 \<ge> capacity then None else Some (encoded_index - 1, generation))"
proof -
  have "raw AND TOKEN_INDEX_MASK = raw mod 2 ^ 32"
    using take_bit_eq_mask [of 32 raw] by (simp add: TOKEN_INDEX_MASK_def mask_eq_exp_minus_1 take_bit_eq_mod)
  then show ?thesis by (simp add: decode_token_def TOKEN_INDEX_BITS_def drop_bit_eq_div Let_def)
qed

lemma split_high_low: "b < m \<Longrightarrow> (a * m + b) div m = a \<and> (a * m + b) mod m = (b::nat)"
  by simp

lemma decode_encode_token:
  assumes "index < capacity" "capacity \<le> u32_max" "0 < generation"
  shows "decode_token (encode_token index generation) capacity = Some (index, generation)"
proof -
  have lt: "index < u32_max" "index + 1 < 2 ^ 32" using assms(1,2) by (simp_all add: u32_max_def)
  show ?thesis
    unfolding decode_token_eq encode_token_eq [OF lt(1)] Let_def
      conjunct1 [OF split_high_low [OF lt(2)]] conjunct2 [OF split_high_low [OF lt(2)]]
    using assms by simp
qed

lemma encode_decode_token:
  assumes "decode_token raw capacity = Some (index, generation)"
  shows "encode_token index generation = raw" "index < capacity" "0 < generation"
proof -
  have d: "index = raw mod 2 ^ 32 - 1" "generation = raw div 2 ^ 32" "raw mod 2 ^ 32 \<noteq> 0" "index < capacity" "0 < generation"
    using assms by (auto simp: decode_token_eq Let_def split: if_splits)
  then show "index < capacity" "0 < generation" by simp_all
  have "raw mod 2 ^ 32 < 2 ^ 32" by simp
  then have "index < u32_max" unfolding d(1) u32_max_def using d(3) by linarith
  then have "encode_token index generation = generation * 2 ^ 32 + raw mod 2 ^ 32" using d(1,3) by (simp add: encode_token_eq)
  then show "encode_token index generation = raw" unfolding d(2) by simp
qed

lemma encode_token_inj:
  assumes "encode_token i g = encode_token j k" "i < capacity" "j < capacity" "capacity \<le> u32_max" "0 < g" "0 < k"
  shows "i = j \<and> g = k"
  using decode_encode_token [OF assms(2,4,5)] unfolding assms(1) decode_encode_token [OF assms(3,4,6)] by simp

section \<open>The invariant and the abstract view\<close>

definition slot_ok :: "'k wait_slot \<Rightarrow> bool" where
  "slot_ok s \<longleftrightarrow> 0 < ws_generation s \<and> ws_generation s \<le> u32_max \<and> (ws_retired s \<longrightarrow> ws_key s = None) \<and>
     (ws_key s = None \<longrightarrow> ws_deadline_ns s = None)"

definition slots_match :: "'k wait_slot \<Rightarrow> observer_slot \<Rightarrow> bool" where
  "slots_match s os \<longleftrightarrow> os_generation os = ws_generation s \<and> os_retired os = ws_retired s \<and>
     (os_active os \<longleftrightarrow> ws_key s \<noteq> None) \<and> (os_queued os \<longrightarrow> os_active os)"

definition token_of :: "'k wait_runtime \<Rightarrow> nat \<Rightarrow> wait_token" where
  "token_of rt i = encode_token i (ws_generation (wr_slots rt ! i))"

abbreviation obs_slots :: "'k wait_runtime \<Rightarrow> observer_slot list" where
  "obs_slots rt \<equiv> ob_slots (wr_observer rt)"

abbreviation ready_queue :: "'k wait_runtime \<Rightarrow> ready_record list" where
  "ready_queue rt \<equiv> ob_ready (wr_observer rt)"

definition active_slots :: "'k wait_runtime \<Rightarrow> nat set" where
  "active_slots rt = {i. i < length (wr_slots rt) \<and> ws_key (wr_slots rt ! i) \<noteq> None}"

definition wr_ok :: "'k wait_runtime \<Rightarrow> bool" where
  "wr_ok rt \<longleftrightarrow>
     wr_capacity rt \<le> u32_max \<and> length (wr_slots rt) = wr_capacity rt \<and> length (obs_slots rt) = wr_capacity rt \<and>
     (\<forall>i < wr_capacity rt. slot_ok (wr_slots rt ! i) \<and> slots_match (wr_slots rt ! i) (obs_slots rt ! i)) \<and>
     indexed rt \<and> heap ordering_key (wr_deadlines rt) \<and>
     (\<forall>e. e \<in> set (wr_deadlines rt) \<longleftrightarrow>
        (\<exists>i < wr_capacity rt. ws_deadline_ns (wr_slots rt ! i) = Some (de_deadline_ns e) \<and> de_token e = token_of rt i)) \<and>
     distinct (map rr_token (ready_queue rt)) \<and> (\<forall>r \<in> set (ready_queue rt). rr_cause r \<noteq> CauseDeadline) \<and>
     (\<forall>t. t \<in> rr_token ` set (ready_queue rt) \<longleftrightarrow> (\<exists>i < wr_capacity rt. os_queued (obs_slots rt ! i) \<and> t = token_of rt i)) \<and>
     wd_active (ob_diagnostics (wr_observer rt)) = card (active_slots rt)"

text \<open>The waits in progress, by token: the scheduler key, the kind and the deadline.\<close>

definition waiting :: "'k wait_runtime \<Rightarrow> wait_token \<rightharpoonup> 'k \<times> wait_kind \<times> nat option" where
  "waiting rt t =
     (case decode_token t (wr_capacity rt) of
        None \<Rightarrow> None
      | Some (i, g) \<Rightarrow>
          let s = wr_slots rt ! i
          in if ws_generation s = g then map_option (\<lambda>k. (k, ws_kind s, ws_deadline_ns s)) (ws_key s) else None)"

lemma wr_okD:
  assumes "wr_ok rt"
  shows "wr_capacity rt \<le> u32_max" "length (wr_slots rt) = wr_capacity rt" "length (obs_slots rt) = wr_capacity rt"
    "i < wr_capacity rt \<Longrightarrow> slot_ok (wr_slots rt ! i)" "i < wr_capacity rt \<Longrightarrow> slots_match (wr_slots rt ! i) (obs_slots rt ! i)"
    "indexed rt" "heap ordering_key (wr_deadlines rt)"
    "e \<in> set (wr_deadlines rt) \<longleftrightarrow>
        (\<exists>i < wr_capacity rt. ws_deadline_ns (wr_slots rt ! i) = Some (de_deadline_ns e) \<and> de_token e = token_of rt i)"
    "distinct (map rr_token (ready_queue rt))" "r \<in> set (ready_queue rt) \<Longrightarrow> rr_cause r \<noteq> CauseDeadline"
    "t \<in> rr_token ` set (ready_queue rt) \<longleftrightarrow> (\<exists>i < wr_capacity rt. os_queued (obs_slots rt ! i) \<and> t = token_of rt i)"
    "wd_active (ob_diagnostics (wr_observer rt)) = card (active_slots rt)"
  using assms unfolding wr_ok_def by blast+

lemma decode_token_of:
  assumes "wr_ok rt" "i < wr_capacity rt"
  shows "decode_token (token_of rt i) (wr_capacity rt) = Some (i, ws_generation (wr_slots rt ! i))"
  using decode_encode_token [OF assms(2) wr_okD(1) [OF assms(1)]] wr_okD(4) [OF assms] by (simp add: token_of_def slot_ok_def)

lemma token_of_inj:
  assumes "wr_ok rt" "i < wr_capacity rt" "j < wr_capacity rt" "token_of rt i = token_of rt j"
  shows "i = j"
proof -
  have "Some (i, ws_generation (wr_slots rt ! i)) = Some (j, ws_generation (wr_slots rt ! j))"
    by (simp only: decode_token_of [OF assms(1,2), symmetric] decode_token_of [OF assms(1,3), symmetric] assms(4))
  then show ?thesis by (simp only: option.inject prod.inject)
qed

lemma waiting_Some:
  assumes "wr_ok rt" "waiting rt t = Some (k, kind, d)"
  obtains i where "i < wr_capacity rt" "t = token_of rt i" "ws_key (wr_slots rt ! i) = Some k" "ws_kind (wr_slots rt ! i) = kind"
    "ws_deadline_ns (wr_slots rt ! i) = d"
proof -
  obtain i g where d: "decode_token t (wr_capacity rt) = Some (i, g)" "ws_generation (wr_slots rt ! i) = g"
      "ws_key (wr_slots rt ! i) = Some k" "ws_kind (wr_slots rt ! i) = kind" "ws_deadline_ns (wr_slots rt ! i) = d"
    using assms(2) by (auto simp: waiting_def Let_def split: option.splits if_splits)
  show ?thesis by (rule that [of i]) (use d encode_decode_token [OF d(1)] in \<open>auto simp: token_of_def\<close>)
qed

lemma waiting_token_of:
  assumes "wr_ok rt" "i < wr_capacity rt"
  shows "waiting rt (token_of rt i) = map_option (\<lambda>k. (k, ws_kind (wr_slots rt ! i), ws_deadline_ns (wr_slots rt ! i))) (ws_key (wr_slots rt ! i))"
  using decode_token_of [OF assms] by (simp add: waiting_def Let_def)

section \<open>Ending a wait\<close>

lemma indexed_observer [simp]: "indexed (rt\<lparr>wr_observer := st\<rparr>) = indexed rt"
  by (simp add: indexed_def)

lemma token_of_observer [simp]: "token_of (rt\<lparr>wr_observer := st\<rparr>) i = token_of rt i"
  by (simp add: token_of_def)

lemma entry_cases:
  assumes "wr_ok rt" "e \<in> set (wr_deadlines rt)"
  shows "entry_slot rt e < wr_capacity rt" "de_token e = token_of rt (entry_slot rt e)"
    "ws_deadline_ns (wr_slots rt ! entry_slot rt e) = Some (de_deadline_ns e)"
    "decode_token (de_token e) (wr_capacity rt) = Some (entry_slot rt e, ws_generation (wr_slots rt ! entry_slot rt e))"
proof -
  obtain i where i: "i < wr_capacity rt" "ws_deadline_ns (wr_slots rt ! i) = Some (de_deadline_ns e)" "de_token e = token_of rt i"
    using wr_okD(8) [OF assms(1)] assms(2) by blast
  have s: "entry_slot rt e = i" unfolding i(3) decode_token_of [OF assms(1) i(1)] by simp
  show "entry_slot rt e < wr_capacity rt" "de_token e = token_of rt (entry_slot rt e)"
    "ws_deadline_ns (wr_slots rt ! entry_slot rt e) = Some (de_deadline_ns e)"
    unfolding s using i by simp_all
  show "decode_token (de_token e) (wr_capacity rt) = Some (entry_slot rt e, ws_generation (wr_slots rt ! entry_slot rt e))"
    unfolding i(3) decode_token_of [OF assms(1) i(1)] by simp
qed

lemma entry_token_slot:
  assumes "wr_ok rt" "e \<in> set (wr_deadlines rt)" "i < wr_capacity rt"
  shows "de_token e = token_of rt i \<longleftrightarrow> entry_slot rt e = i"
  using entry_cases(1,2) [OF assms(1,2)] token_of_inj [OF assms(1) entry_cases(1) [OF assms(1,2)] assms(3)] by metis

lemma deadlines_distinct:
  assumes "indexed rt"
  shows "distinct (wr_deadlines rt)"
  unfolding distinct_conv_nth using indexed_inj [OF assms] by metis

lemma remove_slot_deadline_ok:
  assumes ok: "wr_ok rt" and i: "i < wr_capacity rt"
  obtains rt1 where "remove_slot_deadline i (rt\<lparr>wr_observer := st\<rparr>) = Some rt1" "indexed rt1" "heap ordering_key (wr_deadlines rt1)"
    "wr_capacity rt1 = wr_capacity rt" "wr_observer rt1 = st" "map slot_core (wr_slots rt1) = map slot_core (wr_slots rt)"
    "\<And>e. e \<in> set (wr_deadlines rt1) \<longleftrightarrow> e \<in> set (wr_deadlines rt) \<and> entry_slot rt e \<noteq> i"
proof (cases "ws_heap_index (wr_slots rt ! i)")
  case None
  have "entry_slot rt e \<noteq> i" if e: "e \<in> set (wr_deadlines rt)" for e
  proof -
    obtain h where "h < length (wr_deadlines rt)" "e = wr_deadlines rt ! h" using e by (auto simp: in_set_conv_nth)
    then show ?thesis using indexed_slot(2) [OF wr_okD(6) [OF ok], of h] None by auto
  qed
  then show ?thesis using that [of "rt\<lparr>wr_observer := st\<rparr>"] wr_okD(2,6,7) [OF ok] None i
    by (auto simp: remove_slot_deadline_def vec_get_def)
next
  case (Some h)
  let ?rt = "rt\<lparr>wr_observer := st\<rparr>"
  have h: "h < length (wr_deadlines rt)" "entry_slot rt (wr_deadlines rt ! h) = i"
    using indexed_pos [OF wr_okD(6) [OF ok], of i h] i wr_okD(2) [OF ok] Some by auto
  have dec: "decode_token (de_token (wr_deadlines ?rt ! h)) (wr_capacity ?rt) = Some (i, ws_generation (wr_slots ?rt ! i))"
    using entry_cases(4) [OF ok nth_mem [OF h(1)]] h(2) by simp
  obtain rt1 where r: "remove_deadline_at h ?rt = Some (wr_deadlines ?rt ! h, rt1)" "indexed rt1" "heap ordering_key (wr_deadlines rt1)"
    "wr_capacity rt1 = wr_capacity ?rt" "wr_observer rt1 = st" "map slot_core (wr_slots rt1) = map slot_core (wr_slots ?rt)"
    "add_mset (wr_deadlines ?rt ! h) (mset (wr_deadlines rt1)) = mset (wr_deadlines ?rt)"
    using remove_ok [OF _ _ _ dec] wr_okD(6,7) [OF ok] h(1) by auto
  have "e \<in> set (wr_deadlines rt1) \<longleftrightarrow> e \<in> set (wr_deadlines rt) \<and> entry_slot rt e \<noteq> i" for e
  proof -
    let ?e = "wr_deadlines rt ! h"
    have d: "distinct (wr_deadlines rt)" using deadlines_distinct wr_okD(6) [OF ok] by blast
    have ms: "mset (wr_deadlines rt) = mset (?e # wr_deadlines rt1)" using r(7) by simp
    then have "distinct (?e # wr_deadlines rt1)" using d by (metis mset_eq_imp_distinct_iff)
    then have new: "?e \<notin> set (wr_deadlines rt1)" by simp
    have old: "set (wr_deadlines rt) = insert ?e (set (wr_deadlines rt1))" using mset_eq_setD [OF ms] by simp
    have same: "e = ?e" if e: "e \<in> set (wr_deadlines rt)" "entry_slot rt e = i"
    proof -
      obtain x where x: "x < length (wr_deadlines rt)" "e = wr_deadlines rt ! x" using e(1) by (auto simp: in_set_conv_nth)
      have "x = h" by (rule indexed_inj [OF wr_okD(6) [OF ok] x(1) h(1)]) (use e(2) x(2) h(2) in simp)
      then show ?thesis using x(2) by simp
    qed
    show ?thesis
    proof (cases "e = ?e")
      case True
      show ?thesis unfolding True using new h(2) by blast
    next
      case False
      then show ?thesis using same old by blast
    qed
  qed
  then show ?thesis using that [of rt1] r i wr_okD(2) [OF ok] Some by (simp add: remove_slot_deadline_def vec_get_def)
qed

lemma core_fields:
  assumes "slot_core a = slot_core b"
  shows "ws_generation a = ws_generation b" "ws_retired a = ws_retired b" "ws_key a = ws_key b" "ws_kind a = ws_kind b"
    "ws_deadline_ns a = ws_deadline_ns b" "slot_ok a = slot_ok b" "slots_match a os = slots_match b os"
  using assms by (cases a; cases b; simp add: slot_core_def slot_ok_def slots_match_def)+

lemma cores_nth:
  assumes "map slot_core xs = map slot_core ys" "j < length ys"
  shows "slot_core (xs ! j) = slot_core (ys ! j)"
  using assms map_eq_imp_length_eq [OF assms(1)] by (metis nth_map)

text \<open>\<open>st\<close> is the observer after slot \<open>i\<close> has been deactivated and its ready record taken out.\<close>

definition slot_ended :: "'k wait_runtime \<Rightarrow> nat \<Rightarrow> nat \<Rightarrow> bool \<Rightarrow> observer_state \<Rightarrow> bool" where
  "slot_ended rt i ng ret st \<longleftrightarrow>
     ob_slots st = (obs_slots rt)[i := (obs_slots rt ! i)\<lparr>os_active := False, os_queued := False, os_generation := ng, os_retired := ret\<rparr>] \<and>
     ob_ready st = filter (\<lambda>r. rr_token r \<noteq> token_of rt i) (ready_queue rt) \<and>
     wd_active (ob_diagnostics st) = wd_active (ob_diagnostics (wr_observer rt)) - 1"

lemma ended_slots:
  assumes ok: "wr_ok rt" and i: "i < wr_capacity rt" and adv: "advanced_generation (ws_generation (wr_slots rt ! i)) = (ng, ret)"
    and st: "slot_ended rt i ng ret st" and cores: "map slot_core s1 = map slot_core (wr_slots rt)"
    and s2: "s2 = s1[i := (s1 ! i)\<lparr>ws_key := None, ws_deadline_ns := None, ws_heap_index := None, ws_generation := ng, ws_retired := ret\<rparr>]"
    and j: "j < wr_capacity rt"
  shows "slot_ok (s2 ! j) \<and> slots_match (s2 ! j) (ob_slots st ! j)" "j \<noteq> i \<Longrightarrow> slot_core (s2 ! j) = slot_core (wr_slots rt ! j)"
    "ws_key (s2 ! i) = None" "ws_deadline_ns (s2 ! i) = None" "length s1 = wr_capacity rt"
proof -
  show len: "length s1 = wr_capacity rt" using map_eq_imp_length_eq [OF cores] wr_okD(2) [OF ok] by simp
  show key: "ws_key (s2 ! i) = None" "ws_deadline_ns (s2 ! i) = None" using s2 i len by simp_all
  show core: "slot_core (s2 ! j) = slot_core (wr_slots rt ! j)" if "j \<noteq> i" using that cores_nth [OF cores, of j] j wr_okD(2) [OF ok] s2 by simp
  show "slot_ok (s2 ! j) \<and> slots_match (s2 ! j) (ob_slots st ! j)"
  proof (cases "j = i")
    case False
    then show ?thesis using core_fields(6,7) [OF core] wr_okD(4,5) [OF ok j] st by (simp add: slot_ended_def)
  next
    case True
    have "slot_ok (wr_slots rt ! i)" by (rule wr_okD(4) [OF ok i])
    then have "0 < ng \<and> ng \<le> u32_max" using adv by (auto simp: advanced_generation_def slot_ok_def split: if_splits)
    then show ?thesis using True s2 i len st wr_okD(3) [OF ok] by (simp add: slot_ok_def slots_match_def slot_ended_def)
  qed
qed

lemma token_of_eq_iff:
  assumes "wr_ok rt" "i < wr_capacity rt" "j < wr_capacity rt"
  shows "token_of rt j = token_of rt i \<longleftrightarrow> j = i"
  using token_of_inj [OF assms(1,3,2)] by blast

lemma ended_ready:
  assumes ok: "wr_ok rt" and i: "i < wr_capacity rt" and st: "slot_ended rt i ng ret st"
    and tok: "\<And>j. j < wr_capacity rt \<Longrightarrow> j \<noteq> i \<Longrightarrow> token_of rt2 j = token_of rt j"
  shows "t \<in> rr_token ` set (ob_ready st) \<longleftrightarrow> (\<exists>j < wr_capacity rt. os_queued (ob_slots st ! j) \<and> t = token_of rt2 j)"
proof -
  have "t \<in> rr_token ` set (ob_ready st) \<longleftrightarrow> t \<in> rr_token ` set (ready_queue rt) \<and> t \<noteq> token_of rt i"
    using st by (auto simp: slot_ended_def)
  also have "\<dots> \<longleftrightarrow> (\<exists>j < wr_capacity rt. os_queued (obs_slots rt ! j) \<and> t = token_of rt j \<and> j \<noteq> i)"
    unfolding wr_okD(11) [OF ok, of t] using token_of_eq_iff [OF ok i] by auto
  also have "\<dots> \<longleftrightarrow> (\<exists>j < wr_capacity rt. os_queued (ob_slots st ! j) \<and> t = token_of rt2 j)"
  proof (rule ex_cong1)
    fix j
    show "(j < wr_capacity rt \<and> os_queued (obs_slots rt ! j) \<and> t = token_of rt j \<and> j \<noteq> i) \<longleftrightarrow>
        (j < wr_capacity rt \<and> os_queued (ob_slots st ! j) \<and> t = token_of rt2 j)"
      using tok [of j] st i wr_okD(3) [OF ok] by (cases "j = i") (auto simp: slot_ended_def)
  qed
  finally show ?thesis .
qed

lemma ended_waiting:
  assumes ok: "wr_ok rt" and i: "i < wr_capacity rt" and cap: "wr_capacity rt2 = wr_capacity rt"
    and core: "\<And>j. j < wr_capacity rt \<Longrightarrow> j \<noteq> i \<Longrightarrow> slot_core (wr_slots rt2 ! j) = slot_core (wr_slots rt ! j)"
    and none: "ws_key (wr_slots rt2 ! i) = None"
  shows "waiting rt2 = (waiting rt)(token_of rt i := None)"
proof
  fix t
  show "waiting rt2 t = ((waiting rt)(token_of rt i := None)) t"
  proof (cases "decode_token t (wr_capacity rt)")
    case None
    then show ?thesis by (simp add: waiting_def cap Let_def)
  next
    case (Some p)
    obtain j g where d: "decode_token t (wr_capacity rt) = Some (j, g)" using Some by (cases p) simp
    note e = encode_decode_token [OF d]
    show ?thesis
    proof (cases "j = i")
      case True
      have "t = token_of rt i" if "ws_generation (wr_slots rt ! i) = g" using e(1) True that by (simp add: token_of_def)
      then show ?thesis using d True none by (auto simp: waiting_def cap Let_def)
    next
      case False
      have "t \<noteq> token_of rt i" using d decode_token_of [OF ok i] False by auto
      then show ?thesis using d core_fields(1-5) [OF core [OF e(2) False]] by (simp add: waiting_def cap Let_def)
    qed
  qed
qed

text \<open>A token whose wait is over: its slot has moved on to a later generation, or was retired with it.\<close>

definition spent :: "'k wait_runtime \<Rightarrow> wait_token \<Rightarrow> bool" where
  "spent rt t \<longleftrightarrow> (\<exists>i g. decode_token t (wr_capacity rt) = Some (i, g) \<and>
     (g < ws_generation (wr_slots rt ! i) \<or> g = ws_generation (wr_slots rt ! i) \<and> ws_retired (wr_slots rt ! i)))"

lemma spent_waiting: "wr_ok rt \<Longrightarrow> spent rt t \<Longrightarrow> waiting rt t = None"
  using wr_okD(4) encode_decode_token(2) by (fastforce simp: spent_def waiting_def Let_def slot_ok_def)

lemma ended_spent:
  assumes ok: "wr_ok rt" and i: "i < wr_capacity rt" and key: "ws_key (wr_slots rt ! i) \<noteq> None"
    and adv: "advanced_generation (ws_generation (wr_slots rt ! i)) = (ng, ret)" and cap: "wr_capacity rt2 = wr_capacity rt"
    and core: "\<And>j. j < wr_capacity rt \<Longrightarrow> j \<noteq> i \<Longrightarrow> slot_core (wr_slots rt2 ! j) = slot_core (wr_slots rt ! j)"
    and new: "ws_generation (wr_slots rt2 ! i) = ng" "ws_retired (wr_slots rt2 ! i) = ret"
  shows "spent rt2 (token_of rt i)" "spent rt t \<Longrightarrow> spent rt2 t"
proof -
  show "spent rt2 (token_of rt i)"
    using decode_token_of [OF ok i] adv new by (auto simp: spent_def cap advanced_generation_def split: if_splits)
  assume "spent rt t"
  then obtain j g where d: "decode_token t (wr_capacity rt) = Some (j, g)"
      "g < ws_generation (wr_slots rt ! j) \<or> g = ws_generation (wr_slots rt ! j) \<and> ws_retired (wr_slots rt ! j)"
    by (auto simp: spent_def)
  show "spent rt2 t"
  proof (cases "j = i")
    case True
    have "\<not> ws_retired (wr_slots rt ! i)" using wr_okD(4) [OF ok i] key by (auto simp: slot_ok_def)
    then have "g < ws_generation (wr_slots rt ! i)" using d(2) True by simp
    then show ?thesis using d(1) True adv new by (auto simp: spent_def cap advanced_generation_def split: if_splits)
  next
    case False
    note c = core [OF encode_decode_token(2) [OF d(1)] False]
    show ?thesis unfolding spent_def using d core_fields(1,2) [OF c] by (simp add: cap)
  qed
qed

lemma finish_ok:
  assumes ok: "wr_ok rt" and i: "i < wr_capacity rt" and key: "ws_key (wr_slots rt ! i) \<noteq> None"
    and adv: "advanced_generation (ws_generation (wr_slots rt ! i)) = (ng, ret)" and st: "slot_ended rt i ng ret st"
  obtains rt1 rt2 where "remove_slot_deadline i (rt\<lparr>wr_observer := st\<rparr>) = Some rt1" "release_slot i ng ret rt1 = Some rt2"
    "wr_ok rt2" "waiting rt2 = (waiting rt)(token_of rt i := None)" "wr_observer rt2 = st"
    "spent rt2 (token_of rt i)" "\<And>t. spent rt t \<Longrightarrow> spent rt2 t"
proof -
  obtain rt1 where r: "remove_slot_deadline i (rt\<lparr>wr_observer := st\<rparr>) = Some rt1" "indexed rt1" "heap ordering_key (wr_deadlines rt1)"
    "wr_capacity rt1 = wr_capacity rt" "wr_observer rt1 = st" "map slot_core (wr_slots rt1) = map slot_core (wr_slots rt)"
    "\<And>e. e \<in> set (wr_deadlines rt1) \<longleftrightarrow> e \<in> set (wr_deadlines rt) \<and> entry_slot rt e \<noteq> i"
    using remove_slot_deadline_ok [OF ok i, where st = st] by blast
  define s2 where "s2 = (wr_slots rt1)[i := (wr_slots rt1 ! i)\<lparr>ws_key := None, ws_deadline_ns := None, ws_heap_index := None,
    ws_generation := ng, ws_retired := ret\<rparr>]"
  define rt2 where "rt2 = rt1\<lparr>wr_slots := s2\<rparr>"
  note es = ended_slots [OF ok i adv st r(6) s2_def]
  have rel: "release_slot i ng ret rt1 = Some rt2" using es(5) [OF i] i by (simp add: release_slot_def vec_get_def rt2_def s2_def)
  have tok: "token_of rt2 j = token_of rt j" if "j < wr_capacity rt" "j \<noteq> i" for j
    using core_fields(1) [OF es(2) [OF that]] by (simp add: token_of_def rt2_def)
  have hi: "ws_heap_index (wr_slots rt1 ! i) = None"
  proof (rule ccontr)
    assume "ws_heap_index (wr_slots rt1 ! i) \<noteq> None"
    then obtain h where "h < length (wr_deadlines rt1)" "entry_slot rt1 (wr_deadlines rt1 ! h) = i"
      using indexed_pos [OF r(2), of i] i es(5) [OF i] by auto
    then show False using r(4) r(7) [of "wr_deadlines rt1 ! h"] by auto
  qed
  have "ws_heap_index (s2 ! j) = ws_heap_index (wr_slots rt1 ! j)" for j
    using hi es(5) [OF i] i by (cases "j = i") (simp_all add: s2_def)
  then have ix: "indexed rt2" using r(2) by (simp add: indexed_def rt2_def s2_def)
  have dl: "e \<in> set (wr_deadlines rt2) \<longleftrightarrow>
      (\<exists>j < wr_capacity rt2. ws_deadline_ns (wr_slots rt2 ! j) = Some (de_deadline_ns e) \<and> de_token e = token_of rt2 j)" for e
  proof -
    have "e \<in> set (wr_deadlines rt2) \<longleftrightarrow> (\<exists>j < wr_capacity rt. ws_deadline_ns (wr_slots rt ! j) = Some (de_deadline_ns e) \<and> de_token e = token_of rt j \<and> j \<noteq> i)"
      using r(7) [of e] wr_okD(8) [OF ok, of e] entry_token_slot [OF ok] token_of_inj [OF ok] i by (auto simp: rt2_def)
    also have "\<dots> \<longleftrightarrow> (\<exists>j < wr_capacity rt2. ws_deadline_ns (wr_slots rt2 ! j) = Some (de_deadline_ns e) \<and> de_token e = token_of rt2 j)"
    proof (rule ex_cong1)
      fix j
      show "(j < wr_capacity rt \<and> ws_deadline_ns (wr_slots rt ! j) = Some (de_deadline_ns e) \<and> de_token e = token_of rt j \<and> j \<noteq> i) \<longleftrightarrow>
          (j < wr_capacity rt2 \<and> ws_deadline_ns (wr_slots rt2 ! j) = Some (de_deadline_ns e) \<and> de_token e = token_of rt2 j)"
        using tok [of j] core_fields(5) [OF es(2), of j] es(4) [OF i] r(4) by (cases "j = i") (auto simp: rt2_def)
    qed
    finally show ?thesis .
  qed
  have len: "length s2 = wr_capacity rt" using es(5) [OF i] by (simp add: s2_def)
  have "ws_key (s2 ! x) \<noteq> None \<longleftrightarrow> x \<noteq> i \<and> ws_key (wr_slots rt ! x) \<noteq> None" if "x < wr_capacity rt" for x
    using core_fields(3) [OF es(2) [OF that]] es(3) [OF i] by (cases "x = i") simp_all
  then have "active_slots rt2 = active_slots rt - {i}"
    using len wr_okD(2) [OF ok] by (auto simp: active_slots_def rt2_def)
  moreover have "i \<in> active_slots rt" using key i wr_okD(2) [OF ok] by (simp add: active_slots_def)
  ultimately have act: "wd_active (ob_diagnostics (wr_observer rt2)) = card (active_slots rt2)"
    using st wr_okD(12) [OF ok] r(5) by (simp add: slot_ended_def rt2_def)
  have "wr_ok rt2"
    unfolding wr_ok_def
    using wr_okD(1,3) [OF ok] len ix r(3,4,5) dl act es(1) ended_ready [OF ok i st tok] wr_okD(9,10) [OF ok] st
    by (simp add: rt2_def slot_ended_def distinct_map_filter)
  moreover have "waiting rt2 = (waiting rt)(token_of rt i := None)"
    using ended_waiting [OF ok i, of rt2] es(2,3) r(4) i by (simp add: rt2_def)
  moreover have "ws_generation (wr_slots rt2 ! i) = ng" "ws_retired (wr_slots rt2 ! i) = ret"
    using i es(5) [OF i] by (simp_all add: rt2_def s2_def)
  then have "spent rt2 (token_of rt i)" "spent rt t \<Longrightarrow> spent rt2 t" for t
    using ended_spent [OF ok i key adv, of rt2] es(2) r(4) by (simp_all add: rt2_def)
  ultimately show ?thesis using that [of rt1 rt2] r(1,5) rel by (simp add: rt2_def)
qed

section \<open>The abstract wait service\<close>

text \<open>What the runtime promises: the waits in progress by token, and the queue of tokens that have been notified.\<close>

type_synonym 'k wait_spec = "(wait_token \<rightharpoonup> 'k \<times> wait_kind \<times> nat option) \<times> ready_record list"

definition wr_abs :: "'k wait_runtime \<Rightarrow> 'k wait_spec" where
  "wr_abs rt = (waiting rt, ready_queue rt)"

definition spec_notify :: "wait_token \<Rightarrow> wake_cause \<Rightarrow> 'k wait_spec \<Rightarrow> bool \<times> 'k wait_spec" where
  "spec_notify t cause s =
     (case s of (w, q) \<Rightarrow>
        (w t \<noteq> None, (w, if w t \<noteq> None \<and> t \<notin> rr_token ` set q then q @ [\<lparr>rr_token = t, rr_cause = cause\<rparr>] else q)))"

definition spec_cancel :: "wait_token \<Rightarrow> 'k wait_spec \<Rightarrow> bool \<times> 'k wait_spec" where
  "spec_cancel t s = (case s of (w, q) \<Rightarrow> (w t \<noteq> None, (w(t := None), filter (\<lambda>r. rr_token r \<noteq> t) q)))"

definition spec_wake :: "wait_token \<Rightarrow> wake_cause \<Rightarrow> (wait_token \<rightharpoonup> 'k \<times> wait_kind \<times> nat option) \<Rightarrow> 'k wait_wake option" where
  "spec_wake t cause w =
     map_option (\<lambda>(k, kind, d). \<lparr>wk_token = t, wk_key = k, wk_kind = kind, wk_cause = cause, wk_deadline_ns = d\<rparr>) (w t)"

definition deadlines_of :: "(wait_token \<rightharpoonup> 'k \<times> wait_kind \<times> nat option) \<Rightarrow> (nat \<times> wait_token) set" where
  "deadlines_of w = {(d, t). \<exists>k kind. w t = Some (k, kind, Some d)}"

definition spec_next_wake :: "nat \<Rightarrow> 'k wait_spec \<Rightarrow> 'k wait_wake option \<times> 'k wait_spec" where
  "spec_next_wake now s =
     (case s of
        (w, r # q) \<Rightarrow> (spec_wake (rr_token r) (rr_cause r) w, (w(rr_token r := None), q))
      | (w, []) \<Rightarrow>
          if \<exists>(d, t) \<in> deadlines_of w. d \<le> now
          then let (d, t) = Min (deadlines_of w) in (spec_wake t CauseDeadline w, (w(t := None), []))
          else (None, (w, [])))"

lemma ready_waiting:
  assumes "wr_ok rt" "t \<in> rr_token ` set (ready_queue rt)"
  obtains i where "i < wr_capacity rt" "t = token_of rt i" "os_queued (obs_slots rt ! i)" "os_active (obs_slots rt ! i)"
    "ws_key (wr_slots rt ! i) \<noteq> None" "waiting rt t \<noteq> None"
proof -
  obtain i where i: "i < wr_capacity rt" "os_queued (obs_slots rt ! i)" "t = token_of rt i"
    using wr_okD(11) [OF assms(1)] assms(2) by blast
  have "os_active (obs_slots rt ! i)" "ws_key (wr_slots rt ! i) \<noteq> None"
    using wr_okD(5) [OF assms(1) i(1)] i(2) unfolding slots_match_def by blast+
  with i that show ?thesis using waiting_token_of [OF assms(1) i(1)] by auto
qed

lemma queued_ready:
  assumes "wr_ok rt" "i < wr_capacity rt"
  shows "os_queued (obs_slots rt ! i) \<longleftrightarrow> token_of rt i \<in> rr_token ` set (ready_queue rt)"
  unfolding wr_okD(11) [OF assms(1), of "token_of rt i"] using token_of_eq_iff [OF assms(1) _ assms(2)] assms(2) by metis

lemma active_pos:
  assumes "wr_ok rt" "i < wr_capacity rt" "ws_key (wr_slots rt ! i) \<noteq> None"
  shows "0 < wd_active (ob_diagnostics (wr_observer rt))"
proof -
  have "i \<in> active_slots rt" "finite (active_slots rt)" using assms(2,3) wr_okD(2) [OF assms(1)] by (simp_all add: active_slots_def)
  then show ?thesis unfolding wr_okD(12) [OF assms(1)] by (simp add: card_gt_0_iff) blast
qed

lemma remove_position:
  assumes "distinct (map f xs)"
  shows "(case position (\<lambda>x. f x = k) xs of None \<Rightarrow> xs | Some p \<Rightarrow> take p xs @ drop (Suc p) xs) = filter (\<lambda>x. f x \<noteq> k) xs"
  using assms
proof (induction xs)
  case (Cons x xs)
  have "filter (\<lambda>x. f x \<noteq> k) xs = xs" if "f x = k" using Cons.prems that by (force simp: filter_id_conv image_iff)
  then show ?case using Cons by (auto split: option.splits)
qed simp

text \<open>Deactivating slot \<open>i\<close> after its ready record has been taken out of the queue.\<close>

lemma deactivate_ended:
  assumes ok: "wr_ok rt" and i: "i < wr_capacity rt" and key: "ws_key (wr_slots rt ! i) \<noteq> None"
    and q: "ob_ready st = filter (\<lambda>r. rr_token r \<noteq> token_of rt i) (ready_queue rt)"
    and s: "ob_slots st = obs_slots rt \<or> ob_slots st = (obs_slots rt)[i := (obs_slots rt ! i)\<lparr>os_queued := False\<rparr>]"
    and d: "wd_active (ob_diagnostics st) = wd_active (ob_diagnostics (wr_observer rt))"
  shows "\<exists>st'. deactivate i ng ret st = Some st' \<and> slot_ended rt i ng ret st'"
proof -
  have "os_active (obs_slots rt ! i)" using wr_okD(5) [OF ok i] key by (simp add: slots_match_def)
  then show ?thesis using s q d i wr_okD(3) [OF ok] active_pos [OF ok i key]
    by (auto simp: deactivate_def vec_get_def slot_ended_def)
qed

lemma slot_ended_diag [simp]:
  "slot_ended rt i ng ret (st\<lparr>ob_diagnostics := (ob_diagnostics st)\<lparr>wd_cancellations := n\<rparr>\<rparr>) = slot_ended rt i ng ret st"
  "slot_ended rt i ng ret (st\<lparr>ob_diagnostics := (ob_diagnostics st)\<lparr>wd_deadline_wakes := n\<rparr>\<rparr>) = slot_ended rt i ng ret st"
  by (simp_all add: slot_ended_def)

lemma filter_absent: "t \<notin> rr_token ` set q \<Longrightarrow> filter (\<lambda>r. rr_token r \<noteq> t) q = q"
  by (force simp: filter_id_conv)

lemma cancel_spec:
  assumes ok: "wr_ok rt"
  shows "\<exists>r rt'. wr_cancel t rt = Some (r, rt') \<and> wr_ok rt' \<and> (r, wr_abs rt') = spec_cancel t (wr_abs rt) \<and>
    (r \<longrightarrow> spent rt' t) \<and> (\<forall>u. spent rt u \<longrightarrow> spent rt' u)"
proof (cases "waiting rt t")
  case None
  have "wr_cancel t rt = Some (False, rt)"
    using None encode_decode_token(2) wr_okD(2) [OF ok]
    by (fastforce simp: wr_cancel_def waiting_def Let_def vec_get_def ws_is_active_def split: option.splits if_splits)
  moreover have "t \<notin> rr_token ` set (ready_queue rt)" using ready_waiting [OF ok] None by metis
  then have "filter (\<lambda>r. rr_token r \<noteq> t) (ready_queue rt) = ready_queue rt" by (rule filter_absent)
  moreover have "(waiting rt)(t := None) = waiting rt" using None by auto
  ultimately show ?thesis using ok None by (auto simp: spec_cancel_def wr_abs_def)
next
  case (Some v)
  obtain k kind d where v: "waiting rt t = Some (k, kind, d)" using Some by (cases v) auto
  obtain i where i: "i < wr_capacity rt" "t = token_of rt i" "ws_key (wr_slots rt ! i) = Some k" by (rule waiting_Some [OF ok v])
  obtain ng ret where adv: "advanced_generation (ws_generation (wr_slots rt ! i)) = (ng, ret)" by fastforce
  let ?q = "filter (\<lambda>r. rr_token r \<noteq> token_of rt i) (ready_queue rt)"
  have "ready_queue rt = ?q" if "\<not> os_queued (obs_slots rt ! i)"
    by (rule filter_absent [symmetric]) (use that queued_ready [OF ok i(1)] in simp)
  then obtain st1 where st1: "remove_ready t i (wr_observer rt) = Some st1" "ob_ready st1 = ?q"
      "ob_slots st1 = obs_slots rt \<or> ob_slots st1 = (obs_slots rt)[i := (obs_slots rt ! i)\<lparr>os_queued := False\<rparr>]"
      "ob_diagnostics st1 = ob_diagnostics (wr_observer rt)"
    using i(1,2) wr_okD(3) [OF ok] remove_position [OF wr_okD(9) [OF ok], of t]
    by (cases "os_queued (obs_slots rt ! i)") (simp_all add: remove_ready_def vec_get_def)
  obtain st2 where st2: "deactivate i ng ret st1 = Some st2" "slot_ended rt i ng ret st2"
    using deactivate_ended [OF ok i(1) _ st1(2,3)] i(3) st1(4) by auto
  let ?st = "upd_diag (\<lambda>d. d\<lparr>wd_cancellations := saturating_add (wd_cancellations d) 1\<rparr>) st2"
  have "slot_ended rt i ng ret ?st" using st2(2) by simp
  then obtain rt1 rt2 where f: "remove_slot_deadline i (rt\<lparr>wr_observer := ?st\<rparr>) = Some rt1" "release_slot i ng ret rt1 = Some rt2"
      "wr_ok rt2" "waiting rt2 = (waiting rt)(token_of rt i := None)" "wr_observer rt2 = ?st" "spent rt2 (token_of rt i)"
      "\<And>t. spent rt t \<Longrightarrow> spent rt2 t"
    using finish_ok [OF ok i(1) _ adv] i(3) by (metis option.distinct(1))
  have "wr_cancel t rt = Some (True, rt2)"
    unfolding wr_cancel_def i(2) decode_token_of [OF ok i(1)]
    using i st1(1) st2(1) f(1,2) adv wr_okD(2) [OF ok] by (simp add: vec_get_def ws_is_active_def)
  moreover have "ready_queue rt2 = ?q" using f(5) st2(2) by (simp add: slot_ended_def)
  ultimately show ?thesis using f i(2) v by (intro exI [of _ True] exI [of _ rt2]) (simp add: spec_cancel_def wr_abs_def)
qed


lemma spec_wake_of:
  assumes "wr_ok rt" "i < wr_capacity rt" "ws_key (wr_slots rt ! i) = Some k"
  shows "spec_wake (token_of rt i) cause (waiting rt) = Some (wake_of (token_of rt i) k cause (wr_slots rt ! i))"
  using waiting_token_of [OF assms(1,2)] assms(3) by (simp add: spec_wake_def wake_of_def)

lemma next_wake_ready:
  assumes ok: "wr_ok rt" and q: "ready_queue rt = r # q"
  shows "\<exists>rt'. next_wake now rt = Some (spec_wake (rr_token r) (rr_cause r) (waiting rt), rt') \<and> wr_ok rt' \<and>
    wr_abs rt' = ((waiting rt)(rr_token r := None), q) \<and> spent rt' (rr_token r) \<and> (\<forall>u. spent rt u \<longrightarrow> spent rt' u)"
proof -
  have "rr_token r \<in> rr_token ` set (ready_queue rt)" using q by simp
  then obtain i where i: "i < wr_capacity rt" "rr_token r = token_of rt i" "os_queued (obs_slots rt ! i)" "os_active (obs_slots rt ! i)"
      "ws_key (wr_slots rt ! i) \<noteq> None" by (rule ready_waiting [OF ok])
  obtain k where k: "ws_key (wr_slots rt ! i) = Some k" using i(5) by auto
  obtain ng ret where adv: "advanced_generation (ws_generation (wr_slots rt ! i)) = (ng, ret)" by fastforce
  have gen: "os_generation (obs_slots rt ! i) = ws_generation (wr_slots rt ! i)" using wr_okD(5) [OF ok i(1)] by (simp add: slots_match_def)
  let ?st = "(wr_observer rt)\<lparr>ob_ready := q\<rparr>"
  have "token_of rt i \<notin> rr_token ` set q" using wr_okD(9) [OF ok] q i(2) by simp
  then have fq: "q = filter (\<lambda>r. rr_token r \<noteq> token_of rt i) (ready_queue rt)" using q i(2) filter_absent [of "token_of rt i" q] by simp
  obtain st1 where st1: "deactivate i ng ret ?st = Some st1" "slot_ended rt i ng ret st1"
    using deactivate_ended [OF ok i(1,5), of ?st] fq by auto
  obtain rt1 rt2 where f: "remove_slot_deadline i (rt\<lparr>wr_observer := st1\<rparr>) = Some rt1" "release_slot i ng ret rt1 = Some rt2"
      "wr_ok rt2" "waiting rt2 = (waiting rt)(token_of rt i := None)" "wr_observer rt2 = st1" "spent rt2 (token_of rt i)"
      "\<And>t. spent rt t \<Longrightarrow> spent rt2 t"
    using finish_ok [OF ok i(1,5) adv st1(2)] by metis
  have "next_wake now rt = Some (Some (wake_of (rr_token r) k (rr_cause r) (wr_slots rt ! i)), rt2)"
    using i k gen adv st1(1) f(1,2) q wr_okD(2,3) [OF ok]
    by (subst next_wake.simps) (simp add: decode_token_of [OF ok i(1)] vec_get_def Let_def)
  moreover have "ready_queue rt2 = q" using f(5) st1(2) fq by (simp add: slot_ended_def)
  ultimately show ?thesis using f i(2) spec_wake_of [OF ok i(1) k] by (simp add: wr_abs_def)
qed

lemma deadline_keys:
  assumes ok: "wr_ok rt"
  shows "ordering_key ` set (wr_deadlines rt) = deadlines_of (waiting rt)"
proof (intro set_eqI iffI)
  fix x assume "x \<in> ordering_key ` set (wr_deadlines rt)"
  then obtain e where e: "e \<in> set (wr_deadlines rt)" "x = ordering_key e" by blast
  obtain i where i: "i < wr_capacity rt" "ws_deadline_ns (wr_slots rt ! i) = Some (de_deadline_ns e)" "de_token e = token_of rt i"
    using wr_okD(8) [OF ok] e(1) by blast
  have "ws_key (wr_slots rt ! i) \<noteq> None" using wr_okD(4) [OF ok i(1)] i(2) by (auto simp: slot_ok_def)
  then show "x \<in> deadlines_of (waiting rt)"
    using e(2) i waiting_token_of [OF ok i(1)] by (auto simp: deadlines_of_def ordering_key_def)
next
  fix x assume "x \<in> deadlines_of (waiting rt)"
  then obtain d t k kind where x: "x = (d, t)" "waiting rt t = Some (k, kind, Some d)" by (auto simp: deadlines_of_def)
  obtain i where i: "i < wr_capacity rt" "t = token_of rt i" "ws_deadline_ns (wr_slots rt ! i) = Some d"
    by (rule waiting_Some [OF ok x(2)])
  have "\<lparr>de_deadline_ns = d, de_token = t\<rparr> \<in> set (wr_deadlines rt)" using wr_okD(8) [OF ok] i by auto
  then show "x \<in> ordering_key ` set (wr_deadlines rt)" using x(1) by (force simp: ordering_key_def)
qed

lemma heap_root_Min:
  assumes ok: "wr_ok rt" and d: "wr_deadlines rt = e # es"
  shows "Min (deadlines_of (waiting rt)) = ordering_key e"
proof (rule Min_eqI)
  show "finite (deadlines_of (waiting rt))" unfolding deadline_keys [OF ok, symmetric] by simp
  show "ordering_key e \<in> deadlines_of (waiting rt)" unfolding deadline_keys [OF ok, symmetric] d by simp
  fix x assume "x \<in> deadlines_of (waiting rt)"
  then obtain j where "j < length (wr_deadlines rt)" "x = ordering_key (wr_deadlines rt ! j)"
    unfolding deadline_keys [OF ok, symmetric] by (auto simp: in_set_conv_nth)
  then show "ordering_key e \<le> x" using heap_min [OF wr_okD(7) [OF ok], of j] d by simp
qed

lemma next_wake_deadline:
  assumes ok: "wr_ok rt" and q: "ready_queue rt = []" and d: "wr_deadlines rt = e # es" and now: "de_deadline_ns e \<le> now"
  shows "\<exists>rt'. next_wake now rt = Some (spec_wake (de_token e) CauseDeadline (waiting rt), rt') \<and> wr_ok rt' \<and>
    wr_abs rt' = ((waiting rt)(de_token e := None), []) \<and> spent rt' (de_token e) \<and> (\<forall>u. spent rt u \<longrightarrow> spent rt' u)"
proof -
  have e: "e \<in> set (wr_deadlines rt)" using d by simp
  define i where "i = entry_slot rt e"
  note ec = entry_cases [OF ok e, folded i_def]
  have hi: "ws_heap_index (wr_slots rt ! i) = Some 0" using indexed_slot(2) [OF wr_okD(6) [OF ok], of 0] d by (simp add: i_def)
  have key: "ws_key (wr_slots rt ! i) \<noteq> None" using wr_okD(4) [OF ok ec(1)] ec(3) by (auto simp: slot_ok_def)
  then obtain k where k: "ws_key (wr_slots rt ! i) = Some k" by auto
  obtain ng ret where adv: "advanced_generation (ws_generation (wr_slots rt ! i)) = (ng, ret)" by fastforce
  obtain st1 where st1: "deactivate i ng ret (wr_observer rt) = Some st1" "slot_ended rt i ng ret st1"
    using deactivate_ended [OF ok ec(1) key, of "wr_observer rt"] q by auto
  let ?st = "upd_diag (\<lambda>d. d\<lparr>wd_deadline_wakes := saturating_add (wd_deadline_wakes d) 1\<rparr>) st1"
  have "slot_ended rt i ng ret ?st" using st1(2) by simp
  then obtain rt1 rt2 where f: "remove_slot_deadline i (rt\<lparr>wr_observer := ?st\<rparr>) = Some rt1" "release_slot i ng ret rt1 = Some rt2"
      "wr_ok rt2" "waiting rt2 = (waiting rt)(token_of rt i := None)" "wr_observer rt2 = ?st" "spent rt2 (token_of rt i)"
      "\<And>t. spent rt t \<Longrightarrow> spent rt2 t"
    using finish_ok [OF ok ec(1) key adv] by metis
  obtain e' where rm: "remove_deadline_at 0 (rt\<lparr>wr_observer := ?st\<rparr>) = Some (e', rt1)"
    using f(1) hi ec(1) wr_okD(2) [OF ok] by (auto simp: remove_slot_deadline_def vec_get_def)
  have "next_wake now rt = Some (Some (wake_of (de_token e) k CauseDeadline (wr_slots rt ! i)), rt2)"
    using ec(1,4) k adv st1(1) f(2) rm q d now wr_okD(2) [OF ok]
    by (subst next_wake.simps) (simp add: vec_get_def Let_def)
  moreover have "ready_queue rt2 = []" using f(5) st1(2) q by (simp add: slot_ended_def)
  ultimately show ?thesis using f ec(2) spec_wake_of [OF ok ec(1) k] by (simp add: wr_abs_def)
qed

lemma next_wake_spec:
  assumes ok: "wr_ok rt"
  shows "\<exists>w rt'. next_wake now rt = Some (w, rt') \<and> wr_ok rt' \<and> (w, wr_abs rt') = spec_next_wake now (wr_abs rt) \<and>
    (\<forall>t. waiting rt t \<noteq> None \<and> waiting rt' t = None \<longrightarrow> spent rt' t) \<and> (\<forall>u. spent rt u \<longrightarrow> spent rt' u)"
proof (cases "ready_queue rt")
  case (Cons r q)
  obtain rt' where "next_wake now rt = Some (spec_wake (rr_token r) (rr_cause r) (waiting rt), rt')" "wr_ok rt'"
    "wr_abs rt' = ((waiting rt)(rr_token r := None), q)" "spent rt' (rr_token r)" "\<forall>u. spent rt u \<longrightarrow> spent rt' u"
    using next_wake_ready [OF ok Cons] by blast
  then show ?thesis using Cons by (auto simp: wr_abs_def spec_next_wake_def split: if_splits)
next
  case q: Nil
  show ?thesis
  proof (cases "wr_deadlines rt")
    case Nil
    then have "deadlines_of (waiting rt) = {}" unfolding deadline_keys [OF ok, symmetric] by simp
    then show ?thesis using q Nil ok by (subst next_wake.simps) (auto simp: wr_abs_def spec_next_wake_def)
  next
    case (Cons e es)
    have mem: "ordering_key e \<in> deadlines_of (waiting rt)" unfolding deadline_keys [OF ok, symmetric] Cons by simp
    have min: "Min (deadlines_of (waiting rt)) = ordering_key e" by (rule heap_root_Min [OF ok Cons])
    have fin: "finite (deadlines_of (waiting rt))" unfolding deadline_keys [OF ok, symmetric] by simp
    have ex: "(\<exists>(d, t) \<in> deadlines_of (waiting rt). d \<le> now) \<longleftrightarrow> de_deadline_ns e \<le> now"
    proof
      assume "\<exists>(d, t) \<in> deadlines_of (waiting rt). d \<le> now"
      then obtain d t where dt: "(d, t) \<in> deadlines_of (waiting rt)" "d \<le> now" by blast
      have "ordering_key e \<le> (d, t)" unfolding min [symmetric] by (rule Min_le [OF fin dt(1)])
      then show "de_deadline_ns e \<le> now" using dt(2) by (auto simp: ordering_key_def)
    qed (use mem in \<open>auto simp: ordering_key_def\<close>)
    show ?thesis
    proof (cases "de_deadline_ns e \<le> now")
      case True
      obtain rt' where "next_wake now rt = Some (spec_wake (de_token e) CauseDeadline (waiting rt), rt')" "wr_ok rt'"
        "wr_abs rt' = ((waiting rt)(de_token e := None), [])" "spent rt' (de_token e)" "\<forall>u. spent rt u \<longrightarrow> spent rt' u"
        using next_wake_deadline [OF ok q Cons True] by blast
      then show ?thesis using q ex True min by (auto simp: wr_abs_def spec_next_wake_def ordering_key_def split: if_splits)
    next
      case False
      then show ?thesis using q Cons ok ex by (subst next_wake.simps) (auto simp: wr_abs_def spec_next_wake_def)
    qed
  qed
qed

lemma same_slots_waiting:
  assumes "wr_capacity rt' = wr_capacity rt" "wr_slots rt' = wr_slots rt"
  shows "waiting rt' = waiting rt" "spent rt' = spent rt" "token_of rt' = token_of rt"
  unfolding waiting_def spent_def token_of_def fun_eq_iff assms by simp_all

lemma notify_active:
  assumes ok: "wr_ok rt" and i: "i < wr_capacity rt" and key: "ws_key (wr_slots rt ! i) \<noteq> None" and c: "cause \<noteq> CauseDeadline"
    and q: "os_queued (obs_slots rt ! i)" "t = token_of rt i"
  shows "\<exists>st. ob_notify t cause (wr_observer rt) = Some (True, st) \<and> ob_slots st = obs_slots rt \<and> ob_ready st = ready_queue rt \<and>
    wd_active (ob_diagnostics st) = wd_active (ob_diagnostics (wr_observer rt))"
proof -
  have m: "slots_match (wr_slots rt ! i) (obs_slots rt ! i)" "slot_ok (wr_slots rt ! i)" using wr_okD(4,5) [OF ok i] by simp_all
  then have o': "os_active (obs_slots rt ! i)" "\<not> os_retired (obs_slots rt ! i)" "os_generation (obs_slots rt ! i) = ws_generation (wr_slots rt ! i)"
    using key by (auto simp: slots_match_def slot_ok_def)
  show ?thesis unfolding ob_notify_def q(2) wr_okD(3) [OF ok] decode_token_of [OF ok i]
    using o' q(1) c by (cases cause) (simp_all add: Let_def)
qed

lemma notify_new:
  assumes ok: "wr_ok rt" and i: "i < wr_capacity rt" and key: "ws_key (wr_slots rt ! i) \<noteq> None" and c: "cause \<noteq> CauseDeadline"
    and q: "\<not> os_queued (obs_slots rt ! i)" "t = token_of rt i"
  shows "\<exists>st. ob_notify t cause (wr_observer rt) = Some (True, st) \<and>
    ob_slots st = (obs_slots rt)[i := (obs_slots rt ! i)\<lparr>os_queued := True\<rparr>] \<and>
    ob_ready st = ready_queue rt @ [\<lparr>rr_token = t, rr_cause = cause\<rparr>] \<and>
    wd_active (ob_diagnostics st) = wd_active (ob_diagnostics (wr_observer rt))"
proof -
  have m: "slots_match (wr_slots rt ! i) (obs_slots rt ! i)" "slot_ok (wr_slots rt ! i)" using wr_okD(4,5) [OF ok i] by simp_all
  then have o': "os_active (obs_slots rt ! i)" "\<not> os_retired (obs_slots rt ! i)" "os_generation (obs_slots rt ! i) = ws_generation (wr_slots rt ! i)"
    using key by (auto simp: slots_match_def slot_ok_def)
  let ?Q = "{j. j < wr_capacity rt \<and> os_queued (obs_slots rt ! j)}"
  have img: "rr_token ` set (ready_queue rt) = token_of rt ` ?Q" using wr_okD(11) [OF ok] by blast
  have "?Q \<subset> {..< wr_capacity rt}" using i q(1) by blast
  then have "card ?Q < wr_capacity rt" using psubset_card_mono [of "{..< wr_capacity rt}" ?Q] by simp
  moreover have "card (token_of rt ` ?Q) \<le> card ?Q" by (rule card_image_le) simp
  ultimately have "card (rr_token ` set (ready_queue rt)) < wr_capacity rt" unfolding img by linarith
  then have "length (ready_queue rt) < wr_capacity rt"
    using distinct_card [OF wr_okD(9) [OF ok]] by simp
  then show ?thesis unfolding ob_notify_def q(2) wr_okD(3) [OF ok] decode_token_of [OF ok i]
    using o' q(1) c wr_okD(3) [OF ok] by (cases cause) (simp_all add: Let_def)
qed


lemma notify_stale:
  assumes ok: "wr_ok rt" and none: "waiting rt t = None"
  shows "ob_notify t cause (wr_observer rt) = Some (False, note_stale (wr_observer rt))"
proof (cases "decode_token t (wr_capacity rt)")
  case None
  then show ?thesis using wr_okD(3) [OF ok] by (simp add: ob_notify_def)
next
  case (Some p)
  obtain i g where d: "decode_token t (wr_capacity rt) = Some (i, g)" using Some by (cases p) simp
  have "ws_generation (wr_slots rt ! i) \<noteq> g \<or> ws_key (wr_slots rt ! i) = None" using none d by (auto simp: waiting_def Let_def split: if_splits)
  then show ?thesis using wr_okD(3) [OF ok] wr_okD(5) [OF ok encode_decode_token(2) [OF d]] d
    by (auto simp: ob_notify_def slots_match_def Let_def)
qed

lemma wr_ok_observer:
  assumes ok: "wr_ok rt" and len: "length (ob_slots st) = wr_capacity rt"
    and m: "\<And>j. j < wr_capacity rt \<Longrightarrow> slots_match (wr_slots rt ! j) (ob_slots st ! j)"
    and q: "distinct (map rr_token (ob_ready st))" "\<forall>r \<in> set (ob_ready st). rr_cause r \<noteq> CauseDeadline"
    "\<And>t. t \<in> rr_token ` set (ob_ready st) \<longleftrightarrow> (\<exists>i < wr_capacity rt. os_queued (ob_slots st ! i) \<and> t = token_of rt i)"
    and a: "wd_active (ob_diagnostics st) = wd_active (ob_diagnostics (wr_observer rt))"
  shows "wr_ok (rt\<lparr>wr_observer := st\<rparr>)"
proof -
  have "active_slots (rt\<lparr>wr_observer := st\<rparr>) = active_slots rt" by (simp add: active_slots_def)
  then show ?thesis unfolding wr_ok_def using wr_okD(1,2,4,6,7,8,12) [OF ok] len m q a by simp
qed

lemma notify_spec:
  assumes ok: "wr_ok rt" and c: "cause \<noteq> CauseDeadline"
  shows "\<exists>r st. ob_notify t cause (wr_observer rt) = Some (r, st) \<and> wr_ok (rt\<lparr>wr_observer := st\<rparr>) \<and>
    (r, wr_abs (rt\<lparr>wr_observer := st\<rparr>)) = spec_notify t cause (wr_abs rt)"
proof (cases "waiting rt t")
  case None
  have "wr_ok (rt\<lparr>wr_observer := note_stale (wr_observer rt)\<rparr>)"
    by (rule wr_ok_observer [OF ok]) (use wr_okD(3,5,9,10,11) [OF ok] in \<open>simp_all add: note_stale_def\<close>)
  then show ?thesis using notify_stale [OF ok None] None same_slots_waiting(1) [of "rt\<lparr>wr_observer := note_stale (wr_observer rt)\<rparr>" rt]
    by (auto simp: spec_notify_def wr_abs_def note_stale_def)
next
  case (Some v)
  obtain k kind d where v: "waiting rt t = Some (k, kind, d)" using Some by (cases v) auto
  obtain i where i: "i < wr_capacity rt" "t = token_of rt i" "ws_key (wr_slots rt ! i) = Some k" by (rule waiting_Some [OF ok v])
  then have key: "ws_key (wr_slots rt ! i) \<noteq> None" by simp
  note same = same_slots_waiting(1) [of "rt\<lparr>wr_observer := st\<rparr>" rt for st]
  show ?thesis
  proof (cases "os_queued (obs_slots rt ! i)")
    case True
    from notify_active [OF ok i(1) key c True i(2)] obtain st where st: "ob_notify t cause (wr_observer rt) = Some (True, st)"
        "ob_slots st = obs_slots rt" "ob_ready st = ready_queue rt" "wd_active (ob_diagnostics st) = wd_active (ob_diagnostics (wr_observer rt))"
      by blast
    have "wr_ok (rt\<lparr>wr_observer := st\<rparr>)"
      by (rule wr_ok_observer [OF ok]) (use wr_okD(3,5,9,10,11) [OF ok] st in simp_all)
    moreover have "t \<in> rr_token ` set (ready_queue rt)" using queued_ready [OF ok i(1)] True i(2) by simp
    ultimately show ?thesis using st v same [of st] by (auto simp: spec_notify_def wr_abs_def)
  next
    case False
    from notify_new [OF ok i(1) key c False i(2)] obtain st where st: "ob_notify t cause (wr_observer rt) = Some (True, st)"
        "ob_slots st = (obs_slots rt)[i := (obs_slots rt ! i)\<lparr>os_queued := True\<rparr>]"
        "ob_ready st = ready_queue rt @ [\<lparr>rr_token = t, rr_cause = cause\<rparr>]"
        "wd_active (ob_diagnostics st) = wd_active (ob_diagnostics (wr_observer rt))"
      by blast
    have new: "t \<notin> rr_token ` set (ready_queue rt)" using queued_ready [OF ok i(1)] False i(2) by simp
    have len: "i < length (obs_slots rt)" using wr_okD(3) [OF ok] i(1) by simp
    have "os_active (obs_slots rt ! i)" using wr_okD(5) [OF ok i(1)] key by (simp add: slots_match_def)
    then have m: "slots_match (wr_slots rt ! j) (ob_slots st ! j)" if "j < wr_capacity rt" for j
      using wr_okD(5) [OF ok that] st(2) len by (cases "j = i") (auto simp: slots_match_def)
    have q: "u \<in> rr_token ` set (ob_ready st) \<longleftrightarrow> (\<exists>j < wr_capacity rt. os_queued (ob_slots st ! j) \<and> u = token_of rt j)" for u
    proof -
      have "u \<in> rr_token ` set (ob_ready st) \<longleftrightarrow> (\<exists>j < wr_capacity rt. os_queued (obs_slots rt ! j) \<and> u = token_of rt j) \<or> u = token_of rt i"
        unfolding wr_okD(11) [OF ok, of u, symmetric] using st(3) i(2) by auto
      also have "\<dots> \<longleftrightarrow> (\<exists>j < wr_capacity rt. os_queued (ob_slots st ! j) \<and> u = token_of rt j)"
        unfolding st(2) using i(1) len by (auto simp: nth_list_update)
      finally show ?thesis .
    qed
    have "wr_ok (rt\<lparr>wr_observer := st\<rparr>)"
      by (rule wr_ok_observer [OF ok]) (use wr_okD(3,9,10) [OF ok] st m q new c in \<open>auto\<close>)
    then show ?thesis using st v same [of st] new by (auto simp: spec_notify_def wr_abs_def)
  qed
qed

section \<open>Registration\<close>

lemma idle_no_entry:
  assumes ok: "wr_ok rt" and i: "i < wr_capacity rt" "ws_key (wr_slots rt ! i) = None"
  shows "ws_heap_index (wr_slots rt ! i) = None" "\<And>e. e \<in> set (wr_deadlines rt) \<Longrightarrow> entry_slot rt e \<noteq> i"
    "length (wr_deadlines rt) < wr_capacity rt"
proof -
  have dl: "ws_deadline_ns (wr_slots rt ! i) = None" using wr_okD(4) [OF ok i(1)] i(2) by (simp add: slot_ok_def)
  show ne: "entry_slot rt e \<noteq> i" if "e \<in> set (wr_deadlines rt)" for e
    using entry_cases(3) [OF ok that] dl by auto
  show "ws_heap_index (wr_slots rt ! i) = None"
  proof (rule ccontr)
    assume "ws_heap_index (wr_slots rt ! i) \<noteq> None"
    then obtain h where "h < length (wr_deadlines rt)" "entry_slot rt (wr_deadlines rt ! h) = i"
      using indexed_pos [OF wr_okD(6) [OF ok], of i] i(1) wr_okD(2) [OF ok] by auto
    then show False using ne nth_mem by blast
  qed
  let ?f = "\<lambda>h. entry_slot rt (wr_deadlines rt ! h)"
  have "inj_on ?f {..< length (wr_deadlines rt)}"
    using indexed_inj [OF wr_okD(6) [OF ok]] by (auto simp: inj_on_def)
  moreover have "?f ` {..< length (wr_deadlines rt)} \<subset> {..< wr_capacity rt}"
  proof -
    have "?f ` {..< length (wr_deadlines rt)} \<subseteq> {..< wr_capacity rt} - {i}"
      using entry_cases(1) [OF ok nth_mem] ne [OF nth_mem] by auto
    then show ?thesis using i(1) by blast
  qed
  ultimately show "length (wr_deadlines rt) < wr_capacity rt"
    using psubset_card_mono [of "{..< wr_capacity rt}" "?f ` {..< length (wr_deadlines rt)}"] by (simp add: card_image)
qed

lemma register_heap:
  assumes ok: "wr_ok rt" and i: "i < wr_capacity rt" "ws_key (wr_slots rt ! i) = None"
    and s1: "s1 = (wr_slots rt)[i := (wr_slots rt ! i)\<lparr>ws_key := Some key, ws_kind := kind, ws_deadline_ns := d, ws_heap_index := None\<rparr>]"
  obtains rt2 where "(case d of None \<Rightarrow> Some (rt\<lparr>wr_slots := s1\<rparr>)
      | Some x \<Rightarrow> push_deadline \<lparr>de_deadline_ns = x, de_token = token_of rt i\<rparr> (rt\<lparr>wr_slots := s1\<rparr>)) = Some rt2"
    "indexed rt2" "heap ordering_key (wr_deadlines rt2)" "wr_capacity rt2 = wr_capacity rt" "wr_observer rt2 = wr_observer rt"
    "map slot_core (wr_slots rt2) = map slot_core s1"
    "\<And>e. e \<in> set (wr_deadlines rt2) \<longleftrightarrow> e \<in> set (wr_deadlines rt) \<or> d = Some (de_deadline_ns e) \<and> de_token e = token_of rt i"
proof -
  let ?rt = "rt\<lparr>wr_slots := s1\<rparr>"
  note idle = idle_no_entry [OF ok i]
  have len: "length (wr_slots rt) = wr_capacity rt" by (rule wr_okD(2) [OF ok])
  have "ws_heap_index (s1 ! j) = ws_heap_index (wr_slots rt ! j)" for j
    using idle(1) i(1) len by (cases "j = i") (simp_all add: s1)
  then have ix: "indexed ?rt" using wr_okD(6) [OF ok] by (simp add: indexed_def s1)
  show ?thesis
  proof (cases d)
    case None
    then show ?thesis using that [of ?rt] ix wr_okD(7) [OF ok] by simp
  next
    case (Some x)
    let ?e = "\<lparr>de_deadline_ns = x, de_token = token_of rt i\<rparr>"
    obtain rt2 where p: "push_deadline ?e ?rt = Some rt2" "indexed rt2" "heap ordering_key (wr_deadlines rt2)"
        "wr_capacity rt2 = wr_capacity ?rt" "wr_observer rt2 = wr_observer ?rt" "map slot_core (wr_slots rt2) = map slot_core (wr_slots ?rt)"
        "mset (wr_deadlines rt2) = add_mset ?e (mset (wr_deadlines ?rt))"
    proof (rule push_ok [of ?rt ?e i])
      show "indexed ?rt" "heap ordering_key (wr_deadlines ?rt)" "length (wr_deadlines ?rt) < wr_capacity ?rt"
        using ix wr_okD(7) [OF ok] idle(3) by simp_all
      show "decode_token (de_token ?e) (wr_capacity ?rt) = Some (i, ws_generation (wr_slots rt ! i))"
        using decode_token_of [OF ok i(1)] by simp
      show "i < length (wr_slots ?rt)" "ws_heap_index (wr_slots ?rt ! i) = None" using i(1) len by (simp_all add: s1)
    qed
    have "mset (wr_deadlines rt2) = mset (?e # wr_deadlines rt)" using p(7) by simp
    then have "set (wr_deadlines rt2) = set (?e # wr_deadlines rt)" by (rule mset_eq_setD)
    moreover have "e = ?e \<longleftrightarrow> x = de_deadline_ns e \<and> de_token e = token_of rt i" for e :: deadline_entry by (cases e) auto
    ultimately have "e \<in> set (wr_deadlines rt2) \<longleftrightarrow> e \<in> set (wr_deadlines rt) \<or> d = Some (de_deadline_ns e) \<and> de_token e = token_of rt i" for e
      using Some by auto
    then show ?thesis using that [of rt2] p(1-6) Some by simp
  qed
qed


lemma register_waiting:
  assumes ok: "wr_ok rt" and i: "i < wr_capacity rt" "ws_key (wr_slots rt ! i) = None" and cap: "wr_capacity rt' = wr_capacity rt"
    and core: "\<And>j. j < wr_capacity rt \<Longrightarrow> j \<noteq> i \<Longrightarrow> slot_core (wr_slots rt' ! j) = slot_core (wr_slots rt ! j)"
    and new: "slot_core (wr_slots rt' ! i) = slot_core ((wr_slots rt ! i)\<lparr>ws_key := Some key, ws_kind := kind, ws_deadline_ns := d\<rparr>)"
  shows "waiting rt' = (waiting rt)(token_of rt i \<mapsto> (key, kind, d))" "spent rt' = spent rt" "\<And>j. j < wr_capacity rt \<Longrightarrow> token_of rt' j = token_of rt j"
proof -
  note nf = core_fields(1-5) [OF new, simplified]
  show "token_of rt' j = token_of rt j" if "j < wr_capacity rt" for j
    using core_fields(1) [OF core [OF that]] nf(1) by (cases "j = i") (simp_all add: token_of_def)
  have gen: "ws_generation (wr_slots rt' ! j) = ws_generation (wr_slots rt ! j)" "ws_retired (wr_slots rt' ! j) = ws_retired (wr_slots rt ! j)"
    if "j < wr_capacity rt" for j
    using core_fields(1,2) [OF core [OF that]] nf(1,2) by (cases "j = i"; simp)+
  show "spent rt' = spent rt"
  proof
    fix t
    show "spent rt' t = spent rt t"
      unfolding spent_def cap using gen encode_decode_token(2) by (metis (no_types, lifting))
  qed
  show "waiting rt' = (waiting rt)(token_of rt i \<mapsto> (key, kind, d))"
  proof
    fix t
    show "waiting rt' t = ((waiting rt)(token_of rt i \<mapsto> (key, kind, d))) t"
    proof (cases "decode_token t (wr_capacity rt)")
      case None
      then have "t \<noteq> token_of rt i" using decode_token_of [OF ok i(1)] by auto
      then show ?thesis using None by (simp add: waiting_def cap)
    next
      case (Some p)
      obtain j g where dec: "decode_token t (wr_capacity rt) = Some (j, g)" using Some by (cases p) simp
      note e = encode_decode_token [OF dec]
      show ?thesis
      proof (cases "j = i")
        case True
        have "t = token_of rt i \<longleftrightarrow> ws_generation (wr_slots rt ! i) = g"
        proof
          assume t: "t = token_of rt i"
          show "ws_generation (wr_slots rt ! i) = g" using dec unfolding t decode_token_of [OF ok i(1)] by blast
        qed (use e(1) True in \<open>simp add: token_of_def\<close>)
        then show ?thesis using dec True nf i(2) by (auto simp: waiting_def cap Let_def)
      next
        case False
        have "t \<noteq> token_of rt i" using dec decode_token_of [OF ok i(1)] False by auto
        then show ?thesis using dec core_fields(1-5) [OF core [OF e(2) False]] by (simp add: waiting_def cap Let_def)
      qed
    qed
  qed
qed

lemma registered_ok:
  assumes ok: "wr_ok rt" and i: "i < wr_capacity rt" "ws_key (wr_slots rt ! i) = None" "\<not> ws_retired (wr_slots rt ! i)"
    and cap: "wr_capacity rt' = wr_capacity rt"
    and core: "\<And>j. j < wr_capacity rt \<Longrightarrow> j \<noteq> i \<Longrightarrow> slot_core (wr_slots rt' ! j) = slot_core (wr_slots rt ! j)"
    and new: "slot_core (wr_slots rt' ! i) = slot_core ((wr_slots rt ! i)\<lparr>ws_key := Some key, ws_kind := kind, ws_deadline_ns := d\<rparr>)"
    and len: "length (wr_slots rt') = wr_capacity rt" and heap: "indexed rt'" "heap ordering_key (wr_deadlines rt')"
    and dl: "\<And>e. e \<in> set (wr_deadlines rt') \<longleftrightarrow> e \<in> set (wr_deadlines rt) \<or> d = Some (de_deadline_ns e) \<and> de_token e = token_of rt i"
    and st: "obs_slots rt' = (obs_slots rt)[i := (obs_slots rt ! i)\<lparr>os_active := True\<rparr>]" "ready_queue rt' = ready_queue rt"
      "wd_active (ob_diagnostics (wr_observer rt')) = wd_active (ob_diagnostics (wr_observer rt)) + 1"
    and tok: "\<And>j. j < wr_capacity rt \<Longrightarrow> token_of rt' j = token_of rt j"
  shows "wr_ok rt'"
proof -
  note nf = core_fields(1-5) [OF new, simplified]
  have m: "slots_match (wr_slots rt ! i) (obs_slots rt ! i)" "slot_ok (wr_slots rt ! i)" using wr_okD(4,5) [OF ok i(1)] by simp_all
  have slots: "slot_ok (wr_slots rt' ! j) \<and> slots_match (wr_slots rt' ! j) (obs_slots rt' ! j)" if "j < wr_capacity rt" for j
  proof (cases "j = i")
    case True
    then show ?thesis using nf m i st(1) wr_okD(3) [OF ok] by (auto simp: slot_ok_def slots_match_def)
  next
    case False
    then show ?thesis using core_fields(6,7) [OF core [OF that False]] wr_okD(4,5) [OF ok that] st(1) by simp
  qed
  have dls: "e \<in> set (wr_deadlines rt') \<longleftrightarrow> (\<exists>j < wr_capacity rt. ws_deadline_ns (wr_slots rt' ! j) = Some (de_deadline_ns e) \<and> de_token e = token_of rt' j)" for e
  proof -
    have "ws_deadline_ns (wr_slots rt ! i) = None" using m(2) i(2) by (simp add: slot_ok_def)
    then have "(ws_deadline_ns (wr_slots rt' ! j) = Some (de_deadline_ns e) \<and> de_token e = token_of rt' j) \<longleftrightarrow>
        (ws_deadline_ns (wr_slots rt ! j) = Some (de_deadline_ns e) \<and> de_token e = token_of rt j) \<or>
        (j = i \<and> d = Some (de_deadline_ns e) \<and> de_token e = token_of rt i)" if "j < wr_capacity rt" for j
      using tok [OF that] nf(5) core_fields(5) [OF core [OF that]] by (cases "j = i") auto
    then show ?thesis unfolding dl wr_okD(8) [OF ok, of e] using i(1) by blast
  qed
  have queued: "os_queued (obs_slots rt' ! j) = os_queued (obs_slots rt ! j)" for j
    using st(1) i(1) wr_okD(3) [OF ok] by (cases "j = i") simp_all
  have "ws_key (wr_slots rt' ! x) \<noteq> None \<longleftrightarrow> x = i \<or> ws_key (wr_slots rt ! x) \<noteq> None" if "x < wr_capacity rt" for x
    using core_fields(3) [OF core [OF that]] nf(3) by (cases "x = i") simp_all
  then have "active_slots rt' = insert i (active_slots rt)"
    using len wr_okD(2) [OF ok] i(1) by (auto simp: active_slots_def)
  moreover have "i \<notin> active_slots rt" "finite (active_slots rt)" using i(2) by (simp_all add: active_slots_def)
  ultimately have act: "wd_active (ob_diagnostics (wr_observer rt')) = card (active_slots rt')"
    using st(3) wr_okD(12) [OF ok] by simp
  have ready: "t \<in> rr_token ` set (ready_queue rt') \<longleftrightarrow> (\<exists>j < wr_capacity rt. os_queued (obs_slots rt' ! j) \<and> t = token_of rt' j)" for t
    unfolding st(2) queued wr_okD(11) [OF ok, of t] using tok by metis
  show ?thesis
    unfolding wr_ok_def cap
    using wr_okD(1,3) [OF ok] len slots heap dls act ready wr_okD(9,10) [OF ok] st(1,2) by simp
qed

lemma register_spec:
  assumes ok: "wr_ok rt"
  shows "\<exists>r rt'. wr_register key kind d rt = Some (r, rt') \<and> wr_ok rt' \<and> ready_queue rt' = ready_queue rt \<and> spent rt' = spent rt \<and>
    (case r of
       Inl e \<Rightarrow> e = CapacityReached \<and> rt' = rt \<and> (\<forall>s \<in> set (wr_slots rt). ws_is_active s \<or> ws_retired s)
     | Inr t \<Rightarrow> waiting rt t = None \<and> \<not> spent rt t \<and> waiting rt' = (waiting rt)(t \<mapsto> (key, kind, d)))"
proof (cases "position (\<lambda>s. \<not> ws_is_active s \<and> \<not> ws_retired s) (wr_slots rt)")
  case None
  then have "wr_register key kind d rt = Some (Inl CapacityReached, rt)" by (simp add: wr_register_def)
  moreover have "\<forall>s \<in> set (wr_slots rt). ws_is_active s \<or> ws_retired s" using None [unfolded position_None] by blast
  ultimately show ?thesis using ok by auto
next
  case (Some i)
  have len: "length (wr_slots rt) = wr_capacity rt" "length (obs_slots rt) = wr_capacity rt" by (rule wr_okD(2) [OF ok], rule wr_okD(3) [OF ok])
  have i: "i < wr_capacity rt" "ws_key (wr_slots rt ! i) = None" "\<not> ws_retired (wr_slots rt ! i)"
    using position_SomeD [OF Some] len(1) by (auto simp: ws_is_active_def)
  define s1 where "s1 = (wr_slots rt)[i := (wr_slots rt ! i)\<lparr>ws_key := Some key, ws_kind := kind, ws_deadline_ns := d, ws_heap_index := None\<rparr>]"
  obtain rt2 where r: "(case d of None \<Rightarrow> Some (rt\<lparr>wr_slots := s1\<rparr>)
      | Some x \<Rightarrow> push_deadline \<lparr>de_deadline_ns = x, de_token = token_of rt i\<rparr> (rt\<lparr>wr_slots := s1\<rparr>)) = Some rt2"
    "indexed rt2" "heap ordering_key (wr_deadlines rt2)" "wr_capacity rt2 = wr_capacity rt" "wr_observer rt2 = wr_observer rt"
    "map slot_core (wr_slots rt2) = map slot_core s1"
    "\<And>e. e \<in> set (wr_deadlines rt2) \<longleftrightarrow> e \<in> set (wr_deadlines rt) \<or> d = Some (de_deadline_ns e) \<and> de_token e = token_of rt i"
    using register_heap [OF ok i(1,2) s1_def] by metis
  have m: "slots_match (wr_slots rt ! i) (obs_slots rt ! i)" "slot_ok (wr_slots rt ! i)" using wr_okD(4,5) [OF ok i(1)] by simp_all
  then obtain st where st: "activate i (ws_generation (wr_slots rt ! i)) (wr_observer rt) = Some st"
      "ob_slots st = (obs_slots rt)[i := (obs_slots rt ! i)\<lparr>os_active := True\<rparr>]" "ob_ready st = ready_queue rt"
      "wd_active (ob_diagnostics st) = wd_active (ob_diagnostics (wr_observer rt)) + 1"
    using i len by (auto simp: activate_def vec_get_def slots_match_def)
  define rt3 where "rt3 = rt2\<lparr>wr_observer := st\<rparr>"
  have eq: "wr_register key kind d rt = Some (Inr (token_of rt i), rt3)"
    unfolding wr_register_def Some option.case Let_def token_of_def [symmetric] s1_def [symmetric] r(1)
    using r(5) st(1) by (simp add: rt3_def)
  have core: "slot_core (wr_slots rt3 ! j) = slot_core (s1 ! j)" if "j < wr_capacity rt" for j
    using cores_nth [OF r(6), of j] that len(1) by (simp add: rt3_def s1_def)
  have core_i: "slot_core (wr_slots rt3 ! i) = slot_core ((wr_slots rt ! i)\<lparr>ws_key := Some key, ws_kind := kind, ws_deadline_ns := d\<rparr>)"
    using core [OF i(1)] i(1) len(1) by (simp add: s1_def slot_core_def)
  have core_j: "slot_core (wr_slots rt3 ! j) = slot_core (wr_slots rt ! j)" if "j < wr_capacity rt" "j \<noteq> i" for j
    using core [OF that(1)] that by (simp add: s1_def)
  have cap: "wr_capacity rt3 = wr_capacity rt" using r(4) by (simp add: rt3_def)
  note w = register_waiting [OF ok i(1,2) cap core_j core_i]
  have "waiting rt (token_of rt i) = None" using waiting_token_of [OF ok i(1)] i(2) by simp
  moreover have "\<not> spent rt (token_of rt i)" using decode_token_of [OF ok i(1)] i(3) by (auto simp: spent_def)
  moreover have l3: "length (wr_slots rt3) = wr_capacity rt" using map_eq_imp_length_eq [OF r(6)] len(1) by (simp add: rt3_def s1_def)
  have "wr_ok rt3"
    by (rule registered_ok [OF ok i cap core_j core_i l3]) (use r(2,3,7) st(2-4) w(3) in \<open>simp_all add: rt3_def\<close>)
  ultimately show ?thesis using eq w(1,2) st(3) by (auto simp: rt3_def)
qed

section \<open>Reachable runtimes\<close>

lemma heap_Nil [simp]: "heap f []"
  by (simp add: heap_def)

lemma wr_try_new_ok:
  assumes "wait_runtime_try_new al capacity = Inr rt"
  shows "wr_ok rt" "waiting rt = Map.empty" "ready_queue rt = []"
proof -
  have c: "capacity \<le> u32_max" and rt: "wr_capacity rt = capacity" "wr_slots rt = replicate capacity wait_slot_vacant" "wr_deadlines rt = []"
      "ob_slots (wr_observer rt) = replicate capacity observer_slot_vacant" "ready_queue rt = []" "wd_active (ob_diagnostics (wr_observer rt)) = 0"
    using assms by (auto simp: wait_runtime_try_new_def split: if_splits)
  show "ready_queue rt = []" by (fact rt(5))
  have "active_slots rt = {}" by (auto simp: active_slots_def rt wait_slot_vacant_def)
  then show "wr_ok rt"
    unfolding wr_ok_def using c rt
    by (auto simp: slot_ok_def slots_match_def wait_slot_vacant_def observer_slot_vacant_def indexed_def u32_max_def)
  show "waiting rt = Map.empty"
    using encode_decode_token(2) by (fastforce simp: waiting_def rt wait_slot_vacant_def fun_eq_iff Let_def split: option.splits)
qed

inductive wr_step :: "'k wait_runtime \<Rightarrow> 'k wait_runtime \<Rightarrow> bool" where
  register: "wr_register key kind d a = Some (r, b) \<Longrightarrow> wr_step a b"
| signal: "wr_signal t a = Some b \<Longrightarrow> wr_step a b"
| dependency: "notify_dependency t a = Some (accepted, b) \<Longrightarrow> wr_step a b"
| cancel: "wr_cancel t a = Some (found, b) \<Longrightarrow> wr_step a b"
| cancel_by_key: "cancel_key key a = Some (found, b) \<Longrightarrow> wr_step a b"
| wake: "next_wake now a = Some (w, b) \<Longrightarrow> wr_step a b"

inductive wr_steps :: "'k wait_runtime \<Rightarrow> 'k wait_runtime \<Rightarrow> bool" where
  none: "wr_steps a a"
| more: "wr_steps a b \<Longrightarrow> wr_step b c \<Longrightarrow> wr_steps a c"

definition wr_reachable :: "'k wait_runtime \<Rightarrow> bool" where
  "wr_reachable rt \<longleftrightarrow> (\<exists>al capacity rt0. wait_runtime_try_new al capacity = Inr rt0 \<and> wr_steps rt0 rt)"

text \<open>What every step keeps: the invariant, spent tokens stay spent, and a wait that is over leaves a spent token.\<close>

definition wr_progress :: "'k wait_runtime \<Rightarrow> 'k wait_runtime \<Rightarrow> bool" where
  "wr_progress a b \<longleftrightarrow> wr_ok b \<and> (\<forall>u. spent a u \<longrightarrow> spent b u) \<and> (\<forall>t. waiting a t \<noteq> None \<and> waiting b t = None \<longrightarrow> spent b t)"

lemma notify_progress:
  assumes "wr_ok a" "cause \<noteq> CauseDeadline" "ob_notify t cause (wr_observer a) = Some (r, st)"
  shows "wr_progress a (a\<lparr>wr_observer := st\<rparr>)"
proof -
  have "wr_ok (a\<lparr>wr_observer := st\<rparr>)" using notify_spec [OF assms(1,2), of t] assms(3) by auto
  then show ?thesis using same_slots_waiting(1,2) [of "a\<lparr>wr_observer := st\<rparr>" a] by (auto simp: wr_progress_def)
qed

lemma cancel_progress:
  assumes "wr_ok a" "wr_cancel t a = Some (r, b)"
  shows "wr_progress a b"
proof -
  have c: "wr_ok b" "(r, wr_abs b) = spec_cancel t (wr_abs a)" "r \<longrightarrow> spent b t" "\<forall>u. spent a u \<longrightarrow> spent b u"
    using cancel_spec [OF assms(1), of t] assms(2) by auto
  then have "waiting b = (waiting a)(t := None)" "r = (waiting a t \<noteq> None)" by (simp_all add: spec_cancel_def wr_abs_def)
  then show ?thesis using c by (auto simp: wr_progress_def split: if_splits)
qed

lemma register_progress:
  assumes "wr_ok a" "wr_register key kind d a = Some (r, b)"
  shows "wr_progress a b"
proof -
  have c: "wr_ok b" "spent b = spent a" "case r of Inl e \<Rightarrow> b = a | Inr t \<Rightarrow> waiting b = (waiting a)(t \<mapsto> (key, kind, d))"
    using register_spec [OF assms(1), of key kind d] assms(2) by (auto split: sum.splits)
  then show ?thesis by (cases r) (auto simp: wr_progress_def split: if_splits)
qed

lemma wr_step_progress: "wr_step a b \<Longrightarrow> wr_ok a \<Longrightarrow> wr_progress a b"
proof (induction rule: wr_step.induct)
  case (wake now a w b)
  then show ?case using next_wake_spec [of a now] by (auto simp: wr_progress_def)
next
  case (cancel_by_key key a found b)
  then show ?case using cancel_progress [of a] by (auto simp: cancel_key_def wr_progress_def split: option.splits)
qed (auto simp: wr_signal_def notify_dependency_def intro: register_progress cancel_progress notify_progress)

lemma wr_steps_progress: "wr_steps a b \<Longrightarrow> wr_ok a \<Longrightarrow> wr_progress a b"
proof (induction rule: wr_steps.induct)
  case (none a)
  then show ?case by (auto simp: wr_progress_def)
next
  case (more a b c)
  then have ab: "wr_progress a b" and ok: "wr_ok b" by (simp_all add: wr_progress_def)
  from wr_step_progress [OF more.hyps(2) ok] ab show ?case unfolding wr_progress_def by metis
qed

lemma wr_reachable_ok: "wr_reachable rt \<Longrightarrow> wr_ok rt"
  using wr_try_new_ok(1) wr_steps_progress by (fastforce simp: wr_reachable_def wr_progress_def)

lemma wr_reachable_steps: "wr_reachable a \<Longrightarrow> wr_steps a b \<Longrightarrow> wr_reachable b"
proof -
  have "wr_steps c b" if "wr_steps a b" "wr_steps c a" for c a b :: "'a wait_runtime"
    using that by (induction rule: wr_steps.induct) (auto intro: wr_steps.more)
  then show "wr_reachable a \<Longrightarrow> wr_steps a b \<Longrightarrow> wr_reachable b" unfolding wr_reachable_def by blast
qed


section \<open>Delivering notifications\<close>

text \<open>The events of a notification loop, delivered to the runtime that is observer \<open>self\<close>.\<close>

fun deliver :: "observer \<Rightarrow> notification list \<Rightarrow> 'k wait_runtime \<Rightarrow> 'k wait_runtime option" where
  "deliver self [] rt = Some rt"
| "deliver self ((obs, t) # evs) rt =
     (if obs = self then (case wr_signal t rt of None \<Rightarrow> None | Some rt1 \<Rightarrow> deliver self evs rt1) else deliver self evs rt)"

text \<open>The dispatcher's loop: \<open>n\<close> calls of \<^verbatim>\<open>next_wake\<close>.\<close>

fun drain_wakes :: "nat \<Rightarrow> nat \<Rightarrow> 'k wait_runtime \<Rightarrow> ('k wait_wake option list \<times> 'k wait_runtime) option" where
  "drain_wakes 0 now rt = Some ([], rt)"
| "drain_wakes (Suc n) now rt =
     (case next_wake now rt of
        None \<Rightarrow> None
      | Some (w, rt1) \<Rightarrow> map_option (\<lambda>(ws, rt2). (w # ws, rt2)) (drain_wakes n now rt1))"

lemma signal_ok:
  assumes "wr_ok rt"
  shows "\<exists>rt'. wr_signal t rt = Some rt' \<and> wr_ok rt' \<and> waiting rt' = waiting rt \<and>
    rr_token ` set (ready_queue rt') = rr_token ` set (ready_queue rt) \<union> (if waiting rt t \<noteq> None then {t} else {})"
proof -
  obtain r st where "ob_notify t CauseObject (wr_observer rt) = Some (r, st)" "wr_ok (rt\<lparr>wr_observer := st\<rparr>)"
      "(r, wr_abs (rt\<lparr>wr_observer := st\<rparr>)) = spec_notify t CauseObject (wr_abs rt)"
    using notify_spec [OF assms, of CauseObject t] by auto
  then show ?thesis by (auto simp: wr_signal_def spec_notify_def wr_abs_def split: if_splits)
qed

lemma deliver_ok:
  assumes "wr_ok rt"
  shows "\<exists>rt'. deliver self evs rt = Some rt' \<and> wr_ok rt' \<and> waiting rt' = waiting rt \<and>
    rr_token ` set (ready_queue rt') = rr_token ` set (ready_queue rt) \<union> {t. (self, t) \<in> set evs \<and> waiting rt t \<noteq> None}"
  using assms
proof (induction self evs rt rule: deliver.induct)
  case (2 self obs t evs rt)
  show ?case
  proof (cases "obs = self")
    case True
    obtain rt1 where r: "wr_signal t rt = Some rt1" "wr_ok rt1" "waiting rt1 = waiting rt"
        "rr_token ` set (ready_queue rt1) = rr_token ` set (ready_queue rt) \<union> (if waiting rt t \<noteq> None then {t} else {})"
      using signal_ok [OF "2.prems", of t] by blast
    from "2.IH"(1) [OF True r(1,2)] r True show ?thesis by (auto split: if_splits)
  next
    case False
    from "2.IH"(2) [OF False "2.prems"] False show ?thesis by auto
  qed
qed simp

lemma drain_ok:
  assumes "wr_ok rt" "ready_queue rt = q"
  shows "\<exists>rt'. drain_wakes (length q) now rt = Some (map (\<lambda>r. spec_wake (rr_token r) (rr_cause r) (waiting rt)) q, rt') \<and> wr_ok rt' \<and>
    waiting rt' = (waiting rt) |` (- (rr_token ` set q)) \<and> ready_queue rt' = []"
  using assms
proof (induction q arbitrary: rt)
  case (Cons r q)
  obtain rt1 where n: "next_wake now rt = Some (spec_wake (rr_token r) (rr_cause r) (waiting rt), rt1)" "wr_ok rt1"
      "waiting rt1 = (waiting rt)(rr_token r := None)" "ready_queue rt1 = q"
    using next_wake_ready [OF Cons.prems, of now] by (auto simp: wr_abs_def)
  have "rr_token r \<notin> rr_token ` set q" using wr_okD(9) [OF Cons.prems(1)] Cons.prems(2) by simp
  then have mp: "map (\<lambda>r. spec_wake (rr_token r) (rr_cause r) (waiting rt1)) q = map (\<lambda>r. spec_wake (rr_token r) (rr_cause r) (waiting rt)) q"
    unfolding n(3) by (force simp: spec_wake_def image_iff)
  have rs: "(waiting rt)(rr_token r := None) |` (- (rr_token ` set q)) = (waiting rt) |` (- (rr_token ` set (r # q)))"
    by (auto simp: restrict_map_def fun_eq_iff)
  obtain rt' where r': "drain_wakes (length q) now rt1 = Some (map (\<lambda>r. spec_wake (rr_token r) (rr_cause r) (waiting rt1)) q, rt')" "wr_ok rt'"
      "waiting rt' = (waiting rt1) |` (- (rr_token ` set q))" "ready_queue rt' = []"
    using Cons.IH [OF n(2,4)] by blast
  have "waiting rt' = (waiting rt) |` (- (rr_token ` set (r # q)))" using r'(3) unfolding n(3) rs .
  then show ?case using n(1) r'(1,2,4) unfolding mp by auto
qed (simp add: restrict_map_def)


section \<open>Properties\<close>

text \<open>C6: the slot table, the ready queue and the indexed deadline heap implement the abstract wait service. On every
  reachable runtime the calls return without a panic and commute with the abstraction: a notification queues a live token once
  and refuses a stale one; a cancellation removes the wait and its queued notification; \<^verbatim>\<open>next_wake\<close> gives the oldest
  notification, and without one the wait with the least expired (deadline, token), and otherwise nothing.\<close>

theorem wait_runtime_refines_spec:
  assumes "wr_reachable rt"
  shows "(\<exists>w rt'. next_wake now rt = Some (w, rt') \<and> (w, wr_abs rt') = spec_next_wake now (wr_abs rt)) \<and>
    (\<exists>r rt'. wr_cancel t rt = Some (r, rt') \<and> (r, wr_abs rt') = spec_cancel t (wr_abs rt)) \<and>
    (\<exists>rt'. wr_signal t rt = Some rt' \<and> wr_abs rt' = snd (spec_notify t CauseObject (wr_abs rt))) \<and>
    (\<exists>r rt'. notify_dependency t rt = Some (r, rt') \<and> (r, wr_abs rt') = spec_notify t CauseDependency (wr_abs rt))"
proof (intro conjI)
  note ok = wr_reachable_ok [OF assms]
  show "\<exists>w rt'. next_wake now rt = Some (w, rt') \<and> (w, wr_abs rt') = spec_next_wake now (wr_abs rt)"
    using next_wake_spec [OF ok] by blast
  show "\<exists>r rt'. wr_cancel t rt = Some (r, rt') \<and> (r, wr_abs rt') = spec_cancel t (wr_abs rt)"
    using cancel_spec [OF ok] by blast
  show "\<exists>rt'. wr_signal t rt = Some rt' \<and> wr_abs rt' = snd (spec_notify t CauseObject (wr_abs rt))"
  proof -
    obtain r st where n: "ob_notify t CauseObject (wr_observer rt) = Some (r, st)"
        "(r, wr_abs (rt\<lparr>wr_observer := st\<rparr>)) = spec_notify t CauseObject (wr_abs rt)"
      using notify_spec [OF ok, of CauseObject t] by auto
    then show ?thesis by (simp add: wr_signal_def n(2) [symmetric])
  qed
  show "\<exists>r rt'. notify_dependency t rt = Some (r, rt') \<and> (r, wr_abs rt') = spec_notify t CauseDependency (wr_abs rt)"
  proof -
    obtain r st where n: "ob_notify t CauseDependency (wr_observer rt) = Some (r, st)"
        "(r, wr_abs (rt\<lparr>wr_observer := st\<rparr>)) = spec_notify t CauseDependency (wr_abs rt)"
      using notify_spec [OF ok, of CauseDependency t] by auto
    then show ?thesis by (simp add: notify_dependency_def)
  qed
qed

text \<open>C7: a token identifies one wait for good. Registering gives a token that is not in use, never one whose wait is over, and
  fails only when every slot is in use or retired; and a token whose wait was completed or cancelled never becomes valid again,
  whatever is called afterwards, so that a late notification for it cannot reach another thread.\<close>

theorem wait_tokens_are_never_reused:
  assumes "wr_reachable a" "wr_steps a b" "wr_steps b c" "waiting a t \<noteq> None" "waiting b t = None"
  shows "waiting c t = None \<and>
    (\<exists>r c'. wr_register key kind d c = Some (r, c') \<and>
      (case r of
         Inl e \<Rightarrow> e = CapacityReached \<and> c' = c \<and> (\<forall>s \<in> set (wr_slots c). ws_is_active s \<or> ws_retired s)
       | Inr u \<Rightarrow> u \<noteq> t \<and> waiting c u = None \<and> waiting c' = (waiting c)(u \<mapsto> (key, kind, d))))"
proof -
  have b: "wr_ok b" "spent b t" using wr_steps_progress [OF assms(2) wr_reachable_ok [OF assms(1)]] assms(4,5) by (auto simp: wr_progress_def)
  have c: "wr_ok c" "spent c t" using wr_steps_progress [OF assms(3) b(1)] b(2) by (simp_all add: wr_progress_def)
  obtain r c' where r: "wr_register key kind d c = Some (r, c')"
      "case r of Inl e \<Rightarrow> e = CapacityReached \<and> c' = c \<and> (\<forall>s \<in> set (wr_slots c). ws_is_active s \<or> ws_retired s)
       | Inr u \<Rightarrow> waiting c u = None \<and> \<not> spent c u \<and> waiting c' = (waiting c)(u \<mapsto> (key, kind, d))"
    using register_spec [OF c(1), of key kind d] by blast
  show ?thesis using spent_waiting [OF c] r c(2) by (cases r) auto
qed

text \<open>C8: no wake-up is lost between an IPC object and the dispatcher. When an object's signals match a registered waiter, the
  notification loop and the observer put the waiter's token in the ready queue, and draining that queue wakes the thread that
  waits on the token, whatever else was notified.\<close>

theorem signalled_wait_is_delivered:
  assumes "wr_reachable rt" "notify_waiters alive current waiters = (evs, rest)" "\<forall>v \<in> set waiters. \<not> sw_notifying v"
    "w \<in> set waiters" "intersects current (sw_wait_for w)" "alive (sw_observer w)" "waiting rt (sw_token w) = Some (key, kind, d)"
  shows "\<exists>rt1 wakes rt2. deliver (sw_observer w) evs rt = Some rt1 \<and>
    drain_wakes (length (ready_queue rt1)) now rt1 = Some (wakes, rt2) \<and> waiting rt2 (sw_token w) = None \<and>
    (\<exists>wk. Some wk \<in> set wakes \<and> wk_token wk = sw_token w \<and> wk_key wk = key \<and> wk_kind wk = kind \<and> wk_deadline_ns wk = d)"
proof -
  have "(sw_observer w, sw_token w) \<in># mset evs" unfolding notify_waiters_exact(2) [OF assms(2,3)] using assms(4-6) by auto
  then have ev: "(sw_observer w, sw_token w) \<in> set evs" by simp
  obtain rt1 where rt1: "deliver (sw_observer w) evs rt = Some rt1" "wr_ok rt1" "waiting rt1 = waiting rt"
      "sw_token w \<in> rr_token ` set (ready_queue rt1)"
    using deliver_ok [OF wr_reachable_ok [OF assms(1)], of "sw_observer w" evs] ev assms(7) by auto
  obtain r where r: "r \<in> set (ready_queue rt1)" "rr_token r = sw_token w" using rt1(4) by force
  obtain rt2 where rt2: "drain_wakes (length (ready_queue rt1)) now rt1 =
        Some (map (\<lambda>r. spec_wake (rr_token r) (rr_cause r) (waiting rt1)) (ready_queue rt1), rt2)"
      "waiting rt2 = (waiting rt1) |` (- (rr_token ` set (ready_queue rt1)))"
    using drain_ok [OF rt1(2) refl] by blast
  have "spec_wake (rr_token r) (rr_cause r) (waiting rt1) =
      Some \<lparr>wk_token = sw_token w, wk_key = key, wk_kind = kind, wk_cause = rr_cause r, wk_deadline_ns = d\<rparr>"
    using assms(7) rt1(3) r(2) by (simp add: spec_wake_def)
  then have "Some \<lparr>wk_token = sw_token w, wk_key = key, wk_kind = kind, wk_cause = rr_cause r, wk_deadline_ns = d\<rparr>
      \<in> set (map (\<lambda>r. spec_wake (rr_token r) (rr_cause r) (waiting rt1)) (ready_queue rt1))"
    using r(1) by force
  then show ?thesis using rt1(1,4) rt2 by (force simp: restrict_map_def)
qed

section \<open>Witnesses\<close>

definition sample_runtime :: "nat wait_runtime" where
  "sample_runtime = projr (wait_runtime_try_new (\<lambda>_. True) 2)"

definition sample_wait :: "nat wait_runtime" where
  "sample_wait = snd (the (wr_register 10 WaitMany (Some 5) sample_runtime))"

lemma sample_runtime_new: "wait_runtime_try_new (\<lambda>_. True) 2 = Inr sample_runtime"
  by (simp add: sample_runtime_def wait_runtime_try_new_def u32_max_def)

lemma sample_token: "encode_token 0 1 = 4294967297"
  by (simp add: encode_token_eq u32_max_def)

lemma replicate_two: "replicate 2 x = [x, x]"
  by (simp add: numeral_2_eq_2)

lemma sample_register: "wr_register 10 WaitMany (Some 5) sample_runtime = Some (Inr 4294967297, sample_wait)"
  by (simp add: sample_wait_def sample_runtime_def wait_runtime_try_new_def u32_max_def wr_register_def wait_slot_vacant_def ws_is_active_def
      replicate_two sample_token [unfolded One_nat_def] push_deadline_def set_heap_index_def vec_get_def decode_token_eq Let_def sift_deadline_up.simps
      activate_def observer_slot_vacant_def)

lemma sample_waiting: "waiting sample_wait 4294967297 = Some (10, WaitMany, Some 5)"
proof -
  have "wr_ok sample_runtime" by (rule wr_try_new_ok(1) [OF sample_runtime_new])
  from register_spec [OF this, of 10 WaitMany "Some 5"] show ?thesis by (auto simp: sample_register)
qed

lemma sample_wr_steps: "wr_steps sample_runtime sample_wait" "wr_reachable sample_runtime" "wr_reachable sample_wait"
  using wr_steps.more [OF wr_steps.none wr_step.register [OF sample_register]] wr_steps.none sample_runtime_new
  unfolding wr_reachable_def by blast+

theorem wait_runtime_refines_spec_witness:
  "\<exists>w rt'. next_wake 7 sample_wait = Some (w, rt') \<and> (w, wr_abs rt') = spec_next_wake 7 (wr_abs sample_wait)"
  using wait_runtime_refines_spec [OF sample_wr_steps(3), of 7 0] by blast

theorem wait_tokens_are_never_reused_witness:
  "\<exists>b. wr_cancel 4294967297 sample_wait = Some (True, b) \<and> waiting b 4294967297 = None \<and>
     (\<exists>r c. wr_register 11 Join None b = Some (r, c) \<and> r \<noteq> Inr 4294967297)"
proof -
  obtain b where b: "wr_cancel 4294967297 sample_wait = Some (True, b)" "waiting b 4294967297 = None"
    using cancel_spec [OF wr_reachable_ok [OF sample_wr_steps(3)], of 4294967297] sample_waiting by (auto simp: spec_cancel_def wr_abs_def)
  have s: "wr_steps sample_wait b" by (rule wr_steps.more [OF wr_steps.none wr_step.cancel [OF b(1)]])
  have "waiting sample_wait 4294967297 \<noteq> None" by (simp add: sample_waiting)
  from wait_tokens_are_never_reused [OF sample_wr_steps(3) s wr_steps.none this b(2), of 11 Join None]
  obtain r c where r: "wr_register 11 Join None b = Some (r, c)"
      "case r of Inl e \<Rightarrow> e = CapacityReached \<and> c = b \<and> (\<forall>s \<in> set (wr_slots b). ws_is_active s \<or> ws_retired s)
       | Inr u \<Rightarrow> u \<noteq> 4294967297 \<and> waiting b u = None \<and> waiting c = (waiting b)(u \<mapsto> (11, Join, None))"
    by blast
  from r(2) have "r \<noteq> Inr 4294967297" by (cases r) simp_all
  then show ?thesis using b r(1) by blast
qed

definition sample_waiter :: signal_waiter where
  "sample_waiter = \<lparr>sw_token = 4294967297, sw_wait_for = 1, sw_observer = 0, sw_notifying = False\<rparr>"

theorem signalled_wait_is_delivered_witness:
  "\<exists>rt1 wakes rt2. deliver 0 [(0, 4294967297)] sample_wait = Some rt1 \<and>
     drain_wakes (length (ready_queue rt1)) 0 rt1 = Some (wakes, rt2) \<and> (\<exists>wk. Some wk \<in> set wakes \<and> wk_key wk = 10)"
proof -
  have "intersects (1 :: signals) 1" by (simp add: intersects_def)
  then have n: "notify_waiters (\<lambda>_. True) 1 [sample_waiter] = ([(0, 4294967297)], [])"
    by (simp add: notify_waiters_def mark_matching_waiters_def drain_notifying.simps take_notifying_waiter_def swap_remove_def
        notify_one_waiter_def sample_waiter_def)
  show ?thesis
    using signalled_wait_is_delivered [OF sample_wr_steps(3) n, of sample_waiter 10 WaitMany "Some 5" 0] sample_waiting
    by (auto simp: sample_waiter_def intersects_def)
qed

end
