(* ===== verification/Frame_Storage.thy ===== *)
theory Frame_Storage
  imports Frame_Allocator Kernel_Calls
begin

text \<open>
  Frame-backed shared memory, \<^verbatim>\<open>crates/ginkgo-kernel/src/shared_memory.rs\<close>: the arena that owns physical
  frames between the general allocator and the storages, the storage that reads and writes its frames page by page
  through the direct mapping, and the factory that installs a storage as a kernel object.

  Memory is a function from virtual addresses to bytes; a pointer is the address it holds. \<open>va\<close> says which addresses
  \<^verbatim>\<open>VirtAddr::try_new\<close> of the x86\_64 crate accepts. The outer option is a panic. The arena lock is held for each whole
  operation and the access lock for each whole copy, so that both are steps.
\<close>

section \<open>Errors and the arena\<close>

datatype frame_shared_memory_error =
  InvalidSize | FsmOutOfMemory | FsmFrameAllocator frame_allocator_error | InvalidHhdmAddress nat | InvalidHhdmAlignment nat

fun fsm_ipc_error :: "frame_shared_memory_error \<Rightarrow> ipc_error" where
  "fsm_ipc_error InvalidSize = InvalidMessage"
| "fsm_ipc_error (InvalidHhdmAddress _) = InvalidMessage"
| "fsm_ipc_error (InvalidHhdmAlignment _) = InvalidMessage"
| "fsm_ipc_error FsmOutOfMemory = OutOfMemory"
| "fsm_ipc_error (FsmFrameAllocator _) = OutOfMemory"

record shared_frame_arena_stats =
  as_owned_frames :: nat
  as_free_frames :: nat
  as_returned_frames :: nat
  as_reclaimed_frames :: nat
  as_reclaim_failures :: nat
  as_last_reclaim_error :: "frame_allocator_error option"

text \<open>\<open>ar_capacity\<close> is the capacity the vector of idle frames is guaranteed to have.\<close>

record shared_frame_arena =
  ar_free :: "nat list"
  ar_capacity :: nat
  ar_owned_frames :: nat
  ar_returned_frames :: nat
  ar_reclaimed_frames :: nat
  ar_reclaim_failures :: nat
  ar_last_reclaim_error :: "frame_allocator_error option"

type_synonym 'a fsm = "frame_shared_memory_error + 'a"

definition arena_new :: "allocs \<Rightarrow> shared_frame_arena fsm" where
  "arena_new al =
     (if al 0 then Inr \<lparr>ar_free = [], ar_capacity = 0, ar_owned_frames = 0, ar_returned_frames = 0, ar_reclaimed_frames = 0,
                        ar_reclaim_failures = 0, ar_last_reclaim_error = None\<rparr>
      else Inl FsmOutOfMemory)"

definition arena_stats :: "shared_frame_arena \<Rightarrow> shared_frame_arena_stats" where
  "arena_stats ar =
     \<lparr>as_owned_frames = ar_owned_frames ar, as_free_frames = length (ar_free ar), as_returned_frames = ar_returned_frames ar,
      as_reclaimed_frames = ar_reclaimed_frames ar, as_reclaim_failures = ar_reclaim_failures ar,
      as_last_reclaim_error = ar_last_reclaim_error ar\<rparr>"

definition reclaim_idle ::
  "shared_frame_arena \<Rightarrow> frame_allocator \<Rightarrow> (nat fa \<times> shared_frame_arena \<times> frame_allocator) option" where
  "reclaim_idle ar a =
     (if ar_free ar = [] then Some (Inr 0, ar, a)
      else
        case deallocate_frames (ar_free ar) a of
          None \<Rightarrow> None
        | Some (Inl e, a') \<Rightarrow>
            Some (Inl e, ar\<lparr>ar_reclaim_failures := saturating_add (ar_reclaim_failures ar) 1, ar_last_reclaim_error := Some e\<rparr>, a')
        | Some (Inr _, a') \<Rightarrow>
            let reclaimed = length (ar_free ar)
            in if ar_owned_frames ar < reclaimed then None
               else Some (Inr reclaimed,
                 ar\<lparr>ar_free := [], ar_owned_frames := ar_owned_frames ar - reclaimed,
                    ar_reclaimed_frames := saturating_add (ar_reclaimed_frames ar) reclaimed, ar_last_reclaim_error := None\<rparr>, a'))"

definition return_frames :: "nat list \<Rightarrow> bool \<Rightarrow> shared_frame_arena \<Rightarrow> shared_frame_arena option" where
  "return_frames frames count_return ar =
     (if length (ar_free ar) + length frames > ar_capacity ar then None
      else Some (ar\<lparr>ar_free := ar_free ar @ frames,
                    ar_returned_frames := (if count_return then saturating_add (ar_returned_frames ar) (length frames)
                                           else ar_returned_frames ar)\<rparr>))"

definition rollback_acquire ::
  "nat list \<Rightarrow> nat \<Rightarrow> shared_frame_arena \<Rightarrow> frame_allocator \<Rightarrow> (unit fsm \<times> shared_frame_arena \<times> frame_allocator) option" where
  "rollback_acquire frames reused ar a =
     (if length frames > reused then
        case deallocate_frames (drop reused frames) a of
          None \<Rightarrow> None
        | Some (Inl e, a') \<Rightarrow>
            (case checked_add (ar_owned_frames ar) (length frames - reused) of
               None \<Rightarrow> None
             | Some owned_frames \<Rightarrow>
                 map_option (\<lambda>ar'. (Inl (FsmFrameAllocator e), ar', a')) (return_frames frames False (ar\<lparr>ar_owned_frames := owned_frames\<rparr>)))
        | Some (Inr _, a') \<Rightarrow> map_option (\<lambda>ar'. (Inr (), ar', a')) (return_frames (take reused frames) False ar)
      else map_option (\<lambda>ar'. (Inr (), ar', a)) (return_frames frames False ar))"

text \<open>The first loop of \<^verbatim>\<open>acquire\<close> pops idle frames, the second takes fresh ones from the allocator.\<close>

fun pop_frames :: "nat \<Rightarrow> nat list \<Rightarrow> nat list \<Rightarrow> (nat list \<times> nat list) option" where
  "pop_frames 0 frames free = Some (frames, free)"
| "pop_frames (Suc n) frames free = (if free = [] then None else pop_frames n (frames @ [last free]) (butlast free))"

fun acquire_fresh ::
  "phys_api \<Rightarrow> (nat \<Rightarrow> allocs) \<Rightarrow> nat \<Rightarrow> nat list \<Rightarrow> frame_allocator \<Rightarrow>
   (frame_shared_memory_error option \<times> nat list \<times> frame_allocator) option" where
  "acquire_fresh api fal 0 frames a = Some (None, frames, a)"
| "acquire_fresh api fal (Suc n) frames a =
     (case allocate_frame api (fal n) a of
        None \<Rightarrow> None
      | Some (Inr (Some frame), a') \<Rightarrow> acquire_fresh api fal n (frames @ [frame]) a'
      | Some (Inr None, a') \<Rightarrow> Some (Some FsmOutOfMemory, frames, a')
      | Some (Inl e, a') \<Rightarrow> Some (Some (FsmFrameAllocator e), frames, a'))"

definition acquire ::
  "phys_api \<Rightarrow> allocs \<Rightarrow> (nat \<Rightarrow> allocs) \<Rightarrow> nat \<Rightarrow> shared_frame_arena \<Rightarrow> frame_allocator \<Rightarrow>
   (nat list fsm \<times> shared_frame_arena \<times> frame_allocator) option" where
  "acquire api al fal page_count ar a =
     (if \<not> al 0 then Some (Inl FsmOutOfMemory, ar, a)
      else
        let fresh_needed = page_count - length (ar_free ar)
        in case checked_add (ar_owned_frames ar) fresh_needed of
             None \<Rightarrow> Some (Inl InvalidSize, ar, a)
           | Some target_capacity \<Rightarrow>
               let additional = target_capacity - length (ar_free ar)
               in if ar_capacity ar - length (ar_free ar) < additional \<and> \<not> al 1 then Some (Inl FsmOutOfMemory, ar, a)
                  else
                    let ar1 = ar\<lparr>ar_capacity := max (ar_capacity ar) (length (ar_free ar) + additional)\<rparr>;
                        reused = min page_count (length (ar_free ar))
                    in case pop_frames reused [] (ar_free ar1) of
                         None \<Rightarrow> None
                       | Some (popped, free) \<Rightarrow>
                           let ar2 = ar1\<lparr>ar_free := free\<rparr>
                           in case acquire_fresh api fal (page_count - length popped) popped a of
                                None \<Rightarrow> None
                              | Some (Some allocation_error, frames, a') \<Rightarrow>
                                  (case rollback_acquire frames reused ar2 a' of
                                     None \<Rightarrow> None
                                   | Some (Inl rollback_error, ar3, a'') \<Rightarrow> Some (Inl rollback_error, ar3, a'')
                                   | Some (Inr _, ar3, a'') \<Rightarrow> Some (Inl allocation_error, ar3, a''))
                              | Some (None, frames, a') \<Rightarrow>
                                  (case checked_add (ar_owned_frames ar2) (page_count - reused) of
                                     None \<Rightarrow> None
                                   | Some owned_frames \<Rightarrow> Some (Inr frames, ar2\<lparr>ar_owned_frames := owned_frames\<rparr>, a')))"

section \<open>Storage\<close>

type_synonym memory = "nat \<Rightarrow> u8"

definition mem_read :: "memory \<Rightarrow> nat \<Rightarrow> nat \<Rightarrow> u8 list" where
  "mem_read mem address n = map mem [address..<address + n]"

definition mem_write :: "memory \<Rightarrow> nat \<Rightarrow> u8 list \<Rightarrow> memory" where
  "mem_write mem address bytes x = (if address \<le> x \<and> x < address + length bytes then bytes ! (x - address) else mem x)"

definition frame_pointer :: "(nat \<Rightarrow> bool) \<Rightarrow> nat \<Rightarrow> nat \<Rightarrow> nat fsm" where
  "frame_pointer va frame hhdm_offset =
     (case checked_add hhdm_offset frame of
        None \<Rightarrow> Inl (InvalidHhdmAddress frame)
      | Some address \<Rightarrow>
          case checked_add address (PAGE_SIZE - 1) of
            None \<Rightarrow> Inl (InvalidHhdmAddress address)
          | Some final_byte \<Rightarrow>
              if \<not> va address then Inl (InvalidHhdmAddress address)
              else if \<not> va final_byte then Inl (InvalidHhdmAddress final_byte)
              else Inr address)"

fun zero_frames :: "(nat \<Rightarrow> bool) \<Rightarrow> nat \<Rightarrow> nat list \<Rightarrow> memory \<Rightarrow> unit fsm \<times> memory" where
  "zero_frames va hhdm_offset [] mem = (Inr (), mem)"
| "zero_frames va hhdm_offset (frame # rest) mem =
     (case frame_pointer va frame hhdm_offset of
        Inl e \<Rightarrow> (Inl e, mem)
      | Inr page \<Rightarrow> zero_frames va hhdm_offset rest (mem_write mem page (replicate PAGE_SIZE 0)))"

record frame_storage =
  fs_frames :: "nat list"
  fs_logical_len :: nat
  fs_mapped_len :: nat
  fs_hhdm_offset :: nat

definition frame_range :: "nat \<Rightarrow> nat \<Rightarrow> nat \<Rightarrow> unit ipc" where
  "frame_range offset len logical_len =
     (case checked_add offset len of
        None \<Rightarrow> Inl InvalidMessage
      | Some end_offset \<Rightarrow> if end_offset > logical_len then Inl InvalidMessage else Inr ())"

text \<open>\<^verbatim>\<open>Drop\<close>: the frames go back to the arena.\<close>

definition storage_drop :: "frame_storage \<Rightarrow> shared_frame_arena \<Rightarrow> shared_frame_arena option" where
  "storage_drop s ar = return_frames (fs_frames s) True ar"

text \<open>\<^verbatim>\<open>FrameSharedMemoryStorage::create\<close>. A failed \<^verbatim>\<open>Arc\<close> allocation drops the storage it was given.\<close>

definition storage_create ::
  "phys_api \<Rightarrow> (nat \<Rightarrow> bool) \<Rightarrow> allocs \<Rightarrow> (nat \<Rightarrow> allocs) \<Rightarrow> nat \<Rightarrow> nat \<Rightarrow> shared_frame_arena \<Rightarrow> frame_allocator \<Rightarrow> memory \<Rightarrow>
   (frame_storage fsm \<times> shared_frame_arena \<times> frame_allocator \<times> memory) option" where
  "storage_create api va al fal logical_len hhdm_offset ar a mem =
     (if logical_len = 0 then Some (Inl InvalidSize, ar, a, mem)
      else
        case checked_add logical_len (PAGE_SIZE - 1) of
          None \<Rightarrow> Some (Inl InvalidSize, ar, a, mem)
        | Some rounded \<Rightarrow>
            let mapped_len = rounded - rounded mod PAGE_SIZE;
                page_count = mapped_len div PAGE_SIZE
            in case acquire api al fal page_count ar a of
                 None \<Rightarrow> None
               | Some (Inl e, ar', a') \<Rightarrow> Some (Inl e, ar', a', mem)
               | Some (Inr frames, ar', a') \<Rightarrow>
                   (case zero_frames va hhdm_offset frames mem of
                      (Inl e, mem') \<Rightarrow> map_option (\<lambda>ar''. (Inl e, ar'', a', mem')) (return_frames frames False ar')
                    | (Inr _, mem') \<Rightarrow>
                        let s = \<lparr>fs_frames = frames, fs_logical_len = logical_len, fs_mapped_len = mapped_len,
                                 fs_hhdm_offset = hhdm_offset\<rparr>
                        in if al 2 then Some (Inr s, ar', a', mem')
                           else map_option (\<lambda>ar''. (Inl FsmOutOfMemory, ar'', a', mem')) (storage_drop s ar')))"

definition fs_physical_page :: "frame_storage \<Rightarrow> nat \<Rightarrow> nat option" where
  "fs_physical_page s page_index = vec_get (fs_frames s) page_index"

text \<open>The loop of \<^verbatim>\<open>copy_out\<close> fills \<open>output\<close> from position \<open>copied\<close> on; an index past the frames is a panic.\<close>

function copy_out_loop ::
  "(nat \<Rightarrow> bool) \<Rightarrow> frame_storage \<Rightarrow> memory \<Rightarrow> nat \<Rightarrow> nat \<Rightarrow> u8 list \<Rightarrow> (unit ipc \<times> u8 list) option" where
  "copy_out_loop va s mem offset copied output =
     (if copied < length output then
        let absolute = offset + copied;
            in_page = absolute mod PAGE_SIZE;
            n = min (PAGE_SIZE - in_page) (length output - copied)
        in case vec_get (fs_frames s) (absolute div PAGE_SIZE) of
             None \<Rightarrow> None
           | Some frame \<Rightarrow>
               (case frame_pointer va frame (fs_hhdm_offset s) of
                  Inl _ \<Rightarrow> Some (Inl InvalidMessage, output)
                | Inr page \<Rightarrow>
                    copy_out_loop va s mem offset (copied + n)
                      (take copied output @ mem_read mem (page + in_page) n @ drop (copied + n) output))
      else Some (Inr (), output))"
  by auto
termination
  by (relation "measure (\<lambda>(va, s, mem, offset, copied, output). length output - copied)")
    (auto simp: Let_def mem_read_def PAGE_SIZE_def)

definition copy_out :: "(nat \<Rightarrow> bool) \<Rightarrow> frame_storage \<Rightarrow> memory \<Rightarrow> nat \<Rightarrow> u8 list \<Rightarrow> (unit ipc \<times> u8 list) option" where
  "copy_out va s mem offset output =
     (case frame_range offset (length output) (fs_logical_len s) of
        Inl e \<Rightarrow> Some (Inl e, output)
      | Inr _ \<Rightarrow> copy_out_loop va s mem offset 0 output)"

function copy_in_loop ::
  "(nat \<Rightarrow> bool) \<Rightarrow> frame_storage \<Rightarrow> nat \<Rightarrow> u8 list \<Rightarrow> nat \<Rightarrow> memory \<Rightarrow> (unit ipc \<times> memory) option" where
  "copy_in_loop va s offset input copied mem =
     (if copied < length input then
        let absolute = offset + copied;
            in_page = absolute mod PAGE_SIZE;
            n = min (PAGE_SIZE - in_page) (length input - copied)
        in case vec_get (fs_frames s) (absolute div PAGE_SIZE) of
             None \<Rightarrow> None
           | Some frame \<Rightarrow>
               (case frame_pointer va frame (fs_hhdm_offset s) of
                  Inl _ \<Rightarrow> Some (Inl InvalidMessage, mem)
                | Inr page \<Rightarrow>
                    copy_in_loop va s offset input (copied + n) (mem_write mem (page + in_page) (take n (drop copied input))))
      else Some (Inr (), mem))"
  by auto
termination
  by (relation "measure (\<lambda>(va, s, offset, input, copied, mem). length input - copied)") (auto simp: Let_def PAGE_SIZE_def)

definition copy_in :: "(nat \<Rightarrow> bool) \<Rightarrow> frame_storage \<Rightarrow> nat \<Rightarrow> u8 list \<Rightarrow> memory \<Rightarrow> (unit ipc \<times> memory) option" where
  "copy_in va s offset input mem =
     (case frame_range offset (length input) (fs_logical_len s) of
        Inl e \<Rightarrow> Some (Inl e, mem)
      | Inr _ \<Rightarrow> copy_in_loop va s offset input 0 mem)"

declare copy_out_loop.simps [simp del] copy_in_loop.simps [simp del]

section \<open>Arena ownership\<close>

text \<open>
  The arena owns its idle frames and the frames handed out to storages (\<open>outs\<close>): all different, all live in the allocator,
  counted by \<open>ar_owned_frames\<close>, and never more than the idle vector can take back.
\<close>

definition arena_ok :: "nat list \<Rightarrow> shared_frame_arena \<Rightarrow> frame_allocator \<Rightarrow> bool" where
  "arena_ok outs ar a \<longleftrightarrow>
     fa_ok a \<and> distinct (ar_free ar @ outs) \<and> set (ar_free ar @ outs) \<subseteq> live_frames a \<and>
     ar_owned_frames ar = length (ar_free ar @ outs) \<and> length (ar_free ar @ outs) \<le> ar_capacity ar"

text \<open>The live frames of everyone else.\<close>

definition foreign :: "nat list \<Rightarrow> shared_frame_arena \<Rightarrow> frame_allocator \<Rightarrow> nat set" where
  "foreign outs ar a = live_frames a - set (ar_free ar @ outs)"

lemma arena_new_ok: "fa_ok a \<Longrightarrow> arena_new al = Inr ar \<Longrightarrow> arena_ok [] ar a"
  by (auto simp: arena_new_def arena_ok_def split: if_splits)

lemma pop_frames_spec:
  "n \<le> length free \<Longrightarrow> pop_frames n frames free = Some (frames @ take n (rev free), take (length free - n) free)"
proof (induction n arbitrary: frames free)
  case (Suc n)
  then obtain fs f where f: "free = fs @ [f]" by (cases free rule: rev_cases) auto
  with Suc show ?case by simp
qed simp

lemma acquire_fresh_spec:
  assumes "fa_ok a" "phys_api_ok api"
  shows "\<exists>r new a'. acquire_fresh api fal n frames a = Some (r, frames @ new, a') \<and> fa_ok a' \<and> kept a a' \<and>
    reserved_frames a' = reserved_frames a \<and> distinct new \<and> set new \<inter> live_frames a = {} \<and>
    live_frames a' = live_frames a \<union> set new \<and> (r = None \<longrightarrow> length new = n)"
  using assms(1)
proof (induction n arbitrary: frames a)
  case (Suc n)
  obtain r b where b: "allocate_frame api (fal n) a = Some (r, b)" "fa_ok b" "kept a b" "hands_out (fal n) False (\<lambda>_. True) a r b"
    using allocate_frame_spec [OF Suc.prems assms(2)] by blast
  show ?case
  proof (cases "\<exists>f. r = Inr (Some f)")
    case True
    then obtain f where f: "r = Inr (Some f)" by blast
    obtain r' new a' where IH: "acquire_fresh api fal n (frames @ [f]) b = Some (r', (frames @ [f]) @ new, a')" "fa_ok a'" "kept b a'"
        "reserved_frames a' = reserved_frames b" "distinct new" "set new \<inter> live_frames b = {}"
        "live_frames a' = live_frames b \<union> set new" "r' = None \<longrightarrow> length new = n"
      using Suc.IH [OF b(2), of "frames @ [f]"] by blast
    have "f \<notin> live_frames a" "live_frames b = insert f (live_frames a)" "reserved_frames b = reserved_frames a"
      using b(4) by (simp_all add: hands_out_def f)
    then show ?thesis using IH b(1) kept_trans [OF b(3) IH(3)] by (intro exI [of _ r'] exI [of _ "f # new"] exI [of _ a']) (auto simp: f)
  next
    case False
    then have "acquire_fresh api fal (Suc n) frames a = Some (Some (case r of Inl e \<Rightarrow> FsmFrameAllocator e | _ \<Rightarrow> FsmOutOfMemory), frames @ [], b)"
      using b(1) by (auto split: sum.splits option.splits)
    moreover have "live_frames b = live_frames a" "reserved_frames b = reserved_frames a"
      using b(4) False by (auto simp: hands_out_def split: sum.splits option.splits)
    ultimately show ?thesis using b(2,3) by (intro exI [of _ "[]"] exI) auto
  qed
qed simp

lemma return_frames_ok:
  assumes "arena_ok (outs @ fs) ar a"
  shows "\<exists>ar'. return_frames fs c ar = Some ar' \<and> arena_ok outs ar' a \<and> foreign outs ar' a = foreign (outs @ fs) ar a \<and>
    ar_free ar' = ar_free ar @ fs"
  using assms by (auto simp: return_frames_def arena_ok_def foreign_def)

lemma rollback_ok:
  assumes "fa_ok a" "distinct new" "set new \<subseteq> live_frames a" "length (ar_free ar) + length old \<le> ar_capacity ar"
  shows "\<exists>a'. rollback_acquire (old @ new) (length old) ar a = Some (Inr (), ar\<lparr>ar_free := ar_free ar @ old\<rparr>, a') \<and> fa_ok a' \<and>
    kept a a' \<and> reserved_frames a' = reserved_frames a \<and> live_frames a' = live_frames a - set new"
proof (cases "new = []")
  case False
  obtain a' where "deallocate_frames new a = Some (Inr (), a')" "fa_ok a'" "kept a a'" "reserved_frames a' = reserved_frames a"
      "live_frames a' = live_frames a - set new"
    using deallocate_frames_ok [OF assms(1), of new] assms(2,3) by auto
  then show ?thesis using assms(4) False by (auto simp: rollback_acquire_def return_frames_def)
qed (use assms in \<open>auto simp: rollback_acquire_def return_frames_def\<close>)

lemma acquire_run:
  fixes ar n
  defines "k \<equiv> min n (length (ar_free ar))"
  defines "t \<equiv> ar_owned_frames ar + (n - length (ar_free ar))"
  defines "ar2 \<equiv> ar\<lparr>ar_capacity := max (ar_capacity ar) (length (ar_free ar) + (t - length (ar_free ar))),
                   ar_free := take (length (ar_free ar) - k) (ar_free ar)\<rparr>"
  assumes "al 0" "t \<le> u64_max" "ar_capacity ar - length (ar_free ar) < t - length (ar_free ar) \<longrightarrow> al 1"
    and f: "acquire_fresh api fal (n - k) (take k (rev (ar_free ar))) a = Some (r, fs, a')"
  shows "acquire api al fal n ar a =
    (case r of
       None \<Rightarrow> Some (Inr fs, ar2\<lparr>ar_owned_frames := t\<rparr>, a')
     | Some e \<Rightarrow> map_option (\<lambda>(q, ar3, a''). (Inl (case q of Inl e' \<Rightarrow> e' | Inr _ \<Rightarrow> e), ar3, a'')) (rollback_acquire fs k ar2 a'))"
proof -
  have t: "checked_add (ar_owned_frames ar) (n - length (ar_free ar)) = Some t" "n - k = n - length (ar_free ar)"
    using assms(5) by (simp_all add: t_def k_def min_def)
  have p: "pop_frames k [] (ar_free ar) = Some (take k (rev (ar_free ar)), take (length (ar_free ar) - k) (ar_free ar))"
    by (simp add: pop_frames_spec k_def)
  have l: "length (take k (rev (ar_free ar))) = k" by (simp add: k_def)
  have g: "\<not> (ar_capacity ar - length (ar_free ar) < t - length (ar_free ar) \<and> \<not> al 1)" using assms(6) by simp
  show ?thesis
    unfolding acquire_def Let_def t(1) option.case k_def [symmetric]
    using assms(4) g p l f t by (auto simp: ar2_def split: option.splits sum.splits)
qed

text \<open>Taking \<open>old\<close> from the idle frames and \<open>new\<close> from the allocator moves frames, and loses none.\<close>

lemma arena_ok_take:
  assumes ok: "arena_ok outs ar a" and m: "mset (rest @ old) = mset (ar_free ar)" and "fa_ok a'" "distinct new"
    "set new \<inter> live_frames a = {}" "live_frames a' = live_frames a \<union> set new"
    "ar_free ar' = rest" "ar_owned_frames ar' = ar_owned_frames ar + length new" "ar_owned_frames ar' \<le> ar_capacity ar'"
  shows "arena_ok (outs @ old @ new) ar' a'" "foreign (outs @ old @ new) ar' a' = foreign outs ar a"
proof -
  note ok = ok [unfolded arena_ok_def] and len = mset_eq_length [OF m] and st = mset_eq_setD [OF m]
  have "distinct (rest @ old)" using ok mset_eq_imp_distinct_iff [OF m] by simp
  then have "distinct (rest @ outs @ old @ new)" using ok st assms(4,5) by auto
  then show "arena_ok (outs @ old @ new) ar' a'"
    using ok st len assms(3,6-9) by (auto simp: arena_ok_def)
  show "foreign (outs @ old @ new) ar' a' = foreign outs ar a"
    using ok st assms(5-7) by (auto simp: foreign_def)
qed

lemma acquire_spec:
  assumes "arena_ok outs ar a" "phys_api_ok api"
  shows "\<exists>r ar' a'. acquire api al fal n ar a = Some (r, ar', a') \<and> kept a a' \<and> reserved_frames a' = reserved_frames a \<and>
    (case r of
       Inl e \<Rightarrow> arena_ok outs ar' a' \<and> foreign outs ar' a' = foreign outs ar a \<and> set (ar_free ar') = set (ar_free ar)
     | Inr fs \<Rightarrow> length fs = n \<and> arena_ok (outs @ fs) ar' a' \<and> foreign (outs @ fs) ar' a' = foreign outs ar a)"
proof -
  let ?free = "ar_free ar" and ?k = "min n (length (ar_free ar))"
  let ?t = "ar_owned_frames ar + (n - length ?free)"
  let ?ar1 = "ar\<lparr>ar_capacity := max (ar_capacity ar) (length ?free + (?t - length ?free))\<rparr>"
  let ?old = "take ?k (rev ?free)" and ?rest = "take (length ?free - ?k) ?free"
  note ok = assms(1) [unfolded arena_ok_def]
  have split: "mset ?free = mset ?rest + mset ?old"
    by (metis append_take_drop_id drop_rev mset_append mset_rev rev_rev_ident add.commute length_rev rev_take)
  show ?thesis
  proof (cases "al 0 \<and> ?t \<le> u64_max \<and> (ar_capacity ar - length ?free < ?t - length ?free \<longrightarrow> al 1)")
    case False
    then show ?thesis using assms(1) by (auto simp: acquire_def Let_def split: option.splits)
  next
    case True
    obtain r new a' where f: "acquire_fresh api fal (n - ?k) ?old a = Some (r, ?old @ new, a')" "fa_ok a'" "kept a a'"
        "reserved_frames a' = reserved_frames a" "distinct new" "set new \<inter> live_frames a = {}"
        "live_frames a' = live_frames a \<union> set new" "r = None \<longrightarrow> length new = n - ?k"
      using acquire_fresh_spec [of a api fal "n - ?k" ?old] assms(2) ok by blast
    have m: "mset (?rest @ ?old) = mset ?free" using split by simp
    note len = mset_eq_length [OF m] and st = mset_eq_setD [OF m]
    have k: "length ?old = ?k" by simp
    let ?ar2 = "?ar1\<lparr>ar_free := ?rest\<rparr>"
    note run = acquire_run [of al ar n, OF _ _ _ f(1)]
    show ?thesis
    proof (cases r)
      case None
      then have "acquire api al fal n ar a = Some (Inr (?old @ new), ?ar2\<lparr>ar_owned_frames := ?t\<rparr>, a')"
        using run True by simp
      moreover have "length (?old @ new) = n" using f(8) None by simp
      moreover note arena_ok_take [OF assms(1) m f(2,5-7), of "?ar2\<lparr>ar_owned_frames := ?t\<rparr>"]
      moreover have "?t = ar_owned_frames ar + length new" using f(8) None by (simp add: min_def)
      ultimately show ?thesis using f(3,4) by auto
    next
      case (Some e)
      let ?ar3 = "?ar2\<lparr>ar_free := ?rest @ ?old\<rparr>"
      have new: "set new \<subseteq> live_frames a'" using f(7) by simp
      have cap: "length (ar_free ?ar2) + length ?old \<le> ar_capacity ?ar2" using len by simp
      obtain a'' where b: "rollback_acquire (?old @ new) (length ?old) ?ar2 a' = Some (Inr (), ?ar3, a'')"
          "fa_ok a''" "kept a' a''" "reserved_frames a'' = reserved_frames a'" "live_frames a'' = live_frames a' - set new"
        using rollback_ok [OF f(2,5) new cap] by fastforce
      then have "acquire api al fal n ar a = Some (Inl e, ?ar3, a'')" using run True Some k by simp
      moreover have "live_frames a'' = live_frames a" using b(5) f(6,7) by auto
      moreover have "distinct (?rest @ ?old)" using ok mset_eq_imp_distinct_iff [OF m] by simp
      then have "arena_ok outs ?ar3 a''" using ok b(2) calculation(2) len st by (auto simp: arena_ok_def)
      ultimately show ?thesis using b(4) f(4) st kept_trans [OF f(3) b(3)] by (auto simp: foreign_def)
    qed
  qed
qed

section \<open>Pages of a storage\<close>

definition byte_address :: "frame_storage \<Rightarrow> nat \<Rightarrow> nat" where
  "byte_address s k = fs_hhdm_offset s + fs_frames s ! (k div PAGE_SIZE) + k mod PAGE_SIZE"

definition storage_bytes :: "memory \<Rightarrow> frame_storage \<Rightarrow> u8 list" where
  "storage_bytes mem s = map (\<lambda>k. mem (byte_address s k)) [0..<fs_logical_len s]"

text \<open>The storage as the kernel object sees it: a byte array with a page list.\<close>

definition storage_of :: "memory \<Rightarrow> frame_storage \<Rightarrow> storage" where
  "storage_of mem s = \<lparr>st_bytes = storage_bytes mem s, st_mapped_len = fs_mapped_len s, st_physical_page = fs_physical_page s\<rparr>"

definition fstorage_ok :: "(nat \<Rightarrow> bool) \<Rightarrow> frame_storage \<Rightarrow> bool" where
  "fstorage_ok va s \<longleftrightarrow>
     0 < fs_logical_len s \<and> fs_logical_len s + (PAGE_SIZE - 1) \<le> u64_max \<and>
     fs_mapped_len s = (fs_logical_len s + (PAGE_SIZE - 1)) div PAGE_SIZE * PAGE_SIZE \<and>
     length (fs_frames s) * PAGE_SIZE = fs_mapped_len s \<and> distinct (fs_frames s) \<and>
     (\<forall>f \<in> set (fs_frames s). PAGE_SIZE dvd f \<and> frame_pointer va f (fs_hhdm_offset s) = Inr (fs_hhdm_offset s + f))"

lemma PAGE_SIZE_pos [simp]: "0 < PAGE_SIZE" "PAGE_SIZE \<noteq> 0"
  by (simp_all add: PAGE_SIZE_def)

lemma length_storage_bytes [simp]: "length (storage_bytes mem s) = fs_logical_len s"
  by (simp add: storage_bytes_def)

lemma length_mem_read [simp]: "length (mem_read mem x n) = n"
  by (simp add: mem_read_def)

lemma map_upt_split: "i \<le> j \<Longrightarrow> j \<le> k \<Longrightarrow> map f [i..<k] = map f [i..<j] @ map f [j..<k]"
  by (metis le_Suc_ex map_append upt_add_eq_append)

lemma frame_pointer_Inr: "frame_pointer va f h = Inr p \<Longrightarrow> p = h + f"
  by (auto simp: frame_pointer_def split: option.splits if_splits)

lemma page_offset_inj:
  assumes "PAGE_SIZE dvd f" "PAGE_SIZE dvd g" "i < PAGE_SIZE" "j < PAGE_SIZE" "f + i = g + j"
  shows "f = g" "i = j"
proof -
  have "(f + i) mod PAGE_SIZE = i" "(g + j) mod PAGE_SIZE = j" using assms(1-4) by (auto elim!: dvdE)
  then show "i = j" using assms(5) by simp
  then show "f = g" using assms(5) by simp
qed

lemma page_index:
  assumes "fstorage_ok va s" "k < fs_logical_len s"
  shows "k div PAGE_SIZE < length (fs_frames s)"
proof -
  have "k < length (fs_frames s) * PAGE_SIZE"
    using assms dividend_less_div_times [of PAGE_SIZE "fs_logical_len s + (PAGE_SIZE - 1)"]
    by (simp add: fstorage_ok_def)
  then show ?thesis by (simp add: less_mult_imp_div_less)
qed

lemma page_lookup:
  assumes "fstorage_ok va s" "k < fs_logical_len s"
  shows "vec_get (fs_frames s) (k div PAGE_SIZE) = Some (fs_frames s ! (k div PAGE_SIZE))"
    "frame_pointer va (fs_frames s ! (k div PAGE_SIZE)) (fs_hhdm_offset s) = Inr (fs_hhdm_offset s + fs_frames s ! (k div PAGE_SIZE))"
    "PAGE_SIZE dvd fs_frames s ! (k div PAGE_SIZE)"
  using page_index [OF assms] assms(1) by (auto simp: fstorage_ok_def vec_get_def)

lemma byte_address_inj:
  assumes "fstorage_ok va s" "j < fs_logical_len s" "k < fs_logical_len s" "byte_address s j = byte_address s k"
  shows "j = k"
proof -
  have "fs_frames s ! (j div PAGE_SIZE) = fs_frames s ! (k div PAGE_SIZE)" "j mod PAGE_SIZE = k mod PAGE_SIZE"
    using page_offset_inj [OF page_lookup(3) [OF assms(1,2)] page_lookup(3) [OF assms(1,3)], of "j mod PAGE_SIZE" "k mod PAGE_SIZE"] assms(4)
    by (simp_all add: byte_address_def)
  then have "j div PAGE_SIZE = k div PAGE_SIZE" "j mod PAGE_SIZE = k mod PAGE_SIZE"
    using page_index [OF assms(1,2)] page_index [OF assms(1,3)] assms(1) by (simp_all add: fstorage_ok_def nth_eq_iff_index_eq)
  then show ?thesis by (metis div_mult_mod_eq)
qed

lemma byte_address_chunk:
  assumes "j < PAGE_SIZE - k mod PAGE_SIZE"
  shows "byte_address s (k + j) = byte_address s k + j"
proof -
  have "k + j = k div PAGE_SIZE * PAGE_SIZE + (k mod PAGE_SIZE + j)" by simp
  moreover have "k mod PAGE_SIZE + j < PAGE_SIZE" using assms by simp
  ultimately have "(k + j) div PAGE_SIZE = k div PAGE_SIZE" "(k + j) mod PAGE_SIZE = k mod PAGE_SIZE + j"
    by (metis PAGE_SIZE_pos(2) add.commute div_less div_mult_self3 add.right_neutral, metis mod_less mod_mult_self3)
  then show ?thesis by (simp add: byte_address_def)
qed

lemma mem_read_chunk:
  assumes "n \<le> PAGE_SIZE - k mod PAGE_SIZE"
  shows "mem_read mem (byte_address s k) n = map (\<lambda>k. mem (byte_address s k)) [k..<k + n]"
  using assms by (auto simp: mem_read_def list_eq_iff_nth_eq byte_address_chunk)

lemma copy_out_loop_spec:
  assumes "fstorage_ok va s" "offset + length xs \<le> fs_logical_len s" "copied \<le> length xs"
  shows "copy_out_loop va s mem offset copied xs =
    Some (Inr (), take copied xs @ map (\<lambda>k. mem (byte_address s k)) [offset + copied..<offset + length xs])"
  using assms
proof (induction va s mem offset copied xs rule: copy_out_loop.induct)
  case (1 va s mem offset copied xs)
  show ?case
  proof (cases "copied < length xs")
    case False
    then show ?thesis using "1.prems"(3) by (subst copy_out_loop.simps) simp
  next
    case True
    let ?k = "offset + copied"
    let ?n = "min (PAGE_SIZE - ?k mod PAGE_SIZE) (length xs - copied)"
    let ?page = "fs_hhdm_offset s + fs_frames s ! (?k div PAGE_SIZE)"
    let ?out = "take copied xs @ mem_read mem (?page + ?k mod PAGE_SIZE) ?n @ drop (copied + ?n) xs"
    have k: "?k < fs_logical_len s" using True "1.prems"(2) by simp
    note p = page_lookup [OF "1.prems"(1) k]
    have len: "length ?out = length xs" using True by simp
    have r: "mem_read mem (?page + ?k mod PAGE_SIZE) ?n = map (\<lambda>k. mem (byte_address s k)) [?k..<?k + ?n]"
      using mem_read_chunk [of ?n ?k mem s] by (simp add: byte_address_def)
    have step: "copy_out_loop va s mem offset copied xs = copy_out_loop va s mem offset (copied + ?n) ?out"
      by (subst copy_out_loop.simps) (simp only: Let_def True if_True p option.case sum.case)
    have IH: "copy_out_loop va s mem offset (copied + ?n) ?out =
        Some (Inr (), take (copied + ?n) ?out @ map (\<lambda>k. mem (byte_address s k)) [offset + (copied + ?n)..<offset + length ?out])"
      by (rule "1.IH" [OF True refl refl refl p(1,2) "1.prems"(1)]) (use "1.prems" True in simp_all)
    have t: "take (copied + ?n) ?out = take copied xs @ map (\<lambda>k. mem (byte_address s k)) [?k..<?k + ?n]"
      using True unfolding r by simp
    have u: "map (\<lambda>k. mem (byte_address s k)) [?k..<offset + length xs] =
        map (\<lambda>k. mem (byte_address s k)) [?k..<?k + ?n] @ map (\<lambda>k. mem (byte_address s k)) [?k + ?n..<offset + length xs]"
      by (rule map_upt_split) (use True in simp_all)
    show ?thesis unfolding step IH t u len by (simp add: add.assoc)
  qed
qed

lemma mem_write_in: "x \<le> y \<Longrightarrow> y < x + length bs \<Longrightarrow> mem_write mem x bs y = bs ! (y - x)"
  by (simp add: mem_write_def)

lemma mem_write_out: "y < x \<or> x + length bs \<le> y \<Longrightarrow> mem_write mem x bs y = mem y"
  by (auto simp: mem_write_def)

text \<open>One chunk of a write, at the byte positions of the storage.\<close>

lemma mem_write_chunk:
  assumes "fstorage_ok va s" "k + length bs \<le> fs_logical_len s" "length bs \<le> PAGE_SIZE - k mod PAGE_SIZE"
  shows "k \<le> j \<Longrightarrow> j < k + length bs \<Longrightarrow> mem_write mem (byte_address s k) bs (byte_address s j) = bs ! (j - k)"
    "(\<And>j. k \<le> j \<Longrightarrow> j < k + length bs \<Longrightarrow> x \<noteq> byte_address s j) \<Longrightarrow> mem_write mem (byte_address s k) bs x = mem x"
proof -
  have chunk: "byte_address s (k + i) = byte_address s k + i" if "i < length bs" for i
    using byte_address_chunk [of i k s] that assms(3) by simp
  show "k \<le> j \<Longrightarrow> j < k + length bs \<Longrightarrow> mem_write mem (byte_address s k) bs (byte_address s j) = bs ! (j - k)"
    using chunk [of "j - k"] by (simp add: mem_write_in)
  assume x: "\<And>j. k \<le> j \<Longrightarrow> j < k + length bs \<Longrightarrow> x \<noteq> byte_address s j"
  have "x < byte_address s k \<or> byte_address s k + length bs \<le> x"
  proof (rule ccontr)
    assume "\<not> ?thesis"
    then obtain i where "x = byte_address s k + i" "i < length bs" by (metis less_diff_conv2 linorder_not_le le_Suc_ex nat_add_left_cancel_less)
    with chunk x [of "k + i"] show False by simp
  qed
  then show "mem_write mem (byte_address s k) bs x = mem x" by (rule mem_write_out)
qed

lemma copy_in_loop_spec:
  assumes "fstorage_ok va s" "offset + length xs \<le> fs_logical_len s"
  shows "\<exists>mem'. copy_in_loop va s offset xs copied mem = Some (Inr (), mem') \<and>
    (\<forall>k. offset + copied \<le> k \<and> k < offset + length xs \<longrightarrow> mem' (byte_address s k) = xs ! (k - offset)) \<and>
    (\<forall>x. (\<forall>k. offset + copied \<le> k \<and> k < offset + length xs \<longrightarrow> x \<noteq> byte_address s k) \<longrightarrow> mem' x = mem x)"
  using assms
proof (induction va s offset xs copied mem rule: copy_in_loop.induct)
  case (1 va s offset xs copied mem)
  show ?case
  proof (cases "copied < length xs")
    case False
    then show ?thesis by (subst copy_in_loop.simps) auto
  next
    case True
    let ?k = "offset + copied"
    let ?n = "min (PAGE_SIZE - ?k mod PAGE_SIZE) (length xs - copied)"
    let ?bs = "take ?n (drop copied xs)"
    let ?m = "mem_write mem (byte_address s ?k) ?bs"
    note inner = True
    have n: "length ?bs = ?n" by simp
    have k: "?k < fs_logical_len s" using True "1.prems"(2) by simp
    note p = page_lookup [OF "1.prems"(1) k]
    have step: "copy_in_loop va s offset xs copied mem = copy_in_loop va s offset xs (copied + ?n) ?m"
      by (subst copy_in_loop.simps) (simp only: Let_def True if_True p option.case sum.case byte_address_def)
    obtain mem' where IH: "copy_in_loop va s offset xs (copied + ?n) ?m = Some (Inr (), mem')"
        "\<And>k. offset + (copied + ?n) \<le> k \<Longrightarrow> k < offset + length xs \<Longrightarrow> mem' (byte_address s k) = xs ! (k - offset)"
        "\<And>x. (\<And>k. offset + (copied + ?n) \<le> k \<Longrightarrow> k < offset + length xs \<Longrightarrow> x \<noteq> byte_address s k) \<Longrightarrow> mem' x = ?m x"
      using "1.IH" [OF True refl refl refl p(1,2) "1.prems", folded byte_address_def] by blast
    have le: "?k + length ?bs \<le> fs_logical_len s" "length ?bs \<le> PAGE_SIZE - ?k mod PAGE_SIZE" using "1.prems"(2) True by simp_all
    note w = mem_write_chunk [OF "1.prems"(1) le]
    have "mem' (byte_address s k) = xs ! (k - offset)" if k: "?k \<le> k" "k < offset + length xs" for k
    proof (cases "k < ?k + ?n")
      case True
      have "byte_address s k \<noteq> byte_address s j" if "offset + (copied + ?n) \<le> j" "j < offset + length xs" for j
        using byte_address_inj [OF "1.prems"(1), of k j] that k True "1.prems"(2) by auto
      then have "mem' (byte_address s k) = ?m (byte_address s k)" by (rule IH(3))
      also have "\<dots> = ?bs ! (k - ?k)" by (rule w(1)) (use k True in \<open>simp_all only: n\<close>)
      also have "\<dots> = xs ! (k - offset)"
      proof -
        from k(1) obtain i where "k = ?k + i" by (auto simp: le_iff_add)
        then show ?thesis using True inner by simp
      qed
      finally show ?thesis .
    qed (use IH(2) k in simp)
    moreover have "mem' x = mem x" if x: "\<And>k. ?k \<le> k \<Longrightarrow> k < offset + length xs \<Longrightarrow> x \<noteq> byte_address s k" for x
    proof -
      have "mem' x = ?m x" by (rule IH(3)) (use x in simp)
      also have "?m x = mem x" by (rule w(2)) (rule x, use True in simp_all)
      finally show ?thesis .
    qed
    ultimately show ?thesis unfolding step IH(1) by blast
  qed
qed

definition page_bytes :: "nat \<Rightarrow> nat set \<Rightarrow> nat set" where
  "page_bytes hhdm fs = {hhdm + f + i | f i. f \<in> fs \<and> i < PAGE_SIZE}"

lemma page_bytesI: "f \<in> fs \<Longrightarrow> i < PAGE_SIZE \<Longrightarrow> hhdm + f + i \<in> page_bytes hhdm fs"
  by (auto simp: page_bytes_def)

lemma page_bytes_disjoint:
  assumes "fs \<inter> gs = {}" "\<forall>f \<in> fs \<union> gs. PAGE_SIZE dvd f"
  shows "page_bytes hhdm fs \<inter> page_bytes hhdm gs = {}"
proof -
  have False if "f \<in> fs" "g \<in> gs" "i < PAGE_SIZE" "j < PAGE_SIZE" "hhdm + f + i = hhdm + g + j" for f g i j
    using page_offset_inj(1) [of f g i j] that assms by auto
  then show ?thesis unfolding page_bytes_def by blast
qed

lemma byte_address_page:
  assumes "fstorage_ok va s" "k < fs_logical_len s"
  shows "byte_address s k \<in> page_bytes (fs_hhdm_offset s) (set (fs_frames s))"
  unfolding byte_address_def by (rule page_bytesI) (use page_index [OF assms] in simp_all)

lemma storage_of_cong:
  assumes "fstorage_ok va s" "\<And>x. x \<in> page_bytes (fs_hhdm_offset s) (set (fs_frames s)) \<Longrightarrow> mem' x = mem x"
  shows "storage_of mem' s = storage_of mem s"
  using assms(2) byte_address_page [OF assms(1)] by (simp add: storage_of_def storage_bytes_def)

section \<open>Copies refine the byte array\<close>

lemma frame_range_checked: "frame_range off len n = map_sum id (\<lambda>_. ()) (checked_range off len n)"
  by (simp add: frame_range_def checked_range_def split: option.splits)

lemma copy_out_spec:
  assumes "fstorage_ok va s"
  shows "copy_out va s mem off xs =
    Some (case storage_read (storage_of mem s) off (length xs) of Inl e \<Rightarrow> (Inl e, xs) | Inr bs \<Rightarrow> (Inr (), bs))"
proof (cases "checked_range off (length xs) (fs_logical_len s)")
  case (Inl e)
  then show ?thesis by (simp add: copy_out_def frame_range_checked storage_read_def storage_of_def)
next
  case (Inr p)
  then have le: "off + length xs \<le> fs_logical_len s" by (simp add: checked_range_Inr)
  have "map (\<lambda>k. mem (byte_address s k)) [off..<off + length xs] = take (length xs) (drop off (storage_bytes mem s))"
    using le by (simp add: storage_bytes_def drop_map take_map)
  then show ?thesis using Inr copy_out_loop_spec [OF assms le, of 0 mem]
    by (simp add: copy_out_def frame_range_checked storage_read_def storage_of_def)
qed

lemma copy_in_spec:
  assumes "fstorage_ok va s"
  shows "\<exists>r mem'. copy_in va s off xs mem = Some (r, mem') \<and> storage_write (storage_of mem s) off xs = (r, storage_of mem' s) \<and>
    (\<forall>x. x \<notin> page_bytes (fs_hhdm_offset s) (set (fs_frames s)) \<longrightarrow> mem' x = mem x)"
proof (cases "checked_range off (length xs) (fs_logical_len s)")
  case (Inl e)
  then show ?thesis by (simp add: copy_in_def frame_range_checked storage_write_def storage_of_def)
next
  case (Inr p)
  then have le: "off + length xs \<le> fs_logical_len s" by (simp add: checked_range_Inr)
  obtain mem' where c: "copy_in_loop va s off xs 0 mem = Some (Inr (), mem')"
      "\<And>k. off \<le> k \<Longrightarrow> k < off + length xs \<Longrightarrow> mem' (byte_address s k) = xs ! (k - off)"
      "\<And>x. (\<And>k. off \<le> k \<Longrightarrow> k < off + length xs \<Longrightarrow> x \<noteq> byte_address s k) \<Longrightarrow> mem' x = mem x"
    using copy_in_loop_spec [OF assms le, of 0 mem] by auto
  have "mem' (byte_address s k) = mem (byte_address s k)" if "k < fs_logical_len s" "k < off \<or> off + length xs \<le> k" for k
    using byte_address_inj [OF assms that(1)] that le by (intro c(3)) (metis order.strict_trans2 linorder_not_le)
  then have "storage_bytes mem' s = take off (storage_bytes mem s) @ xs @ drop (off + length xs) (storage_bytes mem s)"
    using le c(2) by (intro nth_equalityI) (auto simp: storage_bytes_def nth_append)
  moreover have "mem' x = mem x" if "x \<notin> page_bytes (fs_hhdm_offset s) (set (fs_frames s))" for x
    using byte_address_page [OF assms] le that by (intro c(3)) (metis order.strict_trans2)
  ultimately show ?thesis using Inr c(1) by (simp add: copy_in_def frame_range_checked storage_write_def storage_of_def)
qed

section \<open>Zeroed creation\<close>

lemma zero_frames_frame: "zero_frames va hhdm fs mem = (r, mem') \<Longrightarrow> x \<notin> page_bytes hhdm (set fs) \<Longrightarrow> mem' x = mem x"
proof (induction va hhdm fs mem rule: zero_frames.induct)
  case (2 va hhdm f fs mem)
  have x: "x \<notin> page_bytes hhdm (set fs)" using "2.prems"(2) by (auto simp: page_bytes_def)
  have "x < hhdm + f \<or> hhdm + f + PAGE_SIZE \<le> x"
  proof (rule ccontr)
    assume "\<not> ?thesis"
    then obtain i where "x = hhdm + f + i" "i < PAGE_SIZE" by (auto simp: not_less not_le dest!: le_Suc_ex)
    then show False using "2.prems"(2) page_bytesI [of f "set (f # fs)" i hhdm] by simp
  qed
  then have "mem_write mem (hhdm + f) (replicate PAGE_SIZE 0) x = mem x" by (intro mem_write_out) simp
  then show ?case
    using x "2.prems"(1) "2.IH" by (auto dest!: frame_pointer_Inr split: sum.splits)
qed simp

lemma zero_frames_zero:
  assumes "zero_frames va hhdm fs mem = (Inr (), mem')"
  shows "(\<forall>f \<in> set fs. frame_pointer va f hhdm = Inr (hhdm + f)) \<and> (\<forall>x \<in> page_bytes hhdm (set fs). mem' x = 0)"
  using assms
proof (induction va hhdm fs mem rule: zero_frames.induct)
  case (2 va hhdm f fs mem)
  let ?m = "mem_write mem (hhdm + f) (replicate PAGE_SIZE 0)"
  from "2.prems" have f: "frame_pointer va f hhdm = Inr (hhdm + f)" and z: "zero_frames va hhdm fs ?m = (Inr (), mem')"
    by (auto dest: frame_pointer_Inr split: sum.splits)
  have IH: "\<forall>f \<in> set fs. frame_pointer va f hhdm = Inr (hhdm + f)" "\<forall>x \<in> page_bytes hhdm (set fs). mem' x = 0"
    using "2.IH" [OF f z] by simp_all
  have "mem' x = 0" if "x \<in> page_bytes hhdm (set (f # fs))" for x
  proof (cases "x \<in> page_bytes hhdm (set fs)")
    case False
    with that have "hhdm + f \<le> x" "x < hhdm + f + PAGE_SIZE" by (auto simp: page_bytes_def)
    then show ?thesis using zero_frames_frame [OF z False] by (simp add: mem_write_def)
  qed (use IH(2) in simp)
  then show ?case using f IH(1) by simp
qed (simp add: page_bytes_def)

lemma live_aligned: "fa_ok a \<Longrightarrow> f \<in> live_frames a \<Longrightarrow> PAGE_SIZE dvd f"
  using eligible_phys(1) [of a f] by (auto simp: fa_ok_def live_frames_def phys_frame_def)

lemma round_down: "n - n mod PAGE_SIZE = n div PAGE_SIZE * PAGE_SIZE"
  by (simp add: minus_mod_eq_div_mult)

text \<open>Creation gives zeroed memory, and never touches a page that someone else owns.\<close>

lemma storage_create_spec:
  assumes ok: "arena_ok outs ar a" and api: "phys_api_ok api"
  shows "\<exists>r ar' a' mem'. storage_create api va al fal len hhdm ar a mem = Some (r, ar', a', mem') \<and> kept a a' \<and>
    reserved_frames a' = reserved_frames a \<and>
    (\<forall>x \<in> page_bytes hhdm (set outs \<union> foreign outs ar a). mem' x = mem x) \<and>
    (case r of
       Inl e \<Rightarrow> arena_ok outs ar' a' \<and> foreign outs ar' a' = foreign outs ar a
     | Inr s \<Rightarrow> arena_ok (outs @ fs_frames s) ar' a' \<and> foreign (outs @ fs_frames s) ar' a' = foreign outs ar a \<and> fstorage_ok va s \<and>
         fs_hhdm_offset s = hhdm \<and> fs_logical_len s = len \<and> storage_bytes mem' s = replicate len 0)"
proof (cases "0 < len \<and> len + (PAGE_SIZE - 1) \<le> u64_max")
  case False
  then show ?thesis using ok by (auto simp: storage_create_def split: option.splits)
next
  case True
  let ?n = "(len + (PAGE_SIZE - 1)) div PAGE_SIZE"
  obtain r ar1 a1 where q: "acquire api al fal ?n ar a = Some (r, ar1, a1)" "kept a a1" "reserved_frames a1 = reserved_frames a"
      "case r of
         Inl e \<Rightarrow> arena_ok outs ar1 a1 \<and> foreign outs ar1 a1 = foreign outs ar a \<and> set (ar_free ar1) = set (ar_free ar)
       | Inr fs \<Rightarrow> length fs = ?n \<and> arena_ok (outs @ fs) ar1 a1 \<and> foreign (outs @ fs) ar1 a1 = foreign outs ar a"
    using acquire_spec [OF ok api, of al fal ?n] by blast
  have t: "checked_add len (PAGE_SIZE - 1) = Some (len + (PAGE_SIZE - 1))" "len \<noteq> 0" using True by simp_all
  note create = storage_create_def [of api va al fal len hhdm ar a mem, unfolded t(1) option.case Let_def round_down
      div_mult_self_is_m [OF PAGE_SIZE_pos(1)] q(1)]
  show ?thesis
  proof (cases r)
    case (Inl e)
    then show ?thesis using q t(2) by (simp add: create)
  next
    case (Inr fs)
    with q(4) have fs: "length fs = ?n" "arena_ok (outs @ fs) ar1 a1" "foreign (outs @ fs) ar1 a1 = foreign outs ar a" by simp_all
    obtain z mem' where z: "zero_frames va hhdm fs mem = (z, mem')" by fastforce
    let ?s = "\<lparr>fs_frames = fs, fs_logical_len = len, fs_mapped_len = ?n * PAGE_SIZE, fs_hhdm_offset = hhdm\<rparr>"
    have al: "\<forall>f \<in> set fs \<union> (set outs \<union> foreign outs ar a). PAGE_SIZE dvd f"
      using fs(2) live_aligned [of a1] unfolding fs(3) [symmetric] by (auto simp: arena_ok_def foreign_def)
    have "set fs \<inter> (set outs \<union> foreign outs ar a) = {}" using fs(2) unfolding fs(3) [symmetric] by (auto simp: arena_ok_def foreign_def)
    note dis = page_bytes_disjoint [OF this al, of hhdm]
    have frame: "\<forall>x \<in> page_bytes hhdm (set outs \<union> foreign outs ar a). mem' x = mem x"
      using zero_frames_frame [OF z] dis by blast
    obtain ar2 where ar2: "return_frames fs (z = Inr ()) ar1 = Some ar2" "arena_ok outs ar2 a1" "foreign outs ar2 a1 = foreign outs ar a"
      using return_frames_ok [OF fs(2), of "z = Inr ()"] fs(3) by auto
    show ?thesis
    proof (cases z)
      case (Inl e)
      then show ?thesis using q(2,3) t(2) ar2 frame by (simp add: create Inr z)
    next
      case zr: (Inr u)
      then have zz: "zero_frames va hhdm fs mem = (Inr (), mem')" using z by simp
      have s: "fstorage_ok va ?s"
        using zero_frames_zero [OF zz] True fs al by (auto simp: fstorage_ok_def arena_ok_def)
      have "storage_bytes mem' ?s = replicate len 0"
        using zero_frames_zero [OF zz] byte_address_page [OF s] by (intro nth_equalityI) (simp_all add: storage_bytes_def)
      then show ?thesis using q(2,3) t(2) ar2 frame s fs(2,3) by (simp add: create Inr zz storage_drop_def zr)
    qed
  qed
qed

section \<open>The factory\<close>

text \<open>
  \<^verbatim>\<open>SharedMemoryFactory::create_handle\<close>: the storage becomes a kernel object, and is dropped when the table refuses it.
  On success the storage is returned beside the handle, because the object's backing holds it.
\<close>

definition create_handle ::
  "phys_api \<Rightarrow> (nat \<Rightarrow> bool) \<Rightarrow> allocs \<Rightarrow> (nat \<Rightarrow> allocs) \<Rightarrow> allocs \<Rightarrow> nat \<Rightarrow> nat \<Rightarrow>
   shared_frame_arena \<Rightarrow> frame_allocator \<Rightarrow> memory \<Rightarrow> htable \<Rightarrow> kernel_heap \<Rightarrow>
   ((handle \<times> frame_storage) ipc \<times> shared_frame_arena \<times> frame_allocator \<times> memory \<times> htable \<times> kernel_heap) option" where
  "create_handle api va al fal hal logical_len hhdm_offset ar a mem t h =
     (case storage_create api va al fal logical_len hhdm_offset ar a mem of
        None \<Rightarrow> None
      | Some (Inl e, ar', a', mem') \<Rightarrow> Some (Inl (fsm_ipc_error e), ar', a', mem', t, h)
      | Some (Inr s, ar', a', mem') \<Rightarrow>
          (case shared_memory_create_with_storage hal (storage_of mem' s) t h of
             (Inr hn, t', h') \<Rightarrow> Some (Inr (hn, s), ar', a', mem', t', h')
           | (Inl e, t', h') \<Rightarrow> map_option (\<lambda>ar''. (Inl e, ar'', a', mem', t', h')) (storage_drop s ar')))"

text \<open>The validation of \<^verbatim>\<open>SharedMemoryBacking::new\<close> accepts every frame storage: it can only run out of memory or of identities.\<close>

lemma collect_pages_accepts:
  assumes "distinct fs" "\<forall>f \<in> set fs. PAGE_SIZE dvd f" "k \<le> length fs"
  shows "collect_pages (vec_get fs) (take k fs) [k..<length fs] = Inr fs"
  using assms(3)
proof (induction "length fs - k" arbitrary: k)
  case (Suc n)
  then have k: "k < length fs" by simp
  have "fs ! k \<notin> set (take k fs)" using assms(1) k by (auto simp: in_set_conv_nth nth_eq_iff_index_eq)
  moreover have "PAGE_SIZE dvd fs ! k" using assms(2) k by simp
  moreover have "take k fs @ [fs ! k] = take (Suc k) fs" using k by (simp add: take_Suc_conv_app_nth)
  ultimately show ?case using Suc k
    by (simp add: upt_conv_Cons vec_get_def SHARED_MEMORY_PAGE_SIZE_def PAGE_SIZE_def mod_eq_0_iff_dvd)
qed simp

lemma backing_accepts:
  assumes "fstorage_ok va s"
  shows "SharedMemoryBacking_new al (storage_of mem s) n =
    (if al 0 \<and> n + 1 \<le> u64_max
     then (Inr \<lparr>sb_identity = n, sb_storage = storage_of mem s, sb_logical_len = fs_logical_len s, sb_mapped_len = fs_mapped_len s,
                sb_physical_pages = fs_frames s\<rparr>, n + 1)
     else (Inl OutOfMemory, n))"
proof -
  note s = assms [unfolded fstorage_ok_def]
  have P: "SHARED_MEMORY_PAGE_SIZE = PAGE_SIZE" by (simp add: SHARED_MEMORY_PAGE_SIZE_def PAGE_SIZE_def)
  have pos: "fs_logical_len s \<noteq> 0" using s by simp
  have page: "fs_physical_page s = vec_get (fs_frames s)" by (simp add: fun_eq_iff fs_physical_page_def)
  have n: "fs_mapped_len s div PAGE_SIZE = length (fs_frames s)" using s by (metis div_mult_self_is_m PAGE_SIZE_pos(1))
  have c: "collect_pages (vec_get (fs_frames s)) [] [0..<length (fs_frames s)] = Inr (fs_frames s)"
    using collect_pages_accepts [of "fs_frames s" 0] s by simp
  have m: "fs_mapped_len s = fs_logical_len s + (PAGE_SIZE - 1) - (fs_logical_len s + (PAGE_SIZE - 1)) mod PAGE_SIZE"
    using s by (simp only: round_down)
  have v: "vec_get (fs_frames s) (length (fs_frames s)) = None" by (simp add: vec_get_def)
  have ca: "checked_add (fs_logical_len s) (PAGE_SIZE - 1) = Some (fs_logical_len s + (PAGE_SIZE - 1))" using s by simp
  show ?thesis
    unfolding SharedMemoryBacking_new_def storage_of_def Let_def storage.select_convs length_storage_bytes P page n ca option.case m [symmetric] c sum.case v
    using pos by (auto split: option.splits)
qed

section \<open>Arena, allocator, memory and storages together\<close>

text \<open>
  All storages of the system with the arena, the allocator and memory. The direct mapping is the one of the active page
  table, the same for every storage. The rest of the kernel may call the allocator as long as it does not release frames
  of the arena, and may change memory in any way (user threads write to mapped shared memory).
\<close>

record frame_world =
  fw_arena :: shared_frame_arena
  fw_allocator :: frame_allocator
  fw_memory :: memory
  fw_storages :: "frame_storage list"

definition storage_frames :: "frame_storage list \<Rightarrow> nat list" where
  "storage_frames ss = concat (map fs_frames ss)"

abbreviation arena_frames :: "frame_world \<Rightarrow> nat list" where
  "arena_frames w \<equiv> ar_free (fw_arena w) @ storage_frames (fw_storages w)"

inductive fw_step :: "phys_api \<Rightarrow> (nat \<Rightarrow> bool) \<Rightarrow> nat \<Rightarrow> frame_world \<Rightarrow> frame_world \<Rightarrow> bool" for api va hhdm where
  create: "storage_create api va al fal len hhdm (fw_arena w) (fw_allocator w) (fw_memory w) = Some (r, ar, a, mem) \<Longrightarrow>
    fw_step api va hhdm w \<lparr>fw_arena = ar, fw_allocator = a, fw_memory = mem,
      fw_storages = (case r of Inl e \<Rightarrow> fw_storages w | Inr s \<Rightarrow> fw_storages w @ [s])\<rparr>"
| write_bytes: "s \<in> set (fw_storages w) \<Longrightarrow> copy_in va s off xs (fw_memory w) = Some (res, mem) \<Longrightarrow>
    fw_step api va hhdm w (w\<lparr>fw_memory := mem\<rparr>)"
| drop_storage: "i < length (fw_storages w) \<Longrightarrow> storage_drop (fw_storages w ! i) (fw_arena w) = Some ar \<Longrightarrow>
    fw_step api va hhdm w (w\<lparr>fw_arena := ar, fw_storages := take i (fw_storages w) @ drop (Suc i) (fw_storages w)\<rparr>)"
| reclaim: "reclaim_idle (fw_arena w) (fw_allocator w) = Some (n, ar, a) \<Longrightarrow>
    fw_step api va hhdm w (w\<lparr>fw_arena := ar, fw_allocator := a\<rparr>)"
| other_frames: "fa_step api (fw_allocator w) a \<Longrightarrow> set (arena_frames w) \<subseteq> live_frames a \<Longrightarrow>
    fw_step api va hhdm w (w\<lparr>fw_allocator := a\<rparr>)"
| other_memory: "fw_step api va hhdm w (w\<lparr>fw_memory := mem\<rparr>)"

inductive fw_steps :: "phys_api \<Rightarrow> (nat \<Rightarrow> bool) \<Rightarrow> nat \<Rightarrow> frame_world \<Rightarrow> frame_world \<Rightarrow> bool" for api va hhdm where
  none: "fw_steps api va hhdm w w"
| more: "fw_steps api va hhdm w w' \<Longrightarrow> fw_step api va hhdm w' w'' \<Longrightarrow> fw_steps api va hhdm w w''"

definition fw_reachable ::
  "phys_api \<Rightarrow> (nat \<Rightarrow> bool) \<Rightarrow> nat \<Rightarrow> (memory_map_error + memory_map_entry) list \<Rightarrow> frame_world \<Rightarrow> bool" where
  "fw_reachable api va hhdm es w \<longleftrightarrow>
     (\<exists>al ar a mem. arena_new al = Inr ar \<and> fa_reachable api es a \<and>
        fw_steps api va hhdm \<lparr>fw_arena = ar, fw_allocator = a, fw_memory = mem, fw_storages = []\<rparr> w)"

definition fw_ok :: "(nat \<Rightarrow> bool) \<Rightarrow> nat \<Rightarrow> frame_world \<Rightarrow> bool" where
  "fw_ok va hhdm w \<longleftrightarrow> arena_ok (storage_frames (fw_storages w)) (fw_arena w) (fw_allocator w) \<and>
     (\<forall>s \<in> set (fw_storages w). fstorage_ok va s \<and> fs_hhdm_offset s = hhdm)"

abbreviation fw_foreign :: "frame_world \<Rightarrow> nat set" where
  "fw_foreign w \<equiv> foreign (storage_frames (fw_storages w)) (fw_arena w) (fw_allocator w)"

lemma storage_frames_simps [simp]:
  "storage_frames [] = []" "storage_frames (ss @ ts) = storage_frames ss @ storage_frames ts" "storage_frames (s # ss) = fs_frames s @ storage_frames ss"
  by (simp_all add: storage_frames_def)

lemma arena_ok_perm:
  assumes "mset outs = mset outs'"
  shows "arena_ok outs ar a = arena_ok outs' ar a" "foreign outs ar a = foreign outs' ar a"
  using mset_eq_setD [OF assms] mset_eq_length [OF assms] mset_eq_imp_distinct_iff [OF assms]
  by (simp_all add: arena_ok_def foreign_def)

lemma reclaim_ok:
  assumes "arena_ok outs ar a"
  shows "\<exists>ar' a'. reclaim_idle ar a = Some (Inr (length (ar_free ar)), ar', a') \<and> arena_ok outs ar' a' \<and> kept a a' \<and>
    reserved_frames a' = reserved_frames a \<and> foreign outs ar' a' = foreign outs ar a \<and> ar_free ar' = [] \<and>
    live_frames a' = live_frames a - set (ar_free ar)"
proof (cases "ar_free ar = []")
  case True
  then show ?thesis using assms by (simp add: reclaim_idle_def)
next
  case False
  note ok = assms [unfolded arena_ok_def]
  obtain a' where a': "deallocate_frames (ar_free ar) a = Some (Inr (), a')" "fa_ok a'" "kept a a'" "reserved_frames a' = reserved_frames a"
      "live_frames a' = live_frames a - set (ar_free ar)"
    using deallocate_frames_ok [of a "ar_free ar"] ok by auto
  then show ?thesis using ok False by (auto simp: reclaim_idle_def arena_ok_def foreign_def Let_def)
qed

lemma drop_storage_ok:
  assumes ok: "fw_ok va hhdm w" and i: "i < length (fw_storages w)"
  shows "\<exists>ar. storage_drop (fw_storages w ! i) (fw_arena w) = Some ar \<and>
    (let w' = w\<lparr>fw_arena := ar, fw_storages := take i (fw_storages w) @ drop (Suc i) (fw_storages w)\<rparr>
     in fw_ok va hhdm w' \<and> fw_foreign w' = fw_foreign w \<and> ar_free ar = ar_free (fw_arena w) @ fs_frames (fw_storages w ! i))"
proof -
  let ?ss = "fw_storages w" and ?s = "fw_storages w ! i"
  let ?rest = "take i ?ss @ drop (Suc i) ?ss"
  have "storage_frames ?ss = storage_frames (take i ?ss @ [?s] @ drop (Suc i) ?ss)"
    using id_take_nth_drop [OF i] by simp
  then have m: "mset (storage_frames ?ss) = mset (storage_frames ?rest @ fs_frames ?s)" by simp
  have "arena_ok (storage_frames ?rest @ fs_frames ?s) (fw_arena w) (fw_allocator w)"
    using ok unfolding fw_ok_def arena_ok_perm(1) [OF m] by simp
  from return_frames_ok [OF this, of True] obtain ar where ar: "storage_drop ?s (fw_arena w) = Some ar"
      "arena_ok (storage_frames ?rest) ar (fw_allocator w)"
      "foreign (storage_frames ?rest) ar (fw_allocator w) = foreign (storage_frames ?rest @ fs_frames ?s) (fw_arena w) (fw_allocator w)"
      "ar_free ar = ar_free (fw_arena w) @ fs_frames ?s"
    unfolding storage_drop_def by blast
  have "set ?rest \<subseteq> set ?ss" by (auto dest: in_set_takeD in_set_dropD)
  then show ?thesis using ok ar arena_ok_perm(2) [OF m] by (auto simp: fw_ok_def Let_def)
qed

lemma fw_step_ok:
  assumes "fw_step api va hhdm w w'" "phys_api_ok api" "fw_ok va hhdm w"
  shows "fw_ok va hhdm w'"
  using assms
proof (induction rule: fw_step.induct)
  case (create al fal len w r ar a mem)
  note ok = create.prems(2) [unfolded fw_ok_def]
  show ?case
    using storage_create_spec [OF conjunct1 [OF ok] create.prems(1), of va al fal len hhdm "fw_memory w"] create.hyps ok
    by (auto simp: fw_ok_def split: sum.splits)
next
  case (drop_storage i w ar)
  then show ?case using drop_storage_ok [OF drop_storage.prems(2) drop_storage.hyps(1)] by (auto simp: Let_def)
next
  case (reclaim w n ar a)
  then show ?case using reclaim_ok [of "storage_frames (fw_storages w)" "fw_arena w" "fw_allocator w"] by (auto simp: fw_ok_def)
next
  case (other_frames w a)
  then show ?case using fa_step_ok [OF other_frames.hyps(1) other_frames.prems(1)] by (auto simp: fw_ok_def arena_ok_def)
qed (auto simp: fw_ok_def)

lemma fw_reachable_ok:
  assumes "fw_reachable api va hhdm es w" "phys_api_ok api"
  shows "fw_ok va hhdm w"
proof -
  have steps: "fw_ok va hhdm w'" if "fw_steps api va hhdm w0 w'" "fw_ok va hhdm w0" for w0 w'
    using that by (induction rule: fw_steps.induct) (use fw_step_ok assms(2) in blast)+
  obtain al ar a mem where i: "arena_new al = Inr ar" "fa_reachable api es a"
      "fw_steps api va hhdm \<lparr>fw_arena = ar, fw_allocator = a, fw_memory = mem, fw_storages = []\<rparr> w"
    using assms(1) by (auto simp: fw_reachable_def)
  show ?thesis
    by (rule steps [OF i(3)]) (use arena_new_ok [OF fa_reachable_ok(1) [OF i(2) assms(2)] i(1)] in \<open>simp add: fw_ok_def\<close>)
qed

section \<open>Properties\<close>

text \<open>C11: frames of shared memory are owned exactly once and never lost. In every reachable state the idle frames and the
  frames of all storages are different frames, all live in the allocator, and the arena's count is their number. Creating,
  dropping and reclaiming return without a panic, also when the allocator or the direct mapping fails half way, and leave
  the frames of everyone else as they are; a dropped storage's frames become idle, and reclaiming gives every idle frame back.\<close>

theorem shared_frames_conserved:
  assumes "fw_reachable api va hhdm es w" "phys_api_ok api"
  shows "distinct (arena_frames w) \<and> set (arena_frames w) \<subseteq> live_frames (fw_allocator w) \<and>
    as_owned_frames (arena_stats (fw_arena w)) = length (arena_frames w) \<and>
    (\<exists>r ar a mem. storage_create api va al fal len hhdm (fw_arena w) (fw_allocator w) (fw_memory w) = Some (r, ar, a, mem) \<and>
       foreign (storage_frames (fw_storages w) @ (case r of Inl e \<Rightarrow> [] | Inr s \<Rightarrow> fs_frames s)) ar a = fw_foreign w) \<and>
    (\<forall>i < length (fw_storages w). \<exists>ar. storage_drop (fw_storages w ! i) (fw_arena w) = Some ar \<and>
       ar_free ar = ar_free (fw_arena w) @ fs_frames (fw_storages w ! i)) \<and>
    (\<exists>ar a. reclaim_idle (fw_arena w) (fw_allocator w) = Some (Inr (length (ar_free (fw_arena w))), ar, a) \<and> ar_free ar = [] \<and>
       live_frames a = live_frames (fw_allocator w) - set (ar_free (fw_arena w)))"
proof -
  note ok = fw_reachable_ok [OF assms]
  then have ar: "arena_ok (storage_frames (fw_storages w)) (fw_arena w) (fw_allocator w)" by (simp add: fw_ok_def)
  show ?thesis
  proof (intro conjI)
    show "distinct (arena_frames w)" "set (arena_frames w) \<subseteq> live_frames (fw_allocator w)"
      "as_owned_frames (arena_stats (fw_arena w)) = length (arena_frames w)"
      using ar by (simp_all add: arena_ok_def arena_stats_def)
    show "\<exists>r ar a mem. storage_create api va al fal len hhdm (fw_arena w) (fw_allocator w) (fw_memory w) = Some (r, ar, a, mem) \<and>
       foreign (storage_frames (fw_storages w) @ (case r of Inl e \<Rightarrow> [] | Inr s \<Rightarrow> fs_frames s)) ar a = fw_foreign w"
      using storage_create_spec [OF ar assms(2), of va al fal len hhdm "fw_memory w"] by (fastforce split: sum.splits)
    show "\<forall>i < length (fw_storages w). \<exists>ar. storage_drop (fw_storages w ! i) (fw_arena w) = Some ar \<and>
       ar_free ar = ar_free (fw_arena w) @ fs_frames (fw_storages w ! i)"
      using drop_storage_ok [OF ok] by (auto simp: Let_def)
    show "\<exists>ar a. reclaim_idle (fw_arena w) (fw_allocator w) = Some (Inr (length (ar_free (fw_arena w))), ar, a) \<and> ar_free ar = [] \<and>
       live_frames a = live_frames (fw_allocator w) - set (ar_free (fw_arena w))"
      using reclaim_ok [OF ar] by blast
  qed
qed

lemma storage_has_frames: "fstorage_ok va s \<Longrightarrow> fs_frames s \<noteq> []"
  using page_index [of va s 0] by (auto simp: fstorage_ok_def)

lemma storages_disjoint:
  assumes "fw_ok va hhdm w" "s \<in> set (fw_storages w)" "t \<in> set (fw_storages w)" "t \<noteq> s"
  shows "set (fs_frames s) \<inter> set (fs_frames t) = {}"
proof -
  have d: "distinct (concat (map fs_frames (fw_storages w)))" using assms(1) by (simp add: fw_ok_def arena_ok_def storage_frames_def)
  obtain i j where ij: "i < length (fw_storages w)" "j < length (fw_storages w)" "fw_storages w ! i = s" "fw_storages w ! j = t"
    using assms(2,3) by (metis in_set_conv_nth)
  have "\<forall>xs \<in> set (map fs_frames (fw_storages w)). xs \<noteq> []" using assms(1) storage_has_frames by (auto simp: fw_ok_def)
  then have "[] \<notin> set (map fs_frames (fw_storages w))" by blast
  then have "distinct (map fs_frames (fw_storages w))" using d unfolding distinct_concat_iff by (metis removeAll_id)
  then have "fs_frames s \<noteq> fs_frames t" using ij assms(4) by (metis length_map nth_eq_iff_index_eq nth_map)
  then show ?thesis using d assms(2,3) by (auto simp: distinct_concat_iff)
qed

text \<open>C10: a storage is a byte array. Reading and writing its scattered pages through the direct mapping, in chunks that stop at
  page boundaries, gives exactly the result and the contents of one array of \<^verbatim>\<open>logical_len\<close> bytes, with the same refusals; and a
  write reaches no other storage and no page of anyone else.\<close>

theorem shared_memory_refines_bytes:
  assumes "fw_reachable api va hhdm es w" "phys_api_ok api" "s \<in> set (fw_storages w)"
  shows "copy_out va s (fw_memory w) off xs =
      Some (case storage_read (storage_of (fw_memory w) s) off (length xs) of Inl e \<Rightarrow> (Inl e, xs) | Inr bs \<Rightarrow> (Inr (), bs)) \<and>
    (\<exists>r mem. copy_in va s off xs (fw_memory w) = Some (r, mem) \<and>
       storage_write (storage_of (fw_memory w) s) off xs = (r, storage_of mem s) \<and>
       (\<forall>t \<in> set (fw_storages w) - {s}. storage_of mem t = storage_of (fw_memory w) t) \<and>
       (\<forall>x \<in> page_bytes hhdm (fw_foreign w). mem x = fw_memory w x))"
proof -
  note ok = fw_reachable_ok [OF assms(1,2)]
  have s: "fstorage_ok va s" "fs_hhdm_offset s = hhdm" using ok assms(3) by (auto simp: fw_ok_def)
  have sub: "set (fs_frames t) \<subseteq> set (storage_frames (fw_storages w))" if "t \<in> set (fw_storages w)" for t
    using that by (auto simp: storage_frames_def)
  have al: "PAGE_SIZE dvd f" if "f \<in> set (storage_frames (fw_storages w)) \<union> fw_foreign w" for f
    using that ok live_aligned by (auto simp: fw_ok_def arena_ok_def foreign_def)
  obtain r mem where c: "copy_in va s off xs (fw_memory w) = Some (r, mem)" "storage_write (storage_of (fw_memory w) s) off xs = (r, storage_of mem s)"
      "\<And>x. x \<notin> page_bytes hhdm (set (fs_frames s)) \<Longrightarrow> mem x = fw_memory w x"
    using copy_in_spec [OF s(1), of off xs "fw_memory w"] s(2) by auto
  have out: "mem x = fw_memory w x" if "fs \<subseteq> set (storage_frames (fw_storages w)) \<union> fw_foreign w" "set (fs_frames s) \<inter> fs = {}" "x \<in> page_bytes hhdm fs" for x fs
    using page_bytes_disjoint [OF that(2), of hhdm] sub [OF assms(3)] al that(1,3) by (intro c(3)) blast
  have "storage_of mem t = storage_of (fw_memory w) t" if t: "t \<in> set (fw_storages w) - {s}" for t
  proof (rule storage_of_cong)
    show "fstorage_ok va t" using ok t by (auto simp: fw_ok_def)
    show "mem x = fw_memory w x" if "x \<in> page_bytes (fs_hhdm_offset t) (set (fs_frames t))" for x
      by (rule out [of "set (fs_frames t)"]) (use that t ok sub storages_disjoint [OF ok assms(3)] in \<open>auto simp: fw_ok_def\<close>)
  qed
  moreover have "mem x = fw_memory w x" if "x \<in> page_bytes hhdm (fw_foreign w)" for x
    by (rule out [of "fw_foreign w"]) (use that sub [OF assms(3)] in \<open>auto simp: foreign_def\<close>)
  ultimately show ?thesis using copy_out_spec [OF s(1)] c(1,2) by blast
qed

lemma install_object_lookup:
  assumes "install_object al ob rights t h = (Inr hn, t', h')" "table_wf t"
  shows "\<exists>k. table_lookup t' hn = Some \<lparr>he_object = k, he_rights = rights\<rparr> \<and> object_at h' k = ob \<and> hp_memories h' = hp_memories h"
proof -
  obtain js t1 k h1 where r: "reserve_slots (alloc_skip 1 al) 1 t = (Inr js, t1)" "new_object ob h = (k, h1)"
      "insert_reserved (js ! 0) k rights t1 = (hn, t')" "h' = h1"
    using assms(1) by (auto simp: install_object_def split: if_splits sum.splits prod.splits)
  note S = reserve_slots_Inr [OF r(1) assms(2)]
  have j: "js ! 0 < length t1" "slot_vacant (t1 ! (js ! 0))" using S(1,3) by auto
  show ?thesis using insert_reserved_lookup(2) [OF S(5) j r(3)] r(2,4) by (auto simp: new_object_def object_at_def)
qed

lemma create_with_storage_reads:
  assumes "shared_memory_create_with_storage al st t h = (Inr hn, t', h')" "table_wf t" "off + n \<le> length (st_bytes st)" "off + n \<le> u64_max"
  shows "shared_memory_read hn off n t' h' = Inr (take n (drop off (st_bytes st)))"
proof -
  obtain b next' where b: "SharedMemoryBacking_new al st (hp_next_identity h) = (Inr b, next')"
      and i: "install_object (alloc_skip 1 al) (SharedMemory (length (hp_memories h))) SHARED_MEMORY_DEFAULT_RIGHTS t
         (h\<lparr>hp_next_identity := next', hp_memories := hp_memories h @ [b]\<rparr>) = (Inr hn, t', h')"
    using assms(1) by (auto simp: shared_memory_create_with_storage_def Let_def split: prod.splits sum.splits)
  note B = SharedMemoryBacking_new_spec [OF b]
  obtain k where k: "table_lookup t' hn = Some \<lparr>he_object = k, he_rights = SHARED_MEMORY_DEFAULT_RIGHTS\<rparr>"
      "object_at h' k = SharedMemory (length (hp_memories h))" "hp_memories h' = hp_memories h @ [b]"
    using install_object_lookup [OF i assms(2)] by auto
  have "contains SHARED_MEMORY_DEFAULT_RIGHTS R_READ" by (simp add: contains_def SHARED_MEMORY_DEFAULT_RIGHTS_def rights_defs)
  then have "object_with_rights t' hn R_READ = Inr k" using k(1) by (simp add: object_with_rights_Inr)
  moreover have "checked_range off n (length (st_bytes st)) = Inr (off, off + n)" using assms(3,4) by (simp add: checked_range_Inr)
  ultimately show ?thesis using k(2,3) B(3,4) by (simp add: shared_memory_read_def shared_memory_object_def storage_read_def)
qed

text \<open>C9: new shared memory holds no data of its previous owner. \<^verbatim>\<open>create_handle\<close> always returns; when it gives a handle, the frames
  behind it belonged to no other storage and to no other part of the kernel, every read through the handle gives zeros, and
  no page of anyone else has changed. When it refuses, every storage and every other part of the kernel owns exactly the frames it
  owned, and all other frames of the arena are idle: frames acquired before the failure stay in the arena for the next request.\<close>

theorem new_shared_memory_is_private:
  assumes "fw_reachable api va hhdm es w" "phys_api_ok api" "table_wf t"
  shows "\<exists>r ar a mem t' h'. create_handle api va al fal hal len hhdm (fw_arena w) (fw_allocator w) (fw_memory w) t h = Some (r, ar, a, mem, t', h') \<and>
    (\<forall>x \<in> page_bytes hhdm (set (storage_frames (fw_storages w)) \<union> fw_foreign w). mem x = fw_memory w x) \<and>
    (case r of
       Inl e \<Rightarrow> arena_ok (storage_frames (fw_storages w)) ar a \<and> foreign (storage_frames (fw_storages w)) ar a = fw_foreign w
     | Inr (hn, s) \<Rightarrow>
         set (fs_frames s) \<inter> (set (storage_frames (fw_storages w)) \<union> fw_foreign w) = {} \<and>
         (\<forall>off n. off + n \<le> len \<longrightarrow> shared_memory_read hn off n t' h' = Inr (replicate n 0)))"
proof -
  let ?outs = "storage_frames (fw_storages w)"
  have ok: "arena_ok ?outs (fw_arena w) (fw_allocator w)" using fw_reachable_ok [OF assms(1,2)] by (simp add: fw_ok_def)
  obtain r ar a mem where c: "storage_create api va al fal len hhdm (fw_arena w) (fw_allocator w) (fw_memory w) = Some (r, ar, a, mem)"
      "\<forall>x \<in> page_bytes hhdm (set ?outs \<union> fw_foreign w). mem x = fw_memory w x"
      "case r of
         Inl e \<Rightarrow> arena_ok ?outs ar a \<and> foreign ?outs ar a = fw_foreign w
       | Inr s \<Rightarrow> arena_ok (?outs @ fs_frames s) ar a \<and> foreign (?outs @ fs_frames s) ar a = fw_foreign w \<and> fstorage_ok va s \<and>
           fs_hhdm_offset s = hhdm \<and> fs_logical_len s = len \<and> storage_bytes mem s = replicate len 0"
    using storage_create_spec [OF ok assms(2), of va al fal len hhdm "fw_memory w"] by blast
  show ?thesis
  proof (cases r)
    case (Inl e)
    then show ?thesis using c by (simp add: create_handle_def)
  next
    case (Inr s)
    with c(3) have s: "arena_ok (?outs @ fs_frames s) ar a" "foreign (?outs @ fs_frames s) ar a = fw_foreign w" "fstorage_ok va s"
        "fs_logical_len s = len" "storage_bytes mem s = replicate len 0" by simp_all
    obtain q t' h' where q: "shared_memory_create_with_storage hal (storage_of mem s) t h = (q, t', h')" by (metis prod_cases3)
    obtain ar' where d: "storage_drop s ar = Some ar'" "arena_ok ?outs ar' a" "foreign ?outs ar' a = fw_foreign w"
      using return_frames_ok [OF s(1), of True] s(2) by (auto simp: storage_drop_def)
    have "set (fs_frames s) \<inter> (set ?outs \<union> fw_foreign w) = {}" unfolding s(2) [symmetric] using s(1) by (auto simp: arena_ok_def foreign_def)
    moreover have "shared_memory_read hn off n t' h' = Inr (replicate n 0)" if "q = Inr hn" "off + n \<le> len" for hn off n
      using create_with_storage_reads [OF q [unfolded that(1)] assms(3), of off n] that(2) s(3-5) by (auto simp: storage_of_def fstorage_ok_def min_def)
    ultimately show ?thesis using c(1,2) Inr q d by (cases q) (auto simp: create_handle_def)
  qed
qed

section \<open>A concrete system\<close>

definition sample_arena :: shared_frame_arena where
  "sample_arena = \<lparr>ar_free = [], ar_capacity = 0, ar_owned_frames = 0, ar_returned_frames = 0, ar_reclaimed_frames = 0,
     ar_reclaim_failures = 0, ar_last_reclaim_error = None\<rparr>"

definition sample_storage :: frame_storage where
  "sample_storage = \<lparr>fs_frames = [8192], fs_logical_len = 5, fs_mapped_len = 4096, fs_hhdm_offset = 0\<rparr>"

definition sample_fw :: frame_world where
  "sample_fw = \<lparr>fw_arena = sample_arena\<lparr>ar_capacity := 1, ar_owned_frames := 1\<rparr>, fw_allocator = sample_used,
     fw_memory = mem_write (\<lambda>_. 7) 8192 (replicate PAGE_SIZE 0), fw_storages = [sample_storage]\<rparr>"

lemma sample_storage_create:
  "storage_create sample_api (\<lambda>_. True) (\<lambda>_. True) (\<lambda>_ _. True) 5 0 sample_arena sample_allocator (\<lambda>_. 7) =
     Some (Inr sample_storage, fw_arena sample_fw, sample_used, fw_memory sample_fw)"
proof -
  have a: "acquire sample_api (\<lambda>_. True) (\<lambda>_ _. True) 1 sample_arena sample_allocator = Some (Inr [8192], fw_arena sample_fw, sample_used)"
    by (simp add: acquire_def sample_arena_def sample_fw_def sample_allocate(1) checked_add_def u64_max_def Let_def)
  have z: "zero_frames (\<lambda>_. True) 0 [8192] (\<lambda>_. 7) = (Inr (), fw_memory sample_fw)"
    by (simp add: frame_pointer_def sample_fw_def checked_add_def u64_max_def PAGE_SIZE_def)
  have r: "checked_add 5 (PAGE_SIZE - 1) = Some 4100" "4100 - 4100 mod PAGE_SIZE = (4096 :: nat)" "4096 div PAGE_SIZE = (1 :: nat)"
    by (simp_all add: PAGE_SIZE_def checked_add_def u64_max_def)
  show ?thesis
    by (simp add: storage_create_def r [unfolded One_nat_def] z a [unfolded One_nat_def] Let_def sample_storage_def del: zero_frames.simps)
qed

lemma sample_fw_reachable: "fw_reachable sample_api (\<lambda>_. True) 0 sample_map sample_fw"
proof -
  let ?w = "\<lparr>fw_arena = sample_arena, fw_allocator = sample_allocator, fw_memory = (\<lambda>_. 7), fw_storages = []\<rparr>"
  have "fw_step sample_api (\<lambda>_. True) 0 ?w sample_fw"
    using fw_step.create [of sample_api "\<lambda>_. True" "\<lambda>_. True" "\<lambda>_ _. True" 5 0 ?w "Inr sample_storage" "fw_arena sample_fw" sample_used "fw_memory sample_fw"]
      sample_storage_create by (simp add: sample_fw_def)
  moreover have "arena_new (\<lambda>_. True) = Inr sample_arena" by (simp add: arena_new_def sample_arena_def)
  ultimately show ?thesis
    unfolding fw_reachable_def using sample_fa_reachable(1) fw_steps.more [OF fw_steps.none] by blast
qed

theorem shared_frames_conserved_witness:
  "(\<exists>ar. storage_drop sample_storage (fw_arena sample_fw) = Some ar \<and> ar_free ar = [8192]) \<and>
   as_owned_frames (arena_stats (fw_arena sample_fw)) = 1"
  using shared_frames_conserved [OF sample_fw_reachable sample_api_ok]
  by (simp add: sample_fw_def sample_arena_def sample_storage_def)

theorem shared_memory_refines_bytes_witness:
  "\<exists>r mem. copy_in (\<lambda>_. True) sample_storage 3 [1, 2] (fw_memory sample_fw) = Some (r, mem) \<and>
     storage_write (storage_of (fw_memory sample_fw) sample_storage) 3 [1, 2] = (r, storage_of mem sample_storage)"
  using shared_memory_refines_bytes [OF sample_fw_reachable sample_api_ok, of sample_storage 3 "[1, 2]"] by (auto simp: sample_fw_def)

theorem new_shared_memory_is_private_witness:
  "\<exists>r ar a mem t' h'. create_handle sample_api (\<lambda>_. True) (\<lambda>_. True) (\<lambda>_ _. True) (\<lambda>_. True) 9 0 (fw_arena sample_fw) (fw_allocator sample_fw)
       (fw_memory sample_fw) [] heap_empty = Some (r, ar, a, mem, t', h') \<and>
     (\<forall>hn s. r = Inr (hn, s) \<longrightarrow> 8192 \<notin> set (fs_frames s) \<and> shared_memory_read hn 0 9 t' h' = Inr (replicate 9 0))"
proof -
  have "table_wf ([] :: htable)" by (simp add: table_wf_def)
  note P = new_shared_memory_is_private [OF sample_fw_reachable sample_api_ok this, of "\<lambda>_. True" "\<lambda>_ _. True" "\<lambda>_. True" 9 heap_empty]
  obtain r ar a mem t' h' where r: "create_handle sample_api (\<lambda>_. True) (\<lambda>_. True) (\<lambda>_ _. True) (\<lambda>_. True) 9 0 (fw_arena sample_fw)
       (fw_allocator sample_fw) (fw_memory sample_fw) [] heap_empty = Some (r, ar, a, mem, t', h')"
     "\<And>hn s. r = Inr (hn, s) \<Longrightarrow> set (fs_frames s) \<inter> (set (storage_frames (fw_storages sample_fw)) \<union> fw_foreign sample_fw) = {} \<and>
         (\<forall>off n. off + n \<le> 9 \<longrightarrow> shared_memory_read hn off n t' h' = Inr (replicate n 0))"
    using P by (elim exE conjE) (rule that, assumption, simp)
  have "8192 \<in> set (storage_frames (fw_storages sample_fw))" by (simp add: sample_fw_def sample_storage_def)
  with r(2) have "\<forall>hn s. r = Inr (hn, s) \<longrightarrow> 8192 \<notin> set (fs_frames s) \<and> shared_memory_read hn 0 9 t' h' = Inr (replicate 9 0)" by fastforce
  then show ?thesis using r(1) by blast
qed

end
