(* ===== verification/Elf_Loader.thy ===== *)
theory Elf_Loader
  imports Sysapi
begin

text \<open>
  The executable loader of \<^verbatim>\<open>crates/ginkgo-kernel/src/elf.rs\<close>: the reader over untrusted bytes, the validation of an ELF64
  image into a load plan, the check against reserved ranges, and the page loop that hands every page with its contents
  to the address space. The callback that maps a page is an argument with its own state. In the loader the outer option
  is a panic (a slice out of range or the \<^verbatim>\<open>expect\<close>).
\<close>

section \<open>Constants and records\<close>

definition ELF_PAGE_SIZE :: nat where "ELF_PAGE_SIZE = 4096"
definition MAX_PROGRAM_HEADERS :: nat where "MAX_PROGRAM_HEADERS = 128"
definition USER_ADDRESS_END :: nat where "USER_ADDRESS_END = 0x0000800000000000"
definition MAX_TOTAL_LOAD_PAGES :: nat where "MAX_TOTAL_LOAD_PAGES = 2 ^ 40 div ELF_PAGE_SIZE"
definition ELF_HEADER_SIZE :: nat where "ELF_HEADER_SIZE = 64"
definition PROGRAM_HEADER_SIZE :: nat where "PROGRAM_HEADER_SIZE = 56"
definition ELFCLASS64 :: u8 where "ELFCLASS64 = 2"
definition ELFDATA2LSB :: u8 where "ELFDATA2LSB = 1"
definition EV_CURRENT :: nat where "EV_CURRENT = 1"
definition ET_EXEC :: nat where "ET_EXEC = 2"
definition ET_DYN :: nat where "ET_DYN = 3"
definition EM_X86_64 :: nat where "EM_X86_64 = 62"
definition PIE_BASE_START :: nat where "PIE_BASE_START = 0x20000000"
definition PIE_BASE_SLOTS :: nat where "PIE_BASE_SLOTS = 512"
definition PIE_BASE_ALIGNMENT :: nat where "PIE_BASE_ALIGNMENT = 2 * 1024 * 1024"
definition PT_LOAD :: nat where "PT_LOAD = 1"
definition PT_DYNAMIC :: nat where "PT_DYNAMIC = 2"
definition PT_INTERP :: nat where "PT_INTERP = 3"
definition PT_TLS :: nat where "PT_TLS = 7"
definition PF_X :: nat where "PF_X = 1"
definition PF_W :: nat where "PF_W = 2"
definition PF_R :: nat where "PF_R = 4"
definition VALID_SEGMENT_FLAGS :: nat where "VALID_SEGMENT_FLAGS = PF_R OR PF_W OR PF_X"

record segment_permissions =
  sp_writable :: bool
  sp_executable :: bool

record loaded_segment =
  ld_virtual_address :: nat
  ld_memory_size :: nat
  ld_file_size :: nat
  ld_page_start :: nat
  ld_page_count :: nat
  ld_permissions :: segment_permissions

record loaded_image =
  li_entry :: nat
  li_segments :: "loaded_segment list"

record load_segment =
  ls_file_offset :: nat
  ls_virtual_address :: nat
  ls_file_size :: nat
  ls_memory_size :: nat
  ls_page_start :: nat
  ls_page_end :: nat
  ls_permissions :: segment_permissions

record parsed_elf =
  pe_file :: "u8 list"
  pe_entry :: nat
  pe_total_load_pages :: nat
  pe_segments :: "load_segment list"

datatype elf_error =
  Truncated nat nat | BadMagic | UnsupportedClass u8 | UnsupportedEndian u8 | UnsupportedIdentVersion u8 | UnsupportedType nat
| InvalidLoadBias nat | UnsupportedMachine nat | UnsupportedVersion nat | InvalidHeaderSize nat | InvalidProgramHeaderSize nat
| MissingProgramHeaders | UnsupportedProgramHeader nat nat | TooManyProgramHeaders nat | ProgramHeaderTableBeforeHeader nat
| ProgramHeaderTableOverflow | ProgramHeaderTableOutOfBounds | AllocationFailed | NoLoadSegments | EmptyLoadSegment nat
| FileSizeExceedsMemorySize nat | FileRangeOverflow nat | FileRangeOutOfBounds nat | VirtualRangeOverflow nat
| InvalidUserRange nat | InvalidAlignment nat nat | IncongruentAlignment nat | UnknownSegmentFlags nat nat
| UnreadableLoadSegment nat | WritableExecutableSegment nat | OverlappingLoadPages nat nat | TooManyLoadPages nat nat
| InvalidEntry nat | EntryNotExecutable nat

datatype reserved_range_error = ReservedAddressOverflow | ReservedInvalidUserRange nat nat

datatype 'e load_error = LoadElf elf_error | LoadPage 'e

type_synonym 'a elf = "elf_error + 'a"

section \<open>The reader\<close>

definition reader_bytes :: "u8 list \<Rightarrow> nat \<Rightarrow> nat \<Rightarrow> u8 list elf" where
  "reader_bytes file n offset =
     rbind (ok_or (checked_add offset n) (Truncated offset n))
       (\<lambda>end_offset. if length file < end_offset then Inl (Truncated offset n) else Inr (take n (drop offset file)))"

fun from_le_bytes :: "u8 list \<Rightarrow> nat" where
  "from_le_bytes [] = 0"
| "from_le_bytes (b # bs) = unat b + 256 * from_le_bytes bs"

definition reader_u16 :: "u8 list \<Rightarrow> nat \<Rightarrow> nat elf" where
  "reader_u16 file offset = map_sum id from_le_bytes (reader_bytes file 2 offset)"

definition reader_u32 :: "u8 list \<Rightarrow> nat \<Rightarrow> nat elf" where
  "reader_u32 file offset = map_sum id from_le_bytes (reader_bytes file 4 offset)"

definition reader_u64 :: "u8 list \<Rightarrow> nat \<Rightarrow> nat elf" where
  "reader_u64 file offset = map_sum id from_le_bytes (reader_bytes file 8 offset)"

definition align_down :: "nat \<Rightarrow> nat" where
  "align_down address = address - address mod ELF_PAGE_SIZE"

definition align_up :: "nat \<Rightarrow> nat option" where
  "align_up address = map_option align_down (checked_add address (ELF_PAGE_SIZE - 1))"

definition ranges_overlap :: "nat \<Rightarrow> nat \<Rightarrow> nat \<Rightarrow> nat \<Rightarrow> bool" where
  "ranges_overlap first_start first_end second_start second_end \<longleftrightarrow> first_start < second_end \<and> second_start < first_end"

text \<open>\<^verbatim>\<open>u64::is_power_of_two\<close>: one bit is set.\<close>

fun count_ones :: "nat \<Rightarrow> nat" where
  "count_ones n = (if n = 0 then 0 else n mod 2 + count_ones (n div 2))"

declare count_ones.simps [simp del]

definition is_power_of_two :: "nat \<Rightarrow> bool" where
  "is_power_of_two n \<longleftrightarrow> count_ones n = 1"

section \<open>Parsing\<close>

record elf_header =
  eh_type :: nat
  eh_entry :: nat
  eh_table_offset :: nat
  eh_table_count :: nat

text \<open>The identification bytes.\<close>

definition check_ident :: "u8 list \<Rightarrow> unit elf" where
  "check_ident ident =
     (if take 4 ident \<noteq> [0x7f, 0x45, 0x4c, 0x46] then Inl BadMagic
      else if ident ! 4 \<noteq> ELFCLASS64 then Inl (UnsupportedClass (ident ! 4))
      else if ident ! 5 \<noteq> ELFDATA2LSB then Inl (UnsupportedEndian (ident ! 5))
      else if ident ! 6 \<noteq> of_nat EV_CURRENT then Inl (UnsupportedIdentVersion (ident ! 6))
      else Inr ())"

definition parse_header :: "u8 list \<Rightarrow> nat \<Rightarrow> elf_header elf" where
  "parse_header file load_bias =
     rbind (reader_bytes file 16 0) (\<lambda>ident.
     rbind (check_ident ident) (\<lambda>_.
     rbind (reader_u16 file 16) (\<lambda>elf_type.
     if elf_type \<noteq> ET_EXEC \<and> elf_type \<noteq> ET_DYN then Inl (UnsupportedType elf_type)
     else if elf_type = ET_EXEC \<and> load_bias \<noteq> 0 \<or> load_bias mod PIE_BASE_ALIGNMENT \<noteq> 0 then Inl (InvalidLoadBias load_bias)
     else rbind (reader_u16 file 18) (\<lambda>machine.
     if machine \<noteq> EM_X86_64 then Inl (UnsupportedMachine machine)
     else rbind (reader_u32 file 20) (\<lambda>version.
     if version \<noteq> EV_CURRENT then Inl (UnsupportedVersion version)
     else rbind (reader_u64 file 24) (\<lambda>raw_entry.
     rbind (ok_or (checked_add raw_entry load_bias) (InvalidLoadBias load_bias)) (\<lambda>entry.
     rbind (reader_u64 file 32) (\<lambda>program_header_offset.
     rbind (reader_u16 file 52) (\<lambda>header_size.
     if header_size \<noteq> ELF_HEADER_SIZE then Inl (InvalidHeaderSize header_size)
     else rbind (reader_u16 file 54) (\<lambda>program_header_size.
     if program_header_size \<noteq> PROGRAM_HEADER_SIZE then Inl (InvalidProgramHeaderSize program_header_size)
     else rbind (reader_u16 file 56) (\<lambda>program_header_count.
     if program_header_count = 0 then Inl MissingProgramHeaders
     else if program_header_count > MAX_PROGRAM_HEADERS then Inl (TooManyProgramHeaders program_header_count)
     else if program_header_offset < ELF_HEADER_SIZE then Inl (ProgramHeaderTableBeforeHeader program_header_offset)
     else rbind (ok_or (checked_mul program_header_size program_header_count) ProgramHeaderTableOverflow) (\<lambda>table_size.
     rbind (ok_or (checked_add program_header_offset table_size) ProgramHeaderTableOverflow) (\<lambda>table_end.
     if table_end > length file then Inl ProgramHeaderTableOutOfBounds
     else Inr \<lparr>eh_type = elf_type, eh_entry = entry, eh_table_offset = program_header_offset,
               eh_table_count = program_header_count\<rparr>)))))))))))))"

text \<open>One \<^verbatim>\<open>PT_LOAD\<close> header: the reads and the checks on the segment alone.\<close>

definition parse_segment :: "u8 list \<Rightarrow> nat \<Rightarrow> nat \<Rightarrow> nat \<Rightarrow> nat \<Rightarrow> load_segment elf" where
  "parse_segment file load_bias elf_type index offset =
     rbind (reader_u32 file (offset + 4)) (\<lambda>flags.
     rbind (reader_u64 file (offset + 8)) (\<lambda>file_offset.
     rbind (reader_u64 file (offset + 16)) (\<lambda>raw_address.
     rbind (ok_or (checked_add raw_address load_bias) (InvalidLoadBias load_bias)) (\<lambda>virtual_address.
     rbind (reader_u64 file (offset + 32)) (\<lambda>file_size.
     rbind (reader_u64 file (offset + 40)) (\<lambda>memory_size.
     rbind (reader_u64 file (offset + 48)) (\<lambda>alignment.
     if memory_size = 0 then Inl (EmptyLoadSegment index)
     else if file_size > memory_size then Inl (FileSizeExceedsMemorySize index)
     else rbind (ok_or (checked_add file_offset file_size) (FileRangeOverflow index)) (\<lambda>file_end.
     if file_end > length file then Inl (FileRangeOutOfBounds index)
     else rbind (ok_or (checked_add virtual_address memory_size) (VirtualRangeOverflow index)) (\<lambda>virtual_end.
     if virtual_address < ELF_PAGE_SIZE \<or> virtual_end > USER_ADDRESS_END then Inl (InvalidUserRange index)
     else if alignment < ELF_PAGE_SIZE \<or> \<not> is_power_of_two alignment \<or> (elf_type = ET_DYN \<and> alignment > PIE_BASE_ALIGNMENT)
       then Inl (InvalidAlignment index alignment)
     else if load_bias mod alignment \<noteq> 0 then Inl (InvalidLoadBias load_bias)
     else if virtual_address mod alignment \<noteq> file_offset mod alignment then Inl (IncongruentAlignment index)
     else if flags AND (2 ^ 32 - 1 - VALID_SEGMENT_FLAGS) \<noteq> 0 then Inl (UnknownSegmentFlags index flags)
     else if flags AND PF_R = 0 then Inl (UnreadableLoadSegment index)
     else
       let writable = flags AND PF_W \<noteq> 0;
           executable = flags AND PF_X \<noteq> 0
       in if writable \<and> executable then Inl (WritableExecutableSegment index)
          else rbind (ok_or (align_up virtual_end) (VirtualRangeOverflow index)) (\<lambda>page_end.
            Inr \<lparr>ls_file_offset = file_offset, ls_virtual_address = virtual_address, ls_file_size = file_size,
                 ls_memory_size = memory_size, ls_page_start = align_down virtual_address, ls_page_end = page_end,
                 ls_permissions = \<lparr>sp_writable = writable, sp_executable = executable\<rparr>\<rparr>))))))))))"

definition page_count :: "load_segment \<Rightarrow> nat" where
  "page_count s = (ls_page_end s - ls_page_start s) div ELF_PAGE_SIZE"

text \<open>The segments found so far are kept with the header index they came from.\<close>

definition add_segment :: "nat \<Rightarrow> load_segment \<Rightarrow> nat \<times> (load_segment \<times> nat) list \<Rightarrow> (nat \<times> (load_segment \<times> nat) list) elf" where
  "add_segment index s = (\<lambda>(total_load_pages, segments).
     rbind (ok_or (checked_add total_load_pages (page_count s)) (TooManyLoadPages u64_max MAX_TOTAL_LOAD_PAGES)) (\<lambda>total.
     if total > MAX_TOTAL_LOAD_PAGES then Inl (TooManyLoadPages total MAX_TOTAL_LOAD_PAGES)
     else
       (case find (\<lambda>(other, _). ranges_overlap (ls_page_start s) (ls_page_end s) (ls_page_start other) (ls_page_end other)) segments of
          Some (_, first) \<Rightarrow> Inl (OverlappingLoadPages first index)
        | None \<Rightarrow> Inr (total, segments @ [(s, index)]))))"

text \<open>The loop over the program headers, from \<open>index\<close> on for \<open>n\<close> more.\<close>

fun parse_segments ::
  "u8 list \<Rightarrow> nat \<Rightarrow> elf_header \<Rightarrow> nat \<Rightarrow> nat \<Rightarrow> nat \<times> (load_segment \<times> nat) list \<Rightarrow> (nat \<times> (load_segment \<times> nat) list) elf" where
  "parse_segments file load_bias hdr index 0 acc = Inr acc"
| "parse_segments file load_bias hdr index (Suc n) acc =
     rbind (ok_or (checked_add (eh_table_offset hdr) (index * PROGRAM_HEADER_SIZE)) ProgramHeaderTableOverflow) (\<lambda>offset.
     rbind (reader_u32 file offset) (\<lambda>kind.
     if kind \<noteq> PT_LOAD then
       if kind \<in> {PT_DYNAMIC, PT_INTERP, PT_TLS} then Inl (UnsupportedProgramHeader index kind)
       else parse_segments file load_bias hdr (Suc index) n acc
     else
       rbind (parse_segment file load_bias (eh_type hdr) index offset) (\<lambda>s.
       rbind (add_segment index s acc) (\<lambda>acc'. parse_segments file load_bias hdr (Suc index) n acc'))))"

definition parse_with_bias :: "allocs \<Rightarrow> u8 list \<Rightarrow> nat \<Rightarrow> parsed_elf elf" where
  "parse_with_bias al file load_bias =
     rbind (parse_header file load_bias) (\<lambda>hdr.
     if \<not> al 0 \<or> \<not> al 1 then Inl AllocationFailed
     else rbind (parse_segments file load_bias hdr 0 (eh_table_count hdr) (0, [])) (\<lambda>(total_load_pages, found).
     let segments = map fst found; entry = eh_entry hdr
     in if segments = [] then Inl NoLoadSegments
        else if entry < ELF_PAGE_SIZE \<or> entry \<ge> USER_ADDRESS_END then Inl (InvalidEntry entry)
        else if \<not> list_ex (\<lambda>s. sp_executable (ls_permissions s) \<and> entry \<ge> ls_virtual_address s \<and>
                              entry < ls_virtual_address s + ls_memory_size s) segments
          then Inl (EntryNotExecutable entry)
        else Inr \<lparr>pe_file = file, pe_entry = entry, pe_total_load_pages = total_load_pages, pe_segments = segments\<rparr>))"

definition elf_parse :: "allocs \<Rightarrow> u8 list \<Rightarrow> parsed_elf elf" where
  "elf_parse al file = parse_with_bias al file 0"

definition parse_randomized :: "allocs \<Rightarrow> u8 list \<Rightarrow> nat \<Rightarrow> parsed_elf elf" where
  "parse_randomized al file random =
     rbind (reader_u16 file 16) (\<lambda>elf_type.
     parse_with_bias al file
       (if elf_type = ET_DYN then PIE_BASE_START + random mod PIE_BASE_SLOTS * PIE_BASE_ALIGNMENT else 0))"

definition overlaps_reserved_range :: "parsed_elf \<Rightarrow> nat \<Rightarrow> nat \<Rightarrow> reserved_range_error + bool" where
  "overlaps_reserved_range p start len =
     (if len = 0 then Inr False
      else rbind (ok_or (checked_add start len) ReservedAddressOverflow) (\<lambda>end_address.
        if start < ELF_PAGE_SIZE \<or> end_address > USER_ADDRESS_END then Inl (ReservedInvalidUserRange start len)
        else rbind (ok_or (align_up end_address) ReservedAddressOverflow) (\<lambda>page_end.
          Inr (list_ex (\<lambda>s. ranges_overlap (align_down start) page_end (ls_page_start s) (ls_page_end s)) (pe_segments p)))))"

section \<open>Loading\<close>

text \<open>The contents of one page: zeros with the file bytes of the segment copied in. Slices out of range panic.\<close>

definition copy_slice :: "u8 list \<Rightarrow> nat \<Rightarrow> u8 list \<Rightarrow> nat \<Rightarrow> nat \<Rightarrow> u8 list option" where
  "copy_slice contents destination_start file source_start len =
     (if destination_start + len \<le> length contents \<and> source_start + len \<le> length file
      then Some (take destination_start contents @ take len (drop source_start file) @ drop (destination_start + len) contents)
      else None)"

definition page_contents :: "u8 list \<Rightarrow> load_segment \<Rightarrow> nat \<Rightarrow> u8 list option" where
  "page_contents file s page_address =
     (let file_virtual_end = ls_virtual_address s + ls_file_size s;
          contents = replicate ELF_PAGE_SIZE 0;
          copy_start = max page_address (ls_virtual_address s);
          copy_end = min (page_address + ELF_PAGE_SIZE) file_virtual_end
      in if copy_start < copy_end
         then copy_slice contents (copy_start - page_address) file (ls_file_offset s + (copy_start - ls_virtual_address s)) (copy_end - copy_start)
         else Some contents)"

type_synonym ('s, 'e) page_loader = "nat \<Rightarrow> segment_permissions \<Rightarrow> u8 list \<Rightarrow> 's \<Rightarrow> ('e + unit) \<times> 's"

function load_pages :: "('s, 'e) page_loader \<Rightarrow> u8 list \<Rightarrow> load_segment \<Rightarrow> nat \<Rightarrow> 's \<Rightarrow> (('e + unit) \<times> 's) option" where
  "load_pages load_page file s page_address st =
     (if page_address < ls_page_end s then
        case page_contents file s page_address of
          None \<Rightarrow> None
        | Some contents \<Rightarrow>
            (case load_page page_address (ls_permissions s) contents st of
               (Inl e, st') \<Rightarrow> Some (Inl e, st')
             | (Inr _, st') \<Rightarrow> load_pages load_page file s (page_address + ELF_PAGE_SIZE) st')
      else Some (Inr (), st))"
  by auto
termination
  by (relation "measure (\<lambda>(load_page, file, s, page_address, st). ls_page_end s - page_address)") (auto simp: ELF_PAGE_SIZE_def)

declare load_pages.simps [simp del]

fun load_segments :: "('s, 'e) page_loader \<Rightarrow> u8 list \<Rightarrow> load_segment list \<Rightarrow> 's \<Rightarrow> (('e + unit) \<times> 's) option" where
  "load_segments load_page file [] st = Some (Inr (), st)"
| "load_segments load_page file (s # ss) st =
     (if u64_max < ls_virtual_address s + ls_file_size s then None
      else
        case load_pages load_page file s (ls_page_start s) st of
          None \<Rightarrow> None
        | Some (Inl e, st') \<Rightarrow> Some (Inl e, st')
        | Some (Inr _, st') \<Rightarrow> load_segments load_page file ss st')"

definition segment_metadata :: "load_segment \<Rightarrow> loaded_segment" where
  "segment_metadata s =
     \<lparr>ld_virtual_address = ls_virtual_address s, ld_memory_size = ls_memory_size s, ld_file_size = ls_file_size s,
      ld_page_start = ls_page_start s, ld_page_count = page_count s, ld_permissions = ls_permissions s\<rparr>"

definition parsed_load_with :: "allocs \<Rightarrow> ('s, 'e) page_loader \<Rightarrow> parsed_elf \<Rightarrow> 's \<Rightarrow> (('e load_error + loaded_image) \<times> 's) option" where
  "parsed_load_with al load_page p st =
     (if \<not> al 0 then Some (Inl (LoadElf AllocationFailed), st)
      else
        let loaded = \<lparr>li_entry = pe_entry p, li_segments = map segment_metadata (pe_segments p)\<rparr>
        in map_option (\<lambda>(r, st'). (map_sum LoadPage (\<lambda>_. loaded) r, st')) (load_segments load_page (pe_file p) (pe_segments p) st))"

definition load_with :: "allocs \<Rightarrow> allocs \<Rightarrow> ('s, 'e) page_loader \<Rightarrow> u8 list \<Rightarrow> 's \<Rightarrow> (('e load_error + loaded_image) \<times> 's) option" where
  "load_with al al' load_page file st =
     (case elf_parse al file of
        Inl e \<Rightarrow> Some (Inl (LoadElf e), st)
      | Inr p \<Rightarrow> parsed_load_with al' load_page p st)"

declare guard_Inr [simp]

section \<open>Alignment\<close>

lemma count_ones_0: "count_ones n = 0 \<longleftrightarrow> n = 0"
proof (induction n rule: count_ones.induct)
  case (1 n)
  show ?case
  proof (cases "n = 0")
    case False
    then have "n mod 2 = 0 \<Longrightarrow> n div 2 \<noteq> 0" by presburger
    then show ?thesis using False "1.IH" by (subst count_ones.simps) auto
  qed (simp add: count_ones.simps)
qed

lemma is_power_of_two_iff: "is_power_of_two n \<longleftrightarrow> (\<exists>k. n = 2 ^ k)"
proof
  show "is_power_of_two n \<Longrightarrow> \<exists>k. n = 2 ^ k"
    unfolding is_power_of_two_def
  proof (induction n rule: count_ones.induct)
    case (1 n)
    then have n: "n \<noteq> 0" "n mod 2 + count_ones (n div 2) = 1" by (auto simp: count_ones.simps [of n] split: if_splits)
    show ?case
    proof (cases "even n")
      case True
      then obtain k where "n div 2 = 2 ^ k" using "1.IH" n by auto
      then have "n = 2 ^ Suc k" using True by (metis dvd_mult_div_cancel power_Suc)
      then show ?thesis by blast
    next
      case False
      then have "n div 2 = 0" using n count_ones_0 [of "n div 2"] by (simp add: odd_iff_mod_2_eq_one)
      then have "n = 2 ^ 0" using False by (simp add: div_eq_0_iff) presburger
      then show ?thesis by blast
    qed
  qed
  assume "\<exists>k. n = 2 ^ k"
  then obtain k where "n = 2 ^ k" by blast
  moreover have "count_ones (2 ^ k) = 1"
  proof (induction k)
    case (Suc k)
    then show ?case by (subst count_ones.simps) simp
  qed (simp add: count_ones.simps)
  ultimately show "is_power_of_two n" by (simp add: is_power_of_two_def)
qed

lemma ELF_PAGE_SIZE_pos [simp]: "0 < ELF_PAGE_SIZE" "ELF_PAGE_SIZE \<noteq> 0"
  by (simp_all add: ELF_PAGE_SIZE_def)

lemma page_dvd_alignment:
  assumes "is_power_of_two n" "ELF_PAGE_SIZE \<le> n"
  shows "ELF_PAGE_SIZE dvd n"
proof -
  obtain k where k: "n = 2 ^ k" using assms(1) by (auto simp: is_power_of_two_iff)
  have P: "ELF_PAGE_SIZE = 2 ^ 12" by (simp add: ELF_PAGE_SIZE_def)
  have "12 \<le> k" using power_le_imp_le_exp [of "2 :: nat" 12 k] assms(2) unfolding k P by linarith
  then show ?thesis unfolding k P by (rule le_imp_power_dvd)
qed

lemma align_down_props:
  "ELF_PAGE_SIZE dvd align_down x" "align_down x \<le> x" "x < align_down x + ELF_PAGE_SIZE"
proof -
  show "ELF_PAGE_SIZE dvd align_down x" unfolding align_down_def by (rule dvd_minus_mod)
  show "align_down x \<le> x" by (simp add: align_down_def)
  have "x = align_down x + x mod ELF_PAGE_SIZE" by (simp add: align_down_def)
  moreover have "x mod ELF_PAGE_SIZE < ELF_PAGE_SIZE" by simp
  ultimately show "x < align_down x + ELF_PAGE_SIZE" by linarith
qed

lemma align_up_props:
  assumes "align_up x = Some y"
  shows "ELF_PAGE_SIZE dvd y" "x \<le> y" "y < x + ELF_PAGE_SIZE"
proof -
  have y: "y = align_down (x + (ELF_PAGE_SIZE - 1))" using assms by (auto simp: align_up_def)
  note d = align_down_props [of "x + (ELF_PAGE_SIZE - 1)"]
  show "ELF_PAGE_SIZE dvd y" "x \<le> y" "y < x + ELF_PAGE_SIZE" using d by (simp_all add: y ELF_PAGE_SIZE_def)
qed

section \<open>What the parser accepts\<close>

text \<open>A segment that may be mapped: inside the file, inside the user half, page-congruent, never writable and executable.\<close>

definition segment_ok :: "u8 list \<Rightarrow> load_segment \<Rightarrow> bool" where
  "segment_ok file s \<longleftrightarrow>
     0 < ls_memory_size s \<and> ls_file_size s \<le> ls_memory_size s \<and> ls_file_offset s + ls_file_size s \<le> length file \<and>
     ELF_PAGE_SIZE \<le> ls_virtual_address s \<and> ls_virtual_address s + ls_memory_size s \<le> USER_ADDRESS_END \<and>
     ls_virtual_address s mod ELF_PAGE_SIZE = ls_file_offset s mod ELF_PAGE_SIZE \<and>
     \<not> (sp_writable (ls_permissions s) \<and> sp_executable (ls_permissions s)) \<and>
     ELF_PAGE_SIZE dvd ls_page_start s \<and> ELF_PAGE_SIZE dvd ls_page_end s \<and>
     ls_page_start s \<le> ls_virtual_address s \<and> ls_virtual_address s < ls_page_start s + ELF_PAGE_SIZE \<and>
     ls_virtual_address s + ls_memory_size s \<le> ls_page_end s \<and> ls_page_end s < ls_virtual_address s + ls_memory_size s + ELF_PAGE_SIZE"

definition pages_disjoint :: "load_segment \<Rightarrow> load_segment \<Rightarrow> bool" where
  "pages_disjoint s t \<longleftrightarrow> ls_page_end s \<le> ls_page_start t \<or> ls_page_end t \<le> ls_page_start s"

lemma parse_segment_ok:
  assumes "parse_segment file load_bias elf_type index offset = Inr s"
  shows "segment_ok file s"
proof -
  have mod: "x mod ELF_PAGE_SIZE = y mod ELF_PAGE_SIZE" if "x mod n = y mod n" "is_power_of_two n" "ELF_PAGE_SIZE \<le> n" for x y n
    using that page_dvd_alignment mod_mod_cancel by metis
  have "0 < ls_memory_size s \<and> ls_file_size s \<le> ls_memory_size s \<and> ls_file_offset s + ls_file_size s \<le> length file \<and>
     ELF_PAGE_SIZE \<le> ls_virtual_address s \<and> ls_virtual_address s + ls_memory_size s \<le> USER_ADDRESS_END \<and>
     (\<exists>n \<ge> ELF_PAGE_SIZE. is_power_of_two n \<and> ls_virtual_address s mod n = ls_file_offset s mod n) \<and>
     \<not> (sp_writable (ls_permissions s) \<and> sp_executable (ls_permissions s)) \<and> ls_page_start s = align_down (ls_virtual_address s) \<and>
     align_up (ls_virtual_address s + ls_memory_size s) = Some (ls_page_end s)"
    using assms unfolding parse_segment_def Let_def rbind_Inr ok_or_Inr checked_add_eq_Some guard_Inr sum.inject
    apply (elim exE conjE, hypsubst, simp only: load_segment.simps segment_permissions.simps)
    subgoal for flags fo va fe fs ms n
      by (intro conjI exI [of _ n]) (simp_all only: not_less de_Morgan_disj not_not neq0_conv simp_thms)
    done
  then obtain n where e: "ELF_PAGE_SIZE \<le> n" "is_power_of_two n" "ls_virtual_address s mod n = ls_file_offset s mod n"
      "ls_page_start s = align_down (ls_virtual_address s)" "align_up (ls_virtual_address s + ls_memory_size s) = Some (ls_page_end s)"
      "0 < ls_memory_size s" "ls_file_size s \<le> ls_memory_size s" "ls_file_offset s + ls_file_size s \<le> length file"
      "ELF_PAGE_SIZE \<le> ls_virtual_address s" "ls_virtual_address s + ls_memory_size s \<le> USER_ADDRESS_END"
      "\<not> (sp_writable (ls_permissions s) \<and> sp_executable (ls_permissions s))"
    by blast
  show ?thesis
    unfolding segment_ok_def e(4)
    by (intro conjI e(6-11) align_down_props align_up_props [OF e(5)] mod [OF e(3,2,1)])
qed


text \<open>The loop invariant: every segment so far is fine, no two share a page, and the pages are counted.\<close>

definition found_ok :: "u8 list \<Rightarrow> nat \<times> (load_segment \<times> nat) list \<Rightarrow> bool" where
  "found_ok file = (\<lambda>(n, found). let ss = map fst found in
     (\<forall>s \<in> set ss. segment_ok file s) \<and> sorted_wrt pages_disjoint ss \<and> n = sum_list (map page_count ss) \<and> n \<le> MAX_TOTAL_LOAD_PAGES)"

lemma add_segment_ok:
  assumes "add_segment index s acc = Inr acc'" "found_ok file acc" "segment_ok file s"
  shows "found_ok file acc'"
proof -
  obtain n found where acc: "acc = (n, found)" by fastforce
  from assms(1) have "find (\<lambda>(t, _). ranges_overlap (ls_page_start s) (ls_page_end s) (ls_page_start t) (ls_page_end t)) found = None"
      "acc' = (n + page_count s, found @ [(s, index)])" "n + page_count s \<le> MAX_TOTAL_LOAD_PAGES"
    by (auto simp: add_segment_def acc split: option.splits)
  then show ?thesis
    using assms(2,3) by (auto simp: found_ok_def acc sorted_wrt_append pages_disjoint_def ranges_overlap_def find_None_iff Let_def not_less)
qed

lemma parse_segments_ok:
  "parse_segments bytes load_bias hdr index n acc = Inr acc' \<Longrightarrow> found_ok bytes acc \<Longrightarrow> found_ok bytes acc'"
proof (induction bytes load_bias hdr index n acc rule: parse_segments.induct)
  case (2 bytes load_bias hdr index n acc)
  from "2.prems"(1) obtain off kind where k: "ok_or (checked_add (eh_table_offset hdr) (index * PROGRAM_HEADER_SIZE)) ProgramHeaderTableOverflow = Inr off"
      "reader_u32 bytes off = Inr kind" by auto
  show ?case
  proof (cases "kind = PT_LOAD")
    case False
    then have "parse_segments bytes load_bias hdr (Suc index) n acc = Inr acc'" "kind \<notin> {PT_DYNAMIC, PT_INTERP, PT_TLS}"
      using "2.prems"(1) k by auto
    then show ?thesis using "2.IH"(1) [OF k False] "2.prems"(2) by blast
  next
    case True
    then obtain s a where s: "parse_segment bytes load_bias (eh_type hdr) index off = Inr s" "add_segment index s acc = Inr a"
        "parse_segments bytes load_bias hdr (Suc index) n a = Inr acc'"
      using "2.prems"(1) k by auto
    then show ?thesis using "2.IH"(2) [OF k _ s(1,2,3)] True add_segment_ok [OF s(2) "2.prems"(2) parse_segment_ok [OF s(1)]] by blast
  qed
qed simp

definition image_ok :: "parsed_elf \<Rightarrow> bool" where
  "image_ok p \<longleftrightarrow> (\<forall>s \<in> set (pe_segments p). segment_ok (pe_file p) s) \<and> sorted_wrt pages_disjoint (pe_segments p) \<and>
     pe_total_load_pages p = sum_list (map page_count (pe_segments p)) \<and> pe_total_load_pages p \<le> MAX_TOTAL_LOAD_PAGES \<and>
     (\<exists>s \<in> set (pe_segments p). sp_executable (ls_permissions s) \<and> ls_virtual_address s \<le> pe_entry p \<and>
        pe_entry p < ls_virtual_address s + ls_memory_size s)"

lemma parse_with_bias_ok:
  assumes "parse_with_bias al file load_bias = Inr p"
  shows "pe_file p = file" "image_ok p"
proof -
  from assms obtain hdr n found where h: "parse_segments file load_bias hdr 0 (eh_table_count hdr) (0, []) = Inr (n, found)"
      and p: "p = \<lparr>pe_file = file, pe_entry = eh_entry hdr, pe_total_load_pages = n, pe_segments = map fst found\<rparr>"
      and e: "\<exists>s \<in> set (map fst found). sp_executable (ls_permissions s) \<and> ls_virtual_address s \<le> eh_entry hdr \<and>
        eh_entry hdr < ls_virtual_address s + ls_memory_size s"
    by (auto simp: parse_with_bias_def Let_def list_ex_iff split: prod.splits)
  have "found_ok file (n, found)" by (rule parse_segments_ok [OF h]) (simp add: found_ok_def)
  then show "pe_file p = file" "image_ok p" using e by (simp_all add: p image_ok_def found_ok_def Let_def)
qed

section \<open>The load plan\<close>

text \<open>What a page must hold: file bytes inside the file part of the segment, zeros everywhere else.\<close>

definition segment_byte :: "u8 list \<Rightarrow> load_segment \<Rightarrow> nat \<Rightarrow> u8" where
  "segment_byte bytes s x =
     (if ls_virtual_address s \<le> x \<and> x < ls_virtual_address s + ls_file_size s
      then bytes ! (ls_file_offset s + (x - ls_virtual_address s)) else 0)"

definition page_image :: "u8 list \<Rightarrow> load_segment \<Rightarrow> nat \<Rightarrow> u8 list" where
  "page_image bytes s a = map (\<lambda>i. segment_byte bytes s (a + i)) [0..<ELF_PAGE_SIZE]"

definition segment_pages :: "load_segment \<Rightarrow> nat list" where
  "segment_pages s = map (\<lambda>i. ls_page_start s + i * ELF_PAGE_SIZE) [0..<page_count s]"

type_synonym page_call = "nat \<times> segment_permissions \<times> u8 list"

definition segment_plan :: "u8 list \<Rightarrow> load_segment \<Rightarrow> page_call list" where
  "segment_plan bytes s = map (\<lambda>a. (a, ls_permissions s, page_image bytes s a)) (segment_pages s)"

definition image_plan :: "parsed_elf \<Rightarrow> page_call list" where
  "image_plan p = concat (map (segment_plan (pe_file p)) (pe_segments p))"

text \<open>Calling a page loader in order, up to its first error.\<close>

fun run_calls :: "('s, 'e) page_loader \<Rightarrow> page_call list \<Rightarrow> 's \<Rightarrow> ('e + unit) \<times> 's" where
  "run_calls load_page [] st = (Inr (), st)"
| "run_calls load_page ((a, perms, contents) # calls) st =
     (case load_page a perms contents st of
        (Inl e, st') \<Rightarrow> (Inl e, st')
      | (Inr _, st') \<Rightarrow> run_calls load_page calls st')"

lemma run_calls_append:
  "run_calls lp (xs @ ys) st = (case run_calls lp xs st of (Inl e, st') \<Rightarrow> (Inl e, st') | (Inr _, st') \<Rightarrow> run_calls lp ys st')"
  by (induction lp xs st rule: run_calls.induct) (auto split: prod.splits sum.splits)

lemma copy_slice_zeros:
  assumes "d + n \<le> len" "src + n \<le> length bytes"
  shows "copy_slice (replicate len 0) d bytes src n = Some (map (\<lambda>i. if d \<le> i \<and> i < d + n then bytes ! (src + (i - d)) else 0) [0..<len])"
  using assms by (auto simp: copy_slice_def nth_append intro!: nth_equalityI)

lemma page_contents_spec:
  assumes "segment_ok bytes s"
  shows "page_contents bytes s a = Some (page_image bytes s a)"
proof -
  let ?va = "ls_virtual_address s" and ?fo = "ls_file_offset s" and ?fs = "ls_file_size s"
  let ?cs = "max a ?va" and ?ce = "min (a + ELF_PAGE_SIZE) (?va + ?fs)"
  have fit: "?fo + ?fs \<le> length bytes" using assms by (simp add: segment_ok_def)
  show ?thesis
  proof (cases "?cs < ?ce")
    case False
    then have "segment_byte bytes s (a + i) = 0" if "i < ELF_PAGE_SIZE" for i using that by (auto simp: segment_byte_def)
    then have "page_image bytes s a = replicate ELF_PAGE_SIZE 0" by (intro nth_equalityI) (simp_all add: page_image_def)
    then show ?thesis by (simp only: page_contents_def Let_def False if_False)
  next
    case True
    let ?src = "?fo + (?cs - ?va)" and ?n = "?ce - ?cs" and ?d = "?cs - a"
    have b: "?d + ?n \<le> ELF_PAGE_SIZE" "?src + ?n \<le> length bytes" using True fit by auto
    have "page_contents bytes s a = Some (map (\<lambda>i. if ?d \<le> i \<and> i < ?d + ?n then bytes ! (?src + (i - ?d)) else 0) [0..<ELF_PAGE_SIZE])"
      using b by (simp only: page_contents_def Let_def True if_True copy_slice_zeros)
    moreover have "(if ?d \<le> i \<and> i < ?d + ?n then bytes ! (?src + (i - ?d)) else 0) = segment_byte bytes s (a + i)" if "i < ELF_PAGE_SIZE" for i
    proof -
      have c: "?d \<le> i \<and> i < ?d + ?n \<longleftrightarrow> ?va \<le> a + i \<and> a + i < ?va + ?fs" using True that by (auto simp: max_def min_def)
      have e: "?src + (i - ?d) = ?fo + (a + i - ?va)" if "?d \<le> i" using that by linarith
      show ?thesis unfolding segment_byte_def c [symmetric] by (rule if_cong [OF refl _ refl]) (use e in \<open>simp only:\<close>)
    qed
    ultimately show ?thesis by (simp add: page_image_def)
  qed
qed

lemma segment_page_end:
  assumes "segment_ok bytes s"
  shows "ls_page_end s = ls_page_start s + page_count s * ELF_PAGE_SIZE"
proof -
  have "ls_page_start s \<le> ls_page_end s" "ELF_PAGE_SIZE dvd ls_page_end s - ls_page_start s"
    using assms by (auto simp: segment_ok_def)
  then show ?thesis by (simp add: page_count_def)
qed

lemma load_pages_spec:
  assumes "segment_ok bytes s" "k \<le> page_count s"
  shows "load_pages lp bytes s (ls_page_start s + k * ELF_PAGE_SIZE) st =
    Some (run_calls lp (drop k (segment_plan bytes s)) st)"
  using assms(2)
proof (induction "page_count s - k" arbitrary: k st)
  case 0
  then show ?case using segment_page_end [OF assms(1)] by (subst load_pages.simps) (simp add: segment_plan_def segment_pages_def)
next
  case (Suc n)
  let ?a = "ls_page_start s + k * ELF_PAGE_SIZE"
  have k: "k < page_count s" using Suc.hyps(2) by simp
  then have lt: "?a < ls_page_end s" using segment_page_end [OF assms(1)] by simp
  have d: "drop k (segment_plan bytes s) = (?a, ls_permissions s, page_image bytes s ?a) # drop (Suc k) (segment_plan bytes s)"
    using k by (simp add: segment_plan_def segment_pages_def Cons_nth_drop_Suc [symmetric] del: drop_map drop_upt)
  have IH: "load_pages lp bytes s (?a + ELF_PAGE_SIZE) st' = Some (run_calls lp (drop (Suc k) (segment_plan bytes s)) st')" for st'
    using Suc.hyps(1) [of "Suc k" st'] Suc.hyps(2) k by (simp add: algebra_simps)
  show ?case
    unfolding d by (subst load_pages.simps) (simp add: lt page_contents_spec [OF assms(1)] IH split: prod.splits sum.splits)
qed

lemma load_segments_spec:
  assumes "\<forall>s \<in> set ss. segment_ok bytes s"
  shows "load_segments lp bytes ss st = Some (run_calls lp (concat (map (segment_plan bytes) ss)) st)"
  using assms
proof (induction ss arbitrary: st)
  case (Cons s ss)
  have ok: "segment_ok bytes s" using Cons.prems by simp
  have "ls_virtual_address s + ls_file_size s \<le> u64_max" using ok by (simp add: segment_ok_def USER_ADDRESS_END_def u64_max_def)
  then show ?case using Cons load_pages_spec [OF ok, of 0 lp st] by (auto simp: run_calls_append not_less split: prod.splits sum.splits)
qed simp

lemma dvd_less_add:
  assumes "ELF_PAGE_SIZE dvd x" "ELF_PAGE_SIZE dvd y" "x < y + ELF_PAGE_SIZE"
  shows "x \<le> y"
proof -
  obtain i j where x: "x = ELF_PAGE_SIZE * i" "y = ELF_PAGE_SIZE * j" using assms(1,2) by (elim dvdE)
  then have "ELF_PAGE_SIZE * i < ELF_PAGE_SIZE * Suc j" using assms(3) by simp
  then have "i < Suc j" unfolding mult_less_cancel1 by simp
  then show ?thesis using x by simp
qed

lemma segment_pages_iff:
  assumes "segment_ok bytes s"
  shows "a \<in> set (segment_pages s) \<longleftrightarrow> ELF_PAGE_SIZE dvd a \<and> ls_page_start s \<le> a \<and> a < ls_page_end s"
proof
  have start: "ELF_PAGE_SIZE dvd ls_page_start s" using assms by (simp add: segment_ok_def)
  note pe = segment_page_end [OF assms]
  show "a \<in> set (segment_pages s) \<Longrightarrow> ELF_PAGE_SIZE dvd a \<and> ls_page_start s \<le> a \<and> a < ls_page_end s"
    using start by (auto simp: segment_pages_def pe)
  assume a: "ELF_PAGE_SIZE dvd a \<and> ls_page_start s \<le> a \<and> a < ls_page_end s"
  then have "ELF_PAGE_SIZE dvd a - ls_page_start s" using start by simp
  then obtain k where k: "a = ls_page_start s + k * ELF_PAGE_SIZE" using a by (metis dvdE le_add_diff_inverse mult.commute)
  then have "k < page_count s" using a by (simp add: pe)
  then show "a \<in> set (segment_pages s)" by (auto simp: segment_pages_def k)
qed

lemma page_end_user:
  assumes "segment_ok bytes s"
  shows "ls_page_end s \<le> USER_ADDRESS_END" "ELF_PAGE_SIZE \<le> ls_page_start s"
proof -
  have "ELF_PAGE_SIZE dvd USER_ADDRESS_END" by (simp add: ELF_PAGE_SIZE_def USER_ADDRESS_END_def)
  then show "ls_page_end s \<le> USER_ADDRESS_END" using assms by (intro dvd_less_add) (auto simp: segment_ok_def)
  show "ELF_PAGE_SIZE \<le> ls_page_start s" using assms by (intro dvd_less_add) (auto simp: segment_ok_def)
qed

lemma distinct_segment_pages: "distinct (segment_pages s)"
  by (simp add: segment_pages_def distinct_map inj_on_def)

lemma distinct_image_pages:
  assumes "\<forall>s \<in> set ss. segment_ok bytes s" "sorted_wrt pages_disjoint ss"
  shows "distinct (concat (map segment_pages ss))"
  using assms
proof (induction ss)
  case (Cons s ss)
  have "set (segment_pages s) \<inter> set (segment_pages t) = {}" if "t \<in> set ss" for t
    using Cons.prems that segment_pages_iff [of bytes s] segment_pages_iff [of bytes t] by (fastforce simp: pages_disjoint_def)
  then show ?case using Cons distinct_segment_pages by auto
qed simp

lemma image_plan_pages: "map fst (image_plan p) = concat (map segment_pages (pe_segments p))"
  by (simp add: image_plan_def segment_plan_def map_concat comp_def)

lemma image_plan_ok:
  assumes "image_ok p"
  shows "distinct (map fst (image_plan p))" "length (image_plan p) = pe_total_load_pages p"
    "(a, perms, contents) \<in> set (image_plan p) \<Longrightarrow> ELF_PAGE_SIZE dvd a \<and> ELF_PAGE_SIZE \<le> a \<and> a + ELF_PAGE_SIZE \<le> USER_ADDRESS_END \<and>
       \<not> (sp_writable perms \<and> sp_executable perms) \<and> length contents = ELF_PAGE_SIZE"
proof -
  have seg: "\<forall>s \<in> set (pe_segments p). segment_ok (pe_file p) s" using assms by (simp add: image_ok_def)
  show "distinct (map fst (image_plan p))"
    unfolding image_plan_pages by (rule distinct_image_pages [OF seg]) (use assms in \<open>simp add: image_ok_def\<close>)
  have "length (map fst (image_plan p)) = sum_list (map page_count (pe_segments p))"
    unfolding image_plan_pages by (simp add: length_concat comp_def segment_pages_def)
  then show "length (image_plan p) = pe_total_load_pages p" using assms by (simp add: image_ok_def)
  assume "(a, perms, contents) \<in> set (image_plan p)"
  then obtain s where s: "s \<in> set (pe_segments p)" "a \<in> set (segment_pages s)" "perms = ls_permissions s" "contents = page_image (pe_file p) s a"
    by (auto simp: image_plan_def segment_plan_def)
  have ok: "segment_ok (pe_file p) s" using seg s(1) by blast
  have a: "ELF_PAGE_SIZE dvd a" "ls_page_start s \<le> a" "a < ls_page_end s" using s(2) segment_pages_iff [OF ok] by blast+
  have "a + ELF_PAGE_SIZE \<le> ls_page_end s" using a(1,3) ok by (intro dvd_less_add) (auto simp: segment_ok_def)
  then show "ELF_PAGE_SIZE dvd a \<and> ELF_PAGE_SIZE \<le> a \<and> a + ELF_PAGE_SIZE \<le> USER_ADDRESS_END \<and>
       \<not> (sp_writable perms \<and> sp_executable perms) \<and> length contents = ELF_PAGE_SIZE"
    using a page_end_user [OF ok] ok s(3,4) by (auto simp: segment_ok_def page_image_def)
qed

lemma reserved_overlap_pages:
  assumes ok: "segment_ok bytes s" and e: "align_up (start + len) = Some pe" and "0 < len"
  shows "ranges_overlap (align_down start) pe (ls_page_start s) (ls_page_end s) \<longleftrightarrow>
    (\<exists>a \<in> set (segment_pages s). ranges_overlap a (a + ELF_PAGE_SIZE) start (start + len))"
proof
  note d = align_down_props [of start] and u = align_up_props [OF e]
  have al: "ELF_PAGE_SIZE dvd ls_page_start s" using ok by (simp add: segment_ok_def)
  assume o: "ranges_overlap (align_down start) pe (ls_page_start s) (ls_page_end s)"
  have lt: "ls_page_start s < ls_page_end s" using ok by (auto simp: segment_ok_def)
  let ?a = "max (align_down start) (ls_page_start s)"
  have "?a \<in> set (segment_pages s)" unfolding segment_pages_iff [OF ok] using o lt d(1) al by (auto simp: ranges_overlap_def max_def)
  moreover have "ls_page_start s < start + len"
  proof (rule ccontr)
    assume "\<not> ?thesis"
    then have "pe \<le> ls_page_start s" using u by (intro dvd_less_add [OF u(1) al]) simp
    then show False using o by (simp add: ranges_overlap_def)
  qed
  then have "ranges_overlap ?a (?a + ELF_PAGE_SIZE) start (start + len)" using d assms(3) by (auto simp: ranges_overlap_def)
  ultimately show "\<exists>a \<in> set (segment_pages s). ranges_overlap a (a + ELF_PAGE_SIZE) start (start + len)" by blast
next
  note d = align_down_props [of start] and u = align_up_props [OF e]
  assume "\<exists>a \<in> set (segment_pages s). ranges_overlap a (a + ELF_PAGE_SIZE) start (start + len)"
  then obtain a where a: "ELF_PAGE_SIZE dvd a" "ls_page_start s \<le> a" "a < ls_page_end s" "a < start + len" "start < a + ELF_PAGE_SIZE"
    using segment_pages_iff [OF ok] by (auto simp: ranges_overlap_def)
  have "align_down start \<le> a" using dvd_less_add [OF d(1) a(1)] d(2) a(5) by simp
  then show "ranges_overlap (align_down start) pe (ls_page_start s) (ls_page_end s)" using a u by (auto simp: ranges_overlap_def)
qed

section \<open>Properties\<close>

text \<open>C12: the loader accepts only images it is safe to map. Whatever bytes it is given, each segment of an accepted image lies
  inside the file and inside the nonzero lower half, starts at a file offset congruent to its address, and is not both writable
  and executable; no two segments share a page; the page total is exact and below the limit; and the entry point lies in an
  executable segment.\<close>

theorem accepted_images_are_safe:
  assumes "parse_randomized al bytes random = Inr p"
  shows "(\<forall>s \<in> set (pe_segments p). segment_ok bytes s) \<and> sorted_wrt pages_disjoint (pe_segments p) \<and>
    pe_total_load_pages p = sum_list (map page_count (pe_segments p)) \<and> pe_total_load_pages p \<le> MAX_TOTAL_LOAD_PAGES \<and>
    (\<exists>s \<in> set (pe_segments p). sp_executable (ls_permissions s) \<and> ls_virtual_address s \<le> pe_entry p \<and>
       pe_entry p < ls_virtual_address s + ls_memory_size s)"
proof -
  obtain load_bias where "parse_with_bias al bytes load_bias = Inr p" using assms by (auto simp: parse_randomized_def)
  from parse_with_bias_ok [OF this] show ?thesis by (simp add: image_ok_def)
qed

text \<open>C13: loading an accepted image is exact and does not panic. The page callback is called, up to its first error, for exactly
  the pages of the image in order: different page-aligned user addresses, as many as were announced, never writable and
  executable, each with one full page that holds the file bytes of its segment and zeros everywhere else.\<close>

theorem loading_is_exact:
  assumes "parse_randomized al bytes random = Inr p"
  shows "parsed_load_with al' load_page p st =
      (if al' 0 then
         Some (case run_calls load_page (image_plan p) st of (r, st') \<Rightarrow>
           (map_sum LoadPage (\<lambda>_. \<lparr>li_entry = pe_entry p, li_segments = map segment_metadata (pe_segments p)\<rparr>) r, st'))
       else Some (Inl (LoadElf AllocationFailed), st)) \<and>
    distinct (map fst (image_plan p)) \<and> length (image_plan p) = pe_total_load_pages p \<and>
    (\<forall>(a, perms, contents) \<in> set (image_plan p).
       ELF_PAGE_SIZE dvd a \<and> ELF_PAGE_SIZE \<le> a \<and> a + ELF_PAGE_SIZE \<le> USER_ADDRESS_END \<and>
       \<not> (sp_writable perms \<and> sp_executable perms) \<and> length contents = ELF_PAGE_SIZE)"
proof -
  obtain load_bias where b: "parse_with_bias al bytes load_bias = Inr p" using assms by (auto simp: parse_randomized_def)
  note ok = parse_with_bias_ok [OF b]
  have "\<forall>s \<in> set (pe_segments p). segment_ok (pe_file p) s" using ok(2) by (simp add: image_ok_def)
  note load_segments_spec [OF this, folded image_plan_def, of load_page st]
  then show ?thesis using image_plan_ok [OF ok(2)] by (auto simp: parsed_load_with_def Let_def split: prod.splits)
qed

text \<open>C39: the reserved-range check is exact: for an accepted image it answers true exactly when some page that will be loaded
  contains an address of the range, so that a stack or guard range that passes is never touched by the image.\<close>

theorem reserved_range_check_exact:
  assumes "parse_randomized al bytes random = Inr p" "overlaps_reserved_range p start len = Inr b"
  shows "b \<longleftrightarrow> 0 < len \<and> (\<exists>(a, perms, contents) \<in> set (image_plan p). ranges_overlap a (a + ELF_PAGE_SIZE) start (start + len))"
proof (cases "len = 0")
  case True
  then show ?thesis using assms(2) by (simp add: overlaps_reserved_range_def)
next
  case False
  obtain load_bias where pb: "parse_with_bias al bytes load_bias = Inr p" using assms(1) by (auto simp: parse_randomized_def)
  have seg: "\<And>s. s \<in> set (pe_segments p) \<Longrightarrow> segment_ok (pe_file p) s" using parse_with_bias_ok(2) [OF pb] by (simp add: image_ok_def)
  obtain pe where pe: "align_up (start + len) = Some pe"
      "b \<longleftrightarrow> (\<exists>s \<in> set (pe_segments p). ranges_overlap (align_down start) pe (ls_page_start s) (ls_page_end s))"
    using assms(2) False by (auto simp: overlaps_reserved_range_def list_ex_iff)
  have "b \<longleftrightarrow> (\<exists>s \<in> set (pe_segments p). \<exists>a \<in> set (segment_pages s). ranges_overlap a (a + ELF_PAGE_SIZE) start (start + len))"
    unfolding pe(2) using reserved_overlap_pages [OF seg pe(1)] False by blast
  also have "\<dots> \<longleftrightarrow> (\<exists>a \<in> set (map fst (image_plan p)). ranges_overlap a (a + ELF_PAGE_SIZE) start (start + len))"
    unfolding image_plan_pages by auto
  finally show ?thesis using False by (auto simp: case_prod_beta)
qed

section \<open>A concrete image\<close>

text \<open>One read-execute segment at \<^verbatim>\<open>0x1000\<close> that holds the first four bytes of the file.\<close>

definition sample_elf :: "u8 list" where
  "sample_elf =
     [0x7f, 0x45, 0x4c, 0x46, 2, 1, 1, 0, 0, 0, 0, 0, 0, 0, 0, 0,
      2, 0, 62, 0, 1, 0, 0, 0,
      2, 0x10, 0, 0, 0, 0, 0, 0,
      64, 0, 0, 0, 0, 0, 0, 0,
      0, 0, 0, 0, 0, 0, 0, 0, 0, 0, 0, 0,
      64, 0, 56, 0, 1, 0, 0, 0, 0, 0, 0, 0,
      1, 0, 0, 0, 5, 0, 0, 0,
      0, 0, 0, 0, 0, 0, 0, 0,
      0, 0x10, 0, 0, 0, 0, 0, 0,
      0, 0x10, 0, 0, 0, 0, 0, 0,
      4, 0, 0, 0, 0, 0, 0, 0,
      8, 0, 0, 0, 0, 0, 0, 0,
      0, 0x10, 0, 0, 0, 0, 0, 0]"

definition sample_parsed :: parsed_elf where
  "sample_parsed =
     \<lparr>pe_file = sample_elf, pe_entry = 4098, pe_total_load_pages = 1,
      pe_segments = [\<lparr>ls_file_offset = 0, ls_virtual_address = 4096, ls_file_size = 4, ls_memory_size = 8, ls_page_start = 4096,
        ls_page_end = 8192, ls_permissions = \<lparr>sp_writable = False, sp_executable = True\<rparr>\<rparr>]\<rparr>"

lemmas elf_constants = ELF_PAGE_SIZE_def MAX_PROGRAM_HEADERS_def USER_ADDRESS_END_def MAX_TOTAL_LOAD_PAGES_def ELF_HEADER_SIZE_def
  PROGRAM_HEADER_SIZE_def ELFCLASS64_def ELFDATA2LSB_def EV_CURRENT_def ET_EXEC_def ET_DYN_def EM_X86_64_def PIE_BASE_START_def
  PIE_BASE_SLOTS_def PIE_BASE_ALIGNMENT_def PT_LOAD_def PT_DYNAMIC_def PT_INTERP_def PT_TLS_def PF_X_def PF_W_def PF_R_def
  VALID_SEGMENT_FLAGS_def u64_max_def checked_add_def checked_mul_def ok_or_def

lemmas reader_defs = reader_u16_def reader_u32_def reader_u64_def reader_bytes_def

lemma sample_header:
  "parse_header sample_elf 0 = Inr \<lparr>eh_type = 2, eh_entry = 4098, eh_table_offset = 64, eh_table_count = 1\<rparr>"
  by (simp add: parse_header_def check_ident_def reader_defs sample_elf_def elf_constants)

lemma sample_segment:
  "parse_segment sample_elf 0 2 0 64 = Inr (hd (pe_segments sample_parsed))"
proof -
  have "is_power_of_two 4096" by (simp add: is_power_of_two_def count_ones.simps)
  then show ?thesis
    by (simp add: parse_segment_def reader_defs sample_elf_def sample_parsed_def elf_constants align_down_def align_up_def Let_def)
qed

lemma sample_parse: "parse_randomized (\<lambda>_. True) sample_elf 0 = Inr sample_parsed"
proof -
  have t: "reader_u16 sample_elf 16 = Inr 2" "reader_u32 sample_elf 64 = Inr PT_LOAD"
    by (simp_all add: reader_defs sample_elf_def elf_constants)
  have s: "parse_segments sample_elf 0 \<lparr>eh_type = 2, eh_entry = 4098, eh_table_offset = 64, eh_table_count = 1\<rparr> 0 1 (0, []) =
      Inr (1, [(hd (pe_segments sample_parsed), 0)])"
    using t sample_segment
    by (simp add: add_segment_def ok_or_def checked_add_def u64_max_def page_count_def sample_parsed_def MAX_TOTAL_LOAD_PAGES_def ELF_PAGE_SIZE_def)
  have h: "ET_EXEC = 2" "ET_DYN = 3" by (simp_all add: elf_constants)
  show ?thesis
    by (simp add: parse_randomized_def t h parse_with_bias_def sample_header s [unfolded One_nat_def] Let_def del: parse_segments.simps rbind_Inr)
      (simp add: sample_parsed_def ELF_PAGE_SIZE_def USER_ADDRESS_END_def)
qed

theorem accepted_images_are_safe_witness:
  "segment_ok sample_elf (hd (pe_segments sample_parsed)) \<and> pe_total_load_pages sample_parsed = 1"
  using accepted_images_are_safe [OF sample_parse] by (simp add: sample_parsed_def)

theorem loading_is_exact_witness:
  "length (image_plan sample_parsed) = 1 \<and>
   parsed_load_with (\<lambda>_. True) (\<lambda>a perms contents st. (Inr (), a # st)) sample_parsed [] =
     Some (case run_calls (\<lambda>a perms contents st. (Inr (), a # st)) (image_plan sample_parsed) [] of (r, st') \<Rightarrow>
       (map_sum LoadPage (\<lambda>_. \<lparr>li_entry = pe_entry sample_parsed, li_segments = map segment_metadata (pe_segments sample_parsed)\<rparr>)
         (r :: nat + unit), st'))"
proof -
  have "pe_total_load_pages sample_parsed = 1" by (simp add: sample_parsed_def)
  then show ?thesis
    using loading_is_exact [OF sample_parse, of "\<lambda>_. True" "\<lambda>a perms contents st. (Inr () :: nat + unit, a # st)" "[]"] by simp
qed

theorem reserved_range_check_exact_witness:
  "overlaps_reserved_range sample_parsed 8192 4096 = Inr False \<and>
   \<not> (\<exists>(a, perms, contents) \<in> set (image_plan sample_parsed). ranges_overlap a (a + ELF_PAGE_SIZE) 8192 (8192 + 4096))"
proof -
  have o: "overlaps_reserved_range sample_parsed 8192 4096 = Inr False"
    by (simp add: overlaps_reserved_range_def sample_parsed_def elf_constants align_down_def align_up_def ranges_overlap_def)
  from reserved_range_check_exact [OF sample_parse o] o show ?thesis by simp
qed

end
