(* ===== verification/Panic_Monad.thy ===== *)
theory Panic_Monad
  imports Ginkgo_Prelude
begin

text \<open>
  Methods on \<^verbatim>\<open>&mut self\<close> that return a \<^verbatim>\<open>Result\<close> and can panic, as functions from the object state: \<open>None\<close> is a panic, a
  left value an early return with an error, and the state reached is returned in both cases. \<open>runs m s Q\<close> says that \<open>m\<close>
  returns from \<open>s\<close> without a panic and that its result and final state satisfy \<open>Q\<close>; its rewrite rules push it through the
  combinators.
\<close>

type_synonym ('s, 'e, 'a) routine = "'s \<Rightarrow> (('e + 'a) \<times> 's) option"

definition ret :: "'a \<Rightarrow> ('s, 'e, 'a) routine" where
  "ret x s = Some (Inr x, s)"

definition err :: "'e \<Rightarrow> ('s, 'e, 'a) routine" where
  "err e s = Some (Inl e, s)"

definition panic :: "('s, 'e, 'a) routine" where
  "panic s = None"

definition andthen :: "('s, 'e, 'a) routine \<Rightarrow> ('a \<Rightarrow> ('s, 'e, 'b) routine) \<Rightarrow> ('s, 'e, 'b) routine" where
  "andthen m f s =
     (case m s of
        None \<Rightarrow> None
      | Some (Inl e, s') \<Rightarrow> Some (Inl e, s')
      | Some (Inr x, s') \<Rightarrow> f x s')"

definition update :: "('s \<Rightarrow> 's) \<Rightarrow> ('s, 'e, unit) routine" where
  "update f s = Some (Inr (), f s)"

definition look :: "('s \<Rightarrow> ('s, 'e, 'a) routine) \<Rightarrow> ('s, 'e, 'a) routine" where
  "look f s = f s s"

text \<open>Reading an option that must be there: an index in range, a subtraction that does not underflow.\<close>

definition need :: "'a option \<Rightarrow> ('s, 'e, 'a) routine" where
  "need x s = map_option (\<lambda>y. (Inr y, s)) x"

definition attempt :: "('s, 'e, 'a) routine \<Rightarrow> ('e + 'a \<Rightarrow> ('s, 'e, 'b) routine) \<Rightarrow> ('s, 'e, 'b) routine" where
  "attempt m f s = (case m s of None \<Rightarrow> None | Some (r, s') \<Rightarrow> f r s')"

definition checked_sub :: "nat \<Rightarrow> nat \<Rightarrow> nat option" where
  "checked_sub a b = (if b \<le> a then Some (a - b) else None)"

fun for_each :: "'a list \<Rightarrow> ('a \<Rightarrow> ('s, 'e, unit) routine) \<Rightarrow> ('s, 'e, unit) routine" where
  "for_each [] f = ret ()"
| "for_each (x # xs) f = andthen (f x) (\<lambda>_. for_each xs f)"

section \<open>Running a method\<close>

definition runs :: "('s, 'e, 'a) routine \<Rightarrow> 's \<Rightarrow> ('e + 'a \<Rightarrow> 's \<Rightarrow> bool) \<Rightarrow> bool" where
  "runs m s Q \<longleftrightarrow> (\<exists>r s'. m s = Some (r, s') \<and> Q r s')"

lemma runs_Some: "runs m s Q \<Longrightarrow> m s = Some (r, s') \<Longrightarrow> Q r s'"
  by (auto simp: runs_def)

lemma runsE: "runs m s Q \<Longrightarrow> (\<And>r s'. m s = Some (r, s') \<Longrightarrow> Q r s' \<Longrightarrow> P) \<Longrightarrow> P"
  by (auto simp: runs_def)

lemma runs_mono: "runs m s Q \<Longrightarrow> (\<And>r s'. Q r s' \<Longrightarrow> R r s') \<Longrightarrow> runs m s R"
  by (auto simp: runs_def)

lemma runs_ret [simp]: "runs (ret x) s Q \<longleftrightarrow> Q (Inr x) s"
  by (simp add: runs_def ret_def)

lemma runs_err [simp]: "runs (err e) s Q \<longleftrightarrow> Q (Inl e) s"
  by (simp add: runs_def err_def)

lemma runs_panic [simp]: "\<not> runs panic s Q"
  by (simp add: runs_def panic_def)

lemma runs_update [simp]: "runs (update f) s Q \<longleftrightarrow> Q (Inr ()) (f s)"
  by (simp add: runs_def update_def)

lemma runs_look [simp]: "runs (look f) s Q \<longleftrightarrow> runs (f s) s Q"
  by (simp add: runs_def look_def)

lemma runs_need [simp]: "runs (need x) s Q \<longleftrightarrow> (\<exists>y. x = Some y \<and> Q (Inr y) s)"
  by (cases x) (simp_all add: runs_def need_def)

lemma runs_andthen [simp]:
  "runs (andthen m f) s Q \<longleftrightarrow> runs m s (\<lambda>r s'. case r of Inl e \<Rightarrow> Q (Inl e) s' | Inr x \<Rightarrow> runs (f x) s' Q)"
  by (auto simp: runs_def andthen_def split: option.splits sum.splits)

lemma runs_attempt [simp]: "runs (attempt m f) s Q \<longleftrightarrow> runs m s (\<lambda>r s'. runs (f r) s' Q)"
  by (auto simp: runs_def attempt_def split: option.splits)

lemma runs_if [simp]: "runs (if c then m else n) s Q \<longleftrightarrow> (c \<longrightarrow> runs m s Q) \<and> (\<not> c \<longrightarrow> runs n s Q)"
  by simp

lemma checked_sub_Some [simp]: "checked_sub a b = Some c \<longleftrightarrow> b \<le> a \<and> c = a - b"
  by (auto simp: checked_sub_def)

text \<open>A loop whose body keeps an invariant on the items done so far, and may leave with an error.\<close>

lemma runs_for_each:
  assumes "I [] s"
    and "\<And>seen x rest s. xs = seen @ x # rest \<Longrightarrow> I seen s \<Longrightarrow>
      runs (f x) s (\<lambda>r s'. case r of Inl e \<Rightarrow> Q (Inl e) s' | Inr _ \<Rightarrow> I (seen @ [x]) s')"
    and "\<And>s. I xs s \<Longrightarrow> Q (Inr ()) s"
  shows "runs (for_each xs f) s Q"
proof -
  have "runs (for_each rest f) s Q" if "xs = seen @ rest" "I seen s" for seen rest s
    using that
  proof (induction rest arbitrary: seen s)
    case Nil
    then show ?case using assms(3) by simp
  next
    case (Cons x rest)
    have "runs (f x) s (\<lambda>r s'. case r of Inl e \<Rightarrow> Q (Inl e) s' | Inr _ \<Rightarrow> I (seen @ [x]) s')"
      using assms(2) Cons.prems by blast
    then show ?case using Cons.IH [of "seen @ [x]"] Cons.prems(1)
      by (auto elim!: runs_mono split: sum.splits)
  qed
  from this [of "[]" xs s] assms(1) show ?thesis by simp
qed

end
