(* ===== verification/Probe_Table.thy ===== *)
theory Probe_Table
  imports Ginkgo_Prelude
begin

text \<open>
  The open-address lookup table of \<^verbatim>\<open>crates/ginkgo-kernel/src/writeback.rs\<close>: linear probing with tombstones in a table
  whose length is a power of two. The lemmas say that the probing loops decide whether a block is in the table and keep
  it searchable, for any hash function.
\<close>

datatype lookup_slot = SlotEmpty | SlotTombstone | SlotOccupied nat nat

text \<open>\<^verbatim>\<open>hash_block\<close>, a 64-bit mixer.\<close>

definition hash_block :: "u64 \<Rightarrow> u64" where
  "hash_block value =
     (let v1 = value XOR drop_bit 30 value;
          v2 = v1 * 0xbf58476d1ce4e5b9;
          v3 = v2 XOR drop_bit 27 v2;
          v4 = v3 * 0x94d049bb133111eb
      in v4 XOR drop_bit 31 v4)"

definition home_slot :: "nat \<Rightarrow> nat \<Rightarrow> nat" where
  "home_slot mask_bits block = unat (hash_block (of_nat block)) AND mask_bits"

text \<open>
  The probing loop shared by \<^verbatim>\<open>lookup_entry\<close> and \<^verbatim>\<open>remove_lookup\<close>: the slot that holds the block, if there is one. The outer
  option is an index out of range.
\<close>

fun find_slot :: "lookup_slot list \<Rightarrow> nat \<Rightarrow> nat \<Rightarrow> nat \<Rightarrow> nat \<Rightarrow> nat option option" where
  "find_slot slots mask_bits block 0 slot = Some None"
| "find_slot slots mask_bits block (Suc n) slot =
     (case vec_get slots slot of
        None \<Rightarrow> None
      | Some SlotEmpty \<Rightarrow> Some None
      | Some SlotTombstone \<Rightarrow> find_slot slots mask_bits block n ((slot + 1) AND mask_bits)
      | Some (SlotOccupied stored entry) \<Rightarrow>
          if stored = block then Some (Some slot) else find_slot slots mask_bits block n ((slot + 1) AND mask_bits))"

text \<open>The probing loop of \<^verbatim>\<open>insert_lookup\<close>: the slot to fill and whether it was the first tombstone.\<close>

fun insert_slot :: "lookup_slot list \<Rightarrow> nat \<Rightarrow> nat option \<Rightarrow> nat \<Rightarrow> nat \<Rightarrow> (nat \<times> bool) option option" where
  "insert_slot slots mask_bits first_tombstone 0 slot = Some (map_option (\<lambda>target. (target, True)) first_tombstone)"
| "insert_slot slots mask_bits first_tombstone (Suc n) slot =
     (case vec_get slots slot of
        None \<Rightarrow> None
      | Some SlotEmpty \<Rightarrow> Some (Some (case first_tombstone of None \<Rightarrow> (slot, False) | Some target \<Rightarrow> (target, True)))
      | Some SlotTombstone \<Rightarrow>
          insert_slot slots mask_bits (case first_tombstone of None \<Rightarrow> Some slot | Some target \<Rightarrow> Some target) n ((slot + 1) AND mask_bits)
      | Some (SlotOccupied stored entry) \<Rightarrow> insert_slot slots mask_bits first_tombstone n ((slot + 1) AND mask_bits))"

section \<open>Probe sequences\<close>

lemma and_mask_mod: "x AND (2 ^ k - 1) = (x :: nat) mod 2 ^ k"
  by (metis mask_eq_exp_minus_1 take_bit_eq_mask take_bit_eq_mod)

definition probe :: "nat \<Rightarrow> nat \<Rightarrow> nat \<Rightarrow> nat" where
  "probe n start i = (start + i) mod n"

lemma probe_Suc: "(probe n start i + 1) mod n = probe n start (Suc i)"
  by (simp add: probe_def mod_Suc_eq)

lemma probe_0: "start < n \<Longrightarrow> probe n start 0 = start"
  by (simp add: probe_def)

lemma probe_less: "0 < n \<Longrightarrow> probe n start i < n"
  by (simp add: probe_def)

lemma probe_surj:
  assumes "s < n"
  shows "\<exists>i < n. s = probe n start i"
proof -
  have "(start + (s + n - start mod n) mod n) mod n = (start mod n + (s + n - start mod n)) mod n" by (simp add: mod_simps)
  also have "start mod n + (s + n - start mod n) = s + n" using assms by (simp add: le_add_diff_inverse trans_le_add2 less_imp_le)
  also have "(s + n) mod n = s" using assms by simp
  finally show ?thesis using assms by (intro exI [of _ "(s + n - start mod n) mod n"]) (simp add: probe_def)
qed

text \<open>A table is searchable when nothing on the way from a block's home slot to its slot is empty, and no block is there twice.\<close>

definition searchable :: "(nat \<Rightarrow> nat) \<Rightarrow> lookup_slot list \<Rightarrow> bool" where
  "searchable h slots \<longleftrightarrow>
     (\<forall>s < length slots. \<forall>b e. slots ! s = SlotOccupied b e \<longrightarrow>
        (\<exists>i < length slots. s = probe (length slots) (h b) i \<and> (\<forall>j < i. slots ! probe (length slots) (h b) j \<noteq> SlotEmpty))) \<and>
     (\<forall>s < length slots. \<forall>t < length slots. \<forall>b e f. slots ! s = SlotOccupied b e \<longrightarrow> slots ! t = SlotOccupied b f \<longrightarrow> s = t)"

lemma searchable_path:
  assumes "searchable h slots" "s < length slots" "slots ! s = SlotOccupied b e"
  obtains i where "i < length slots" "s = probe (length slots) (h b) i" "\<forall>j < i. slots ! probe (length slots) (h b) j \<noteq> SlotEmpty"
proof -
  have "\<exists>i < length slots. s = probe (length slots) (h b) i \<and> (\<forall>j < i. slots ! probe (length slots) (h b) j \<noteq> SlotEmpty)"
    using conjunct1 [OF assms(1) [unfolded searchable_def]] assms(2,3) by simp
  then show ?thesis using that by blast
qed

lemma searchable_unique:
  assumes "searchable h slots" "s < length slots" "t < length slots" "slots ! s = SlotOccupied b e" "slots ! t = SlotOccupied b f"
  shows "s = t"
  using conjunct2 [OF assms(1) [unfolded searchable_def]] assms(2-5) by simp

definition holds :: "lookup_slot list \<Rightarrow> nat \<Rightarrow> nat \<Rightarrow> bool" where
  "holds slots b e \<longleftrightarrow> (\<exists>s < length slots. slots ! s = SlotOccupied b e)"

lemma searchable_vacant: "searchable h (replicate n SlotEmpty)"
  by (simp add: searchable_def)

lemma holds_vacant [simp]: "\<not> holds (replicate n SlotEmpty) b e"
  by (simp add: holds_def)

lemma find_slot_from:
  assumes "length slots = 2 ^ k" "searchable h slots" "i + m = 2 ^ k"
    "\<forall>j < i. slots ! probe (2 ^ k) (h b) j \<noteq> SlotEmpty \<and> (\<forall>e. slots ! probe (2 ^ k) (h b) j \<noteq> SlotOccupied b e)"
  shows "\<exists>r. find_slot slots (2 ^ k - 1) b m (probe (2 ^ k) (h b) i) = Some r \<and>
    (case r of Some s \<Rightarrow> s < 2 ^ k \<and> (\<exists>e. slots ! s = SlotOccupied b e) | None \<Rightarrow> \<forall>e. \<not> holds slots b e)"
  using assms(3,4)
proof (induction m arbitrary: i)
  case 0
  have "\<not> holds slots b e" for e
    unfolding holds_def assms(1) using 0 probe_surj [of _ "2 ^ k" "h b"] by (metis add.right_neutral)
  then show ?case by simp
next
  case (Suc m)
  let ?s = "probe (2 ^ k) (h b) i"
  have s: "?s < 2 ^ k" by (simp add: probe_less)
  have nxt: "(?s + 1) AND (2 ^ k - 1) = probe (2 ^ k) (h b) (Suc i)" unfolding and_mask_mod by (rule probe_Suc)
  note get = vec_get_def [of slots ?s, unfolded assms(1)]
  have continue: "?case" if "slots ! ?s \<noteq> SlotEmpty" "\<forall>e. slots ! ?s \<noteq> SlotOccupied b e"
  proof -
    have "find_slot slots (2 ^ k - 1) b (Suc m) ?s = find_slot slots (2 ^ k - 1) b m (probe (2 ^ k) (h b) (Suc i))"
      using that s nxt by (auto simp: get split: lookup_slot.splits)
    moreover have "\<forall>j < Suc i. slots ! probe (2 ^ k) (h b) j \<noteq> SlotEmpty \<and> (\<forall>e. slots ! probe (2 ^ k) (h b) j \<noteq> SlotOccupied b e)"
      using Suc.prems(2) that by (auto simp: less_Suc_eq)
    ultimately show ?thesis using Suc.IH [of "Suc i"] Suc.prems(1) by simp
  qed
  show ?case
  proof (cases "slots ! ?s")
    case SlotEmpty
    have "\<not> holds slots b e" for e
    proof
      assume "holds slots b e"
      then obtain i' where i': "i' < 2 ^ k" "slots ! probe (2 ^ k) (h b) i' = SlotOccupied b e"
          "\<forall>j < i'. slots ! probe (2 ^ k) (h b) j \<noteq> SlotEmpty"
        using assms(1,2) unfolding holds_def searchable_def by metis
      then have "\<not> i' < i" "\<not> i < i'" "i' \<noteq> i" using Suc.prems(2) SlotEmpty by auto
      then show False by simp
    qed
    then show ?thesis using SlotEmpty s by (simp add: get)
  next
    case (SlotOccupied stored entry)
    then show ?thesis using continue s by (cases "stored = b") (auto simp: get)
  qed (use continue in simp)
qed

lemma find_slot_spec:
  assumes "length slots = 2 ^ k" "searchable h slots" "h b < 2 ^ k"
  shows "\<exists>r. find_slot slots (2 ^ k - 1) b (2 ^ k) (h b) = Some r \<and>
    (case r of Some s \<Rightarrow> s < 2 ^ k \<and> (\<exists>e. slots ! s = SlotOccupied b e) | None \<Rightarrow> \<forall>e. \<not> holds slots b e)"
  using find_slot_from [OF assms(1,2), of 0 "2 ^ k" b] assms(3) by (simp add: probe_0)

lemma insert_slot_from:
  assumes "length slots = 2 ^ k" "i + m = 2 ^ k"
    "\<forall>j < i. slots ! probe (2 ^ k) start j \<noteq> SlotEmpty"
    "case ft of
       None \<Rightarrow> \<forall>j < i. slots ! probe (2 ^ k) start j \<noteq> SlotTombstone
     | Some t \<Rightarrow> \<exists>j < i. t = probe (2 ^ k) start j \<and> slots ! t = SlotTombstone"
  shows "\<exists>r. insert_slot slots (2 ^ k - 1) ft m (probe (2 ^ k) start i) = Some r \<and>
    (case r of
       Some (t, tomb) \<Rightarrow> slots ! t = (if tomb then SlotTombstone else SlotEmpty) \<and>
         (\<exists>j < 2 ^ k. t = probe (2 ^ k) start j \<and> (\<forall>l < j. slots ! probe (2 ^ k) start l \<noteq> SlotEmpty))
     | None \<Rightarrow> \<forall>s < 2 ^ k. \<exists>b e. slots ! s = SlotOccupied b e)"
  using assms(2-4)
proof (induction m arbitrary: i ft)
  case 0
  show ?case
  proof (cases ft)
    case None
    have "\<exists>b e. slots ! s = SlotOccupied b e" if "s < 2 ^ k" for s
      using probe_surj [OF that, of start] 0 None by (cases "slots ! s") auto
    then show ?thesis using None by simp
  next
    case (Some t)
    then obtain j where "j < 2 ^ k" "t = probe (2 ^ k) start j" "slots ! t = SlotTombstone" "\<forall>l < j. slots ! probe (2 ^ k) start l \<noteq> SlotEmpty"
      using 0 by auto
    then show ?thesis using Some by auto
  qed
next
  case (Suc m)
  let ?s = "probe (2 ^ k) start i"
  have s: "?s < 2 ^ k" by (simp add: probe_less)
  have nxt: "(?s + 1) AND (2 ^ k - 1) = probe (2 ^ k) start (Suc i)" unfolding and_mask_mod by (rule probe_Suc)
  note get = vec_get_def [of slots ?s, unfolded assms(1)]
  show ?case
  proof (cases "slots ! ?s")
    case SlotEmpty
    have i: "i < 2 ^ k" using Suc.prems(1) by simp
    show ?thesis
    proof (cases ft)
      case None
      then show ?thesis using SlotEmpty s i Suc.prems(2) by (auto simp: get)
    next
      case (Some t)
      then obtain j where "j < i" "t = probe (2 ^ k) start j" "slots ! t = SlotTombstone" using Suc.prems(3) by auto
      moreover from this have "j < 2 ^ k" "\<forall>l < j. slots ! probe (2 ^ k) start l \<noteq> SlotEmpty" using i Suc.prems(2) by simp_all
      ultimately show ?thesis using Some SlotEmpty s by (auto simp: get)
    qed
  next
    case SlotTombstone
    let ?ft = "case ft of None \<Rightarrow> Some ?s | Some t \<Rightarrow> Some t"
    have "case ?ft of None \<Rightarrow> \<forall>j < Suc i. slots ! probe (2 ^ k) start j \<noteq> SlotTombstone
       | Some t \<Rightarrow> \<exists>j < Suc i. t = probe (2 ^ k) start j \<and> slots ! t = SlotTombstone"
      using Suc.prems(3) SlotTombstone by (auto simp: less_Suc_eq split: option.splits)
    moreover have "\<forall>j < Suc i. slots ! probe (2 ^ k) start j \<noteq> SlotEmpty" using Suc.prems(2) SlotTombstone by (auto simp: less_Suc_eq)
    ultimately show ?thesis using Suc.IH [of "Suc i" ?ft] Suc.prems(1) SlotTombstone s nxt by (simp add: get)
  next
    case (SlotOccupied stored entry)
    have "case ft of None \<Rightarrow> \<forall>j < Suc i. slots ! probe (2 ^ k) start j \<noteq> SlotTombstone
       | Some t \<Rightarrow> \<exists>j < Suc i. t = probe (2 ^ k) start j \<and> slots ! t = SlotTombstone"
      using Suc.prems(3) SlotOccupied by (auto simp: less_Suc_eq split: option.splits)
    moreover have "\<forall>j < Suc i. slots ! probe (2 ^ k) start j \<noteq> SlotEmpty" using Suc.prems(2) SlotOccupied by (auto simp: less_Suc_eq)
    ultimately show ?thesis using Suc.IH [of "Suc i" ft] Suc.prems(1) SlotOccupied s nxt by (simp add: get)
  qed
qed

lemma insert_slot_spec:
  assumes "length slots = 2 ^ k" "start < 2 ^ k"
  shows "\<exists>r. insert_slot slots (2 ^ k - 1) None (2 ^ k) start = Some r \<and>
    (case r of
       Some (t, tomb) \<Rightarrow> slots ! t = (if tomb then SlotTombstone else SlotEmpty) \<and>
         (\<exists>j < 2 ^ k. t = probe (2 ^ k) start j \<and> (\<forall>l < j. slots ! probe (2 ^ k) start l \<noteq> SlotEmpty))
     | None \<Rightarrow> \<forall>s < 2 ^ k. \<exists>b e. slots ! s = SlotOccupied b e)"
  using insert_slot_from [OF assms(1), of 0 "2 ^ k" start None] assms(2) by (simp add: probe_0)

section \<open>Updates\<close>

lemma searchable_insert:
  assumes "searchable h slots" "length slots = 2 ^ k" "\<And>e. \<not> holds slots b e" "\<And>c e. slots ! t \<noteq> SlotOccupied c e"
    "j < 2 ^ k" "t = probe (2 ^ k) (h b) j" "\<forall>l < j. slots ! probe (2 ^ k) (h b) l \<noteq> SlotEmpty"
  shows "searchable h (slots[t := SlotOccupied b e])" "holds (slots[t := SlotOccupied b e]) c f \<longleftrightarrow> holds slots c f \<or> c = b \<and> f = e"
proof -
  have t: "t < 2 ^ k" using assms(6) by (simp add: probe_less)
  let ?slots = "slots[t := SlotOccupied b e]"
  have mono: "?slots ! s \<noteq> SlotEmpty" if "slots ! s \<noteq> SlotEmpty" for s using that by (cases "s < length slots"; cases "s = t") (auto simp: list_update_beyond)
  have path: "\<exists>i < 2 ^ k. s = probe (2 ^ k) (h c) i \<and> (\<forall>l < i. ?slots ! probe (2 ^ k) (h c) l \<noteq> SlotEmpty)"
    if s: "s < 2 ^ k" "?slots ! s = SlotOccupied c g" for s c g
  proof (cases "s = t")
    case True
    then have "c = b" using that t assms(2) by simp
    then show ?thesis using True assms(5-7) mono by blast
  next
    case False
    then have "slots ! s = SlotOccupied c g" using s by simp
    then obtain i where "i < 2 ^ k" "s = probe (2 ^ k) (h c) i" "\<forall>l < i. slots ! probe (2 ^ k) (h c) l \<noteq> SlotEmpty"
      using assms(1,2) s(1) unfolding searchable_def by metis
    then show ?thesis using mono by blast
  qed
  have uniq: "s = u" if "s < 2 ^ k" "u < 2 ^ k" "?slots ! s = SlotOccupied c g" "?slots ! u = SlotOccupied c g'" for s u c g g'
  proof (cases "s = t \<or> u = t")
    case True
    then have "c = b" using that t assms(2) by auto
    then show ?thesis using that assms(2,3) True by (auto simp: holds_def nth_list_update split: if_splits)
  next
    case False
    then have "slots ! s = SlotOccupied c g" "slots ! u = SlotOccupied c g'" using that by simp_all
    then show ?thesis using assms(1,2) that(1,2) unfolding searchable_def by metis
  qed
  show "searchable h ?slots" unfolding searchable_def using path uniq assms(2) by simp
  show "holds ?slots c f \<longleftrightarrow> holds slots c f \<or> c = b \<and> f = e"
  proof -
    have "?slots ! s = SlotOccupied c f \<longleftrightarrow> s = t \<and> c = b \<and> f = e \<or> slots ! s = SlotOccupied c f" if "s < 2 ^ k" for s
      using that assms(2,4) by (cases "s = t") auto
    then show ?thesis unfolding holds_def length_list_update assms(2) using t by metis
  qed
qed

lemma searchable_remove:
  assumes "searchable h slots" "t < length slots" "slots ! t = SlotOccupied b e"
  shows "searchable h (slots[t := SlotTombstone])" "holds (slots[t := SlotTombstone]) c f \<longleftrightarrow> holds slots c f \<and> c \<noteq> b"
proof -
  let ?slots = "slots[t := SlotTombstone]"
  have same: "?slots ! s = SlotOccupied c g \<longleftrightarrow> slots ! s = SlotOccupied c g \<and> s \<noteq> t" if "s < length slots" for s c g
    using that by (cases "s = t") auto
  have mono: "?slots ! s \<noteq> SlotEmpty" if "slots ! s \<noteq> SlotEmpty" for s using that by (cases "s < length slots"; cases "s = t") (auto simp: list_update_beyond)
  have path: "\<exists>i < length slots. s = probe (length slots) (h c) i \<and> (\<forall>l < i. ?slots ! probe (length slots) (h c) l \<noteq> SlotEmpty)"
    if s: "s < length slots" "slots ! s = SlotOccupied c g" for s c g
  proof -
    obtain i where "i < length slots" "s = probe (length slots) (h c) i" "\<forall>l < i. slots ! probe (length slots) (h c) l \<noteq> SlotEmpty"
 by (rule searchable_path [OF assms(1) s])
    then show ?thesis using mono by blast
  qed
  have uniq: "s = u" if "s < length slots" "u < length slots" "slots ! s = SlotOccupied c g" "slots ! u = SlotOccupied c g'" for s u c g g'
    by (rule searchable_unique [OF assms(1) that])
  show "searchable h ?slots" unfolding searchable_def length_list_update using path uniq same by simp
  have at: "s = t" if "s < length slots" "slots ! s = SlotOccupied b g" for s g
    by (rule searchable_unique [OF assms(1) that(1) assms(2) that(2) assms(3)])
  show "holds ?slots c f \<longleftrightarrow> holds slots c f \<and> c \<noteq> b"
  proof
    assume "holds ?slots c f"
    then obtain s where s: "s < length slots" "slots ! s = SlotOccupied c f" "s \<noteq> t" unfolding holds_def using same by auto
    then show "holds slots c f \<and> c \<noteq> b" using at [of s f] unfolding holds_def by blast
  next
    assume "holds slots c f \<and> c \<noteq> b"
    then obtain s where s: "s < length slots" "slots ! s = SlotOccupied c f" "c \<noteq> b" unfolding holds_def by blast
    then have "s \<noteq> t" using assms(3) by auto
    then show "holds ?slots c f" unfolding holds_def using s same by auto
  qed
qed

end
