(* ===== verification/Write_Back.thy ===== *)
theory Write_Back
  imports Panic_Monad Probe_Table Sysapi
begin

text \<open>
  The write-back block cache of \<^verbatim>\<open>crates/ginkgo-kernel/src/writeback.rs\<close>: cache entries with write sequences, the lookup table,
  flush tickets, ordered write-back with barriers, read-ahead, and the \<^verbatim>\<open>Disk\<close> interface on top. The backing disk is an argument:
  its four operations (\<open>disk_ops\<close>) on a state of their own. Methods are written in \<open>Panic_Monad\<close>. The \<^verbatim>\<open>read_ahead\<close> buffer is
  scratch space that is filled before every use, and appears as the value passed on. A block is a list of 4096 bytes.
\<close>

section \<open>Types\<close>

definition WRITEBACK_BLOCK_SIZE :: nat where "WRITEBACK_BLOCK_SIZE = 4096"
definition READ_AHEAD_BLOCKS :: nat where "READ_AHEAD_BLOCKS = 4"
definition DEFAULT_WRITEBACK_BATCH_BLOCKS :: nat where "DEFAULT_WRITEBACK_BATCH_BLOCKS = 2"
definition MAX_WRITEBACK_BATCH_BLOCKS :: nat where "MAX_WRITEBACK_BATCH_BLOCKS = 4"

datatype errno = EAGAIN | EINVAL | EIO | ENOSPC | EROFS | Errno int

datatype write_back_config_error = ZeroCapacity | InvalidWritebackBatch | CapacityOverflow | WbAllocationFailed

datatype write_back_failure_operation = FailedWrite nat nat nat | FailedFlush nat

record write_back_failure =
  wf_errno :: errno
  wf_operation :: write_back_failure_operation

datatype write_back_progress = WbIdle | WroteBlock nat nat nat | WbFlushed nat

record drain_report =
  dr_ticket :: nat
  dr_durable_sequence :: nat
  dr_dirty_remaining :: nat
  dr_steps :: nat
  dr_complete :: bool

record write_back_metrics =
  wm_read_requests :: nat
  wm_read_blocks :: nat
  wm_read_hits :: nat
  wm_dirty_read_hits :: nat
  wm_clean_read_hits :: nat
  wm_read_misses :: nat
  wm_underlying_reads :: nat
  wm_read_errors :: nat
  wm_read_cache_admission_failures :: nat
  wm_read_ahead_requests :: nat
  wm_read_ahead_blocks :: nat
  wm_write_requests :: nat
  wm_write_blocks_accepted :: nat
  wm_coalesced_writes :: nat
  wm_rejected_writes :: nat
  wm_backpressure_events :: nat
  wm_pressure_writeback_steps :: nat
  wm_pressure_entries_freed :: nat
  wm_pressure_stalls :: nat
  wm_cache_insertions :: nat
  wm_clean_evictions :: nat
  wm_lookup_tombstones_created :: nat
  wm_flush_requests :: nat
  wm_flush_backpressure_events :: nat
  wm_synchronous_flush_drains :: nat
  wm_synchronous_flush_incomplete :: nat
  wm_async_writeback_enables :: nat
  wm_writeback_steps :: nat
  wm_blocks_written_back :: nat
  wm_bytes_written_back :: nat
  wm_underlying_flushes :: nat
  wm_writeback_errors :: nat
  wm_retries :: nat
  wm_dirty_high_watermark :: nat

definition metrics_default :: write_back_metrics where
  "metrics_default =
     \<lparr>wm_read_requests = 0, wm_read_blocks = 0, wm_read_hits = 0, wm_dirty_read_hits = 0, wm_clean_read_hits = 0, wm_read_misses = 0,
      wm_underlying_reads = 0, wm_read_errors = 0, wm_read_cache_admission_failures = 0, wm_read_ahead_requests = 0,
      wm_read_ahead_blocks = 0, wm_write_requests = 0, wm_write_blocks_accepted = 0, wm_coalesced_writes = 0, wm_rejected_writes = 0,
      wm_backpressure_events = 0, wm_pressure_writeback_steps = 0, wm_pressure_entries_freed = 0, wm_pressure_stalls = 0,
      wm_cache_insertions = 0, wm_clean_evictions = 0, wm_lookup_tombstones_created = 0, wm_flush_requests = 0,
      wm_flush_backpressure_events = 0, wm_synchronous_flush_drains = 0, wm_synchronous_flush_incomplete = 0,
      wm_async_writeback_enables = 0, wm_writeback_steps = 0, wm_blocks_written_back = 0, wm_bytes_written_back = 0,
      wm_underlying_flushes = 0, wm_writeback_errors = 0, wm_retries = 0, wm_dirty_high_watermark = 0\<rparr>"

datatype entry_state = EntryVacant | EntryClean | EntryDirty

record cache_entry =
  ce_block :: nat
  ce_data :: "u8 list"
  ce_state :: entry_state
  ce_first_sequence :: nat
  ce_last_sequence :: nat
  ce_last_used :: nat

definition cache_entry_vacant :: cache_entry where
  "cache_entry_vacant = \<lparr>ce_block = 0, ce_data = replicate WRITEBACK_BLOCK_SIZE 0, ce_state = EntryVacant, ce_first_sequence = 0,
     ce_last_sequence = 0, ce_last_used = 0\<rparr>"

text \<open>
  The operations of the backing disk. A read gives the number of bytes it reports and the contents of the buffer, a write
  the number of bytes it reports.
\<close>

record 'd disk_ops =
  dk_read_at :: "nat \<Rightarrow> nat \<Rightarrow> 'd \<Rightarrow> (errno + nat \<times> u8 list) \<times> 'd"
  dk_write_at :: "nat \<Rightarrow> u8 list \<Rightarrow> 'd \<Rightarrow> (errno + nat) \<times> 'd"
  dk_flush :: "'d \<Rightarrow> (errno + unit) \<times> 'd"
  dk_size :: "'d \<Rightarrow> (errno + nat) \<times> 'd"

record 'd write_back_disk =
  wb_inner :: 'd
  wb_entries :: "cache_entry list"
  wb_lookup :: "lookup_slot list"
  wb_lookup_mask :: nat
  wb_flush_tickets :: "nat list"
  wb_flush_ticket_head :: nat
  wb_flush_ticket_len :: nat
  wb_resident_count :: nat
  wb_dirty_count :: nat
  wb_lookup_tombstones :: nat
  wb_writeback_batch_blocks :: nat
  wb_access_clock :: nat
  wb_write_sequence :: nat
  wb_requested_sequence :: nat
  wb_durable_sequence :: nat
  wb_async_writeback_enabled :: bool
  wb_quiesced :: bool
  wb_failure :: "write_back_failure option"
  wb_metrics :: write_back_metrics

type_synonym ('d, 'a) wbm = "('d write_back_disk, errno, 'a) routine"

section \<open>Construction\<close>

function next_power_of_two_from :: "nat \<Rightarrow> nat \<Rightarrow> nat" where
  "next_power_of_two_from p n = (if n \<le> p \<or> p = 0 then p else next_power_of_two_from (2 * p) n)"
  by auto
termination by (relation "measure (\<lambda>(p, n). n - p)") auto

declare next_power_of_two_from.simps [simp del]

definition checked_next_power_of_two :: "nat \<Rightarrow> nat option" where
  "checked_next_power_of_two n = (let p = next_power_of_two_from 1 n in if p \<le> u64_max then Some p else None)"

definition try_new_with_writeback_batch ::
  "allocs \<Rightarrow> 'd \<Rightarrow> nat \<Rightarrow> nat \<Rightarrow> write_back_config_error + 'd write_back_disk" where
  "try_new_with_writeback_batch al inner entry_count batch =
     (if entry_count = 0 then Inl ZeroCapacity
      else if batch = 0 \<or> batch > MAX_WRITEBACK_BATCH_BLOCKS then Inl InvalidWritebackBatch
      else
        rbind (ok_or (Option.bind (checked_mul entry_count 2) checked_next_power_of_two) CapacityOverflow) (\<lambda>lookup_count.
        rbind (ok_or (checked_add entry_count 1) CapacityOverflow) (\<lambda>flush_ticket_count.
        if \<not> al 0 \<or> \<not> al 1 \<or> \<not> al 2 \<or> \<not> al 3 then Inl WbAllocationFailed
        else Inr \<lparr>wb_inner = inner, wb_entries = replicate entry_count cache_entry_vacant, wb_lookup = replicate lookup_count SlotEmpty,
                  wb_lookup_mask = lookup_count - 1, wb_flush_tickets = replicate flush_ticket_count 0, wb_flush_ticket_head = 0,
                  wb_flush_ticket_len = 0, wb_resident_count = 0, wb_dirty_count = 0, wb_lookup_tombstones = 0,
                  wb_writeback_batch_blocks = batch, wb_access_clock = 0, wb_write_sequence = 0, wb_requested_sequence = 0,
                  wb_durable_sequence = 0, wb_async_writeback_enabled = False, wb_quiesced = False, wb_failure = None,
                  wb_metrics = metrics_default\<rparr>)))"

definition wb_try_new :: "allocs \<Rightarrow> 'd \<Rightarrow> nat \<Rightarrow> write_back_config_error + 'd write_back_disk" where
  "wb_try_new al inner entry_count = try_new_with_writeback_batch al inner entry_count DEFAULT_WRITEBACK_BATCH_BLOCKS"

section \<open>Lookup, entries and metrics\<close>

text \<open>\<^verbatim>\<open>bump\<close> and the other saturating counter updates; \<open>f\<close> is the update function of a metrics field.\<close>

definition metric :: "((nat \<Rightarrow> nat) \<Rightarrow> write_back_metrics \<Rightarrow> write_back_metrics) \<Rightarrow> nat \<Rightarrow> ('d, unit) wbm" where
  "metric f n = update (\<lambda>w. w\<lparr>wb_metrics := f (\<lambda>x. saturating_add x n) (wb_metrics w)\<rparr>)"

definition entry_at :: "nat \<Rightarrow> ('d, cache_entry) wbm" where
  "entry_at index = look (\<lambda>w. need (vec_get (wb_entries w) index))"

definition set_entry :: "nat \<Rightarrow> (cache_entry \<Rightarrow> cache_entry) \<Rightarrow> ('d, unit) wbm" where
  "set_entry index f =
     andthen (entry_at index) (\<lambda>e. update (\<lambda>w. w\<lparr>wb_entries := (wb_entries w)[index := f e]\<rparr>))"

definition is_read_only :: "'d write_back_disk \<Rightarrow> bool" where
  "is_read_only w \<longleftrightarrow> wb_quiesced w \<or> wb_failure w \<noteq> None"

definition next_access :: "('d, nat) wbm" where
  "next_access =
     andthen (update (\<lambda>w. w\<lparr>wb_access_clock := saturating_add (wb_access_clock w) 1\<rparr>)) (\<lambda>_. look (\<lambda>w. ret (wb_access_clock w)))"

definition lookup_entry :: "nat \<Rightarrow> ('d, nat option) wbm" where
  "lookup_entry block =
     look (\<lambda>w. andthen (need (find_slot (wb_lookup w) (wb_lookup_mask w) block (length (wb_lookup w)) (home_slot (wb_lookup_mask w) block)))
       (\<lambda>found. case found of
          None \<Rightarrow> ret None
        | Some slot \<Rightarrow> (case wb_lookup w ! slot of SlotOccupied _ entry \<Rightarrow> ret (Some entry) | _ \<Rightarrow> panic)))"

definition insert_lookup :: "nat \<Rightarrow> nat \<Rightarrow> ('d, bool) wbm" where
  "insert_lookup block entry =
     look (\<lambda>w. andthen (need (insert_slot (wb_lookup w) (wb_lookup_mask w) None (length (wb_lookup w)) (home_slot (wb_lookup_mask w) block)))
       (\<lambda>found. case found of
          None \<Rightarrow> ret False
        | Some (target, was_tombstone) \<Rightarrow>
            andthen (need (if was_tombstone then checked_sub (wb_lookup_tombstones w) 1 else Some (wb_lookup_tombstones w)))
              (\<lambda>tombstones. andthen (update (\<lambda>w. w\<lparr>wb_lookup_tombstones := tombstones,
                   wb_lookup := (wb_lookup w)[target := SlotOccupied block entry]\<rparr>)) (\<lambda>_. ret True))))"

definition remove_lookup :: "nat \<Rightarrow> ('d, unit) wbm" where
  "remove_lookup block =
     look (\<lambda>w. andthen (need (find_slot (wb_lookup w) (wb_lookup_mask w) block (length (wb_lookup w)) (home_slot (wb_lookup_mask w) block)))
       (\<lambda>found. case found of
          None \<Rightarrow> ret ()
        | Some slot \<Rightarrow>
            andthen (update (\<lambda>w. w\<lparr>wb_lookup := (wb_lookup w)[slot := SlotTombstone], wb_lookup_tombstones := wb_lookup_tombstones w + 1\<rparr>))
              (\<lambda>_. metric wm_lookup_tombstones_created_update 1)))"

definition prepare_entry :: "nat \<Rightarrow> nat \<Rightarrow> ('d, bool) wbm" where
  "prepare_entry index block =
     andthen (entry_at index) (\<lambda>e.
     andthen
       (if ce_state e = EntryClean
        then andthen (remove_lookup (ce_block e)) (\<lambda>_. metric wm_clean_evictions_update 1)
        else update (\<lambda>w. w\<lparr>wb_resident_count := wb_resident_count w + 1\<rparr>)) (\<lambda>_.
     andthen (set_entry index (\<lambda>e. e\<lparr>ce_block := block\<rparr>)) (\<lambda>_.
     andthen (insert_lookup block index) (\<lambda>ok.
     if \<not> ok then ret False else andthen (metric wm_cache_insertions_update 1) (\<lambda>_. ret True)))))"

text \<open>\<^verbatim>\<open>min_by_key\<close> on the indices whose element satisfies the filter: the first minimum.\<close>

fun min_index :: "('a \<Rightarrow> nat) \<Rightarrow> ('a \<Rightarrow> bool) \<Rightarrow> 'a list \<Rightarrow> nat option" where
  "min_index f P [] = None"
| "min_index f P (x # xs) =
     (case min_index f P xs of
        None \<Rightarrow> if P x then Some 0 else None
      | Some j \<Rightarrow> if P x \<and> f x \<le> f (xs ! j) then Some 0 else Some (Suc j))"

definition reusable_entry :: "(nat \<times> nat) option \<Rightarrow> cache_entry list \<Rightarrow> nat option" where
  "reusable_entry protected entries =
     (case position (\<lambda>e. ce_state e = EntryVacant) entries of
        Some index \<Rightarrow> Some index
      | None \<Rightarrow>
          min_index ce_last_used
            (\<lambda>e. ce_state e = EntryClean \<and>
                 (case protected of None \<Rightarrow> True | Some (start, limit) \<Rightarrow> ce_block e < start \<or> ce_block e \<ge> limit)) entries)"

definition reusable_count :: "nat \<Rightarrow> nat \<Rightarrow> cache_entry list \<Rightarrow> nat" where
  "reusable_count protected_start protected_end entries =
     length (filter (\<lambda>e. ce_state e = EntryVacant \<or>
       (ce_state e = EntryClean \<and> \<not> (ce_block e \<ge> protected_start \<and> ce_block e < protected_end))) entries)"

definition accept_block :: "nat \<Rightarrow> u8 list \<Rightarrow> nat \<Rightarrow> ('d, unit) wbm" where
  "accept_block block data sequence =
     andthen next_access (\<lambda>access.
     andthen (lookup_entry block) (\<lambda>hit.
     case hit of
       Some index \<Rightarrow>
         andthen (entry_at index) (\<lambda>e.
         andthen
           (if ce_state e = EntryDirty then metric wm_coalesced_writes_update 1
            else andthen (set_entry index (\<lambda>e. e\<lparr>ce_state := EntryDirty, ce_first_sequence := sequence\<rparr>))
                   (\<lambda>_. update (\<lambda>w. w\<lparr>wb_dirty_count := wb_dirty_count w + 1\<rparr>)))
           (\<lambda>_. set_entry index (\<lambda>e. e\<lparr>ce_data := data, ce_last_sequence := sequence, ce_last_used := access\<rparr>)))
     | None \<Rightarrow>
         look (\<lambda>w. case reusable_entry (Some (block, block + 1)) (wb_entries w) of
             None \<Rightarrow> err EAGAIN
           | Some index \<Rightarrow>
               andthen (prepare_entry index block) (\<lambda>ok.
               if \<not> ok then err EIO
               else
                 andthen (set_entry index (\<lambda>e. e\<lparr>ce_data := data, ce_state := EntryDirty, ce_first_sequence := sequence,
                     ce_last_sequence := sequence, ce_last_used := access\<rparr>)) (\<lambda>_.
                 andthen (update (\<lambda>w. w\<lparr>wb_dirty_count := wb_dirty_count w + 1\<rparr>)) (\<lambda>_.
                 update (\<lambda>w. w\<lparr>wb_metrics := wm_dirty_high_watermark_update (\<lambda>x. max x (wb_dirty_count w)) (wb_metrics w)\<rparr>)))))))"

definition admit_clean :: "nat \<Rightarrow> u8 list \<Rightarrow> ('d, bool) wbm" where
  "admit_clean block data =
     andthen (lookup_entry block) (\<lambda>hit.
     if hit \<noteq> None then ret True
     else
       look (\<lambda>w. case reusable_entry None (wb_entries w) of
           None \<Rightarrow> andthen (metric wm_read_cache_admission_failures_update 1) (\<lambda>_. ret False)
         | Some index \<Rightarrow>
             andthen next_access (\<lambda>access.
             andthen (prepare_entry index block) (\<lambda>ok.
             if \<not> ok then andthen (metric wm_read_cache_admission_failures_update 1) (\<lambda>_. ret False)
             else
               andthen (set_entry index (\<lambda>e. e\<lparr>ce_data := data, ce_state := EntryClean, ce_first_sequence := 0, ce_last_sequence := 0,
                   ce_last_used := access\<rparr>)) (\<lambda>_. ret True)))))"

section \<open>Write-back\<close>

text \<open>The part of a buffer that holds its \<open>i\<close>-th block.\<close>

definition block_slice :: "nat \<Rightarrow> u8 list \<Rightarrow> u8 list" where
  "block_slice i bytes = take WRITEBACK_BLOCK_SIZE (drop (i * WRITEBACK_BLOCK_SIZE) bytes)"

text \<open>A call of the backing disk; its result is inspected by the caller.\<close>

definition backing :: "('d \<Rightarrow> (errno + 'a) \<times> 'd) \<Rightarrow> ('d, errno + 'a) wbm" where
  "backing call = look (\<lambda>w. case call (wb_inner w) of (r, inner) \<Rightarrow> andthen (update (\<lambda>w. w\<lparr>wb_inner := inner\<rparr>)) (\<lambda>_. ret r))"

definition record_failure :: "errno \<Rightarrow> write_back_failure_operation \<Rightarrow> ('d, unit) wbm" where
  "record_failure errno operation =
     andthen (update (\<lambda>w. if wb_failure w = None then w\<lparr>wb_failure := Some \<lparr>wf_errno = errno, wf_operation = operation\<rparr>\<rparr> else w))
       (\<lambda>_. metric wm_writeback_errors_update 1)"

text \<open>The loop of \<^verbatim>\<open>lowest_sequence_dirty\<close> on the entries from an index on, with the entry selected so far.\<close>

fun lowest_dirty_from :: "cache_entry list \<Rightarrow> nat \<Rightarrow> cache_entry list \<Rightarrow> nat option \<Rightarrow> nat option" where
  "lowest_dirty_from entries index [] selected = selected"
| "lowest_dirty_from entries index (entry # rest) selected =
     lowest_dirty_from entries (Suc index) rest
       (if ce_state entry \<noteq> EntryDirty then selected
        else (case selected of
            Some previous \<Rightarrow> if ce_first_sequence (entries ! previous) \<le> ce_first_sequence entry then selected else Some index
          | None \<Rightarrow> Some index))"

definition lowest_sequence_dirty :: "cache_entry list \<Rightarrow> nat option" where
  "lowest_sequence_dirty entries = lowest_dirty_from entries 0 entries None"

definition current_flush_ticket :: "('d, nat option) wbm" where
  "current_flush_ticket =
     look (\<lambda>w. if wb_flush_ticket_len w \<noteq> 0
               then andthen (need (vec_get (wb_flush_tickets w) (wb_flush_ticket_head w))) (\<lambda>ticket. ret (Some ticket))
               else ret None)"

definition flush_backing :: "'d disk_ops \<Rightarrow> nat \<Rightarrow> ('d, write_back_progress) wbm" where
  "flush_backing ops ticket =
     andthen (backing (dk_flush ops)) (\<lambda>r. case r of
         Inr _ \<Rightarrow>
           look (\<lambda>w. andthen (need (checked_sub (wb_flush_ticket_len w) 1)) (\<lambda>remaining.
             andthen (update (\<lambda>w. w\<lparr>wb_durable_sequence := ticket,
                 wb_flush_ticket_head := (wb_flush_ticket_head w + 1) mod length (wb_flush_tickets w),
                 wb_flush_ticket_len := remaining\<rparr>)) (\<lambda>_.
             andthen (metric wm_underlying_flushes_update 1) (\<lambda>_. ret (WbFlushed ticket)))))
       | Inl error \<Rightarrow> andthen (record_failure error (FailedFlush ticket)) (\<lambda>_. err error))"

text \<open>The loop of \<^verbatim>\<open>write_back_run\<close> that extends the run by the dirty entry next in sequence, for at most \<open>n\<close> more blocks.\<close>

fun extend_run :: "cache_entry list \<Rightarrow> nat option \<Rightarrow> nat \<Rightarrow> nat list \<Rightarrow> nat list" where
  "extend_run entries ticket 0 run = run"
| "extend_run entries ticket (Suc n) run =
     (let previous = entries ! last run in
      case min_index ce_first_sequence (\<lambda>e. ce_state e = EntryDirty \<and> ce_first_sequence e > ce_first_sequence previous) entries of
        None \<Rightarrow> run
      | Some index \<Rightarrow>
          (let entry = entries ! index in
           if ce_block entry \<noteq> saturating_add (ce_block previous) 1 \<or>
              (case ticket of None \<Rightarrow> False | Some t \<Rightarrow> ce_first_sequence entry > t)
           then run
           else extend_run entries ticket n (run @ [index])))"

definition write_back_run :: "'d disk_ops \<Rightarrow> nat \<Rightarrow> nat option \<Rightarrow> ('d, write_back_progress) wbm" where
  "write_back_run ops first_entry ticket =
     andthen (entry_at first_entry) (\<lambda>first.
     look (\<lambda>w.
       let run = extend_run (wb_entries w) ticket (wb_writeback_batch_blocks w - 1) [first_entry];
           members = map (\<lambda>i. wb_entries w ! i) run;
           block = ce_block first;
           first_sequence = ce_first_sequence first;
           last_sequence = Max (set (map ce_last_sequence members));
           bytes = concat (map ce_data members)
       in
       andthen (need (if length run \<le> MAX_WRITEBACK_BATCH_BLOCKS then Some () else None)) (\<lambda>_.
       andthen (backing (dk_write_at ops block bytes)) (\<lambda>r. case r of
           Inr written \<Rightarrow>
             if written = length run * WRITEBACK_BLOCK_SIZE then
               andthen (for_each run (\<lambda>i. set_entry i (\<lambda>e. e\<lparr>ce_state := EntryClean\<rparr>))) (\<lambda>_.
               andthen (need (checked_sub (wb_dirty_count w) (length run))) (\<lambda>dirty.
               andthen (update (\<lambda>w. w\<lparr>wb_dirty_count := dirty\<rparr>)) (\<lambda>_.
               andthen (metric wm_blocks_written_back_update (length run)) (\<lambda>_.
               andthen (metric wm_bytes_written_back_update (length run * WRITEBACK_BLOCK_SIZE)) (\<lambda>_.
               ret (WroteBlock block first_sequence last_sequence))))))
             else andthen (record_failure EIO (FailedWrite block first_sequence last_sequence)) (\<lambda>_. err EIO)
         | Inl error \<Rightarrow> andthen (record_failure error (FailedWrite block first_sequence last_sequence)) (\<lambda>_. err error)))))"

definition writeback_step :: "'d disk_ops \<Rightarrow> ('d, write_back_progress) wbm" where
  "writeback_step ops =
     andthen (metric wm_writeback_steps_update 1) (\<lambda>_.
     look (\<lambda>w. case wb_failure w of
         Some failure \<Rightarrow> err (wf_errno failure)
       | None \<Rightarrow>
           andthen current_flush_ticket (\<lambda>ticket.
           let dirty = lowest_sequence_dirty (wb_entries w);
               ticket_ready = (\<lambda>t. case dirty of None \<Rightarrow> True | Some index \<Rightarrow> ce_first_sequence (wb_entries w ! index) > t)
           in case (ticket, dirty) of
                (Some t, _) \<Rightarrow>
                  if ticket_ready t then flush_backing ops t
                  else (case dirty of None \<Rightarrow> ret WbIdle | Some entry_index \<Rightarrow> write_back_run ops entry_index ticket)
              | (None, None) \<Rightarrow> ret WbIdle
              | (None, Some entry_index) \<Rightarrow> write_back_run ops entry_index ticket)))"

definition request_durability :: "('d, nat) wbm" where
  "request_durability =
     look (\<lambda>w. case wb_failure w of
         Some failure \<Rightarrow> err (wf_errno failure)
       | None \<Rightarrow>
           if wb_write_sequence w = wb_requested_sequence w
           then andthen (metric wm_flush_requests_update 1) (\<lambda>_. ret (wb_requested_sequence w))
           else if wb_flush_ticket_len w = length (wb_flush_tickets w)
           then andthen (metric wm_flush_backpressure_events_update 1) (\<lambda>_. err EAGAIN)
           else
             let tail = (wb_flush_ticket_head w + wb_flush_ticket_len w) mod length (wb_flush_tickets w) in
             andthen (update (\<lambda>w. w\<lparr>wb_flush_tickets := (wb_flush_tickets w)[tail := wb_write_sequence w],
                 wb_flush_ticket_len := wb_flush_ticket_len w + 1, wb_requested_sequence := wb_write_sequence w\<rparr>)) (\<lambda>_.
             andthen (metric wm_flush_requests_update 1) (\<lambda>_. look (\<lambda>w. ret (wb_requested_sequence w)))))"

fun drain_steps :: "'d disk_ops \<Rightarrow> nat \<Rightarrow> nat \<Rightarrow> nat \<Rightarrow> ('d, nat) wbm" where
  "drain_steps ops ticket 0 steps = ret steps"
| "drain_steps ops ticket (Suc n) steps =
     look (\<lambda>w. if wb_durable_sequence w < ticket
               then andthen (writeback_step ops) (\<lambda>progress.
                      case progress of WbIdle \<Rightarrow> ret steps | _ \<Rightarrow> drain_steps ops ticket n (steps + 1))
               else ret steps)"

definition drain_ticket :: "'d disk_ops \<Rightarrow> nat \<Rightarrow> nat \<Rightarrow> ('d, drain_report) wbm" where
  "drain_ticket ops ticket max_steps =
     andthen (drain_steps ops ticket max_steps 0) (\<lambda>steps.
     look (\<lambda>w. ret \<lparr>dr_ticket = ticket, dr_durable_sequence = wb_durable_sequence w, dr_dirty_remaining = wb_dirty_count w,
                    dr_steps = steps, dr_complete = (wb_durable_sequence w \<ge> ticket)\<rparr>))"

definition retry_writeback_step :: "'d disk_ops \<Rightarrow> ('d, write_back_progress) wbm" where
  "retry_writeback_step ops =
     look (\<lambda>w. andthen
       (if wb_failure w \<noteq> None
        then andthen (update (\<lambda>w. w\<lparr>wb_failure := None\<rparr>)) (\<lambda>_. metric wm_retries_update 1)
        else ret ())
       (\<lambda>_. writeback_step ops))"

definition enable_async_writeback :: "('d, bool) wbm" where
  "enable_async_writeback =
     look (\<lambda>w. if wb_async_writeback_enabled w then ret False
               else andthen (update (\<lambda>w. w\<lparr>wb_async_writeback_enabled := True\<rparr>)) (\<lambda>_.
                    andthen (metric wm_async_writeback_enables_update 1) (\<lambda>_. ret True)))"

definition quiesce :: "('d, nat) wbm" where
  "quiesce = andthen (update (\<lambda>w. w\<lparr>wb_quiesced := True\<rparr>)) (\<lambda>_. request_durability)"

definition resume_after_quiesce :: "('d, unit) wbm" where
  "resume_after_quiesce =
     look (\<lambda>w. case wb_failure w of Some failure \<Rightarrow> err (wf_errno failure) | None \<Rightarrow> update (\<lambda>w. w\<lparr>wb_quiesced := False\<rparr>))"

definition shutdown_drain :: "'d disk_ops \<Rightarrow> nat \<Rightarrow> ('d, drain_report) wbm" where
  "shutdown_drain ops max_steps = andthen quiesce (\<lambda>ticket. drain_ticket ops ticket max_steps)"

section \<open>The disk interface\<close>

definition validate_transfer :: "nat \<Rightarrow> nat \<Rightarrow> errno + nat" where
  "validate_transfer block byte_len =
     (if byte_len mod WRITEBACK_BLOCK_SIZE \<noteq> 0 then Inl EINVAL
      else
        let blocks = byte_len div WRITEBACK_BLOCK_SIZE in
        case checked_add block blocks of None \<Rightarrow> Inl EINVAL | Some _ \<Rightarrow> Inr blocks)"

text \<open>The rejections of \<^verbatim>\<open>preflight_write\<close>: the counters they bump.\<close>

definition reject :: "errno \<Rightarrow> ('d, 'a) wbm" where
  "reject error =
     andthen (metric wm_rejected_writes_update 1) (\<lambda>_. andthen (metric wm_backpressure_events_update 1) (\<lambda>_. err error))"

definition stall :: "('d, 'a) wbm" where
  "stall =
     andthen (metric wm_rejected_writes_update 1) (\<lambda>_.
     andthen (metric wm_backpressure_events_update 1) (\<lambda>_.
     andthen (metric wm_pressure_stalls_update 1) (\<lambda>_. err EAGAIN)))"

text \<open>The first loop of \<^verbatim>\<open>preflight_write\<close>: the blocks without an entry, unless a pending barrier covers one that is dirty.\<close>

fun count_new_entries :: "bool \<Rightarrow> nat list \<Rightarrow> nat \<Rightarrow> ('d, nat) wbm" where
  "count_new_entries barrier_pending [] new_entries = ret new_entries"
| "count_new_entries barrier_pending (target # rest) new_entries =
     andthen (lookup_entry target) (\<lambda>hit. case hit of
         Some index \<Rightarrow>
           andthen (entry_at index) (\<lambda>entry.
           look (\<lambda>w. if barrier_pending \<and> ce_state entry = EntryDirty \<and> ce_first_sequence entry \<le> wb_requested_sequence w
                     then reject EAGAIN
                     else count_new_entries barrier_pending rest new_entries))
       | None \<Rightarrow> count_new_entries barrier_pending rest (new_entries + 1))"

text \<open>The second loop: at most \<open>n\<close> write-back steps, each of which has to free an entry.\<close>

fun relieve_pressure :: "'d disk_ops \<Rightarrow> nat \<Rightarrow> nat \<Rightarrow> nat \<Rightarrow> nat \<Rightarrow> nat \<Rightarrow> ('d, nat) wbm" where
  "relieve_pressure ops block limit new_entries 0 reusable = ret reusable"
| "relieve_pressure ops block limit new_entries (Suc n) before =
     (if before \<ge> new_entries then ret before
      else
        andthen (metric wm_pressure_writeback_steps_update 1) (\<lambda>_.
        andthen (writeback_step ops) (\<lambda>_.
        look (\<lambda>w. let reusable = reusable_count block limit (wb_entries w) in
          if reusable \<le> before then stall
          else andthen (metric wm_pressure_entries_freed_update (reusable - before)) (\<lambda>_.
                 relieve_pressure ops block limit new_entries n reusable)))))"

definition preflight_write :: "'d disk_ops \<Rightarrow> nat \<Rightarrow> nat \<Rightarrow> ('d, unit) wbm" where
  "preflight_write ops block block_count =
     look (\<lambda>w.
       if is_read_only w then andthen (metric wm_rejected_writes_update 1) (\<lambda>_. err EROFS)
       else if block_count > length (wb_entries w) then reject ENOSPC
       else (case checked_add (wb_write_sequence w) block_count of
         None \<Rightarrow> err EIO
       | Some _ \<Rightarrow>
           andthen (count_new_entries (wb_flush_ticket_len w \<noteq> 0) [block..<block + block_count] 0) (\<lambda>new_entries.
           look (\<lambda>w. let reusable = reusable_count block (block + block_count) (wb_entries w) in
             andthen (relieve_pressure ops block (block + block_count) new_entries (new_entries - reusable) reusable) (\<lambda>reusable.
             if new_entries > reusable then stall else ret ())))))"

definition read_hit :: "nat \<Rightarrow> ('d, u8 list) wbm" where
  "read_hit index =
     andthen next_access (\<lambda>access.
     andthen (entry_at index) (\<lambda>entry.
     if ce_state entry = EntryVacant then andthen (metric wm_read_errors_update 1) (\<lambda>_. err EIO)
     else
       andthen (set_entry index (\<lambda>e. e\<lparr>ce_last_used := access\<rparr>)) (\<lambda>_.
       andthen (metric wm_read_hits_update 1) (\<lambda>_.
       andthen (if ce_state entry = EntryDirty then metric wm_dirty_read_hits_update 1 else metric wm_clean_read_hits_update 1) (\<lambda>_.
       ret (ce_data entry))))))"

fun extend_miss :: "nat \<Rightarrow> nat \<Rightarrow> nat \<Rightarrow> ('d, nat) wbm" where
  "extend_miss block 0 run_end = ret run_end"
| "extend_miss block (Suc n) run_end =
     andthen (lookup_entry (block + run_end)) (\<lambda>hit. case hit of
         None \<Rightarrow> extend_miss block n (run_end + 1)
       | Some _ \<Rightarrow> ret run_end)"

definition read_failed :: "errno \<Rightarrow> ('d, 'a) wbm" where
  "read_failed error = andthen (metric wm_read_errors_update 1) (\<lambda>_. err error)"

definition admit_blocks :: "nat \<Rightarrow> u8 list \<Rightarrow> nat list \<Rightarrow> ('d, unit) wbm" where
  "admit_blocks target bytes offsets =
     for_each offsets (\<lambda>i. andthen (admit_clean (target + i) (block_slice i bytes)) (\<lambda>_. ret ()))"

definition read_direct :: "'d disk_ops \<Rightarrow> nat \<Rightarrow> nat \<Rightarrow> ('d, u8 list) wbm" where
  "read_direct ops target run_blocks =
     andthen (backing (dk_read_at ops target (run_blocks * WRITEBACK_BLOCK_SIZE))) (\<lambda>r. case r of
         Inr (n, bytes) \<Rightarrow>
           if n = run_blocks * WRITEBACK_BLOCK_SIZE
           then andthen (admit_blocks target bytes [0..<run_blocks]) (\<lambda>_. ret bytes)
           else read_failed EIO
       | Inl error \<Rightarrow> read_failed error)"

definition read_ahead :: "'d disk_ops \<Rightarrow> nat \<Rightarrow> nat \<Rightarrow> ('d, u8 list) wbm" where
  "read_ahead ops target read_ahead_blocks =
     andthen (backing (dk_read_at ops target (read_ahead_blocks * WRITEBACK_BLOCK_SIZE))) (\<lambda>r. case r of
         Inr (n, bytes) \<Rightarrow>
           if n = read_ahead_blocks * WRITEBACK_BLOCK_SIZE
           then andthen (admit_blocks target bytes ([1..<read_ahead_blocks] @ [0])) (\<lambda>_.
                andthen (metric wm_read_ahead_requests_update 1) (\<lambda>_.
                andthen (metric wm_read_ahead_blocks_update read_ahead_blocks) (\<lambda>_.
                ret (block_slice 0 bytes))))
           else read_failed EIO
       | Inl error \<Rightarrow> read_failed error)"

definition read_run :: "'d disk_ops \<Rightarrow> nat \<Rightarrow> nat \<Rightarrow> ('d, u8 list) wbm" where
  "read_run ops target run_blocks =
     (if run_blocks = 1
      then andthen (backing (dk_size ops)) (\<lambda>r. case r of
          Inl error \<Rightarrow> read_failed error
        | Inr backing_bytes \<Rightarrow>
            look (\<lambda>w.
              let backing_blocks = backing_bytes div WRITEBACK_BLOCK_SIZE;
                  read_ahead_blocks = min (min (backing_blocks - target) READ_AHEAD_BLOCKS) (length (wb_entries w))
              in if read_ahead_blocks > 1 then read_ahead ops target read_ahead_blocks else read_direct ops target run_blocks))
      else read_direct ops target run_blocks)"

text \<open>
  The main loop of \<^verbatim>\<open>read_at\<close>, with the bytes read so far. Every pass advances \<^verbatim>\<open>offset\<close>, so the number of blocks bounds the
  passes; running out of them with blocks left would be a panic, which \<open>wb_read_at_runs\<close> below excludes.
\<close>

fun read_loop :: "'d disk_ops \<Rightarrow> nat \<Rightarrow> nat \<Rightarrow> nat \<Rightarrow> nat \<Rightarrow> u8 list \<Rightarrow> ('d, u8 list) wbm" where
  "read_loop ops block block_count 0 offset bytes = (if offset < block_count then panic else ret bytes)"
| "read_loop ops block block_count (Suc passes) offset bytes =
     (if offset < block_count
      then andthen (lookup_entry (block + offset)) (\<lambda>hit. case hit of
          Some index \<Rightarrow>
            andthen (read_hit index) (\<lambda>data. read_loop ops block block_count passes (offset + 1) (bytes @ data))
        | None \<Rightarrow>
            andthen (extend_miss block (block_count - (offset + 1)) (offset + 1)) (\<lambda>run_end.
            andthen (metric wm_read_misses_update (run_end - offset)) (\<lambda>_.
            andthen (metric wm_underlying_reads_update 1) (\<lambda>_.
            andthen (read_run ops (block + offset) (run_end - offset)) (\<lambda>data.
            read_loop ops block block_count passes run_end (bytes @ data))))))
      else ret bytes)"

definition wb_read_at :: "'d disk_ops \<Rightarrow> nat \<Rightarrow> nat \<Rightarrow> ('d, u8 list) wbm" where
  "wb_read_at ops block byte_len =
     (case validate_transfer block byte_len of
        Inl error \<Rightarrow> err error
      | Inr block_count \<Rightarrow>
          andthen (metric wm_read_requests_update 1) (\<lambda>_.
          andthen (metric wm_read_blocks_update block_count) (\<lambda>_.
          read_loop ops block block_count block_count 0 [])))"

definition accept_blocks :: "nat \<Rightarrow> u8 list \<Rightarrow> nat list \<Rightarrow> ('d, unit) wbm" where
  "accept_blocks block bytes offsets =
     for_each offsets (\<lambda>i.
       andthen (update (\<lambda>w. w\<lparr>wb_write_sequence := wb_write_sequence w + 1\<rparr>)) (\<lambda>_.
       look (\<lambda>w. accept_block (block + i) (block_slice i bytes) (wb_write_sequence w))))"

definition wb_write_at :: "'d disk_ops \<Rightarrow> nat \<Rightarrow> u8 list \<Rightarrow> ('d, nat) wbm" where
  "wb_write_at ops block bytes =
     (case validate_transfer block (length bytes) of
        Inl error \<Rightarrow> err error
      | Inr block_count \<Rightarrow>
          andthen (metric wm_write_requests_update 1) (\<lambda>_.
          if block_count = 0 then ret 0
          else
            andthen (preflight_write ops block block_count) (\<lambda>_.
            andthen (accept_blocks block bytes [0..<block_count]) (\<lambda>_.
            andthen (metric wm_write_blocks_accepted_update block_count) (\<lambda>_.
            ret (length bytes))))))"

definition wb_flush :: "'d disk_ops \<Rightarrow> ('d, unit) wbm" where
  "wb_flush ops =
     andthen request_durability (\<lambda>ticket.
     look (\<lambda>w.
       if wb_async_writeback_enabled w then ret ()
       else
         andthen (metric wm_synchronous_flush_drains_update 1) (\<lambda>_.
         attempt (drain_ticket ops ticket (length (wb_entries w) + 1)) (\<lambda>r. case r of
             Inl _ \<Rightarrow> err EIO
           | Inr report \<Rightarrow>
               if dr_complete report then ret ()
               else andthen (metric wm_synchronous_flush_incomplete_update 1) (\<lambda>_. err EAGAIN)))))"

definition wb_size :: "'d disk_ops \<Rightarrow> ('d, nat) wbm" where
  "wb_size ops = andthen (backing (dk_size ops)) (\<lambda>r. case r of Inl error \<Rightarrow> err error | Inr bytes \<Rightarrow> ret bytes)"

end
