(* ===== verification/Write_Back_Invariant.thy ===== *)
theory Write_Back_Invariant
  imports Write_Back
begin

text \<open>
  The invariants of the write-back cache and the rules for its internal methods: what they return, that they do not panic, and how they
  change the cache. The rules are used backwards: a method runs to every outcome that the premises allow.
\<close>

section \<open>Lists of entries\<close>

lemma length_filter_list_update:
  "i < length xs \<Longrightarrow>
   length (filter P (xs[i := x])) + (if P (xs ! i) then 1 else 0) = length (filter P xs) + (if P x then 1 else 0)"
proof (induction xs arbitrary: i)
  case (Cons y ys)
  then show ?case by (cases i) fastforce+
qed simp

lemma min_index_None: "min_index f P xs = None \<longleftrightarrow> (\<forall>x \<in> set xs. \<not> P x)"
  by (induction xs) (auto split: option.splits)

lemma min_index_Some:
  "min_index f P xs = Some i \<Longrightarrow> i < length xs \<and> P (xs ! i) \<and> (\<forall>x \<in> set xs. P x \<longrightarrow> f (xs ! i) \<le> f x)"
proof (induction xs arbitrary: i)
  case (Cons x xs)
  show ?case
  proof (cases "min_index f P xs")
    case None
    then show ?thesis using Cons.prems None [unfolded min_index_None] by (simp split: if_splits)
  next
    case (Some j)
    then show ?thesis using Cons.prems Cons.IH [OF Some] by (auto split: if_splits)
  qed
qed simp

text \<open>\<^verbatim>\<open>lowest_sequence_dirty\<close> is a \<^verbatim>\<open>min_by_key\<close> too.\<close>

definition dirty :: "cache_entry \<Rightarrow> bool" where "dirty e \<longleftrightarrow> ce_state e = EntryDirty"
definition resident :: "cache_entry \<Rightarrow> bool" where "resident e \<longleftrightarrow> ce_state e \<noteq> EntryVacant"

lemma lowest_dirty_from_spec:
  assumes "es = pre @ rest" "index = length pre"
    "case sel of None \<Rightarrow> \<forall>e \<in> set pre. \<not> dirty e
       | Some i \<Rightarrow> i < length pre \<and> dirty (es ! i) \<and> (\<forall>e \<in> set pre. dirty e \<longrightarrow> ce_first_sequence (es ! i) \<le> ce_first_sequence e)"
  shows "case lowest_dirty_from es index rest sel of None \<Rightarrow> \<forall>e \<in> set es. \<not> dirty e
       | Some i \<Rightarrow> i < length es \<and> dirty (es ! i) \<and> (\<forall>e \<in> set es. dirty e \<longrightarrow> ce_first_sequence (es ! i) \<le> ce_first_sequence e)"
  using assms
proof (induction rest arbitrary: pre index sel)
  case Nil
  then show ?case by (auto split: option.splits)
next
  case (Cons e rest)
  show ?case unfolding lowest_dirty_from.simps
    by (rule Cons.IH [of "pre @ [e]"])
      (use Cons.prems in \<open>auto simp: dirty_def nth_append split: option.splits if_splits\<close>)
qed

lemma lowest_sequence_dirty_None: "lowest_sequence_dirty es = None \<Longrightarrow> e \<in> set es \<Longrightarrow> \<not> dirty e"
  using lowest_dirty_from_spec [of es "[]" es 0 None] by (simp add: lowest_sequence_dirty_def)

lemma lowest_sequence_dirty_Some:
  "lowest_sequence_dirty es = Some i \<Longrightarrow>
   i < length es \<and> dirty (es ! i) \<and> (\<forall>e \<in> set es. dirty e \<longrightarrow> ce_first_sequence (es ! i) \<le> ce_first_sequence e)"
  using lowest_dirty_from_spec [of es "[]" es 0 None] by (simp add: lowest_sequence_dirty_def)

section \<open>The contents seen through the cache\<close>

text \<open>The blocks of \<open>base\<close>, overlaid with the data of the entries that satisfy \<open>P\<close>.\<close>

definition overlay :: "(cache_entry \<Rightarrow> bool) \<Rightarrow> cache_entry list \<Rightarrow> (nat \<Rightarrow> u8 list) \<Rightarrow> nat \<Rightarrow> u8 list" where
  "overlay P entries base b = (case find (\<lambda>e. P e \<and> ce_block e = b) entries of Some e \<Rightarrow> ce_data e | None \<Rightarrow> base b)"

definition unique_blocks :: "cache_entry list \<Rightarrow> bool" where
  "unique_blocks entries \<longleftrightarrow>
     (\<forall>i < length entries. \<forall>j < length entries.
        resident (entries ! i) \<longrightarrow> resident (entries ! j) \<longrightarrow> ce_block (entries ! i) = ce_block (entries ! j) \<longrightarrow> i = j)"

lemma unique_blocksD:
  "unique_blocks es \<Longrightarrow> i < length es \<Longrightarrow> j < length es \<Longrightarrow> resident (es ! i) \<Longrightarrow> resident (es ! j) \<Longrightarrow>
   ce_block (es ! i) = ce_block (es ! j) \<Longrightarrow> i = j"
  by (simp add: unique_blocks_def)

lemma overlay_miss: "(\<And>i. i < length es \<Longrightarrow> P (es ! i) \<Longrightarrow> ce_block (es ! i) \<noteq> b) \<Longrightarrow> overlay P es base b = base b"
  by (auto simp: overlay_def find_None_iff in_set_conv_nth split: option.splits dest!: find_Some_iff [THEN iffD1])

lemma overlay_hit:
  assumes "unique_blocks es" "\<And>e. P e \<Longrightarrow> resident e" "i < length es" "P (es ! i)"
  shows "overlay P es base (ce_block (es ! i)) = ce_data (es ! i)"
proof (cases "find (\<lambda>e. P e \<and> ce_block e = ce_block (es ! i)) es")
  case None
  then show ?thesis using assms(3,4) by (auto simp: find_None_iff)
next
  case (Some e)
  then obtain j where j: "j < length es" "P (es ! j)" "ce_block (es ! j) = ce_block (es ! i)" "e = es ! j"
    by (auto simp: find_Some_iff)
  then have "j = i" using assms by (blast dest: unique_blocksD)
  then show ?thesis using Some j by (simp add: overlay_def)
qed

lemma overlay_update:
  assumes "unique_blocks es" "unique_blocks (es[i := e])" "\<And>e. P e \<Longrightarrow> resident e" "i < length es"
  shows "overlay P (es[i := e]) base b =
    (if P e \<and> ce_block e = b then ce_data e else if P (es ! i) \<and> ce_block (es ! i) = b then base b else overlay P es base b)"
proof (cases "P e \<and> ce_block e = b")
  case True
  then show ?thesis using overlay_hit [where es = "es[i := e]" and P = P and i = i and base = base, OF assms(2,3)] assms(4) by simp
next
  case new: False
  show ?thesis
  proof (cases "\<exists>j < length es. j \<noteq> i \<and> P (es ! j) \<and> ce_block (es ! j) = b")
    case True
    then obtain j where j: "j < length es" "j \<noteq> i" "P (es ! j)" "ce_block (es ! j) = b" by blast
    then have "\<not> (P (es ! i) \<and> ce_block (es ! i) = b)" using assms(1,3,4) by (blast dest: unique_blocksD)
    then show ?thesis
      using new j overlay_hit [where es = "es[i := e]" and P = P and i = j and base = base, OF assms(2,3)] overlay_hit [where es = es and P = P and i = j and base = base, OF assms(1,3)] assms(4) by auto
  next
    case False
    have "overlay P (es[i := e]) base b = base b"
      by (rule overlay_miss) (use False new assms(4) in \<open>auto simp: nth_list_update split: if_splits\<close>)
    moreover have "overlay P es base b = base b" if "\<not> (P (es ! i) \<and> ce_block (es ! i) = b)"
      by (rule overlay_miss) (use False that in auto)
    ultimately show ?thesis using new by auto
  qed
qed

section \<open>The lookup table\<close>

definition table_ok :: "lookup_slot list \<Rightarrow> nat \<Rightarrow> nat \<Rightarrow> bool" where
  "table_ok slots mask_bits tombstones \<longleftrightarrow>
     (\<exists>k. length slots = 2 ^ k \<and> mask_bits = 2 ^ k - 1) \<and> searchable (home_slot mask_bits) slots \<and>
     tombstones = length (filter (\<lambda>s. s = SlotTombstone) slots)"

lemma home_slot_less: "home_slot (2 ^ k - 1) b < 2 ^ k"
  unfolding home_slot_def and_mask_mod by simp

lemma holds_unique: "table_ok slots m n \<Longrightarrow> holds slots b i \<Longrightarrow> holds slots b j \<Longrightarrow> i = j"
proof -
  assume "table_ok slots m n" "holds slots b i" "holds slots b j"
  then obtain s t where "searchable (home_slot m) slots" "s < length slots" "slots ! s = SlotOccupied b i"
    "t < length slots" "slots ! t = SlotOccupied b j"
    by (auto simp: table_ok_def holds_def)
  then show "i = j" using searchable_unique [of "home_slot m" slots s t] by simp
qed

lemma not_full:
  assumes "table_ok slots m t" "\<And>c f. holds slots c f \<Longrightarrow> f < n \<and> c = g f" "n < length slots"
  shows "\<exists>s < length slots. \<forall>b e. slots ! s \<noteq> SlotOccupied b e"
proof (rule ccontr)
  assume "\<not> ?thesis"
  then have "\<forall>s. \<exists>b e. s < length slots \<longrightarrow> slots ! s = SlotOccupied b e" by blast
  then obtain blk ent where occ: "\<And>s. s < length slots \<Longrightarrow> slots ! s = SlotOccupied (blk s) (ent s)" by metis
  then have held: "holds slots (blk s) (ent s)" if "s < length slots" for s using that by (auto simp: holds_def)
  have "inj_on ent {..<length slots}"
  proof (rule inj_onI)
    fix s s' assume s: "s \<in> {..<length slots}" "s' \<in> {..<length slots}" "ent s = ent s'"
    then have "blk s = blk s'" using assms(2) [OF held [of s]] assms(2) [OF held [of s']] by simp
    then show "s = s'" using s occ searchable_unique [of "home_slot m" slots s s'] assms(1) by (simp add: table_ok_def)
  qed
  moreover have "ent ` {..<length slots} \<subseteq> {..<n}" using assms(2) [OF held] by auto
  ultimately have "length slots \<le> n" using card_inj_on_le [of ent "{..<length slots}" "{..<n}"] by simp
  then show False using assms(3) by simp
qed

lemma find_slot_run:
  assumes "table_ok slots m t"
  shows "\<exists>r. find_slot slots m b (length slots) (home_slot m b) = Some r \<and>
    (case r of Some s \<Rightarrow> s < length slots \<and> (\<exists>e. slots ! s = SlotOccupied b e) | None \<Rightarrow> \<forall>e. \<not> holds slots b e)"
proof -
  obtain k where k: "length slots = 2 ^ k" "m = 2 ^ k - 1" "searchable (home_slot m) slots" using assms by (auto simp: table_ok_def)
  then have "home_slot m b < 2 ^ k" by (metis home_slot_less)
  from find_slot_spec [OF k(1,3) this] show ?thesis unfolding k(1,2) .
qed

lemma lookup_entry_runs:
  assumes "table_ok (wb_lookup w) (wb_lookup_mask w) t"
    "\<And>i. holds (wb_lookup w) b i \<Longrightarrow> Q (Inr (Some i)) w"
    "(\<And>i. \<not> holds (wb_lookup w) b i) \<Longrightarrow> Q (Inr None) w"
  shows "runs (lookup_entry b) w Q"
proof -
  obtain r where r: "find_slot (wb_lookup w) (wb_lookup_mask w) b (length (wb_lookup w)) (home_slot (wb_lookup_mask w) b) = Some r"
    "case r of Some s \<Rightarrow> s < length (wb_lookup w) \<and> (\<exists>e. wb_lookup w ! s = SlotOccupied b e) | None \<Rightarrow> \<forall>e. \<not> holds (wb_lookup w) b e"
    using find_slot_run [OF assms(1)] by blast
  then show ?thesis using assms(2,3) by (cases r) (auto simp: lookup_entry_def holds_def, blast)
qed

lemma remove_lookup_runs:
  assumes "table_ok (wb_lookup w) (wb_lookup_mask w) (wb_lookup_tombstones w)"
    "holds (wb_lookup w) b i"
    "\<And>slots n ms. table_ok slots (wb_lookup_mask w) n \<Longrightarrow> length slots = length (wb_lookup w) \<Longrightarrow>
      (\<And>c f. holds slots c f \<longleftrightarrow> holds (wb_lookup w) c f \<and> c \<noteq> b) \<Longrightarrow>
      Q (Inr ()) (w\<lparr>wb_lookup := slots, wb_lookup_tombstones := n, wb_metrics := ms\<rparr>)"
  shows "runs (remove_lookup b) w Q"
proof -
  let ?L = "wb_lookup w"
  obtain s e where s: "find_slot ?L (wb_lookup_mask w) b (length ?L) (home_slot (wb_lookup_mask w) b) = Some (Some s)"
    "s < length ?L" "?L ! s = SlotOccupied b e"
    using find_slot_run [OF assms(1), of b] assms(2) by (auto split: option.splits)
  have "table_ok (?L[s := SlotTombstone]) (wb_lookup_mask w) (wb_lookup_tombstones w + 1)"
    using assms(1) s(2,3) searchable_remove(1) length_filter_list_update [of s ?L "\<lambda>s. s = SlotTombstone" SlotTombstone]
    by (auto simp: table_ok_def)
  moreover have "holds (?L[s := SlotTombstone]) c f \<longleftrightarrow> holds ?L c f \<and> c \<noteq> b" for c f
    using assms(1) s searchable_remove(2) by (auto simp: table_ok_def)
  ultimately show ?thesis using s assms(3) by (simp add: remove_lookup_def metric_def)
qed

lemma insert_lookup_runs:
  assumes "table_ok (wb_lookup w) (wb_lookup_mask w) (wb_lookup_tombstones w)"
    "\<And>c f. holds (wb_lookup w) c f \<Longrightarrow> f < n \<and> c = g f" "n < length (wb_lookup w)"
    "\<And>f. \<not> holds (wb_lookup w) b f"
    "\<And>slots t. table_ok slots (wb_lookup_mask w) t \<Longrightarrow> length slots = length (wb_lookup w) \<Longrightarrow>
      (\<And>c f. holds slots c f \<longleftrightarrow> holds (wb_lookup w) c f \<or> c = b \<and> f = i) \<Longrightarrow>
      Q (Inr True) (w\<lparr>wb_lookup_tombstones := t, wb_lookup := slots\<rparr>)"
  shows "runs (insert_lookup b i) w Q"
proof -
  let ?L = "wb_lookup w" and ?m = "wb_lookup_mask w"
  obtain k where k: "length ?L = 2 ^ k" "?m = 2 ^ k - 1" and srch: "searchable (home_slot ?m) ?L"
    and tombs: "wb_lookup_tombstones w = length (filter (\<lambda>s. s = SlotTombstone) ?L)"
    using assms(1) by (auto simp: table_ok_def)
  have home_less: "home_slot ?m b < 2 ^ k" using k(2) by (metis home_slot_less)
  have "\<exists>r. insert_slot ?L ?m None (length ?L) (home_slot ?m b) = Some r \<and>
    (case r of
       Some (t, tomb) \<Rightarrow> ?L ! t = (if tomb then SlotTombstone else SlotEmpty) \<and>
         (\<exists>j < 2 ^ k. t = probe (2 ^ k) (home_slot ?m b) j \<and> (\<forall>l < j. ?L ! probe (2 ^ k) (home_slot ?m b) l \<noteq> SlotEmpty))
     | None \<Rightarrow> \<forall>s < 2 ^ k. \<exists>b e. ?L ! s = SlotOccupied b e)"
    using insert_slot_spec [OF k(1) home_less] unfolding k(1,2) .
  then obtain r where r: "insert_slot ?L ?m None (length ?L) (home_slot ?m b) = Some r"
    "case r of
       Some (t, tomb) \<Rightarrow> ?L ! t = (if tomb then SlotTombstone else SlotEmpty) \<and>
         (\<exists>j < 2 ^ k. t = probe (2 ^ k) (home_slot ?m b) j \<and> (\<forall>l < j. ?L ! probe (2 ^ k) (home_slot ?m b) l \<noteq> SlotEmpty))
     | None \<Rightarrow> \<forall>s < 2 ^ k. \<exists>b e. ?L ! s = SlotOccupied b e"
    by (elim exE conjE)
  have "\<exists>s < length ?L. \<forall>b e. ?L ! s \<noteq> SlotOccupied b e"
    by (rule not_full [OF assms(1) _ assms(3)]) (rule assms(2))
  then obtain t tomb where rt: "r = Some (t, tomb)" using r(2) k(1) by (cases r) auto
  note t2 = r(2) [unfolded rt option.case prod.case, THEN conjunct1]
  obtain j where t3: "j < 2 ^ k" "t = probe (2 ^ k) (home_slot ?m b) j"
    "\<forall>l < j. ?L ! probe (2 ^ k) (home_slot ?m b) l \<noteq> SlotEmpty"
    using r(2) [unfolded rt option.case prod.case, THEN conjunct2] by (elim exE conjE)
  note t = r(1) [unfolded rt] t2 t3
  have t_less: "t < length ?L" using t(4) k(1) by (simp add: probe_less)
  have unocc: "\<And>c e. ?L ! t \<noteq> SlotOccupied c e" using t(2) by (simp split: if_splits)
  note ins = searchable_insert [OF srch k(1) assms(4) unocc t(3,4,5)]
  have cnt: "(if tomb then checked_sub (wb_lookup_tombstones w) 1 else Some (wb_lookup_tombstones w)) =
      Some (length (filter (\<lambda>s. s = SlotTombstone) (?L[t := SlotOccupied b i])))"
    using length_filter_list_update [OF t_less, of "\<lambda>s. s = SlotTombstone" "SlotOccupied b i"] t(2)
    by (simp add: tombs checked_sub_def split: if_splits)
  have ok: "table_ok (?L[t := SlotOccupied b i]) ?m (length (filter (\<lambda>s. s = SlotTombstone) (?L[t := SlotOccupied b i])))"
    using ins(1) k by (auto simp: table_ok_def)
  show ?thesis unfolding insert_lookup_def runs_look runs_andthen runs_need t(1)
    using assms(5) [OF ok] ins(2) cnt by simp
qed

section \<open>The cache invariant\<close>

definition agrees :: "lookup_slot list \<Rightarrow> cache_entry list \<Rightarrow> bool" where
  "agrees slots entries \<longleftrightarrow>
     (\<forall>b i. holds slots b i \<longleftrightarrow> i < length entries \<and> resident (entries ! i) \<and> ce_block (entries ! i) = b)"

definition entry_ok :: "cache_entry \<Rightarrow> bool" where
  "entry_ok e \<longleftrightarrow> length (ce_data e) = WRITEBACK_BLOCK_SIZE \<and> (resident e \<longrightarrow> ce_block e < u64_max)"

definition cache_wf :: "'d write_back_disk \<Rightarrow> bool" where
  "cache_wf w \<longleftrightarrow>
     table_ok (wb_lookup w) (wb_lookup_mask w) (wb_lookup_tombstones w) \<and> agrees (wb_lookup w) (wb_entries w) \<and>
     wb_entries w \<noteq> [] \<and> 2 * length (wb_entries w) \<le> length (wb_lookup w) \<and>
     wb_dirty_count w = length (filter dirty (wb_entries w)) \<and>
     wb_resident_count w = length (filter resident (wb_entries w)) \<and>
     (\<forall>e \<in> set (wb_entries w). entry_ok e) \<and>
     0 < wb_writeback_batch_blocks w \<and> wb_writeback_batch_blocks w \<le> MAX_WRITEBACK_BATCH_BLOCKS"

lemma dirty_resident: "dirty e \<Longrightarrow> resident e"
  by (simp add: dirty_def resident_def)

lemma cache_unique: "cache_wf w \<Longrightarrow> unique_blocks (wb_entries w)"
  unfolding cache_wf_def unique_blocks_def agrees_def by (blast intro: holds_unique)

text \<open>What the cache-internal operations leave alone.\<close>

definition frame :: "'d write_back_disk \<Rightarrow> 'd write_back_disk \<Rightarrow> bool" where
  "frame w w' \<longleftrightarrow>
     wb_inner w' = wb_inner w \<and> wb_lookup_mask w' = wb_lookup_mask w \<and> wb_flush_tickets w' = wb_flush_tickets w \<and>
     wb_flush_ticket_head w' = wb_flush_ticket_head w \<and> wb_flush_ticket_len w' = wb_flush_ticket_len w \<and>
     wb_writeback_batch_blocks w' = wb_writeback_batch_blocks w \<and> wb_write_sequence w' = wb_write_sequence w \<and>
     wb_requested_sequence w' = wb_requested_sequence w \<and> wb_durable_sequence w' = wb_durable_sequence w \<and>
     wb_async_writeback_enabled w' = wb_async_writeback_enabled w \<and> wb_quiesced w' = wb_quiesced w \<and>
     wb_failure w' = wb_failure w \<and> length (wb_entries w') = length (wb_entries w)"

lemma frame_refl [simp]: "frame w w"
  by (simp add: frame_def)

lemma frame_trans [trans]: "frame w w' \<Longrightarrow> frame w' w'' \<Longrightarrow> frame w w''"
  by (simp add: frame_def)

lemma runs_metric [simp]: "runs (metric f n) w Q \<longleftrightarrow> Q (Inr ()) (w\<lparr>wb_metrics := f (\<lambda>x. saturating_add x n) (wb_metrics w)\<rparr>)"
  by (simp add: metric_def)

lemma runs_entry_at [simp]: "runs (entry_at i) w Q \<longleftrightarrow> i < length (wb_entries w) \<and> Q (Inr (wb_entries w ! i)) w"
  by (simp add: entry_at_def)

lemma runs_set_entry [simp]:
  "runs (set_entry i f) w Q \<longleftrightarrow>
     i < length (wb_entries w) \<and> Q (Inr ()) (w\<lparr>wb_entries := (wb_entries w)[i := f (wb_entries w ! i)]\<rparr>)"
  by (simp add: set_entry_def)

lemma cache_wf_metrics [simp]: "cache_wf (w\<lparr>wb_metrics := m\<rparr>) = cache_wf w"
  by (simp add: cache_wf_def)

lemma cache_wf_clock [simp]: "cache_wf (w\<lparr>wb_access_clock := m\<rparr>) = cache_wf w"
  by (simp add: cache_wf_def)

lemma cache_lookup_runs:
  assumes "cache_wf w"
    "\<And>i. i < length (wb_entries w) \<Longrightarrow> resident (wb_entries w ! i) \<Longrightarrow> ce_block (wb_entries w ! i) = b \<Longrightarrow> Q (Inr (Some i)) w"
    "(\<And>i. \<not> holds (wb_lookup w) b i) \<Longrightarrow> Q (Inr None) w"
  shows "runs (lookup_entry b) w Q"
  by (rule lookup_entry_runs) (use assms in \<open>auto simp: cache_wf_def agrees_def\<close>)

lemma prepare_entry_runs:
  assumes "cache_wf w" "i < length (wb_entries w)" "\<And>f. \<not> holds (wb_lookup w) b f"
    "\<And>w'. frame w w' \<Longrightarrow> length (wb_lookup w') = length (wb_lookup w) \<Longrightarrow> wb_dirty_count w' = wb_dirty_count w \<Longrightarrow>
      table_ok (wb_lookup w') (wb_lookup_mask w) (wb_lookup_tombstones w') \<Longrightarrow>
      (\<And>c f. holds (wb_lookup w') c f \<longleftrightarrow> holds (wb_lookup w) c f \<and> f \<noteq> i \<or> c = b \<and> f = i) \<Longrightarrow>
      wb_entries w' = (wb_entries w)[i := (wb_entries w ! i)\<lparr>ce_block := b\<rparr>] \<Longrightarrow>
      wb_resident_count w' = wb_resident_count w + (if ce_state (wb_entries w ! i) = EntryClean then 0 else 1) \<Longrightarrow>
      Q (Inr True) w'"
    "\<not> dirty (wb_entries w ! i)"
  shows "runs (prepare_entry i b) w Q"
proof -
  let ?e = "wb_entries w ! i"
  have agr: "holds (wb_lookup w) c f \<longleftrightarrow> f < length (wb_entries w) \<and> resident (wb_entries w ! f) \<and> ce_block (wb_entries w ! f) = c" for c f
    using assms(1) by (simp add: cache_wf_def agrees_def)
  have tab: "table_ok (wb_lookup w) (wb_lookup_mask w) (wb_lookup_tombstones w)"
    and len: "length (wb_entries w) < length (wb_lookup w)" using assms(1,2) by (auto simp: cache_wf_def)
  show ?thesis
  proof (cases "ce_state ?e = EntryClean")
    case True
    then have held: "holds (wb_lookup w) (ce_block ?e) i" using agr assms(2) by (simp add: resident_def)
    have only: "holds (wb_lookup w) c f \<and> c \<noteq> ce_block ?e \<longleftrightarrow> holds (wb_lookup w) c f \<and> f \<noteq> i" for c f
    proof (cases "holds (wb_lookup w) c f")
      case found: True
      have "f = i" if "c = ce_block ?e" using holds_unique [OF tab _ held] found that by simp
      then show ?thesis using found agr [of c f] by blast
    qed simp
    show ?thesis
      unfolding prepare_entry_def runs_andthen runs_entry_at sum.case
      unfolding if_P [OF True]
      unfolding runs_andthen
    proof (intro conjI assms(2) remove_lookup_runs [OF tab held], goal_cases)
      case (1 slots n ms)
      let ?w = "w\<lparr>wb_lookup := slots, wb_lookup_tombstones := n, wb_metrics := ms\<rparr>"
      let ?w2 = "?w\<lparr>wb_metrics := wm_clean_evictions_update (\<lambda>x. saturating_add x 1) ms, wb_entries := (wb_entries w)[i := ?e\<lparr>ce_block := b\<rparr>]\<rparr>"
      have held': "holds slots c f \<longleftrightarrow> holds (wb_lookup w) c f \<and> f \<noteq> i" for c f using 1(3) only by simp
      have "runs (insert_lookup b i) ?w2 (\<lambda>r s. case r of Inl e \<Rightarrow> Q (Inl e) s
        | Inr ok \<Rightarrow> runs (if \<not> ok then ret False else andthen (metric wm_cache_insertions_update 1) (\<lambda>_. ret True)) s Q)"
      proof (rule insert_lookup_runs [where n = "length (wb_entries w)" and g = "\<lambda>f. ce_block (wb_entries w ! f)"], goal_cases)
        case (2 c f)
        then show ?case using held' agr [of c f] by simp
      next
        case (5 slots' t)
        have "holds slots' c f \<longleftrightarrow> holds (wb_lookup w) c f \<and> f \<noteq> i \<or> c = b \<and> f = i" for c f
          using 5(3) [of c f] held' [of c f] by simp
        then show ?case using 1(2) 5(1,2) by (auto simp: frame_def True intro!: assms(4))
      qed (use 1 len held' assms(3) in auto)
      then show ?case by (simp add: assms(2))
    qed
  next
    case False
    then have not_i: "\<not> holds (wb_lookup w) c i" for c using agr assms(5) by (cases "ce_state ?e") (auto simp: resident_def dirty_def)
    let ?w = "w\<lparr>wb_resident_count := wb_resident_count w + 1, wb_entries := (wb_entries w)[i := ?e\<lparr>ce_block := b\<rparr>]\<rparr>"
    have "runs (insert_lookup b i) ?w (\<lambda>r s. case r of Inl e \<Rightarrow> Q (Inl e) s
        | Inr ok \<Rightarrow> runs (if \<not> ok then ret False else andthen (metric wm_cache_insertions_update 1) (\<lambda>_. ret True)) s Q)"
    proof (rule insert_lookup_runs [where n = "length (wb_entries w)" and g = "\<lambda>f. ce_block (wb_entries w ! f)"], goal_cases)
      case (2 c f)
      then show ?case using agr [of c f] by simp
    next
      case (5 slots' t)
      have "holds slots' c f \<longleftrightarrow> holds (wb_lookup w) c f \<and> f \<noteq> i \<or> c = b \<and> f = i" for c f
        using 5(3) [of c f] not_i [of c] by auto
      then show ?case using 5(1,2) by (auto simp: frame_def False intro!: assms(4))
    qed (use tab len assms(3) in auto)
    then show ?thesis
      unfolding prepare_entry_def runs_andthen runs_entry_at sum.case
      by (simp add: False assms(2))
  qed
qed

section \<open>Filling an entry\<close>

text \<open>The dirty entries of two caches agree, up to when they were used.\<close>

definition keep_dirty :: "cache_entry list \<Rightarrow> cache_entry list \<Rightarrow> bool" where
  "keep_dirty es es' \<longleftrightarrow>
     list_all2 (\<lambda>e e'. (dirty e \<longleftrightarrow> dirty e') \<and>
       (dirty e \<longrightarrow> ce_block e' = ce_block e \<and> ce_data e' = ce_data e \<and> ce_first_sequence e' = ce_first_sequence e)) es es'"

definition clean_ok :: "(nat \<Rightarrow> u8 list) \<Rightarrow> cache_entry list \<Rightarrow> bool" where
  "clean_ok base es \<longleftrightarrow> (\<forall>e \<in> set es. ce_state e = EntryClean \<longrightarrow> ce_data e = base (ce_block e))"

lemma keep_dirty_refl [simp]: "keep_dirty es es"
  by (simp add: keep_dirty_def list_all2_refl)

lemma keep_dirty_trans [trans]: "keep_dirty es es' \<Longrightarrow> keep_dirty es' es'' \<Longrightarrow> keep_dirty es es''"
  by (auto simp: keep_dirty_def list_all2_conv_all_nth)

lemma keep_dirty_update:
  "i < length es \<Longrightarrow> dirty (es ! i) = dirty e \<Longrightarrow>
   (dirty e \<Longrightarrow> ce_block e = ce_block (es ! i) \<and> ce_data e = ce_data (es ! i) \<and> ce_first_sequence e = ce_first_sequence (es ! i)) \<Longrightarrow>
   keep_dirty es (es[i := e])"
  by (auto simp: keep_dirty_def list_all2_conv_all_nth nth_list_update)

lemma keep_dirty_overlay:
  "keep_dirty es es' \<Longrightarrow> overlay (\<lambda>e. dirty e \<and> R (ce_first_sequence e)) es' base = overlay (\<lambda>e. dirty e \<and> R (ce_first_sequence e)) es base"
  unfolding keep_dirty_def
proof (induction rule: list_all2_induct)
  case (Cons e es e' es')
  then have tail: "overlay (\<lambda>e. dirty e \<and> R (ce_first_sequence e)) es' base b = overlay (\<lambda>e. dirty e \<and> R (ce_first_sequence e)) es base b" for b
    by (metis (lifting))
  show ?case using Cons.hyps tail by (auto simp: overlay_def fun_eq_iff)
qed (simp add: overlay_def)

lemma clean_ok_update: "clean_ok base es \<Longrightarrow> (ce_state e = EntryClean \<Longrightarrow> ce_data e = base (ce_block e)) \<Longrightarrow> clean_ok base (es[i := e])"
  by (auto simp: clean_ok_def dest!: set_update_subset_insert [THEN subsetD])

lemma reusable_entry_Some:
  "reusable_entry p es = Some i \<Longrightarrow> i < length es \<and> \<not> dirty (es ! i)"
  by (auto simp: reusable_entry_def position_Some dirty_def split: option.splits dest!: min_index_Some)

lemma reusable_entry_exists:
  assumes "e \<in> set es" "\<not> dirty e" "\<And>e. e \<in> set es \<Longrightarrow> resident e \<Longrightarrow> ce_block e \<noteq> b" "p = None \<or> p = Some (b, b + 1)"
  shows "\<exists>i. reusable_entry p es = Some i"
proof (cases "position (\<lambda>e. ce_state e = EntryVacant) es")
  case None
  then have "ce_state e = EntryClean" using assms(1,2) by (cases "ce_state e") (auto simp: position_None dirty_def)
  moreover have "ce_block e \<noteq> b" using assms(1,3) calculation by (simp add: resident_def)
  ultimately show ?thesis using None assms(1,4)
    by (cases p) (auto simp: reusable_entry_def min_index_None not_less_eq_eq simp flip: not_None_eq intro!: bexI [of _ e])
qed (simp add: reusable_entry_def)

lemma frame_metrics [simp]: "frame w (w'\<lparr>wb_metrics := m\<rparr>) = frame w w'" "frame (w\<lparr>wb_metrics := m\<rparr>) w' = frame w w'"
  by (simp_all add: frame_def)

lemma frame_clock [simp]: "frame w (w'\<lparr>wb_access_clock := m\<rparr>) = frame w w'" "frame (w\<lparr>wb_access_clock := m\<rparr>) w' = frame w w'"
  by (simp_all add: frame_def)

lemma cache_wf_filled:
  assumes "cache_wf w" "frame w w'" "length (wb_lookup w') = length (wb_lookup w)" "i < length (wb_entries w)"
    "table_ok (wb_lookup w') (wb_lookup_mask w) (wb_lookup_tombstones w')"
    "\<And>c f. holds (wb_lookup w') c f \<longleftrightarrow> holds (wb_lookup w) c f \<and> f \<noteq> i \<or> c = ce_block e \<and> f = i"
    "wb_entries w' = (wb_entries w)[i := e]" "resident e" "entry_ok e" "\<not> dirty (wb_entries w ! i)"
    "wb_resident_count w' = wb_resident_count w + (if ce_state (wb_entries w ! i) = EntryClean then 0 else 1)"
    "wb_dirty_count w' = wb_dirty_count w + (if dirty e then 1 else 0)"
  shows "cache_wf w'"
proof -
  have "agrees (wb_lookup w') (wb_entries w')"
    using assms(1,4,6,7,8) by (auto simp: cache_wf_def agrees_def nth_list_update)
  moreover have "wb_resident_count w' = length (filter resident (wb_entries w'))"
    using length_filter_list_update [OF assms(4), of resident e] assms(1,7,8,10,11)
    by (cases "ce_state (wb_entries w ! i)") (auto simp: cache_wf_def resident_def dirty_def)
  moreover have "wb_dirty_count w' = length (filter dirty (wb_entries w'))"
    using length_filter_list_update [OF assms(4), of dirty e] assms(1,7,10,12) by (auto simp: cache_wf_def split: if_splits)
  moreover have "\<forall>e \<in> set (wb_entries w'). entry_ok e"
    using assms(1,7,9) by (auto simp: cache_wf_def dest!: set_update_subset_insert [THEN subsetD])
  ultimately show ?thesis using assms(1-3,5,7) by (auto simp: cache_wf_def frame_def)
qed

lemma cache_wf_touched:
  assumes "cache_wf w" "frame w w'" "wb_lookup w' = wb_lookup w" "wb_lookup_tombstones w' = wb_lookup_tombstones w"
    "wb_resident_count w' = wb_resident_count w" "i < length (wb_entries w)" "resident (wb_entries w ! i)"
    "wb_entries w' = (wb_entries w)[i := e]" "resident e" "ce_block e = ce_block (wb_entries w ! i)"
    "length (ce_data e) = WRITEBACK_BLOCK_SIZE"
    "wb_dirty_count w' + (if dirty (wb_entries w ! i) then 1 else 0) = wb_dirty_count w + (if dirty e then 1 else 0)"
  shows "cache_wf w'"
proof -
  have "agrees (wb_lookup w') (wb_entries w')"
    using assms(1,3,6-10) by (auto simp: cache_wf_def agrees_def nth_list_update)
  moreover have "wb_resident_count w' = length (filter resident (wb_entries w'))"
    using length_filter_list_update [OF assms(6), of resident e] assms(1,5,7-9) by (auto simp: cache_wf_def)
  moreover have "wb_dirty_count w' = length (filter dirty (wb_entries w'))"
    using length_filter_list_update [OF assms(6), of dirty e] assms(1,8,12) by (auto simp: cache_wf_def split: if_splits)
  moreover have "\<forall>e \<in> set (wb_entries w'). entry_ok e"
    using assms(1,6,7,8,10,11) by (auto simp: cache_wf_def entry_ok_def dest!: set_update_subset_insert [THEN subsetD])
  ultimately show ?thesis using assms(1-5,8) by (auto simp: cache_wf_def frame_def)
qed

lemma admit_clean_runs:
  assumes "cache_wf w" "b < u64_max" "length data = WRITEBACK_BLOCK_SIZE"
  shows "runs (admit_clean b data) w (\<lambda>r w'. (\<exists>ok. r = Inr ok) \<and> cache_wf w' \<and> frame w w' \<and> keep_dirty (wb_entries w) (wb_entries w') \<and>
    (\<forall>base. clean_ok base (wb_entries w) \<longrightarrow> base b = data \<longrightarrow> clean_ok base (wb_entries w')))"
proof -
  have fill: "runs (andthen next_access (\<lambda>access.
      andthen (prepare_entry i b) (\<lambda>ok.
      if \<not> ok then andthen (metric wm_read_cache_admission_failures_update 1) (\<lambda>_. ret False)
      else andthen (set_entry i (\<lambda>e. e\<lparr>ce_data := data, ce_state := EntryClean, ce_first_sequence := 0, ce_last_sequence := 0,
             ce_last_used := access\<rparr>)) (\<lambda>_. ret True)))) w (\<lambda>r w'. (\<exists>ok. r = Inr ok) \<and> cache_wf w' \<and> frame w w' \<and>
      keep_dirty (wb_entries w) (wb_entries w') \<and> (\<forall>base. clean_ok base (wb_entries w) \<longrightarrow> base b = data \<longrightarrow> clean_ok base (wb_entries w')))"
    if i: "i < length (wb_entries w)" "\<not> dirty (wb_entries w ! i)" and absent: "\<And>f. \<not> holds (wb_lookup w) b f" for i
    unfolding next_access_def runs_andthen runs_update runs_look runs_ret sum.case
  proof (rule prepare_entry_runs, goal_cases)
    case (4 w')
    let ?e = "(wb_entries w ! i)\<lparr>ce_block := b, ce_data := data, ce_state := EntryClean, ce_first_sequence := 0, ce_last_sequence := 0,
      ce_last_used := saturating_add (wb_access_clock w) 1\<rparr>"
    have "cache_wf (w'\<lparr>wb_entries := (wb_entries w)[i := ?e]\<rparr>)"
      by (rule cache_wf_filled [OF assms(1), where i = i and e = ?e]) (use 4 i assms in \<open>auto simp: frame_def resident_def entry_ok_def dirty_def\<close>)
    moreover have "keep_dirty (wb_entries w) ((wb_entries w)[i := ?e])" by (rule keep_dirty_update) (use i in \<open>auto simp: dirty_def\<close>)
    ultimately show ?case using 4(1,6) i by (auto simp: frame_def intro!: clean_ok_update)
  qed (use i absent assms(1) in auto)
  show ?thesis unfolding admit_clean_def runs_andthen
  proof (rule cache_lookup_runs [OF assms(1)], goal_cases)
    case 2
    then show ?case
      using assms(1) fill by (cases "reusable_entry None (wb_entries w)") (auto dest: reusable_entry_Some simp del: runs_andthen simp: runs_andthen [of "metric _ _"])
  qed (use assms(1) in \<open>simp add: exI [of _ True]\<close>)
qed

lemma accept_block_runs:
  assumes "cache_wf w" "b < u64_max" "length data = WRITEBACK_BLOCK_SIZE"
    "(\<exists>e \<in> set (wb_entries w). \<not> dirty e) \<or> (\<exists>e \<in> set (wb_entries w). resident e \<and> ce_block e = b)"
  shows "runs (accept_block b data sequence) w (\<lambda>r w'. r = Inr () \<and> cache_wf w' \<and> frame w w' \<and>
    (\<exists>i e. i < length (wb_entries w) \<and> wb_entries w' = (wb_entries w)[i := e] \<and> dirty e \<and> ce_block e = b \<and> ce_data e = data \<and>
       (if dirty (wb_entries w ! i) then ce_block (wb_entries w ! i) = b \<and> ce_first_sequence e = ce_first_sequence (wb_entries w ! i)
        else ce_first_sequence e = sequence)))"
  unfolding accept_block_def next_access_def runs_andthen runs_update runs_look runs_ret sum.case
proof (rule cache_lookup_runs, goal_cases)
  case (2 i)
  have i: "i < length (wb_entries w)" "resident (wb_entries w ! i)" "ce_block (wb_entries w ! i) = b" using 2 by simp_all
  note touched = cache_wf_touched [OF assms(1) _ _ _ _ i(1,2)]
  show ?case
  proof (cases "dirty (wb_entries w ! i)")
    case True
    then show ?thesis using i assms(3)
      by (auto simp: dirty_def frame_def resident_def intro!: touched exI [of _ i])
  next
    case False
    then show ?thesis using i assms(3)
      by (auto simp: dirty_def frame_def resident_def intro!: touched exI [of _ i])
  qed
next
  case 3
  have absent: "\<not> holds (wb_lookup w) b f" for f using 3 by simp
  then have none: "e \<in> set (wb_entries w) \<Longrightarrow> resident e \<Longrightarrow> ce_block e \<noteq> b" for e
    using assms(1) by (auto simp: cache_wf_def agrees_def in_set_conv_nth)
  then obtain i where reuse: "reusable_entry (Some (b, b + 1)) (wb_entries w) = Some i"
    using assms(4) reusable_entry_exists [of _ "wb_entries w" b "Some (b, b + 1)"] by blast
  then have i: "i < length (wb_entries w)" "\<not> dirty (wb_entries w ! i)" by (auto dest: reusable_entry_Some)
  let ?e = "(wb_entries w ! i)\<lparr>ce_block := b, ce_data := data, ce_state := EntryDirty, ce_first_sequence := sequence,
    ce_last_sequence := sequence, ce_last_used := saturating_add (wb_access_clock w) 1\<rparr>"
  have wf0: "cache_wf (w\<lparr>wb_access_clock := saturating_add (wb_access_clock w) 1\<rparr>)" using assms(1) by simp
  show ?case
    unfolding option.case runs_look sum.case
  proof (simp add: reuse [unfolded Suc_eq_plus1 [symmetric]] del: runs_andthen, unfold runs_andthen, rule prepare_entry_runs, goal_cases)
    case (4 w')
    have "cache_wf (w'\<lparr>wb_entries := (wb_entries w)[i := ?e], wb_dirty_count := Suc (wb_dirty_count w)\<rparr>)"
      by (rule cache_wf_filled [OF assms(1), where i = i and e = ?e]) (use 4 i assms in \<open>auto simp: frame_def resident_def entry_ok_def dirty_def\<close>)
    then show ?case using 4 i
      by (auto simp: frame_def dirty_def intro!: exI [of _ i] exI [of _ ?e])
  qed (use i absent assms(1) in auto)
qed (use assms(1) in simp)

section \<open>Runs of dirty entries\<close>

definition run_ok :: "cache_entry list \<Rightarrow> nat option \<Rightarrow> nat list \<Rightarrow> bool" where
  "run_ok es ticket run \<longleftrightarrow>
     run \<noteq> [] \<and>
     (\<forall>i \<in> set run. i < length es \<and> dirty (es ! i) \<and> (\<forall>t. ticket = Some t \<longrightarrow> ce_first_sequence (es ! i) \<le> t)) \<and>
     (\<forall>k < length run. ce_block (es ! (run ! k)) = ce_block (es ! hd run) + k) \<and>
     (\<forall>i \<in> set run. ce_first_sequence (es ! i) \<le> ce_first_sequence (es ! last run)) \<and> distinct run"

lemma extend_run_ok:
  assumes "run_ok es ticket run" "\<forall>e \<in> set es. entry_ok e"
  shows "run_ok es ticket (extend_run es ticket n run)" "hd (extend_run es ticket n run) = hd run"
    "length (extend_run es ticket n run) \<le> length run + n"
proof -
  have "run_ok es ticket (extend_run es ticket n run) \<and> hd (extend_run es ticket n run) = hd run \<and>
    length (extend_run es ticket n run) \<le> length run + n"
    using assms(1)
  proof (induction n arbitrary: run)
    case (Suc n)
    let ?prev = "es ! last run"
    show ?case
    proof (cases "min_index ce_first_sequence (\<lambda>e. ce_state e = EntryDirty \<and> ce_first_sequence e > ce_first_sequence ?prev) es")
      case (Some j)
      then have j: "j < length es" "dirty (es ! j)" "ce_first_sequence (es ! j) > ce_first_sequence ?prev"
        by (auto dest: min_index_Some simp: dirty_def)
      show ?thesis
      proof (cases "ce_block (es ! j) \<noteq> saturating_add (ce_block ?prev) 1 \<or>
          (case ticket of None \<Rightarrow> False | Some t \<Rightarrow> ce_first_sequence (es ! j) > t)")
        case False
        have ne: "run \<noteq> []" using Suc.prems by (simp add: run_ok_def)
        have last: "last run = run ! (length run - 1)" "length run - 1 < length run" using ne by (simp_all add: last_conv_nth)
        have "entry_ok ?prev" "dirty ?prev" using Suc.prems assms(2) ne by (auto simp: run_ok_def)
        then have "saturating_add (ce_block ?prev) 1 = ce_block ?prev + 1"
          by (intro saturating_add_exact) (auto simp: entry_ok_def dirty_resident)
        moreover have "ce_block ?prev = ce_block (es ! hd run) + (length run - 1)"
          using Suc.prems last unfolding run_ok_def by metis
        ultimately have blk: "ce_block (es ! j) = ce_block (es ! hd run) + length run" using False ne by (cases run) auto
        have fresh: "j \<notin> set run" using Suc.prems j(3) by (auto simp: run_ok_def)
        have "run_ok es ticket (run @ [j])"
          using Suc.prems j blk fresh False ne unfolding run_ok_def
          by (auto simp: nth_append less_Suc_eq split: option.splits intro: less_imp_le order.trans)
        from Suc.IH [OF this] show ?thesis using Some False ne by (simp add: Let_def)
      qed (use Some Suc.prems in \<open>simp add: Let_def\<close>)
    qed (use Suc.prems in \<open>simp add: Let_def\<close>)
  qed simp
  then show "run_ok es ticket (extend_run es ticket n run)" "hd (extend_run es ticket n run) = hd run"
    "length (extend_run es ticket n run) \<le> length run + n" by simp_all
qed

definition marked :: "cache_entry list \<Rightarrow> nat list \<Rightarrow> cache_entry list" where
  "marked es run = map (\<lambda>j. if j \<in> set run then (es ! j)\<lparr>ce_state := EntryClean\<rparr> else es ! j) [0..<length es]"

lemma length_marked [simp]: "length (marked es run) = length es"
  by (simp add: marked_def)

lemma nth_marked [simp]: "j < length es \<Longrightarrow> marked es run ! j = (if j \<in> set run then (es ! j)\<lparr>ce_state := EntryClean\<rparr> else es ! j)"
  by (simp add: marked_def)

lemma mark_run_runs:
  assumes "\<forall>i \<in> set run. i < length (wb_entries w)" "Q (Inr ()) (w\<lparr>wb_entries := marked (wb_entries w) run\<rparr>)"
  shows "runs (for_each run (\<lambda>i. set_entry i (\<lambda>e. e\<lparr>ce_state := EntryClean\<rparr>))) w Q"
proof (rule runs_for_each [where I = "\<lambda>seen s. s = w\<lparr>wb_entries := marked (wb_entries w) seen\<rparr>"], goal_cases)
  case 1
  have "marked (wb_entries w) [] = wb_entries w" by (rule nth_equalityI) simp_all
  then show ?case by simp
next
  case (2 seen i rest s)
  then have i: "i < length (wb_entries w)" using assms(1) by simp
  have "(marked (wb_entries w) seen)[i := (marked (wb_entries w) seen ! i)\<lparr>ce_state := EntryClean\<rparr>] = marked (wb_entries w) (seen @ [i])"
    by (rule nth_equalityI) (use i in \<open>auto simp: nth_list_update\<close>)
  then show ?case using 2 i by simp
qed (use assms(2) in simp)

lemma dirty_marked:
  assumes "\<forall>i \<in> set run. i < length es \<and> dirty (es ! i)" "distinct run"
  shows "length (filter dirty es) = length (filter dirty (marked es run)) + length run"
proof -
  have "{i. i < length es \<and> dirty (es ! i)} = {i. i < length es \<and> dirty (marked es run ! i)} \<union> set run"
    using assms(1) by (auto simp: dirty_def)
  moreover have "{i. i < length es \<and> dirty (marked es run ! i)} \<inter> set run = {}" by (auto simp: dirty_def)
  ultimately show ?thesis using assms(2) by (simp add: length_filter_conv_card card_Un_disjoint distinct_card)
qed

lemma resident_marked:
  assumes "\<forall>i \<in> set run. i < length es \<and> dirty (es ! i)"
  shows "length (filter resident (marked es run)) = length (filter resident es)"
proof -
  have "{i. i < length es \<and> resident (marked es run ! i)} = {i. i < length es \<and> resident (es ! i)}"
    using assms by (force simp: resident_def dirty_def split: if_splits)
  then show ?thesis by (simp add: length_filter_conv_card)
qed

lemma unique_marked:
  "unique_blocks es \<Longrightarrow> \<forall>i \<in> set run. i < length es \<and> dirty (es ! i) \<Longrightarrow> unique_blocks (marked es run)"
  by (auto simp: unique_blocks_def resident_def dirty_def)

lemma block_slice_concat:
  "\<forall>x \<in> set xs. length x = WRITEBACK_BLOCK_SIZE \<Longrightarrow> k < length xs \<Longrightarrow> block_slice k (concat xs) = xs ! k"
proof (induction xs arbitrary: k)
  case (Cons x xs)
  then show ?case by (cases k) (simp_all add: block_slice_def)
qed simp

lemma length_concat_blocks:
  "\<forall>x \<in> set xs. length x = WRITEBACK_BLOCK_SIZE \<Longrightarrow> length (concat xs) = length xs * WRITEBACK_BLOCK_SIZE"
  by (induction xs) simp_all

text \<open>Writing a run moves it from the overlay to the base; a write that fails leaves the overlay over whatever it did to the base.\<close>

lemma overlay_written:
  assumes "unique_blocks es" "\<And>e. P e \<Longrightarrow> dirty e" "\<forall>i \<in> set run. i < length es \<and> P (es ! i)"
    "\<forall>i \<in> set run. base' (ce_block (es ! i)) = ce_data (es ! i)"
    "\<forall>b. (\<forall>i \<in> set run. ce_block (es ! i) \<noteq> b) \<longrightarrow> base' b = base b"
  shows "overlay P (marked es run) base' = overlay P es base"
proof
  fix b
  have res: "P e \<Longrightarrow> resident e" for e using assms(2) dirty_resident by blast
  have run: "\<forall>i \<in> set run. i < length es \<and> dirty (es ! i)" using assms(2,3) by blast
  have unmarked: "\<not> P (e\<lparr>ce_state := EntryClean\<rparr>)" for e using assms(2) by (force simp: dirty_def)
  show "overlay P (marked es run) base' b = overlay P es base b"
  proof (cases "\<exists>i < length es. P (es ! i) \<and> ce_block (es ! i) = b")
    case True
    then obtain i where i: "i < length es" "P (es ! i)" "ce_block (es ! i) = b" by blast
    then have old: "overlay P es base b = ce_data (es ! i)" using overlay_hit [of es P i base] assms(1) res by simp
    show ?thesis
    proof (cases "i \<in> set run")
      case True
      have "overlay P (marked es run) base' b = base' b"
      proof (rule overlay_miss)
        fix j assume "j < length (marked es run)" "P (marked es run ! j)"
        then have j: "j < length es" "j \<notin> set run" "P (es ! j)" using unmarked by (auto split: if_splits)
        have "i = j" if "ce_block (es ! j) = b"
          using unique_blocksD [OF assms(1) i(1) j(1) res [OF i(2)] res [OF j(3)]] i(3) that by simp
        then show "ce_block (marked es run ! j) \<noteq> b" using j True by auto
      qed
      then show ?thesis using old True assms(4) i(3) by auto
    next
      case False
      then show ?thesis
        using overlay_hit [of "marked es run" P i base'] unique_marked [OF assms(1) run] res i old by simp
    qed
  next
    case False
    have "overlay P es base b = base b" by (rule overlay_miss) (use False in blast)
    moreover have "overlay P (marked es run) base' b = base' b"
    proof (rule overlay_miss)
      fix j assume "j < length (marked es run)" "P (marked es run ! j)"
      then have "j < length es" "j \<notin> set run" "P (es ! j)" using unmarked by (auto split: if_splits)
      then show "ce_block (marked es run ! j) \<noteq> b" using False by auto
    qed
    moreover have "base' b = base b" using assms(3,5) False by blast
    ultimately show ?thesis by simp
  qed
qed

lemma overlay_failed:
  assumes "unique_blocks es" "\<And>e. P e \<Longrightarrow> dirty e" "\<forall>i \<in> set run. i < length es \<and> P (es ! i)"
    "\<forall>b. (\<forall>i \<in> set run. ce_block (es ! i) \<noteq> b) \<longrightarrow> base' b = base b"
  shows "overlay P es base' = overlay P es base"
proof
  fix b
  have res: "P e \<Longrightarrow> resident e" for e using assms(2) dirty_resident by blast
  show "overlay P es base' b = overlay P es base b"
  proof (cases "\<exists>i < length es. P (es ! i) \<and> ce_block (es ! i) = b")
    case True
    then obtain i where "i < length es" "P (es ! i)" "ce_block (es ! i) = b" by blast
    then show ?thesis using overlay_hit [of es P i base] overlay_hit [of es P i base'] assms(1) res by simp
  next
    case False
    then have "overlay P es base b = base b" "overlay P es base' b = base' b" by (auto intro!: overlay_miss)
    then show ?thesis using assms(3,4) False by metis
  qed
qed

end
