(* ===== verification/Write_Back_Order.thy ===== *)
theory Write_Back_Order
  imports Write_Back_Invariant
begin

text \<open>
  Write-back in sequence order: the invariant of the sequences and flush tickets, the contract of the backing disk, and what a write-back step,
  a durability request and a drain do to the contents seen through the cache and to the contents that every pending ticket promises.
\<close>

section \<open>The backing disk\<close>

text \<open>
  The documented behaviour of a \<^verbatim>\<open>Disk\<close> that the cache relies on. \<open>content\<close> gives the blocks that the disk would read back, \<open>snaps\<close> the
  contents that each successful flush has made durable, latest first. A full read returns the contents, a full write replaces
  them, a write that fails or is short changes nothing outside its range, and a successful flush makes the contents durable.
\<close>

definition disk_ok :: "'d disk_ops \<Rightarrow> ('d \<Rightarrow> nat \<Rightarrow> u8 list) \<Rightarrow> ('d \<Rightarrow> (nat \<Rightarrow> u8 list) list) \<Rightarrow> bool" where
  "disk_ok ops content snaps \<longleftrightarrow>
     (\<forall>d b. length (content d b) = WRITEBACK_BLOCK_SIZE) \<and>
     (\<forall>d d' b n r. dk_read_at ops b (n * WRITEBACK_BLOCK_SIZE) d = (r, d') \<longrightarrow> content d' = content d \<and> snaps d' = snaps d \<and>
        (\<forall>bytes. r = Inr (n * WRITEBACK_BLOCK_SIZE, bytes) \<longrightarrow> bytes = concat (map (content d) [b..<b + n]))) \<and>
     (\<forall>d d' b bytes n r. dk_write_at ops b bytes d = (r, d') \<longrightarrow> length bytes = n * WRITEBACK_BLOCK_SIZE \<longrightarrow> snaps d' = snaps d \<and>
        (\<forall>c. c < b \<or> b + n \<le> c \<longrightarrow> content d' c = content d c) \<and>
        (r = Inr (length bytes) \<longrightarrow> (\<forall>k < n. content d' (b + k) = block_slice k bytes))) \<and>
     (\<forall>d d' r. dk_flush ops d = (r, d') \<longrightarrow> content d' = content d \<and> snaps d' = (if isl r then snaps d else content d # snaps d)) \<and>
     (\<forall>d d' r. dk_size ops d = (r, d') \<longrightarrow> content d' = content d \<and> snaps d' = snaps d \<and> (\<forall>n. r = Inr n \<longrightarrow> n \<le> u64_max))"

lemma disk_readD:
  assumes "disk_ok ops content snaps" "dk_read_at ops b (n * WRITEBACK_BLOCK_SIZE) d = (r, d')"
  shows "content d' = content d" "snaps d' = snaps d"
    "r = Inr (n * WRITEBACK_BLOCK_SIZE, bytes) \<Longrightarrow> bytes = concat (map (content d) [b..<b + n])"
  using assms(1) [unfolded disk_ok_def, THEN conjunct2, THEN conjunct1, THEN spec, THEN spec, THEN spec, THEN spec, THEN spec, THEN mp, OF assms(2)] by (elim conjE; simp)+

lemma disk_writeD:
  assumes "disk_ok ops content snaps" "dk_write_at ops b bytes d = (r, d')" "length bytes = n * WRITEBACK_BLOCK_SIZE"
  shows "snaps d' = snaps d" "c < b \<or> b + n \<le> c \<Longrightarrow> content d' c = content d c"
    "r = Inr (length bytes) \<Longrightarrow> k < n \<Longrightarrow> content d' (b + k) = block_slice k bytes"
proof -
  note w = assms(1) [unfolded disk_ok_def, THEN conjunct2, THEN conjunct2, THEN conjunct1, THEN spec, THEN spec, THEN spec, THEN spec,
    THEN spec, THEN spec, THEN mp, OF assms(2), THEN mp, OF assms(3)]
  show "snaps d' = snaps d" by (rule w [THEN conjunct1])
  show "c < b \<or> b + n \<le> c \<Longrightarrow> content d' c = content d c" by (rule w [THEN conjunct2, THEN conjunct1, THEN spec, THEN mp])
  show "r = Inr (length bytes) \<Longrightarrow> k < n \<Longrightarrow> content d' (b + k) = block_slice k bytes"
    by (rule w [THEN conjunct2, THEN conjunct2, THEN mp, THEN spec, THEN mp])
qed

lemma disk_flushD:
  assumes "disk_ok ops content snaps" "dk_flush ops d = (r, d')"
  shows "content d' = content d" "snaps d' = (if isl r then snaps d else content d # snaps d)"
  using assms(1) [unfolded disk_ok_def, THEN conjunct2, THEN conjunct2, THEN conjunct2, THEN conjunct1, THEN spec, THEN spec, THEN spec, THEN mp, OF assms(2)] by (elim conjE; simp)+

lemma disk_sizeD:
  assumes "disk_ok ops content snaps" "dk_size ops d = (r, d')"
  shows "content d' = content d" "snaps d' = snaps d" "r = Inr n \<Longrightarrow> n \<le> u64_max"
  using assms(1) [unfolded disk_ok_def, THEN conjunct2, THEN conjunct2, THEN conjunct2, THEN conjunct2, THEN spec, THEN spec, THEN spec, THEN mp, OF assms(2)] by (elim conjE; simp)+

lemma disk_length: "disk_ok ops content snaps \<Longrightarrow> length (content d b) = WRITEBACK_BLOCK_SIZE"
  unfolding disk_ok_def by (elim conjE allE)

lemma runs_backing:
  "runs (backing call) w Q \<longleftrightarrow> (\<forall>r d. call (wb_inner w) = (r, d) \<longrightarrow> Q (Inr r) (w\<lparr>wb_inner := d\<rparr>))"
  by (simp add: backing_def split: prod.splits)

section \<open>Sequences and tickets\<close>

definition tickets :: "'d write_back_disk \<Rightarrow> nat list" where
  "tickets w = map (\<lambda>i. wb_flush_tickets w ! ((wb_flush_ticket_head w + i) mod length (wb_flush_tickets w))) [0..<wb_flush_ticket_len w]"

definition ring_ok :: "'d write_back_disk \<Rightarrow> bool" where
  "ring_ok w \<longleftrightarrow> wb_flush_ticket_head w < length (wb_flush_tickets w) \<and> wb_flush_ticket_len w \<le> length (wb_flush_tickets w)"

definition seq_wf :: "'d write_back_disk \<Rightarrow> bool" where
  "seq_wf w \<longleftrightarrow>
     ring_ok w \<and> sorted_wrt (<) (wb_durable_sequence w # tickets w) \<and>
     last (wb_durable_sequence w # tickets w) = wb_requested_sequence w \<and>
     wb_requested_sequence w \<le> wb_write_sequence w \<and> wb_write_sequence w \<le> u64_max \<and>
     (\<forall>e \<in> set (wb_entries w). dirty e \<longrightarrow> wb_durable_sequence w < ce_first_sequence e \<and> ce_first_sequence e \<le> wb_write_sequence w)"

text \<open>The contents seen through the cache, when only the dirty entries whose first sequence satisfies \<open>R\<close> count.\<close>

definition seen :: "('d \<Rightarrow> nat \<Rightarrow> u8 list) \<Rightarrow> (nat \<Rightarrow> bool) \<Rightarrow> 'd write_back_disk \<Rightarrow> nat \<Rightarrow> u8 list" where
  "seen content R w = overlay (\<lambda>e. dirty e \<and> R (ce_first_sequence e)) (wb_entries w) (content (wb_inner w))"

text \<open>The logical disk, and the logical disk as of the write with a given sequence number.\<close>

definition logical :: "('d \<Rightarrow> nat \<Rightarrow> u8 list) \<Rightarrow> 'd write_back_disk \<Rightarrow> nat \<Rightarrow> u8 list" where
  "logical content w = seen content (\<lambda>_. True) w"

definition logical_at :: "('d \<Rightarrow> nat \<Rightarrow> u8 list) \<Rightarrow> nat \<Rightarrow> 'd write_back_disk \<Rightarrow> nat \<Rightarrow> u8 list" where
  "logical_at content t w = seen content (\<lambda>s. s \<le> t) w"

definition wb_inv :: "('d \<Rightarrow> nat \<Rightarrow> u8 list) \<Rightarrow> 'd write_back_disk \<Rightarrow> bool" where
  "wb_inv content w \<longleftrightarrow> cache_wf w \<and> seq_wf w \<and> clean_ok (content (wb_inner w)) (wb_entries w)"

text \<open>
  How the durable contents follow the cache: the flushes done on the way, and every pending ticket either still pending with its
  contents unchanged, or flushed with exactly those contents.
\<close>

definition evolves ::
  "('d \<Rightarrow> nat \<Rightarrow> u8 list) \<Rightarrow> ('d \<Rightarrow> (nat \<Rightarrow> u8 list) list) \<Rightarrow> 'd write_back_disk \<Rightarrow> 'd write_back_disk \<Rightarrow> bool" where
  "evolves content snaps w w' \<longleftrightarrow>
     (\<exists>new. snaps (wb_inner w') = new @ snaps (wb_inner w) \<and>
        (\<forall>t \<in> set (tickets w).
           t \<in> set (tickets w') \<and> logical_at content t w' = logical_at content t w \<or>
           t \<le> wb_durable_sequence w' \<and> logical_at content t w \<in> set new)) \<and>
     wb_durable_sequence w \<le> wb_durable_sequence w' \<and> wb_requested_sequence w \<le> wb_requested_sequence w' \<and>
     wb_write_sequence w \<le> wb_write_sequence w' \<and> length (wb_entries w') = length (wb_entries w)"

lemma evolves_refl [simp]: "evolves content snaps w w"
  by (simp add: evolves_def)

lemma evolves_trans [trans]:
  assumes "evolves content snaps w w'" "evolves content snaps w' w''"
  shows "evolves content snaps w w''"
proof -
  obtain new where new: "snaps (wb_inner w') = new @ snaps (wb_inner w)"
    "\<forall>t \<in> set (tickets w). t \<in> set (tickets w') \<and> logical_at content t w' = logical_at content t w \<or>
       t \<le> wb_durable_sequence w' \<and> logical_at content t w \<in> set new" using assms(1) by (auto simp: evolves_def)
  obtain new' where new': "snaps (wb_inner w'') = new' @ snaps (wb_inner w')"
    "\<forall>t \<in> set (tickets w'). t \<in> set (tickets w'') \<and> logical_at content t w'' = logical_at content t w' \<or>
       t \<le> wb_durable_sequence w'' \<and> logical_at content t w' \<in> set new'" using assms(2) by (auto simp: evolves_def)
  have mono: "wb_durable_sequence w' \<le> wb_durable_sequence w''" using assms(2) by (simp add: evolves_def)
  have "\<forall>t \<in> set (tickets w). t \<in> set (tickets w'') \<and> logical_at content t w'' = logical_at content t w \<or>
      t \<le> wb_durable_sequence w'' \<and> logical_at content t w \<in> set (new' @ new)"
  proof
    fix t assume "t \<in> set (tickets w)"
    from new(2) [rule_format, OF this] show "t \<in> set (tickets w'') \<and> logical_at content t w'' = logical_at content t w \<or>
      t \<le> wb_durable_sequence w'' \<and> logical_at content t w \<in> set (new' @ new)"
      using new'(2) [rule_format, of t] mono by auto
  qed
  then show ?thesis using assms new(1) new'(1) unfolding evolves_def by (intro conjI exI [of _ "new' @ new"]) auto
qed

lemma tickets_frame: "frame w w' \<Longrightarrow> tickets w' = tickets w" "frame w w' \<Longrightarrow> ring_ok w' = ring_ok w"
  by (simp_all add: frame_def tickets_def ring_ok_def)

lemma tickets_Nil: "tickets w = [] \<longleftrightarrow> wb_flush_ticket_len w = 0"
  by (simp add: tickets_def)

lemma tickets_hd: "ring_ok w \<Longrightarrow> wb_flush_ticket_len w \<noteq> 0 \<Longrightarrow> hd (tickets w) = wb_flush_tickets w ! wb_flush_ticket_head w"
  by (simp add: tickets_def ring_ok_def hd_map)

lemma tickets_pop:
  assumes "wb_flush_ticket_len w = Suc n" "wb_flush_ticket_len w' = n" "wb_flush_tickets w' = wb_flush_tickets w"
    "wb_flush_ticket_head w' = (wb_flush_ticket_head w + 1) mod length (wb_flush_tickets w)"
  shows "tickets w' = tl (tickets w)"
  by (rule nth_equalityI) (use assms in \<open>simp_all add: tickets_def nth_tl mod_simps del: upt_Suc\<close>)

lemma tickets_push:
  assumes "ring_ok w" "wb_flush_ticket_len w < length (wb_flush_tickets w)" "wb_flush_ticket_len w' = wb_flush_ticket_len w + 1"
    "wb_flush_ticket_head w' = wb_flush_ticket_head w"
    "wb_flush_tickets w' = (wb_flush_tickets w)[(wb_flush_ticket_head w + wb_flush_ticket_len w) mod length (wb_flush_tickets w) := t]"
  shows "tickets w' = tickets w @ [t]"
proof (rule nth_equalityI)
  fix i assume "i < length (tickets w')"
  then have i: "i < wb_flush_ticket_len w + 1" using assms(3) by (simp add: tickets_def)
  let ?n = "length (wb_flush_tickets w)" and ?h = "wb_flush_ticket_head w"
  have n: "0 < ?n" by (rule le_less_trans [OF _ assms(2)]) simp
  have "(?h + i) mod ?n \<noteq> (?h + wb_flush_ticket_len w) mod ?n" if "i < wb_flush_ticket_len w"
  proof
    assume "(?h + i) mod ?n = (?h + wb_flush_ticket_len w) mod ?n"
    then have "?n dvd wb_flush_ticket_len w - i" using that mod_eq_dvd_iff_nat [of "?h + i" "?h + wb_flush_ticket_len w" ?n] by simp
    then show False using that assms(2) by (auto dest!: dvd_imp_le)
  qed
  then show "tickets w' ! i = (tickets w @ [t]) ! i"
    using i n assms(3-5) by (cases "i = wb_flush_ticket_len w") (auto simp: tickets_def nth_append nth_list_update simp del: upt_Suc)
qed (use assms in \<open>simp add: tickets_def\<close>)

section \<open>A write-back step\<close>

lemma wb_invD:
  assumes "wb_inv content w"
  shows "cache_wf w" "seq_wf w" "clean_ok (content (wb_inner w)) (wb_entries w)"
  using assms by (simp_all add: wb_inv_def)

lemma wb_inv_metrics [simp]: "wb_inv content (w\<lparr>wb_metrics := m\<rparr>) = wb_inv content w"
  by (simp add: wb_inv_def seq_wf_def tickets_def ring_ok_def)

lemma seen_metrics [simp]: "seen content R (w\<lparr>wb_metrics := m\<rparr>) = seen content R w"
  by (simp add: seen_def)

lemma logical_metrics [simp]:
  "logical content (w\<lparr>wb_metrics := m\<rparr>) = logical content w" "logical_at content t (w\<lparr>wb_metrics := m\<rparr>) = logical_at content t w"
  "tickets (w\<lparr>wb_metrics := m\<rparr>) = tickets w"
  by (simp_all add: logical_def logical_at_def tickets_def)

lemma evolves_metrics [simp]:
  "evolves content snaps w (w'\<lparr>wb_metrics := m\<rparr>) = evolves content snaps w w'"
  "evolves content snaps (w\<lparr>wb_metrics := m\<rparr>) w' = evolves content snaps w w'"
  by (simp_all add: evolves_def)

text \<open>What a write-back step, successful or not, leaves as it was.\<close>

definition step_keeps ::
  "('d \<Rightarrow> nat \<Rightarrow> u8 list) \<Rightarrow> ('d \<Rightarrow> (nat \<Rightarrow> u8 list) list) \<Rightarrow> 'd write_back_disk \<Rightarrow> 'd write_back_disk \<Rightarrow> bool" where
  "step_keeps content snaps w w' \<longleftrightarrow>
     wb_inv content w' \<and> logical content w' = logical content w \<and> evolves content snaps w w' \<and>
     (\<exists>run. (\<forall>i \<in> set run. i < length (wb_entries w) \<and> dirty (wb_entries w ! i)) \<and> wb_entries w' = marked (wb_entries w) run) \<and>
     wb_lookup w' = wb_lookup w \<and> wb_write_sequence w' = wb_write_sequence w \<and> wb_requested_sequence w' = wb_requested_sequence w \<and>
     wb_quiesced w' = wb_quiesced w \<and> wb_async_writeback_enabled w' = wb_async_writeback_enabled w"

lemma marked_Nil [simp]: "marked es [] = es"
  by (rule nth_equalityI) simp_all

lemma step_keeps_refl: "wb_inv content w \<Longrightarrow> step_keeps content snaps w w"
  by (simp add: step_keeps_def exI [of _ "[]"])

lemma step_keeps_metrics [simp]:
  "step_keeps content snaps w (w'\<lparr>wb_metrics := m\<rparr>) = step_keeps content snaps w w'"
  "step_keeps content snaps (w\<lparr>wb_metrics := m\<rparr>) w' = step_keeps content snaps w w'"
  by (simp_all add: step_keeps_def)

lemma marked_marked: "marked (marked es run) run' = marked es (run @ run')"
  by (rule nth_equalityI) simp_all

lemma step_keeps_trans [trans]:
  assumes "step_keeps content snaps w w'" "step_keeps content snaps w' w''"
  shows "step_keeps content snaps w w''"
proof -
  obtain run where run: "\<forall>i \<in> set run. i < length (wb_entries w) \<and> dirty (wb_entries w ! i)" "wb_entries w' = marked (wb_entries w) run"
    using assms(1) by (auto simp: step_keeps_def)
  obtain run' where run': "\<forall>i \<in> set run'. i < length (wb_entries w') \<and> dirty (wb_entries w' ! i)" "wb_entries w'' = marked (wb_entries w') run'"
    using assms(2) by (auto simp: step_keeps_def)
  have "\<forall>i \<in> set (run @ run'). i < length (wb_entries w) \<and> dirty (wb_entries w ! i)"
    using run run'(1) by (auto simp: dirty_def split: if_splits)
  moreover have "wb_entries w'' = marked (wb_entries w) (run @ run')" using run(2) run'(2) by (simp add: marked_marked)
  ultimately show ?thesis
    using assms evolves_trans [of content snaps w w' w''] unfolding step_keeps_def by (intro conjI exI [of _ "run @ run'"]) auto
qed

lemma seen_cong:
  "wb_inner w' = wb_inner w \<Longrightarrow> wb_entries w' = wb_entries w \<Longrightarrow> seen content R w' = seen content R w"
  by (simp add: seen_def)

lemma tickets_above: "seq_wf w \<Longrightarrow> t \<in> set (tickets w) \<Longrightarrow> wb_durable_sequence w < t \<and> t \<le> wb_requested_sequence w"
proof -
  assume w: "seq_wf w" and t: "t \<in> set (tickets w)"
  have s: "sorted_wrt (<) (tickets w)" "\<forall>x \<in> set (tickets w). wb_durable_sequence w < x" "last (tickets w) = wb_requested_sequence w"
    using w t by (auto simp: seq_wf_def split: if_splits)
  obtain i where i: "i < length (tickets w)" "t = tickets w ! i" using t by (metis in_set_conv_nth)
  have "tickets w ! i \<le> tickets w ! (length (tickets w) - 1)"
  proof (cases "i = length (tickets w) - 1")
    case False
    then have "i < length (tickets w) - 1" "length (tickets w) - 1 < length (tickets w)" using i(1) by linarith+
    then show ?thesis using sorted_wrt_nth_less [OF s(1)] less_imp_le by blast
  qed simp
  moreover have "last (tickets w) = tickets w ! (length (tickets w) - 1)" using t by (intro last_conv_nth) auto
  ultimately show ?thesis using s i t by auto
qed

lemma record_failure_runs [simp]:
  "runs (record_failure e oper) w Q \<longleftrightarrow>
     Q (Inr ()) (w\<lparr>wb_failure := (if wb_failure w = None then Some \<lparr>wf_errno = e, wf_operation = oper\<rparr> else wb_failure w),
       wb_metrics := wm_writeback_errors_update (\<lambda>x. saturating_add x 1) (wb_metrics w)\<rparr>)"
  by (simp add: record_failure_def)

lemma wb_inv_failure [simp]: "wb_inv content (w\<lparr>wb_failure := f\<rparr>) = wb_inv content w"
  by (simp add: wb_inv_def cache_wf_def seq_wf_def tickets_def ring_ok_def)

lemma step_keeps_failure [simp]: "step_keeps content snaps w (w'\<lparr>wb_failure := f\<rparr>) = step_keeps content snaps w w'"
  by (simp add: step_keeps_def logical_def logical_at_def seen_def evolves_def tickets_def)

definition same_control :: "'d write_back_disk \<Rightarrow> 'd write_back_disk \<Rightarrow> bool" where
  "same_control w w' \<longleftrightarrow>
     wb_lookup w' = wb_lookup w \<and> wb_lookup_mask w' = wb_lookup_mask w \<and> wb_lookup_tombstones w' = wb_lookup_tombstones w \<and>
     wb_resident_count w' = wb_resident_count w \<and> wb_writeback_batch_blocks w' = wb_writeback_batch_blocks w \<and>
     wb_flush_tickets w' = wb_flush_tickets w \<and> wb_flush_ticket_head w' = wb_flush_ticket_head w \<and>
     wb_flush_ticket_len w' = wb_flush_ticket_len w \<and> wb_write_sequence w' = wb_write_sequence w \<and>
     wb_requested_sequence w' = wb_requested_sequence w \<and> wb_durable_sequence w' = wb_durable_sequence w \<and>
     wb_async_writeback_enabled w' = wb_async_writeback_enabled w \<and> wb_quiesced w' = wb_quiesced w"

lemma same_control_tickets: "same_control w w' \<Longrightarrow> tickets w' = tickets w" "same_control w w' \<Longrightarrow> ring_ok w' = ring_ok w"
  by (simp_all add: same_control_def tickets_def ring_ok_def)

lemma run_bytes:
  assumes "cache_wf w" "run_ok (wb_entries w) tk run"
  shows "length (concat (map (\<lambda>i. ce_data (wb_entries w ! i)) run)) = length run * WRITEBACK_BLOCK_SIZE"
    "k < length run \<Longrightarrow> block_slice k (concat (map (\<lambda>i. ce_data (wb_entries w ! i)) run)) = ce_data (wb_entries w ! (run ! k))"
proof -
  have len: "\<forall>x \<in> set (map (\<lambda>i. ce_data (wb_entries w ! i)) run). length x = WRITEBACK_BLOCK_SIZE"
    using assms by (auto simp: cache_wf_def entry_ok_def run_ok_def)
  show "length (concat (map (\<lambda>i. ce_data (wb_entries w ! i)) run)) = length run * WRITEBACK_BLOCK_SIZE"
    using length_concat_blocks [OF len] by simp
  show "k < length run \<Longrightarrow> block_slice k (concat (map (\<lambda>i. ce_data (wb_entries w ! i)) run)) = ce_data (wb_entries w ! (run ! k))"
    using block_slice_concat [OF len, of k] by simp
qed

text \<open>The blocks of a run are the range that is written.\<close>

lemma run_outside:
  assumes "run_ok es tk run" "\<forall>i \<in> set run. ce_block (es ! i) \<noteq> b"
  shows "b < ce_block (es ! hd run) \<or> ce_block (es ! hd run) + length run \<le> b"
proof (rule ccontr)
  assume b: "\<not> ?thesis"
  then obtain k where k: "b = ce_block (es ! hd run) + k" "k < length run" by (metis add_diff_inverse_nat add_less_cancel_left not_less)
  then have "ce_block (es ! (run ! k)) = b" using assms(1) by (simp add: run_ok_def)
  then show False using assms(2) k(2) by force
qed

lemma run_effect:
  assumes "disk_ok ops content snaps" "cache_wf w" "run_ok (wb_entries w) tk run"
    and "dk_write_at ops (ce_block (wb_entries w ! hd run)) (concat (map (\<lambda>i. ce_data (wb_entries w ! i)) run)) (wb_inner w) = (r, d')"
  shows "snaps d' = snaps (wb_inner w)"
    "\<forall>b. (\<forall>i \<in> set run. ce_block (wb_entries w ! i) \<noteq> b) \<longrightarrow> content d' b = content (wb_inner w) b"
    "r = Inr (length run * WRITEBACK_BLOCK_SIZE) \<Longrightarrow> \<forall>i \<in> set run. content d' (ce_block (wb_entries w ! i)) = ce_data (wb_entries w ! i)"
proof -
  note len = run_bytes(1) [OF assms(2,3)]
  note w = disk_writeD [OF assms(1,4) len]
  show "snaps d' = snaps (wb_inner w)" by (rule w(1))
  show "\<forall>b. (\<forall>i \<in> set run. ce_block (wb_entries w ! i) \<noteq> b) \<longrightarrow> content d' b = content (wb_inner w) b"
    using w(2) run_outside [OF assms(3)] by blast
  assume r: "r = Inr (length run * WRITEBACK_BLOCK_SIZE)"
  show "\<forall>i \<in> set run. content d' (ce_block (wb_entries w ! i)) = ce_data (wb_entries w ! i)"
  proof
    fix i assume "i \<in> set run"
    then obtain k where k: "k < length run" "i = run ! k" by (metis in_set_conv_nth)
    then have "ce_block (wb_entries w ! i) = ce_block (wb_entries w ! hd run) + k" using assms(3) by (simp add: run_ok_def)
    then show "content d' (ce_block (wb_entries w ! i)) = ce_data (wb_entries w ! i)"
      using w(3) [of k] r k run_bytes(2) [OF assms(2,3) k(1)] len by simp
  qed
qed

lemma clean_off_run:
  assumes "cache_wf w" "run_ok (wb_entries w) tk run" "clean_ok base (wb_entries w)" "e \<in> set (wb_entries w)" "ce_state e = EntryClean"
    "\<forall>b. (\<forall>i \<in> set run. ce_block (wb_entries w ! i) \<noteq> b) \<longrightarrow> base' b = base b"
  shows "ce_data e = base' (ce_block e)"
proof -
  obtain j where j: "j < length (wb_entries w)" "e = wb_entries w ! j" using assms(4) by (metis in_set_conv_nth)
  have "ce_block (wb_entries w ! i) \<noteq> ce_block e" if i: "i \<in> set run" for i
  proof
    assume same: "ce_block (wb_entries w ! i) = ce_block e"
    have "i < length (wb_entries w)" "dirty (wb_entries w ! i)" using assms(2) i by (auto simp: run_ok_def)
    then have "i = j" using unique_blocksD [OF cache_unique [OF assms(1)], of i j] j same assms(5) dirty_resident by (auto simp: resident_def)
    then show False using \<open>dirty (wb_entries w ! i)\<close> j(2) assms(5) by (simp add: dirty_def)
  qed
  then show ?thesis using assms(3-6) by (simp add: clean_ok_def)
qed

lemma keeps_evolves:
  assumes "snaps (wb_inner w') = snaps (wb_inner w)" "same_control w w'" "length (wb_entries w') = length (wb_entries w)"
    "\<And>t. t \<in> set (tickets w) \<Longrightarrow> logical_at content t w' = logical_at content t w"
  shows "evolves content snaps w w'"
  using assms same_control_tickets [OF assms(2)] by (auto simp: evolves_def same_control_def)

lemma run_failed:
  assumes "disk_ok ops content snaps" "wb_inv content w" "run_ok (wb_entries w) tk run"
    and "\<forall>i \<in> set run. \<forall>t \<in> set (tickets w). ce_first_sequence (wb_entries w ! i) \<le> t"
    and "dk_write_at ops (ce_block (wb_entries w ! hd run)) (concat (map (\<lambda>i. ce_data (wb_entries w ! i)) run)) (wb_inner w) = (r, d')"
    and "wb_inner w' = d'" "wb_entries w' = wb_entries w" "wb_dirty_count w' = wb_dirty_count w" "same_control w w'"
  shows "step_keeps content snaps w w'"
proof -
  note inv = wb_invD [OF assms(2)]
  note eff = run_effect [OF assms(1) inv(1) assms(3,5)]
  have dirty: "i < length (wb_entries w) \<and> dirty (wb_entries w ! i)" if "i \<in> set run" for i using assms(3) that by (simp add: run_ok_def)
  have same: "seen content R w' = seen content R w" if "\<forall>i \<in> set run. R (ce_first_sequence (wb_entries w ! i))" for R
    unfolding seen_def assms(6,7)
    by (rule overlay_failed [OF cache_unique [OF inv(1)] _ _ eff(2)]) (use dirty that in auto)
  have "cache_wf w'" using inv(1) assms(7-9) by (simp add: cache_wf_def same_control_def)
  moreover have "seq_wf w'"
    using inv(2) assms(7,9) same_control_tickets [OF assms(9)] by (simp add: seq_wf_def same_control_def)
  moreover have "clean_ok (content d') (wb_entries w)"
    using clean_off_run [OF inv(1) assms(3) inv(3) _ _ eff(2)] by (auto simp: clean_ok_def)
  moreover have "evolves content snaps w w'"
    by (rule keeps_evolves) (use eff(1) assms(4,6,7,9) same in \<open>auto simp: logical_at_def\<close>)
  ultimately show ?thesis
    using assms(6,7,9) same [of "\<lambda>_. True"] unfolding step_keeps_def wb_inv_def logical_def
    by (auto simp: same_control_def intro: exI [of _ "[]"])
qed

lemma agrees_marked:
  assumes "agrees slots es" "\<forall>i \<in> set run. i < length es \<and> dirty (es ! i)"
  shows "agrees slots (marked es run)"
proof -
  have "resident (marked es run ! i) = resident (es ! i) \<and> ce_block (marked es run ! i) = ce_block (es ! i)" if "i < length es" for i
    using assms(2) that by (auto simp: resident_def dirty_def)
  then show ?thesis using assms(1) by (simp add: agrees_def del: nth_marked cong: conj_cong)
qed

lemma run_written:
  assumes "disk_ok ops content snaps" "wb_inv content w" "run_ok (wb_entries w) tk run"
    and "\<forall>i \<in> set run. \<forall>t \<in> set (tickets w). ce_first_sequence (wb_entries w ! i) \<le> t"
    and "dk_write_at ops (ce_block (wb_entries w ! hd run)) (concat (map (\<lambda>i. ce_data (wb_entries w ! i)) run)) (wb_inner w) =
      (Inr (length run * WRITEBACK_BLOCK_SIZE), d')"
    and "wb_inner w' = d'" "wb_entries w' = marked (wb_entries w) run" "wb_dirty_count w' = wb_dirty_count w - length run" "same_control w w'"
  shows "step_keeps content snaps w w'"
proof -
  note inv = wb_invD [OF assms(2)]
  note eff = run_effect [OF assms(1) inv(1) assms(3,5)]
  have dirty: "\<forall>i \<in> set run. i < length (wb_entries w) \<and> dirty (wb_entries w ! i)" and "distinct run" using assms(3) by (auto simp: run_ok_def)
  have same: "seen content R w' = seen content R w" if "\<forall>i \<in> set run. R (ce_first_sequence (wb_entries w ! i))" for R
    unfolding seen_def assms(6,7)
    by (rule overlay_written [OF cache_unique [OF inv(1)] _ _ eff(3) [OF refl] eff(2)]) (use dirty that in auto)
  have old: "e \<in> set (wb_entries w) \<or> (\<exists>i \<in> set run. e = (wb_entries w ! i)\<lparr>ce_state := EntryClean\<rparr>)" if "e \<in> set (wb_entries w')" for e
    using that by (auto simp: assms(7) marked_def split: if_splits)
  have still: "e \<in> set (wb_entries w)" if "e \<in> set (wb_entries w')" "dirty e" for e
    using old [OF that(1)] that(2) by (auto simp: dirty_def)
  have wf: "cache_wf w'"
  proof -
    have "agrees (wb_lookup w') (wb_entries w')"
      using agrees_marked [OF _ dirty] inv(1) assms(7,9) by (simp add: cache_wf_def same_control_def)
    moreover have "\<forall>e \<in> set (wb_entries w'). entry_ok e"
      using inv(1) old dirty by (fastforce simp: cache_wf_def entry_ok_def resident_def dirty_def)
    moreover have "wb_entries w' \<noteq> []" using inv(1) assms(7) by (auto simp: cache_wf_def marked_def)
    ultimately show ?thesis
      using inv(1) assms(7-9) dirty_marked [OF dirty \<open>distinct run\<close>] resident_marked [OF dirty] by (simp add: cache_wf_def same_control_def)
  qed
  moreover have "seq_wf w'"
    using inv(2) still assms(9) same_control_tickets [OF assms(9)] by (simp add: seq_wf_def same_control_def)
  moreover have "clean_ok (content d') (wb_entries w')"
    unfolding clean_ok_def
  proof (intro ballI impI)
    fix e assume e: "e \<in> set (wb_entries w')" "ce_state e = EntryClean"
    from old [OF e(1)] show "ce_data e = content d' (ce_block e)"
    proof
      assume "e \<in> set (wb_entries w)"
      then show ?thesis using clean_off_run [OF inv(1) assms(3) inv(3) _ e(2) eff(2)] by blast
    next
      assume "\<exists>i \<in> set run. e = (wb_entries w ! i)\<lparr>ce_state := EntryClean\<rparr>"
      then show ?thesis using eff(3) [OF refl] by auto
    qed
  qed
  moreover have "evolves content snaps w w'"
    by (rule keeps_evolves) (use eff(1) assms(4,6,7,9) same in \<open>auto simp: logical_at_def\<close>)
  ultimately show ?thesis
    using assms(6,7,9) same [of "\<lambda>_. True"] dirty unfolding step_keeps_def wb_inv_def logical_def
    by (auto simp: same_control_def)
qed

definition step_post ::
  "('d \<Rightarrow> nat \<Rightarrow> u8 list) \<Rightarrow> ('d \<Rightarrow> (nat \<Rightarrow> u8 list) list) \<Rightarrow> 'd write_back_disk \<Rightarrow> errno + write_back_progress \<Rightarrow> 'd write_back_disk \<Rightarrow> bool" where
  "step_post content snaps w r w' \<longleftrightarrow>
     step_keeps content snaps w w' \<and>
     (case r of
        Inl _ \<Rightarrow> wb_failure w' \<noteq> None
      | Inr WbIdle \<Rightarrow> tickets w = [] \<and> wb_dirty_count w = 0 \<and> wb_failure w = None
      | Inr (WroteBlock _ _ _) \<Rightarrow>
          wb_dirty_count w' < wb_dirty_count w \<and> tickets w' = tickets w \<and> wb_durable_sequence w' = wb_durable_sequence w \<and>
          wb_failure w' = None
      | Inr (WbFlushed t) \<Rightarrow>
          tickets w = t # tickets w' \<and> wb_durable_sequence w' = t \<and> wb_dirty_count w' = wb_dirty_count w \<and> wb_failure w' = None)"

lemma head_ticket_least:
  assumes "seq_wf w" "t \<in> set (tickets w)"
  shows "hd (tickets w) \<le> t"
proof -
  have "sorted_wrt (<) (tickets w)" using assms(1) by (simp add: seq_wf_def)
  then show ?thesis using assms(2) by (cases "tickets w") auto
qed

lemma write_back_run_runs:
  assumes "disk_ok ops content snaps" "wb_inv content w" "i < length (wb_entries w)" "dirty (wb_entries w ! i)" "wb_failure w = None"
    and tk: "tk = (if tickets w = [] then None else Some (hd (tickets w)))" "\<forall>t. tk = Some t \<longrightarrow> ce_first_sequence (wb_entries w ! i) \<le> t"
  shows "runs (write_back_run ops i tk) w (step_post content snaps w)"
proof -
  note inv = wb_invD [OF assms(2)]
  let ?es = "wb_entries w" and ?run = "extend_run (wb_entries w) tk (wb_writeback_batch_blocks w - 1) [i]"
  have ok: "\<forall>e \<in> set ?es. entry_ok e" and batch: "0 < wb_writeback_batch_blocks w" "wb_writeback_batch_blocks w \<le> MAX_WRITEBACK_BATCH_BLOCKS"
    and count: "wb_dirty_count w = length (filter dirty ?es)"
    using inv(1) by (auto simp: cache_wf_def)
  have "run_ok ?es tk [i]" using assms(3,4) tk(2) by (simp add: run_ok_def)
  note run = extend_run_ok [OF this ok, of "wb_writeback_batch_blocks w - 1"]
  have small: "length ?run \<le> MAX_WRITEBACK_BATCH_BLOCKS" using run(3) batch by simp
  have start: "hd ?run = i" using run(2) by simp
  have due: "\<forall>j \<in> set ?run. \<forall>t \<in> set (tickets w). ce_first_sequence (?es ! j) \<le> t"
    using run(1) tk(1) head_ticket_least [OF inv(2)] by (fastforce simp: run_ok_def split: if_splits)
  have dirty: "\<forall>j \<in> set ?run. j < length ?es \<and> dirty (?es ! j)" "distinct ?run" "?run \<noteq> []" using run(1) by (auto simp: run_ok_def)
  note fewer = dirty_marked [OF dirty(1,2)]
  let ?bytes = "concat (map ce_data (map (\<lambda>i. ?es ! i) ?run))"
  obtain r d where wr: "dk_write_at ops (ce_block (?es ! i)) ?bytes (wb_inner w) = (r, d)" by fastforce
  have wr': "dk_write_at ops (ce_block (?es ! hd ?run)) (concat (map (\<lambda>i. ce_data (?es ! i)) ?run)) (wb_inner w) = (r, d)"
    using wr start by (simp add: comp_def)
  have failed: "step_keeps content snaps w (w\<lparr>wb_inner := d\<rparr>)"
    by (rule run_failed [OF assms(1,2) run(1) due wr']) (simp_all add: same_control_def)
  have written: "step_keeps content snaps w (w\<lparr>wb_inner := d, wb_entries := marked ?es ?run, wb_dirty_count := wb_dirty_count w - length ?run\<rparr>)"
    if "r = Inr (length ?run * WRITEBACK_BLOCK_SIZE)"
    by (rule run_written [OF assms(1,2) run(1) due wr' [unfolded that]]) (simp_all add: same_control_def)
  have fail: "step_post content snaps w (Inl e) (w\<lparr>wb_inner := d, wb_failure := Some f, wb_metrics := m\<rparr>)" for e f m
    using failed by (simp add: step_post_def)
  show ?thesis
  proof (cases "r = Inr (length ?run * WRITEBACK_BLOCK_SIZE)")
    case True
    have "runs (for_each ?run (\<lambda>i. set_entry i (\<lambda>e. e\<lparr>ce_state := EntryClean\<rparr>))) (w\<lparr>wb_inner := d\<rparr>) R"
      if "R (Inr ()) (w\<lparr>wb_inner := d, wb_entries := marked ?es ?run\<rparr>)" for R
      by (rule mark_run_runs) (use dirty(1) that in auto)
    then show ?thesis
      unfolding write_back_run_def runs_andthen runs_entry_at sum.case runs_look Let_def runs_need runs_backing wr if_P [OF small]
      using True written [OF True] assms(3,5) fewer count dirty(3) by (auto simp: step_post_def tickets_def)
  next
    case False
    then show ?thesis
      unfolding write_back_run_def runs_andthen runs_entry_at sum.case runs_look Let_def runs_need runs_backing wr if_P [OF small]
      using assms(3,5) fail by (cases r) auto
  qed
qed

text \<open>A flush with no entry of the ticket left dirty makes the contents that the ticket promises durable.\<close>

lemma flushed_step:
  assumes "disk_ok ops content snaps" "wb_inv content w" "tickets w = t # ts"
    and "\<forall>e \<in> set (wb_entries w). dirty e \<longrightarrow> t < ce_first_sequence e"
    and "dk_flush ops (wb_inner w) = (Inr u, d)"
    and "wb_inner w' = d" "wb_entries w' = wb_entries w" "wb_durable_sequence w' = t" "tickets w' = ts" "ring_ok w'"
    and "wb_lookup w' = wb_lookup w" "wb_lookup_mask w' = wb_lookup_mask w" "wb_lookup_tombstones w' = wb_lookup_tombstones w"
    and "wb_resident_count w' = wb_resident_count w" "wb_dirty_count w' = wb_dirty_count w"
    and "wb_writeback_batch_blocks w' = wb_writeback_batch_blocks w" "wb_write_sequence w' = wb_write_sequence w"
    and "wb_requested_sequence w' = wb_requested_sequence w" "wb_quiesced w' = wb_quiesced w"
    and "wb_async_writeback_enabled w' = wb_async_writeback_enabled w"
  shows "step_keeps content snaps w w'"
proof -
  note inv = wb_invD [OF assms(2)]
  note fl = disk_flushD [OF assms(1,5)]
  have same: "seen content R w' = seen content R w" for R using assms(6,7) fl(1) by (simp add: seen_def)
  have "cache_wf w'" using inv(1) assms(7,11-16) by (simp add: cache_wf_def)
  moreover have "seq_wf w'"
    using inv(2) assms(3,4,7-10,17,18) by (auto simp: seq_wf_def split: if_splits)
  moreover have "clean_ok (content d) (wb_entries w)" using inv(3) fl(1) by simp
  moreover have "logical_at content t w = content (wb_inner w)"
    using assms(4) by (auto simp: logical_at_def seen_def fun_eq_iff intro!: overlay_miss)
  then have "evolves content snaps w w'"
    unfolding evolves_def using assms(3,6-9,17,18) fl(2) same tickets_above [OF inv(2), of t]
    by (auto simp: logical_at_def intro!: exI [of _ "[content (wb_inner w)]"])
  ultimately show ?thesis
    using assms(6,7,11,17-20) same [of "\<lambda>_. True"] unfolding step_keeps_def wb_inv_def logical_def
    by (simp add: exI [of _ "[]"])
qed

lemma flush_backing_runs:
  assumes "disk_ok ops content snaps" "wb_inv content w" "tickets w = t # ts" "wb_failure w = None"
    and "\<forall>e \<in> set (wb_entries w). dirty e \<longrightarrow> t < ce_first_sequence e"
  shows "runs (flush_backing ops t) w (step_post content snaps w)"
proof -
  note inv = wb_invD [OF assms(2)]
  obtain r d where call: "dk_flush ops (wb_inner w) = (r, d)" by fastforce
  have ring: "ring_ok w" using inv(2) by (simp add: seq_wf_def)
  have "wb_flush_ticket_len w \<noteq> 0" using assms(3) tickets_Nil [of w] by auto
  then obtain n where n: "wb_flush_ticket_len w = Suc n" by (cases "wb_flush_ticket_len w") auto
  show ?thesis
  proof (cases r)
    case (Inl e)
    have "step_keeps content snaps w (w\<lparr>wb_inner := d\<rparr>)"
      using assms(2) disk_flushD [OF assms(1) call] Inl
      by (simp add: step_keeps_def wb_inv_def cache_wf_def seq_wf_def ring_ok_def tickets_def logical_def logical_at_def seen_def
        evolves_def exI [of _ "[]"])
    then show ?thesis
      unfolding flush_backing_def runs_andthen runs_backing call using Inl by (simp add: step_post_def)
  next
    case (Inr u)
    let ?v = "w\<lparr>wb_inner := d, wb_durable_sequence := t,
      wb_flush_ticket_head := (wb_flush_ticket_head w + 1) mod length (wb_flush_tickets w), wb_flush_ticket_len := n\<rparr>"
    have pop: "tickets ?v = ts" using tickets_pop [of w n ?v] n assms(3) by simp
    have "ring_ok ?v" using ring n by (auto simp: ring_ok_def intro!: mod_less_divisor)
    then have "step_keeps content snaps w ?v"
      by (intro flushed_step [OF assms(1-3,5) call [unfolded Inr]]) (simp_all add: pop [simplified])
    then show ?thesis
      unfolding flush_backing_def runs_andthen runs_backing call using Inr n pop assms(3,4) by (simp add: step_post_def)
  qed
qed

lemma step_post_metrics [simp]:
  "step_post content snaps (w\<lparr>wb_metrics := m\<rparr>) = step_post content snaps w"
  by (simp add: step_post_def fun_eq_iff split: sum.split write_back_progress.split)

lemma writeback_step_runs:
  assumes "disk_ok ops content snaps" "wb_inv content w"
  shows "runs (writeback_step ops) w (step_post content snaps w)"
proof (cases "wb_failure w")
  case None
  let ?w = "w\<lparr>wb_metrics := wm_writeback_steps_update (\<lambda>x. saturating_add x 1) (wb_metrics w)\<rparr>"
  note inv = wb_invD [OF assms(2)]
  have ring: "ring_ok w" using inv(2) by (simp add: seq_wf_def)
  have inv': "wb_inv content ?w" using assms(2) by simp
  have run: "runs (write_back_run ops i tk) ?w (step_post content snaps w)"
    if "lowest_sequence_dirty (wb_entries w) = Some i" "tk = (if tickets w = [] then None else Some (hd (tickets w)))"
      "\<forall>t. tk = Some t \<longrightarrow> ce_first_sequence (wb_entries w ! i) \<le> t" for i tk
  proof -
    have "runs (write_back_run ops i tk) ?w (step_post content snaps ?w)"
      by (rule write_back_run_runs [OF assms(1) inv']) (use lowest_sequence_dirty_Some [OF that(1)] that(2,3) None in simp_all)
    then show ?thesis by (simp only: step_post_metrics)
  qed
  have flush: "runs (flush_backing ops t) ?w (step_post content snaps w)"
    if "tickets w = t # ts" "\<forall>e \<in> set (wb_entries w). dirty e \<longrightarrow> t < ce_first_sequence e" for t ts
    using flush_backing_runs [OF assms(1) inv', of t ts] that None by (simp del: One_nat_def)
  have idle: "step_post content snaps w (Inr WbIdle) ?w" if "tickets w = []" "lowest_sequence_dirty (wb_entries w) = None"
    using that None assms(2) inv(1) lowest_sequence_dirty_None [OF that(2)] step_keeps_refl [OF assms(2)]
    by (simp add: step_post_def cache_wf_def)
  show ?thesis
  proof (cases "tickets w")
    case Nil
    then have "wb_flush_ticket_len w = 0" using tickets_Nil by blast
    then show ?thesis
      using Nil None run idle by (simp add: writeback_step_def current_flush_ticket_def split: option.split)
  next
    case (Cons t ts)
    then have n: "wb_flush_ticket_len w \<noteq> 0" using tickets_Nil [of w] by auto
    then have t: "vec_get (wb_flush_tickets w) (wb_flush_ticket_head w) = Some t"
      using tickets_hd [OF ring] Cons ring by (simp add: ring_ok_def)
    show ?thesis
    proof (cases "lowest_sequence_dirty (wb_entries w)")
      case least: None
      then have "\<forall>e \<in> set (wb_entries w). \<not> dirty e" using lowest_sequence_dirty_None by auto
      then show ?thesis
        using flush [OF Cons] least None n t by (simp add: writeback_step_def current_flush_ticket_def)
    next
      case (Some i)
      then have "\<forall>e \<in> set (wb_entries w). dirty e \<longrightarrow> t < ce_first_sequence e" if "t < ce_first_sequence (wb_entries w ! i)"
        using lowest_sequence_dirty_Some [OF Some] that less_le_trans by blast
      then show ?thesis
        using flush [OF Cons] run [OF Some, of "Some t"] Some None n t Cons
        by (simp add: writeback_step_def current_flush_ticket_def)
    qed
  qed
qed (use assms(2) step_keeps_refl in \<open>simp add: writeback_step_def step_post_def\<close>)

section \<open>Requests and drains\<close>

text \<open>When every accepted write is durable, the logical disk is one that a flush has left, unless nothing was ever written.\<close>

definition wb_good :: "('d \<Rightarrow> nat \<Rightarrow> u8 list) \<Rightarrow> ('d \<Rightarrow> (nat \<Rightarrow> u8 list) list) \<Rightarrow> 'd write_back_disk \<Rightarrow> bool" where
  "wb_good content snaps w \<longleftrightarrow>
     wb_inv content w \<and>
     (wb_write_sequence w = wb_durable_sequence w \<longrightarrow> wb_write_sequence w = 0 \<or> logical content w \<in> set (snaps (wb_inner w)))"

text \<open>What every operation but an accepted write leaves as it was.\<close>

definition keeps ::
  "('d \<Rightarrow> nat \<Rightarrow> u8 list) \<Rightarrow> ('d \<Rightarrow> (nat \<Rightarrow> u8 list) list) \<Rightarrow> 'd write_back_disk \<Rightarrow> 'd write_back_disk \<Rightarrow> bool" where
  "keeps content snaps w w' \<longleftrightarrow>
     wb_good content snaps w' \<and> logical content w' = logical content w \<and> evolves content snaps w w' \<and>
     wb_write_sequence w' = wb_write_sequence w"

text \<open>The durability of contents \<open>c\<close> that a ticket promises: the ticket is pending on them, or they are durable.\<close>

definition promise ::
  "('d \<Rightarrow> nat \<Rightarrow> u8 list) \<Rightarrow> ('d \<Rightarrow> (nat \<Rightarrow> u8 list) list) \<Rightarrow> nat \<Rightarrow> (nat \<Rightarrow> u8 list) \<Rightarrow> 'd write_back_disk \<Rightarrow> bool" where
  "promise content snaps t c w \<longleftrightarrow> t = 0 \<or> c \<in> set (snaps (wb_inner w)) \<or> t \<in> set (tickets w) \<and> logical_at content t w = c"

lemma keeps_refl: "wb_good content snaps w \<Longrightarrow> keeps content snaps w w"
  by (simp add: keeps_def)

lemma keeps_trans [trans]: "keeps content snaps w w' \<Longrightarrow> keeps content snaps w' w'' \<Longrightarrow> keeps content snaps w w''"
  using evolves_trans by (auto simp: keeps_def)

lemma keeps_good: "keeps content snaps w w' \<Longrightarrow> wb_good content snaps w'"
  by (simp add: keeps_def)

lemma good_inv: "wb_good content snaps w \<Longrightarrow> wb_inv content w"
  by (simp add: wb_good_def)

lemma wb_good_metrics [simp]: "wb_good content snaps (w\<lparr>wb_metrics := m\<rparr>) = wb_good content snaps w"
  by (simp add: wb_good_def)

lemma keeps_metrics [simp]:
  "keeps content snaps w (w'\<lparr>wb_metrics := m\<rparr>) = keeps content snaps w w'"
  "keeps content snaps (w\<lparr>wb_metrics := m\<rparr>) w' = keeps content snaps w w'"
  by (simp_all add: keeps_def)

text \<open>Fields that the invariant and the contents do not depend on.\<close>

definition same_view :: "'d write_back_disk \<Rightarrow> 'd write_back_disk \<Rightarrow> bool" where
  "same_view w w' \<longleftrightarrow>
     wb_inner w' = wb_inner w \<and> wb_entries w' = wb_entries w \<and> wb_lookup w' = wb_lookup w \<and> wb_lookup_mask w' = wb_lookup_mask w \<and>
     wb_lookup_tombstones w' = wb_lookup_tombstones w \<and> wb_resident_count w' = wb_resident_count w \<and>
     wb_dirty_count w' = wb_dirty_count w \<and> wb_writeback_batch_blocks w' = wb_writeback_batch_blocks w \<and>
     wb_flush_tickets w' = wb_flush_tickets w \<and> wb_flush_ticket_head w' = wb_flush_ticket_head w \<and>
     wb_flush_ticket_len w' = wb_flush_ticket_len w \<and> wb_write_sequence w' = wb_write_sequence w \<and>
     wb_requested_sequence w' = wb_requested_sequence w \<and> wb_durable_sequence w' = wb_durable_sequence w"

lemma same_view_tickets: "same_view w w' \<Longrightarrow> tickets w' = tickets w" "same_view w w' \<Longrightarrow> ring_ok w' = ring_ok w"
  by (simp_all add: same_view_def tickets_def ring_ok_def)

lemma same_view_keeps:
  assumes "same_view w w'" "wb_good content snaps w"
  shows "keeps content snaps w w'"
proof -
  have inv: "cache_wf w" "seq_wf w" using assms(2) by (simp_all add: wb_good_def wb_inv_def)
  have "cache_wf w'" using inv(1) assms(1) by (simp add: cache_wf_def same_view_def)
  moreover have "seq_wf w'" using inv(2) assms(1) same_view_tickets [OF assms(1)] by (simp add: seq_wf_def same_view_def)
  moreover have "seen content R w' = seen content R w" for R using assms(1) by (simp add: seen_def same_view_def)
  moreover have "evolves content snaps w w'"
    using assms(1) same_view_tickets [OF assms(1)] by (simp add: evolves_def same_view_def logical_at_def seen_def)
  ultimately show ?thesis
    using assms by (simp add: keeps_def wb_good_def wb_inv_def logical_def same_view_def)
qed

lemma all_due: "seq_wf w \<Longrightarrow> wb_write_sequence w \<le> t \<Longrightarrow> logical_at content t w = logical content w"
proof -
  assume "seq_wf w" "wb_write_sequence w \<le> t"
  then have "\<forall>e \<in> set (wb_entries w). dirty e \<longrightarrow> ce_first_sequence e \<le> t" by (auto simp: seq_wf_def intro: order.trans)
  then have "find (\<lambda>e. (dirty e \<and> ce_first_sequence e \<le> t) \<and> ce_block e = b) (wb_entries w) =
    find (\<lambda>e. (dirty e \<and> True) \<and> ce_block e = b) (wb_entries w)" for b by (intro find_cong) auto
  then show "logical_at content t w = logical content w"
    unfolding logical_at_def logical_def seen_def overlay_def fun_eq_iff by simp
qed

lemma last_ticket: "seq_wf w \<Longrightarrow> tickets w \<noteq> [] \<Longrightarrow> wb_requested_sequence w \<in> set (tickets w)"
  by (metis last.simps last_in_set seq_wf_def)

lemma durable_le: "seq_wf w \<Longrightarrow> wb_durable_sequence w \<le> wb_requested_sequence w"
  using tickets_above [of w "wb_requested_sequence w"] last_ticket [of w] by (cases "tickets w = []") (auto simp: seq_wf_def)

lemma step_keeps_keeps:
  assumes "step_keeps content snaps w w'" "wb_good content snaps w"
  shows "keeps content snaps w w'"
proof -
  have s: "wb_inv content w'" "logical content w' = logical content w" "evolves content snaps w w'"
    "wb_write_sequence w' = wb_write_sequence w" "wb_requested_sequence w' = wb_requested_sequence w"
    using assms(1) by (simp_all add: step_keeps_def)
  have wf: "seq_wf w" "seq_wf w'" using assms(2) s(1) by (simp_all add: wb_good_def wb_inv_def)
  obtain new where new: "snaps (wb_inner w') = new @ snaps (wb_inner w)"
    "\<forall>t \<in> set (tickets w). t \<in> set (tickets w') \<and> logical_at content t w' = logical_at content t w \<or>
       t \<le> wb_durable_sequence w' \<and> logical_at content t w \<in> set new" and mono: "wb_durable_sequence w \<le> wb_durable_sequence w'"
    using s(3) by (auto simp: evolves_def)
  have "wb_write_sequence w' = 0 \<or> logical content w' \<in> set (snaps (wb_inner w'))"
    if all: "wb_write_sequence w' = wb_durable_sequence w'"
  proof (cases "wb_durable_sequence w' = wb_durable_sequence w")
    case True
    then show ?thesis using all assms(2) s new(1) by (auto simp: wb_good_def)
  next
    case False
    have req: "wb_requested_sequence w = wb_write_sequence w"
      using durable_le [OF wf(2)] wf(1) all s(4,5) by (simp add: seq_wf_def)
    have "tickets w \<noteq> []" using wf(1) False mono all s(4) req by (auto simp: seq_wf_def)
    from last_ticket [OF wf(1) this] have "wb_requested_sequence w \<in> set (tickets w)" .
    moreover from this have "wb_requested_sequence w \<notin> set (tickets w')"
      using tickets_above [OF wf(2)] all req s(4) by fastforce
    ultimately have "logical_at content (wb_requested_sequence w) w \<in> set new" using new(2) by blast
    then show ?thesis using all_due [OF wf(1)] req s(2) new(1) by simp
  qed
  then show ?thesis using s by (simp add: keeps_def wb_good_def)
qed

lemma promise_evolves:
  assumes "promise content snaps t c w" "evolves content snaps w w'"
  shows "promise content snaps t c w'"
  using assms unfolding promise_def evolves_def by fastforce

lemma promise_kept:
  "promise content snaps t c w \<Longrightarrow> seq_wf w \<Longrightarrow> t \<le> wb_durable_sequence w \<Longrightarrow> t \<noteq> 0 \<Longrightarrow> c \<in> set (snaps (wb_inner w))"
  using tickets_above [of w t] by (auto simp: promise_def)

lemma push_keeps:
  assumes "wb_good content snaps w" "wb_flush_ticket_len w \<noteq> length (wb_flush_tickets w)" "wb_write_sequence w \<noteq> wb_requested_sequence w"
    "w' = w\<lparr>wb_flush_tickets := (wb_flush_tickets w)[(wb_flush_ticket_head w + wb_flush_ticket_len w) mod length (wb_flush_tickets w) := wb_write_sequence w],
        wb_flush_ticket_len := wb_flush_ticket_len w + 1, wb_requested_sequence := wb_write_sequence w\<rparr>"
  shows "keeps content snaps w w'" "promise content snaps (wb_write_sequence w) (logical content w) w'"
proof -
  note inv = wb_invD [OF good_inv [OF assms(1)]]
  have ring: "ring_ok w" and less: "wb_requested_sequence w < wb_write_sequence w" using inv(2) assms(3) by (simp_all add: seq_wf_def)
  have push: "tickets w' = tickets w @ [wb_write_sequence w]"
    by (rule tickets_push [OF ring]) (use ring assms(2,4) in \<open>simp_all add: ring_ok_def\<close>)
  have same: "seen content R w' = seen content R w" for R using assms(4) by (simp add: seen_def)
  have wf': "cache_wf w'" using inv(1) assms(4) by (simp add: cache_wf_def)
  have above: "\<forall>t \<in> set (tickets w). t < wb_write_sequence w" using tickets_above [OF inv(2)] less by fastforce
  have "sorted_wrt (<) (wb_durable_sequence w # tickets w @ [wb_write_sequence w])"
    using inv(2) above durable_le [OF inv(2)] less by (simp add: seq_wf_def sorted_wrt_append)
  then have seq': "seq_wf w'"
    using inv(2) ring assms(2) push unfolding seq_wf_def by (auto simp: assms(4) ring_ok_def)
  have "evolves content snaps w w'" using assms(4) push same less by (simp add: evolves_def logical_at_def)
  then show "keeps content snaps w w'"
    using inv(3) wf' seq' same assms(4) durable_le [OF inv(2)] less by (simp add: keeps_def wb_good_def wb_inv_def logical_def)
  show "promise content snaps (wb_write_sequence w) (logical content w) w'"
    using push same all_due [OF inv(2), of "wb_write_sequence w" content] by (simp add: promise_def logical_at_def)
qed

lemma request_durability_runs:
  assumes "wb_good content snaps w"
  shows "runs request_durability w (\<lambda>r w'. keeps content snaps w w' \<and>
    (\<forall>t. r = Inr t \<longrightarrow> t = wb_write_sequence w \<and> promise content snaps t (logical content w) w'))"
proof -
  note inv = wb_invD [OF good_inv [OF assms]]
  have "promise content snaps (wb_write_sequence w) (logical content w) w" if "wb_write_sequence w = wb_requested_sequence w"
  proof (cases "tickets w = []")
    case True
    then show ?thesis using assms that inv(2) by (auto simp: promise_def wb_good_def seq_wf_def)
  next
    case False
    then show ?thesis
      using last_ticket [OF inv(2)] that all_due [OF inv(2), of "wb_write_sequence w" content] by (simp add: promise_def)
  qed
  moreover have "promise content snaps t c (w'\<lparr>wb_metrics := m\<rparr>) = promise content snaps t c w'" for t c w' m
    by (simp add: promise_def)
  ultimately show ?thesis
    using keeps_refl [OF assms] push_keeps [OF assms _ _ refl] unfolding request_durability_def
    by (simp add: Let_def split: option.split)
qed

lemma drain_steps_runs:
  assumes "disk_ok ops content snaps" "wb_inv content w"
  shows "runs (drain_steps ops ticket n steps) w (\<lambda>r w'. step_keeps content snaps w w')"
  using assms(2)
proof (induction n arbitrary: w steps)
  case 0
  then show ?case by (simp add: step_keeps_refl)
next
  case (Suc n)
  have more: "runs (drain_steps ops ticket n (steps + 1)) w' (\<lambda>r w''. step_keeps content snaps w w'')" if "step_keeps content snaps w w'" for w'
    by (rule runs_mono [OF Suc.IH step_keeps_trans [OF that]]) (use that in \<open>simp add: step_keeps_def [of _ _ w w']\<close>)
  have "runs (writeback_step ops) w (\<lambda>r w'. step_keeps content snaps w w')"
    using writeback_step_runs [OF assms(1) Suc.prems] by (auto elim!: runs_mono simp: step_post_def)
  then have "runs (writeback_step ops) w (\<lambda>r s. case r of Inl e \<Rightarrow> step_keeps content snaps w s
      | Inr p \<Rightarrow> runs (case p of WbIdle \<Rightarrow> ret steps | _ \<Rightarrow> drain_steps ops ticket n (steps + 1)) s (\<lambda>r. step_keeps content snaps w))"
    using more by (auto elim!: runs_mono split: sum.split write_back_progress.split)
  then show ?case using step_keeps_refl [OF Suc.prems] by (simp only: drain_steps.simps runs_look runs_if runs_andthen runs_ret simp_thms)
qed

text \<open>A drain that reports completion has reached its ticket.\<close>

lemma drain_ticket_runs:
  assumes "disk_ok ops content snaps" "wb_good content snaps w"
  shows "runs (drain_ticket ops ticket n) w (\<lambda>r w'. keeps content snaps w w' \<and>
    wb_async_writeback_enabled w' = wb_async_writeback_enabled w \<and>
    (\<forall>rep. r = Inr rep \<longrightarrow> (dr_complete rep \<longleftrightarrow> ticket \<le> wb_durable_sequence w')))"
proof -
  have "step_keeps content snaps w w' \<Longrightarrow> keeps content snaps w w' \<and> wb_async_writeback_enabled w' = wb_async_writeback_enabled w" for w'
    using step_keeps_keeps [OF _ assms(2)] by (simp add: step_keeps_def)
  then show ?thesis unfolding drain_ticket_def runs_andthen
    by (intro runs_mono [OF drain_steps_runs [OF assms(1) good_inv [OF assms(2)]]]) (auto split: sum.split)
qed

lemma writeback_step_keeps:
  assumes "disk_ok ops content snaps" "wb_good content snaps w"
  shows "runs (writeback_step ops) w (\<lambda>r. keeps content snaps w)"
  by (rule runs_mono [OF writeback_step_runs [OF assms(1) good_inv [OF assms(2)]]]) (simp add: step_post_def step_keeps_keeps [OF _ assms(2)])

lemma control_same_view [simp]:
  "same_view w (w\<lparr>wb_failure := f\<rparr>)" "same_view w (w\<lparr>wb_quiesced := q\<rparr>)" "same_view w (w\<lparr>wb_async_writeback_enabled := q\<rparr>)"
  by (simp_all add: same_view_def)

lemma keeps_control [simp]:
  assumes "wb_good content snaps w"
  shows "keeps content snaps w (w\<lparr>wb_failure := f\<rparr>)" "keeps content snaps w (w\<lparr>wb_quiesced := q\<rparr>)"
    "keeps content snaps w (w\<lparr>wb_async_writeback_enabled := q\<rparr>)"
  by (rule same_view_keeps [OF _ assms]; simp)+

lemma after_keeps:
  assumes "keeps content snaps w w'" "\<And>w'. wb_good content snaps w' \<Longrightarrow> runs m w' (\<lambda>r. keeps content snaps w')"
  shows "runs m w' (\<lambda>r. keeps content snaps w)"
  using assms(2) [OF keeps_good [OF assms(1)]] keeps_trans [OF assms(1)] by (auto elim!: runs_mono)

lemma retry_keeps:
  assumes "disk_ok ops content snaps" "wb_good content snaps w"
  shows "runs (retry_writeback_step ops) w (\<lambda>r. keeps content snaps w)"
  using after_keeps [OF _ writeback_step_keeps [OF assms(1)]] assms(2) keeps_refl [OF assms(2)] by (simp add: retry_writeback_step_def)

lemma enable_keeps: "wb_good content snaps w \<Longrightarrow> runs enable_async_writeback w (\<lambda>r. keeps content snaps w)"
  by (simp add: enable_async_writeback_def keeps_refl)

lemma resume_keeps: "wb_good content snaps w \<Longrightarrow> runs resume_after_quiesce w (\<lambda>r. keeps content snaps w)"
  by (simp add: resume_after_quiesce_def keeps_refl split: option.split)

lemma quiesce_runs:
  assumes "wb_good content snaps w"
  shows "runs quiesce w (\<lambda>r w'. keeps content snaps w w' \<and>
    (\<forall>t. r = Inr t \<longrightarrow> t = wb_write_sequence w \<and> promise content snaps t (logical content w) w'))"
proof -
  let ?w = "w\<lparr>wb_quiesced := True\<rparr>"
  have k: "keeps content snaps w ?w" using assms by simp
  then have "logical content ?w = logical content w" by (simp add: keeps_def)
  then show ?thesis
    using request_durability_runs [OF keeps_good [OF k]] keeps_trans [OF k] unfolding quiesce_def
    by (auto elim!: runs_mono)
qed

lemma shutdown_keeps:
  assumes "disk_ok ops content snaps" "wb_good content snaps w"
  shows "runs (shutdown_drain ops n) w (\<lambda>r. keeps content snaps w)"
proof -
  have "runs (drain_ticket ops t n) w' (\<lambda>r. keeps content snaps w')" if "wb_good content snaps w'" for w' t
    by (rule runs_mono [OF drain_ticket_runs [OF assms(1) that]]) blast
  then show ?thesis unfolding shutdown_drain_def runs_andthen
    by (intro runs_mono [OF quiesce_runs [OF assms(2)]]) (auto split: sum.split intro: after_keeps)
qed

lemma size_keeps:
  assumes "disk_ok ops content snaps" "wb_good content snaps w"
  shows "runs (wb_size ops) w (\<lambda>r. keeps content snaps w)"
proof -
  obtain r d where call: "dk_size ops (wb_inner w) = (r, d)" by fastforce
  have "seen content R (w\<lparr>wb_inner := d\<rparr>) = seen content R w" for R using disk_sizeD [OF assms(1) call] by (simp add: seen_def)
  then have "keeps content snaps w (w\<lparr>wb_inner := d\<rparr>)"
    using assms(2) disk_sizeD [OF assms(1) call]
    by (simp add: keeps_def wb_good_def wb_inv_def cache_wf_def seq_wf_def ring_ok_def tickets_def logical_def logical_at_def evolves_def)
  then show ?thesis by (simp add: wb_size_def runs_backing call split: sum.split)
qed

lemma flush_runs:
  assumes "disk_ok ops content snaps" "wb_good content snaps w"
  shows "runs (wb_flush ops) w (\<lambda>r w'. keeps content snaps w w' \<and>
    (r = Inr () \<longrightarrow> \<not> wb_async_writeback_enabled w' \<longrightarrow> wb_write_sequence w = 0 \<or> logical content w \<in> set (snaps (wb_inner w'))))"
    (is "runs _ _ ?Q")
proof -
  have rest: "runs (look (\<lambda>w.
       if wb_async_writeback_enabled w then ret ()
       else andthen (metric wm_synchronous_flush_drains_update 1) (\<lambda>_.
         attempt (drain_ticket ops t (length (wb_entries w) + 1)) (\<lambda>r. case r of
             Inl _ \<Rightarrow> err EIO
           | Inr report \<Rightarrow>
               if dr_complete report then ret ()
               else andthen (metric wm_synchronous_flush_incomplete_update 1) (\<lambda>_. err EAGAIN))))) v ?Q"
    if v: "keeps content snaps w v" "t = wb_write_sequence w" "promise content snaps t (logical content w) v" for v t
  proof (cases "wb_async_writeback_enabled v")
    case False
    let ?v = "v\<lparr>wb_metrics := wm_synchronous_flush_drains_update (\<lambda>x. saturating_add x 1) (wb_metrics v)\<rparr>"
    have reached: "wb_write_sequence w = 0 \<or> logical content w \<in> set (snaps (wb_inner v'))"
      if "keeps content snaps ?v v'" "t \<le> wb_durable_sequence v'" for v'
    proof -
      have e: "evolves content snaps v v'" and wf: "seq_wf v'" using that(1) by (simp_all add: keeps_def wb_good_def wb_inv_def)
      show ?thesis using promise_kept [OF promise_evolves [OF v(3) e] wf that(2)] v(2) by auto
    qed
    have "runs (drain_ticket ops t (length (wb_entries v) + 1)) ?v (\<lambda>r w'. keeps content snaps ?v w' \<and>
      wb_async_writeback_enabled w' = wb_async_writeback_enabled ?v \<and> (\<forall>rep. r = Inr rep \<longrightarrow> (dr_complete rep \<longleftrightarrow> t \<le> wb_durable_sequence w')))"
      by (rule drain_ticket_runs [OF assms(1)]) (use keeps_good [OF v(1)] in simp)
    then show ?thesis unfolding runs_look if_not_P [OF False] runs_andthen runs_metric sum.case runs_attempt
    proof (rule runs_mono, goal_cases)
      case (1 r s)
      then have "keeps content snaps w s" using keeps_trans [OF v(1)] by simp
      then show ?case using 1 reached by (auto split: sum.split)
    qed
  qed (use v in simp)
  show ?thesis unfolding wb_flush_def runs_andthen
    by (rule runs_mono [OF request_durability_runs [OF assms(2)]]) (use rest in \<open>auto split: sum.split\<close>)
qed

end
