(* ===== verification/Write_Back_Disk.thy ===== *)
theory Write_Back_Disk
  imports Write_Back_Order
begin

text \<open>
  The disk interface of the write-back cache: reads return the logical disk and writes update it, on every path through hits, misses,
  read-ahead, write pressure and errors, and histories of operations behave as a plain disk whose flushed contents are durable.
\<close>

section \<open>Reading\<close>


lemma inner_keeps:
  assumes "wb_good content snaps w" "content d = content (wb_inner w)" "snaps d = snaps (wb_inner w)"
  shows "keeps content snaps w (w\<lparr>wb_inner := d\<rparr>)"
proof -
  have "seen content R (w\<lparr>wb_inner := d\<rparr>) = seen content R w" for R using assms(2) by (simp add: seen_def)
  then show ?thesis using assms
    by (simp add: keeps_def wb_good_def wb_inv_def cache_wf_def seq_wf_def ring_ok_def tickets_def logical_def logical_at_def evolves_def)
qed

lemma keep_dirty_in:
  "keep_dirty es es' \<Longrightarrow> e' \<in> set es' \<Longrightarrow> dirty e' \<Longrightarrow> \<exists>e \<in> set es. dirty e \<and> ce_first_sequence e = ce_first_sequence e'"
  unfolding keep_dirty_def by (fastforce simp: list_all2_conv_all_nth in_set_conv_nth)

lemma frame_keeps:
  assumes "wb_good content snaps w" "frame w w'" "cache_wf w'" "keep_dirty (wb_entries w) (wb_entries w')"
    "clean_ok (content (wb_inner w)) (wb_entries w')"
  shows "keeps content snaps w w'"
proof -
  have seq: "seq_wf w" using assms(1) by (simp add: wb_good_def wb_inv_def)
  have f: "wb_inner w' = wb_inner w" "wb_write_sequence w' = wb_write_sequence w" "wb_requested_sequence w' = wb_requested_sequence w"
    "wb_durable_sequence w' = wb_durable_sequence w" "length (wb_entries w') = length (wb_entries w)"
    using assms(2) by (simp_all add: frame_def)
  have same: "seen content R w' = seen content R w" for R
    unfolding seen_def f(1) by (rule keep_dirty_overlay [OF assms(4)])
  have "\<forall>e \<in> set (wb_entries w'). dirty e \<longrightarrow> wb_durable_sequence w < ce_first_sequence e \<and> ce_first_sequence e \<le> wb_write_sequence w"
    using seq keep_dirty_in [OF assms(4)] by (fastforce simp: seq_wf_def)
  then have "seq_wf w'" using seq f tickets_frame [OF assms(2)] by (simp add: seq_wf_def)
  then show ?thesis using assms f same tickets_frame [OF assms(2)]
    by (simp add: keeps_def wb_good_def wb_inv_def logical_def logical_at_def evolves_def)
qed

lemma logical_resident:
  assumes "wb_inv content w" "i < length (wb_entries w)" "resident (wb_entries w ! i)"
  shows "logical content w (ce_block (wb_entries w ! i)) = ce_data (wb_entries w ! i)"
proof -
  note inv = wb_invD [OF assms(1)]
  show ?thesis
  proof (cases "dirty (wb_entries w ! i)")
    case True
    then show ?thesis
      using overlay_hit [OF cache_unique [OF inv(1)], of dirty i] dirty_resident assms(2) by (simp add: logical_def seen_def)
  next
    case False
    have "overlay dirty (wb_entries w) (content (wb_inner w)) (ce_block (wb_entries w ! i)) = content (wb_inner w) (ce_block (wb_entries w ! i))"
    proof (rule overlay_miss)
      fix j assume "j < length (wb_entries w)" "dirty (wb_entries w ! j)"
      then show "ce_block (wb_entries w ! j) \<noteq> ce_block (wb_entries w ! i)"
        using unique_blocksD [OF cache_unique [OF inv(1)], of j i] assms(2,3) False dirty_resident by blast
    qed
    moreover have "ce_state (wb_entries w ! i) = EntryClean" using assms(3) False by (cases "ce_state (wb_entries w ! i)") (auto simp: resident_def dirty_def)
    ultimately show ?thesis using inv(3) assms(2) by (simp add: logical_def seen_def clean_ok_def)
  qed
qed

lemma logical_absent:
  assumes "wb_inv content w" "\<And>i. \<not> holds (wb_lookup w) b i"
  shows "logical content w b = content (wb_inner w) b"
proof -
  have "i < length (wb_entries w) \<Longrightarrow> dirty (wb_entries w ! i) \<Longrightarrow> ce_block (wb_entries w ! i) \<noteq> b" for i
    using assms wb_invD(1) [OF assms(1)] dirty_resident by (auto simp: cache_wf_def agrees_def)
  then show ?thesis unfolding logical_def seen_def by (intro overlay_miss) auto
qed

lemma read_hit_runs:
  assumes "wb_good content snaps w" "i < length (wb_entries w)" "resident (wb_entries w ! i)"
  shows "runs (read_hit i) w (\<lambda>r w'. keeps content snaps w w' \<and> r = Inr (logical content w (ce_block (wb_entries w ! i))))"
proof -
  note inv = wb_invD [OF good_inv [OF assms(1)]]
  let ?e = "(wb_entries w ! i)\<lparr>ce_last_used := saturating_add (wb_access_clock w) 1\<rparr>"
  let ?w = "w\<lparr>wb_access_clock := saturating_add (wb_access_clock w) 1, wb_entries := (wb_entries w)[i := ?e]\<rparr>"
  have "length (ce_data (wb_entries w ! i)) = WRITEBACK_BLOCK_SIZE" using inv(1) assms(2) by (simp add: cache_wf_def entry_ok_def)
  then have "cache_wf ?w"
    by (intro cache_wf_touched [OF inv(1) _ _ _ _ assms(2,3), where e = ?e]) (use assms(3) in \<open>auto simp: frame_def resident_def dirty_def\<close>)
  moreover have "keep_dirty (wb_entries w) (wb_entries ?w)" using assms(2) by (simp add: keep_dirty_update dirty_def)
  moreover have "clean_ok (content (wb_inner w)) (wb_entries ?w)"
    using clean_ok_update [OF inv(3), of ?e i] inv(3) assms(2) by (simp add: clean_ok_def)
  ultimately have "keeps content snaps w ?w" by (intro frame_keeps [OF assms(1)]) (simp_all add: frame_def)
  then show ?thesis
    using assms(2,3) logical_resident [OF good_inv [OF assms(1)] assms(2,3)]
    by (simp add: read_hit_def next_access_def resident_def)
qed

end
