(* ===== verification/Spec2Isabelle.thy ===== *)
theory Spec2Isabelle
  imports Kernel_System Thread_Scheduler Frame_Allocator Wait_Runtime Frame_Storage Elf_Loader Write_Back_Disk
begin

text \<open>
  GinkgoOS kernel core: a verification library.

  \<^bold>\<open>The program.\<close> GinkgoOS is a capability kernel for x86-64 in Rust. User threads name kernel objects by handles of a
  per-process table; the objects (channels, windows, shared memory, processes, requests, power and scheduling authority) live
  in reference-counted allocations, carry level-triggered signals, and wake the threads that wait on them through a wait
  runtime. A thread scheduler decides who runs. Physical frames come from one allocator; shared memory takes them through an
  arena and reaches them through the direct mapping. The library models these parts, each as a shallow embedding that keeps
  the order of the code's checks and updates.

  \<^bold>\<open>Conventions.\<close> A \<^verbatim>\<open>Result\<close> is \<open>'e + 'a\<close> with the error left. Where the code can panic (\<^verbatim>\<open>expect\<close>, an assertion, an index),
  the result is an option and \<open>None\<close> is the panic; the properties show that it does not happen. Unsigned machine integers
  are natural numbers with \<open>checked_add\<close>, \<open>saturating_add\<close> and \<open>u64_max\<close> written where the code has them (\<^verbatim>\<open>usize\<close> is 64 bits);
  rights, signals and handles are words. Every fallible allocation asks an oracle \<open>allocs = nat \<Rightarrow> bool\<close> by the number of the
  attempt, so that theorems hold for every pattern of failures. A lock held for a whole operation makes that operation one
  step. There is no fuel: loops are structural recursion or functions with a termination proof.

  \<^bold>\<open>The theories.\<close>
  \<^item> \<open>Ginkgo_Prelude\<close>: machine arithmetic, bit sets, vectors with checked access, list lemmas; \<open>Binary_Heap\<close>: heaps in a vector.
  \<^item> \<open>Sysapi\<close> (\<^verbatim>\<open>ginkgo-sysapi/src/lib.rs\<close>): rights, signals, statuses and the values of the kernel ABI with their encodings.
  \<^item> \<open>Handle_Table\<close> (\<^verbatim>\<open>ginkgo-ipc/src/kernel.rs\<close>): slots with generations, lookup with rights, reservation, closing, and batch
    transfer between tables. The locale \<open>slot_store\<close> is the contract of reserve and install, \<open>generation_slots\<close> the one of
    slots whose generation only grows; both are interpreted on the table.
  \<^item> \<open>Signal_Waiters\<close>: waiter lists and the notification loop that leaves the lock around each observer call; the locale
    \<open>waitable\<close> is the contract of an object with signals and waiters, interpreted on channels, windows, processes and requests.
  \<^item> \<open>Channel_State\<close>, \<open>Window_State\<close>, \<open>Control_Objects\<close>, \<open>Shared_Memory\<close>: what each object does under its own lock. The locale
    \<open>one_outcome\<close> of \<open>Control_Objects\<close> is interpreted on processes and requests.
  \<^item> \<open>Kernel_Heap\<close>: objects with reference counts and the drop cascade; \<open>Channel_Calls\<close>: channel create, write with moved and
    duplicated handles, cycle detection, read; \<open>Kernel_Calls\<close>: every other call on the table, leases and wait registrations;
    \<open>Kernel_System\<close>: all tables, leases, registrations and the heap as one system with its reachable states.
  \<^item> \<open>Thread_Scheduler\<close> (\<^verbatim>\<open>ginkgo-kernel/src/thread_scheduler.rs\<close>): classes, budgets, deadlines, aging, donation chains.
  \<^item> \<open>Frame_Allocator\<close> (\<^verbatim>\<open>memory.rs\<close>): memory-map validation, the ownership ledger, single and contiguous allocation, reservation,
    release, statistics.
  \<^item> \<open>Wait_Runtime\<close> (\<^verbatim>\<open>wait_runtime.rs\<close>): tokens, the observer with its ready queue, the indexed deadline heap.
  \<^item> \<open>Frame_Storage\<close> (\<^verbatim>\<open>shared_memory.rs\<close>): the frame arena, page-wise copies, the factory that installs a storage as an object.
  \<^item> \<open>Elf_Loader\<close> (\<^verbatim>\<open>elf.rs\<close>): the reader over untrusted bytes, validation into a load plan, the page loop.
  \<^item> \<open>Panic_Monad\<close>: methods that return a result, change their object and may panic; \<open>Probe_Table\<close>: the open-address lookup table;
    \<open>Write_Back\<close> (\<^verbatim>\<open>writeback.rs\<close>): the write-back block cache; \<open>Write_Back_Invariant\<close>: its invariant and the rules of its methods.

  \<^bold>\<open>What is shown.\<close>
  \<^item> Capabilities: a closed handle stays invalid, a batch transfer is atomic and only attenuates rights.
  \<^item> Object lifetime: reference counts are exact in every reachable system, queued endpoints never form a cycle, nothing leaks,
    a peer shows as closed exactly when nothing refers to it.
  \<^item> Messages: a write is all or nothing and refines appending to a FIFO, a read refines removing its head, and what is written
    is what is read; the cycle check decides reachability exactly.
  \<^item> Waiting: no waiter sleeps through a signal; a signalled wait reaches the ready queue and the dispatcher; the wait runtime
    refines a map of waits with a FIFO of notifications; tokens are never reused.
  \<^item> Scheduling: run queues hold exactly the runnable threads, dispatch never panics, follows its selection rule and is work
    conserving, quanta are bounded, boosts come from recorded donations which a dispatch drops once expired, donations unwind.
  \<^item> Memory: live frames lie in usable memory with all their bytes, are handed out once, reserved frames never; accounting is exact; shared memory is
    zeroed and private when created, behaves as a byte array, and its frames are conserved.
  \<^item> Executables: an accepted image is safe to map, loading calls the page callback for exactly its pages and contents, the
    reserved-range check is exact.
  \<^item> Windows and control objects: exact buffer ownership, manager progress, one outcome per process and per request, ordered
    power transitions, revoked leases stay dead unless the generation has saturated.

  \<^bold>\<open>Parameters.\<close> The x86\_64 crate's \<^verbatim>\<open>PhysAddr::try_new\<close>, \<^verbatim>\<open>PhysFrame::from_start_address\<close> (\<open>phys_api\<close>) and \<^verbatim>\<open>VirtAddr::try_new\<close>
  (\<open>va\<close>) are arguments; \<open>phys_api_ok\<close> states their documented acceptance. Whether an observer is still alive (a \<^verbatim>\<open>Weak\<close> upgrade) is
  an argument \<open>alive\<close>.

  \<^bold>\<open>Not modelled.\<close> \<^verbatim>\<open>main.rs\<close>, \<^verbatim>\<open>process.rs\<close> and \<^verbatim>\<open>syscall.rs\<close> of the kernel crate tie the modelled parts to page tables, user
  memory and the boot sequence; \<^verbatim>\<open>arch.rs\<close>, the device drivers (USB, AHCI, virtio, ATA, PCI, audio, local APIC) and the boot
  protocol are register and port access. The compositor, the desktop, file systems, the terminal and the other user programs
  are separate programs over the kernel interface. The vendored packages and the build scripts are outside the program.
\<close>

end
